(* ===== verification/Prelude.thy ===== *)
theory Prelude
  imports Main "HOL-Library.Sublist"
begin

text \<open>
  Shared vocabulary of the development: the result type of C code that can go wrong
  (\<open>'a res\<close>), checked array accesses (a read or write outside an allocation is the value
  \<open>Inl OutOfBounds\<close>, never an unspecified element), C strings as lists of bytes, the
  \<^verbatim>\<open>ctype.h\<close> predicates in the C locale and the string helpers of
  \<^verbatim>\<open>src/teliva.c\<close>.  The collections \<open>res_simps\<close> and \<open>bounds\<close> are used by every
  component.
\<close>

section \<open>Results of fallible C code\<close>

named_theorems res_simps "unfolding of checked operations"
named_theorems bounds "length facts of arrays after an operation"

datatype c_error =
    OutOfBounds
  | NullPointer
  | AssertionFailed
  | OutOfFuel
  | ExitCode int
  | LuaError string

type_synonym 'a res = "c_error + 'a"

fun bindR :: "'a res \<Rightarrow> ('a \<Rightarrow> 'b res) \<Rightarrow> 'b res" where
  "bindR (Inl e) f = Inl e"
| "bindR (Inr x) f = f x"

lemma bindR_Inr_iff [res_simps]:
  "bindR m f = Inr y \<longleftrightarrow> (\<exists>x. m = Inr x \<and> f x = Inr y)"
  by (cases m) auto

text \<open>
  \<open>sound r P\<close> says that \<open>r\<close> is a value with \<open>P\<close> or a Lua error raised on purpose: no read
  outside an array, no failed assertion, no missing fuel.
\<close>

fun sound :: "'a res \<Rightarrow> ('a \<Rightarrow> bool) \<Rightarrow> bool" where
  "sound (Inr x) P \<longleftrightarrow> P x"
| "sound (Inl (LuaError m)) P \<longleftrightarrow> True"
| "sound (Inl e) P \<longleftrightarrow> False"

lemma sound_bindR: "sound m Q \<Longrightarrow> (\<And>x. m = Inr x \<Longrightarrow> Q x \<Longrightarrow> sound (f x) P) \<Longrightarrow> sound (bindR m f) P"
  by (cases "(m, Q)" rule: sound.cases) auto

lemma sound_mono: "sound m Q \<Longrightarrow> (\<And>x. m = Inr x \<Longrightarrow> Q x \<Longrightarrow> P x) \<Longrightarrow> sound m P"
  by (cases "(m, Q)" rule: sound.cases) auto

lemma bindR_assoc: "bindR (bindR m f) g = bindR m (\<lambda>x. bindR (f x) g)"
  by (cases m) auto

lemma bindR_cong [fundef_cong]:
  "m = m' \<Longrightarrow> (\<And>x. m' = Inr x \<Longrightarrow> f x = f' x) \<Longrightarrow> bindR m f = bindR m' f'"
  by (cases m') auto

definition assertR :: "bool \<Rightarrow> 'a res \<Rightarrow> 'a res" where
  "assertR b k = (if b then k else Inl AssertionFailed)"

lemma assertR_simps [simp]: "assertR True k = k" "assertR False k = Inl AssertionFailed"
  by (simp_all add: assertR_def)

lemma assertR_Inr_iff [res_simps]: "assertR b k = Inr y \<longleftrightarrow> b \<and> k = Inr y"
  by (simp add: assertR_def)

fun foldMR :: "('a \<Rightarrow> 's \<Rightarrow> 's res) \<Rightarrow> 'a list \<Rightarrow> 's \<Rightarrow> 's res" where
  "foldMR f [] s = Inr s"
| "foldMR f (x # xs) s = bindR (f x s) (foldMR f xs)"

lemma foldMR_append: "foldMR f (xs @ ys) s = bindR (foldMR f xs s) (foldMR f ys)"
proof (induction xs arbitrary: s)
  case (Cons x xs)
  then show ?case by (cases "f x s") simp_all
qed simp

section \<open>Checked array accesses\<close>

definition nthR :: "'a list \<Rightarrow> nat \<Rightarrow> 'a res" where
  "nthR xs i = (if i < length xs then Inr (xs ! i) else Inl OutOfBounds)"

definition updR :: "'a list \<Rightarrow> nat \<Rightarrow> 'a \<Rightarrow> 'a list res" where
  "updR xs i v = (if i < length xs then Inr (xs[i := v]) else Inl OutOfBounds)"

definition memsetR :: "'a list \<Rightarrow> nat \<Rightarrow> 'a \<Rightarrow> nat \<Rightarrow> 'a list res" where
  "memsetR xs i v n =
     (if i + n \<le> length xs then Inr (take i xs @ replicate n v @ drop (i + n) xs)
      else Inl OutOfBounds)"

lemma nthR_Inr_iff [res_simps]: "nthR xs i = Inr v \<longleftrightarrow> i < length xs \<and> v = xs ! i"
  by (auto simp: nthR_def)

lemma nthR_ok [simp]: "i < length xs \<Longrightarrow> nthR xs i = Inr (xs ! i)"
  by (simp add: nthR_def)

lemma updR_Inr_iff [res_simps]: "updR xs i v = Inr ys \<longleftrightarrow> i < length xs \<and> ys = xs[i := v]"
  by (auto simp: updR_def)

lemma updR_ok [simp]: "i < length xs \<Longrightarrow> updR xs i v = Inr (xs[i := v])"
  by (simp add: updR_def)

lemma memsetR_Inr_iff [res_simps]:
  "memsetR xs i v n = Inr ys \<longleftrightarrow>
     i + n \<le> length xs \<and> ys = take i xs @ replicate n v @ drop (i + n) xs"
  by (auto simp: memsetR_def)

lemma memsetR_ok [simp]:
  "i + n \<le> length xs \<Longrightarrow> memsetR xs i v n = Inr (take i xs @ replicate n v @ drop (i + n) xs)"
  by (simp add: memsetR_def)

lemma length_memset [bounds]:
  "i + n \<le> length xs \<Longrightarrow> length (take i xs @ replicate n v @ drop (i + n) xs) = length xs"
  by simp

section \<open>C strings and character classes\<close>

abbreviation NUL :: char where "NUL \<equiv> CHR 0x00"
abbreviation TAB :: char where "TAB \<equiv> CHR 0x09"
abbreviation NL :: char where "NL \<equiv> CHR 0x0A"
abbreviation CR :: char where "CR \<equiv> CHR 0x0D"
abbreviation SPC :: char where "SPC \<equiv> CHR 0x20"

definition c_str :: "string \<Rightarrow> string" where
  "c_str s = takeWhile (\<lambda>c. c \<noteq> NUL) s"

definition isspace :: "char \<Rightarrow> bool" where
  "isspace c \<longleftrightarrow> c \<in> {SPC, TAB, NL, CHR 0x0B, CHR 0x0C, CR}"

definition isdigit :: "char \<Rightarrow> bool" where
  "isdigit c \<longleftrightarrow> c \<in> set ''0123456789''"

definition isalpha :: "char \<Rightarrow> bool" where
  "isalpha c \<longleftrightarrow>
     c \<in> set ''abcdefghijklmnopqrstuvwxyz'' \<or> c \<in> set ''ABCDEFGHIJKLMNOPQRSTUVWXYZ''"

definition isalnum :: "char \<Rightarrow> bool" where
  "isalnum c \<longleftrightarrow> isalpha c \<or> isdigit c"

definition isprint :: "char \<Rightarrow> bool" where
  "isprint c \<longleftrightarrow> 32 \<le> (of_char c :: nat) \<and> (of_char c :: nat) < 127"

lemma of_char_256: "(of_char c :: nat) < 256"
  by (metis mod_less_divisor of_char_mod_256 zero_less_numeral)

definition starts_with :: "string \<Rightarrow> string \<Rightarrow> bool" where
  "starts_with s pre \<longleftrightarrow> take (length pre) s = pre"

fun strstr :: "string \<Rightarrow> string \<Rightarrow> nat option" where
  "strstr s sub =
     (if starts_with s sub then Some 0
      else case s of [] \<Rightarrow> None | _ # s' \<Rightarrow> map_option Suc (strstr s' sub))"

definition contains :: "string \<Rightarrow> string \<Rightarrow> bool" where
  "contains s sub \<longleftrightarrow> strstr s sub \<noteq> None"

definition any_equal :: "string list \<Rightarrow> string \<Rightarrow> bool" where
  "any_equal arr s \<longleftrightarrow> list_ex (\<lambda>a. a = s) arr"

definition any_starts_with :: "string list \<Rightarrow> string \<Rightarrow> bool" where
  "any_starts_with arr s \<longleftrightarrow> list_ex (\<lambda>a. starts_with s a) arr"

declare strstr.simps [simp del]

lemma starts_with_prefix: "starts_with s pre \<longleftrightarrow> prefix pre s"
  by (metis append_eq_conv_conj append_take_drop_id prefix_def starts_with_def)

lemma starts_with_length: "starts_with s pre \<Longrightarrow> length pre \<le> length s"
  by (auto simp: starts_with_prefix dest: prefix_length_le)

lemma starts_with_append [simp]: "starts_with (pre @ s) pre"
  by (simp add: starts_with_def)

lemma strstr_Some:
  "strstr s sub = Some k \<Longrightarrow> k + length sub \<le> length s \<and> take (length sub) (drop k s) = sub"
proof (induction s arbitrary: k)
  case Nil
  then show ?case
    by (auto simp: strstr.simps [of "[]"] starts_with_def split: if_splits)
next
  case (Cons c s)
  show ?case
  proof (cases "starts_with (c # s) sub")
    case True
    with Cons.prems have "k = 0"
      by (simp add: strstr.simps [of "c # s"])
    with True show ?thesis
      using starts_with_length [OF True] by (simp add: starts_with_def)
  next
    case False
    with Cons.prems obtain j where j: "strstr s sub = Some j" "k = Suc j"
      by (auto simp: strstr.simps [of "c # s"])
    then show ?thesis using Cons.IH [OF j(1)] by simp
  qed
qed

lemma contains_sublist: "contains s sub \<longleftrightarrow> sublist sub s"
proof (induction s)
  case Nil
  then show ?case
    by (auto simp: contains_def strstr.simps [of "[]"] starts_with_def)
next
  case (Cons c s)
  then show ?case
    by (auto simp: contains_def strstr.simps [of "c # s"] starts_with_prefix sublist_Cons_right)
qed

lemma c_str_no_NUL [simp]: "NUL \<notin> set (c_str s)"
  by (auto simp: c_str_def dest: set_takeWhileD)

lemma c_str_id: "NUL \<notin> set s \<Longrightarrow> c_str s = s"
  by (induction s) (auto simp: c_str_def)

lemma take_nth_drop: "i < length xs \<Longrightarrow> drop i xs = xs ! i # drop (Suc i) xs"
  by (simp add: Cons_nth_drop_Suc)

end
