(* ===== verification/Highlight.thy ===== *)
theory Highlight
  imports Prelude
begin

text \<open>
  The syntax highlighter of the built-in editor (\<^verbatim>\<open>src/src/kilo.c\<close>, functions
  \<open>is_separator\<close>, \<open>editorRowHasOpenComment\<close> and the scanning loop of
  \<open>editorUpdateSyntax\<close>).  A highlight array \<open>row->hl\<close> is a list with one entry per
  rendered character; every \<open>memset\<close> and every store into it is a checked access, so that
  running past the allocation is the value \<open>Inl OutOfBounds\<close>.  The loop body is one
  definition per clause of the source, in the source's order (\<open>hl_step\<close>); the loop is
  fuelled and \<open>highlight_total\<close> shows that one unit of fuel per character is enough.
\<close>

section \<open>Highlight types and syntaxes\<close>

datatype hltype =
    HL_NORMAL | HL_NONPRINT | HL_COMMENT | HL_MLCOMMENT | HL_KEYWORD1 | HL_KEYWORD2
  | HL_STRING | HL_NUMBER | HL_MATCH | HL_SELECTABLE | HL_SELECTABLE_BORDER

record editorSyntax =
  hl_keywords :: "string list option"
  singleline_comment_start :: "string option"
  multiline_comment_start :: "string option"
  multiline_comment_end :: "string option"
  selectable_start :: "string option"
  selectable_end :: "string option"
  isLuaSyntax :: bool  \<comment> \<open>the pointer test \<open>E.syntax == &LuaSyntax\<close>\<close>

definition Lua_HL_keywords :: "string list" where
  "Lua_HL_keywords =
    [''do'', ''end'', ''function'', ''return'', ''require'', ''local'',
     ''if'', ''then'', ''else'', ''elseif'',
     ''while'', ''for'', ''repeat'', ''until'', ''break'',
     ''and'', ''or'', ''not'', ''in'',
     ''nil|'', ''false|'', ''true|'']"

definition LuaSyntax :: editorSyntax where
  "LuaSyntax = \<lparr>hl_keywords = Some Lua_HL_keywords,
     singleline_comment_start = Some ''--'',
     multiline_comment_start = Some ''--[['', multiline_comment_end = Some ''--]]'',
     selectable_start = None, selectable_end = None, isLuaSyntax = True\<rparr>"

definition ProseSyntax :: editorSyntax where
  "ProseSyntax = \<lparr>hl_keywords = None, singleline_comment_start = None,
     multiline_comment_start = None, multiline_comment_end = None,
     selectable_start = Some ''[['', selectable_end = Some '']]'', isLuaSyntax = False\<rparr>"

definition is_separator :: "char \<Rightarrow> bool" where
  "is_separator c \<longleftrightarrow> c = NUL \<or> isspace c \<or> c \<in> set '',.()+-/*=~%[];''"

text \<open>\<open>render\<close> is followed by a terminating NUL, which may be read but not passed.\<close>

definition peekR :: "string \<Rightarrow> nat \<Rightarrow> char res" where
  "peekR s i = (if i < length s then Inr (s ! i)
                else if i = length s then Inr NUL else Inl OutOfBounds)"

definition editorRowHasOpenComment ::
    "hltype list \<Rightarrow> string \<Rightarrow> string option \<Rightarrow> bool res" where
  "editorRowHasOpenComment hl render mce =
     (let rsize = length render in
      if rsize = 0 then Inr False
      else bindR (nthR hl (rsize - 1)) (\<lambda>h.
        if h \<noteq> HL_MLCOMMENT then Inr False
        else case mce of None \<Rightarrow> Inl NullPointer
        | Some e \<Rightarrow> Inr (rsize < length e \<or> c_str (drop (rsize - length e) render) \<noteq> e)))"

section \<open>One iteration of the scanning loop\<close>

record hlpos =
  pos :: nat                    \<comment> \<open>\<open>i\<close>, and \<open>p = render + i\<close>\<close>
  prev_sep :: bool
  in_string :: "char option"    \<comment> \<open>the opening quote, or 0\<close>
  in_comment :: bool
  in_selectable :: bool
  hlarr :: "hltype list"

datatype hl_next = Continue hlpos | ReturnEarly "hltype list"

type_synonym clause = "hl_next res option"  \<comment> \<open>\<open>None\<close>: fall through to the next clause\<close>

definition advance :: "hlpos \<Rightarrow> hltype \<Rightarrow> nat \<Rightarrow> hlpos res" where
  "advance st t n =
     bindR (memsetR (hlarr st) (pos st) t n) (\<lambda>h. Inr (st\<lparr>hlarr := h, pos := pos st + n\<rparr>))"

definition clause_mlcomment :: "editorSyntax \<Rightarrow> string \<Rightarrow> hlpos \<Rightarrow> clause" where
  "clause_mlcomment syn render st =
     (case (multiline_comment_start syn, multiline_comment_end syn) of
        (Some mcs, Some mce) \<Rightarrow>
          (if in_comment st then Some
             (bindR (updR (hlarr st) (pos st) HL_MLCOMMENT) (\<lambda>h.
              let st = st\<lparr>hlarr := h\<rparr> in
              if starts_with (drop (pos st) render) mce then
                bindR (advance st HL_MLCOMMENT (length mce)) (\<lambda>st.
                Inr (Continue (st\<lparr>in_comment := False, prev_sep := True\<rparr>)))
              else Inr (Continue (st\<lparr>prev_sep := False, pos := pos st + 1\<rparr>))))
           else if starts_with (drop (pos st) render) mcs then Some
             (bindR (advance st HL_MLCOMMENT (length mcs)) (\<lambda>st.
              Inr (Continue (st\<lparr>in_comment := True, prev_sep := False\<rparr>))))
           else None)
      | _ \<Rightarrow> None)"

definition clause_comment :: "editorSyntax \<Rightarrow> string \<Rightarrow> hlpos \<Rightarrow> clause" where
  "clause_comment syn render st =
     (case singleline_comment_start syn of
        Some scs \<Rightarrow>
          (if prev_sep st \<and> starts_with (drop (pos st) render) scs then Some
             (bindR (memsetR (hlarr st) (pos st) HL_COMMENT (length render - pos st))
               (\<lambda>h. Inr (ReturnEarly h)))
           else None)
      | None \<Rightarrow> None)"

definition clause_selectable :: "editorSyntax \<Rightarrow> string \<Rightarrow> hlpos \<Rightarrow> clause" where
  "clause_selectable syn render st =
     (case (selectable_start syn, selectable_end syn) of
        (Some ss, Some se) \<Rightarrow>
          (if in_selectable st then
             (if starts_with (drop (pos st) render) se then Some
                (bindR (advance st HL_SELECTABLE_BORDER (length se)) (\<lambda>st.
                 Inr (Continue (st\<lparr>in_selectable := False, prev_sep := True\<rparr>))))
              else Some
                (bindR (advance st HL_SELECTABLE 1) (\<lambda>st. Inr (Continue (st\<lparr>prev_sep := False\<rparr>)))))
           else if starts_with (drop (pos st) render) ss then Some
             (bindR (advance st HL_SELECTABLE_BORDER (length ss)) (\<lambda>st.
              Inr (Continue (st\<lparr>in_selectable := True, prev_sep := False\<rparr>))))
           else None)
      | _ \<Rightarrow> None)"

definition clause_string :: "editorSyntax \<Rightarrow> string \<Rightarrow> hlpos \<Rightarrow> char \<Rightarrow> clause" where
  "clause_string syn render st c =
     (if isLuaSyntax syn then
        (case in_string st of
           Some q \<Rightarrow> Some
             (bindR (peekR render (pos st + 1)) (\<lambda>c1.
              if c = CHR 0x5C \<and> c1 \<noteq> NUL then
                bindR (advance st HL_STRING 2) (\<lambda>st. Inr (Continue (st\<lparr>prev_sep := False\<rparr>)))
              else
                bindR (advance st HL_STRING 1) (\<lambda>st.
                Inr (Continue (st\<lparr>in_string := (if c = q then None else Some q)\<rparr>)))))
         | None \<Rightarrow>
             (if c = CHR 0x22 \<or> c = CHR 0x27 then Some
                (bindR (advance st HL_STRING 1) (\<lambda>st.
                 Inr (Continue (st\<lparr>in_string := Some c, prev_sep := False\<rparr>))))
              else None))
      else None)"

definition clause_nonprint :: "hlpos \<Rightarrow> char \<Rightarrow> clause" where
  "clause_nonprint st c =
     (if \<not> isprint c then Some
        (bindR (advance st HL_NONPRINT 1) (\<lambda>st. Inr (Continue (st\<lparr>prev_sep := False\<rparr>))))
      else None)"

definition prevIsNumber :: "hlpos \<Rightarrow> bool res" where
  "prevIsNumber st =
     (if pos st = 0 then Inl OutOfBounds
      else bindR (nthR (hlarr st) (pos st - 1)) (\<lambda>h. Inr (h = HL_NUMBER)))"

definition clause_number :: "hlpos \<Rightarrow> char \<Rightarrow> clause res" where
  "clause_number st c =
     bindR (if isdigit c then (if prev_sep st then Inr True else prevIsNumber st) else Inr False)
     (\<lambda>b1. bindR (if b1 then Inr True
                   else if c = CHR ''.'' \<and> pos st > 0 then prevIsNumber st else Inr False)
     (\<lambda>b. Inr (if b then Some
               (bindR (advance st HL_NUMBER 1) (\<lambda>st. Inr (Continue (st\<lparr>prev_sep := False\<rparr>))))
             else None)))"

text \<open>A trailing \<open>|\<close> marks a keyword of the second kind and is not part of the word.\<close>

definition kw_word :: "string \<Rightarrow> string" where
  "kw_word kw = (if last kw = CHR ''|'' then butlast kw else kw)"

definition kw_type :: "string \<Rightarrow> hltype" where
  "kw_type kw = (if last kw = CHR ''|'' then HL_KEYWORD2 else HL_KEYWORD1)"

fun find_keyword :: "string list \<Rightarrow> string \<Rightarrow> nat \<Rightarrow> string option res" where
  "find_keyword [] render i = Inr None"
| "find_keyword (kw # kws) render i =
     (let klen = length (kw_word kw) in
      if klen \<le> length render - i \<and> take klen (drop i render) = kw_word kw then
        bindR (peekR render (i + klen)) (\<lambda>c.
        if is_separator c then Inr (Some kw) else find_keyword kws render i)
      else find_keyword kws render i)"

definition clause_keyword :: "editorSyntax \<Rightarrow> string \<Rightarrow> hlpos \<Rightarrow> clause res" where
  "clause_keyword syn render st =
     (case hl_keywords syn of
        None \<Rightarrow> Inr None
      | Some kws \<Rightarrow>
          if prev_sep st then
            bindR (find_keyword kws render (pos st)) (\<lambda>r.
            case r of None \<Rightarrow> Inr None
            | Some kw \<Rightarrow> Inr (Some
                (bindR (advance st (kw_type kw) (length (kw_word kw))) (\<lambda>st.
                 Inr (Continue (st\<lparr>prev_sep := False\<rparr>))))))
          else Inr None)"

definition clause_plain :: "hlpos \<Rightarrow> char \<Rightarrow> hl_next res" where
  "clause_plain st c = Inr (Continue (st\<lparr>prev_sep := is_separator c, pos := pos st + 1\<rparr>))"

definition orElse :: "'a option \<Rightarrow> 'a \<Rightarrow> 'a" where
  "orElse x y = (case x of None \<Rightarrow> y | Some z \<Rightarrow> z)"

definition hl_step :: "editorSyntax \<Rightarrow> string \<Rightarrow> hlpos \<Rightarrow> char \<Rightarrow> hl_next res" where
  "hl_step syn render st c =
     orElse (clause_mlcomment syn render st)
    (orElse (clause_comment syn render st)
    (orElse (clause_selectable syn render st)
    (orElse (clause_string syn render st c)
    (orElse (clause_nonprint st c)
    (bindR (clause_number st c) (\<lambda>cn. orElse cn
    (bindR (clause_keyword syn render st) (\<lambda>ck. orElse ck
    (clause_plain st c)))))))))"

section \<open>The loop\<close>

datatype hl_result = Scanned "hltype list" | Returned "hltype list"

fun hl_of :: "hl_result \<Rightarrow> hltype list" where
  "hl_of (Scanned h) = h"
| "hl_of (Returned h) = h"

fun hl_loop :: "nat \<Rightarrow> editorSyntax \<Rightarrow> string \<Rightarrow> hlpos \<Rightarrow> hl_result res" where
  "hl_loop 0 syn render st = Inl OutOfFuel"
| "hl_loop (Suc n) syn render st =
     bindR (peekR render (pos st)) (\<lambda>c.
     if c = NUL then Inr (Scanned (hlarr st))
     else bindR (hl_step syn render st c) (\<lambda>r.
       case r of Continue st' \<Rightarrow> hl_loop n syn render st'
       | ReturnEarly h \<Rightarrow> Inr (Returned h)))"

definition hl_start :: "string \<Rightarrow> bool \<Rightarrow> hlpos" where
  "hl_start render open_above =
     \<lparr>pos = length (takeWhile isspace render), prev_sep = True, in_string = None,
      in_comment = open_above, in_selectable = False,
      hlarr = replicate (length render) HL_NORMAL\<rparr>"

definition highlight :: "editorSyntax \<Rightarrow> bool \<Rightarrow> string \<Rightarrow> hl_result res" where
  "highlight syn open_above render =
     hl_loop (Suc (length render)) syn render (hl_start render open_above)"

section \<open>Every access is in bounds, and every iteration advances\<close>

definition wf_syntax :: "editorSyntax \<Rightarrow> bool" where
  "wf_syntax syn \<longleftrightarrow>
     multiline_comment_start syn \<noteq> Some [] \<and> multiline_comment_end syn \<noteq> Some [] \<and>
     selectable_start syn \<noteq> Some [] \<and> selectable_end syn \<noteq> Some [] \<and>
     list_all (\<lambda>kw. kw_word kw \<noteq> []) (case hl_keywords syn of None \<Rightarrow> [] | Some kws \<Rightarrow> kws)"

lemma wf_LuaSyntax [simp]: "wf_syntax LuaSyntax"
  by (simp add: wf_syntax_def LuaSyntax_def Lua_HL_keywords_def kw_word_def)

lemma wf_ProseSyntax [simp]: "wf_syntax ProseSyntax"
  by (simp add: wf_syntax_def ProseSyntax_def)

definition hl_inv :: "string \<Rightarrow> hlpos \<Rightarrow> bool" where
  "hl_inv render st \<longleftrightarrow>
     length (hlarr st) = length render \<and> pos st \<le> length render \<and> (prev_sep st \<or> 0 < pos st)"

definition hl_good :: "string \<Rightarrow> hlpos \<Rightarrow> hl_next \<Rightarrow> bool" where
  "hl_good render st r \<longleftrightarrow>
     (case r of Continue st' \<Rightarrow> hl_inv render st' \<and> pos st < pos st'
      | ReturnEarly h \<Rightarrow> length h = length render)"

definition clause_ok :: "string \<Rightarrow> hlpos \<Rightarrow> clause \<Rightarrow> bool" where
  "clause_ok render st cl \<longleftrightarrow> (\<forall>m. cl = Some m \<longrightarrow> (\<exists>r. m = Inr r \<and> hl_good render st r))"

named_theorems clauses "every clause of the loop body is safe"

lemma starts_with_drop_length:
  "starts_with (drop i s) pre \<Longrightarrow> i \<le> length s \<Longrightarrow> i + length pre \<le> length s"
  by (drule starts_with_length) simp

lemma advance_ok [simp]:
  "hl_inv render st \<Longrightarrow> pos st + n \<le> length render \<Longrightarrow>
   advance st t n = Inr (st\<lparr>hlarr := take (pos st) (hlarr st) @ replicate n t @ drop (pos st + n) (hlarr st),
                          pos := pos st + n\<rparr>)"
  by (simp add: advance_def hl_inv_def)

lemma clause_mlcomment_ok [clauses]:
  assumes "hl_inv render st" "pos st < length render" "wf_syntax syn"
  shows "clause_ok render st (clause_mlcomment syn render st)"
proof -
  have inv': "hl_inv render (st\<lparr>hlarr := (hlarr st)[pos st := t]\<rparr>)" for t
    using assms by (simp add: hl_inv_def)
  show ?thesis
    using assms
    by (auto simp: clause_mlcomment_def clause_ok_def hl_good_def hl_inv_def wf_syntax_def Let_def
          advance_def dest: starts_with_drop_length split: option.splits)
qed

lemma clause_comment_ok [clauses]:
  assumes "hl_inv render st" "pos st < length render"
  shows "clause_ok render st (clause_comment syn render st)"
  using assms
  by (auto simp: clause_comment_def clause_ok_def hl_good_def hl_inv_def split: option.splits)

lemma clause_selectable_ok [clauses]:
  assumes "hl_inv render st" "pos st < length render" "wf_syntax syn"
  shows "clause_ok render st (clause_selectable syn render st)"
  using assms
  by (auto simp: clause_selectable_def clause_ok_def hl_good_def hl_inv_def wf_syntax_def
        advance_def dest: starts_with_drop_length split: option.splits)

lemma peekR_total: "i \<le> length s \<Longrightarrow> \<exists>c. peekR s i = Inr c \<and> (c \<noteq> NUL \<longrightarrow> i < length s)"
  by (auto simp: peekR_def)

lemma clause_string_ok [clauses]:
  assumes "hl_inv render st" "pos st < length render"
  shows "clause_ok render st (clause_string syn render st c)"
proof -
  obtain c1 where c1: "peekR render (Suc (pos st)) = Inr c1"
      "c1 \<noteq> NUL \<Longrightarrow> Suc (Suc (pos st)) \<le> length render"
    using peekR_total [of "Suc (pos st)" render] assms(2) by auto
  show ?thesis
  proof (cases "in_string st")
    case None
    with assms show ?thesis
      by (auto simp: clause_string_def clause_ok_def hl_good_def hl_inv_def advance_def)
  next
    case (Some q)
    show ?thesis
    proof (cases "c = CHR 0x5C \<and> c1 \<noteq> NUL")
      case True
      with Some c1 assms show ?thesis
        by (auto simp: clause_string_def clause_ok_def hl_good_def hl_inv_def advance_def)
    next
      case False
      then have "(if c = CHR 0x5C \<and> c1 \<noteq> NUL then x else y) = y" for x y :: "hl_next res" by auto
      with Some c1 assms show ?thesis
        by (auto simp: clause_string_def clause_ok_def hl_good_def hl_inv_def advance_def)
    qed
  qed
qed

lemma clause_nonprint_ok [clauses]:
  assumes "hl_inv render st" "pos st < length render"
  shows "clause_ok render st (clause_nonprint st c)"
  using assms
  by (auto simp: clause_nonprint_def clause_ok_def hl_good_def hl_inv_def advance_def)

lemma prevIsNumber_ok: "hl_inv render st \<Longrightarrow> 0 < pos st \<Longrightarrow> \<exists>b. prevIsNumber st = Inr b"
  by (auto simp: prevIsNumber_def hl_inv_def)

lemma clause_number_ok [clauses]:
  assumes "hl_inv render st" "pos st < length render"
  shows "\<exists>cl. clause_number st c = Inr cl \<and> clause_ok render st cl"
proof -
  have adv: "clause_ok render st (if b then Some (bindR (advance st HL_NUMBER 1)
      (\<lambda>st. Inr (Continue (st\<lparr>prev_sep := False\<rparr>)))) else None)" for b
    using assms by (auto simp: clause_ok_def hl_good_def hl_inv_def advance_def)
  have 1: "\<exists>b. (if isdigit c then if prev_sep st then Inr True else prevIsNumber st
      else Inr False) = Inr b"
    using assms prevIsNumber_ok [OF assms(1)] by (auto simp: hl_inv_def)
  have 2: "\<exists>b. (if b1 then Inr True else if c = CHR ''.'' \<and> pos st > 0 then prevIsNumber st
      else Inr False) = Inr b" for b1
    using prevIsNumber_ok [OF assms(1)] by auto
  from 1 obtain b1 where b1: "(if isdigit c then if prev_sep st then Inr True else prevIsNumber st
      else Inr False) = Inr b1" by blast
  from 2 [of b1] obtain b where b: "(if b1 then Inr True else if c = CHR ''.'' \<and> pos st > 0
      then prevIsNumber st else Inr False) = Inr b" by blast
  have "clause_number st c = Inr (if b then Some (bindR (advance st HL_NUMBER 1)
      (\<lambda>st. Inr (Continue (st\<lparr>prev_sep := False\<rparr>)))) else None)"
    unfolding clause_number_def b1 bindR.simps b ..
  with adv show ?thesis by blast
qed

lemma find_keyword_ok:
  assumes "i \<le> length render"
  shows "\<exists>r. find_keyword kws render i = Inr r \<and>
     (\<forall>kw. r = Some kw \<longrightarrow> kw \<in> set kws \<and> i + length (kw_word kw) \<le> length render)"
proof (induction kws)
  case Nil
  then show ?case by simp
next
  case (Cons kw kws)
  let ?n = "length (kw_word kw)"
  show ?case
  proof (cases "?n \<le> length render - i \<and> take ?n (drop i render) = kw_word kw")
    case True
    then have "i + ?n \<le> length render" using assms by linarith
    then obtain c where "peekR render (i + ?n) = Inr c"
      using peekR_total by blast
    with True Cons.IH \<open>i + ?n \<le> length render\<close> show ?thesis
      by (auto simp: Let_def)
  next
    case False
    with Cons.IH show ?thesis by (auto simp: Let_def)
  qed
qed

lemma clause_keyword_ok [clauses]:
  assumes "hl_inv render st" "pos st < length render" "wf_syntax syn"
  shows "\<exists>cl. clause_keyword syn render st = Inr cl \<and> clause_ok render st cl"
proof (cases "prev_sep st \<and> hl_keywords syn \<noteq> None")
  case False
  then show ?thesis by (auto simp: clause_keyword_def clause_ok_def split: option.splits)
next
  case True
  then obtain kws where kws: "hl_keywords syn = Some kws" by auto
  have "pos st \<le> length render" using assms by simp
  from find_keyword_ok [OF this, of kws] obtain r where
    r: "find_keyword kws render (pos st) = Inr r"
       "\<And>kw. r = Some kw \<Longrightarrow> kw \<in> set kws \<and> pos st + length (kw_word kw) \<le> length render"
    by blast
  have "kw_word kw \<noteq> []" if "kw \<in> set kws" for kw
    using assms(3) kws that by (simp add: wf_syntax_def list_all_iff)
  with r kws True assms show ?thesis
    by (auto simp: clause_keyword_def clause_ok_def hl_good_def hl_inv_def advance_def
          split: option.splits)
qed

lemma clause_plain_ok [clauses]:
  assumes "hl_inv render st" "pos st < length render"
  shows "\<exists>r. clause_plain st c = Inr r \<and> hl_good render st r"
  using assms by (simp add: clause_plain_def hl_good_def hl_inv_def)

lemma orElse_ok:
  "clause_ok render st cl \<Longrightarrow> \<exists>r. m = Inr r \<and> hl_good render st r \<Longrightarrow>
   \<exists>r. orElse cl m = Inr r \<and> hl_good render st r"
  by (auto simp: orElse_def clause_ok_def split: option.splits)

lemma bind_orElse_ok:
  "\<exists>cl. m = Inr cl \<and> clause_ok render st cl \<Longrightarrow> \<exists>r. k = Inr r \<and> hl_good render st r \<Longrightarrow>
   \<exists>r. bindR m (\<lambda>cl. orElse cl k) = Inr r \<and> hl_good render st r"
  using orElse_ok by fastforce

lemma hl_step_ok:
  assumes "hl_inv render st" "pos st < length render" "wf_syntax syn"
  shows "\<exists>r. hl_step syn render st c = Inr r \<and> hl_good render st r"
  unfolding hl_step_def
  by (intro orElse_ok bind_orElse_ok clauses assms)

lemma hl_loop_ok:
  assumes "hl_inv render st" "wf_syntax syn" "length render - pos st < n"
  shows "\<exists>r. hl_loop n syn render st = Inr r \<and> length (hl_of r) = length render"
  using assms
proof (induction n arbitrary: st)
  case 0
  then show ?case by simp
next
  case (Suc n)
  show ?case
  proof (cases "pos st < length render \<and> render ! pos st \<noteq> NUL")
    case False
    with Suc.prems have "peekR render (pos st) = Inr NUL"
      by (auto simp: peekR_def hl_inv_def)
    with Suc.prems show ?thesis by (simp add: hl_inv_def)
  next
    case True
    with hl_step_ok Suc.prems obtain r where
      r: "hl_step syn render st (render ! pos st) = Inr r" "hl_good render st r"
      by blast
    show ?thesis
    proof (cases r)
      case (Continue st')
      with r Suc.prems have "hl_inv render st'" "length render - pos st' < n"
        by (auto simp: hl_good_def hl_inv_def)
      with Suc.IH Suc.prems True r Continue show ?thesis by (auto simp: peekR_def)
    next
      case (ReturnEarly h)
      with r True show ?thesis by (auto simp: peekR_def hl_good_def)
    qed
  qed
qed

lemma hl_start_inv: "hl_inv render (hl_start render b)"
  by (simp add: hl_inv_def hl_start_def length_takeWhile_le)

lemma highlight_total:
  assumes "wf_syntax syn"
  shows "\<exists>r. highlight syn b render = Inr r \<and> length (hl_of r) = length render"
  unfolding highlight_def
  by (rule hl_loop_ok [OF hl_start_inv assms]) simp

lemma OpenComment_total:
  assumes "length hl = length render" "mce \<noteq> None \<or> HL_MLCOMMENT \<notin> set hl"
  shows "\<exists>b. editorRowHasOpenComment hl render mce = Inr b"
  using assms
  by (auto simp: editorRowHasOpenComment_def Let_def nthR_def split: option.splits)
     (metis One_nat_def diff_less length_greater_0_conv nth_mem zero_less_one)

text \<open>
  A syntax without multi-line comments never produces \<open>HL_MLCOMMENT\<close>, which is what keeps
  \<open>strlen(mce)\<close> in \<open>editorRowHasOpenComment\<close> away from the null pointer.
\<close>

definition no_ml :: "hltype list \<Rightarrow> bool" where
  "no_ml h \<longleftrightarrow> HL_MLCOMMENT \<notin> set h"

lemma no_ml_simps [simp]:
  "no_ml (replicate n t) \<longleftrightarrow> n = 0 \<or> t \<noteq> HL_MLCOMMENT"
  "no_ml (xs @ ys) \<longleftrightarrow> no_ml xs \<and> no_ml ys"
  by (auto simp: no_ml_def)

lemma no_ml_take_drop [simp]: "no_ml xs \<Longrightarrow> no_ml (take i xs)" "no_ml xs \<Longrightarrow> no_ml (drop i xs)"
  by (auto simp: no_ml_def dest: in_set_takeD in_set_dropD)

lemma advance_no_ml:
  "advance st t n = Inr st' \<Longrightarrow> t \<noteq> HL_MLCOMMENT \<Longrightarrow> no_ml (hlarr st) \<Longrightarrow> no_ml (hlarr st')"
  by (auto simp: advance_def res_simps)

fun next_arr :: "hl_next \<Rightarrow> hltype list" where
  "next_arr (Continue st) = hlarr st"
| "next_arr (ReturnEarly h) = h"

lemma kw_type_no_ml [simp]: "kw_type kw \<noteq> HL_MLCOMMENT"
  by (simp add: kw_type_def)

lemma advance_kw_no_ml:
  "advance st (kw_type kw) n = Inr st' \<Longrightarrow> no_ml (hlarr st) \<Longrightarrow> no_ml (hlarr st')"
  by (erule advance_no_ml) simp_all

lemma hl_step_no_ml:
  assumes "multiline_comment_end syn = None" "no_ml (hlarr st)" "hl_step syn render st c = Inr r"
  shows "no_ml (next_arr r)"
proof -
  note D = clause_comment_def clause_selectable_def clause_string_def clause_nonprint_def
    clause_number_def clause_keyword_def clause_plain_def
  have "clause_mlcomment syn render st = None"
    using assms(1) by (simp add: clause_mlcomment_def split: option.splits)
  moreover have "no_ml (next_arr r)" if "clause_comment syn render st = Some (Inr r)"
    using that assms(2) by (auto simp: D res_simps split: option.splits if_splits)
  moreover have "no_ml (next_arr r)" if "clause_selectable syn render st = Some (Inr r)"
    using that assms(2)
    by (auto simp: D res_simps split: option.splits if_splits dest: advance_no_ml)
  moreover have "no_ml (next_arr r)" if "clause_string syn render st c = Some (Inr r)"
    using that assms(2)
    by (auto simp: D res_simps split: option.splits if_splits dest: advance_no_ml)
  moreover have "no_ml (next_arr r)" if "clause_nonprint st c = Some (Inr r)"
    using that assms(2)
    by (auto simp: D res_simps split: option.splits if_splits dest: advance_no_ml)
  moreover have "no_ml (next_arr r)" if "clause_number st c = Inr (Some (Inr r))"
    using that assms(2)
    by (auto simp: D res_simps split: option.splits if_splits dest: advance_no_ml)
  moreover have "no_ml (next_arr r)" if "clause_keyword syn render st = Inr (Some (Inr r))"
    using that assms(2)
    by (auto simp: D res_simps split: option.splits if_splits)
       (erule (1) advance_kw_no_ml)
  moreover have "no_ml (next_arr r)" if "clause_plain st c = Inr r"
    using that assms(2) by (auto simp: D)
  ultimately show ?thesis
    using assms(3) by (auto simp: hl_step_def orElse_def res_simps split: option.splits)
qed

lemma hl_loop_no_ml:
  assumes "multiline_comment_end syn = None" "no_ml (hlarr st)" "hl_loop n syn render st = Inr r"
  shows "no_ml (hl_of r)"
  using assms
proof (induction n arbitrary: st)
  case 0
  then show ?case by simp
next
  case (Suc n)
  from Suc.prems(3) obtain c where c: "(if c = NUL then Inr (Scanned (hlarr st))
     else bindR (hl_step syn render st c) (\<lambda>r. case r of Continue st' \<Rightarrow> hl_loop n syn render st'
       | ReturnEarly h \<Rightarrow> Inr (Returned h))) = Inr r"
    by (auto simp: res_simps)
  show ?case
  proof (cases "c = NUL")
    case True
    with c Suc.prems show ?thesis by auto
  next
    case False
    with c obtain x where x: "hl_step syn render st c = Inr x"
      and x': "(case x of Continue st' \<Rightarrow> hl_loop n syn render st'
       | ReturnEarly h \<Rightarrow> Inr (Returned h)) = Inr r"
      by (auto simp: res_simps)
    from hl_step_no_ml [OF Suc.prems(1,2) x] x' Suc.IH [OF Suc.prems(1)] show ?thesis
      by (cases x) auto
  qed
qed

lemma highlight_no_ml:
  "multiline_comment_end syn = None \<Longrightarrow> highlight syn b render = Inr r \<Longrightarrow> no_ml (hl_of r)"
  using hl_loop_no_ml [of syn "hl_start render b" "Suc (length render)" render r]
  by (simp add: highlight_def hl_start_def del: hl_loop.simps)

end
