(* ===== verification/Rows.thy ===== *)
theory Rows
  imports Highlight
begin

text \<open>
  The row store of the editor (\<^verbatim>\<open>src/src/kilo.c\<close>): the records \<open>erow\<close> and
  \<open>editorConfig\<close>, the rendering of a row, the propagation of open comments from row to row
  in \<open>editorUpdateSyntax\<close>, and the operations that insert, delete and edit rows.  A row's
  \<open>chars\<close> is the allocated buffer including the terminating NUL, so that \<open>size\<close> and the
  buffer can disagree as they do in the middle of \<open>editorRowDelChar\<close>.  Rows are named by
  their index in \<open>E.row\<close>, which is what the source's \<open>erow *\<close> pointers are.
\<close>

section \<open>State\<close>

record erow =
  r_idx :: nat
  r_size :: nat
  r_chars :: string
  r_render :: string
  r_hl :: "hltype list"
  r_hl_oc :: bool

record editorConfig =
  cx :: int
  cy :: int
  startcol :: int
  cols :: int
  startrow :: int
  endrow :: int
  rowoff :: int
  coloff :: int
  numrows :: nat
  erows :: "erow list"
  dirty :: int
  efilename :: string
  esyntax :: "editorSyntax option"

definition row_text :: "erow \<Rightarrow> string" where
  "row_text r = take (r_size r) (r_chars r)"

definition lines_of :: "editorConfig \<Rightarrow> string list" where
  "lines_of E = map row_text (erows E)"

definition set_row :: "editorConfig \<Rightarrow> nat \<Rightarrow> erow \<Rightarrow> editorConfig" where
  "set_row E k r = E\<lparr>erows := (erows E)[k := r]\<rparr>"

definition bump_dirty :: "editorConfig \<Rightarrow> editorConfig" where
  "bump_dirty E = E\<lparr>dirty := dirty E + 1\<rparr>"

section \<open>Highlighting a row and propagating open comments\<close>

definition open_above :: "editorConfig \<Rightarrow> erow \<Rightarrow> string option \<Rightarrow> bool res" where
  "open_above E r mce =
     (if r_idx r > 0 then
        bindR (nthR (erows E) (r_idx r - 1)) (\<lambda>a. editorRowHasOpenComment (r_hl a) (r_render a) mce)
      else Inr False)"

fun editorUpdateSyntax_n :: "nat \<Rightarrow> nat \<Rightarrow> editorConfig \<Rightarrow> editorConfig res" where
  "editorUpdateSyntax_n 0 k E = Inl OutOfFuel"
| "editorUpdateSyntax_n (Suc n) k E =
     bindR (nthR (erows E) k) (\<lambda>r.
     case esyntax E of
       None \<Rightarrow> Inr (set_row E k (r\<lparr>r_hl := replicate (length (r_render r)) HL_NORMAL\<rparr>))
     | Some syn \<Rightarrow>
         bindR (open_above E r (multiline_comment_end syn)) (\<lambda>oa.
         bindR (highlight syn oa (r_render r)) (\<lambda>res.
         case res of
           Returned h \<Rightarrow> Inr (set_row E k (r\<lparr>r_hl := h\<rparr>))
         | Scanned h \<Rightarrow>
             let E1 = set_row E k (r\<lparr>r_hl := h\<rparr>) in
             bindR (editorRowHasOpenComment h (r_render r) (multiline_comment_end syn)) (\<lambda>oc.
             bindR (if r_hl_oc r \<noteq> oc \<and> r_idx r + 1 < numrows E
                    then editorUpdateSyntax_n n (r_idx r + 1) E1 else Inr E1) (\<lambda>E2.
             bindR (nthR (erows E2) k) (\<lambda>r2.
             Inr (set_row E2 k (r2\<lparr>r_hl_oc := oc\<rparr>))))))))"

definition editorUpdateSyntax :: "nat \<Rightarrow> editorConfig \<Rightarrow> editorConfig res" where
  "editorUpdateSyntax k E = editorUpdateSyntax_n (Suc (length (erows E))) k E"

section \<open>Rendering a row\<close>

text \<open>\<open>while((idx+1) % 8 != 0) row->render[idx++] = ' ';\<close>\<close>

function tab_fill :: "nat \<Rightarrow> string" where
  "tab_fill idx = (if (idx + 1) mod 8 \<noteq> 0 then SPC # tab_fill (idx + 1) else [])"
  by pat_completeness auto
termination
  by (relation "measure (\<lambda>idx. 7 - idx mod 8)") (auto simp: mod_Suc)

declare tab_fill.simps [simp del]

fun render_from :: "nat \<Rightarrow> string \<Rightarrow> string" where
  "render_from idx [] = []"
| "render_from idx (c # cs) =
     (if c = TAB then
        let pad = tab_fill (idx + 1) in SPC # pad @ render_from (idx + 1 + length pad) cs
      else c # render_from (idx + 1) cs)"

text \<open>
  The allocation: \<open>tabs*8\<close> is computed in 32-bit unsigned arithmetic before it is added in
  64 bits, and the argument of \<open>malloc\<close> is again a 32-bit sum.
\<close>

definition allocsize :: "string \<Rightarrow> nat" where
  "allocsize t = length t + (count_list t TAB * 8) mod 2 ^ 32 + 1"

definition render_malloc :: "string \<Rightarrow> nat" where
  "render_malloc t = (length t + count_list t TAB * 8 + 1) mod 2 ^ 32"

definition editorUpdateRow :: "nat \<Rightarrow> editorConfig \<Rightarrow> editorConfig res" where
  "editorUpdateRow k E =
     bindR (nthR (erows E) k) (\<lambda>r.
     let t = row_text r; render = render_from 0 t in
     if r_size r > length (r_chars r) then Inl OutOfBounds
     else if allocsize t > 2 ^ 32 - 1 then Inl (ExitCode 1)
     else if length render + 1 > render_malloc t then Inl OutOfBounds
     else editorUpdateSyntax k (set_row E k (r\<lparr>r_render := render\<rparr>)))"

section \<open>Inserting and deleting rows\<close>

definition shift_idx :: "(nat \<Rightarrow> nat) \<Rightarrow> erow \<Rightarrow> erow" where
  "shift_idx f r = r\<lparr>r_idx := f (r_idx r)\<rparr>"

definition editorInsertRow :: "nat \<Rightarrow> string \<Rightarrow> nat \<Rightarrow> editorConfig \<Rightarrow> editorConfig res" where
  "editorInsertRow at s len E =
     (if at > numrows E then Inr E
      else if len + 1 > length s then Inl OutOfBounds
      else
        let new = \<lparr>r_idx = at, r_size = len, r_chars = take (len + 1) s, r_render = [],
                   r_hl = [], r_hl_oc = False\<rparr>;
            E1 = E\<lparr>erows := take at (erows E) @ new # map (shift_idx Suc) (drop at (erows E))\<rparr>
        in bindR (editorUpdateRow at E1) (\<lambda>E2.
           Inr (bump_dirty (E2\<lparr>numrows := numrows E2 + 1\<rparr>))))"

definition editorDelRow :: "nat \<Rightarrow> editorConfig \<Rightarrow> editorConfig res" where
  "editorDelRow at E =
     (if at \<ge> numrows E then Inr E
      else Inr (bump_dirty (E\<lparr>erows := take at (erows E) @
                    map (shift_idx (\<lambda>i. i - 1)) (drop (Suc at) (erows E)),
                  numrows := numrows E - 1\<rparr>)))"

fun del_rows_down :: "nat \<Rightarrow> editorConfig \<Rightarrow> editorConfig res" where
  "del_rows_down 0 E = Inr E"
| "del_rows_down (Suc j) E = bindR (editorDelRow j E) (del_rows_down j)"

definition clearEditor :: "editorConfig \<Rightarrow> editorConfig res" where
  "clearEditor E =
     (let E1 = E\<lparr>cx := 0, cy := 0, rowoff := 0, coloff := 0\<rparr> in del_rows_down (numrows E1) E1)"

definition editorRowsToString :: "editorConfig \<Rightarrow> string" where
  "editorRowsToString E = concat (map (\<lambda>r. row_text r @ [NL]) (take (numrows E) (erows E)))"

section \<open>Editing a row\<close>

definition editorRowInsertChar :: "nat \<Rightarrow> nat \<Rightarrow> char \<Rightarrow> editorConfig \<Rightarrow> editorConfig res" where
  "editorRowInsertChar k at c E =
     bindR (nthR (erows E) k) (\<lambda>r.
     let r' = (if at > r_size r then
                 let padlen = at - r_size r in
                 r\<lparr>r_chars := take (r_size r) (r_chars r) @ replicate padlen SPC @ [c, NUL],
                   r_size := r_size r + padlen + 1\<rparr>
               else
                 r\<lparr>r_chars := take at (r_chars r) @ c # take (r_size r - at + 1) (drop at (r_chars r)),
                   r_size := r_size r + 1\<rparr>)
     in bindR (editorUpdateRow k (set_row E k r')) (\<lambda>E1. Inr (bump_dirty E1)))"

definition editorRowAppendString :: "nat \<Rightarrow> string \<Rightarrow> nat \<Rightarrow> editorConfig \<Rightarrow> editorConfig res" where
  "editorRowAppendString k s len E =
     bindR (nthR (erows E) k) (\<lambda>r.
     if len > length s then Inl OutOfBounds else
     let r' = r\<lparr>r_chars := take (r_size r) (r_chars r) @ take len s @ [NUL],
                r_size := r_size r + len\<rparr>
     in bindR (editorUpdateRow k (set_row E k r')) (\<lambda>E1. Inr (bump_dirty E1)))"

text \<open>The source re-renders the row before it decrements \<open>size\<close>.\<close>

definition editorRowDelChar :: "nat \<Rightarrow> nat \<Rightarrow> editorConfig \<Rightarrow> editorConfig res" where
  "editorRowDelChar k at E =
     bindR (nthR (erows E) k) (\<lambda>r.
     if r_size r \<le> at then Inr E else
     let r1 = r\<lparr>r_chars := take at (r_chars r) @ take (r_size r - at) (drop (at + 1) (r_chars r)) @
                           drop (r_size r) (r_chars r)\<rparr>
     in bindR (editorUpdateRow k (set_row E k r1)) (\<lambda>E1.
        bindR (nthR (erows E1) k) (\<lambda>r2.
        Inr (bump_dirty (set_row E1 k (r2\<lparr>r_size := r_size r2 - 1\<rparr>))))))"

section \<open>Loading and saving\<close>

fun getline :: "string \<Rightarrow> string \<times> string" where
  "getline [] = ([], [])"
| "getline (c # cs) = (if c = NL then ([NL], cs) else let (l, rest) = getline cs in (c # l, rest))"

lemma getline_append: "getline s = (l, rest) \<Longrightarrow> s = l @ rest"
  by (induction s arbitrary: l rest) (auto split: if_splits prod.splits)

lemma getline_nonempty: "s \<noteq> [] \<Longrightarrow> fst (getline s) \<noteq> []"
  by (cases s) (auto split: prod.splits)

lemma getline_shorter: "s \<noteq> [] \<Longrightarrow> length (snd (getline s)) < length s"
  using getline_append [of s "fst (getline s)" "snd (getline s)"] getline_nonempty [of s]
  by (metis length_append length_greater_0_conv less_add_same_cancel2 prod.collapse)

definition strip_eol :: "string \<Rightarrow> string" where
  "strip_eol l = (if l \<noteq> [] \<and> (last l = NL \<or> last l = CR) then butlast l else l)"

function open_loop :: "string \<Rightarrow> editorConfig \<Rightarrow> editorConfig res" where
  "open_loop s E =
     (if s = [] then Inr E
      else let line = strip_eol (fst (getline s)) in
        bindR (editorInsertRow (numrows E) (line @ [NUL]) (length line) E)
          (\<lambda>E1. open_loop (snd (getline s)) E1))"
  by pat_completeness auto
termination
  by (relation "measure (length \<circ> fst)") (auto simp del: getline.simps intro: getline_shorter)

declare open_loop.simps [simp del]

text \<open>\<open>None\<close> is a file that does not exist; the source then starts with no rows.\<close>

definition editorOpen :: "string \<Rightarrow> string option \<Rightarrow> editorConfig \<Rightarrow> editorConfig res" where
  "editorOpen fname contents E =
     (let E1 = E\<lparr>dirty := 0, efilename := fname\<rparr> in
      case contents of
        None \<Rightarrow> Inr E1
      | Some s \<Rightarrow> bindR (open_loop s E1) (\<lambda>E2. Inr (E2\<lparr>dirty := 0\<rparr>)))"

text \<open>
  \<open>ftruncate(fd,len)\<close> followed by one \<open>write(fd,buf,len)\<close> at offset 0.  \<open>io_ok\<close> is
  whether the three system calls succeed; when one fails the editor exits.
\<close>

definition write_at_start :: "string \<Rightarrow> string \<Rightarrow> string" where
  "write_at_start buf old =
     (let trunc = take (length buf) old @ replicate (length buf - length old) NUL in
      buf @ drop (length buf) trunc)"

definition editorSaveToDisk :: "bool \<Rightarrow> string \<Rightarrow> editorConfig \<Rightarrow> (string \<times> editorConfig) res" where
  "editorSaveToDisk io_ok old E =
     (if io_ok then Inr (write_at_start (editorRowsToString E) old, E\<lparr>dirty := 0\<rparr>)
      else Inl (ExitCode 1))"

section \<open>Rendering: tab stops and the size of the allocation\<close>

lemma tab_fill_eq: "tab_fill idx = replicate (7 - idx mod 8) SPC"
proof (induction idx rule: tab_fill.induct)
  case (1 idx)
  show ?case
  proof (cases "(idx + 1) mod 8 = 0")
    case True
    then have "idx mod 8 = 7" by (auto simp: mod_Suc split: if_splits)
    with True show ?thesis by (simp add: tab_fill.simps [of idx])
  next
    case False
    then have "idx mod 8 \<noteq> 7" "(idx + 1) mod 8 = Suc (idx mod 8)"
      by (auto simp: mod_Suc)
    moreover have "idx mod 8 < 8" by simp
    ultimately have "7 - idx mod 8 = Suc (7 - (idx + 1) mod 8)" by linarith
    with False 1 show ?thesis by (simp add: tab_fill.simps [of idx])
  qed
qed

lemma tab_fill_length [simp]: "length (tab_fill idx) = 7 - idx mod 8"
  by (simp add: tab_fill_eq)

lemma render_from_no_tab: "TAB \<notin> set t \<Longrightarrow> render_from i t = t"
  by (induction t arbitrary: i) auto

lemma TAB_notin_render [simp]: "TAB \<notin> set (render_from i t)"
  by (induction t arbitrary: i) (auto simp: tab_fill_eq Let_def)

lemma render_from_length: "length (render_from i t) \<le> length t + 7 * count_list t TAB"
proof (induction t arbitrary: i)
  case (Cons c t)
  have "length (tab_fill (i + 1)) \<le> 7" by (simp del: One_nat_def)
  with Cons [of "i + 1 + length (tab_fill (i + 1))"] Cons [of "i + 1"] show ?case
    by (auto simp: Let_def simp del: tab_fill_length)
qed simp

definition fits :: "string \<Rightarrow> bool" where
  "fits t \<longleftrightarrow> length t + count_list t TAB * 8 + 1 < 2 ^ 32"

lemma fits_alloc:
  assumes "fits t"
  shows "allocsize t \<le> 2 ^ 32 - 1" "length (render_from 0 t) + 1 \<le> render_malloc t"
proof -
  have "allocsize t = length t + count_list t TAB * 8 + 1"
    using assms by (simp add: fits_def allocsize_def)
  moreover have "render_malloc t = length t + count_list t TAB * 8 + 1"
    using assms by (simp add: fits_def render_malloc_def)
  ultimately show "allocsize t \<le> 2 ^ 32 - 1" "length (render_from 0 t) + 1 \<le> render_malloc t"
    using assms render_from_length [of 0 t] by (auto simp: fits_def)
qed

section \<open>The invariant of the row store\<close>

definition row_shape :: "nat \<Rightarrow> erow \<Rightarrow> bool" where
  "row_shape k r \<longleftrightarrow> r_idx r = k \<and> r_size r < length (r_chars r) \<and> r_chars r ! r_size r = NUL"

definition hl_shape :: "editorSyntax option \<Rightarrow> erow \<Rightarrow> bool" where
  "hl_shape syn r \<longleftrightarrow> length (r_hl r) = length (r_render r) \<and>
     (\<forall>s. syn = Some s \<longrightarrow> multiline_comment_end s = None \<longrightarrow> no_ml (r_hl r))"

text \<open>\<open>X\<close> is the set of rows whose highlight array is stale.\<close>

definition rows_inv :: "nat set \<Rightarrow> editorConfig \<Rightarrow> bool" where
  "rows_inv X E \<longleftrightarrow> (\<forall>s. esyntax E = Some s \<longrightarrow> wf_syntax s) \<and> numrows E \<le> length (erows E) \<and>
     (\<forall>k < length (erows E). row_shape k (erows E ! k) \<and>
        (k \<notin> X \<longrightarrow> hl_shape (esyntax E) (erows E ! k)))"

definition ed_inv :: "editorConfig \<Rightarrow> bool" where
  "ed_inv E \<longleftrightarrow> rows_inv {} E \<and> numrows E = length (erows E)"

definition row_core :: "erow \<Rightarrow> nat \<times> nat \<times> string \<times> string" where
  "row_core r = (r_idx r, r_size r, r_chars r, r_render r)"

text \<open>Everything but the rows, their number and the dirty count.\<close>

definition same_view :: "editorConfig \<Rightarrow> editorConfig \<Rightarrow> bool" where
  "same_view E E' \<longleftrightarrow> cx E' = cx E \<and> cy E' = cy E \<and> startcol E' = startcol E \<and> cols E' = cols E \<and>
     startrow E' = startrow E \<and> endrow E' = endrow E \<and> rowoff E' = rowoff E \<and>
     coloff E' = coloff E \<and> efilename E' = efilename E \<and> esyntax E' = esyntax E"

lemma same_view_refl [simp]: "same_view E E"
  by (simp add: same_view_def)

lemma same_view_trans: "same_view E E' \<Longrightarrow> same_view E' E'' \<Longrightarrow> same_view E E''"
  by (simp add: same_view_def)

definition same_content :: "editorConfig \<Rightarrow> editorConfig \<Rightarrow> bool" where
  "same_content E E' \<longleftrightarrow> same_view E E' \<and> numrows E' = numrows E \<and> dirty E' = dirty E \<and>
     map row_core (erows E') = map row_core (erows E)"

lemma same_content_refl [simp]: "same_content E E"
  by (simp add: same_content_def)

lemma same_content_length: "same_content E E' \<Longrightarrow> length (erows E') = length (erows E)"
  unfolding same_content_def by (metis length_map)

lemma same_content_fields:
  assumes "same_content E E'"
  shows "numrows E' = numrows E" "esyntax E' = esyntax E" "dirty E' = dirty E" "same_view E E'"
  using assms by (simp_all add: same_content_def same_view_def)

lemma same_content_trans: "same_content E E' \<Longrightarrow> same_content E' E'' \<Longrightarrow> same_content E E''"
  by (auto simp: same_content_def intro: same_view_trans)

lemma same_content_set_row:
  "k < length (erows E) \<Longrightarrow> row_core r = row_core (erows E ! k) \<Longrightarrow> same_content E (set_row E k r)"
  by (simp add: same_content_def same_view_def set_row_def map_update list_update_same_conv)

lemma same_content_lines:
  assumes "same_content E E'"
  shows "lines_of E' = lines_of E"
proof -
  have "row_text = (\<lambda>(i, n, c, d). take n c) \<circ> row_core"
    by (auto simp: row_text_def row_core_def)
  then have "map row_text (erows E') = map row_text (erows E)"
    using assms unfolding same_content_def by (metis list.map_comp)
  then show ?thesis by (simp add: lines_of_def)
qed

lemma rows_inv_mono: "rows_inv X E \<Longrightarrow> X \<subseteq> Y \<Longrightarrow> rows_inv Y E"
  by (auto simp: rows_inv_def)

lemma rows_inv_set_row:
  assumes "rows_inv X E" "k < length (erows E)" "row_shape k r" "hl_shape (esyntax E) r"
  shows "rows_inv (X - {k}) (set_row E k r)"
  using assms by (auto simp: rows_inv_def set_row_def nth_list_update)


lemma rows_inv_row:
  "rows_inv X E \<Longrightarrow> k < length (erows E) \<Longrightarrow> row_shape k (erows E ! k)"
  "rows_inv X E \<Longrightarrow> k < length (erows E) \<Longrightarrow> k \<notin> X \<Longrightarrow> hl_shape (esyntax E) (erows E ! k)"
  by (auto simp: rows_inv_def)

lemma rows_inv_syntax: "rows_inv X E \<Longrightarrow> esyntax E = Some s \<Longrightarrow> wf_syntax s"
  by (auto simp: rows_inv_def)

lemma erows_set_row [simp]: "erows (set_row E k r) = (erows E)[k := r]"
  by (simp add: set_row_def)

lemma esyntax_set_row [simp]: "esyntax (set_row E k r) = esyntax E" "numrows (set_row E k r) = numrows E"
  by (simp_all add: set_row_def)

lemma open_above_total:
  assumes "rows_inv {k} E" "k < length (erows E)" "esyntax E = Some syn"
  shows "\<exists>b. open_above E (erows E ! k) (multiline_comment_end syn) = Inr b"
proof (cases k)
  case 0
  with rows_inv_row(1) [OF assms(1,2)] show ?thesis by (auto simp: open_above_def row_shape_def)
next
  case (Suc j)
  with assms have "hl_shape (esyntax E) (erows E ! j)" by (auto simp: rows_inv_def)
  with OpenComment_total assms(3)
  have "\<exists>b. editorRowHasOpenComment (r_hl (erows E ! j)) (r_render (erows E ! j))
            (multiline_comment_end syn) = Inr b"
    by (auto simp: hl_shape_def no_ml_def)
  with rows_inv_row(1) [OF assms(1,2)] Suc assms(2) show ?thesis
    by (simp add: open_above_def row_shape_def)
qed

lemma row_core_hl [simp]:
  "row_core (r\<lparr>r_hl := h\<rparr>) = row_core r" "row_core (r\<lparr>r_hl_oc := b\<rparr>) = row_core r"
  "row_shape k (r\<lparr>r_hl := h\<rparr>) = row_shape k r" "row_shape k (r\<lparr>r_hl_oc := b\<rparr>) = row_shape k r"
  "hl_shape s (r\<lparr>r_hl_oc := b\<rparr>) = hl_shape s r"
  by (simp_all add: row_core_def row_shape_def hl_shape_def)

lemma rows_inv_set_hl:
  assumes "rows_inv {k} E" "k < length (erows E)" "length h = length (r_render (erows E ! k))"
    "\<And>s. esyntax E = Some s \<Longrightarrow> multiline_comment_end s = None \<Longrightarrow> no_ml h"
  shows "rows_inv {} (set_row E k ((erows E ! k)\<lparr>r_hl := h\<rparr>))"
proof -
  have "hl_shape (esyntax E) ((erows E ! k)\<lparr>r_hl := h\<rparr>)"
    using assms(3,4) by (simp add: hl_shape_def)
  with rows_inv_set_row [OF assms(1,2)] rows_inv_row(1) [OF assms(1,2)] show ?thesis by simp
qed

lemma editorUpdateSyntax_n_total:
  assumes "rows_inv {k} E" "k < length (erows E)" "length (erows E) - k \<le> n"
  shows "\<exists>E'. editorUpdateSyntax_n n k E = Inr E' \<and> rows_inv {} E' \<and> same_content E E'"
  using assms
proof (induction n arbitrary: k E)
  case 0
  then show ?case by simp
next
  case (Suc n)
  let ?r = "erows E ! k"
  note inv = Suc.prems(1) and k = Suc.prems(2)
  show ?case
  proof (cases "esyntax E")
    case None
    with rows_inv_set_hl [OF inv k] k show ?thesis
      by (auto intro: same_content_set_row)
  next
    case (Some syn)
    obtain oa where oa: "open_above E ?r (multiline_comment_end syn) = Inr oa"
      using open_above_total [OF inv k Some] by blast
    obtain res where res: "highlight syn oa (r_render ?r) = Inr res"
        "length (hl_of res) = length (r_render ?r)"
      using highlight_total [OF rows_inv_syntax [OF inv Some]] by blast
    define E1 where "E1 = set_row E k (?r\<lparr>r_hl := hl_of res\<rparr>)"
    have inv1: "rows_inv {} E1"
      unfolding E1_def using highlight_no_ml res(1) Some
      by (intro rows_inv_set_hl [OF inv k res(2)]) auto
    have sc1: "same_content E E1"
      unfolding E1_def using k by (intro same_content_set_row) auto
    show ?thesis
    proof (cases res)
      case (Returned h)
      with k Some oa res inv1 sc1 show ?thesis by (simp add: E1_def)
    next
      case (Scanned h)
      have "hl_shape (esyntax E) (?r\<lparr>r_hl := h\<rparr>)"
        using rows_inv_row(2) [OF inv1, of k] k Scanned by (simp add: E1_def)
      then obtain oc where
        oc: "editorRowHasOpenComment h (r_render ?r) (multiline_comment_end syn) = Inr oc"
        using OpenComment_total [of h "r_render ?r"] Some by (auto simp: hl_shape_def no_ml_def)
      have idx: "r_idx ?r = k" using rows_inv_row(1) [OF inv k] by (simp add: row_shape_def)
      obtain E2 where E2: "(if r_hl_oc ?r \<noteq> oc \<and> r_idx ?r + 1 < numrows E
            then editorUpdateSyntax_n n (r_idx ?r + 1) E1 else Inr E1) = Inr E2"
          "rows_inv {} E2" "same_content E1 E2"
      proof (cases "r_hl_oc ?r \<noteq> oc \<and> r_idx ?r + 1 < numrows E")
        case True
        have "k + 1 < length (erows E1)"
          using True inv idx by (simp add: rows_inv_def E1_def)
        moreover have "length (erows E1) - (k + 1) \<le> n" using Suc.prems by (simp add: E1_def)
        moreover have "rows_inv {k + 1} E1" using inv1 by (rule rows_inv_mono) simp
        ultimately obtain E2 where "editorUpdateSyntax_n n (k + 1) E1 = Inr E2"
          "rows_inv {} E2" "same_content E1 E2" using Suc.IH by blast
        with True idx that show thesis by simp
      qed (use that inv1 in auto)
      have k2: "k < length (erows E2)"
        using same_content_length [OF E2(3)] k by (simp add: E1_def)
      define E3 where "E3 = set_row E2 k ((erows E2 ! k)\<lparr>r_hl_oc := oc\<rparr>)"
      have "rows_inv {} E3" using E2(2) k2 rows_inv_set_row [OF E2(2) k2] rows_inv_row [OF E2(2) k2]
        by (simp add: E3_def)
      moreover have "same_content E E3"
        using sc1 E2(3) same_content_set_row [OF k2] unfolding E3_def
        by (blast intro: same_content_trans row_core_hl)
      moreover have "editorUpdateSyntax_n (Suc n) k E = Inr E3"
      proof -
        have "editorUpdateSyntax_n (Suc n) k E =
            bindR (if r_hl_oc ?r \<noteq> oc \<and> r_idx ?r + 1 < numrows E
              then editorUpdateSyntax_n n (r_idx ?r + 1) E1 else Inr E1) (\<lambda>E2.
            bindR (nthR (erows E2) k) (\<lambda>r2. Inr (set_row E2 k (r2\<lparr>r_hl_oc := oc\<rparr>))))"
          using k Some oa res Scanned oc unfolding E1_def by (simp only: editorUpdateSyntax_n.simps
            nthR_ok bindR.simps option.case hl_result.case Let_def hl_of.simps)
        then show ?thesis unfolding E2(1) using k2 by (simp add: E3_def)
      qed
      ultimately show ?thesis by blast
    qed
  qed
qed

lemma editorUpdateSyntax_total:
  assumes "rows_inv {k} E" "k < length (erows E)"
  shows "\<exists>E'. editorUpdateSyntax k E = Inr E' \<and> rows_inv {} E' \<and> same_content E E'"
  unfolding editorUpdateSyntax_def by (rule editorUpdateSyntax_n_total [OF assms]) simp

lemma editorUpdateRow_total:
  assumes "rows_inv {k} E" "k < length (erows E)" "fits (row_text (erows E ! k))"
  shows "\<exists>E'. editorUpdateRow k E = Inr E' \<and> rows_inv {} E' \<and>
     same_content (set_row E k ((erows E ! k)\<lparr>r_render := render_from 0 (row_text (erows E ! k))\<rparr>)) E'"
proof -
  let ?r = "(erows E ! k)\<lparr>r_render := render_from 0 (row_text (erows E ! k))\<rparr>"
  have "rows_inv {k} (set_row E k ?r)"
    using assms(1,2) by (auto simp: rows_inv_def row_shape_def nth_list_update)
  from editorUpdateSyntax_total [OF this] assms(2) obtain E' where
    "editorUpdateSyntax k (set_row E k ?r) = Inr E'" "rows_inv {} E'" "same_content (set_row E k ?r) E'"
    by auto
  moreover have "r_size (erows E ! k) \<le> length (r_chars (erows E ! k))"
    using rows_inv_row(1) [OF assms(1,2)] by (simp add: row_shape_def)
  ultimately show ?thesis
    using assms(2) fits_alloc [OF assms(3)] by (simp add: editorUpdateRow_def Let_def)
qed

section \<open>What the row operations do to the text\<close>

definition rows_become :: "editorConfig \<Rightarrow> string list \<Rightarrow> editorConfig \<Rightarrow> bool" where
  "rows_become E ls E' \<longleftrightarrow> ed_inv E' \<and> lines_of E' = ls \<and> same_view E E'"

definition text_insert :: "nat \<Rightarrow> char \<Rightarrow> string \<Rightarrow> string" where
  "text_insert at c t =
     (if at > length t then t @ replicate (at - length t) SPC @ [c] else take at t @ c # drop at t)"

definition text_delete :: "nat \<Rightarrow> string \<Rightarrow> string" where
  "text_delete at t = take at t @ drop (Suc at) t"

lemma rows_become_inv: "rows_become E ls E' \<Longrightarrow> ed_inv E'"
  by (simp add: rows_become_def)

lemma rows_become_lines: "rows_become E ls E' \<Longrightarrow> lines_of E' = ls"
  by (simp add: rows_become_def)

lemma rows_become_fields:
  assumes "rows_become E ls E'"
  shows "cx E' = cx E" "cy E' = cy E" "startcol E' = startcol E" "cols E' = cols E"
    "startrow E' = startrow E" "endrow E' = endrow E" "rowoff E' = rowoff E" "coloff E' = coloff E"
    "efilename E' = efilename E" "esyntax E' = esyntax E"
  using assms by (simp_all add: rows_become_def same_view_def)

lemma rows_become_trans:
  "rows_become E ls E' \<Longrightarrow> rows_become E' ls' E'' \<Longrightarrow> rows_become E ls' E''"
  by (auto simp: rows_become_def intro: same_view_trans)

lemma rows_become_bump: "rows_become E ls E' \<Longrightarrow> rows_become E ls (bump_dirty E')"
  by (auto simp: rows_become_def bump_dirty_def ed_inv_def rows_inv_def lines_of_def same_view_def)

lemma length_lines [simp]: "length (lines_of E) = length (erows E)"
  by (simp add: lines_of_def)

lemma nth_lines [simp]: "k < length (erows E) \<Longrightarrow> lines_of E ! k = row_text (erows E ! k)"
  by (simp add: lines_of_def)

lemma ed_inv_length: "ed_inv E \<Longrightarrow> numrows E = length (erows E)"
  by (simp add: ed_inv_def)

lemma ed_inv_rows_inv: "ed_inv E \<Longrightarrow> rows_inv X E"
  by (auto simp: ed_inv_def intro: rows_inv_mono)

lemma ed_inv_row:
  assumes "ed_inv E" "k < length (erows E)"
  shows "r_idx (erows E ! k) = k" "r_size (erows E ! k) < length (r_chars (erows E ! k))"
    "r_chars (erows E ! k) ! r_size (erows E ! k) = NUL"
    "length (row_text (erows E ! k)) = r_size (erows E ! k)"
  using assms by (auto simp: ed_inv_def rows_inv_def row_shape_def row_text_def)

lemma row_buffer:
  assumes "r_size r < length (r_chars r)" "r_chars r ! r_size r = NUL"
  shows "r_chars r = row_text r @ NUL # drop (Suc (r_size r)) (r_chars r)"
  using id_take_nth_drop [OF assms(1)] assms(2) by (simp add: row_text_def)

lemma row_text_render [simp]: "row_text (r\<lparr>r_render := x\<rparr>) = row_text r"
  "row_text (shift_idx f r) = row_text r" "row_text (r\<lparr>r_idx := i\<rparr>) = row_text r"
  by (simp_all add: row_text_def shift_idx_def)

lemma lines_set_row: "lines_of (set_row E k r) = (lines_of E)[k := row_text r]"
  by (simp add: lines_of_def map_update)

lemma same_content_become:
  assumes "same_content E E'" "rows_inv {} E'" "numrows E = length (erows E)"
  shows "rows_become E (lines_of E) E'"
  using assms same_content_length [OF assms(1)] same_content_fields [OF assms(1)]
    same_content_lines [OF assms(1)]
  by (simp add: ed_inv_def rows_become_def)

lemma same_content_row:
  assumes "same_content E E'" "k < length (erows E)"
  shows "row_core (erows E' ! k) = row_core (erows E ! k)"
  using assms same_content_length [OF assms(1)] unfolding same_content_def by (metis nth_map)

lemma edit_row:
  assumes inv: "ed_inv E" and k: "k < length (erows E)" and r: "row_shape k r" "fits (row_text r)"
  shows "\<exists>E'. editorUpdateRow k (set_row E k r) = Inr E' \<and>
     rows_become E ((lines_of E)[k := row_text r]) E' \<and>
     r_size (erows E' ! k) = r_size r \<and> r_chars (erows E' ! k) = r_chars r"
proof -
  have "rows_inv {k} (set_row E k r)"
    using ed_inv_rows_inv [OF inv, of "{}"] r(1) k by (auto simp: rows_inv_def nth_list_update)
  from editorUpdateRow_total [OF this] k r(2) obtain E' where E':
    "editorUpdateRow k (set_row E k r) = Inr E'" "rows_inv {} E'"
    "same_content (set_row (set_row E k r) k (r\<lparr>r_render := render_from 0 (row_text r)\<rparr>)) E'"
    by auto
  let ?E = "set_row E k (r\<lparr>r_render := render_from 0 (row_text r)\<rparr>)"
  have eq: "set_row (set_row E k r) k (r\<lparr>r_render := render_from 0 (row_text r)\<rparr>) = ?E"
    by (simp add: set_row_def)
  have "rows_become ?E (lines_of ?E) E'"
    using same_content_become [OF E'(3)] E'(2) inv unfolding eq by (simp add: ed_inv_def)
  then have "rows_become E (lines_of ?E) E'"
    by (simp add: rows_become_def same_view_def set_row_def)
  moreover have "row_core (erows E' ! k) = row_core (r\<lparr>r_render := render_from 0 (row_text r)\<rparr>)"
    using same_content_row [OF E'(3)] k by simp
  ultimately show ?thesis using E'(1) by (auto simp: lines_set_row row_core_def)
qed

lemma editorInsertRow_ok:
  assumes inv: "ed_inv E" and at: "at \<le> numrows E" and t: "fits t"
  shows "\<exists>E'. editorInsertRow at (t @ NUL # z) (length t) E = Inr E' \<and>
     rows_become E (take at (lines_of E) @ t # drop at (lines_of E)) E'"
proof -
  let ?new = "\<lparr>r_idx = at, r_size = length t, r_chars = t @ [NUL], r_render = [], r_hl = [],
      r_hl_oc = False\<rparr>"
  let ?E1 = "E\<lparr>erows := take at (erows E) @ ?new # map (shift_idx Suc) (drop at (erows E))\<rparr>"
  have n: "numrows E = length (erows E)" using inv by (rule ed_inv_length)
  have shape: "row_shape k (erows ?E1 ! k) \<and> (k \<noteq> at \<longrightarrow> hl_shape (esyntax E) (erows ?E1 ! k))"
    if "k < length (erows ?E1)" for k
  proof (cases "k < at")
    case True
    with that at n ed_inv_rows_inv [OF inv, of "{}"] show ?thesis
      by (simp add: nth_append rows_inv_def)
  next
    case False
    show ?thesis
    proof (cases "k = at")
      case True
      with at n show ?thesis by (simp add: nth_append row_shape_def)
    next
      case ne: False
      then obtain j where "k = at + Suc j" using False less_imp_Suc_add by (metis not_less_iff_gr_or_eq add_Suc_right)
      moreover then have "at + j < length (erows E)" using that at n by simp
      ultimately show ?thesis
        using at n rows_inv_row [OF ed_inv_rows_inv [OF inv, of "{}"], of "at + j"]
        by (simp add: nth_append shift_idx_def row_shape_def hl_shape_def)
    qed
  qed
  have inv1: "rows_inv {at} ?E1"
    using shape inv n unfolding rows_inv_def by (auto simp: ed_inv_def rows_inv_def)
  have at1: "erows ?E1 ! at = ?new" using at n by (simp add: nth_append)
  have "at < length (erows ?E1)" "fits (row_text (erows ?E1 ! at))"
    using at n t by (simp, simp only: at1, simp add: row_text_def)
  from editorUpdateRow_total [OF inv1 this] obtain E2 where E2: "editorUpdateRow at ?E1 = Inr E2"
    "rows_inv {} E2" "same_content (set_row ?E1 at (?new\<lparr>r_render := render_from 0 (row_text ?new)\<rparr>)) E2"
    unfolding at1 by blast
  have "lines_of E2 = (lines_of ?E1)[at := row_text ?new]"
    using same_content_lines [OF E2(3)] by (simp add: lines_set_row row_text_def)
  then have lines: "lines_of E2 = take at (lines_of E) @ t # drop at (lines_of E)"
    using at n by (simp add: lines_of_def take_map drop_map row_text_def list_update_append shift_idx_def)
  have len: "length (erows E2) = Suc (length (erows E))"
    using same_content_length [OF E2(3)] at n by simp
  have "same_view E E2" "numrows E2 = numrows E"
    using same_content_fields [OF E2(3)] by (simp_all add: same_view_def set_row_def)
  then have "rows_become E (lines_of E2) (bump_dirty (E2\<lparr>numrows := numrows E2 + 1\<rparr>))"
    using E2(2) len n
    by (simp add: rows_become_def bump_dirty_def ed_inv_def rows_inv_def lines_of_def same_view_def)
  moreover have "editorInsertRow at (t @ NUL # z) (length t) E =
      Inr (bump_dirty (E2\<lparr>numrows := numrows E2 + 1\<rparr>))"
    using at E2(1) by (simp add: editorInsertRow_def Let_def)
  ultimately show ?thesis using lines by auto
qed

lemma editorDelRow_ok:
  assumes inv: "ed_inv E" and at: "at < numrows E"
  shows "\<exists>E'. editorDelRow at E = Inr E' \<and>
     rows_become E (take at (lines_of E) @ drop (Suc at) (lines_of E)) E'"
proof -
  have n: "numrows E = length (erows E)" using inv by (rule ed_inv_length)
  let ?rs = "take at (erows E) @ map (shift_idx (\<lambda>i. i - 1)) (drop (Suc at) (erows E))"
  have "row_shape k (?rs ! k) \<and> hl_shape (esyntax E) (?rs ! k)" if "k < length ?rs" for k
  proof (cases "k < at")
    case True
    with that at n ed_inv_rows_inv [OF inv, of "{}"] show ?thesis
      by (simp add: nth_append rows_inv_def)
  next
    case False
    then have "Suc at + (k - at) = Suc k" "Suc k < length (erows E)" using that at n by auto
    with at n False that rows_inv_row [OF ed_inv_rows_inv [OF inv, of "{}"], of "Suc k"] show ?thesis
      by (simp add: nth_append shift_idx_def row_shape_def hl_shape_def)
  qed
  then have "rows_become E (take at (lines_of E) @ drop (Suc at) (lines_of E))
      (bump_dirty (E\<lparr>erows := ?rs, numrows := numrows E - 1\<rparr>))"
    using inv n at
    by (simp add: rows_become_def bump_dirty_def ed_inv_def rows_inv_def lines_of_def same_view_def
        take_map drop_map comp_def)
  then show ?thesis using at by (simp add: editorDelRow_def)
qed

lemma same_view_set_row: "same_view E (set_row E1 k r) = same_view E E1"
  by (simp add: same_view_def set_row_def)

lemma fits_le:
  "fits t \<Longrightarrow> length u \<le> length t \<Longrightarrow> count_list u TAB \<le> count_list t TAB \<Longrightarrow> fits u"
  by (simp add: fits_def)

lemma length_text_delete [simp]: "at < length t \<Longrightarrow> length (text_delete at t) = length t - 1"
  by (simp add: text_delete_def)

lemma fits_text_delete:
  assumes "fits t" "at < length t"
  shows "fits (text_delete at t)"
proof (rule fits_le [OF assms(1)])
  have "t = take at t @ t ! at # drop (Suc at) t"
    using assms(2) by (rule id_take_nth_drop)
  then have "count_list t TAB = count_list (take at t @ t ! at # drop (Suc at) t) TAB" by simp
  then show "count_list (text_delete at t) TAB \<le> count_list t TAB"
    by (simp add: text_delete_def)
qed (use assms in simp)

lemma fits_Nil [simp]: "fits []"
  by (simp add: fits_def)

lemma length_text_insert [simp]:
  "length (text_insert at c t) = (if at > length t then at + 1 else length t + 1)"
  by (simp add: text_insert_def)

lemma text_insert_at [simp]: "text_insert at c t ! at = c"
  by (simp add: text_insert_def nth_append)

lemma text_delete_insert [simp]: "at \<le> length t \<Longrightarrow> text_delete at (text_insert at c t) = t"
  by (simp add: text_delete_def text_insert_def)

lemma editorRowInsertChar_ok:
  assumes inv: "ed_inv E" and k: "k < length (erows E)"
    and f: "fits (text_insert at c (lines_of E ! k))"
  shows "\<exists>E'. editorRowInsertChar k at c E = Inr E' \<and>
     rows_become E ((lines_of E)[k := text_insert at c (lines_of E ! k)]) E'"
proof -
  let ?r = "erows E ! k"
  define r' where "r' = (if at > r_size ?r then
       ?r\<lparr>r_chars := take (r_size ?r) (r_chars ?r) @ replicate (at - r_size ?r) SPC @ [c, NUL],
          r_size := r_size ?r + (at - r_size ?r) + 1\<rparr>
     else ?r\<lparr>r_chars := take at (r_chars ?r) @ c # take (r_size ?r - at + 1) (drop at (r_chars ?r)),
          r_size := r_size ?r + 1\<rparr>)"
  note row = ed_inv_row [OF inv k]
  have tx: "row_text r' = text_insert at c (row_text ?r)"
    using row(2,4) by (simp add: r'_def row_text_def text_insert_def min_def take_Cons' take_drop)
  have shape: "row_shape k r'"
    using row(1,2,3) by (auto simp: r'_def row_shape_def nth_append nth_Cons' min_def)
  from edit_row [OF inv k shape] f k tx obtain E' where
    "editorUpdateRow k (set_row E k r') = Inr E'"
    "rows_become E ((lines_of E)[k := text_insert at c (lines_of E ! k)]) E'" by auto
  then show ?thesis
    using k by (auto simp: editorRowInsertChar_def r'_def Let_def intro: rows_become_bump)
qed

lemma editorRowAppendString_ok:
  assumes inv: "ed_inv E" and k: "k < length (erows E)" and s: "len \<le> length s"
    and f: "fits (lines_of E ! k @ take len s)"
  shows "\<exists>E'. editorRowAppendString k s len E = Inr E' \<and>
     rows_become E ((lines_of E)[k := lines_of E ! k @ take len s]) E'"
proof -
  let ?r = "erows E ! k"
  define r' where "r' = ?r\<lparr>r_chars := take (r_size ?r) (r_chars ?r) @ take len s @ [NUL],
      r_size := r_size ?r + len\<rparr>"
  note row = ed_inv_row [OF inv k]
  have tx: "row_text r' = row_text ?r @ take len s"
    using row(2) s by (simp add: r'_def row_text_def min_def)
  have shape: "row_shape k r'"
    using row(1,2,3) s by (simp add: r'_def row_shape_def nth_append min_def)
  from edit_row [OF inv k shape] f k tx obtain E' where
    "editorUpdateRow k (set_row E k r') = Inr E'"
    "rows_become E ((lines_of E)[k := lines_of E ! k @ take len s]) E'" by auto
  then show ?thesis
    using k s by (auto simp: editorRowAppendString_def r'_def Let_def intro: rows_become_bump)
qed

text \<open>
  Deleting a character renders the row once with the NUL still counted, then shortens it; the
  text that results is the expected one.
\<close>

lemma editorRowDelChar_ok:
  assumes inv: "ed_inv E" and k: "k < length (erows E)" and at: "at < length (lines_of E ! k)"
    and f: "fits (lines_of E ! k)"
  shows "\<exists>E'. editorRowDelChar k at E = Inr E' \<and>
     rows_become E ((lines_of E)[k := text_delete at (lines_of E ! k)]) E'"
proof -
  let ?r = "erows E ! k" and ?t = "lines_of E ! k"
  note row = ed_inv_row [OF inv k]
  have t: "?t = row_text ?r" "length ?t = r_size ?r" using k row(4) by simp_all
  have at': "at < r_size ?r" using at t by simp
  define z where "z = drop (Suc (r_size ?r)) (r_chars ?r)"
  have buf: "r_chars ?r = ?t @ NUL # z"
    using row_buffer [OF row(2,3)] t(1) by (simp add: z_def)
  define r1 where "r1 = ?r\<lparr>r_chars := take at (r_chars ?r) @
      take (r_size ?r - at) (drop (at + 1) (r_chars ?r)) @ drop (r_size ?r) (r_chars ?r)\<rparr>"
  have chars1: "r_chars r1 = text_delete at ?t @ NUL # NUL # z"
    using at t(2) unfolding r1_def buf by (simp add: text_delete_def)
  have len1: "length (text_delete at ?t) = r_size ?r - 1"
    using at t(2) by (simp add: text_delete_def)
  have text1: "row_text r1 = text_delete at ?t @ [NUL]"
    using at' by (simp add: row_text_def chars1 len1) (simp add: r1_def len1 take_Cons')
  have shape: "row_shape k r1"
    using row(1) at' by (simp add: row_shape_def chars1 nth_append len1) (auto simp: r1_def)
  have "count_list ?t TAB = count_list (take at ?t @ drop at ?t) TAB" by simp
  also have "drop at ?t = ?t ! at # drop (Suc at) ?t" using at by (rule take_nth_drop)
  finally have "fits (row_text r1)"
    using f at len1 t(2) unfolding text1
    by (auto simp: text_delete_def intro!: fits_le [of ?t])
  from edit_row [OF inv k shape this] obtain E1 where E1:
    "editorUpdateRow k (set_row E k r1) = Inr E1"
    "rows_become E ((lines_of E)[k := row_text r1]) E1"
    "r_size (erows E1 ! k) = r_size r1" "r_chars (erows E1 ! k) = r_chars r1" by blast
  have inv1: "ed_inv E1" using E1(2) by (rule rows_become_inv)
  have k1: "k < length (erows E1)"
    using rows_become_lines [OF E1(2)] k by (metis length_lines length_list_update)
  define r2 where "r2 = (erows E1 ! k)\<lparr>r_size := r_size (erows E1 ! k) - 1\<rparr>"
  have size1: "r_size r1 = r_size ?r" by (simp add: r1_def)
  have "row_shape k r2"
    using ed_inv_row(1) [OF inv1 k1] at'
    by (simp add: r2_def row_shape_def E1(3,4) size1 chars1 len1 nth_append)
  moreover have "hl_shape (esyntax E1) r2"
    using rows_inv_row(2) [OF ed_inv_rows_inv [OF inv1, of "{}"] k1]
    by (simp add: hl_shape_def r2_def)
  ultimately have "ed_inv (set_row E1 k r2)"
    using inv1 rows_inv_set_row [OF ed_inv_rows_inv [OF inv1, of "{}"] k1, of r2]
    by (simp add: ed_inv_def)
  moreover have "row_text r2 = text_delete at ?t"
    by (simp add: row_text_def r2_def E1(3,4) size1 chars1 len1)
  ultimately have "rows_become E ((lines_of E)[k := text_delete at ?t]) (set_row E1 k r2)"
    using E1(2) rows_become_lines [OF E1(2)]
    by (simp add: rows_become_def lines_set_row same_view_set_row)
  moreover have "editorRowDelChar k at E = Inr (bump_dirty (set_row E1 k r2))"
    using k k1 at' E1(1) [unfolded r1_def] by (simp add: editorRowDelChar_def r2_def Let_def)
  ultimately show ?thesis by (auto intro: rows_become_bump)
qed

section \<open>Row stores\<close>

text \<open>
  What the rest of the editor relies on: a store of lines with insertion and deletion of
  lines, a count, and a part of the state (\<open>view\<close>) that these do not touch.
\<close>

locale row_store =
  fixes lines :: "'s \<Rightarrow> string list"
    and inv :: "'s \<Rightarrow> bool"
    and count :: "'s \<Rightarrow> nat"
    and view :: "'s \<Rightarrow> 's \<Rightarrow> bool"
    and insert_row :: "nat \<Rightarrow> string \<Rightarrow> 's \<Rightarrow> 's res"
    and delete_row :: "nat \<Rightarrow> 's \<Rightarrow> 's res"
  assumes count: "inv s \<Longrightarrow> count s = length (lines s)"
    and view_refl: "view s s"
    and view_trans: "view s s' \<Longrightarrow> view s' s'' \<Longrightarrow> view s s''"
    and insert_row: "inv s \<Longrightarrow> at \<le> length (lines s) \<Longrightarrow> fits t \<Longrightarrow>
      \<exists>s'. insert_row at t s = Inr s' \<and> inv s' \<and> view s s' \<and>
        lines s' = take at (lines s) @ t # drop at (lines s)"
    and delete_row: "inv s \<Longrightarrow> at < length (lines s) \<Longrightarrow>
      \<exists>s'. delete_row at s = Inr s' \<and> inv s' \<and> view s s' \<and>
        lines s' = take at (lines s) @ drop (Suc at) (lines s)"
begin

lemma append_rows:
  "inv s \<Longrightarrow> list_all fits ts \<Longrightarrow>
   \<exists>s'. foldMR (\<lambda>t s. insert_row (count s) t s) ts s = Inr s' \<and> inv s' \<and> view s s' \<and>
     lines s' = lines s @ ts"
proof (induction ts arbitrary: s)
  case Nil
  then show ?case by (simp add: view_refl)
next
  case (Cons t ts)
  then obtain s1 where s1: "insert_row (count s) t s = Inr s1" "inv s1" "view s s1"
      "lines s1 = lines s @ [t]"
    using insert_row [OF Cons.prems(1), of "count s" t] count [OF Cons.prems(1)] by auto
  from Cons.IH [OF s1(2)] Cons.prems(2) obtain s2 where
    "foldMR (\<lambda>t s. insert_row (count s) t s) ts s1 = Inr s2" "inv s2" "view s1 s2"
    "lines s2 = lines s1 @ ts" by auto
  with s1(1,3,4) view_trans show ?case by auto
qed

lemma delete_down:
  "inv s \<Longrightarrow> n \<le> length (lines s) \<Longrightarrow>
   \<exists>s'. foldMR delete_row (rev [0..<n]) s = Inr s' \<and> inv s' \<and> view s s' \<and> lines s' = drop n (lines s)"
proof (induction n arbitrary: s)
  case 0
  then show ?case by (simp add: view_refl)
next
  case (Suc n)
  then obtain s1 where s1: "delete_row n s = Inr s1" "inv s1" "view s s1"
      "lines s1 = take n (lines s) @ drop (Suc n) (lines s)"
    using delete_row [OF Suc.prems(1), of n] by auto
  have "n \<le> length (lines s1)" "drop n (lines s1) = drop (Suc n) (lines s)"
    using s1(4) Suc.prems(2) by simp_all
  with Suc.IH [OF s1(2)] obtain s2 where "foldMR delete_row (rev [0..<n]) s1 = Inr s2" "inv s2"
      "view s1 s2" "lines s2 = drop (Suc n) (lines s)" by auto
  with s1(1,3) view_trans show ?case by auto
qed

lemma delete_inserted:
  assumes "inv s" "at \<le> length (lines s)" "fits t"
  shows "\<exists>s' s''. insert_row at t s = Inr s' \<and> delete_row at s' = Inr s'' \<and> lines s'' = lines s"
proof -
  obtain s' where s': "insert_row at t s = Inr s'" "inv s'"
      "lines s' = take at (lines s) @ t # drop at (lines s)"
    using insert_row [OF assms] by blast
  with assms(2) have "at < length (lines s')" by simp
  from delete_row [OF s'(2) this] s' assms(2) show ?thesis by auto
qed

end

text \<open>A store whose rows can be edited in place.\<close>

locale row_editor = row_store +
  fixes insert_char :: "nat \<Rightarrow> nat \<Rightarrow> char \<Rightarrow> 'a \<Rightarrow> 'a res"
    and append_string :: "nat \<Rightarrow> string \<Rightarrow> 'a \<Rightarrow> 'a res"
    and delete_char :: "nat \<Rightarrow> nat \<Rightarrow> 'a \<Rightarrow> 'a res"
  assumes insert_char: "inv s \<Longrightarrow> k < length (lines s) \<Longrightarrow> fits (text_insert at c (lines s ! k)) \<Longrightarrow>
      \<exists>s'. insert_char k at c s = Inr s' \<and> inv s' \<and> view s s' \<and>
        lines s' = (lines s)[k := text_insert at c (lines s ! k)]"
    and append_string: "inv s \<Longrightarrow> k < length (lines s) \<Longrightarrow> fits (lines s ! k @ u) \<Longrightarrow>
      \<exists>s'. append_string k u s = Inr s' \<and> inv s' \<and> view s s' \<and>
        lines s' = (lines s)[k := lines s ! k @ u]"
    and delete_char: "inv s \<Longrightarrow> k < length (lines s) \<Longrightarrow> fits (lines s ! k) \<Longrightarrow>
      at < length (lines s ! k) \<Longrightarrow>
      \<exists>s'. delete_char k at s = Inr s' \<and> inv s' \<and> view s s' \<and>
        lines s' = (lines s)[k := text_delete at (lines s ! k)]"
begin

lemma insert_prefix:
  assumes "inv s" "k < length (lines s)" "fits (p @ lines s ! k)"
  shows "\<exists>s'. foldMR (insert_char k 0) (rev p) s = Inr s' \<and> inv s' \<and> view s s' \<and>
     lines s' = (lines s)[k := p @ lines s ! k]"
  using assms
proof (induction p)
  case Nil
  then show ?case by (simp add: view_refl)
next
  case (Cons c p)
  have "fits (p @ lines s ! k)"
    using Cons.prems(3) by (rule fits_le) (simp_all split: if_splits)
  then obtain s1 where s1: "foldMR (insert_char k 0) (rev p) s = Inr s1" "inv s1" "view s s1"
      "lines s1 = (lines s)[k := p @ lines s ! k]"
    using Cons.IH Cons.prems by blast
  have "fits (text_insert 0 c (lines s1 ! k))"
    using Cons.prems s1(4) by (simp add: text_insert_def)
  with insert_char [OF s1(2), of k 0 c] s1 Cons.prems show ?case
    by (auto simp: foldMR_append text_insert_def intro: view_trans)
qed

lemma delete_prefix:
  assumes "inv s" "k < length (lines s)" "fits (lines s ! k)" "lines s ! k = p @ u"
  shows "\<exists>s'. foldMR (delete_char k) (replicate (length p) 0) s = Inr s' \<and> inv s' \<and> view s s' \<and>
     lines s' = (lines s)[k := u]"
  using assms
proof (induction p arbitrary: s)
  case Nil
  from Nil.prems(4) have "u = lines s ! k" by simp
  with Nil.prems(1) show ?case by (simp add: view_refl)
next
  case (Cons c p)
  obtain s1 where s1: "delete_char k 0 s = Inr s1" "inv s1" "view s s1"
      "lines s1 = (lines s)[k := p @ u]"
    using delete_char [OF Cons.prems(1,2,3), of 0] Cons.prems(4) by (auto simp: text_delete_def)
  have "fits (lines s1 ! k)"
    using Cons.prems(2,3,4) s1(4) by (auto intro!: fits_le [OF Cons.prems(3)])
  from Cons.IH [OF s1(2) _ this] Cons.prems s1 show ?case
    by (auto intro: view_trans)
qed

lemma delete_inserted_char:
  assumes "inv s" "k < length (lines s)" "at \<le> length (lines s ! k)"
    "fits (text_insert at c (lines s ! k))"
  shows "\<exists>s' s''. insert_char k at c s = Inr s' \<and> delete_char k at s' = Inr s'' \<and>
     lines s'' = lines s"
proof -
  obtain s' where s': "insert_char k at c s = Inr s'" "inv s'"
      "lines s' = (lines s)[k := text_insert at c (lines s ! k)]"
    using insert_char [OF assms(1,2,4)] by blast
  from delete_char [OF s'(2), of k at] s' assms show ?thesis by auto
qed

end

interpretation kilo_rows: row_store lines_of ed_inv numrows same_view
  "\<lambda>at t. editorInsertRow at (t @ [NUL]) (length t)" editorDelRow
proof unfold_locales
  fix s at t
  assume "ed_inv s" "at \<le> length (lines_of s)" "fits t"
  then show "\<exists>s'. editorInsertRow at (t @ [NUL]) (length t) s = Inr s' \<and> ed_inv s' \<and>
      same_view s s' \<and> lines_of s' = take at (lines_of s) @ t # drop at (lines_of s)"
    using editorInsertRow_ok [of s at t "[]"] by (auto simp: rows_become_def ed_inv_length)
next
  fix s at
  assume "ed_inv s" "at < length (lines_of s)"
  then show "\<exists>s'. editorDelRow at s = Inr s' \<and> ed_inv s' \<and> same_view s s' \<and>
      lines_of s' = take at (lines_of s) @ drop (Suc at) (lines_of s)"
    using editorDelRow_ok [of s at] by (auto simp: rows_become_def ed_inv_length)
qed (auto simp: ed_inv_length intro: same_view_trans)

interpretation kilo_edit: row_editor lines_of ed_inv numrows same_view
  "\<lambda>at t. editorInsertRow at (t @ [NUL]) (length t)" editorDelRow
  editorRowInsertChar "\<lambda>k u. editorRowAppendString k u (length u)" editorRowDelChar
proof unfold_locales
  fix s k at c
  assume "ed_inv s" "k < length (lines_of s)" "fits (text_insert at c (lines_of s ! k))"
  then show "\<exists>s'. editorRowInsertChar k at c s = Inr s' \<and> ed_inv s' \<and> same_view s s' \<and>
      lines_of s' = (lines_of s)[k := text_insert at c (lines_of s ! k)]"
    using editorRowInsertChar_ok [of s k at c] by (simp add: rows_become_def) blast
next
  fix s k u
  assume "ed_inv s" "k < length (lines_of s)" "fits (lines_of s ! k @ u)"
  then show "\<exists>s'. editorRowAppendString k u (length u) s = Inr s' \<and> ed_inv s' \<and> same_view s s' \<and>
      lines_of s' = (lines_of s)[k := lines_of s ! k @ u]"
    using editorRowAppendString_ok [of s k "length u" u] by (simp add: rows_become_def) blast
next
  fix s k at
  assume "ed_inv s" "k < length (lines_of s)" "fits (lines_of s ! k)" "at < length (lines_of s ! k)"
  then show "\<exists>s'. editorRowDelChar k at s = Inr s' \<and> ed_inv s' \<and> same_view s s' \<and>
      lines_of s' = (lines_of s)[k := text_delete at (lines_of s ! k)]"
    using editorRowDelChar_ok [of s k at] by (simp add: rows_become_def) blast
qed

section \<open>Loading, saving and clearing\<close>

lemma del_rows_down_eq: "del_rows_down n E = foldMR editorDelRow (rev [0..<n]) E"
  by (induction n arbitrary: E) (auto intro: bindR_cong)

lemma clearEditor_ok:
  assumes "ed_inv E"
  shows "\<exists>E'. clearEditor E = Inr E' \<and> ed_inv E' \<and> lines_of E' = [] \<and>
     same_view (E\<lparr>cx := 0, cy := 0, rowoff := 0, coloff := 0\<rparr>) E'"
proof -
  let ?E = "E\<lparr>cx := 0, cy := 0, rowoff := 0, coloff := 0\<rparr>"
  have inv: "ed_inv ?E" and l: "lines_of ?E = lines_of E"
    using assms by (simp_all add: ed_inv_def rows_inv_def lines_of_def)
  from kilo_rows.delete_down [OF inv, of "numrows E"] l ed_inv_length [OF assms] show ?thesis
    by (auto simp: clearEditor_def del_rows_down_eq)
qed

function raw_lines :: "string \<Rightarrow> string list" where
  "raw_lines s = (if s = [] then [] else fst (getline s) # raw_lines (snd (getline s)))"
  by pat_completeness auto
termination
  by (relation "measure length") (auto simp del: getline.simps intro: getline_shorter)

declare raw_lines.simps [simp del]

definition file_lines :: "string \<Rightarrow> string list" where
  "file_lines s = map strip_eol (raw_lines s)"

definition unlines :: "string list \<Rightarrow> string" where
  "unlines ls = concat (map (\<lambda>t. t @ [NL]) ls)"

lemma open_loop_eq:
  "open_loop s E = foldMR (\<lambda>t E. editorInsertRow (numrows E) (t @ [NUL]) (length t) E) (file_lines s) E"
proof (induction s arbitrary: E rule: raw_lines.induct)
  case (1 s)
  show ?case
  proof (cases "s = []")
    case True
    then show ?thesis by (simp add: open_loop.simps raw_lines.simps file_lines_def)
  next
    case False
    with 1 show ?thesis
      by (subst open_loop.simps, subst file_lines_def, subst raw_lines.simps)
         (simp add: file_lines_def Let_def cong: bindR_cong)
  qed
qed

lemma editorOpen_ok:
  assumes "ed_inv E" "list_all fits (file_lines s)"
  shows "\<exists>E'. editorOpen f (Some s) E = Inr E' \<and> ed_inv E' \<and> lines_of E' = lines_of E @ file_lines s \<and>
     dirty E' = 0 \<and> same_view (E\<lparr>efilename := f\<rparr>) E'"
proof -
  let ?E = "E\<lparr>dirty := 0, efilename := f\<rparr>"
  have "ed_inv ?E" "lines_of ?E = lines_of E"
    using assms by (simp_all add: ed_inv_def rows_inv_def lines_of_def)
  with kilo_rows.append_rows [of ?E, OF _ assms(2)] obtain E' where
    "open_loop s ?E = Inr E'" "ed_inv E'" "same_view ?E E'" "lines_of E' = lines_of E @ file_lines s"
    unfolding open_loop_eq by auto
  then show ?thesis
    by (auto simp: editorOpen_def ed_inv_def rows_inv_def lines_of_def same_view_def)
qed

lemma editorRowsToString_eq: "ed_inv E \<Longrightarrow> editorRowsToString E = unlines (lines_of E)"
  by (simp add: editorRowsToString_def unlines_def lines_of_def ed_inv_length comp_def)

lemma getline_line: "NL \<notin> set t \<Longrightarrow> getline (t @ NL # rest) = (t @ [NL], rest)"
  by (induction t) auto

lemma raw_lines_Cons: "NL \<notin> set t \<Longrightarrow> raw_lines (t @ NL # rest) = (t @ [NL]) # raw_lines rest"
  by (subst raw_lines.simps) (simp add: getline_line)

lemma strip_eol_NL [simp]: "strip_eol (t @ [NL]) = t"
  by (simp add: strip_eol_def)

lemma file_lines_unlines: "list_all (\<lambda>t. NL \<notin> set t) ls \<Longrightarrow> file_lines (unlines ls) = ls"
  by (induction ls) (simp_all add: unlines_def file_lines_def raw_lines_Cons raw_lines.simps [of "[]"])

lemma getline_cases:
  "(\<exists>t r. NL \<notin> set t \<and> getline s = (t @ [NL], r)) \<or> (NL \<notin> set s \<and> getline s = (s, []))"
proof (induction s)
  case (Cons c s)
  show ?case
  proof (cases "c = NL")
    case True
    then have "getline (c # s) = ([] @ [NL], s)" by simp
    then show ?thesis by (metis empty_iff list.set(1))
  next
    case False
    with Cons.IH show ?thesis
    proof (elim disjE exE conjE)
      fix t r
      assume t: "NL \<notin> set t" "getline s = (t @ [NL], r)"
      then have "getline (c # s) = ((c # t) @ [NL], r)" "NL \<notin> set (c # t)"
        using False by simp_all
      then show ?thesis by blast
    qed (use False in auto)
  qed
qed simp

lemma getline_shape:
  assumes "s \<noteq> []"
  obtains t r where "NL \<notin> set t" "getline s = (t @ [NL], r)"
  | "NL \<notin> set s" "getline s = (s, [])"
  using getline_cases [of s] by blast

lemma unlines_file_lines:
  assumes "s = [] \<or> last s = NL"
  shows "unlines (file_lines s) = s"
  using assms
proof (induction s rule: raw_lines.induct)
  case (1 s)
  show ?case
  proof (cases "s = []")
    case True
    then show ?thesis by (simp add: file_lines_def raw_lines.simps unlines_def)
  next
    case False
    then show ?thesis
    proof (cases rule: getline_shape)
      case (1 t r)
      have s: "s = t @ NL # r" using getline_append [OF 1(2)] by simp
      have "r = [] \<or> last r = NL" using "1.prems" s False by (cases "r = []") auto
      then have "unlines (file_lines r) = r" using "1.IH" False 1(2) by simp
      then show ?thesis using 1(1) unfolding s
        by (simp add: file_lines_def raw_lines_Cons unlines_def)
    next
      case 2
      with False "1.prems" show ?thesis by (metis last_in_set)
    qed
  qed
qed

lemma write_at_start_eq [simp]: "write_at_start buf old = buf"
  by (simp add: write_at_start_def)

definition initEditor :: "editorConfig \<Rightarrow> editorConfig" where
  "initEditor E = E\<lparr>cx := 0, cy := 0, rowoff := 0, coloff := 0, numrows := 0, erows := [],
     dirty := 0, efilename := []\<rparr>"

lemma initEditor_inv: "(\<forall>s. esyntax E = Some s \<longrightarrow> wf_syntax s) \<Longrightarrow> ed_inv (initEditor E)"
  by (simp add: initEditor_def ed_inv_def rows_inv_def)

lemma initEditor_lines [simp]: "lines_of (initEditor E) = []"
  by (simp add: initEditor_def lines_of_def)

end
