(* ===== verification/Editor.thy ===== *)
theory Editor
  imports Rows
begin

text \<open>
  Cursor movement and editing commands of \<^verbatim>\<open>src/src/kilo.c\<close>: \<open>editorInsertChar\<close>,
  \<open>editorInsertNewline\<close>, \<open>editorDelChar\<close>, \<open>editorMoveCursor\<close>, the comment
  toggles, \<open>word_at_cursor\<close> and the key dispatch of \<open>editorProcessKeypress2\<close>.  Cursor
  and viewport fields are signed, as in the source: some commands do drive them below zero.
  Loops that run until the cursor reaches the start of a line are fuelled.
\<close>

section \<open>Positions\<close>

definition filerow :: "editorConfig \<Rightarrow> int" where
  "filerow E = rowoff E + cy E"

definition filecol :: "editorConfig \<Rightarrow> int" where
  "filecol E = coloff E + cx E"

definition natR :: "int \<Rightarrow> nat res" where
  "natR i = (if i < 0 then Inl OutOfBounds else Inr (nat i))"

text \<open>\<open>(filerow >= E.numrows) ? NULL : &E.row[filerow]\<close>\<close>

definition row_at :: "int \<Rightarrow> editorConfig \<Rightarrow> nat option res" where
  "row_at fr E =
     (if fr \<ge> int (numrows E) then Inr None else bindR (natR fr) (\<lambda>k. Inr (Some k)))"

definition row_size :: "nat \<Rightarrow> editorConfig \<Rightarrow> nat res" where
  "row_size k E = bindR (nthR (erows E) k) (\<lambda>r. Inr (r_size r))"

section \<open>Inserting\<close>

fun fill_rows :: "nat \<Rightarrow> int \<Rightarrow> editorConfig \<Rightarrow> editorConfig res" where
  "fill_rows 0 fr E = Inl OutOfFuel"
| "fill_rows (Suc n) fr E =
     (if int (numrows E) \<le> fr
      then bindR (editorInsertRow (numrows E) [NUL] 0 E) (fill_rows n fr) else Inr E)"

definition cursor_right :: "editorConfig \<Rightarrow> editorConfig" where
  "cursor_right E =
     (if cx E = cols E - 1 then E\<lparr>coloff := coloff E + 1\<rparr> else E\<lparr>cx := cx E + 1\<rparr>)"

definition editorInsertChar :: "char \<Rightarrow> editorConfig \<Rightarrow> editorConfig res" where
  "editorInsertChar c E =
     (let fr = filerow E; fc = filecol E in
      bindR (row_at fr E) (\<lambda>row.
      bindR (if row = None then fill_rows (nat (fr + 1) + 1) fr E else Inr E) (\<lambda>E1.
      bindR (natR fr) (\<lambda>k. bindR (natR fc) (\<lambda>at.
      bindR (editorRowInsertChar k at c E1) (\<lambda>E2.
      Inr (bump_dirty (cursor_right E2))))))))"

definition cursor_newline :: "editorConfig \<Rightarrow> editorConfig" where
  "cursor_newline E =
     (if startrow E + cy E = endrow E - 1 then E\<lparr>rowoff := rowoff E + 1, cx := 0, coloff := 0\<rparr>
      else E\<lparr>cy := cy E + 1, cx := 0, coloff := 0\<rparr>)"

definition truncate_row :: "nat \<Rightarrow> nat \<Rightarrow> editorConfig \<Rightarrow> editorConfig res" where
  "truncate_row k n E =
     bindR (nthR (erows E) k) (\<lambda>r.
     bindR (updR (r_chars r) n NUL) (\<lambda>cs.
     editorUpdateRow k (set_row E k (r\<lparr>r_chars := cs, r_size := n\<rparr>))))"

definition editorInsertNewline :: "editorConfig \<Rightarrow> editorConfig res" where
  "editorInsertNewline E =
     (let fr = filerow E in
      bindR (row_at fr E) (\<lambda>row.
      case row of
        None \<Rightarrow>
          (if fr = int (numrows E) then
             bindR (natR fr) (\<lambda>k. bindR (editorInsertRow k [NUL] 0 E) (\<lambda>E1. Inr (cursor_newline E1)))
           else Inr E)
      | Some k \<Rightarrow>
          bindR (nthR (erows E) k) (\<lambda>r.
          let fc = (if filecol E \<ge> int (r_size r) then int (r_size r) else filecol E) in
          if fc = 0 then bindR (editorInsertRow k [NUL] 0 E) (\<lambda>E1. Inr (cursor_newline E1))
          else
            bindR (natR fc) (\<lambda>n.
            bindR (editorInsertRow (k + 1) (drop n (r_chars r)) (r_size r - n) E) (\<lambda>E1.
            bindR (truncate_row k n E1) (\<lambda>E2. Inr (cursor_newline E2)))))))"

section \<open>Deleting\<close>

text \<open>\<open>int shift = (E.cols-E.cx)+1; E.cx -= shift; E.coloff += shift;\<close>\<close>

definition cursor_joined :: "int \<Rightarrow> editorConfig \<Rightarrow> editorConfig" where
  "cursor_joined fc E =
     (let E1 = (if cy E = 0 then E\<lparr>rowoff := rowoff E - 1\<rparr> else E\<lparr>cy := cy E - 1\<rparr>);
          E2 = E1\<lparr>cx := fc\<rparr>
      in if cx E2 \<ge> cols E2 then
           let shift = (cols E2 - cx E2) + 1 in
           E2\<lparr>cx := cx E2 - shift, coloff := coloff E2 + shift\<rparr>
         else E2)"

definition editorDelChar :: "editorConfig \<Rightarrow> editorConfig res" where
  "editorDelChar E =
     (let fr = filerow E; fc = filecol E in
      bindR (row_at fr E) (\<lambda>row.
      case row of
        None \<Rightarrow> Inr E
      | Some k \<Rightarrow>
          if fc = 0 \<and> fr = 0 then Inr E
          else if fc = 0 then
            bindR (nthR (erows E) k) (\<lambda>r.
            bindR (natR (fr - 1)) (\<lambda>p.
            bindR (row_size p E) (\<lambda>n.
            bindR (editorRowAppendString p (r_chars r) (r_size r) E) (\<lambda>E1.
            bindR (editorDelRow k E1) (\<lambda>E2.
            Inr (bump_dirty (cursor_joined (int n) E2)))))))
          else
            bindR (natR (fc - 1)) (\<lambda>at.
            bindR (editorRowDelChar k at E) (\<lambda>E1.
            let E2 = (if cx E1 = 0 \<and> coloff E1 \<noteq> 0 then E1\<lparr>coloff := coloff E1 - 1\<rparr>
                      else E1\<lparr>cx := cx E1 - 1\<rparr>) in
            bindR (editorUpdateRow k E2) (\<lambda>E3. Inr (bump_dirty E3))))))"

section \<open>Moving\<close>

datatype direction = LEFT | RIGHT | UP | DOWN

definition cursor_down :: "editorConfig \<Rightarrow> editorConfig" where
  "cursor_down E =
     (if startrow E + cy E = endrow E - 1 then E\<lparr>rowoff := rowoff E + 1\<rparr> else E\<lparr>cy := cy E + 1\<rparr>)"

definition move_left :: "editorConfig \<Rightarrow> editorConfig res" where
  "move_left E =
     (if cx E = 0 then
        if coloff E \<noteq> 0 then Inr (E\<lparr>coloff := coloff E - 1\<rparr>)
        else if filerow E > 0 then
          bindR (natR (filerow E - 1)) (\<lambda>p.
          bindR (row_size p E) (\<lambda>n.
          let E1 = E\<lparr>cy := cy E - 1, cx := int n\<rparr> in
          Inr (if cx E1 > cols E1 - 1
               then E1\<lparr>coloff := cx E1 - cols E1 + 1, cx := cols E1 - 1\<rparr> else E1)))
        else Inr E
      else Inr (E\<lparr>cx := cx E - 1\<rparr>))"

definition move_right :: "editorConfig \<Rightarrow> editorConfig res" where
  "move_right E =
     bindR (row_at (filerow E) E) (\<lambda>row.
     case row of
       None \<Rightarrow> Inr E
     | Some k \<Rightarrow>
         bindR (row_size k E) (\<lambda>n.
         if filecol E < int n then Inr (cursor_right E)
         else if filecol E = int n then Inr (cursor_down (E\<lparr>cx := 0, coloff := 0\<rparr>))
         else Inr E))"

definition move_up :: "editorConfig \<Rightarrow> editorConfig" where
  "move_up E =
     (if cy E = 0 then (if rowoff E \<noteq> 0 then E\<lparr>rowoff := rowoff E - 1\<rparr> else E)
      else E\<lparr>cy := cy E - 1\<rparr>)"

definition move_down :: "editorConfig \<Rightarrow> editorConfig" where
  "move_down E = (if filerow E < int (numrows E) - 1 then cursor_down E else E)"

definition row_length :: "editorConfig \<Rightarrow> int res" where
  "row_length E =
     bindR (row_at (filerow E) E) (\<lambda>row.
     case row of None \<Rightarrow> Inr 0 | Some k \<Rightarrow> bindR (row_size k E) (\<lambda>n. Inr (int n)))"

text \<open>\<open>/* Fix cx if the current line has not enough chars. */\<close>\<close>

definition fix_column :: "editorConfig \<Rightarrow> editorConfig res" where
  "fix_column E =
     bindR (row_length E) (\<lambda>rowlen.
     if filecol E > rowlen then
       let E1 = E\<lparr>cx := cx E - (filecol E - rowlen)\<rparr> in
       Inr (if cx E1 < 0 then E1\<lparr>coloff := coloff E1 + cx E1, cx := 0\<rparr> else E1)
     else Inr E)"

definition editorMoveCursor :: "direction \<Rightarrow> editorConfig \<Rightarrow> editorConfig res" where
  "editorMoveCursor d E =
     bindR (case d of LEFT \<Rightarrow> move_left E | RIGHT \<Rightarrow> move_right E
              | UP \<Rightarrow> Inr (move_up E) | DOWN \<Rightarrow> Inr (move_down E)) fix_column"

definition editorAtStartOfLine :: "editorConfig \<Rightarrow> bool" where
  "editorAtStartOfLine E \<longleftrightarrow> coloff E = 0 \<and> cx E = 0"

section \<open>Commenting a line\<close>

definition editorUncommentCursorRow :: "editorConfig \<Rightarrow> editorConfig res" where
  "editorUncommentCursorRow E =
     bindR (natR (filerow E)) (\<lambda>k.
     bindR (editorUpdateRow k (E\<lparr>coloff := 0, cx := 4\<rparr>)) (\<lambda>E1.
     bindR (editorDelChar E1) (\<lambda>E2. bindR (editorDelChar E2) (\<lambda>E3.
     bindR (editorDelChar E3) editorDelChar))))"

definition editorCommentCursorRow :: "editorConfig \<Rightarrow> editorConfig res" where
  "editorCommentCursorRow E =
     bindR (natR (filerow E)) (\<lambda>k.
     bindR (foldMR (editorRowInsertChar k 0) [SPC, CHR ''?'', CHR ''-'', CHR ''-''] E) (\<lambda>E1.
     Inr (E1\<lparr>coloff := 0, cx := 0\<rparr>)))"

section \<open>The word under the cursor\<close>

definition identifier_char :: "char \<Rightarrow> bool" where
  "identifier_char c \<longleftrightarrow> isalnum c \<or> c = CHR ''_'' \<or> c = CHR '':''"

fun scan_back :: "string \<Rightarrow> nat \<Rightarrow> nat res" where
  "scan_back cs 0 = Inr 0"
| "scan_back cs (Suc i) =
     bindR (nthR cs i) (\<lambda>c. if identifier_char c then scan_back cs i else Inr (Suc i))"

definition word_at_cursor :: "nat \<Rightarrow> editorConfig \<Rightarrow> string res" where
  "word_at_cursor capacity E =
     bindR (natR (filerow E)) (\<lambda>k.
     bindR (nthR (erows E) k) (\<lambda>r.
     bindR (natR (filecol E)) (\<lambda>i.
     bindR (scan_back (r_chars r) i) (\<lambda>cidx.
     let w = takeWhile identifier_char (drop cidx (row_text r)) in
     Inr (if length w < capacity then w else [])))))"

section \<open>Where the cursor is drawn\<close>

text \<open>
  The column computation at the end of \<open>editorRefreshScreen\<close>: tabs advance to the next
  multiple of eight.
\<close>

fun screen_col :: "string \<Rightarrow> nat \<Rightarrow> nat" where
  "screen_col [] x = x"
| "screen_col (c # cs) x = screen_col cs (Suc (if c = TAB then x + (7 - x mod 8) else x))"

definition cursor_column :: "editorConfig \<Rightarrow> nat res" where
  "cursor_column E =
     bindR (row_at (filerow E) E) (\<lambda>row.
     case row of None \<Rightarrow> Inr 0
     | Some k \<Rightarrow> bindR (nthR (erows E) k) (\<lambda>r.
         bindR (natR (coloff E)) (\<lambda>o1.
         let n = nat (cx E); seen = take n (drop o1 (row_text r)) in
         Inr (screen_col (seen @ replicate (n - length seen) SPC) 0))))"

section \<open>Key dispatch\<close>

text \<open>
  What \<open>getch()\<close> returns: the curses key codes the editor names, any other code above
  255, or a byte.
\<close>

datatype key =
    KEY_UP | KEY_DOWN | KEY_LEFT | KEY_RIGHT | KEY_BACKSPACE | KEY_NPAGE | KEY_PPAGE
  | KEY_OTHER nat
  | Byte nat

fun move_times :: "nat \<Rightarrow> direction \<Rightarrow> editorConfig \<Rightarrow> editorConfig res" where
  "move_times 0 d E = Inr E"
| "move_times (Suc n) d E = bindR (editorMoveCursor d E) (move_times n d)"

fun until_start :: "nat \<Rightarrow> (editorConfig \<Rightarrow> editorConfig res) \<Rightarrow> editorConfig \<Rightarrow> editorConfig res" where
  "until_start 0 f E = Inl OutOfFuel"
| "until_start (Suc n) f E =
     (if editorAtStartOfLine E then Inr E else bindR (f E) (until_start n f))"

text \<open>\<open>body\<close> is what the loop does after moving right without reaching the next line.\<close>

fun right_until_wrap ::
    "nat \<Rightarrow> (editorConfig \<Rightarrow> editorConfig res) \<Rightarrow> editorConfig \<Rightarrow> editorConfig res" where
  "right_until_wrap 0 body E = Inl OutOfFuel"
| "right_until_wrap (Suc n) body E =
     bindR (editorMoveCursor RIGHT E) (\<lambda>E1.
     if editorAtStartOfLine E1 then editorMoveCursor LEFT E1
     else bindR (body E1) (right_until_wrap n body))"

definition line_fuel :: "editorConfig \<Rightarrow> nat" where
  "line_fuel E = nat (filecol E) + (case row_length E of Inl _ \<Rightarrow> 0 | Inr n \<Rightarrow> nat n) + 2"

definition leading_spaces :: "string \<Rightarrow> string" where
  "leading_spaces t = takeWhile (\<lambda>c. c = SPC) t"

definition key_enter :: "editorConfig \<Rightarrow> editorConfig res" where
  "key_enter E =
     bindR (editorInsertNewline E) (\<lambda>E1.
     bindR (natR (filerow E1 - 1)) (\<lambda>p.
     bindR (nthR (erows E1) p) (\<lambda>prevrow.
     foldMR editorInsertChar (leading_spaces (row_text prevrow)) E1)))"

definition key_page :: "bool \<Rightarrow> editorConfig \<Rightarrow> editorConfig res" where
  "key_page page_up E =
     (let E1 = (if page_up \<and> cy E \<noteq> 0 then E\<lparr>cy := 0\<rparr>
                else if \<not> page_up \<and> startrow E + cy E \<noteq> endrow E - 1
                then E\<lparr>cy := endrow E - 1 - startrow E\<rparr> else E);
          times = endrow E1 - startrow E1
      in if times < 0 then Inl OutOfFuel
         else move_times (nat times) (if page_up then UP else DOWN) E1)"

definition key_slash :: "editorConfig \<Rightarrow> editorConfig res" where
  "key_slash E =
     bindR (natR (filerow E)) (\<lambda>k.
     bindR (nthR (erows E) k) (\<lambda>r.
     if starts_with (c_str (r_chars r)) ''--? '' then editorUncommentCursorRow E
     else editorCommentCursorRow E))"

text \<open>
  The editing keys of \<open>editorProcessKeypress2\<close>.  \<open>CTRL_C\<close>, \<open>CTRL_X\<close> and
  \<open>CTRL_F\<close> leave the edit buffer alone or read more keys; they are not editing keys.
\<close>

definition editorProcessKey :: "key \<Rightarrow> editorConfig \<Rightarrow> editorConfig res" where
  "editorProcessKey c E =
     (case c of
        KEY_UP \<Rightarrow> editorMoveCursor UP E
      | KEY_DOWN \<Rightarrow> editorMoveCursor DOWN E
      | KEY_LEFT \<Rightarrow> editorMoveCursor LEFT E
      | KEY_RIGHT \<Rightarrow> editorMoveCursor RIGHT E
      | KEY_BACKSPACE \<Rightarrow> editorDelChar E
      | KEY_NPAGE \<Rightarrow> key_page False E
      | KEY_PPAGE \<Rightarrow> key_page True E
      | KEY_OTHER n \<Rightarrow> editorInsertChar (char_of n) E
      | Byte b \<Rightarrow>
          if b = 10 then key_enter E
          else if b = 127 \<or> b = 8 then editorDelChar E
          else if b = 1 then until_start (line_fuel E) (editorMoveCursor LEFT) E
          else if b = 12 then right_until_wrap (line_fuel E) Inr E
          else if b = 21 then until_start (line_fuel E) editorDelChar E
          else if b = 11 then right_until_wrap (line_fuel E) editorDelChar E
          else if b = 31 then key_slash E
          else if b = 9 then bindR (editorInsertChar SPC E) (editorInsertChar SPC)
          else if b \<ge> 32 then editorInsertChar (char_of b) E
          else Inr E)"

section \<open>Good cursor positions\<close>

definition cur_len :: "editorConfig \<Rightarrow> int" where
  "cur_len E = (if filerow E < int (numrows E) then int (length (lines_of E ! nat (filerow E))) else 0)"

definition file_pos :: "editorConfig \<Rightarrow> bool" where
  "file_pos E \<longleftrightarrow> 0 \<le> filerow E \<and> filerow E \<le> int (numrows E) \<and>
     0 \<le> filecol E \<and> filecol E \<le> cur_len E"

definition screen_pos :: "editorConfig \<Rightarrow> bool" where
  "screen_pos E \<longleftrightarrow> 0 \<le> rowoff E \<and> 0 \<le> coloff E \<and> 0 \<le> cx E \<and> cx E < cols E \<and>
     0 \<le> cy E \<and> cy E < endrow E - startrow E"

definition good :: "editorConfig \<Rightarrow> bool" where
  "good E \<longleftrightarrow> ed_inv E \<and> file_pos E \<and> screen_pos E"

text \<open>Only the cursor and the viewport moved.\<close>

definition same_buffer :: "editorConfig \<Rightarrow> editorConfig \<Rightarrow> bool" where
  "same_buffer E E' \<longleftrightarrow> erows E' = erows E \<and> numrows E' = numrows E \<and> dirty E' = dirty E \<and>
     startcol E' = startcol E \<and> cols E' = cols E \<and> startrow E' = startrow E \<and>
     endrow E' = endrow E \<and> efilename E' = efilename E \<and> esyntax E' = esyntax E"

named_theorems pos_defs "positions and cursor updates"
declare filerow_def [pos_defs] filecol_def [pos_defs] screen_pos_def [pos_defs]
  cursor_right_def [pos_defs] cursor_down_def [pos_defs] cursor_newline_def [pos_defs]
  move_up_def [pos_defs] move_down_def [pos_defs]

lemma natR_nonneg [simp]: "0 \<le> i \<Longrightarrow> natR i = Inr (nat i)" "natR (int n) = Inr n"
  by (simp_all add: natR_def)

lemma same_buffer_refl [simp]: "same_buffer E E"
  by (simp add: same_buffer_def)

lemma same_buffer_trans: "same_buffer E E' \<Longrightarrow> same_buffer E' E'' \<Longrightarrow> same_buffer E E''"
  by (simp add: same_buffer_def)

lemma same_buffer_inv: "same_buffer E E' \<Longrightarrow> ed_inv E' = ed_inv E"
  by (simp add: same_buffer_def ed_inv_def rows_inv_def)

lemma same_buffer_lines: "same_buffer E E' \<Longrightarrow> lines_of E' = lines_of E"
  by (simp add: same_buffer_def lines_of_def)

lemma row_at_ok: "0 \<le> fr \<Longrightarrow> row_at fr E = Inr (if fr < int (numrows E) then Some (nat fr) else None)"
  by (simp add: row_at_def)

lemma row_size_ok: "ed_inv E \<Longrightarrow> k < numrows E \<Longrightarrow> row_size k E = Inr (length (lines_of E ! k))"
  by (simp add: row_size_def ed_inv_length ed_inv_row)

lemma row_length_ok: "ed_inv E \<Longrightarrow> 0 \<le> filerow E \<Longrightarrow> row_length E = Inr (cur_len E)"
  by (auto simp: row_length_def row_at_ok cur_len_def row_size_ok nat_less_iff)

lemma cur_len_nonneg [simp]: "0 \<le> cur_len E"
  by (simp add: cur_len_def)

lemma cur_len_buffer: "same_buffer E E' \<Longrightarrow> filerow E' = filerow E \<Longrightarrow> cur_len E' = cur_len E"
  by (simp add: cur_len_def same_buffer_lines) (simp add: same_buffer_def)

text \<open>The last step of every movement puts the column back into the line.\<close>

definition pre_fix :: "editorConfig \<Rightarrow> bool" where
  "pre_fix E \<longleftrightarrow> ed_inv E \<and> 0 \<le> filerow E \<and> filerow E \<le> int (numrows E) \<and> screen_pos E"

lemma fix_column_ok:
  assumes "pre_fix E"
  shows "\<exists>E'. fix_column E = Inr E' \<and> good E' \<and> same_buffer E E' \<and> cy E' = cy E \<and>
     rowoff E' = rowoff E \<and> filecol E' = min (filecol E) (cur_len E)"
proof -
  let ?len = "cur_len E"
  have len: "row_length E = Inr ?len" using assms by (simp add: pre_fix_def row_length_ok)
  define E1 where "E1 = E\<lparr>cx := cx E - (filecol E - ?len)\<rparr>"
  define E' where "E' = (if filecol E > ?len then
      if cx E1 < 0 then E1\<lparr>coloff := coloff E1 + cx E1, cx := 0\<rparr> else E1 else E)"
  have sb: "same_buffer E E'" by (simp add: E'_def E1_def same_buffer_def)
  have cyrow: "cy E' = cy E" "rowoff E' = rowoff E" by (simp_all add: E'_def E1_def)
  then have fr: "filerow E' = filerow E" by (simp add: filerow_def)
  have fc: "filecol E' = min (filecol E) ?len"
    by (simp add: E'_def E1_def filecol_def)
  have "screen_pos E'"
    using assms cur_len_nonneg [of E] by (auto simp: E'_def E1_def pre_fix_def pos_defs)
  moreover have "file_pos E'"
    using assms fc fr sb cur_len_buffer [OF sb fr] by (auto simp: file_pos_def pre_fix_def pos_defs same_buffer_def)
  ultimately have "good E'" using assms sb by (simp add: good_def pre_fix_def same_buffer_inv)
  moreover have "fix_column E = Inr E'" by (simp add: fix_column_def len E'_def E1_def)
  ultimately show ?thesis using sb cyrow fc by blast
qed

lemma good_D:
  assumes "good E"
  shows "ed_inv E" "0 \<le> filerow E" "filerow E \<le> int (numrows E)" "0 \<le> filecol E"
    "filecol E \<le> cur_len E" "screen_pos E" "0 \<le> rowoff E" "0 \<le> coloff E" "0 \<le> cx E"
    "cx E < cols E" "0 \<le> cy E" "cy E < endrow E - startrow E"
  using assms by (auto simp: good_def file_pos_def screen_pos_def)

lemma pre_fix_buffer:
  assumes "good E" "same_buffer E E'" "screen_pos E'" "0 \<le> filerow E'" "filerow E' \<le> int (numrows E)"
  shows "pre_fix E'"
  using assms good_D(1) [OF assms(1)] by (simp add: pre_fix_def same_buffer_inv) (simp add: same_buffer_def)

text \<open>
  Moving left is safe except from the first column of the first visible line of a scrolled
  buffer: there \<open>cy\<close> becomes -1.
\<close>

definition left_escapes :: "editorConfig \<Rightarrow> bool" where
  "left_escapes E \<longleftrightarrow> cx E = 0 \<and> coloff E = 0 \<and> cy E = 0 \<and> rowoff E > 0"

lemma move_left_good:
  assumes g: "good E" and ne: "\<not> left_escapes E"
  shows "\<exists>E'. editorMoveCursor LEFT E = Inr E' \<and> good E' \<and> same_buffer E E' \<and>
     (if filecol E > 0 then filerow E' = filerow E \<and> filecol E' = filecol E - 1
      else if filerow E > 0 then filerow E' = filerow E - 1 \<and> filecol E' = cur_len E'
      else filerow E' = 0 \<and> filecol E' = 0)"
proof -
  note D = good_D [OF g]
  obtain E1 where E1: "move_left E = Inr E1" "same_buffer E E1" "pre_fix E1"
     "if filecol E > 0 then filerow E1 = filerow E \<and> filecol E1 = filecol E - 1
      else if filerow E > 0 then filerow E1 = filerow E - 1 \<and> filecol E1 = cur_len E1
      else filerow E1 = 0 \<and> filecol E1 = 0"
  proof (cases "filecol E > 0")
    case True
    define E1 where "E1 = (if cx E = 0 then E\<lparr>coloff := coloff E - 1\<rparr> else E\<lparr>cx := cx E - 1\<rparr>)"
    have "same_buffer E E1" by (simp add: E1_def same_buffer_def)
    moreover have "move_left E = Inr E1"
      using True by (auto simp: move_left_def E1_def filecol_def)
    moreover have "screen_pos E1" "filerow E1 = filerow E" "filecol E1 = filecol E - 1"
      using D True by (auto simp: E1_def pos_defs)
    moreover then have "pre_fix E1" using D calculation(1) by (intro pre_fix_buffer [OF g]) auto
    ultimately show thesis using True by (intro that [of E1]) auto
  next
    case False
    then have z: "cx E = 0" "coloff E = 0" "filecol E = 0" using D by (auto simp: filecol_def)
    show thesis
    proof (cases "filerow E > 0")
      case pos: True
      let ?n = "length (lines_of E ! nat (filerow E - 1))"
      define E0 where "E0 = E\<lparr>cy := cy E - 1, cx := int ?n\<rparr>"
      define E1 where "E1 = (if cx E0 > cols E0 - 1
          then E0\<lparr>coloff := cx E0 - cols E0 + 1, cx := cols E0 - 1\<rparr> else E0)"
      have cy: "cy E > 0" using ne z D pos by (auto simp: left_escapes_def filerow_def)
      have lt: "nat (filerow E - 1) < numrows E" using D pos by (simp add: nat_less_iff)
      have "move_left E = Inr E1"
        using z pos row_size_ok [OF D(1) lt] by (simp add: move_left_def E1_def E0_def Let_def)
      moreover have sb: "same_buffer E E1" by (simp add: E1_def E0_def same_buffer_def)
      moreover have "screen_pos E1"
        using D cy by (auto simp: E1_def E0_def pos_defs)
      moreover have fr: "filerow E1 = filerow E - 1" by (simp add: E1_def E0_def pos_defs)
      moreover have "filecol E1 = cur_len E1"
        using lt pos z sb fr D
        by (simp add: cur_len_def same_buffer_lines) (simp add: E1_def E0_def pos_defs same_buffer_def)
      moreover have "pre_fix E1"
        using D calculation pos by (intro pre_fix_buffer [OF g]) auto
      ultimately show thesis using z pos by (intro that [of E1]) auto
    next
      case zero: False
      have "move_left E = Inr E" using z zero by (simp add: move_left_def)
      moreover have "pre_fix E" using D by (simp add: pre_fix_def)
      ultimately show thesis using z zero D by (intro that [of E]) auto
    qed
  qed
  from fix_column_ok [OF E1(3)] obtain E2 where E2: "fix_column E1 = Inr E2" "good E2"
    "same_buffer E1 E2" "cy E2 = cy E1" "rowoff E2 = rowoff E1"
    "filecol E2 = min (filecol E1) (cur_len E1)" by blast
  have fr2: "filerow E2 = filerow E1" using E2 by (simp add: filerow_def)
  have len: "cur_len E2 = cur_len E1" by (rule cur_len_buffer [OF E2(3) fr2])
  have "cur_len E1 = cur_len E" if "filerow E1 = filerow E"
    using cur_len_buffer [OF E1(2) that] .
  then have "if filecol E > 0 then filerow E2 = filerow E \<and> filecol E2 = filecol E - 1
      else if filerow E > 0 then filerow E2 = filerow E - 1 \<and> filecol E2 = cur_len E2
      else filerow E2 = 0 \<and> filecol E2 = 0"
    using E1(4) E2(6) fr2 len D(5) cur_len_nonneg [of E1] by (auto split: if_splits)
  moreover have "editorMoveCursor LEFT E = Inr E2"
    using E1(1) E2(1) by (simp add: editorMoveCursor_def)
  ultimately show ?thesis using E2 E1(2) same_buffer_trans by blast
qed

lemma move_finish:
  assumes "pre_fix E1" "same_buffer E E1" "m = Inr E1"
  shows "\<exists>E'. bindR m fix_column = Inr E' \<and> good E' \<and> same_buffer E E' \<and> filerow E' = filerow E1 \<and>
     filecol E' = min (filecol E1) (cur_len E')"
proof -
  from fix_column_ok [OF assms(1)] obtain E2 where E2: "fix_column E1 = Inr E2" "good E2"
    "same_buffer E1 E2" "cy E2 = cy E1" "rowoff E2 = rowoff E1"
    "filecol E2 = min (filecol E1) (cur_len E1)" by blast
  have fr2: "filerow E2 = filerow E1" using E2 by (simp add: filerow_def)
  with cur_len_buffer [OF E2(3) fr2] E2 assms show ?thesis
    by (auto intro: same_buffer_trans)
qed

lemma move_right_good:
  assumes g: "good E"
  shows "\<exists>E'. editorMoveCursor RIGHT E = Inr E' \<and> good E' \<and> same_buffer E E' \<and>
     (if filerow E = int (numrows E) then filerow E' = filerow E \<and> filecol E' = filecol E
      else if filecol E < cur_len E then filerow E' = filerow E \<and> filecol E' = filecol E + 1
      else filerow E' = filerow E + 1 \<and> filecol E' = 0)"
proof -
  note D = good_D [OF g]
  define E1 where "E1 = (if filerow E = int (numrows E) then E
     else if filecol E < cur_len E then cursor_right E else cursor_down (E\<lparr>cx := 0, coloff := 0\<rparr>))"
  have sb: "same_buffer E E1"
    by (simp add: E1_def same_buffer_def cursor_right_def cursor_down_def)
  have m: "move_right E = Inr E1"
  proof (cases "filerow E < int (numrows E)")
    case True
    then have "nat (filerow E) < numrows E" using D by (simp add: nat_less_iff)
    with True D show ?thesis
      by (auto simp: move_right_def row_at_ok row_size_ok E1_def cur_len_def)
  qed (use D in \<open>simp add: move_right_def row_at_ok E1_def\<close>)
  have scr: "screen_pos E1" using D by (auto simp: E1_def pos_defs)
  have fr: "filerow E1 = (if filerow E = int (numrows E) \<or> filecol E < cur_len E then filerow E
      else filerow E + 1)"
    using D by (auto simp: E1_def pos_defs)
  have fc: "filecol E1 = (if filerow E = int (numrows E) then filecol E
      else if filecol E < cur_len E then filecol E + 1 else 0)"
    by (auto simp: E1_def pos_defs)
  have "pre_fix E1" using D fr by (intro pre_fix_buffer [OF g sb scr]) (auto split: if_splits)
  from move_finish [OF this sb m] obtain E2 where E2:
    "bindR (move_right E) fix_column = Inr E2" "good E2" "same_buffer E E2"
    "filerow E2 = filerow E1" "filecol E2 = min (filecol E1) (cur_len E2)" by blast
  have "cur_len E2 = cur_len E" if "filerow E2 = filerow E"
    using cur_len_buffer [OF E2(3) that] .
  then have "if filerow E = int (numrows E) then filerow E2 = filerow E \<and> filecol E2 = filecol E
      else if filecol E < cur_len E then filerow E2 = filerow E \<and> filecol E2 = filecol E + 1
      else filerow E2 = filerow E + 1 \<and> filecol E2 = 0"
    using E2(4,5) fr fc D(5) cur_len_nonneg [of E2] by (auto split: if_splits)
  with E2 show ?thesis by (auto simp: editorMoveCursor_def)
qed

lemma move_up_good:
  assumes g: "good E"
  shows "\<exists>E'. editorMoveCursor UP E = Inr E' \<and> good E' \<and> same_buffer E E' \<and>
     filerow E' = max 0 (filerow E - 1) \<and> filecol E' = min (filecol E) (cur_len E')"
proof -
  note D = good_D [OF g]
  have sb: "same_buffer E (move_up E)"
    by (simp add: same_buffer_def move_up_def)
  have "screen_pos (move_up E)" "filerow (move_up E) = max 0 (filerow E - 1)"
    "filecol (move_up E) = filecol E"
    using D by (auto simp: pos_defs)
  moreover then have "pre_fix (move_up E)" using D by (intro pre_fix_buffer [OF g sb]) auto
  ultimately show ?thesis
    using move_finish [OF _ sb refl] by (auto simp: editorMoveCursor_def)
qed

lemma move_down_good:
  assumes g: "good E"
  shows "\<exists>E'. editorMoveCursor DOWN E = Inr E' \<and> good E' \<and> same_buffer E E' \<and>
     filerow E' = (if filerow E < int (numrows E) - 1 then filerow E + 1 else filerow E) \<and>
     filecol E' = min (filecol E) (cur_len E')"
proof -
  note D = good_D [OF g]
  have sb: "same_buffer E (move_down E)"
    by (simp add: same_buffer_def move_down_def cursor_down_def)
  have "screen_pos (move_down E)" "filecol (move_down E) = filecol E"
    "filerow (move_down E) = (if filerow E < int (numrows E) - 1 then filerow E + 1 else filerow E)"
    using D by (auto simp: pos_defs)
  moreover then have "pre_fix (move_down E)" using D by (intro pre_fix_buffer [OF g sb]) auto
  ultimately show ?thesis
    using move_finish [OF _ sb refl] by (auto simp: editorMoveCursor_def)
qed

section \<open>Inserting characters and lines\<close>

lemma same_view_pos:
  "same_view E E' \<Longrightarrow> filerow E' = filerow E \<and> filecol E' = filecol E \<and>
     (screen_pos E' \<longleftrightarrow> screen_pos E)"
  by (simp add: same_view_def pos_defs)

lemma fits_empty_line [simp]: "editorInsertRow at [NUL] 0 E = editorInsertRow at ([] @ [NUL]) (length []) E"
  by simp

definition nth_line :: "string list \<Rightarrow> nat \<Rightarrow> string" where
  "nth_line ls k = (if k < length ls then ls ! k else [])"

definition put_line :: "nat \<Rightarrow> string \<Rightarrow> string list \<Rightarrow> string list" where
  "put_line k t ls = (if k < length ls then ls[k := t] else ls @ replicate (k - length ls) [] @ [t])"

lemma good_row:
  assumes "good E" "filerow E < int (numrows E)"
  shows "nat (filerow E) < numrows E" "row_at (filerow E) E = Inr (Some (nat (filerow E)))"
    "cur_len E = int (length (lines_of E ! nat (filerow E)))"
  using assms good_D [OF assms(1)] by (auto simp: row_at_ok cur_len_def nat_less_iff)

lemma good_no_row:
  assumes "good E" "\<not> filerow E < int (numrows E)"
  shows "nat (filerow E) = numrows E" "filerow E = int (numrows E)"
    "row_at (filerow E) E = Inr None" "filecol E = 0" "cur_len E = 0"
  using assms good_D [OF assms(1)] by (auto simp: row_at_ok cur_len_def)

lemma editorInsertChar_ok:
  assumes g: "good E" and f: "fits (text_insert (nat (filecol E)) c (nth_line (lines_of E) (nat (filerow E))))"
  shows "\<exists>E'. editorInsertChar c E = Inr E' \<and> good E' \<and>
     lines_of E' = put_line (nat (filerow E))
       (text_insert (nat (filecol E)) c (nth_line (lines_of E) (nat (filerow E)))) (lines_of E) \<and>
     filerow E' = filerow E \<and> filecol E' = filecol E + 1 \<and>
     cols E' = cols E \<and> startrow E' = startrow E \<and> endrow E' = endrow E"
proof -
  note D = good_D [OF g]
  let ?k = "nat (filerow E)" and ?c = "nat (filecol E)"
  have n: "numrows E = length (lines_of E)" using D(1) by (simp add: ed_inv_length)
  define L1 where "L1 = (if filerow E < int (numrows E) then lines_of E else lines_of E @ [[]])"
  obtain E1 where E1: "(if (if filerow E < int (numrows E) then Some ?k else None) = None
      then fill_rows (nat (filerow E + 1) + 1) (filerow E) E else Inr E) = Inr E1"
      "ed_inv E1" "same_view E E1" "lines_of E1 = L1"
  proof (cases "filerow E < int (numrows E)")
    case True
    then show thesis using D(1) by (intro that [of E]) (auto simp: L1_def)
  next
    case False
    note N = good_no_row [OF g False]
    obtain E1 where E1: "editorInsertRow (numrows E) ([] @ [NUL]) (length []) E = Inr E1"
      "ed_inv E1" "same_view E E1" "lines_of E1 = lines_of E @ [[]]"
      using kilo_rows.insert_row [OF D(1), of "numrows E" "[]"] n by auto
    moreover have "int (numrows E1) = filerow E + 1"
      using ed_inv_length [OF E1(2)] E1(4) N n by (metis length_append_singleton length_lines of_nat_Suc add.commute)
    ultimately show thesis using False D by (intro that [of E1]) (auto simp: L1_def nat_add_distrib)
  qed
  have k1: "?k < length (erows E1)"
    using E1(4) g D n good_no_row(1) [OF g] by (metis L1_def length_append_singleton length_lines lessI nat_less_iff)
  have l1: "L1 ! ?k = nth_line (lines_of E) ?k"
    using D n good_no_row(1) [OF g] by (auto simp: L1_def nth_line_def nth_append nat_less_iff)
  with kilo_edit.insert_char [OF E1(2), of ?k ?c c] k1 f E1(4) obtain E2 where
    E2: "editorRowInsertChar ?k ?c c E1 = Inr E2" "ed_inv E2" "same_view E1 E2"
      "lines_of E2 = L1[?k := text_insert ?c c (nth_line (lines_of E) ?k)]" by auto
  have v: "same_view E E2" using E1(3) E2(3) by (rule same_view_trans)
  define E' where "E' = bump_dirty (cursor_right E2)"
  have lines: "lines_of E' = lines_of E2"
    by (simp add: E'_def bump_dirty_def cursor_right_def lines_of_def)
  have put: "lines_of E2 = put_line ?k (text_insert ?c c (nth_line (lines_of E) ?k)) (lines_of E)"
    using E2(4) D n good_no_row(1) [OF g]
    by (auto simp: L1_def put_line_def nat_less_iff list_update_append)
  have inv: "ed_inv E'" using E2(2)
    by (simp add: E'_def bump_dirty_def cursor_right_def ed_inv_def rows_inv_def)
  have pos: "filerow E' = filerow E" "filecol E' = filecol E + 1" "screen_pos E'"
    using v D by (auto simp: E'_def bump_dirty_def same_view_def pos_defs)
  have len: "length (lines_of E') = length L1" "?k < length (lines_of E')"
    using lines E2(4) k1 E1(4) by auto
  have "file_pos E'"
  proof -
    have "lines_of E' ! ?k = text_insert ?c c (nth_line (lines_of E) ?k)"
      using len lines E2(4) by simp
    moreover have "int (length (text_insert ?c c (nth_line (lines_of E) ?k))) \<ge> filecol E + 1"
      using D(4) by (auto simp: not_less nat_le_iff)
    moreover have "filerow E' < int (numrows E')"
      using len(2) pos(1) D(2) ed_inv_length [OF inv] by (simp add: nat_less_iff)
    ultimately show ?thesis using pos D by (simp add: file_pos_def cur_len_def)
  qed
  with inv pos have "good E'" by (simp add: good_def)
  moreover have "editorInsertChar c E = Inr E'"
    using D E1(1) E2(1) by (simp add: editorInsertChar_def row_at_ok Let_def E'_def del: fill_rows.simps)
  moreover have "cols E' = cols E" "startrow E' = startrow E" "endrow E' = endrow E"
    using v by (simp_all add: E'_def bump_dirty_def cursor_right_def same_view_def)
  ultimately show ?thesis using lines put pos by auto
qed

text \<open>A newline splits the current line at the cursor; past the last line it adds an empty one.\<close>

definition split_line :: "nat \<Rightarrow> nat \<Rightarrow> string list \<Rightarrow> string list" where
  "split_line k n ls =
     (if k < length ls then take k ls @ take n (ls ! k) # drop n (ls ! k) # drop (Suc k) ls
      else ls @ [[]])"

lemma cursor_newline_facts:
  "same_buffer E (cursor_newline E)" "filerow (cursor_newline E) = filerow E + 1"
  "filecol (cursor_newline E) = 0" "screen_pos E \<Longrightarrow> screen_pos (cursor_newline E)"
  by (auto simp: same_buffer_def pos_defs)

lemma newline_finish:
  assumes "rows_become E ls E1" "good E" "nat (filerow E) < length ls"
  shows "good (cursor_newline E1) \<and> lines_of (cursor_newline E1) = ls \<and>
     filerow (cursor_newline E1) = filerow E + 1 \<and> filecol (cursor_newline E1) = 0 \<and>
     startrow (cursor_newline E1) = startrow E \<and> endrow (cursor_newline E1) = endrow E \<and>
     cols (cursor_newline E1) = cols E"
proof -
  let ?E = "cursor_newline E1"
  note D = good_D [OF assms(2)] and C = cursor_newline_facts [of E1]
  have v: "same_view E E1" and inv: "ed_inv E1" and l: "lines_of E1 = ls"
    using assms(1) by (simp_all add: rows_become_def)
  have fr: "filerow ?E = filerow E + 1" using C(2) v same_view_pos [of E E1] by simp
  have inv': "ed_inv ?E" using inv C(1) by (simp add: same_buffer_inv)
  have l': "lines_of ?E = ls" using l C(1) by (simp add: same_buffer_lines)
  have n: "int (numrows ?E) \<ge> filerow E + 1"
    using ed_inv_length [OF inv'] l' assms(3) D(2) by (metis length_lines nat_less_iff zless_imp_add1_zle)
  have "screen_pos ?E" using C(4) v D(6) same_view_pos [of E E1] by simp
  moreover have "file_pos ?E" using fr C(3) n D(2) by (simp add: file_pos_def)
  moreover have "startrow ?E = startrow E" "endrow ?E = endrow E" "cols ?E = cols E"
    using C(1) v by (simp_all add: same_buffer_def same_view_def)
  ultimately show ?thesis using inv' l' fr C(3) by (simp add: good_def)
qed

lemma truncate_row_ok:
  assumes "ed_inv E" "k < length (erows E)" "n \<le> length (lines_of E ! k)" "fits (lines_of E ! k)"
  shows "\<exists>E'. truncate_row k n E = Inr E' \<and>
     rows_become E ((lines_of E)[k := take n (lines_of E ! k)]) E'"
proof -
  let ?r = "erows E ! k"
  note row = ed_inv_row [OF assms(1,2)]
  define r' where "r' = ?r\<lparr>r_chars := (r_chars ?r)[n := NUL], r_size := n\<rparr>"
  have t: "lines_of E ! k = row_text ?r" "n \<le> r_size ?r" using assms(2,3) row(4) by simp_all
  have tx: "row_text r' = take n (row_text ?r)"
    using t row(2) by (simp add: r'_def row_text_def min_def)
  have "row_shape k r'" using row t by (simp add: r'_def row_shape_def)
  moreover have "count_list (take n (row_text ?r)) TAB \<le> count_list (row_text ?r) TAB"
    by (metis append_take_drop_id count_list_append le_add1)
  then have "fits (row_text r')" using assms(4) t unfolding tx by (auto intro: fits_le)
  ultimately obtain E' where E': "editorUpdateRow k (set_row E k r') = Inr E'"
    "rows_become E ((lines_of E)[k := row_text r']) E'"
    using edit_row [OF assms(1,2)] by blast
  have "truncate_row k n E = Inr E'"
    using E'(1) assms(2) t row(2) by (simp add: truncate_row_def r'_def)
  with E'(2) t show ?thesis by (auto simp: tx)
qed

lemma fits_take_drop: "fits t \<Longrightarrow> fits (take n t)" "fits t \<Longrightarrow> fits (drop n t)"
  by (rule fits_le, assumption, simp, metis append_take_drop_id count_list_append le_add1)
     (rule fits_le, assumption, simp, metis append_take_drop_id count_list_append le_add2)

lemma editorInsertNewline_ok:
  assumes g: "good E" and f: "list_all fits (lines_of E)"
  shows "\<exists>E'. editorInsertNewline E = Inr E' \<and> good E' \<and>
     lines_of E' = split_line (nat (filerow E)) (nat (filecol E)) (lines_of E) \<and>
     filerow E' = filerow E + 1 \<and> filecol E' = 0 \<and>
     startrow E' = startrow E \<and> endrow E' = endrow E \<and> cols E' = cols E"
proof -
  note D = good_D [OF g]
  let ?k = "nat (filerow E)" and ?c = "nat (filecol E)"
  have n: "numrows E = length (lines_of E)" using D(1) by (simp add: ed_inv_length)
  show ?thesis
  proof (cases "filerow E < int (numrows E)")
    case False
    note N = good_no_row [OF g False]
    obtain E1 where E1: "editorInsertRow (numrows E) ([] @ [NUL]) (length []) E = Inr E1"
      "rows_become E (lines_of E @ [[]]) E1"
      using editorInsertRow_ok [OF D(1), of "numrows E" "[]" "[]"] n by auto
    have "editorInsertNewline E = Inr (cursor_newline E1)"
      using E1(1) N D by (simp add: editorInsertNewline_def)
    moreover have "split_line ?k ?c (lines_of E) = lines_of E @ [[]]"
      using N n by (simp add: split_line_def)
    ultimately show ?thesis using newline_finish [OF E1(2) g] N n by auto
  next
    case True
    note R = good_row [OF g True]
    let ?t = "lines_of E ! ?k" and ?r = "erows E ! ?k"
    have k: "?k < length (erows E)" using R(1) n by simp
    note row = ed_inv_row [OF D(1) k]
    have t: "?t = row_text ?r" "length ?t = r_size ?r" using k row(4) by simp_all
    have fc: "filecol E \<le> int (r_size ?r)" using D(5) R(3) t(2) by simp
    have ft: "fits ?t" using f k by (simp add: list_all_length)
    show ?thesis
    proof (cases "filecol E = 0")
      case True
      obtain E1 where E1: "editorInsertRow ?k ([] @ [NUL]) (length []) E = Inr E1"
        "rows_become E (take ?k (lines_of E) @ [] # drop ?k (lines_of E)) E1"
        using editorInsertRow_ok [OF D(1), of ?k "[]" "[]"] R(1) by auto
      have "editorInsertNewline E = Inr (cursor_newline E1)"
        using E1(1) R True fc k by (simp add: editorInsertNewline_def Let_def)
      moreover have "split_line ?k ?c (lines_of E) = take ?k (lines_of E) @ [] # drop ?k (lines_of E)"
        using True k by (simp add: split_line_def take_nth_drop [of ?k "lines_of E"])
      ultimately show ?thesis using newline_finish [OF E1(2) g] k by auto
    next
      case False
      have c: "?c \<le> length ?t" "?c \<le> r_size ?r" using fc t(2) D(4) by simp_all
      have buf: "r_chars ?r = ?t @ NUL # drop (Suc (r_size ?r)) (r_chars ?r)"
        using row_buffer [OF row(2,3)] t(1) by simp
      have tail: "drop ?c (r_chars ?r) = drop ?c ?t @ NUL # drop (Suc (r_size ?r)) (r_chars ?r)"
        using c by (subst buf) simp
      have len: "length (drop ?c ?t) = r_size ?r - ?c" using t(2) by simp
      obtain E1 where E1: "editorInsertRow (?k + 1) (drop ?c (r_chars ?r)) (r_size ?r - ?c) E = Inr E1"
        "rows_become E (take (?k + 1) (lines_of E) @ drop ?c ?t # drop (?k + 1) (lines_of E)) E1"
        using editorInsertRow_ok [OF D(1), of "?k + 1" "drop ?c ?t" "drop (Suc (r_size ?r)) (r_chars ?r)"]
          R(1) fits_take_drop [OF ft] unfolding tail [symmetric] len by auto
      have k1: "?k < length (erows E1)" and l1: "lines_of E1 ! ?k = ?t"
        using rows_become_lines [OF E1(2)] k
        by (metis length_append length_lines length_take min_absorb2 Suc_eq_plus1 Suc_leI less_Suc_eq trans_less_add1)
           (use rows_become_lines [OF E1(2)] k in \<open>simp add: nth_append\<close>)
      obtain E2 where E2: "truncate_row ?k ?c E1 = Inr E2"
        "rows_become E1 ((lines_of E1)[?k := take ?c ?t]) E2"
        using truncate_row_ok [OF rows_become_inv [OF E1(2)] k1] c l1 ft by auto
      have eq: "(lines_of E1)[?k := take ?c ?t] = split_line ?k ?c (lines_of E)"
        using rows_become_lines [OF E1(2)] k
        by (simp add: split_line_def list_update_append take_Suc_conv_app_nth)
      have rb: "rows_become E (split_line ?k ?c (lines_of E)) E2"
        using rows_become_trans [OF E1(2) E2(2)] eq by simp
      have "editorInsertNewline E = Inr (cursor_newline E2)"
        using E1(1) E2(1) R False fc k D by (auto simp: editorInsertNewline_def Let_def)
      then show ?thesis using newline_finish [OF rb g] k by (auto simp: split_line_def)
    qed
  qed
qed

section \<open>Backspace\<close>

definition join_lines :: "nat \<Rightarrow> string list \<Rightarrow> string list" where
  "join_lines k ls = take (k - 1) ls @ (ls ! (k - 1) @ ls ! k) # drop (Suc k) ls"

definition del_back :: "nat \<Rightarrow> nat \<Rightarrow> string list \<Rightarrow> string list" where
  "del_back k n ls =
     (if k \<ge> length ls \<or> (k = 0 \<and> n = 0) then ls
      else if n = 0 then join_lines k ls
      else ls[k := text_delete (n - 1) (ls ! k)])"

text \<open>
  Joining with a line longer than the viewport: \<open>shift\<close> is then at most 0 and the cursor
  is moved the wrong way.
\<close>

definition join_overflows :: "editorConfig \<Rightarrow> bool" where
  "join_overflows E \<longleftrightarrow> filecol E = 0 \<and> 0 < filerow E \<and> filerow E < int (numrows E) \<and>
     int (length (lines_of E ! nat (filerow E - 1))) > cols E"

definition keeps_window :: "editorConfig \<Rightarrow> editorConfig \<Rightarrow> bool" where
  "keeps_window E E' \<longleftrightarrow> cols E' = cols E \<and> startrow E' = startrow E \<and> endrow E' = endrow E"

lemma keeps_window_trans: "keeps_window E E' \<Longrightarrow> keeps_window E' E'' \<Longrightarrow> keeps_window E E''"
  by (simp add: keeps_window_def)

lemma same_view_window: "same_view E E' \<Longrightarrow> keeps_window E E'"
  by (simp add: same_view_def keeps_window_def)

lemma same_buffer_window: "same_buffer E E' \<Longrightarrow> keeps_window E E'"
  by (simp add: same_buffer_def keeps_window_def)

lemma bump_dirty_simps [simp]:
  "lines_of (bump_dirty E) = lines_of E" "ed_inv (bump_dirty E) = ed_inv E"
  "numrows (bump_dirty E) = numrows E" "filerow (bump_dirty E) = filerow E"
  "filecol (bump_dirty E) = filecol E" "screen_pos (bump_dirty E) = screen_pos E"
  "cols (bump_dirty E) = cols E" "startrow (bump_dirty E) = startrow E"
  "endrow (bump_dirty E) = endrow E" "keeps_window E1 (bump_dirty E) = keeps_window E1 E"
  by (simp_all add: bump_dirty_def lines_of_def ed_inv_def rows_inv_def filerow_def filecol_def
      screen_pos_def keeps_window_def)

lemma editorUpdateRow_refresh:
  assumes "ed_inv E" "k < length (erows E)" "fits (lines_of E ! k)"
  shows "\<exists>E'. editorUpdateRow k E = Inr E' \<and> rows_become E (lines_of E) E'"
proof -
  have "set_row E k (erows E ! k) = E" by (simp add: set_row_def)
  moreover have "(lines_of E)[k := row_text (erows E ! k)] = lines_of E"
    using assms(2) by (metis list_update_id nth_lines)
  moreover have "fits (row_text (erows E ! k))" using assms(2,3) by simp
  ultimately show ?thesis
    using edit_row [OF assms(1,2) rows_inv_row(1) [OF ed_inv_rows_inv [OF assms(1), of "{}"] assms(2)]]
    by metis
qed

lemma del_in_line:
  assumes g: "good E" and R: "filerow E < int (numrows E)" and c: "filecol E > 0"
    and f: "fits (lines_of E ! nat (filerow E))"
  shows "\<exists>E'. editorDelChar E = Inr E' \<and> good E' \<and> keeps_window E E' \<and>
     lines_of E' = (lines_of E)[nat (filerow E) := text_delete (nat (filecol E - 1)) (lines_of E ! nat (filerow E))] \<and>
     filerow E' = filerow E \<and> filecol E' = filecol E - 1"
proof -
  note D = good_D [OF g] and K = good_row [OF g R]
  let ?k = "nat (filerow E)" and ?t = "lines_of E ! nat (filerow E)"
  have n: "numrows E = length (lines_of E)" using D(1) by (simp add: ed_inv_length)
  have at: "nat (filecol E - 1) < length ?t" using D(5) K(3) c by (simp add: nat_less_iff)
  have k: "?k < length (erows E)" using K(1) n by simp
  obtain E1 where E1: "editorRowDelChar ?k (nat (filecol E - 1)) E = Inr E1" "ed_inv E1"
    "same_view E E1" "lines_of E1 = (lines_of E)[?k := text_delete (nat (filecol E - 1)) ?t]"
    using kilo_edit.delete_char [OF D(1), of ?k "nat (filecol E - 1)"] k f at by auto
  define E2 where "E2 = (if cx E1 = 0 \<and> coloff E1 \<noteq> 0 then E1\<lparr>coloff := coloff E1 - 1\<rparr>
      else E1\<lparr>cx := cx E1 - 1\<rparr>)"
  have sb: "same_buffer E1 E2" by (simp add: E2_def same_buffer_def)
  have inv2: "ed_inv E2" and l2: "lines_of E2 = lines_of E1"
    using sb E1(2) by (simp_all add: same_buffer_inv same_buffer_lines)
  have k2: "?k < length (erows E2)" using E1(4) l2 k by (metis length_lines length_list_update)
  have "fits (lines_of E2 ! ?k)"
    using fits_text_delete [OF f at] k l2 E1(4) by simp
  then obtain E3 where E3: "editorUpdateRow ?k E2 = Inr E3" "rows_become E2 (lines_of E2) E3"
    using editorUpdateRow_refresh [OF inv2 k2] by blast
  have v: "same_view E2 E3" and inv3: "ed_inv E3" and l3: "lines_of E3 = lines_of E1"
    using E3(2) l2 by (simp_all add: rows_become_def)
  define E' where "E' = bump_dirty E3"
  have E': "same_view E2 E'" "ed_inv E'" "lines_of E' = lines_of E1" "numrows E' = numrows E3"
    using v inv3 l3 by (simp_all add: E'_def bump_dirty_def same_view_def ed_inv_def rows_inv_def lines_of_def)
  have eq: "editorDelChar E = Inr E'"
    using K(2) c E1(1) E3(1) by (simp add: editorDelChar_def Let_def E2_def E'_def)
  have pos: "filerow E' = filerow E" "filecol E' = filecol E - 1" "screen_pos E'"
    using E'(1) E1(3) D c by (auto simp: E2_def same_view_def pos_defs)
  have "int (length (lines_of E' ! ?k)) = int (length ?t) - 1"
    using k at E'(3) E1(4) by simp
  moreover have "numrows E' = numrows E"
    using E'(2,3) E1(4) n by (simp add: ed_inv_length) (metis length_lines length_list_update)
  ultimately have "file_pos E'"
    using pos D R K(3) c by (simp add: file_pos_def cur_len_def)
  moreover have "keeps_window E E'"
    using same_view_window [OF E1(3)] same_buffer_window [OF sb] same_view_window [OF E'(1)]
    by (blast intro: keeps_window_trans)
  ultimately show ?thesis using eq E' E1(4) pos by (auto simp: good_def)
qed

lemma cursor_joined_facts:
  assumes "screen_pos E" "filecol E = 0" "0 < filerow E" "0 \<le> m"
  shows "filerow (cursor_joined m E) = filerow E - 1" "filecol (cursor_joined m E) = m"
    "m \<le> cols E \<Longrightarrow> screen_pos (cursor_joined m E)" "same_buffer E (cursor_joined m E)"
  using assms by (auto simp: cursor_joined_def Let_def pos_defs same_buffer_def)

lemma del_join:
  assumes g: "good E" and R: "filerow E < int (numrows E)" and c: "filecol E = 0"
    and p: "0 < filerow E" and f: "fits (lines_of E ! (nat (filerow E) - 1) @ lines_of E ! nat (filerow E))"
  shows "\<exists>E'. editorDelChar E = Inr E' \<and> ed_inv E' \<and> file_pos E' \<and> keeps_window E E' \<and>
     (\<not> join_overflows E \<longrightarrow> good E') \<and>
     lines_of E' = join_lines (nat (filerow E)) (lines_of E) \<and> filerow E' = filerow E - 1 \<and>
     filecol E' = int (length (lines_of E ! (nat (filerow E) - 1)))"
proof -
  note D = good_D [OF g] and K = good_row [OF g R]
  let ?k = "nat (filerow E)" and ?L = "lines_of E"
  have n: "numrows E = length ?L" using D(1) by (simp add: ed_inv_length)
  have k: "?k < length (erows E)" "?k - 1 < length (erows E)" "0 < ?k" using K(1) n p by simp_all
  have km: "nat (filerow E - 1) = ?k - 1" using p by (simp add: nat_diff_distrib)
  note row = ed_inv_row [OF D(1) k(1)]
  have tk: "take (r_size (erows E ! ?k)) (r_chars (erows E ! ?k)) = ?L ! ?k"
    using k(1) by (simp add: row_text_def)
  let ?L1 = "?L[?k - 1 := ?L ! (?k - 1) @ ?L ! ?k]"
  obtain E1 where E1: "editorRowAppendString (?k - 1) (r_chars (erows E ! ?k)) (r_size (erows E ! ?k)) E = Inr E1"
    "rows_become E ?L1 E1"
    using editorRowAppendString_ok [OF D(1) k(2), of "r_size (erows E ! ?k)" "r_chars (erows E ! ?k)"]
      row(2) f unfolding tk by auto
  have n1: "?k < length (lines_of E1)" using rows_become_lines [OF E1(2)] k(1) by simp
  obtain E2 where E2: "editorDelRow ?k E1 = Inr E2"
    "rows_become E1 (take ?k ?L1 @ drop (Suc ?k) ?L1) E2"
  proof -
    have "?k < numrows E1" using n1 ed_inv_length [OF rows_become_inv [OF E1(2)]] by simp
    from editorDelRow_ok [OF rows_become_inv [OF E1(2)] this] that show thesis
      unfolding rows_become_lines [OF E1(2)] by blast
  qed
  have "take ?k ?L1 @ drop (Suc ?k) ?L1 = join_lines ?k ?L"
    using k by (cases ?k) (auto simp: join_lines_def take_Suc_conv_app_nth list_update_append)
  then have rb: "rows_become E (join_lines ?k ?L) E2"
    using rows_become_trans [OF E1(2) E2(2)] by simp
  let ?m = "int (length (?L ! (?k - 1)))"
  have v: "same_view E E2" and inv2: "ed_inv E2" and l2: "lines_of E2 = join_lines ?k ?L"
    using rb by (simp_all add: rows_become_def)
  have pos2: "screen_pos E2" "filecol E2 = 0" "0 < filerow E2" "filerow E2 = filerow E" "cols E2 = cols E"
    using same_view_pos [OF v] D c p v by (simp_all add: same_view_def)
  note J = cursor_joined_facts [OF pos2(1-3), of ?m]
  define E' where "E' = bump_dirty (cursor_joined ?m E2)"
  have sb: "lines_of E' = lines_of E2" "ed_inv E'" "numrows E' = numrows E2"
    "filerow E' = filerow E - 1" "filecol E' = ?m" "keeps_window E2 E'"
    "?m \<le> cols E \<Longrightarrow> screen_pos E'"
    using J pos2(4,5) inv2 same_buffer_window [OF J(4)] same_buffer_lines [OF J(4)]
      same_buffer_inv [OF J(4)]
    by (simp_all add: E'_def) (simp add: same_buffer_def)
  have len: "?k - 1 < length (join_lines ?k ?L)" "join_lines ?k ?L ! (?k - 1) = ?L ! (?k - 1) @ ?L ! ?k"
    using k by (auto simp: join_lines_def nth_append)
  have "file_pos E'"
  proof -
    have "filerow E' < int (numrows E')"
      using len(1) l2 sb p ed_inv_length [OF sb(2)] by (simp del: length_lines) (simp add: length_lines [symmetric] del: length_lines)
    moreover have "nat (filerow E') = ?k - 1" using sb(4) km by simp
    ultimately show ?thesis using sb len l2 p by (simp add: file_pos_def cur_len_def)
  qed
  moreover have "editorDelChar E = Inr E'"
    using K(2) c p E1(1) E2(1) km k(2) row_size_ok [OF D(1), of "?k - 1"] n
    by (simp add: editorDelChar_def Let_def E'_def k(1))
  moreover have "\<not> join_overflows E \<longrightarrow> ?m \<le> cols E"
    using c p R km by (simp add: join_overflows_def)
  ultimately show ?thesis
    using sb l2 keeps_window_trans [OF same_view_window [OF v] sb(6)] by (auto simp: good_def)
qed

section \<open>Commands that loop to an end of the line\<close>

lemma at_start_iff: "good E \<Longrightarrow> editorAtStartOfLine E \<longleftrightarrow> filecol E = 0"
  using good_D(8,9) [of E] by (auto simp: editorAtStartOfLine_def filecol_def)

lemma not_escaping: "filecol E > 0 \<Longrightarrow> \<not> left_escapes E"
  by (auto simp: left_escapes_def filecol_def)

lemma until_start_left:
  assumes "good E" "nat (filecol E) < n"
  shows "\<exists>E'. until_start n (editorMoveCursor LEFT) E = Inr E' \<and> good E' \<and> same_buffer E E' \<and>
     filerow E' = filerow E \<and> filecol E' = 0"
  using assms
proof (induction n arbitrary: E)
  case 0
  then show ?case by simp
next
  case (Suc n)
  note D = good_D [OF Suc.prems(1)]
  show ?case
  proof (cases "filecol E = 0")
    case True
    with Suc.prems show ?thesis by (auto simp: at_start_iff)
  next
    case False
    with D have pos: "filecol E > 0" by simp
    from move_left_good [OF Suc.prems(1) not_escaping [OF pos]] pos obtain E1 where E1:
      "editorMoveCursor LEFT E = Inr E1" "good E1" "same_buffer E E1" "filerow E1 = filerow E"
      "filecol E1 = filecol E - 1" by auto
    have "nat (filecol E1) < n" using E1(5) Suc.prems(2) pos by simp
    with Suc.IH [OF E1(2)] E1 Suc.prems(1) False show ?thesis
      by (auto simp: at_start_iff intro: same_buffer_trans)
  qed
qed

lemma until_start_del:
  assumes "good E" "filerow E < int (numrows E)" "fits (lines_of E ! nat (filerow E))"
    "nat (filecol E) < n"
  shows "\<exists>E'. until_start n editorDelChar E = Inr E' \<and> good E' \<and> keeps_window E E' \<and>
     lines_of E' = (lines_of E)[nat (filerow E) := drop (nat (filecol E)) (lines_of E ! nat (filerow E))] \<and>
     filerow E' = filerow E \<and> filecol E' = 0"
  using assms
proof (induction n arbitrary: E)
  case 0
  then show ?case by simp
next
  case (Suc n)
  note D = good_D [OF Suc.prems(1)] and K = good_row [OF Suc.prems(1,2)]
  let ?k = "nat (filerow E)" and ?t = "lines_of E ! nat (filerow E)"
  have n: "numrows E = length (lines_of E)" using D(1) by (simp add: ed_inv_length)
  show ?case
  proof (cases "filecol E = 0")
    case True
    moreover have "(lines_of E)[?k := ?t] = lines_of E" by (rule list_update_id)
    ultimately show ?thesis using Suc.prems by (auto simp: at_start_iff keeps_window_def)
  next
    case False
    with D have pos: "filecol E > 0" by simp
    let ?j = "nat (filecol E - 1)"
    from del_in_line [OF Suc.prems(1,2) pos Suc.prems(3)] obtain E1 where E1:
      "editorDelChar E = Inr E1" "good E1" "keeps_window E E1"
      "lines_of E1 = (lines_of E)[?k := text_delete ?j ?t]" "filerow E1 = filerow E"
      "filecol E1 = filecol E - 1" by blast
    have j: "nat (filecol E) = Suc ?j" using pos by simp
    have jl: "?j < length ?t" using D(5) K(3) pos by simp
    have l1: "lines_of E1 ! nat (filerow E1) = text_delete ?j ?t" using E1(4,5) K(1) n by simp
    have n1: "numrows E1 = numrows E"
      using ed_inv_length [OF good_D(1) [OF E1(2)]] E1(4) n by (metis length_lines length_list_update)
    have "nat (filecol E - 1) < n" using Suc.prems(4) pos by linarith
    moreover have "fits (text_delete ?j ?t)" using Suc.prems(3) jl by (rule fits_text_delete)
    ultimately have "nat (filecol E - 1) < n \<and> fits (text_delete ?j ?t)" ..
    with Suc.IH [OF E1(2)] E1 n1 Suc.prems(2,4) l1 pos obtain E2 where E2:
      "until_start n editorDelChar E1 = Inr E2" "good E2" "keeps_window E1 E2"
      "lines_of E2 = (lines_of E1)[?k := drop (nat (filecol E1)) (text_delete ?j ?t)]"
      "filerow E2 = filerow E" "filecol E2 = 0" by auto
    have "drop (nat (filecol E1)) (text_delete ?j ?t) = drop (nat (filecol E)) ?t"
      using jl E1(6) j by (simp add: text_delete_def)
    with E2 E1 False Suc.prems(1) show ?thesis
      by (auto simp: at_start_iff intro: keeps_window_trans)
  qed
qed

lemma wrap_not_escaping:
  assumes "good E" "2 \<le> endrow E - startrow E" "editorMoveCursor RIGHT E = Inr E'"
    "filerow E' = filerow E + 1"
  shows "\<not> left_escapes E'"
proof -
  note D = good_D [OF assms(1)]
  have lt: "filerow E < int (numrows E)"
    using move_right_good [OF assms(1)] assms(3,4) D(3) by (auto split: if_splits)
  note K = good_row [OF assms(1) lt]
  obtain n where n: "row_size (nat (filerow E)) E = Inr n" "int n = cur_len E"
    using row_size_ok [OF D(1) K(1)] K(3) by simp
  have "move_right E = Inr (if filecol E < int n then cursor_right E
      else cursor_down (E\<lparr>cx := 0, coloff := 0\<rparr>))"
    using n D(5) K(2) by (simp add: move_right_def)
  then obtain E1 where E1: "move_right E = Inr E1"
    "E1 = (if filecol E < int n then cursor_right E else cursor_down (E\<lparr>cx := 0, coloff := 0\<rparr>))"
    by simp
  have fx: "fix_column E1 = Inr E'" using assms(3) E1(1) by (simp add: editorMoveCursor_def)
  then have "cy E' = cy E1" "rowoff E' = rowoff E1"
    by (auto simp: fix_column_def res_simps Let_def split: if_splits)
  moreover have "E1 = cursor_down (E\<lparr>cx := 0, coloff := 0\<rparr>)"
    using E1(2) assms(4) calculation by (auto simp: pos_defs split: if_splits)
  ultimately show ?thesis using D assms(2) by (auto simp: left_escapes_def cursor_down_def)
qed

definition tall :: "editorConfig \<Rightarrow> bool" where
  "tall E \<longleftrightarrow> 2 \<le> endrow E - startrow E"

lemma keeps_window_tall: "keeps_window E E' \<Longrightarrow> tall E' = tall E"
  by (simp add: tall_def keeps_window_def)

lemma wrap_back:
  assumes "good E" "tall E" "filerow E < int (numrows E)" "filecol E = cur_len E"
  shows "\<exists>E1 E'. editorMoveCursor RIGHT E = Inr E1 \<and> editorAtStartOfLine E1 \<and>
     editorMoveCursor LEFT E1 = Inr E' \<and> good E' \<and> same_buffer E E' \<and>
     filerow E' = filerow E \<and> filecol E' = cur_len E"
proof -
  from move_right_good [OF assms(1)] assms(3,4) obtain E1 where E1:
    "editorMoveCursor RIGHT E = Inr E1" "good E1" "same_buffer E E1"
    "filerow E1 = filerow E + 1" "filecol E1 = 0" by auto
  have "\<not> left_escapes E1"
    using wrap_not_escaping [OF assms(1) _ E1(1,4)] assms(2) by (simp add: tall_def)
  from move_left_good [OF E1(2) this] E1(4,5) good_D(2) [OF assms(1)] obtain E' where E':
    "editorMoveCursor LEFT E1 = Inr E'" "good E'" "same_buffer E1 E'" "filerow E' = filerow E"
    "filecol E' = cur_len E'" by auto
  have sb: "same_buffer E E'" using E1(3) E'(3) by (rule same_buffer_trans)
  with cur_len_buffer [OF sb E'(4)] E1 E' show ?thesis
    by (auto simp: at_start_iff)
qed

lemma right_until_wrap_end:
  assumes "good E" "tall E" "filerow E < int (numrows E)" "nat (cur_len E - filecol E) < n"
  shows "\<exists>E'. right_until_wrap n Inr E = Inr E' \<and> good E' \<and> same_buffer E E' \<and>
     filerow E' = filerow E \<and> filecol E' = cur_len E"
  using assms
proof (induction n arbitrary: E)
  case 0
  then show ?case by simp
next
  case (Suc n)
  note D = good_D [OF Suc.prems(1)]
  show ?case
  proof (cases "filecol E = cur_len E")
    case True
    with wrap_back [OF Suc.prems(1,2,3)] show ?thesis by auto
  next
    case False
    with D have lt: "filecol E < cur_len E" by simp
    from move_right_good [OF Suc.prems(1)] Suc.prems(3) lt obtain E1 where E1:
      "editorMoveCursor RIGHT E = Inr E1" "good E1" "same_buffer E E1" "filerow E1 = filerow E"
      "filecol E1 = filecol E + 1" by auto
    have len: "cur_len E1 = cur_len E" by (rule cur_len_buffer [OF E1(3,4)])
    have "tall E1" "filerow E1 < int (numrows E1)" "nat (cur_len E1 - filecol E1) < n"
      using E1 len Suc.prems lt by (auto simp: tall_def same_buffer_def)
    from Suc.IH [OF E1(2) this] E1 len D(4) show ?thesis
      by (auto simp: at_start_iff intro: same_buffer_trans)
  qed
qed

lemma right_until_wrap_kill:
  assumes "good E" "tall E" "filerow E < int (numrows E)" "fits (lines_of E ! nat (filerow E))"
    "nat (cur_len E - filecol E) < n"
  shows "\<exists>E'. right_until_wrap n editorDelChar E = Inr E' \<and> good E' \<and> keeps_window E E' \<and>
     lines_of E' = (lines_of E)[nat (filerow E) := take (nat (filecol E)) (lines_of E ! nat (filerow E))] \<and>
     filerow E' = filerow E \<and> filecol E' = filecol E"
  using assms
proof (induction n arbitrary: E)
  case 0
  then show ?case by simp
next
  case (Suc n)
  note D = good_D [OF Suc.prems(1)] and K = good_row [OF Suc.prems(1,3)]
  let ?k = "nat (filerow E)" and ?t = "lines_of E ! nat (filerow E)" and ?c = "nat (filecol E)"
  have n: "numrows E = length (lines_of E)" using D(1) by (simp add: ed_inv_length)
  show ?case
  proof (cases "filecol E = cur_len E")
    case True
    then have "(lines_of E)[?k := take ?c ?t] = lines_of E" using K(3) by simp
    with True wrap_back [OF Suc.prems(1,2,3) True] show ?thesis
      by (auto simp: same_buffer_lines dest: same_buffer_window)
  next
    case False
    with D have lt: "filecol E < cur_len E" by simp
    from move_right_good [OF Suc.prems(1)] Suc.prems(3) lt obtain E1 where E1:
      "editorMoveCursor RIGHT E = Inr E1" "good E1" "same_buffer E E1" "filerow E1 = filerow E"
      "filecol E1 = filecol E + 1" by auto
    have l1: "lines_of E1 = lines_of E" "numrows E1 = numrows E"
      using same_buffer_lines [OF E1(3)] E1(3) by (simp_all add: same_buffer_def)
    have "filerow E1 < int (numrows E1)" "filecol E1 > 0" "fits (lines_of E1 ! nat (filerow E1))"
      using E1(4,5) l1 Suc.prems(3,4) D(4) by simp_all
    from del_in_line [OF E1(2) this] obtain E2 where E2: "editorDelChar E1 = Inr E2" "good E2"
      "keeps_window E1 E2" "lines_of E2 = (lines_of E)[?k := text_delete ?c ?t]"
      "filerow E2 = filerow E" "filecol E2 = filecol E"
      using E1(4,5) l1 by auto
    have jl: "?c < length ?t" using lt K(3) D(4) by simp
    have l2: "lines_of E2 ! ?k = text_delete ?c ?t" using E2(4) K(1) n by simp
    have n2: "numrows E2 = numrows E"
      using ed_inv_length [OF good_D(1) [OF E2(2)]] E2(4) n by (metis length_lines length_list_update)
    have "cur_len E2 = cur_len E - 1"
      using E2(5) n2 Suc.prems(3) l2 jl K(3) by (simp add: cur_len_def)
    moreover have "fits (text_delete ?c ?t)" using Suc.prems(4) jl by (rule fits_text_delete)
    moreover have "nat (cur_len E - 1 - filecol E) < n" using Suc.prems(5) lt by linarith
    moreover have kw: "keeps_window E E2"
      using same_buffer_window [OF E1(3)] E2(3) by (rule keeps_window_trans)
    ultimately obtain E3 where E3: "right_until_wrap n editorDelChar E2 = Inr E3" "good E3"
      "keeps_window E2 E3" "lines_of E3 = (lines_of E2)[?k := take ?c (text_delete ?c ?t)]"
      "filerow E3 = filerow E" "filecol E3 = filecol E"
      using Suc.IH [OF E2(2)] E2(5,6) n2 l2 lt Suc.prems(2,3,5) keeps_window_tall [OF kw] by auto
    have "take ?c (text_delete ?c ?t) = take ?c ?t" using jl by (simp add: text_delete_def)
    with E3 E2 E1 kw D(4) show ?thesis
      by (auto simp: at_start_iff intro: keeps_window_trans)
  qed
qed

lemma line_fuel_ok: "good E \<Longrightarrow> line_fuel E = nat (filecol E) + nat (cur_len E) + 2"
  by (simp add: line_fuel_def row_length_ok good_D)

end
