(* ===== verification/EditorKeys.thy ===== *)
theory EditorKeys
  imports Editor
begin

text \<open>
  What each key of \<^verbatim>\<open>src/src/kilo.c\<close> does to the text, when it is safe, and
  what holds of every state a session of keys reaches.
\<close>

section \<open>Room for growth\<close>

definition roomy :: "editorConfig \<Rightarrow> bool" where
  "roomy E \<longleftrightarrow> list_all (\<lambda>t. 9 * length t + 100 < 2 ^ 31) (lines_of E)"

lemma short_fits: "9 * length t + 1 < 2 ^ 32 \<Longrightarrow> fits t"
  using count_le_length [of t TAB] by (simp add: fits_def)

lemma roomy_line: "roomy E \<Longrightarrow> k < length (erows E) \<Longrightarrow> 9 * length (lines_of E ! k) + 100 < 2 ^ 31"
  by (metis roomy_def list_all_length length_lines)

lemma two_runs: "b \<le> t \<Longrightarrow> a \<le> t \<Longrightarrow> 9 * t + 100 < 2 ^ 31 \<Longrightarrow> 9 * (a + b) + 1 < (2::nat) ^ 32"
  by simp

lemma roomy_fits: "roomy E \<Longrightarrow> k < length (erows E) \<Longrightarrow> fits (lines_of E ! k)"
  using roomy_line [of E k] by (intro short_fits) simp

lemma roomy_all_fits: "roomy E \<Longrightarrow> list_all fits (lines_of E)"
  by (auto simp: roomy_def list_all_iff intro!: short_fits)

lemma roomy_insert:
  assumes "roomy E" "good E"
  shows "fits (text_insert (nat (filecol E)) c (nth_line (lines_of E) (nat (filerow E))))"
proof (rule short_fits)
  note D = good_D [OF assms(2)]
  have n: "numrows E = length (erows E)" using D(1) by (rule ed_inv_length)
  show "9 * length (text_insert (nat (filecol E)) c (nth_line (lines_of E) (nat (filerow E)))) + 1 < 2 ^ 32"
  proof (cases "filerow E < int (numrows E)")
    case True
    then have k: "nat (filerow E) < length (erows E)" using n D(2) by (simp add: nat_less_iff)
    have "nat (filecol E) \<le> length (lines_of E ! nat (filerow E))"
      using D(5) good_row(3) [OF assms(2) True] by (simp add: nat_le_iff)
    with k roomy_line [OF assms(1) k] show ?thesis by (simp add: nth_line_def)
  next
    case False
    with good_no_row [OF assms(2) False] n show ?thesis by (simp add: nth_line_def)
  qed
qed

section \<open>Typing a run of characters\<close>

text \<open>
  A run typed into a line that exists ends up at the cursor, in order; the cursor ends up
  after it.
\<close>

lemma type_run:
  assumes "good E" "filerow E < int (numrows E)"
    "9 * (length (lines_of E ! nat (filerow E)) + length cs) + 1 < 2 ^ 32"
  shows "\<exists>E'. foldMR editorInsertChar cs E = Inr E' \<and> good E' \<and> keeps_window E E' \<and>
     lines_of E' = (lines_of E)[nat (filerow E) :=
        take (nat (filecol E)) (lines_of E ! nat (filerow E)) @ cs @
        drop (nat (filecol E)) (lines_of E ! nat (filerow E))] \<and>
     filerow E' = filerow E \<and> filecol E' = filecol E + int (length cs)"
  using assms
proof (induction cs arbitrary: E)
  case Nil
  then show ?case by (simp add: keeps_window_def)
next
  case (Cons c cs)
  note D = good_D [OF Cons.prems(1)] and K = good_row [OF Cons.prems(1,2)]
  let ?k = "nat (filerow E)" and ?c = "nat (filecol E)"
  let ?t = "lines_of E ! ?k" and ?u = "text_insert ?c c (lines_of E ! ?k)"
  have n: "numrows E = length (erows E)" using D(1) by (rule ed_inv_length)
  have k: "?k < length (erows E)" using K(1) n by simp
  have c: "?c \<le> length ?t" using D(5) K(3) by (simp add: nat_le_iff)
  have nl: "nth_line (lines_of E) ?k = ?t" using k by (simp add: nth_line_def)
  have "fits ?u" using Cons.prems(3) c by (intro short_fits) simp
  with editorInsertChar_ok [OF Cons.prems(1), of c] nl obtain E1 where E1:
    "editorInsertChar c E = Inr E1" "good E1" "lines_of E1 = (lines_of E)[?k := ?u]"
    "filerow E1 = filerow E" "filecol E1 = filecol E + 1" "keeps_window E E1"
    using k by (auto simp: put_line_def keeps_window_def)
  have n1: "numrows E1 = numrows E"
    using ed_inv_length [OF good_D(1) [OF E1(2)]] E1(3) n by (metis length_lines length_list_update)
  have l1: "lines_of E1 ! ?k = ?u" using E1(3) k by simp
  from Cons.IH [OF E1(2)] E1 n1 l1 Cons.prems(2,3) c obtain E2 where E2:
    "foldMR editorInsertChar cs E1 = Inr E2" "good E2" "keeps_window E1 E2"
    "lines_of E2 = (lines_of E1)[?k := take (nat (filecol E1)) ?u @ cs @ drop (nat (filecol E1)) ?u]"
    "filerow E2 = filerow E" "filecol E2 = filecol E + 1 + int (length cs)" by auto
  have "nat (filecol E1) = Suc ?c" using E1(5) D(4) by simp
  then have "take (nat (filecol E1)) ?u @ cs @ drop (nat (filecol E1)) ?u =
      take ?c ?t @ (c # cs) @ drop ?c ?t"
    using c by (simp add: text_insert_def)
  with E2 E1 show ?case by (auto intro: keeps_window_trans)
qed

lemma split_line_nth:
  assumes "k < length ls"
  shows "split_line k n ls ! k = take n (ls ! k)" "split_line k n ls ! Suc k = drop n (ls ! k)"
    "length (split_line k n ls) = Suc (length ls)"
  using assms by (simp_all add: split_line_def nth_append)

text \<open>Enter copies the indentation of the line it leaves.\<close>

definition enter_lines :: "nat \<Rightarrow> nat \<Rightarrow> string list \<Rightarrow> string list" where
  "enter_lines k n ls =
     (if k < length ls then
        let before = take n (ls ! k) in
        take k ls @ before # (leading_spaces before @ drop n (ls ! k)) # drop (Suc k) ls
      else ls @ [[]])"

text \<open>Where the cursor is after it: behind the indentation.\<close>

definition enter_column :: "nat \<Rightarrow> nat \<Rightarrow> string list \<Rightarrow> nat" where
  "enter_column k n ls = (if k < length ls then length (leading_spaces (take n (ls ! k))) else 0)"

lemma leading_spaces_length: "length (leading_spaces t) \<le> length t"
  by (simp add: leading_spaces_def length_takeWhile_le)

lemma key_enter_ok:
  assumes g: "good E" and r: "roomy E"
  shows "\<exists>E'. key_enter E = Inr E' \<and> good E' \<and> keeps_window E E' \<and>
     lines_of E' = enter_lines (nat (filerow E)) (nat (filecol E)) (lines_of E) \<and>
     filerow E' = filerow E + 1 \<and>
     filecol E' = int (enter_column (nat (filerow E)) (nat (filecol E)) (lines_of E))"
proof -
  note D = good_D [OF g]
  let ?k = "nat (filerow E)" and ?c = "nat (filecol E)"
  have n: "numrows E = length (erows E)" using D(1) by (rule ed_inv_length)
  from editorInsertNewline_ok [OF g roomy_all_fits [OF r]] obtain E1 where E1:
    "editorInsertNewline E = Inr E1" "good E1" "lines_of E1 = split_line ?k ?c (lines_of E)"
    "filerow E1 = filerow E + 1" "filecol E1 = 0" "keeps_window E E1"
    by (auto simp: keeps_window_def)
  have inv1: "ed_inv E1" using E1(2) by (rule good_D)
  have p: "nat (filerow E1 - 1) = ?k" using E1(4) by simp
  show ?thesis
  proof (cases "filerow E < int (numrows E)")
    case False
    note N = good_no_row [OF g False]
    have l1: "lines_of E1 = lines_of E @ [[]]" using E1(3) N n by (simp add: split_line_def)
    have k1: "?k < length (erows E1)" "row_text (erows E1 ! ?k) = []"
      using l1 N n by (metis length_append_singleton length_lines lessI)
        (metis l1 N(1) n length_append_singleton length_lines lessI nth_append_length nth_lines)
    then have "key_enter E = Inr E1"
      using E1(1,4) D p by (simp add: key_enter_def leading_spaces_def)
    moreover have "enter_lines ?k ?c (lines_of E) = lines_of E @ [[]]"
      using N n by (simp add: enter_lines_def)
    moreover have "enter_column ?k ?c (lines_of E) = 0" using N n by (simp add: enter_column_def)
    ultimately show ?thesis using E1 l1 by auto
  next
    case True
    note K = good_row [OF g True]
    let ?t = "lines_of E ! ?k"
    have k: "?k < length (erows E)" using K(1) n by simp
    have S: "lines_of E1 ! ?k = take ?c ?t" "lines_of E1 ! Suc ?k = drop ?c ?t"
      "length (lines_of E1) = Suc (length (lines_of E))"
      using split_line_nth [of ?k "lines_of E" ?c] k E1(3) by simp_all
    have k1: "?k < length (erows E1)" "Suc ?k < length (erows E1)" using S(3) k by simp_all
    let ?ind = "leading_spaces (take ?c ?t)"
    have fr1: "nat (filerow E1) = Suc ?k" using E1(4) D(2) by simp
    have "filerow E1 < int (numrows E1)"
      using k1(2) ed_inv_length [OF inv1] E1(4) D(2) by simp
    moreover have "9 * (length (lines_of E1 ! nat (filerow E1)) + length ?ind) + 1 < 2 ^ 32"
    proof -
      have "length ?ind \<le> length ?t"
        using leading_spaces_length [of "take ?c ?t"] by simp
      moreover have "length (drop ?c ?t) \<le> length ?t" by simp
      ultimately show ?thesis unfolding fr1 S(2) using two_runs roomy_line [OF r k] by blast
    qed
    ultimately obtain E2 where E2: "foldMR editorInsertChar ?ind E1 = Inr E2" "good E2"
      "keeps_window E1 E2" "lines_of E2 = (lines_of E1)[Suc ?k := ?ind @ drop ?c ?t]"
      "filerow E2 = filerow E1" "filecol E2 = int (length ?ind)"
      using type_run [OF E1(2), of ?ind] S fr1 E1(5) by auto
    have "key_enter E = Inr E2"
      using E1(1,4) E2(1) D p k1(1) S(1) by (simp add: key_enter_def)
    moreover have "lines_of E2 = enter_lines ?k ?c (lines_of E)"
      using E2(4) E1(3) k by (simp add: split_line_def enter_lines_def list_update_append Let_def)
    moreover have "enter_column ?k ?c (lines_of E) = length ?ind" using k by (simp add: enter_column_def)
    ultimately show ?thesis using E2 E1 by (auto intro: keeps_window_trans)
  qed
qed

section \<open>Paging\<close>

lemma vertical_step:
  assumes p: "pre_fix E" and d: "d = UP \<or> d = DOWN"
  shows "\<exists>E'. editorMoveCursor d E = Inr E' \<and> good E' \<and> same_buffer E E' \<and>
     filerow E' = (if d = UP then max 0 (filerow E - 1)
        else if filerow E < int (numrows E) - 1 then filerow E + 1 else filerow E)"
proof -
  define E1 where "E1 = (if d = UP then move_up E else move_down E)"
  have sb: "same_buffer E E1"
    by (simp add: E1_def same_buffer_def move_up_def move_down_def cursor_down_def)
  have fr: "filerow E1 = (if d = UP then max 0 (filerow E - 1)
        else if filerow E < int (numrows E) - 1 then filerow E + 1 else filerow E)"
    and sp: "screen_pos E1"
    using p by (auto simp: E1_def pre_fix_def pos_defs)
  have "ed_inv E1" "numrows E1 = numrows E"
    using same_buffer_inv [OF sb] p sb by (simp_all add: pre_fix_def same_buffer_def)
  with sp fr p have "pre_fix E1" by (auto simp: pre_fix_def)
  from move_finish [OF this sb refl] fr d show ?thesis
    by (auto simp: editorMoveCursor_def E1_def)
qed

lemma good_pre_fix: "good E \<Longrightarrow> pre_fix E"
  by (simp add: good_def file_pos_def pre_fix_def)

lemma page_moves:
  assumes "pre_fix E" "0 < n" "d = UP \<or> d = DOWN"
  shows "\<exists>E'. move_times n d E = Inr E' \<and> good E' \<and> same_buffer E E' \<and>
     filerow E' = (if d = UP then max 0 (filerow E - int n)
        else if filerow E < int (numrows E) then min (int (numrows E) - 1) (filerow E + int n)
        else filerow E)"
  using assms
proof (induction n arbitrary: E)
  case 0
  then show ?case by simp
next
  case (Suc n)
  from vertical_step [OF Suc.prems(1,3)] obtain E1 where E1:
    "editorMoveCursor d E = Inr E1" "good E1" "same_buffer E E1"
    "filerow E1 = (if d = UP then max 0 (filerow E - 1)
        else if filerow E < int (numrows E) - 1 then filerow E + 1 else filerow E)" by blast
  have n: "numrows E1 = numrows E" using E1(3) by (simp add: same_buffer_def)
  show ?case
  proof (cases "n = 0")
    case True
    with E1 show ?thesis by auto
  next
    case False
    from Suc.IH [OF good_pre_fix [OF E1(2)] _ Suc.prems(3)] False obtain E2 where E2:
      "move_times n d E1 = Inr E2" "good E2" "same_buffer E1 E2"
      "filerow E2 = (if d = UP then max 0 (filerow E1 - int n)
        else if filerow E1 < int (numrows E1) then min (int (numrows E1) - 1) (filerow E1 + int n)
        else filerow E1)" by auto
    have "same_buffer E E2" using E1(3) E2(3) by (rule same_buffer_trans)
    with E1 E2 n show ?thesis by (auto simp: min_def max_def)
  qed
qed

definition page_height :: "editorConfig \<Rightarrow> int" where
  "page_height E = endrow E - startrow E"

text \<open>Page-down first puts the cursor on the last screen line, which must be in the buffer.\<close>

definition page_full :: "editorConfig \<Rightarrow> bool" where
  "page_full E \<longleftrightarrow> rowoff E + page_height E - 1 \<le> int (numrows E)"

lemma key_page_ok:
  assumes g: "good E" and f: "\<not> up \<Longrightarrow> page_full E"
  shows "\<exists>E'. key_page up E = Inr E' \<and> good E' \<and> same_buffer E E' \<and>
     (if up then filerow E' = max 0 (rowoff E - page_height E)
      else if rowoff E + page_height E - 1 < int (numrows E)
      then filerow E' = min (int (numrows E) - 1) (rowoff E + 2 * page_height E - 1)
      else filerow E' = int (numrows E))"
proof -
  note D = good_D [OF g]
  define E1 where "E1 = (if up \<and> cy E \<noteq> 0 then E\<lparr>cy := 0\<rparr>
                else if \<not> up \<and> startrow E + cy E \<noteq> endrow E - 1
                then E\<lparr>cy := endrow E - 1 - startrow E\<rparr> else E)"
  have sb: "same_buffer E E1" by (simp add: E1_def same_buffer_def)
  have win: "endrow E1 - startrow E1 = page_height E" by (simp add: E1_def page_height_def)
  have fr: "filerow E1 = (if up then rowoff E else rowoff E + page_height E - 1)"
    by (auto simp: E1_def filerow_def page_height_def)
  have sp: "screen_pos E1" using D by (auto simp: E1_def screen_pos_def)
  have n: "numrows E1 = numrows E" using sb by (simp add: same_buffer_def)
  have h: "0 < page_height E" using D by (simp add: page_height_def)
  have "0 \<le> filerow E1 \<and> filerow E1 \<le> int (numrows E)"
    using fr D f h by (auto simp: filerow_def page_full_def split: if_splits)
  then have "pre_fix E1" using sp n same_buffer_inv [OF sb] D(1) by (simp add: pre_fix_def)
  from page_moves [OF this, of "nat (page_height E)" "if up then UP else DOWN"] h have
    "\<exists>E'. move_times (nat (page_height E)) (if up then UP else DOWN) E1 = Inr E' \<and> good E' \<and>
    same_buffer E1 E' \<and>
    filerow E' = (if up then max 0 (filerow E1 - page_height E)
        else if filerow E1 < int (numrows E1) then min (int (numrows E1) - 1) (filerow E1 + page_height E)
        else filerow E1)" by (cases up) (simp_all split: if_splits)
  then obtain E' where E': "move_times (nat (page_height E)) (if up then UP else DOWN) E1 = Inr E'" "good E'"
    "same_buffer E1 E'"
    "filerow E' = (if up then max 0 (filerow E1 - page_height E)
        else if filerow E1 < int (numrows E1) then min (int (numrows E1) - 1) (filerow E1 + page_height E)
        else filerow E1)" by blast
  have "key_page up E = Inr E'"
    using E'(1) win h by (simp add: key_page_def E1_def [symmetric] Let_def)
  moreover have "same_buffer E E'" using sb E'(3) by (rule same_buffer_trans)
  ultimately show ?thesis
    using E'(2,4) fr n f by (auto simp: page_full_def)
qed

section \<open>Commenting\<close>

lemma bindR_return [simp]: "bindR m Inr = m"
  by (cases m) simp_all

lemma c_str_NUL: "c_str (t @ NUL # u) = c_str t"
  by (induction t) (simp_all add: c_str_def)

lemma length_c_str_le: "length (c_str t) \<le> length t"
  by (simp add: c_str_def length_takeWhile_le)

lemma editorCommentCursorRow_ok:
  assumes g: "good E" and R: "filerow E < int (numrows E)"
    and f: "fits (''--? '' @ lines_of E ! nat (filerow E))"
  shows "\<exists>E'. editorCommentCursorRow E = Inr E' \<and> good E' \<and> keeps_window E E' \<and>
     lines_of E' = (lines_of E)[nat (filerow E) := ''--? '' @ lines_of E ! nat (filerow E)] \<and>
     filerow E' = filerow E \<and> filecol E' = 0"
proof -
  note D = good_D [OF g] and K = good_row [OF g R]
  let ?k = "nat (filerow E)"
  have k: "?k < length (lines_of E)" using K(1) ed_inv_length [OF D(1)] by simp
  from kilo_edit.insert_prefix [OF D(1) k f] obtain E1 where E1:
    "foldMR (editorRowInsertChar ?k 0) (rev ''--? '') E = Inr E1" "ed_inv E1" "same_view E E1"
    "lines_of E1 = (lines_of E)[?k := ''--? '' @ lines_of E ! ?k]" by blast
  let ?E = "E1\<lparr>coloff := 0, cx := 0\<rparr>"
  have "editorCommentCursorRow E = Inr ?E" using E1(1) D(2) by (simp add: editorCommentCursorRow_def)
  moreover have l: "lines_of ?E = lines_of E1" by (simp add: lines_of_def)
  moreover have i: "ed_inv ?E" using E1(2) by (simp add: ed_inv_def rows_inv_def)
  moreover have "numrows ?E = numrows E"
    using ed_inv_length [OF i] ed_inv_length [OF D(1)] l E1(4) by (metis length_lines length_list_update)
  moreover have "filerow ?E = filerow E" "filecol ?E = 0" "screen_pos ?E" "keeps_window E ?E"
    using E1(3) D(6) by (auto simp: same_view_def pos_defs keeps_window_def)
  ultimately show ?thesis using E1(4) D R
    by (intro exI [of _ ?E]) (simp add: good_def file_pos_def)
qed

lemma delete_run:
  assumes "good E" "filerow E < int (numrows E)" "filecol E = int n"
    "fits (lines_of E ! nat (filerow E))"
  shows "\<exists>E'. foldMR (\<lambda>_. editorDelChar) (replicate n ()) E = Inr E' \<and> good E' \<and> keeps_window E E' \<and>
     lines_of E' = (lines_of E)[nat (filerow E) := drop n (lines_of E ! nat (filerow E))] \<and>
     filerow E' = filerow E \<and> filecol E' = 0"
  using assms
proof (induction n arbitrary: E)
  case 0
  then show ?case by (simp add: keeps_window_def)
next
  case (Suc n)
  note D = good_D [OF Suc.prems(1)] and K = good_row [OF Suc.prems(1,2)]
  let ?k = "nat (filerow E)"
  have k: "?k < length (lines_of E)" using K(1) ed_inv_length [OF D(1)] by simp
  have c: "Suc n \<le> length (lines_of E ! ?k)" using D(5) K(3) Suc.prems(3) by simp
  from del_in_line [OF Suc.prems(1,2) _ Suc.prems(4)] Suc.prems(3) obtain E1 where E1:
    "editorDelChar E = Inr E1" "good E1" "keeps_window E E1"
    "lines_of E1 = (lines_of E)[?k := text_delete n (lines_of E ! ?k)]"
    "filerow E1 = filerow E" "filecol E1 = int n" by auto
  have n1: "numrows E1 = numrows E"
    using ed_inv_length [OF good_D(1) [OF E1(2)]] ed_inv_length [OF D(1)] E1(4)
    by (metis length_lines length_list_update)
  have l1: "lines_of E1 ! ?k = text_delete n (lines_of E ! ?k)"
    using E1(4) k by (metis nth_list_update_eq)
  have "fits (text_delete n (lines_of E ! ?k))"
    using Suc.prems(4) c by (intro fits_text_delete) auto
  with Suc.IH [OF E1(2)] E1 n1 l1 Suc.prems(2) obtain E2 where E2:
    "foldMR (\<lambda>_. editorDelChar) (replicate n ()) E1 = Inr E2" "good E2" "keeps_window E1 E2"
    "lines_of E2 = (lines_of E1)[?k := drop n (text_delete n (lines_of E ! ?k))]"
    "filerow E2 = filerow E" "filecol E2 = 0" by auto
  have "drop n (text_delete n (lines_of E ! ?k)) = drop (Suc n) (lines_of E ! ?k)"
    using c by (simp add: text_delete_def)
  with E1 E2 show ?case by (auto intro: keeps_window_trans)
qed

lemma foldMR_fun: "foldMR f [] = Inr" "foldMR f (x # xs) = (\<lambda>s. bindR (f x s) (foldMR f xs))"
  by (rule ext, simp)+

lemma editorUncommentCursorRow_ok:
  assumes g: "good E" and R: "filerow E < int (numrows E)" and w: "4 < cols E"
    and l: "4 \<le> length (lines_of E ! nat (filerow E))" and f: "fits (lines_of E ! nat (filerow E))"
  shows "\<exists>E'. editorUncommentCursorRow E = Inr E' \<and> good E' \<and> keeps_window E E' \<and>
     lines_of E' = (lines_of E)[nat (filerow E) := drop 4 (lines_of E ! nat (filerow E))] \<and>
     filerow E' = filerow E \<and> filecol E' = 0"
proof -
  note D = good_D [OF g] and K = good_row [OF g R]
  let ?k = "nat (filerow E)" and ?E = "E\<lparr>coloff := 0, cx := 4\<rparr>"
  have k: "?k < length (erows E)" using K(1) ed_inv_length [OF D(1)] by simp
  have le: "lines_of ?E = lines_of E" by (simp add: lines_of_def)
  have "ed_inv ?E" using D(1) by (simp add: ed_inv_def rows_inv_def)
  with editorUpdateRow_refresh [of ?E ?k] k f le obtain E1 where E1:
    "editorUpdateRow ?k ?E = Inr E1" "ed_inv E1" "lines_of E1 = lines_of E" "same_view ?E E1"
    by (auto simp: rows_become_def)
  have n1: "numrows E1 = numrows E"
    using ed_inv_length [OF E1(2)] ed_inv_length [OF D(1)] E1(3) by (metis length_lines)
  have v: "filerow E1 = filerow E" "filecol E1 = 4" "screen_pos E1" "keeps_window E E1"
    using E1(4) D(6) w by (auto simp: same_view_def pos_defs keeps_window_def)
  have "cur_len E1 = cur_len E" using v(1) n1 E1(3) by (simp add: cur_len_def)
  then have g1: "good E1"
    using E1(2) v n1 D(2,3) K(3) l by (simp add: good_def file_pos_def)
  from delete_run [OF g1, of 4] v n1 R f E1(3) obtain E2 where E2:
    "foldMR (\<lambda>_. editorDelChar) (replicate 4 ()) E1 = Inr E2" "good E2" "keeps_window E1 E2"
    "lines_of E2 = (lines_of E)[?k := drop 4 (lines_of E ! ?k)]"
    "filerow E2 = filerow E" "filecol E2 = 0" by auto
  have "editorUncommentCursorRow E = Inr E2"
    using E1(1) E2(1) D(2) by (simp add: editorUncommentCursorRow_def numeral_eq_Suc foldMR_fun)
  with E2 v(4) show ?thesis by (auto intro: keeps_window_trans)
qed

lemma key_slash_ok:
  assumes g: "good E" and R: "filerow E < int (numrows E)" and w: "4 < cols E" and r: "roomy E"
  shows "\<exists>E'. key_slash E = Inr E' \<and> good E' \<and> keeps_window E E' \<and> filerow E' = filerow E \<and> filecol E' = 0 \<and>
     lines_of E' = (lines_of E)[nat (filerow E) :=
        (if starts_with (c_str (lines_of E ! nat (filerow E))) ''--? ''
         then drop 4 (lines_of E ! nat (filerow E)) else ''--? '' @ lines_of E ! nat (filerow E))]"
proof -
  note D = good_D [OF g] and K = good_row [OF g R]
  let ?k = "nat (filerow E)"
  have k: "?k < length (erows E)" using K(1) ed_inv_length [OF D(1)] by simp
  have ch: "c_str (r_chars (erows E ! ?k)) = c_str (lines_of E ! ?k)"
    using row_buffer [OF ed_inv_row(2) [OF D(1) k] ed_inv_row(3) [OF D(1) k]] k c_str_NUL nth_lines [OF k] by metis
  have "starts_with (c_str (lines_of E ! ?k)) ''--? '' \<Longrightarrow> 4 \<le> length (lines_of E ! ?k)"
    using length_c_str_le [of "lines_of E ! ?k"] starts_with_length [of "c_str (lines_of E ! ?k)" "''--? ''"]
    by simp
  moreover have "fits (''--? '' @ lines_of E ! ?k)"
    using roomy_line [OF r k] by (intro short_fits) simp
  ultimately show ?thesis
    using editorCommentCursorRow_ok [OF g R] editorUncommentCursorRow_ok [OF g R w _ roomy_fits [OF r k]]
      k ch D(2) by (auto simp: key_slash_def)
qed

section \<open>Every key\<close>

text \<open>
  The situations in which a key leaves the editor's state well formed.  Each excluded one is
  a defect of the code: moving left off the top of a scrolled window, joining with a line
  wider than the window, paging down past the end, toggling a comment past the end or in
  a window of less than five columns, and a function key whose code ends in the newline byte.
\<close>

definition on_row :: "editorConfig \<Rightarrow> bool" where
  "on_row E \<longleftrightarrow> filerow E < int (numrows E)"

fun key_safe :: "key \<Rightarrow> editorConfig \<Rightarrow> bool" where
  "key_safe KEY_LEFT E \<longleftrightarrow> \<not> left_escapes E"
| "key_safe KEY_BACKSPACE E \<longleftrightarrow> \<not> join_overflows E"
| "key_safe KEY_NPAGE E \<longleftrightarrow> page_full E"
| "key_safe (Byte b) E \<longleftrightarrow>
     (if b = 127 \<or> b = 8 then \<not> join_overflows E
      else if b = 11 \<or> b = 12 then (if on_row E then tall E else \<not> left_escapes E)
      else if b = 31 then on_row E \<and> 4 < cols E else b < 256)"
| "key_safe (KEY_OTHER n) E \<longleftrightarrow> char_of n \<noteq> NL"
| "key_safe _ E \<longleftrightarrow> True"

text \<open>No line holds a newline, so that the lines can be read back from the file they are
  saved to.\<close>

definition clean :: "string list \<Rightarrow> bool" where
  "clean ls \<longleftrightarrow> list_all (\<lambda>t. NL \<notin> set t) ls"

definition stays_good :: "editorConfig \<Rightarrow> editorConfig res \<Rightarrow> bool" where
  "stays_good E m \<longleftrightarrow> (\<exists>E'. m = Inr E' \<and> good E' \<and> keeps_window E E' \<and>
     (clean (lines_of E) \<longrightarrow> clean (lines_of E')))"

lemma stays_good_buffer: "\<exists>E'. m = Inr E' \<and> good E' \<and> same_buffer E E' \<and> P E' \<Longrightarrow> stays_good E m"
  by (auto simp: stays_good_def same_buffer_lines intro: same_buffer_window)

named_theorems clean_rules "operations on lines that keep them free of newlines"

lemma clean_nth: "clean ls \<Longrightarrow> k < length ls \<Longrightarrow> NL \<notin> set (ls ! k)"
  by (simp add: clean_def list_all_length)

lemma clean_update [clean_rules]: "clean ls \<Longrightarrow> NL \<notin> set t \<Longrightarrow> clean (ls[k := t])"
  by (auto simp: clean_def list_all_iff dest: set_update_subset_insert [THEN subsetD])

lemma clean_append [simp]: "clean (xs @ ys) \<longleftrightarrow> clean xs \<and> clean ys"
  "clean (t # ys) \<longleftrightarrow> NL \<notin> set t \<and> clean ys" "clean []"
  by (simp_all add: clean_def)

lemma clean_take_drop [clean_rules]: "clean ls \<Longrightarrow> clean (take k ls)" "clean ls \<Longrightarrow> clean (drop k ls)"
  by (auto simp: clean_def list_all_iff dest: in_set_takeD in_set_dropD)

lemma clean_nth_line: "clean ls \<Longrightarrow> NL \<notin> set (nth_line ls k)"
  by (simp add: nth_line_def clean_nth)

lemma NL_text_insert: "NL \<notin> set t \<Longrightarrow> c \<noteq> NL \<Longrightarrow> NL \<notin> set (text_insert n c t)"
  by (auto simp: text_insert_def dest: in_set_takeD in_set_dropD)

lemma NL_text_delete: "NL \<notin> set t \<Longrightarrow> NL \<notin> set (text_delete n t)"
  by (auto simp: text_delete_def dest: in_set_takeD in_set_dropD)

lemma NL_take_drop: "NL \<notin> set t \<Longrightarrow> NL \<notin> set (take n t)" "NL \<notin> set t \<Longrightarrow> NL \<notin> set (drop n t)"
  by (auto dest: in_set_takeD in_set_dropD)

lemma clean_put_line: "clean ls \<Longrightarrow> NL \<notin> set t \<Longrightarrow> clean (put_line k t ls)"
  by (simp add: put_line_def clean_update) (simp add: clean_def list_all_iff)

lemma clean_insert:
  "clean ls \<Longrightarrow> c \<noteq> NL \<Longrightarrow> clean (put_line k (text_insert n c (nth_line ls k')) ls)"
  by (intro clean_put_line NL_text_insert clean_nth_line)

lemma clean_update_same:
  "clean ls \<Longrightarrow> (NL \<notin> set (ls ! k) \<Longrightarrow> NL \<notin> set t) \<Longrightarrow> clean (ls[k := t])"
  by (cases "k < length ls") (simp_all add: clean_update clean_nth list_update_beyond)

lemma char_of_NL: "b < 256 \<Longrightarrow> char_of b = NL \<Longrightarrow> b = (10::nat)"
  using of_char_of [of b] by simp

lemma clean_cut:
  "clean ls \<Longrightarrow> clean (ls[k := take n (ls ! k)])" "clean ls \<Longrightarrow> clean (ls[k := drop n (ls ! k)])"
  "clean ls \<Longrightarrow> clean (ls[k := text_delete n (ls ! k)])"
  "clean ls \<Longrightarrow> clean (ls[k := ''--? '' @ ls ! k])"
  by (simp_all add: clean_update_same NL_take_drop NL_text_delete)

lemma clean_enter_lines: "clean ls \<Longrightarrow> clean (enter_lines k n ls)"
  using clean_nth [of ls k]
  by (auto simp: enter_lines_def Let_def clean_take_drop leading_spaces_def
      dest: in_set_takeD in_set_dropD set_takeWhileD)

lemma clean_del_back: "clean ls \<Longrightarrow> clean (del_back k n ls)"
proof (cases "k < length ls")
  case True
  moreover assume "clean ls"
  moreover have "k - 1 < length ls" using True by simp
  ultimately show ?thesis using clean_nth [of ls k] clean_nth [of ls "k - 1"]
    by (simp add: del_back_def join_lines_def clean_take_drop clean_cut)
qed (simp add: del_back_def)

text \<open>Where Backspace leaves the cursor, and where it does nothing at all: at the start of the
  file and on the line below the last.\<close>

definition back_acts :: "nat \<Rightarrow> nat \<Rightarrow> string list \<Rightarrow> bool" where
  "back_acts k n ls \<longleftrightarrow> k < length ls \<and> (0 < k \<or> 0 < n)"

definition back_pos :: "nat \<Rightarrow> nat \<Rightarrow> string list \<Rightarrow> nat \<times> nat" where
  "back_pos k n ls =
     (if \<not> back_acts k n ls then (k, n)
      else if n = 0 then (k - 1, length (ls ! (k - 1))) else (k, n - 1))"

lemmas back_defs = del_back_def back_pos_def back_acts_def

lemma del_good_pos:
  assumes g: "good E" and r: "roomy E" and n: "\<not> join_overflows E"
  shows "\<exists>E'. editorDelChar E = Inr E' \<and> good E' \<and> keeps_window E E' \<and>
     lines_of E' = del_back (nat (filerow E)) (nat (filecol E)) (lines_of E) \<and>
     (nat (filerow E'), nat (filecol E')) = back_pos (nat (filerow E)) (nat (filecol E)) (lines_of E) \<and>
     (\<not> back_acts (nat (filerow E)) (nat (filecol E)) (lines_of E) \<longrightarrow> E' = E)"
proof (cases "filerow E < int (numrows E)")
  case False
  note N = good_no_row [OF g False]
  have "\<not> nat (filerow E) < length (lines_of E)"
    using N(1) ed_inv_length [OF good_D(1) [OF g]] by simp
  moreover have "editorDelChar E = Inr E" using N(3) by (simp add: editorDelChar_def Let_def)
  ultimately show ?thesis using g by (simp add: keeps_window_def back_defs)
next
  case True
  note D = good_D [OF g] and K = good_row [OF g True]
  have k: "nat (filerow E) < length (erows E)" using K(1) ed_inv_length [OF D(1)] by simp
  show ?thesis
  proof (cases "filecol E = 0")
    case False
    with del_in_line [OF g True _ roomy_fits [OF r k]] D(4) k show ?thesis
      by (auto simp: back_defs nat_diff_distrib)
  next
    case zero: True
    show ?thesis
    proof (cases "filerow E = 0")
      case True
      with zero K(2) have "editorDelChar E = Inr E" by (simp add: editorDelChar_def Let_def)
      with True zero g show ?thesis by (simp add: back_defs keeps_window_def)
    next
      case False
      have k1: "nat (filerow E) - 1 < length (erows E)" using k by simp
      have "fits (lines_of E ! (nat (filerow E) - 1) @ lines_of E ! nat (filerow E))"
        using roomy_line [OF r k1] roomy_line [OF r k] by (intro short_fits) simp
      with del_join [OF g True zero] D(2) False n zero k show ?thesis
        by (auto simp: back_defs nat_diff_distrib)
    qed
  qed
qed

lemma del_good:
  assumes "good E" "roomy E" "\<not> join_overflows E"
  shows "\<exists>E'. editorDelChar E = Inr E' \<and> good E' \<and> keeps_window E E' \<and>
     lines_of E' = del_back (nat (filerow E)) (nat (filecol E)) (lines_of E)"
  using del_good_pos [OF assms] by blast

lemma insert_good:
  assumes g: "good E" and r: "roomy E"
  shows "\<exists>E'. editorInsertChar c E = Inr E' \<and> good E' \<and> keeps_window E E' \<and>
     lines_of E' = put_line (nat (filerow E))
       (text_insert (nat (filecol E)) c (nth_line (lines_of E) (nat (filerow E)))) (lines_of E) \<and>
     filerow E' = filerow E \<and> filecol E' = filecol E + 1"
  using editorInsertChar_ok [OF g roomy_insert [OF r g], of c] by (auto simp: keeps_window_def)

lemma cursor_line:
  assumes g: "good E"
  shows "nat (filecol E) \<le> length (nth_line (lines_of E) (nat (filerow E)))"
    "nat (filerow E) \<le> length (lines_of E)"
proof -
  note D = good_D [OF g]
  have n: "numrows E = length (erows E)" using D(1) by (rule ed_inv_length)
  show "nat (filerow E) \<le> length (lines_of E)" using D(2,3) n by simp
  show "nat (filecol E) \<le> length (nth_line (lines_of E) (nat (filerow E)))"
    using D(2,5) n by (auto simp: nth_line_def cur_len_def nat_le_iff nat_less_iff split: if_splits)
qed

lemma cursor_line_roomy:
  "good E \<Longrightarrow> roomy E \<Longrightarrow> 9 * length (nth_line (lines_of E) (nat (filerow E))) + 100 < 2 ^ 31"
  using roomy_line [of E "nat (filerow E)"] by (simp add: nth_line_def)

lemma tab_good:
  assumes g: "good E" and r: "roomy E"
  shows "stays_good E (bindR (editorInsertChar SPC E) (editorInsertChar SPC))"
proof -
  let ?k = "nat (filerow E)" and ?c = "nat (filecol E)"
  let ?t = "nth_line (lines_of E) ?k"
  from insert_good [OF assms, of SPC] obtain E1 where E1: "editorInsertChar SPC E = Inr E1" "good E1"
    "keeps_window E E1" "lines_of E1 = put_line ?k (text_insert ?c SPC ?t) (lines_of E)"
    "filerow E1 = filerow E" "filecol E1 = filecol E + 1" by blast
  note c = cursor_line(1) [OF g] and k = cursor_line(2) [OF g] and t = cursor_line_roomy [OF g r]
  have "nth_line (lines_of E1) ?k = text_insert ?c SPC ?t"
    using E1(4) k by (simp add: put_line_def nth_line_def nth_append)
  moreover have "nat (filecol E1) = Suc ?c" using E1(6) good_D(4) [OF g] by simp
  ultimately have "fits (text_insert (nat (filecol E1)) SPC (nth_line (lines_of E1) (nat (filerow E1))))"
    using c t E1(5) by (intro short_fits) simp
  from editorInsertChar_ok [OF E1(2) this] E1(1,3,4) show ?thesis
    by (auto simp: stays_good_def keeps_window_def intro!: clean_insert)
qed

lemma right_past_end:
  assumes g: "good E" and o: "\<not> on_row E" and n: "\<not> left_escapes E"
  shows "stays_good E (right_until_wrap (Suc m) body E)"
proof -
  note D = good_D [OF g]
  have "filerow E = int (numrows E)" "filecol E = 0"
    using good_no_row [OF g] o by (simp_all add: on_row_def)
  with move_right_good [OF g] obtain E1 where E1: "editorMoveCursor RIGHT E = Inr E1"
    "good E1" "same_buffer E E1" "filerow E1 = filerow E" "filecol E1 = 0" by auto
  have "row_at (filerow E) E = Inr None"
    using good_no_row(3) [OF g] o by (simp add: on_row_def)
  then have "editorMoveCursor RIGHT E = fix_column E"
    by (simp add: editorMoveCursor_def move_right_def)
  moreover have "row_length E = Inr 0"
    using \<open>row_at (filerow E) E = Inr None\<close> by (simp add: row_length_def)
  ultimately have "E1 = E"
    using E1(1) \<open>filecol E = 0\<close> by (simp add: fix_column_def)
  then have "right_until_wrap (Suc m) body E = editorMoveCursor LEFT E"
    using E1 at_start_iff [OF g] \<open>filecol E = 0\<close> by simp
  with move_left_good [OF g n] show ?thesis by (metis stays_good_buffer)
qed

lemma line_fuel_Suc: "\<exists>m. line_fuel E = Suc m"
  by (simp add: line_fuel_def)

lemma fuel_enough:
  assumes "good E"
  shows "nat (filecol E) < line_fuel E" "nat (cur_len E - filecol E) < line_fuel E"
  using assms good_D(4) [OF assms] by (simp_all add: line_fuel_ok)

lemma byte_good:
  assumes g: "good E" and r: "roomy E" and s: "key_safe (Byte b) E"
  shows "stays_good E (editorProcessKey (Byte b) E)"
proof -
  have R: "on_row E \<Longrightarrow> filerow E < int (numrows E)" by (simp add: on_row_def)
  have k: "on_row E \<Longrightarrow> nat (filerow E) < length (lines_of E)"
    using good_row(1) [OF g R] ed_inv_length [OF good_D(1) [OF g]] by simp
  have F: "on_row E \<Longrightarrow> fits (lines_of E ! nat (filerow E))"
    using roomy_fits [OF r, of "nat (filerow E)"] good_row(1) [OF g R]
      ed_inv_length [OF good_D(1) [OF g]] by simp
  obtain m where m: "line_fuel E = Suc m" using line_fuel_Suc by blast
  consider (enter) "b = 10" | (del) "b = 127 \<or> b = 8" | (home) "b = 1" | (eol) "b = 12"
    | (kill_l) "b = 21" | (kill_r) "b = 11" | (slash) "b = 31" | (tab) "b = 9"
    | (other) "b \<notin> {10, 127, 8, 1, 12, 21, 11, 31, 9}" by blast
  then show ?thesis
  proof cases
    case enter
    with key_enter_ok [OF g r] show ?thesis
      by (auto simp: editorProcessKey_def stays_good_def clean_enter_lines)
  next
    case del
    with del_good [OF g r] s show ?thesis
      by (auto simp: editorProcessKey_def stays_good_def clean_del_back)
  next
    case home
    with until_start_left [OF g fuel_enough(1) [OF g]] show ?thesis
      by (simp add: editorProcessKey_def) (rule stays_good_buffer)
  next
    case eol
    show ?thesis
    proof (cases "on_row E")
      case True
      with eol s right_until_wrap_end [OF g _ R fuel_enough(2) [OF g]] show ?thesis
        by (simp add: editorProcessKey_def) (rule stays_good_buffer)
    next
      case False
      with eol s right_past_end [OF g False, of m Inr] m show ?thesis
        by (simp add: editorProcessKey_def)
    qed
  next
    case kill_l
    show ?thesis
    proof (cases "on_row E")
      case True
      with kill_l until_start_del [OF g R F fuel_enough(1) [OF g]] show ?thesis
        by (auto simp: editorProcessKey_def stays_good_def intro!: clean_cut)
    next
      case False
      then have "editorAtStartOfLine E" using at_start_iff [OF g] good_no_row(4) [OF g] by (simp add: on_row_def)
      with kill_l g m show ?thesis
        by (simp add: editorProcessKey_def stays_good_def keeps_window_def)
    qed
  next
    case kill_r
    show ?thesis
    proof (cases "on_row E")
      case True
      with kill_r s right_until_wrap_kill [OF g _ R F fuel_enough(2) [OF g]] show ?thesis
        by (auto simp: editorProcessKey_def stays_good_def intro!: clean_cut)
    next
      case False
      with kill_r s right_past_end [OF g False, of m editorDelChar] m show ?thesis
        by (simp add: editorProcessKey_def)
    qed
  next
    case slash
    with s key_slash_ok [OF g R _ r] obtain E' where E': "key_slash E = Inr E'" "good E'"
      "keeps_window E E'" "lines_of E' = (lines_of E)[nat (filerow E) :=
        (if starts_with (c_str (lines_of E ! nat (filerow E))) ''--? ''
         then drop 4 (lines_of E ! nat (filerow E)) else ''--? '' @ lines_of E ! nat (filerow E))]"
      by auto
    then have "clean (lines_of E) \<Longrightarrow> clean (lines_of E')"
      using clean_cut(2,4) by presburger
    with slash E' show ?thesis by (simp add: editorProcessKey_def stays_good_def)
  next
    case tab
    with tab_good [OF g r] show ?thesis by (simp add: editorProcessKey_def)
  next
    case other
    then have "char_of b \<noteq> NL" using s char_of_NL [of b] by auto
    with other show ?thesis using insert_good [OF g r, of "char_of b"] g
      by (auto simp: editorProcessKey_def stays_good_def keeps_window_def
          intro!: clean_insert)
  qed
qed

text \<open>Under the stated conditions every key returns a well-formed editor.\<close>

lemma editorProcessKey_good:
  assumes g: "good E" and r: "roomy E" and s: "key_safe c E"
  shows "stays_good E (editorProcessKey c E)"
proof (cases c)
  case KEY_UP
  with move_up_good [OF g] show ?thesis
    by (simp add: editorProcessKey_def) (rule stays_good_buffer)
next
  case KEY_DOWN
  with move_down_good [OF g] show ?thesis
    by (simp add: editorProcessKey_def) (rule stays_good_buffer)
next
  case KEY_LEFT
  with move_left_good [OF g] s show ?thesis
    by (simp add: editorProcessKey_def) (rule stays_good_buffer)
next
  case KEY_RIGHT
  with move_right_good [OF g] show ?thesis
    by (simp add: editorProcessKey_def) (rule stays_good_buffer)
next
  case KEY_BACKSPACE
  with del_good [OF g r] s show ?thesis
    by (auto simp: editorProcessKey_def stays_good_def clean_del_back)
next
  case KEY_NPAGE
  with key_page_ok [OF g, of False] s show ?thesis
    by (simp add: editorProcessKey_def) (rule stays_good_buffer)
next
  case KEY_PPAGE
  with key_page_ok [OF g, of True] show ?thesis
    by (simp add: editorProcessKey_def) (rule stays_good_buffer)
next
  case (KEY_OTHER n)
  with insert_good [OF g r, of "char_of n"] s show ?thesis
    by (auto simp: editorProcessKey_def stays_good_def
        intro!: clean_insert)
next
  case (Byte b)
  with byte_good [OF g r] s show ?thesis by simp
qed

section \<open>Editing sessions\<close>

text \<open>
  The states that a sequence of keys reaches, each key pressed where it is safe and while
  every line has room to grow.
\<close>

inductive edits :: "editorConfig \<Rightarrow> editorConfig \<Rightarrow> bool" where
  edits_none: "edits E E"
| edits_key: "edits E E1 \<Longrightarrow> roomy E1 \<Longrightarrow> key_safe c E1 \<Longrightarrow> editorProcessKey c E1 = Inr E2 \<Longrightarrow> edits E E2"

lemma edits_good:
  assumes "edits E E'" "good E"
  shows "good E' \<and> keeps_window E E' \<and> (clean (lines_of E) \<longrightarrow> clean (lines_of E'))"
  using assms
proof (induction rule: edits.induct)
  case (edits_none E)
  then show ?case by (simp add: keeps_window_def)
next
  case (edits_key E E1 c E2)
  then have "stays_good E1 (editorProcessKey c E1)" by (intro editorProcessKey_good) auto
  with edits_key show ?case by (auto simp: stays_good_def intro: keeps_window_trans)
qed

text \<open>A freshly opened file, in a window with at least one line and one column.\<close>

lemma opened_good:
  assumes w: "\<forall>s. esyntax E = Some s \<longrightarrow> wf_syntax s" "0 < cols E" "startrow E < endrow E"
    and f: "list_all fits (file_lines s)"
  shows "\<exists>E'. editorOpen fname (Some s) (initEditor E) = Inr E' \<and> good E' \<and>
     lines_of E' = file_lines s \<and> filerow E' = 0 \<and> filecol E' = 0"
proof -
  have inv: "ed_inv (initEditor E)" using w(1) by (intro initEditor_inv) simp
  from editorOpen_ok [OF inv f, of fname] obtain E' where E':
    "editorOpen fname (Some s) (initEditor E) = Inr E'" "ed_inv E'" "lines_of E' = file_lines s"
    "same_view ((initEditor E)\<lparr>efilename := fname\<rparr>) E'" by auto
  have pos: "rowoff E' = 0" "cy E' = 0" "coloff E' = 0" "cx E' = 0" "cols E' = cols E"
     "startrow E' = startrow E" "endrow E' = endrow E"
    using E'(4) by (simp_all add: same_view_def initEditor_def)
  then have "good E'"
    using E'(2) w by (simp add: good_def file_pos_def screen_pos_def filerow_def filecol_def)
  with E' pos show ?thesis by (simp add: filerow_def filecol_def)
qed

lemma NL_strip_eol: "NL \<notin> set t \<Longrightarrow> NL \<notin> set (strip_eol t)"
  by (auto simp: strip_eol_def dest: in_set_butlastD)

lemma clean_file_lines: "clean (file_lines s)"
proof (induction s rule: raw_lines.induct)
  case (1 s)
  show ?case
  proof (cases "s = []")
    case True
    then show ?thesis by (simp add: file_lines_def raw_lines.simps)
  next
    case False
    then show ?thesis
    proof (cases rule: getline_shape)
      case (1 t r)
      have "clean (file_lines r)" using "1.IH" [OF False] 1(2) by simp
      with 1 False show ?thesis
        by (simp add: file_lines_def raw_lines.simps [of s])
    next
      case 2
      with False show ?thesis
        by (simp add: file_lines_def raw_lines.simps [of s] raw_lines.simps [of "[]"] NL_strip_eol)
    qed
  qed
qed

lemma save_reload:
  assumes g: "good E" "clean (lines_of E)" "list_all fits (lines_of E)"
    and w: "\<forall>s. esyntax F = Some s \<longrightarrow> wf_syntax s" "0 < cols F" "startrow F < endrow F"
  shows "\<exists>s E' F'. editorSaveToDisk True old E = Inr (s, E') \<and> dirty E' = 0 \<and>
     editorOpen fname (Some s) (initEditor F) = Inr F' \<and> good F' \<and> lines_of F' = lines_of E"
proof -
  let ?s = "unlines (lines_of E)"
  have fl: "file_lines ?s = lines_of E" using g(2) by (simp add: clean_def file_lines_unlines)
  from opened_good [OF w, of ?s fname] g(3) fl obtain F' where
    "editorOpen fname (Some ?s) (initEditor F) = Inr F'" "good F'" "lines_of F' = lines_of E" by auto
  moreover have "editorSaveToDisk True old E = Inr (?s, E\<lparr>dirty := 0\<rparr>)"
    using good_D(1) [OF g(1)]
    by (simp add: editorSaveToDisk_def editorRowsToString_eq write_at_start_def)
  ultimately show ?thesis by auto
qed

section \<open>Inverse keys\<close>

lemma put_line_same: "k < length ls \<Longrightarrow> put_line k t ls = ls[k := t]"
  by (simp add: put_line_def)

lemma type_backspace:
  assumes g: "good E" and r: "roomy E"
  shows "\<exists>E1 E2. editorInsertChar c E = Inr E1 \<and> editorDelChar E1 = Inr E2 \<and> good E2 \<and>
     lines_of E2 = (if on_row E then lines_of E else lines_of E @ [[]]) \<and>
     filerow E2 = filerow E \<and> filecol E2 = filecol E"
proof -
  let ?k = "nat (filerow E)" and ?c = "nat (filecol E)"
  let ?t = "nth_line (lines_of E) ?k"
  note D = good_D [OF g]
  have n: "numrows E = length (erows E)" using D(1) by (rule ed_inv_length)
  from insert_good [OF g r, of c] obtain E1 where E1: "editorInsertChar c E = Inr E1" "good E1"
    "keeps_window E E1" "lines_of E1 = put_line ?k (text_insert ?c c ?t) (lines_of E)"
    "filerow E1 = filerow E" "filecol E1 = filecol E + 1" by blast
  have len: "?k < length (lines_of E1)" and at: "lines_of E1 ! ?k = text_insert ?c c ?t"
    using E1(4) cursor_line(2) [OF g] by (auto simp: put_line_def nth_append)
  have n1: "numrows E1 = length (lines_of E1)" using ed_inv_length [OF good_D(1) [OF E1(2)]] by simp
  have "fits (lines_of E1 ! nat (filerow E1))" using roomy_insert [OF r g, of c] at E1(5) by simp
  with del_in_line [OF E1(2)] E1(5,6) D(2,4) len n1 obtain E2 where E2:
    "editorDelChar E1 = Inr E2" "good E2"
    "lines_of E2 = (lines_of E1)[?k := text_delete ?c (lines_of E1 ! ?k)]"
    "filerow E2 = filerow E" "filecol E2 = filecol E" by (auto simp: nat_less_iff)
  have "lines_of E2 = (lines_of E1)[?k := ?t]"
    using E2(3) at cursor_line(1) [OF g] by (simp add: text_delete_insert)
  also have "\<dots> = (if on_row E then lines_of E else lines_of E @ [[]])"
  proof (cases "on_row E")
    case True
    then have "?k < length (lines_of E)" using D(2) n by (simp add: on_row_def nat_less_iff)
    with True E1(4) show ?thesis
      by (simp add: put_line_def nth_line_def list_update_id del: nth_lines length_lines)
  next
    case False
    then have "?k = length (lines_of E)" using good_no_row(1) [OF g] n by (simp add: on_row_def)
    with False E1(4) show ?thesis by (simp add: put_line_def nth_line_def del: length_lines)
  qed
  finally show ?thesis using E1(1) E2 by blast
qed

lemma enter_backspace:
  assumes g: "good E" and r: "roomy E" and o: "on_row E"
  shows "\<exists>E1 E2. editorInsertNewline E = Inr E1 \<and> editorDelChar E1 = Inr E2 \<and>
     lines_of E1 = split_line (nat (filerow E)) (nat (filecol E)) (lines_of E) \<and>
     lines_of E2 = lines_of E \<and> filerow E2 = filerow E \<and> filecol E2 = filecol E"
proof -
  let ?k = "nat (filerow E)" and ?c = "nat (filecol E)"
  note D = good_D [OF g] and K = good_row [OF g o [unfolded on_row_def]]
  have k: "?k < length (lines_of E)" using K(1) ed_inv_length [OF D(1)] by simp
  from editorInsertNewline_ok [OF g roomy_all_fits [OF r]] obtain E1 where E1:
    "editorInsertNewline E = Inr E1" "good E1" "lines_of E1 = split_line ?k ?c (lines_of E)"
    "filerow E1 = filerow E + 1" "filecol E1 = 0" by auto
  note S = split_line_nth [OF k, of ?c]
  have n1: "numrows E1 = Suc (length (lines_of E))"
    using ed_inv_length [OF good_D(1) [OF E1(2)]] E1(3) S(3) by (metis length_lines)
  have fr: "nat (filerow E1) = Suc ?k" using E1(4) D(2) by simp
  have "fits (lines_of E1 ! (nat (filerow E1) - 1) @ lines_of E1 ! nat (filerow E1))"
    using roomy_fits [OF r, of ?k] k fr E1(3) S by simp
  with del_join [OF E1(2) _ E1(5)] fr n1 K(1) ed_inv_length [OF D(1)] o [unfolded on_row_def] D(2) E1(4) obtain E2 where E2:
    "editorDelChar E1 = Inr E2" "lines_of E2 = join_lines (Suc ?k) (lines_of E1)"
    "filerow E2 = filerow E" "filecol E2 = int (length (lines_of E1 ! ?k))" by auto
  have "lines_of E2 = lines_of E"
    using E2(2) E1(3) S k id_take_nth_drop [OF k]
    by (simp add: join_lines_def split_line_def nth_append)
  moreover have "filecol E2 = filecol E"
    using E2(4) E1(3) S(1) D(4,5) K(3) by (auto simp: min_def nat_le_iff)
  ultimately show ?thesis using E1(1,3) E2 by blast
qed

lemma right_left:
  assumes g: "good E" and t: "tall E" and o: "on_row E"
  shows "\<exists>E1 E2. editorMoveCursor RIGHT E = Inr E1 \<and> editorMoveCursor LEFT E1 = Inr E2 \<and>
     good E2 \<and> same_buffer E E2 \<and> filerow E2 = filerow E \<and> filecol E2 = filecol E"
proof -
  note D = good_D [OF g] and K = good_row [OF g o [unfolded on_row_def]]
  show ?thesis
  proof (cases "filecol E = cur_len E")
    case True
    with wrap_back [OF g t o [unfolded on_row_def]] show ?thesis by auto
  next
    case False
    with D(5) o move_right_good [OF g] obtain E1 where E1: "editorMoveCursor RIGHT E = Inr E1" "good E1"
      "same_buffer E E1" "filerow E1 = filerow E" "filecol E1 = filecol E + 1"
      by (auto simp: on_row_def)
    then have "\<not> left_escapes E1" using D(4) by (intro not_escaping) simp
    from move_left_good [OF E1(2) this] E1 D(4) show ?thesis
      by (auto intro: same_buffer_trans)
  qed
qed

section \<open>An example buffer\<close>

definition demo_editor :: editorConfig where
  "demo_editor = \<lparr>cx = 1, cy = 0, startcol = 0, cols = 20, startrow = 0, endrow = 4, rowoff = 0, coloff = 0,
     numrows = 2,
     erows = [\<lparr>r_idx = 0, r_size = 2, r_chars = ''ab'' @ [NUL], r_render = ''ab'',
                r_hl = [HL_NORMAL, HL_NORMAL], r_hl_oc = False\<rparr>,
              \<lparr>r_idx = 1, r_size = 3, r_chars = ''  c'' @ [NUL], r_render = ''  c'',
                r_hl = [HL_NORMAL, HL_NORMAL, HL_NORMAL], r_hl_oc = False\<rparr>],
     dirty = 0, efilename = ''a'', esyntax = Some LuaSyntax\<rparr>"

lemma demo_lines [simp]: "lines_of demo_editor = [''ab'', ''  c'']"
  by (simp add: demo_editor_def lines_of_def row_text_def)

lemma less_two: "(k::nat) < 2 \<longleftrightarrow> k = 0 \<or> k = 1"
  by auto

lemma demo_pos [simp]: "filerow demo_editor = 0" "filecol demo_editor = 1" "cols demo_editor = 20"
  "numrows demo_editor = 2" "on_row demo_editor" "tall demo_editor" "page_full demo_editor = False"
  "rowoff demo_editor = 0"
  by (simp_all add: demo_editor_def filerow_def filecol_def on_row_def tall_def page_full_def page_height_def)

lemma demo_syntax: "multiline_comment_end LuaSyntax \<noteq> None"
  by (simp add: LuaSyntax_def)

lemma demo_ed_inv [simp]: "ed_inv demo_editor"
  by (auto simp: ed_inv_def rows_inv_def demo_editor_def less_two row_shape_def hl_shape_def numeral_2_eq_2 less_Suc_eq demo_syntax)

lemma demo_cx: "cx demo_editor = 1"
  by (simp add: demo_editor_def)

lemma demo_good [simp]: "good demo_editor"
  by (simp add: good_def file_pos_def cur_len_def) (simp add: demo_editor_def screen_pos_def)

lemma demo_roomy [simp]: "roomy demo_editor" "clean (lines_of demo_editor)"
  by (simp_all add: roomy_def)

section \<open>Properties\<close>

text \<open>C1: Take any file whose lines fit the renderer's 32-bit allocation, opened in a window
  with at least one row and column.  Every state that a sequence of keys reaches, each pressed
  where it is safe, has the cursor inside the text and inside the window and no newline inside a
  line; and there every safe key returns (no access outside a row, no failing assertion, no
  loop that runs on).\<close>

theorem session_invariant:
  assumes "\<forall>s. esyntax E0 = Some s \<longrightarrow> wf_syntax s" "0 < cols E0" "startrow E0 < endrow E0"
    and "list_all fits (file_lines s)" "editorOpen fname (Some s) (initEditor E0) = Inr E"
    and "edits E E'"
  shows "good E' \<and> clean (lines_of E') \<and>
     (\<forall>c. roomy E' \<longrightarrow> key_safe c E' \<longrightarrow> (\<exists>E''. editorProcessKey c E' = Inr E'' \<and> good E''))"
proof -
  have "good E" "clean (lines_of E)"
    using opened_good [OF assms(1-4), of fname] assms(5) clean_file_lines by auto
  with edits_good [OF assms(6)] editorProcessKey_good [of E'] show ?thesis
    unfolding stays_good_def by metis
qed

theorem session_invariant_witness:
  "\<exists>E1 E2. editorOpen ''a'' (Some (''ab'' @ [NL])) (initEditor demo_editor) = Inr E1 \<and>
     editorProcessKey (Byte 120) E1 = Inr E2 \<and> edits E1 E2 \<and> good E2 \<and> clean (lines_of E2)"
proof -
  let ?s = "''ab'' @ [NL]"
  have w: "\<forall>s. esyntax demo_editor = Some s \<longrightarrow> wf_syntax s" "0 < cols demo_editor"
    "startrow demo_editor < endrow demo_editor"
    by (simp_all add: demo_editor_def)
  have fl: "file_lines ?s = [''ab'']"
    using file_lines_unlines [of "[''ab'']"] by (simp add: unlines_def)
  then have fit: "list_all fits (file_lines ?s)" by (simp add: fits_def)
  from opened_good [OF w fit, of "''a''"] obtain E1 where E1:
    "editorOpen ''a'' (Some ?s) (initEditor demo_editor) = Inr E1" "good E1" "lines_of E1 = [''ab'']"
    using fl by auto
  have safe: "roomy E1" "key_safe (Byte 120) E1" using E1(3) by (simp_all add: roomy_def)
  with session_invariant [OF w fit E1(1) edits_none] obtain E2 where
    E2: "editorProcessKey (Byte 120) E1 = Inr E2" by blast
  have "edits E1 E2" using edits_key [OF edits_none safe E2] .
  with session_invariant [OF w fit E1(1) this] E1(1) E2 show ?thesis by blast
qed



text \<open>A character typed and deleted again leaves the text and the cursor as they were;
  below the last line, where typing creates the line, an empty line stays behind.\<close>

theorem type_then_backspace:
  assumes "good E" "roomy E"
  shows "\<exists>E1 E2. editorInsertChar c E = Inr E1 \<and> editorDelChar E1 = Inr E2 \<and> good E2 \<and>
     lines_of E2 = (if on_row E then lines_of E else lines_of E @ [[]]) \<and>
     filerow E2 = filerow E \<and> filecol E2 = filecol E"
  using assms by (rule type_backspace)

theorem type_then_backspace_witness:
  "\<exists>E1 E2. editorInsertChar CHR ''x'' demo_editor = Inr E1 \<and> editorDelChar E1 = Inr E2 \<and>
     good E2 \<and> lines_of E2 = [''ab'', ''  c''] \<and> filecol E2 = 1"
  using type_then_backspace [of demo_editor "CHR ''x''"] by auto

text \<open>Splitting a line with a newline and deleting it again joins the two halves: the text
  and the cursor's place in it are as before.\<close>

theorem newline_then_backspace:
  assumes "good E" "roomy E" "on_row E"
  shows "\<exists>E1 E2. editorInsertNewline E = Inr E1 \<and> editorDelChar E1 = Inr E2 \<and>
     lines_of E1 = split_line (nat (filerow E)) (nat (filecol E)) (lines_of E) \<and>
     lines_of E2 = lines_of E \<and> filerow E2 = filerow E \<and> filecol E2 = filecol E"
  using assms by (rule enter_backspace)

theorem newline_then_backspace_witness:
  "\<exists>E1 E2. editorInsertNewline demo_editor = Inr E1 \<and> editorDelChar E1 = Inr E2 \<and>
     lines_of E1 = [''a'', ''b'', ''  c''] \<and> lines_of E2 = [''ab'', ''  c''] \<and> filecol E2 = 1"
  using newline_then_backspace [of demo_editor] by (auto simp: split_line_def)

text \<open>On a line that is not commented, the comment toggle inserts the marker, and toggled
  again removes it: the text is as before and the cursor is at the start of the line.\<close>

theorem comment_toggle:
  assumes "good E" "on_row E" "4 < cols E" "roomy E"
    and "9 * length (lines_of E ! nat (filerow E)) + 136 < 2 ^ 31"
    and "\<not> starts_with (c_str (lines_of E ! nat (filerow E))) ''--? ''"
  shows "\<exists>E1 E2. key_slash E = Inr E1 \<and> key_slash E1 = Inr E2 \<and> good E2 \<and>
     lines_of E1 ! nat (filerow E) = ''--? '' @ lines_of E ! nat (filerow E) \<and>
     lines_of E2 = lines_of E \<and> filerow E2 = filerow E \<and> filecol E2 = 0"
proof -
  let ?k = "nat (filerow E)"
  note D = good_D [OF assms(1)] and o = assms(2) [unfolded on_row_def]
  have k: "?k < length (lines_of E)"
    using good_row(1) [OF assms(1) o] ed_inv_length [OF D(1)] by simp
  from key_slash_ok [OF assms(1) o assms(3,4)] assms(6) obtain E1 where E1:
    "key_slash E = Inr E1" "good E1" "keeps_window E E1" "filerow E1 = filerow E" "filecol E1 = 0"
    "lines_of E1 = (lines_of E)[?k := ''--? '' @ lines_of E ! ?k]" by auto
  have l1: "lines_of E1 ! ?k = ''--? '' @ lines_of E ! ?k" using E1(6) k by simp
  have "list_all (\<lambda>t. 9 * length t + 100 < 2 ^ 31) (lines_of E1)"
    using assms(4,5) set_update_subset_insert [of "lines_of E" ?k] unfolding E1(6)
    by (fastforce simp: roomy_def list_all_iff)
  then have r1: "roomy E1" by (simp add: roomy_def)
  have "length (lines_of E1) = length (lines_of E)" using E1(6) by simp
  then have o1: "filerow E1 < int (numrows E1)"
    using ed_inv_length [OF good_D(1) [OF E1(2)]] ed_inv_length [OF D(1)] E1(4) o by simp
  have "starts_with (c_str (lines_of E1 ! ?k)) ''--? ''"
    unfolding l1 by (simp add: c_str_def starts_with_def)
  with key_slash_ok [OF E1(2) o1 _ r1] E1(3,4) assms(3) obtain E2 where E2:
    "key_slash E1 = Inr E2" "good E2" "filerow E2 = filerow E" "filecol E2 = 0"
    "lines_of E2 = (lines_of E1)[?k := drop 4 (lines_of E1 ! ?k)]"
    by (auto simp: keeps_window_def)
  have "lines_of E2 = lines_of E" using E2(5) l1 E1(6) k by (simp del: nth_lines)
  with E1(1) E2 l1 show ?thesis by blast
qed

theorem comment_toggle_witness:
  "\<exists>E1 E2. key_slash demo_editor = Inr E1 \<and> key_slash E1 = Inr E2 \<and> good E2 \<and>
     lines_of E1 ! 0 = ''--? ab'' \<and> lines_of E2 = [''ab'', ''  c''] \<and> filecol E2 = 0"
  using comment_toggle [of demo_editor] by (auto simp: starts_with_def c_str_def)

text \<open>C18: Enter splits the line at the cursor and copies the leading spaces of the part
  before it to the front of the new line; the cursor goes to the new line, to the column right
  behind the copied spaces, so that it stays in front of what followed it.  On the line below the
  last it adds an empty line.  Required is a well-formed editor whose lines are short enough for
  the C integers (\<open>roomy\<close>).\<close>

theorem enter_splits_and_indents:
  assumes "good E" "roomy E"
  shows "\<exists>E'. editorProcessKey (Byte 10) E = Inr E' \<and> good E' \<and>
     lines_of E' = enter_lines (nat (filerow E)) (nat (filecol E)) (lines_of E) \<and>
     filerow E' = filerow E + 1 \<and>
     filecol E' = int (enter_column (nat (filerow E)) (nat (filecol E)) (lines_of E))"
  using key_enter_ok [OF assms] by (auto simp: editorProcessKey_def)

theorem enter_splits_and_indents_witness:
  "\<exists>E'. editorProcessKey (Byte 10) demo_editor = Inr E' \<and> good E' \<and>
     lines_of E' = [''a'', ''b'', ''  c''] \<and> filerow E' = 1 \<and> filecol E' = 0"
  using enter_splits_and_indents [of demo_editor]
  by (simp add: enter_lines_def enter_column_def leading_spaces_def)



text \<open>On a line of the text, control-K deletes from the cursor to the end of the line and
  control-U from the start of the line to the cursor; the loops end and nothing else changes.\<close>

theorem kill_line_parts:
  assumes "good E" "roomy E" "tall E" "on_row E"
  shows "\<exists>E' E''. editorProcessKey (Byte 11) E = Inr E' \<and> good E' \<and>
     lines_of E' = (lines_of E)[nat (filerow E) := take (nat (filecol E)) (lines_of E ! nat (filerow E))] \<and>
     filerow E' = filerow E \<and> filecol E' = filecol E \<and>
     editorProcessKey (Byte 21) E = Inr E'' \<and> good E'' \<and>
     lines_of E'' = (lines_of E)[nat (filerow E) := drop (nat (filecol E)) (lines_of E ! nat (filerow E))] \<and>
     filerow E'' = filerow E \<and> filecol E'' = 0"
proof -
  note g = assms(1) and o = assms(4) [unfolded on_row_def]
  have f: "fits (lines_of E ! nat (filerow E))"
    using roomy_fits [OF assms(2), of "nat (filerow E)"] good_row(1) [OF g o]
      ed_inv_length [OF good_D(1) [OF g]] by simp
  from right_until_wrap_kill [OF g assms(3) o f fuel_enough(2) [OF g]]
    until_start_del [OF g o f fuel_enough(1) [OF g]]
  show ?thesis by (auto simp: editorProcessKey_def)
qed

theorem kill_line_parts_witness:
  "\<exists>E' E''. editorProcessKey (Byte 11) demo_editor = Inr E' \<and> lines_of E' = [''a'', ''  c''] \<and>
     editorProcessKey (Byte 21) demo_editor = Inr E'' \<and> lines_of E'' = [''b'', ''  c'']"
  using kill_line_parts [of demo_editor] by auto

text \<open>The four cursor keys: left and right walk through the text in reading order, up and
  down change the line and keep the column as far as the line reaches; the text is untouched.\<close>

theorem cursor_keys:
  assumes "good E" "\<not> left_escapes E"
  shows "\<exists>L R U D. editorProcessKey KEY_LEFT E = Inr L \<and> editorProcessKey KEY_RIGHT E = Inr R \<and>
     editorProcessKey KEY_UP E = Inr U \<and> editorProcessKey KEY_DOWN E = Inr D \<and>
     list_all (\<lambda>F. good F \<and> same_buffer E F) [L, R, U, D] \<and>
     (filerow L, filecol L) = (if filecol E > 0 then (filerow E, filecol E - 1)
        else if filerow E > 0 then (filerow E - 1, cur_len L) else (0, 0)) \<and>
     (filerow R, filecol R) = (if filerow E = int (numrows E) then (filerow E, filecol E)
        else if filecol E < cur_len E then (filerow E, filecol E + 1) else (filerow E + 1, 0)) \<and>
     (filerow U, filecol U) = (max 0 (filerow E - 1), min (filecol E) (cur_len U)) \<and>
     (filerow D, filecol D) =
       (if filerow E < int (numrows E) - 1 then filerow E + 1 else filerow E, min (filecol E) (cur_len D))"
proof -
  from move_left_good [OF assms] obtain L where L: "editorMoveCursor LEFT E = Inr L" "good L"
    "same_buffer E L" "(filerow L, filecol L) = (if filecol E > 0 then (filerow E, filecol E - 1)
        else if filerow E > 0 then (filerow E - 1, cur_len L) else (0, 0))" by (auto split: if_splits)
  from move_right_good [OF assms(1)] obtain R where R: "editorMoveCursor RIGHT E = Inr R" "good R"
    "same_buffer E R" "(filerow R, filecol R) = (if filerow E = int (numrows E) then (filerow E, filecol E)
        else if filecol E < cur_len E then (filerow E, filecol E + 1) else (filerow E + 1, 0))"
    by (auto split: if_splits)
  from move_up_good [OF assms(1)] move_down_good [OF assms(1)] L R show ?thesis
    unfolding editorProcessKey_def key.case by (auto simp del: prod.inject)
qed

theorem cursor_keys_witness:
  "\<exists>L R. editorProcessKey KEY_LEFT demo_editor = Inr L \<and> editorProcessKey KEY_RIGHT demo_editor = Inr R \<and>
     filecol L = 0 \<and> filecol R = 2 \<and> good L \<and> good R"
  using cursor_keys [of demo_editor] by (auto simp: left_escapes_def demo_cx cur_len_def)

section \<open>Keys that leave the safe region\<close>

text \<open>
  Left at the start of the top line of a scrolled window puts the cursor above the window;
  up then reads the row before the first.
\<close>

lemma left_then_up_reads_outside:
  "let E = demo_editor\<lparr>rowoff := 1, cx := 0\<rparr> in
   good E \<and> (\<exists>E1. editorProcessKey KEY_LEFT E = Inr E1 \<and> cy E1 = -1 \<and>
     editorProcessKey KEY_UP E1 = Inl OutOfBounds)"
proof -
  let ?E = "demo_editor\<lparr>rowoff := 1, cx := 0\<rparr>"
  have "ed_inv ?E" using demo_ed_inv by (simp add: ed_inv_def rows_inv_def)
  moreover have "lines_of ?E = [''ab'', ''  c'']"
    using demo_lines by (simp add: lines_of_def)
  ultimately have "good ?E"
    by (simp add: good_def file_pos_def cur_len_def filerow_def filecol_def screen_pos_def)
      (simp add: demo_editor_def)
  moreover have "\<exists>E1. editorProcessKey KEY_LEFT ?E = Inr E1 \<and> cy E1 = -1 \<and>
     editorProcessKey KEY_UP E1 = Inl OutOfBounds"
    by (simp add: editorProcessKey_def editorMoveCursor_def move_left_def move_up_def fix_column_def
        row_length_def row_at_def row_size_def natR_def filerow_def filecol_def demo_editor_def nthR_def)
  ultimately show ?thesis by simp
qed

text \<open>
  Joining with a line wider than the window: the correction is computed with the wrong sign
  and scrolls to a negative column, at which the screen refresh reads the line.
\<close>

lemma join_scrolls_negative:
  assumes "good E" "on_row E" "filecol E = 0" "0 < filerow E" "cols E + 1 < int n"
  shows "coloff (cursor_joined (int n) E) < 0 \<and> cols E < cx (cursor_joined (int n) E) \<and>
     cursor_column (cursor_joined (int n) E) = Inl OutOfBounds"
proof -
  note D = good_D [OF assms(1)]
  have k: "nat (filerow E - 1) < length (erows E)"
    using assms(2) D(2) ed_inv_length [OF D(1)] by (simp add: on_row_def nat_less_iff)
  have c0: "coloff E = 0" using assms(3) D(8,9) by (simp add: filecol_def)
  then have "coloff (cursor_joined (int n) E) = cols E - int n + 1"
    "cx (cursor_joined (int n) E) = 2 * int n - cols E - 1"
    using assms(5) D(9,10) by (simp_all add: cursor_joined_def Let_def)
  moreover have "filerow (cursor_joined (int n) E) = filerow E - 1"
    "erows (cursor_joined (int n) E) = erows E" "numrows (cursor_joined (int n) E) = numrows E"
    by (simp_all add: cursor_joined_def filerow_def Let_def)
  ultimately show ?thesis using k assms(2,4,5)
    by (simp add: cursor_column_def row_at_def natR_def on_row_def nthR_def)
qed

text \<open>
  Page down in a buffer shorter than the window leaves the cursor past the end; Enter there
  reads a row that does not exist.
\<close>

lemma page_down_then_enter_reads_outside:
  "\<exists>E1. editorProcessKey KEY_NPAGE (demo_editor\<lparr>cx := 0\<rparr>) = Inr E1 \<and> filerow E1 = 3 \<and>
     editorProcessKey (Byte 10) E1 = Inl OutOfBounds"
  by (simp add: editorProcessKey_def key_page_def editorMoveCursor_def move_down_def fix_column_def
        row_length_def row_at_def row_size_def natR_def filerow_def filecol_def demo_editor_def nthR_def
        numeral_eq_Suc Let_def key_enter_def editorInsertNewline_def)

text \<open>The comment toggle below the last line reads a row that does not exist.\<close>

lemma comment_below_last_line:
  "good (demo_editor\<lparr>cx := 0, cy := 2\<rparr>) \<and>
   editorProcessKey (Byte 31) (demo_editor\<lparr>cx := 0, cy := 2\<rparr>) = Inl OutOfBounds"
proof -
  let ?E = "demo_editor\<lparr>cx := 0, cy := 2\<rparr>"
  have "ed_inv ?E" using demo_ed_inv by (simp add: ed_inv_def rows_inv_def)
  then show ?thesis
    by (simp add: good_def file_pos_def cur_len_def filerow_def filecol_def screen_pos_def)
      (simp add: demo_editor_def editorProcessKey_def key_slash_def filerow_def natR_def nthR_def)
qed

text \<open>A function key whose curses code ends in the byte 10 puts a newline inside a line.\<close>

lemma function_key_inserts_newline:
  "\<exists>E'. editorProcessKey (KEY_OTHER 266) demo_editor = Inr E' \<and> \<not> clean (lines_of E')"
proof -
  have "char_of (266 :: nat) = NL" by (simp add: char_of_def)
  with insert_good [OF demo_good demo_roomy(1), of NL] show ?thesis
    by (auto simp: editorProcessKey_def put_line_def nth_line_def text_insert_def)
qed

end
