(* ===== verification/Find.thy ===== *)
theory Find
  imports EditorKeys
begin

text \<open>
  The find mode of the editor, \<open>editorFind\<close> in \<^verbatim>\<open>src/src/kilo.c\<close>: an incremental
  search that moves the cursor and overwrites part of the highlighting of the row it is on, and
  gives both back when the search is cancelled.
\<close>

section \<open>State\<close>

definition KILO_QUERY_LEN :: nat where
  "KILO_QUERY_LEN = 256"

record find_state =
  query :: string
  last_match :: int
  find_next :: int
  saved_hl_line :: int
  saved_hl :: "hltype list option"

definition find_start :: find_state where
  "find_start = \<lparr>query = [], last_match = -1, find_next = 0, saved_hl_line = -1, saved_hl = None\<rparr>"

text \<open>\<open>FIND_RESTORE_HL\<close>; a row's \<open>rsize\<close> is the length of its rendering.\<close>

definition find_restore_hl :: "editorConfig \<Rightarrow> find_state \<Rightarrow> (editorConfig \<times> find_state) res" where
  "find_restore_hl E F =
     (case saved_hl F of
        None \<Rightarrow> Inr (E, F)
      | Some h \<Rightarrow>
          bindR (natR (saved_hl_line F)) (\<lambda>k.
          bindR (nthR (erows E) k) (\<lambda>r.
          let rsize = length (r_render r) in
          if rsize \<le> length h \<and> rsize \<le> length (r_hl r) then
            Inr (set_row E k (r\<lparr>r_hl := take rsize h @ drop rsize (r_hl r)\<rparr>), F\<lparr>saved_hl := None\<rparr>)
          else Inl OutOfBounds)))"

text \<open>The loop over the rows: at most one round of the file, in steps of \<open>step\<close>.\<close>

fun find_scan :: "nat \<Rightarrow> int \<Rightarrow> int \<Rightarrow> string \<Rightarrow> editorConfig \<Rightarrow> (int \<times> nat option) res" where
  "find_scan 0 step current q E = Inr (current, None)"
| "find_scan (Suc n) step current q E =
     (let c1 = current + step;
          c = (if c1 = -1 then int (numrows E) - 1 else if c1 = int (numrows E) then 0 else c1)
      in bindR (natR c) (\<lambda>k.
         bindR (nthR (erows E) k) (\<lambda>r.
         case strstr (c_str (r_render r)) q of
           Some off \<Rightarrow> Inr (c, Some off)
         | None \<Rightarrow> find_scan n step c q E)))"

definition find_show :: "int \<Rightarrow> nat \<Rightarrow> editorConfig \<Rightarrow> find_state \<Rightarrow> (editorConfig \<times> find_state) res" where
  "find_show current off E F =
     bindR (natR current) (\<lambda>k.
     bindR (nthR (erows E) k) (\<lambda>r.
     bindR (memsetR (r_hl r) off HL_MATCH (length (query F))) (\<lambda>h.
     let E1 = (set_row E k (r\<lparr>r_hl := h\<rparr>))\<lparr>cy := 0, cx := int off, rowoff := current, coloff := 0\<rparr>;
         E2 = (if cx E1 > cols E1 then
                 let diff = cx E1 - cols E1 in E1\<lparr>cx := cx E1 - diff, coloff := coloff E1 + diff\<rparr>
               else E1)
     in Inr (E2, F\<lparr>last_match := current, saved_hl_line := current, saved_hl := Some (r_hl r)\<rparr>))))"

definition find_search :: "editorConfig \<Rightarrow> find_state \<Rightarrow> (editorConfig \<times> find_state) res" where
  "find_search E F =
     (let step = (if last_match F = -1 then 1 else find_next F) in
      if step = 0 then Inr (E, F)
      else bindR (find_scan (numrows E) step (last_match F) (query F) E) (\<lambda>(current, m).
           bindR (find_restore_hl E (F\<lparr>find_next := 0\<rparr>)) (\<lambda>(E, F).
           case m of None \<Rightarrow> Inr (E, F) | Some off \<Rightarrow> find_show current off E F)))"

definition find_printable :: "nat \<Rightarrow> bool" where
  "find_printable b \<longleftrightarrow> 32 \<le> b \<and> b < 127"

text \<open>What a key other than the two that end the search does to the query.\<close>

definition find_edit :: "key \<Rightarrow> find_state \<Rightarrow> find_state" where
  "find_edit c F =
     (case c of
        KEY_BACKSPACE \<Rightarrow> F\<lparr>query := butlast (query F), last_match := -1\<rparr>
      | KEY_RIGHT \<Rightarrow> F\<lparr>find_next := 1\<rparr>
      | KEY_DOWN \<Rightarrow> F\<lparr>find_next := 1\<rparr>
      | KEY_LEFT \<Rightarrow> F\<lparr>find_next := -1\<rparr>
      | KEY_UP \<Rightarrow> F\<lparr>find_next := -1\<rparr>
      | Byte b \<Rightarrow>
          if b = 127 \<or> b = 8 then F\<lparr>query := butlast (query F), last_match := -1\<rparr>
          else if b = 21 then F\<lparr>query := []\<rparr>
          else if find_printable b \<and> length (query F) < KILO_QUERY_LEN
          then F\<lparr>query := query F @ [char_of b], last_match := -1\<rparr>
          else F
      | KEY_PPAGE \<Rightarrow> F
      | KEY_NPAGE \<Rightarrow> F
      | KEY_OTHER n \<Rightarrow> F)"

text \<open>Keys until the search ends; \<open>saved\<close> is the editor when it began.  The flag says whether it
  has ended.\<close>

fun find_loop :: "editorConfig \<Rightarrow> key list \<Rightarrow> editorConfig \<Rightarrow> find_state \<Rightarrow> (bool \<times> editorConfig) res" where
  "find_loop saved [] E F = Inr (False, E)"
| "find_loop saved (c # cs) E F =
     (if c = Byte 24 \<or> c = Byte 10 then
        bindR (find_restore_hl
          (if c = Byte 24
           then E\<lparr>cx := cx saved, cy := cy saved, rowoff := rowoff saved, coloff := coloff saved\<rparr>
           else E) F) (\<lambda>(E, F). Inr (True, E))
      else bindR (find_search E (find_edit c F)) (\<lambda>(E, F). find_loop saved cs E F))"

definition editorFind :: "key list \<Rightarrow> editorConfig \<Rightarrow> (bool \<times> editorConfig) res" where
  "editorFind cs E = find_loop E cs E find_start"

section \<open>Searching changes only what it gives back\<close>

text \<open>The rows are the original ones, except for the highlighting of the row saved.\<close>

definition hl_overlay :: "editorConfig \<Rightarrow> find_state \<Rightarrow> erow list \<Rightarrow> bool" where
  "hl_overlay E0 F rows \<longleftrightarrow>
     (case saved_hl F of
        None \<Rightarrow> rows = erows E0
      | Some h \<Rightarrow> \<exists>k h'. saved_hl_line F = int k \<and> k < length (erows E0) \<and> h = r_hl (erows E0 ! k) \<and>
          length h' = length h \<and> rows = (erows E0)[k := (erows E0 ! k)\<lparr>r_hl := h'\<rparr>])"

definition at_cursor :: "editorConfig \<Rightarrow> int \<times> int \<times> int \<times> int \<Rightarrow> editorConfig" where
  "at_cursor E = (\<lambda>(x, y, r, c). E\<lparr>cx := x, cy := y, rowoff := r, coloff := c\<rparr>)"

definition find_inv :: "editorConfig \<Rightarrow> editorConfig \<times> find_state \<Rightarrow> bool" where
  "find_inv E0 = (\<lambda>(E, F).
     (\<exists>p. E = (at_cursor E0 p)\<lparr>erows := erows E\<rparr>) \<and> hl_overlay E0 F (erows E) \<and>
     (last_match F = -1 \<or> 0 \<le> last_match F \<and> last_match F < int (numrows E0)) \<and>
     find_next F \<in> {-1, 0, 1})"

lemma overlay_row:
  assumes "hl_overlay E0 F rows" "k < length (erows E0)"
  shows "length rows = length (erows E0)" "r_render (rows ! k) = r_render (erows E0 ! k)"
    "length (r_hl (rows ! k)) = length (r_hl (erows E0 ! k))"
    "rows ! k = (erows E0 ! k)\<lparr>r_hl := r_hl (rows ! k)\<rparr>"
  using assms by (auto simp: hl_overlay_def nth_list_update split: option.splits)

lemma restore_overlay:
  assumes "ed_inv E0" "hl_overlay E0 F (erows E)"
  shows "find_restore_hl E F = Inr (E\<lparr>erows := erows E0\<rparr>, F\<lparr>saved_hl := None\<rparr>)"
proof (cases "saved_hl F")
  case None
  with assms(2) have "E\<lparr>erows := erows E0\<rparr> = E" "F\<lparr>saved_hl := None\<rparr> = F"
    by (auto simp: hl_overlay_def)
  with None show ?thesis by (simp add: find_restore_hl_def)
next
  case (Some h)
  with assms(2) obtain k h' where k: "saved_hl_line F = int k" "k < length (erows E0)"
    "h = r_hl (erows E0 ! k)" "length h' = length h"
    "erows E = (erows E0)[k := (erows E0 ! k)\<lparr>r_hl := h'\<rparr>]"
    by (auto simp: hl_overlay_def)
  have "length h = length (r_render (erows E0 ! k))"
    using assms(1) k(2,3) by (auto simp: ed_inv_def rows_inv_def hl_shape_def)
  with k Some show ?thesis
    by (simp add: find_restore_hl_def natR_def set_row_def)
qed

lemma find_scan_ok:
  assumes "-1 \<le> current" "current < int (numrows E)" "step \<in> {-1, 1}" "step = -1 \<Longrightarrow> 0 \<le> current"
    "numrows E \<le> length (erows E)" "n > 0 \<Longrightarrow> numrows E > 0"
  shows "\<exists>c m. find_scan n step current q E = Inr (c, m) \<and>
     (\<forall>off. m = Some off \<longrightarrow> 0 \<le> c \<and> c < int (numrows E) \<and>
        strstr (c_str (r_render (erows E ! nat c))) q = Some off)"
  using assms
proof (induction n arbitrary: current)
  case (Suc n)
  define c where "c = (if current + step = -1 then int (numrows E) - 1
    else if current + step = int (numrows E) then 0 else current + step)"
  have c: "0 \<le> c" "c < int (numrows E)" using Suc.prems by (auto simp: c_def)
  then have n: "natR c = Inr (nat c)" "nthR (erows E) (nat c) = Inr (erows E ! nat c)"
    using Suc.prems(5) by (auto simp: natR_def)
  show ?case
  proof (cases "strstr (c_str (r_render (erows E ! nat c))) q")
    case None
    with Suc.IH [of c] Suc.prems c n show ?thesis by (simp add: c_def [symmetric] Let_def)
  next
    case (Some off)
    with c n show ?thesis by (simp add: c_def [symmetric] Let_def)
  qed
qed simp

lemma match_fits:
  assumes "strstr (c_str s) q = Some off"
  shows "off + length q \<le> length s"
proof -
  have "length (c_str s) \<le> length s" by (simp add: c_str_def length_takeWhile_le)
  with strstr_Some [OF assms] show ?thesis by simp
qed

lemma hl_overlay_frame [simp]:
  "hl_overlay E0 (F\<lparr>find_next := x\<rparr>) rows = hl_overlay E0 F rows"
  "hl_overlay E0 (F\<lparr>last_match := x\<rparr>) rows = hl_overlay E0 F rows"
  "hl_overlay E0 (F\<lparr>query := q\<rparr>) rows = hl_overlay E0 F rows"
  by (cases "saved_hl F"; simp add: hl_overlay_def)+

lemma show_overlay:
  assumes "ed_inv E0" "erows E = erows E0" "0 \<le> c" "c < int (numrows E0)"
    "strstr (c_str (r_render (erows E0 ! nat c))) (query F) = Some off"
  shows "\<exists>E1 F1 p. find_show c off E F = Inr (E1, F1) \<and> E1 = (at_cursor E p)\<lparr>erows := erows E1\<rparr> \<and>
    hl_overlay E0 F1 (erows E1) \<and> last_match F1 = c \<and> find_next F1 = find_next F \<and>
    query F1 = query F \<and> cy E1 = 0 \<and> rowoff E1 = c \<and> cx E1 + coloff E1 = int off"
proof -
  let ?r = "erows E0 ! nat c"
  have k: "nat c < length (erows E0)" using assms(1,3,4) ed_inv_length by fastforce
  have "length (r_hl ?r) = length (r_render ?r)"
    using assms(1) k by (auto simp: ed_inv_def rows_inv_def hl_shape_def)
  then have m: "off + length (query F) \<le> length (r_hl ?r)" using match_fits [OF assms(5)] by simp
  then obtain h where h: "memsetR (r_hl ?r) off HL_MATCH (length (query F)) = Inr h"
    and lh: "length h = length (r_hl ?r)" by simp
  have n: "natR c = Inr (nat c)" "nthR (erows E) (nat c) = Inr ?r" using assms(2,3) k by (simp_all add: natR_def)
  define x where "x = (if int off > cols E then (cols E, int off - cols E) else (int off, 0))"
  have s: "find_show c off E F = Inr ((at_cursor E (fst x, 0, c, snd x))\<lparr>erows := (erows E0)[nat c := ?r\<lparr>r_hl := h\<rparr>]\<rparr>,
      F\<lparr>last_match := c, saved_hl_line := c, saved_hl := Some (r_hl ?r)\<rparr>)"
    using n h assms(2) by (simp add: find_show_def set_row_def at_cursor_def x_def Let_def)
  have "hl_overlay E0 (F\<lparr>last_match := c, saved_hl_line := c, saved_hl := Some (r_hl ?r)\<rparr>)
      ((erows E0)[nat c := ?r\<lparr>r_hl := h\<rparr>])"
    using k lh assms(3) unfolding hl_overlay_def by simp (metis int_nat_eq)
  then show ?thesis
    by (intro exI [of _ "(at_cursor E (fst x, 0, c, snd x))\<lparr>erows := (erows E0)[nat c := ?r\<lparr>r_hl := h\<rparr>]\<rparr>"]
        exI [of _ "F\<lparr>last_match := c, saved_hl_line := c, saved_hl := Some (r_hl ?r)\<rparr>"]
        exI [of _ "(fst x, 0, c, snd x)"]) (simp add: s, simp add: at_cursor_def x_def)
qed

lemma at_cursor_twice: "at_cursor (at_cursor E p) q = at_cursor E q"
  by (auto simp: at_cursor_def split: prod.splits)

lemma at_cursor_rows: "(at_cursor (E\<lparr>erows := r\<rparr>) p)\<lparr>erows := r'\<rparr> = (at_cursor E p)\<lparr>erows := r'\<rparr>"
  "((at_cursor E p)\<lparr>erows := r\<rparr>)\<lparr>erows := r'\<rparr> = (at_cursor E p)\<lparr>erows := r'\<rparr>"
  "numrows (at_cursor E p) = numrows E" "erows (at_cursor E p) = erows E"
  by (auto simp: at_cursor_def split: prod.splits)

lemma search_inv:
  assumes "ed_inv E0" "find_inv E0 (E, F)"
  shows "\<exists>E1 F1. find_search E F = Inr (E1, F1) \<and> find_inv E0 (E1, F1) \<and> query F1 = query F"
proof -
  obtain p where E: "E = (at_cursor E0 p)\<lparr>erows := erows E\<rparr>" and ov: "hl_overlay E0 F (erows E)"
    and lm: "last_match F = -1 \<or> 0 \<le> last_match F \<and> last_match F < int (numrows E0)"
    and fn: "find_next F \<in> {-1, 0, 1}" using assms(2) by (auto simp: find_inv_def)
  have nr: "numrows E = numrows E0" using E at_cursor_rows(3) by (metis editorConfig.select_convs(9) editorConfig.surjective editorConfig.update_convs(10))
  define step where "step = (if last_match F = -1 then 1 else find_next F)"
  show ?thesis
  proof (cases "step = 0")
    case True
    with assms(2) show ?thesis by (auto simp: find_search_def step_def Let_def)
  next
    case False
    have len: "numrows E \<le> length (erows E)"
    proof (cases "numrows E0 = 0")
      case False
      with overlay_row(1) [OF ov, of 0] ed_inv_length [OF assms(1)] nr show ?thesis by simp
    qed (simp add: nr)
    obtain c m where sc: "find_scan (numrows E) step (last_match F) (query F) E = Inr (c, m)"
      "\<And>off. m = Some off \<Longrightarrow> 0 \<le> c \<and> c < int (numrows E) \<and>
        strstr (c_str (r_render (erows E ! nat c))) (query F) = Some off"
      using find_scan_ok [of "last_match F" E step "numrows E" "query F"] lm fn False nr len
      by (auto simp: step_def split: if_splits)
    have rs: "find_restore_hl E (F\<lparr>find_next := 0\<rparr>) =
        Inr (E\<lparr>erows := erows E0\<rparr>, F\<lparr>find_next := 0, saved_hl := None\<rparr>)" (is "_ = Inr (?E, ?F)")
      using restore_overlay [OF assms(1), of "F\<lparr>find_next := 0\<rparr>" E] ov by simp
    have s: "find_search E F = (case m of None \<Rightarrow> Inr (?E, ?F) | Some off \<Rightarrow> find_show c off ?E ?F)"
      using False sc(1) rs by (simp add: find_search_def step_def Let_def)
    have Ep: "?E = (at_cursor E0 p)\<lparr>erows := erows E0\<rparr>" using E by (metis at_cursor_rows(2))
    show ?thesis
    proof (cases m)
      case None
      moreover have "\<exists>p. ?E = (at_cursor E0 p)\<lparr>erows := erows ?E\<rparr>" using Ep by (intro exI [of _ p]) simp
      ultimately show ?thesis using s lm by (simp add: find_inv_def hl_overlay_def del: split_paired_Ex)
    next
      case (Some off)
      have k: "nat c < length (erows E0)" using sc(2) [OF Some] nr ed_inv_length [OF assms(1)] by auto
      have m': "strstr (c_str (r_render (erows E0 ! nat c))) (query ?F) = Some off"
        using sc(2) [OF Some] overlay_row(2) [OF ov k] by simp
      obtain E1 F1 p' where w: "find_show c off ?E ?F = Inr (E1, F1)" "E1 = (at_cursor ?E p')\<lparr>erows := erows E1\<rparr>"
        "hl_overlay E0 F1 (erows E1)" "last_match F1 = c" "find_next F1 = find_next ?F" "query F1 = query ?F"
        using show_overlay [OF assms(1) _ _ _ m', of ?E] sc(2) [OF Some] nr by auto
      have "E1 = (at_cursor E0 p')\<lparr>erows := erows E1\<rparr>"
        using w(2) unfolding Ep by (metis at_cursor_rows(1) at_cursor_twice)
      then have "\<exists>p. E1 = (at_cursor E0 p)\<lparr>erows := erows E1\<rparr>" by blast
      with w s Some sc(2) [OF Some] nr show ?thesis by (simp add: find_inv_def del: split_paired_Ex)
    qed
  qed
qed

lemma edit_inv: "find_inv E0 (E, F) \<Longrightarrow> find_inv E0 (E, find_edit c F)"
  by (cases c) (auto simp: find_inv_def find_edit_def hl_overlay_def split: option.splits)

lemma start_inv: "ed_inv E0 \<Longrightarrow> find_inv E0 (E0, find_start)"
proof -
  have "E0 = (at_cursor E0 (cx E0, cy E0, rowoff E0, coloff E0))\<lparr>erows := erows E0\<rparr>"
    by (simp add: at_cursor_def)
  then have "\<exists>p. E0 = (at_cursor E0 p)\<lparr>erows := erows E0\<rparr>" ..
  then show ?thesis by (simp add: find_inv_def find_start_def hl_overlay_def del: split_paired_Ex)
qed

abbreviation ends_find :: "key \<Rightarrow> bool" where "ends_find c \<equiv> c = Byte 24 \<or> c = Byte 10"

lemma loop_prefix:
  assumes "ed_inv E0" "find_inv E0 (E, F)" "list_all (\<lambda>c. \<not> ends_find c) cs"
  shows "\<exists>E1 F1. find_inv E0 (E1, F1) \<and> (\<forall>ks. find_loop E0 (cs @ ks) E F = find_loop E0 ks E1 F1)"
  using assms(2,3)
proof (induction cs arbitrary: E F)
  case (Cons c cs)
  obtain E1 F1 where "find_search E (find_edit c F) = Inr (E1, F1)" "find_inv E0 (E1, F1)"
    using search_inv [OF assms(1) edit_inv [OF Cons.prems(1)]] by blast
  with Cons show ?case by auto
qed auto

lemma restore_inv:
  assumes "ed_inv E0" "find_inv E0 (E, F)"
  shows "\<exists>p F'. find_restore_hl E F = Inr (at_cursor E0 p, F')"
proof -
  obtain p where "E = (at_cursor E0 p)\<lparr>erows := erows E\<rparr>" "hl_overlay E0 F (erows E)"
    using assms(2) by (auto simp: find_inv_def)
  then have "E\<lparr>erows := erows E0\<rparr> = at_cursor E0 p"
    by (metis at_cursor_rows(2,4) editorConfig.surjective editorConfig.update_convs(10))
  with restore_overlay [OF assms(1) \<open>hl_overlay E0 F (erows E)\<close>] show ?thesis by metis
qed

lemma restore_at:
  assumes "ed_inv E0" "find_inv E0 (E, F)"
  shows "\<exists>F'. find_restore_hl (at_cursor E q) F = Inr (at_cursor E0 q, F')"
proof -
  obtain p where E: "E = (at_cursor E0 p)\<lparr>erows := erows E\<rparr>" and ov: "hl_overlay E0 F (erows E)"
    using assms(2) by (auto simp: find_inv_def)
  have "(at_cursor E q)\<lparr>erows := erows E0\<rparr> = at_cursor E0 q"
    by (subst E) (cases p; cases q; simp add: at_cursor_def)
  with restore_overlay [OF assms(1), of F "at_cursor E q"] ov show ?thesis by (auto simp: at_cursor_rows)
qed

text \<open>C21: find mode only looks: whatever keys are typed, cancelling the search gives
  back exactly the editor it was started from, highlighting and viewport included, and accepting it
  changes nothing but the cursor and the viewport; the search never reads or writes outside a
  row.\<close>

theorem find_only_looks:
  assumes "ed_inv E" "list_all (\<lambda>c. c \<noteq> Byte 24 \<and> c \<noteq> Byte 10) cs"
  shows "editorFind (cs @ [Byte 24]) E = Inr (True, E) \<and>
    (\<exists>p. editorFind (cs @ [Byte 10]) E = Inr (True, at_cursor E p))"
proof -
  have "list_all (\<lambda>c. \<not> ends_find c) cs" using assms(2) by (simp add: list_all_iff)
  from loop_prefix [OF assms(1) start_inv [OF assms(1)] this] obtain E1 F1 where
    l: "find_inv E (E1, F1)" "\<And>ks. find_loop E (cs @ ks) E find_start = find_loop E ks E1 F1" by blast
  have "at_cursor E (cx E, cy E, rowoff E, coloff E) = E" by (simp add: at_cursor_def)
  with restore_at [OF assms(1) l(1), of "(cx E, cy E, rowoff E, coloff E)"]
  have "editorFind (cs @ [Byte 24]) E = Inr (True, E)"
    by (simp add: editorFind_def l(2)) (auto simp: at_cursor_def)
  moreover have "\<exists>p. editorFind (cs @ [Byte 10]) E = Inr (True, at_cursor E p)"
  proof -
    obtain p F' where "find_restore_hl E1 F1 = Inr (at_cursor E p, F')"
      using restore_inv [OF assms(1) l(1)] by blast
    then have "editorFind (cs @ [Byte 10]) E = Inr (True, at_cursor E p)"
      by (simp add: editorFind_def l(2))
    then show ?thesis ..
  qed
  ultimately show ?thesis by blast
qed

section \<open>Where the search lands\<close>

lemma scan_first:
  assumes "k < n" "numrows E = length (erows E)" "a + n \<le> numrows E"
    "strstr (c_str (r_render (erows E ! (a + k)))) q = Some off"
    "\<And>j. j < k \<Longrightarrow> strstr (c_str (r_render (erows E ! (a + j)))) q = None"
  shows "find_scan n 1 (int a - 1) q E = Inr (int (a + k), Some off)"
  using assms
proof (induction k arbitrary: n a)
  case 0
  then obtain m where "n = Suc m" by (cases n) auto
  with 0 show ?case by (simp add: natR_def Let_def)
next
  case (Suc k)
  then obtain m where n: "n = Suc m" by (cases n) auto
  have "find_scan m 1 (int (Suc a) - 1) q E = Inr (int (Suc a + k), Some off)"
    using Suc.prems n Suc.prems(5) [of "Suc _"] by (intro Suc.IH) auto
  then have "find_scan m 1 (int a) q E = Inr (int (Suc a + k), Some off)" by simp
  moreover have "strstr (c_str (r_render (erows E ! a))) q = None"
    using Suc.prems(5) [of 0] by simp
  ultimately show ?case using Suc.prems n by (simp add: natR_def Let_def)
qed

definition printable_query :: "string \<Rightarrow> bool" where
  "printable_query q \<longleftrightarrow> q \<noteq> [] \<and> length q \<le> KILO_QUERY_LEN \<and> list_all (\<lambda>c. find_printable (of_char c)) q"

definition typed :: "string \<Rightarrow> key list" where
  "typed q = map (\<lambda>c. Byte (of_char c)) q"

lemma edit_typed:
  assumes "find_printable (of_char c)" "length (query F) < KILO_QUERY_LEN"
  shows "find_edit (Byte (of_char c)) F = F\<lparr>query := query F @ [c], last_match := -1\<rparr>"
  using assms by (auto simp: find_edit_def find_printable_def)

lemma typed_query:
  assumes "ed_inv E0" "find_inv E0 (E, F)" "length (query F @ q) \<le> KILO_QUERY_LEN"
    "list_all (\<lambda>c. find_printable (of_char c)) q"
  shows "\<exists>E1 F1. find_inv E0 (E1, F1) \<and> query F1 = query F @ q \<and>
    (\<forall>ks. find_loop E0 (typed q @ ks) E F = find_loop E0 ks E1 F1)"
  using assms(2-)
proof (induction q arbitrary: E F)
  case Nil
  then show ?case by (auto simp: typed_def)
next
  case (Cons c q)
  have e: "find_edit (Byte (of_char c)) F = F\<lparr>query := query F @ [c], last_match := -1\<rparr>" (is "_ = ?F")
    using Cons.prems by (intro edit_typed) auto
  obtain E1 F1 where s: "find_search E ?F = Inr (E1, F1)" "find_inv E0 (E1, F1)" "query F1 = query ?F"
    using search_inv [OF assms(1), of E ?F] edit_inv [OF Cons.prems(1), of "Byte (of_char c)"] e by auto
  obtain E2 F2 where "find_inv E0 (E2, F2)" "query F2 = query F1 @ q"
    "\<And>ks. find_loop E0 (typed q @ ks) E1 F1 = find_loop E0 ks E2 F2"
    using Cons.IH [OF s(2)] Cons.prems s(3) by auto
  moreover have "\<not> ends_find (Byte (of_char c))"
    using Cons.prems(3) by (auto simp: find_printable_def)
  ultimately show ?case using s(1,3) e by (auto simp: typed_def)
qed

lemma find_search_new:
  assumes "ed_inv E0" "find_inv E0 (E, F)" "last_match F = -1" "k < numrows E0"
    "strstr (c_str (r_render (erows E0 ! k))) (query F) = Some off"
    "\<And>j. j < k \<Longrightarrow> strstr (c_str (r_render (erows E0 ! j))) (query F) = None"
  shows "\<exists>E1 F1. find_search E F = Inr (E1, F1) \<and> find_inv E0 (E1, F1) \<and>
    cy E1 = 0 \<and> rowoff E1 = int k \<and> cx E1 + coloff E1 = int off"
proof -
  obtain p where E: "E = (at_cursor E0 p)\<lparr>erows := erows E\<rparr>" and ov: "hl_overlay E0 F (erows E)"
    using assms(2) by (auto simp: find_inv_def)
  have nr: "numrows E = numrows E0" by (subst E) (simp add: at_cursor_def split: prod.splits)
  have n0: "numrows E0 = length (erows E0)" using ed_inv_length [OF assms(1)] .
  have len: "length (erows E) = length (erows E0)" using overlay_row(1) [OF ov, of k] assms(4) n0 by simp
  have row: "r_render (erows E ! j) = r_render (erows E0 ! j)" if "j \<le> k" for j
    using overlay_row(2) [OF ov, of j] that assms(4) n0 by simp
  have sc: "find_scan (numrows E) 1 (int 0 - 1) (query F) E = Inr (int (0 + k), Some off)"
    using assms(4-6) nr n0 len row by (intro scan_first) auto
  have rs: "find_restore_hl E (F\<lparr>find_next := 0\<rparr>) =
      Inr (E\<lparr>erows := erows E0\<rparr>, F\<lparr>find_next := 0, saved_hl := None\<rparr>)" (is "_ = Inr (?E, ?F)")
    using restore_overlay [OF assms(1), of "F\<lparr>find_next := 0\<rparr>" E] ov by simp
  have s: "find_search E F = find_show (int k) off ?E ?F"
    using sc rs assms(3) by (simp add: find_search_def)
  have m': "strstr (c_str (r_render (erows E0 ! nat (int k)))) (query ?F) = Some off" using assms(5) by simp
  obtain E1 F1 where "find_show (int k) off ?E ?F = Inr (E1, F1)" "cy E1 = 0" "rowoff E1 = int k"
      "cx E1 + coloff E1 = int off"
    using show_overlay [OF assms(1) _ _ _ m', of ?E] assms(4) by auto
  moreover obtain E2 F2 where "find_search E F = Inr (E2, F2)" "find_inv E0 (E2, F2)"
    using search_inv [OF assms(1,2)] by blast
  ultimately show ?thesis using s by auto
qed

text \<open>Typing a query and accepting it takes the cursor to the first line whose
  rendering holds the query, at the offset of its first occurrence there, and scrolls that line to
  the top of the screen.\<close>

theorem find_first_match:
  assumes "ed_inv E" "printable_query q" "k < numrows E"
    "strstr (c_str (r_render (erows E ! k))) q = Some off"
    "\<forall>j < k. strstr (c_str (r_render (erows E ! j))) q = None"
  shows "\<exists>E'. editorFind (typed q @ [Byte 10]) E = Inr (True, E') \<and> erows E' = erows E \<and>
    cy E' = 0 \<and> filerow E' = int k \<and> filecol E' = int off"
proof -
  obtain q0 c where q: "q = q0 @ [c]" using assms(2) by (cases q rule: rev_cases) (auto simp: printable_query_def)
  have pr: "length (query find_start @ q0) \<le> KILO_QUERY_LEN" "list_all (\<lambda>c. find_printable (of_char c)) q0"
    "find_printable (of_char c)" "length q0 < KILO_QUERY_LEN"
    using assms(2) q by (simp_all add: printable_query_def find_start_def)
  obtain E1 F1 where l: "find_inv E (E1, F1)" "query F1 = q0"
    "\<And>ks. find_loop E (typed q0 @ ks) E find_start = find_loop E ks E1 F1"
    using typed_query [OF assms(1) start_inv [OF assms(1)] pr(1,2)] by (auto simp: find_start_def)
  have e: "find_edit (Byte (of_char c)) F1 = F1\<lparr>query := query F1 @ [c], last_match := -1\<rparr>" (is "_ = ?F")
    using pr(3,4) l(2) by (intro edit_typed) auto
  have "find_inv E (E1, ?F)" using edit_inv [OF l(1), of "Byte (of_char c)"] e by simp
  from find_search_new [OF assms(1) this _ assms(3)] assms(4,5) q l(2)
  obtain E2 F2 where s: "find_search E1 ?F = Inr (E2, F2)" "find_inv E (E2, F2)" "cy E2 = 0" "rowoff E2 = int k"
      "cx E2 + coloff E2 = int off" by auto
  obtain p F3 where r: "find_restore_hl E2 F2 = Inr (at_cursor E p, F3)"
    using restore_inv [OF assms(1) s(2)] by blast
  have "cx (at_cursor E p) = cx E2 \<and> cy (at_cursor E p) = cy E2 \<and> rowoff (at_cursor E p) = rowoff E2 \<and>
      coloff (at_cursor E p) = coloff E2"
    using r restore_overlay [OF assms(1), of F2 E2] s(2) by (auto simp: find_inv_def)
  moreover have "editorFind (typed q @ [Byte 10]) E = Inr (True, at_cursor E p)"
  proof -
    have "typed q @ [Byte 10] = typed q0 @ [Byte (of_char c), Byte 10]" by (simp add: typed_def q)
    then show ?thesis using l(3) e s(1) r pr(3) by (simp add: editorFind_def find_printable_def)
  qed
  ultimately show ?thesis using s(3-5)
    by (simp add: at_cursor_rows filerow_def filecol_def)
qed

theorem find_only_looks_witness:
  "editorFind [Byte 99, Byte 24] demo_editor = Inr (True, demo_editor)"
  using find_only_looks [of demo_editor "[Byte 99]"] demo_good by (simp add: good_def)

theorem find_first_match_witness:
  "\<exists>E'. editorFind [Byte 99, Byte 10] demo_editor = Inr (True, E') \<and> filerow E' = 1 \<and> filecol E' = 2"
proof -
  have q: "printable_query ''c''" by code_simp
  have s: "strstr (c_str (r_render (erows demo_editor ! 1))) ''c'' = Some 2"
    "strstr (c_str (r_render (erows demo_editor ! 0))) ''c'' = None" by code_simp+
  have "ed_inv demo_editor" using demo_good by (simp add: good_def)
  from find_first_match [OF this q, of 1 2] s show ?thesis
    by (auto simp: demo_editor_def typed_def of_char_def)
qed

text \<open>The offset is one in the rendering, but the cursor counts characters: on a line with a tab
  the search leaves the cursor past the end of the line.\<close>

definition tab_editor :: editorConfig where
  "tab_editor = demo_editor\<lparr>numrows := 1, erows := [\<lparr>r_idx = 0, r_size = 3, r_chars = TAB # ''ab'' @ [NUL],
     r_render = ''       ab'', r_hl = replicate 9 HL_NORMAL, r_hl_oc = False\<rparr>]\<rparr>"

lemma find_lands_past_end_of_line:
  "\<exists>E'. editorFind [Byte 98, Byte 10] tab_editor = Inr (True, E') \<and>
     filecol E' = 8 \<and> length (lines_of E' ! 0) = 3"
proof -
  have "case editorFind [Byte 98, Byte 10] tab_editor of Inl e \<Rightarrow> False
    | Inr (b, E') \<Rightarrow> b \<and> filecol E' = 8 \<and> length (lines_of E' ! 0) = 3" by code_simp
  then show ?thesis by (auto split: sum.splits)
qed

end
