(* ===== verification/Tlv.thy ===== *)
theory Tlv
  imports Prelude "HOL-Library.AList"
begin

text \<open>
  The \<^verbatim>\<open>.tlv\<close> file format of program images, \<^verbatim>\<open>src/src/tlv.c\<close>.  An image is a
  history: a list of Lua tables, one per change.  A table is an association list with distinct
  keys, in the (unspecified) order in which \<open>lua_next\<close> visits it.  A \<open>FILE*\<close> is the
  text not yet read and the end-of-file flag, which is only set by a read that finds no more
  text.  \<open>char\<close> is signed, as on the platforms the program is built for: peeking with
  \<open>fgetc\<close> and \<open>ungetc\<close> drops a byte 255.
\<close>

section \<open>Tables\<close>

datatype lua_value = VStr string | VInt int

type_synonym lua_table = "(string \<times> lua_value) list"

definition digit :: "nat \<Rightarrow> char" where
  "digit d = char_of (48 + d)"

fun show_nat :: "nat \<Rightarrow> string" where
  "show_nat n = (if n < 10 then [digit n] else show_nat (n div 10) @ [digit (n mod 10)])"

declare show_nat.simps [simp del]

definition show_int :: "int \<Rightarrow> string" where
  "show_int i = (if i < 0 then CHR ''-'' # show_nat (nat (- i)) else show_nat (nat i))"

fun read_nat :: "nat \<Rightarrow> string \<Rightarrow> nat option" where
  "read_nat n [] = Some n"
| "read_nat n (c # cs) = (if isdigit c then read_nat (10 * n + (of_char c - 48)) cs else None)"

text \<open>
  \<open>lua_tointeger\<close>: a string that is not a number gives 0.  Of the numerals \<open>strtod\<close>
  accepts, the model reads decimal integers.
\<close>

definition read_int :: "string \<Rightarrow> int option" where
  "read_int s =
     (case s of [] \<Rightarrow> None
      | c # cs \<Rightarrow> if c = CHR ''-'' then (if cs = [] then None else map_option (\<lambda>n. - int n) (read_nat 0 cs))
                  else map_option int (read_nat 0 s))"

fun lua_tointeger :: "lua_value \<Rightarrow> int" where
  "lua_tointeger (VInt i) = i"
| "lua_tointeger (VStr s) = (case read_int s of None \<Rightarrow> 0 | Some i \<Rightarrow> i)"

fun lua_tostring :: "lua_value \<Rightarrow> string" where
  "lua_tostring (VInt i) = show_int i"
| "lua_tostring (VStr s) = s"

section \<open>Streams\<close>

record stream =
  rest :: string
  at_eof :: bool

definition open_read :: "string \<Rightarrow> stream" where
  "open_read s = \<lparr>rest = s, at_eof = False\<rparr>"

fun first_line :: "nat \<Rightarrow> string \<Rightarrow> string \<times> string" where
  "first_line 0 s = ([], s)"
| "first_line (Suc n) [] = ([], [])"
| "first_line (Suc n) (c # cs) =
     (if c = NL then ([c], cs) else let (l, r) = first_line n cs in (c # l, r))"

text \<open>\<open>fgets(line, capacity, in)\<close>; the line as the C string it leaves in the buffer.\<close>

definition fgets :: "nat \<Rightarrow> stream \<Rightarrow> string option \<times> stream" where
  "fgets capacity st =
     (if rest st = [] then (None, st\<lparr>at_eof := True\<rparr>)
      else let (l, r) = first_line (capacity - 1) (rest st) in
        (Some (c_str l),
         st\<lparr>rest := r, at_eof := at_eof st \<or> (r = [] \<and> last l \<noteq> NL \<and> length l < capacity - 1)\<rparr>))"

text \<open>\<open>char c = fgetc(in); ungetc(c, in);\<close>\<close>

definition peek :: "stream \<Rightarrow> char option \<times> stream" where
  "peek st =
     (case rest st of
        [] \<Rightarrow> (None, st\<lparr>at_eof := True\<rparr>)
      | c # cs \<Rightarrow> (Some c, if c = CHR 0xFF then st\<lparr>rest := cs\<rparr> else st))"

lemma first_line_append: "first_line n s = (l, r) \<Longrightarrow> s = l @ r"
  by (induction n s arbitrary: l r rule: first_line.induct) (auto split: if_splits prod.splits)

lemma first_line_nonempty: "0 < n \<Longrightarrow> s \<noteq> [] \<Longrightarrow> first_line n s = (l, r) \<Longrightarrow> l \<noteq> []"
  by (cases n; cases s) (auto split: if_splits prod.splits)

lemma fgets_shorter:
  "fgets c st = (Some l, st') \<Longrightarrow> 1 < c \<Longrightarrow> length (rest st') < length (rest st)"
  using first_line_nonempty [of "c - 1" "rest st"]
  by (fastforce simp: fgets_def dest: first_line_append split: prod.splits if_splits)

lemma peek_shorter: "peek st = (c, st') \<Longrightarrow> length (rest st') \<le> length (rest st)"
  by (auto simp: peek_def split: list.splits)

section \<open>Loading\<close>

definition line_at :: "string \<Rightarrow> nat \<Rightarrow> char" where
  "line_at line i = (if i < length line then line ! i else NUL)"

definition dash_line :: string where
  "dash_line = [CHR ''-'', NL]"

text \<open>The loop of \<open>teliva_load_multiline_string\<close>: value read so far, line buffer, stream.\<close>

function ml_loop :: "nat option \<Rightarrow> string \<Rightarrow> string \<Rightarrow> stream \<Rightarrow> (string \<times> string \<times> stream) res" where
  "ml_loop expected_indent b line st =
     (if at_eof st then Inr (b, line, st)
      else
        let (c, st1) = peek st in
        if c \<noteq> Some SPC then Inr (b, dash_line, st1)
        else
          (case fgets 1024 st1 of
             (None, st2) \<Rightarrow> Inr (b, [], st2)
           | (Some line, st2) \<Rightarrow>
               let max = length line in
               if max = 0 then Inl OutOfBounds
               else assertR (line ! (max - 1) = NL)
                 (let indent = length (takeWhile (\<lambda>c. c = SPC) (take (max - 1) line)) in
                  if line ! indent \<noteq> CHR ''>'' then Inr (b, line, st2)
                  else assertR (case expected_indent of None \<Rightarrow> True | Some e \<Rightarrow> e = indent)
                    (ml_loop (Some indent) (b @ drop (indent + 1) line) line st2))))"
  by pat_completeness auto
termination
  by (relation "measure (\<lambda>(_, _, _, st). length (rest st))")
    (auto dest!: sym [of "(_, _)"] fgets_shorter peek_shorter)

declare ml_loop.simps [simp del]

definition teliva_load_multiline_string :: "string \<Rightarrow> stream \<Rightarrow> (string \<times> string \<times> stream) res" where
  "teliva_load_multiline_string line st = ml_loop None [] line st"

text \<open>\<open>sscanf(line+2, "%s%s", key, value)\<close> with \<open>char key[512]\<close>\<close>

definition scan_word :: "string \<Rightarrow> string \<times> string" where
  "scan_word s = (let t = dropWhile isspace s in
     (takeWhile (\<lambda>c. \<not> isspace c) t, dropWhile (\<lambda>c. \<not> isspace c) t))"

definition scan_pair :: "string \<Rightarrow> (string \<times> string) res" where
  "scan_pair s =
     (let (key, r) = scan_word s; (value, _) = scan_word r in
      if length key < 512 then Inr (key, value) else Inl OutOfBounds)"

definition strip_colon :: "string \<Rightarrow> string res" where
  "strip_colon key =
     (if key = [] then Inl OutOfBounds else assertR (last key = CHR '':'') (Inr (butlast key)))"

text \<open>The value on the same line or on the following ones; also reads the next line.\<close>

definition load_value :: "string \<Rightarrow> string \<Rightarrow> stream \<Rightarrow> (string \<times> string \<times> stream) res" where
  "load_value value line st =
     (if value \<noteq> [] then
        let (c, st1) = peek st in
        if c = Some (CHR ''-'') then Inr (value, dash_line, st1)
        else (case fgets 1024 st1 of (l, st2) \<Rightarrow>
                Inr (value, (case l of None \<Rightarrow> [] | Some l \<Rightarrow> l), st2))
      else teliva_load_multiline_string line st)"

text \<open>
  One round per key/value pair.  The loop does not read when the last line is a key without a
  value and without a newline, so it is fuelled.
\<close>

fun load_pairs :: "nat \<Rightarrow> string \<Rightarrow> lua_table \<Rightarrow> stream \<Rightarrow> (lua_table \<times> stream) res" where
  "load_pairs 0 line t st = Inl OutOfFuel"
| "load_pairs (Suc n) line t st =
     assertR (line_at line 0 = CHR ''-'' \<or> line_at line 0 = SPC)
     (assertR (line_at line 1 = SPC)
     (assertR (line_at line 2 \<notin> {SPC, CHR ''>'', NL, NUL})
     (bindR (scan_pair (drop 2 line)) (\<lambda>(key, value).
      bindR (strip_colon key) (\<lambda>key.
      bindR (load_value value line st) (\<lambda>(v, line, st).
      let t = AList.update key (VStr v) t in
      if line_at line 0 = SPC then load_pairs n line t st else Inr (t, st)))))))"

function skip_comments :: "stream \<Rightarrow> string option \<times> stream" where
  "skip_comments st =
     (if at_eof st then (None, st)
      else (case fgets 1024 st of
              (None, st1) \<Rightarrow> (None, st1)
            | (Some line, st1) \<Rightarrow>
                if line_at line 0 = CHR ''#'' then skip_comments st1 else (Some line, st1)))"
  by pat_completeness auto
termination
  by (relation "measure (\<lambda>st. length (rest st))") (auto dest!: sym [of "(_, _)"] dest: fgets_shorter)

declare skip_comments.simps [simp del]

definition teliva_load_definition :: "nat \<Rightarrow> stream \<Rightarrow> (lua_table option \<times> stream) res" where
  "teliva_load_definition fuel st =
     (case skip_comments st of
        (None, st1) \<Rightarrow> Inr (None, st1)
      | (Some line, st1) \<Rightarrow>
          if line = [] then Inl OutOfBounds
          else assertR (last line = NL)
            (bindR (load_pairs fuel line [] st1) (\<lambda>(t, st2). Inr (Some t, st2))))"

text \<open>The loop ends at the end of the file, or when a definition is nil; the nil is then left on top of the
  stack.\<close>

fun load_definitions_from :: "nat \<Rightarrow> stream \<Rightarrow> (lua_table list \<times> bool) res" where
  "load_definitions_from 0 st = Inl OutOfFuel"
| "load_definitions_from (Suc n) st =
     (if at_eof st then Inr ([], False)
      else bindR (teliva_load_definition (Suc n) st) (\<lambda>(d, st1).
        case d of None \<Rightarrow> Inr ([], True)
        | Some t \<Rightarrow> bindR (load_definitions_from n st1) (\<lambda>(ts, nil). Inr (t # ts, nil))))"

text \<open>A missing file makes the program exit.  The value on top of the stack becomes the program: the array, or
  \<open>None\<close> for a nil that ended the loop.\<close>

definition load_tlv :: "string option \<Rightarrow> lua_table list option res" where
  "load_tlv file =
     (case file of None \<Rightarrow> Inl (ExitCode 1)
      | Some s \<Rightarrow>
          bindR (load_definitions_from (length s + 2) (open_read s)) (\<lambda>(history_array, nil).
            Inr (if nil then None else Some history_array)))"

section \<open>Saving\<close>

definition indent_mark :: string where
  "indent_mark = ''    >''"

fun emit_chars :: "string \<Rightarrow> string" where
  "emit_chars [] = []"
| "emit_chars (c # cs) =
     (if c = NL \<and> cs \<noteq> [] then NL # indent_mark @ emit_chars cs else c # emit_chars cs)"

definition emit_multiline_string :: "string \<Rightarrow> string" where
  "emit_multiline_string v = indent_mark @ emit_chars (c_str v)"

definition special_history_keys :: "string list" where
  "special_history_keys = [''__teliva_timestamp'', ''__teliva_note'', ''__teliva_undo'']"

definition is_special_history_key :: "string \<Rightarrow> bool" where
  "is_special_history_key k = any_equal special_history_keys k"

definition save_tlv_key :: "string \<Rightarrow> lua_value \<Rightarrow> string" where
  "save_tlv_key k v =
     (if k = ''__teliva_undo'' then k @ '': '' @ show_int (lua_tointeger v) @ [NL]
      else let value = c_str (lua_tostring v) in
        if SPC \<in> set value \<or> NL \<in> set value then k @ '':'' @ [NL] @ emit_multiline_string value
        else k @ '': '' @ value @ [NL])"

definition saved_pairs :: "lua_table \<Rightarrow> lua_table" where
  "saved_pairs t =
     List.map_filter (\<lambda>k. map_option (Pair k) (map_of t k)) special_history_keys @
     filter (\<lambda>(k, v). \<not> is_special_history_key k) t"

definition save_pairs :: "string \<Rightarrow> lua_table \<Rightarrow> string" where
  "save_pairs start ps = concat (map (\<lambda>(k, v). start @ save_tlv_key k v) ps)"

definition save_definition :: "lua_table \<Rightarrow> string" where
  "save_definition t =
     (case saved_pairs t of [] \<Rightarrow> []
      | (k, v) # ps \<Rightarrow> ''- '' @ save_tlv_key k v @ save_pairs ''  '' ps)"

definition header_lines :: "string list" where
  "header_lines =
     [''# .tlv file generated by https://github.com/akkartik/teliva'',
      ''# You may edit it if you are careful; however, you may see cryptic errors if you'',
      ''# violate Teliva'' @ [CHR 39] @ ''s assumptions.'',
      ''#'',
      ''# .tlv files are representations of Teliva programs. Teliva programs consist of'',
      ''# sequences of definitions. Each definition is a table of key/value pairs. Keys'',
      ''# and values are both strings.'',
      ''#'',
      ''# Lines in .tlv files always follow exactly one of the following forms:'',
      ''# - comment lines at the top of the file starting with '' @ [CHR 39] @ ''#'' @ [CHR 39] @ '' at column 0'',
      ''# - beginnings of definitions starting with '' @ [CHR 39] @ ''- '' @ [CHR 39] @ '' at column 0, followed by a'',
      ''#   key/value pair'',
      ''# - key/value pairs consisting of '' @ [CHR 39] @ ''  '' @ [CHR 39] @ '' at column 0, containing either a'',
      ''#   spaceless value on the same line, or a multi-line value'',
      ''# - multiline values indented by more than 2 spaces, starting with a '' @ [CHR 39] @ ''>'' @ [CHR 39] @ [],
      ''#'',
      ''# If these constraints are violated, Teliva may unceremoniously crash. Please'',
      ''# report bugs at http://akkartik.name/contact'']"

definition tlv_header :: string where
  "tlv_header = concat (map (\<lambda>l. l @ [NL]) header_lines)"

definition save_tlv :: "lua_table list \<Rightarrow> string" where
  "save_tlv h = tlv_header @ concat (map save_definition h)"

section \<open>Numerals\<close>

lemma digit_chars:
  "digit 0 = CHR ''0''" "digit (Suc 0) = CHR ''1''" "digit 2 = CHR ''2''" "digit 3 = CHR ''3''" "digit 4 = CHR ''4''"
  "digit 5 = CHR ''5''" "digit 6 = CHR ''6''" "digit 7 = CHR ''7''" "digit 8 = CHR ''8''" "digit 9 = CHR ''9''"
  by (simp_all add: digit_def char_of_def bit_simps)

lemma digit_cases: "(d :: nat) < 10 \<Longrightarrow> d = 0 \<or> d = Suc 0 \<or> d = 2 \<or> d = 3 \<or> d = 4 \<or> d = 5 \<or> d = 6 \<or> d = 7 \<or> d = 8 \<or> d = 9"
  by presburger

lemma isdigit_digit: "d < 10 \<Longrightarrow> isdigit (digit d)"
  by (drule digit_cases) (elim disjE; simp add: digit_chars isdigit_def)

lemma of_char_digit: "d < 10 \<Longrightarrow> of_char (digit d) = 48 + d"
  by (simp add: digit_def)

lemmas digit_props = isdigit_digit of_char_digit

lemma read_nat_append:
  "read_nat n (s @ [c]) = (case read_nat n s of None \<Rightarrow> None
     | Some m \<Rightarrow> if isdigit c then Some (10 * m + (of_char c - 48)) else None)"
  by (induction n s rule: read_nat.induct) auto

lemma read_show_nat: "read_nat 0 (show_nat n) = Some n"
proof (induction n rule: show_nat.induct)
  case (1 n)
  then show ?case
    by (subst show_nat.simps) (auto simp: read_nat_append digit_props)
qed

lemma show_nat_digits: "list_all isdigit (show_nat n) \<and> show_nat n \<noteq> []"
proof (induction n rule: show_nat.induct)
  case (1 n)
  then show ?case by (subst (1 2) show_nat.simps) (auto simp: digit_props)
qed

lemma read_show_int: "read_int (show_int i) = Some i"
proof -
  have d: "show_nat n \<noteq> []" "hd (show_nat n) \<noteq> CHR ''-''" for n
    using show_nat_digits [of n] by (cases "show_nat n"; auto simp: isdigit_def)+
  show ?thesis
  proof (cases "i < 0")
    case True
    then show ?thesis using d read_show_nat [of "nat (- i)"] by (simp add: read_int_def show_int_def)
  next
    case False
    obtain c cs where "show_nat (nat i) = c # cs" "c \<noteq> CHR ''-''"
      using d [of "nat i"] by (cases "show_nat (nat i)") auto
    with False read_show_nat [of "nat i"] show ?thesis
      by (simp add: read_int_def show_int_def del: read_nat.simps)
  qed
qed

lemma show_int_plain: "\<forall>c \<in> set (show_int i). \<not> isspace c \<and> c \<noteq> NUL" "show_int i \<noteq> []"
proof -
  have "isdigit c \<Longrightarrow> \<not> isspace c \<and> c \<noteq> NUL" for c
    by (auto simp: isdigit_def isspace_def)
  then show "\<forall>c \<in> set (show_int i). \<not> isspace c \<and> c \<noteq> NUL"
    using show_nat_digits by (auto simp: show_int_def list_all_iff) (simp_all add: isspace_def)
  show "show_int i \<noteq> []" using show_nat_digits by (simp add: show_int_def)
qed

section \<open>Reading lines\<close>

lemma first_line_line:
  "NL \<notin> set l \<Longrightarrow> length l < n \<Longrightarrow> first_line n (l @ NL # r) = (l @ [NL], r)"
proof (induction l arbitrary: n)
  case Nil
  then show ?case by (cases n) auto
next
  case (Cons c l)
  then show ?case by (cases n) auto
qed

definition proper_line :: "string \<Rightarrow> bool" where
  "proper_line l \<longleftrightarrow> NL \<notin> set l \<and> NUL \<notin> set l \<and> length l < 1023"

lemma fgets_line:
  assumes "proper_line l"
  shows "fgets 1024 \<lparr>rest = l @ NL # r, at_eof = False\<rparr> = (Some (l @ [NL]), \<lparr>rest = r, at_eof = False\<rparr>)"
proof -
  have "c_str (l @ [NL]) = l @ [NL]" using assms by (intro c_str_id) (auto simp: proper_line_def)
  with assms show ?thesis by (simp add: fgets_def first_line_line proper_line_def)
qed

lemma peek_line [simp]:
  "peek \<lparr>rest = [], at_eof = e\<rparr> = (None, \<lparr>rest = [], at_eof = True\<rparr>)"
  "c \<noteq> CHR 0xFF \<Longrightarrow> peek \<lparr>rest = c # r, at_eof = e\<rparr> = (Some c, \<lparr>rest = c # r, at_eof = e\<rparr>)"
  by (simp_all add: peek_def)

text \<open>
  What follows a key/value pair: nothing, another definition, or another pair of this one,
  whose first line the loader reads.
\<close>

inductive follows :: "string \<Rightarrow> string \<Rightarrow> stream \<Rightarrow> bool" where
  follows_end: "follows [] [] \<lparr>rest = [], at_eof = True\<rparr>"
| follows_definition: "follows (CHR ''-'' # r) dash_line \<lparr>rest = CHR ''-'' # r, at_eof = False\<rparr>"
| follows_pair: "proper_line (''  '' @ c # l) \<Longrightarrow> c \<noteq> SPC \<Longrightarrow> c \<noteq> CHR ''>'' \<Longrightarrow>
     follows (''  '' @ c # l @ NL # r) (''  '' @ c # l @ [NL]) \<lparr>rest = r, at_eof = False\<rparr>"

lemma follows_value:
  assumes "follows s line st" "v \<noteq> []"
  shows "load_value v line0 (open_read s) = Inr (v, line, st)"
  using assms
proof cases
  case follows_end
  then show ?thesis using assms(2) by (simp add: load_value_def open_read_def fgets_def)
next
  case (follows_definition r)
  then show ?thesis using assms(2) by (simp add: load_value_def open_read_def)
next
  case (follows_pair c l r)
  with fgets_line [of "''  '' @ c # l" r] assms(2) show ?thesis
    by (simp add: load_value_def open_read_def)
qed

lemma takeWhile_spaces: "c \<noteq> SPC \<Longrightarrow> takeWhile (\<lambda>c. c = SPC) (replicate n SPC @ c # r) = replicate n SPC"
  by (induction n) auto

lemma follows_multiline:
  assumes "follows s line st"
  shows "\<exists>line'. ml_loop e b line0 (open_read s) = Inr (b, line', st) \<and>
     (line' = line \<or> line = [] \<and> line' = dash_line)"
  using assms
proof cases
  case follows_end
  then show ?thesis by (simp add: open_read_def ml_loop.simps [of e b line0])
next
  case (follows_definition r)
  then show ?thesis by (simp add: open_read_def ml_loop.simps [of e b line0])
next
  case (follows_pair c l r)
  have "c \<noteq> NL" using follows_pair by (auto simp: proper_line_def)
  with follows_pair fgets_line [of "''  '' @ c # l" r] show ?thesis
    by (simp add: open_read_def ml_loop.simps [of e b line0] Let_def nth_append)
qed

section \<open>Loading what was saved\<close>

definition plain_key :: "string \<Rightarrow> bool" where
  "plain_key k \<longleftrightarrow> k \<noteq> [] \<and> list_all (\<lambda>c. \<not> isspace c \<and> c \<noteq> NUL) k \<and> hd k \<noteq> CHR ''>'' \<and> length k < 511"

definition saved_text :: "string \<Rightarrow> lua_value \<Rightarrow> string" where
  "saved_text k v = (if k = ''__teliva_undo'' then show_int (lua_tointeger v) else lua_tostring v)"

fun text_lines :: "string \<Rightarrow> string list" where
  "text_lines [] = []"
| "text_lines (c # cs) =
     (if c = NL then [] # text_lines cs
      else case text_lines cs of [] \<Rightarrow> [[c]] | l # ls \<Rightarrow> (c # l) # ls)"

definition multiline :: "string \<Rightarrow> bool" where
  "multiline s \<longleftrightarrow> SPC \<in> set s \<or> NL \<in> set s"

text \<open>
  What survives saving and loading: a value with a space or a newline must end in a newline
  and have no very long line; any other value must not contain a tab or another space.
\<close>

definition storable_pair :: "string \<Rightarrow> string \<Rightarrow> bool" where
  "storable_pair k s \<longleftrightarrow> plain_key k \<and> NUL \<notin> set s \<and>
     (if multiline s then last s = NL \<and> list_all (\<lambda>l. length l < 1018) (text_lines s)
      else list_all (\<lambda>c. \<not> isspace c) s \<and> length k + length s < 1019)"

definition marked :: "string list \<Rightarrow> string" where
  "marked ls = concat (map (\<lambda>l. indent_mark @ l @ [NL]) ls)"

lemma text_lines_nonempty: "s \<noteq> [] \<Longrightarrow> text_lines s \<noteq> []"
  by (cases s) (auto split: list.splits)

lemma text_lines_no_NL: "list_all (\<lambda>l. NL \<notin> set l) (text_lines s)"
  by (induction s rule: text_lines.induct) (auto split: list.splits)

lemma text_lines_chars: "l \<in> set (text_lines s) \<Longrightarrow> set l \<subseteq> set s"
  by (induction s arbitrary: l rule: text_lines.induct) (fastforce split: list.splits if_splits)+

lemma concat_text_lines:
  "s = [] \<or> last s = NL \<Longrightarrow> concat (map (\<lambda>l. l @ [NL]) (text_lines s)) = s"
proof (induction s rule: text_lines.induct)
  case (2 c cs)
  show ?case
  proof (cases "c = NL")
    case True
    with 2 show ?thesis by (cases "cs = []") auto
  next
    case False
    with "2.prems" have "cs \<noteq> []" "last cs = NL" by (auto split: if_splits)
    with 2(2) [OF False] False show ?thesis by (auto split: list.splits)
  qed
qed simp

lemma emit_lines:
  "s \<noteq> [] \<Longrightarrow> last s = NL \<Longrightarrow> indent_mark @ emit_chars s = marked (text_lines s)"
proof (induction s rule: emit_chars.induct)
  case (2 c cs)
  show ?case
  proof (cases "cs = []")
    case True
    with "2.prems" show ?thesis by (simp add: marked_def)
  next
    case False
    with "2.prems" have l: "last cs = NL" by simp
    show ?thesis
    proof (cases "c = NL")
      case True
      with 2(1) False l show ?thesis by (simp add: marked_def)
    next
      case c: False
      obtain x xs where "text_lines cs = x # xs" using text_lines_nonempty [OF False] by (cases "text_lines cs") auto
      with 2(2) c False l show ?thesis by (simp add: marked_def indent_mark_def)
    qed
  qed
qed simp

lemma ml_marked:
  assumes "follows s line st" "list_all (\<lambda>l. NL \<notin> set l \<and> NUL \<notin> set l \<and> length l < 1018) ls"
    "e = None \<or> e = Some 4"
  shows "\<exists>line'. ml_loop e b line0 (open_read (marked ls @ s)) = Inr (b @ concat (map (\<lambda>l. l @ [NL]) ls), line', st) \<and>
     (line' = line \<or> line = [] \<and> line' = dash_line)"
  using assms(2,3)
proof (induction ls arbitrary: e b line0)
  case Nil
  with follows_multiline [OF assms(1)] show ?case by (simp add: marked_def)
next
  case (Cons l ls)
  let ?l = "indent_mark @ l" and ?s = "marked ls @ s"
  have p: "proper_line ?l" using Cons.prems(1) by (simp add: proper_line_def indent_mark_def)
  have m: "marked (l # ls) @ s = ?l @ NL # ?s" by (simp add: marked_def)
  have tw: "takeWhile (\<lambda>c. c = SPC) (indent_mark @ l) = replicate 4 SPC"
    by (simp add: indent_mark_def numeral_eq_Suc)
  have step: "ml_loop e b line0 (open_read (marked (l # ls) @ s)) =
      ml_loop (Some 4) (b @ l @ [NL]) (?l @ [NL]) (open_read ?s)"
    using fgets_line [OF p, of ?s] Cons.prems(2) tw
    by (subst ml_loop.simps)
      (auto simp: open_read_def m Let_def indent_mark_def nth_append numeral_eq_Suc)
  from Cons.IH [of "Some 4" "b @ l @ [NL]" "?l @ [NL]"] Cons.prems step show ?case by simp
qed

definition key_line :: "string \<Rightarrow> string \<Rightarrow> string" where
  "key_line k s = (if multiline s then k @ '':'' else k @ '': '' @ s)"

definition pair_body :: "string \<Rightarrow> string" where
  "pair_body s = (if multiline s then marked (text_lines s) else [])"

lemma save_tlv_key_eq:
  assumes "storable_pair k (saved_text k v)"
  shows "save_tlv_key k v = key_line k (saved_text k v) @ NL # pair_body (saved_text k v)"
proof (cases "k = ''__teliva_undo''")
  case True
  moreover have "\<not> multiline (show_int i)" for i
    using show_int_plain(1) [of i] by (auto simp: multiline_def isspace_def)
  ultimately show ?thesis
    by (simp add: save_tlv_key_def key_line_def pair_body_def saved_text_def)
next
  case False
  let ?s = "lua_tostring v"
  have st: "saved_text k v = ?s" "NUL \<notin> set ?s"
    using assms False by (simp_all add: saved_text_def storable_pair_def)
  show ?thesis
  proof (cases "multiline ?s")
    case True
    then have "?s \<noteq> []" by (auto simp: multiline_def)
    moreover have "last ?s = NL" using assms True st by (simp add: storable_pair_def)
    ultimately show ?thesis using True False st emit_lines [of ?s]
      by (auto simp: save_tlv_key_def key_line_def pair_body_def c_str_id multiline_def
          emit_multiline_string_def)
  next
    case no: False
    with False st show ?thesis
      by (simp add: save_tlv_key_def key_line_def pair_body_def c_str_id multiline_def Let_def)
  qed
qed

lemma scan_word_plain:
  assumes "list_all (\<lambda>c. \<not> isspace c) w" "w \<noteq> []" "r = [] \<or> isspace (hd r)"
  shows "scan_word (w @ r) = (w, r)"
proof -
  have "dropWhile isspace (w @ r) = w @ r" using assms(1,2) by (cases w) auto
  moreover have "takeWhile (\<lambda>c. \<not> isspace c) (w @ r) = w" "dropWhile (\<lambda>c. \<not> isspace c) (w @ r) = r"
    using assms(1,3) by (induction w) (auto simp: list_all_iff, (cases r; auto)+)
  ultimately show ?thesis by (simp add: scan_word_def Let_def)
qed

lemma scan_key_line:
  assumes "storable_pair k s"
  shows "scan_pair (key_line k s @ [NL]) = Inr (k @ '':'', if multiline s then [] else s)"
proof -
  have k: "list_all (\<lambda>c. \<not> isspace c) (k @ '':'')" "length (k @ '':'') < 512"
    using assms by (auto simp: storable_pair_def plain_key_def isspace_def list_all_iff)
  show ?thesis
  proof (cases "multiline s")
    case True
    with k show ?thesis using scan_word_plain [of "k @ '':''" "[NL]"]
      by (simp add: scan_pair_def key_line_def isspace_def scan_word_def)
  next
    case False
    have "scan_word (k @ '':'' @ SPC # s @ [NL]) = (k @ '':'', SPC # s @ [NL])"
      using scan_word_plain [OF k(1), of "SPC # s @ [NL]"] by (simp add: isspace_def)
    moreover have "fst (scan_word (SPC # s @ [NL])) = s"
    proof (cases "s = []")
      case True
      then show ?thesis by (simp add: scan_word_def isspace_def)
    next
      case ne: False
      have "list_all (\<lambda>c. \<not> isspace c) s" using assms False by (simp add: storable_pair_def)
      with ne scan_word_plain [of s "[NL]"] show ?thesis by (simp add: scan_word_def isspace_def)
    qed
    ultimately show ?thesis using k(2) False
      by (auto simp: scan_pair_def key_line_def split: prod.splits)
  qed
qed

definition pair_start :: "string \<Rightarrow> bool" where
  "pair_start p \<longleftrightarrow> p = ''- '' \<or> p = ''  ''"

lemma key_line_proper:
  assumes "storable_pair k s" "pair_start p"
  shows "proper_line (p @ key_line k s)" "\<exists>c l. key_line k s = c # l \<and> c \<notin> {SPC, CHR ''>'', NL, NUL}"
proof -
  have k: "plain_key k" and n: "NUL \<notin> set s" using assms(1) by (simp_all add: storable_pair_def)
  have s: "\<not> multiline s \<Longrightarrow> length k + length s < 1019" "\<not> multiline s \<Longrightarrow> NL \<notin> set s"
    using assms(1) by (simp_all add: storable_pair_def multiline_def)
  have kc: "NL \<notin> set k" "NUL \<notin> set k" "SPC \<notin> set k" "length k < 511"
    using k by (auto simp: plain_key_def list_all_iff isspace_def)
  show "proper_line (p @ key_line k s)"
    using kc n s assms(2) by (auto simp: proper_line_def key_line_def pair_start_def)
  show "\<exists>c l. key_line k s = c # l \<and> c \<notin> {SPC, CHR ''>'', NL, NUL}"
    using k kc by (cases k) (auto simp: key_line_def plain_key_def)
qed

lemma load_pair:
  assumes "storable_pair k s" "pair_start p" "follows u line st"
  shows "load_pairs (Suc n) (p @ key_line k s @ [NL]) t (open_read (pair_body s @ u)) =
    (if line_at line 0 = SPC then load_pairs n line (AList.update k (VStr s) t) st
     else Inr (AList.update k (VStr s) t, st))"
proof -
  let ?line = "p @ key_line k s @ [NL]"
  obtain c l where cl: "key_line k s = c # l" "c \<notin> {SPC, CHR ''>'', NL, NUL}"
    using key_line_proper(2) [OF assms(1,2)] by blast
  have la: "line_at ?line 0 = CHR ''-'' \<or> line_at ?line 0 = SPC" "line_at ?line 1 = SPC"
    "line_at ?line 2 \<notin> {SPC, CHR ''>'', NL, NUL}" "drop 2 ?line = key_line k s @ [NL]"
    using assms(2) cl by (auto simp: pair_start_def line_at_def)
  have "\<exists>line'. load_value (if multiline s then [] else s) ?line (open_read (pair_body s @ u)) = Inr (s, line', st) \<and>
      (line' = line \<or> line = [] \<and> line' = dash_line)"
  proof (cases "multiline s")
    case True
    then have "list_all (\<lambda>l. NL \<notin> set l \<and> NUL \<notin> set l \<and> length l < 1018) (text_lines s)"
      "concat (map (\<lambda>l. l @ [NL]) (text_lines s)) = s"
      using assms(1) text_lines_no_NL [of s] text_lines_chars [of _ s] concat_text_lines [of s]
      by (auto simp: storable_pair_def list_all_iff)
    with True ml_marked [OF assms(3), of "text_lines s" None "[]" ?line] show ?thesis
      by (simp add: load_value_def teliva_load_multiline_string_def pair_body_def)
  next
    case False
    show ?thesis
    proof (cases "s = []")
      case True
      with ml_marked [OF assms(3), of "[]" None "[]" ?line] False show ?thesis
        by (simp add: load_value_def teliva_load_multiline_string_def pair_body_def marked_def)
    next
      case ne: False
      with False follows_value [OF assms(3), of s ?line] show ?thesis
        by (simp add: load_value_def pair_body_def)
    qed
  qed
  then obtain line' where l': "load_value (if multiline s then [] else s) ?line (open_read (pair_body s @ u)) =
     Inr (s, line', st)" "line' = line \<or> line = [] \<and> line' = dash_line" by blast
  have sp: "(line_at line' 0 = SPC) = (line_at line 0 = SPC)"
    using l'(2) by (auto simp: dash_line_def line_at_def)
  have "load_pairs (Suc n) ?line t (open_read (pair_body s @ u)) =
     (if line_at line' 0 = SPC then load_pairs n line' (AList.update k (VStr s) t) st
     else Inr (AList.update k (VStr s) t, st))"
    using la(1) unfolding load_pairs.simps(2) la(4) scan_key_line [OF assms(1)]
    using la(2,3) l'(1) by (simp add: strip_colon_def del: One_nat_def)
  moreover have "line_at line 0 = SPC \<Longrightarrow> line' = line" using l'(2) by (auto simp: line_at_def)
  ultimately show ?thesis using sp by auto
qed

text \<open>The table that a saved list of pairs is loaded as, on top of \<open>t\<close>.\<close>

definition loaded_pairs :: "lua_table \<Rightarrow> lua_table \<Rightarrow> lua_table" where
  "loaded_pairs ps t = foldl (\<lambda>t (k, v). AList.update k (VStr (saved_text k v)) t) t ps"

definition storable_pairs :: "lua_table \<Rightarrow> bool" where
  "storable_pairs ps \<longleftrightarrow> list_all (\<lambda>(k, v). storable_pair k (saved_text k v)) ps"

text \<open>Text that ends the definition before it.\<close>

definition ends_definition :: "string \<Rightarrow> bool" where
  "ends_definition r \<longleftrightarrow> r = [] \<or> hd r = CHR ''-''"

definition stream_after :: "string \<Rightarrow> stream" where
  "stream_after r = \<lparr>rest = r, at_eof = (r = [])\<rparr>"

lemma ends_follows:
  assumes "ends_definition r"
  shows "\<exists>line. follows r line (stream_after r) \<and> line_at line 0 \<noteq> SPC"
proof (cases r)
  case Nil
  then show ?thesis
    by (intro exI [of _ "[]"]) (simp add: stream_after_def follows_end line_at_def)
next
  case (Cons c r')
  with assms have "r = CHR ''-'' # r'" by (simp add: ends_definition_def)
  with follows_definition [of r'] show ?thesis
    by (intro exI [of _ dash_line]) (simp add: stream_after_def line_at_def dash_line_def)
qed

lemma load_pairs_saved:
  assumes "storable_pair k (saved_text k v)" "pair_start p" "storable_pairs ps" "ends_definition r"
    "length ps < n"
  shows "load_pairs n (p @ key_line k (saved_text k v) @ [NL]) t
      (open_read (pair_body (saved_text k v) @ save_pairs ''  '' ps @ r)) =
    Inr (loaded_pairs ((k, v) # ps) t, stream_after r)"
  using assms
proof (induction ps arbitrary: k v p t n)
  case Nil
  obtain line where "follows r line (stream_after r)" "line_at line 0 \<noteq> SPC"
    using ends_follows [OF Nil.prems(4)] by blast
  moreover obtain m where "n = Suc m" using Nil.prems(5) by (cases n) auto
  ultimately show ?case
    using load_pair [OF Nil.prems(1,2)] by (simp add: save_pairs_def loaded_pairs_def)
next
  case (Cons kv ps)
  obtain k' v' where kv: "kv = (k', v')" by (cases kv)
  obtain m where n: "n = Suc m" using Cons.prems(5) by (cases n) auto
  have st: "storable_pair k' (saved_text k' v')" "storable_pairs ps"
    using Cons.prems(3) kv by (simp_all add: storable_pairs_def)
  let ?s' = "saved_text k' v'"
  let ?u = "save_pairs ''  '' (kv # ps) @ r"
  have start: "pair_start ''  ''" by (simp add: pair_start_def)
  obtain c l where cl: "key_line k' ?s' = c # l" "c \<notin> {SPC, CHR ''>'', NL, NUL}"
    using key_line_proper(2) [OF st(1) start] by blast
  have u: "?u = ''  '' @ c # l @ NL # (pair_body ?s' @ save_pairs ''  '' ps @ r)"
    using save_tlv_key_eq [OF st(1)] cl(1) by (simp add: save_pairs_def kv)
  have f: "follows ?u (''  '' @ c # l @ [NL]) (open_read (pair_body ?s' @ save_pairs ''  '' ps @ r))"
    unfolding u open_read_def using key_line_proper(1) [OF st(1) start] cl
    by (intro follows_pair) auto
  have "load_pairs n (p @ key_line k (saved_text k v) @ [NL]) t
      (open_read (pair_body (saved_text k v) @ ?u)) =
    load_pairs m (''  '' @ key_line k' ?s' @ [NL]) (AList.update k (VStr (saved_text k v)) t)
      (open_read (pair_body ?s' @ save_pairs ''  '' ps @ r))"
    unfolding n using load_pair [OF Cons.prems(1,2) f] cl(1) by (simp add: line_at_def)
  also have "\<dots> = Inr (loaded_pairs ((k', v') # ps) (AList.update k (VStr (saved_text k v)) t), stream_after r)"
    using Cons.prems(4,5) n st start by (intro Cons.IH) auto
  finally show ?case by (simp add: kv loaded_pairs_def)
qed

lemma skip_comments_line:
  assumes "proper_line l" "l \<noteq> []"
  shows "skip_comments (open_read (l @ NL # r)) =
    (if hd l = CHR ''#'' then skip_comments (open_read r) else (Some (l @ [NL]), open_read r))"
  using fgets_line [OF assms(1), of r] assms(2)
  by (subst skip_comments.simps) (auto simp: open_read_def line_at_def nth_append hd_conv_nth)

lemma load_definition_saved:
  assumes "saved_pairs t = (k, v) # ps" "storable_pairs (saved_pairs t)" "ends_definition r"
    "length (saved_pairs t) \<le> n"
  shows "teliva_load_definition n (open_read (save_definition t @ r)) =
    Inr (Some (loaded_pairs (saved_pairs t) []), stream_after r)"
proof -
  let ?s = "saved_text k v"
  have st: "storable_pair k ?s" "storable_pairs ps"
    using assms(1,2) by (simp_all add: storable_pairs_def)
  have start: "pair_start ''- ''" by (simp add: pair_start_def)
  let ?l = "''- '' @ key_line k ?s"
  have eq: "save_definition t @ r = ?l @ NL # (pair_body ?s @ save_pairs ''  '' ps @ r)"
    using assms(1) save_tlv_key_eq [OF st(1)] by (simp add: save_definition_def)
  have lp: "load_pairs n (''- '' @ key_line k ?s @ [NL]) []
      (open_read (pair_body ?s @ save_pairs ''  '' ps @ r)) =
    Inr (loaded_pairs ((k, v) # ps) [], stream_after r)"
    using assms(1,3,4) st start by (intro load_pairs_saved) auto
  have sk: "skip_comments (open_read (?l @ NL # (pair_body ?s @ save_pairs ''  '' ps @ r))) =
    (Some (''- '' @ key_line k ?s @ [NL]), open_read (pair_body ?s @ save_pairs ''  '' ps @ r))"
    using key_line_proper(1) [OF st(1) start] by (subst skip_comments_line) auto
  show ?thesis
    unfolding teliva_load_definition_def eq sk using lp assms(1) by simp
qed

definition reloaded :: "lua_table \<Rightarrow> lua_table" where
  "reloaded t = loaded_pairs (saved_pairs t) []"

definition storable :: "lua_table \<Rightarrow> bool" where
  "storable t \<longleftrightarrow> saved_pairs t \<noteq> [] \<and> storable_pairs (saved_pairs t)"

lemma save_definition_start:
  assumes "saved_pairs t \<noteq> []"
  shows "ends_definition (save_definition t @ r)" "save_definition t \<noteq> []"
  using assms by (auto simp: save_definition_def ends_definition_def split: list.splits)

lemma load_definitions_saved:
  assumes "list_all storable h" "list_all (\<lambda>t. length (saved_pairs t) \<le> m) h" "m + length h < n"
  shows "load_definitions_from n (stream_after (concat (map save_definition h))) = Inr (map reloaded h, False)"
  using assms
proof (induction h arbitrary: n)
  case Nil
  then obtain k where "n = Suc k" by (cases n) auto
  then show ?case by (simp add: stream_after_def)
next
  case (Cons t h)
  obtain k where n: "n = Suc k" using Cons.prems(3) by (cases n) auto
  have t: "saved_pairs t \<noteq> []" "storable_pairs (saved_pairs t)"
    using Cons.prems(1) by (simp_all add: storable_def)
  obtain k' v ps where kv: "saved_pairs t = (k', v) # ps" using t(1) by (cases "saved_pairs t") auto
  let ?r = "concat (map save_definition h)"
  have r: "ends_definition ?r"
  proof (cases h)
    case Nil
    then show ?thesis by (simp add: ends_definition_def)
  next
    case (Cons t' h')
    with Cons.prems(1) save_definition_start(1) [of t'] show ?thesis by (simp add: storable_def)
  qed
  have "stream_after (save_definition t @ ?r) = open_read (save_definition t @ ?r)"
    using save_definition_start(2) [OF t(1)] by (simp add: stream_after_def open_read_def)
  moreover have "teliva_load_definition n (open_read (save_definition t @ ?r)) =
      Inr (Some (reloaded t), stream_after ?r)"
    unfolding reloaded_def using Cons.prems(2,3) r t(2) by (intro load_definition_saved [OF kv]) auto
  moreover have "load_definitions_from k (stream_after ?r) = Inr (map reloaded h, False)"
    using Cons.prems n by (intro Cons.IH) auto
  moreover have "\<not> at_eof (open_read (save_definition t @ ?r))" by (simp add: open_read_def)
  ultimately show ?case by (simp add: n)
qed

lemma header_comments:
  "list_all (\<lambda>l. proper_line l \<and> l \<noteq> [] \<and> hd l = CHR ''#'') ls \<Longrightarrow>
   skip_comments (open_read (concat (map (\<lambda>l. l @ [NL]) ls) @ r)) = skip_comments (open_read r)"
  by (induction ls) (simp_all add: skip_comments_line)

lemma header_ok:
  "list_all (\<lambda>l. proper_line l \<and> l \<noteq> [] \<and> hd l = CHR ''#'') header_lines"
  by code_simp

lemma save_pairs_length: "2 * length ps \<le> length (save_pairs ''  '' ps)"
  by (induction ps) (auto simp: save_pairs_def)

lemma save_definition_length: "length (saved_pairs t) \<le> length (save_definition t)"
proof (cases "saved_pairs t")
  case (Cons kv ps)
  with save_pairs_length [of ps] show ?thesis
    by (auto simp: save_definition_def split: prod.splits)
qed simp

lemma history_length:
  assumes "list_all (\<lambda>t. saved_pairs t \<noteq> []) h"
  shows "length h \<le> length (concat (map save_definition h)) \<and>
    (\<exists>m. list_all (\<lambda>t. length (saved_pairs t) \<le> m) h \<and>
       m + length h \<le> length (concat (map save_definition h)) + 1)"
  using assms
proof (induction h)
  case Nil
  show ?case by (intro conjI exI [of _ 0]) simp_all
next
  case (Cons t h)
  let ?b = "length (concat (map save_definition h))"
  obtain m where m: "list_all (\<lambda>t. length (saved_pairs t) \<le> m) h" "m + length h \<le> ?b + 1"
      "length h \<le> ?b" using Cons by auto
  have t: "length (saved_pairs t) \<le> length (save_definition t)" "0 < length (save_definition t)"
    using save_definition_length [of t] save_definition_start(2) [of t] Cons.prems by auto
  have "list_all (\<lambda>t. length (saved_pairs t) \<le> max m (length (saved_pairs u))) h" for u
    using m(1) by (auto simp: list_all_iff)
  then have "list_all (\<lambda>u. length (saved_pairs u) \<le> max m (length (saved_pairs t))) (t # h)" by simp
  moreover have "max m (length (saved_pairs t)) + Suc (length h) \<le> length (save_definition t) + ?b + 1"
    "Suc (length h) \<le> length (save_definition t) + ?b"
    using m(2,3) t by linarith+
  ultimately show ?case
    by (intro conjI exI [of _ "max m (length (saved_pairs t))"]) simp_all
qed

lemma load_definitions_header:
  "load_definitions_from n (open_read (tlv_header @ r)) = load_definitions_from n (open_read r)"
proof (cases n)
  case (Suc k)
  have "skip_comments (open_read (tlv_header @ r)) = skip_comments (open_read r)"
    unfolding tlv_header_def by (rule header_comments [OF header_ok])
  with Suc show ?thesis by (simp add: teliva_load_definition_def open_read_def)
qed simp

lemma load_save:
  assumes "list_all storable h" "h \<noteq> []"
  shows "load_tlv (Some (save_tlv h)) = Inr (Some (map reloaded h))"
proof -
  let ?b = "concat (map save_definition h)"
  have ne: "list_all (\<lambda>t. saved_pairs t \<noteq> []) h"
    using assms(1) by (auto simp: storable_def list_all_iff)
  obtain m where m: "list_all (\<lambda>t. length (saved_pairs t) \<le> m) h" "m + length h \<le> length ?b + 1"
    using history_length [OF ne] by blast
  let ?n = "length (save_tlv h) + 2"
  obtain t h' where "h = t # h'" using assms(2) by (cases h) auto
  then have "?b \<noteq> []" using save_definition_start(2) [of t] ne by auto
  then have "open_read ?b = stream_after ?b" by (simp add: open_read_def stream_after_def)
  moreover have "m + length h < ?n" using m(2) by (simp add: save_tlv_def)
  ultimately have "load_definitions_from ?n (open_read ?b) = Inr (map reloaded h, False)"
    using load_definitions_saved [OF assms(1) m(1)] by metis
  then show ?thesis by (simp add: load_tlv_def save_tlv_def load_definitions_header)
qed

text \<open>An image without any change is a file of comments, which is read back as nil.\<close>

lemma load_header: "load_tlv (Some (save_tlv [])) = Inr None"
  using load_definitions_header [of "Suc (Suc (length tlv_header))" "[]"]
  by (simp add: load_tlv_def save_tlv_def open_read_def teliva_load_definition_def skip_comments.simps fgets_def
      del: load_definitions_from.simps(1))

text \<open>What a reloaded table holds.\<close>

lemma map_of_loaded_pairs:
  "map_of (loaded_pairs ps t) = foldl (\<lambda>m (k, v). m(k \<mapsto> VStr (saved_text k v))) (map_of t) ps"
  by (induction ps arbitrary: t) (auto simp: loaded_pairs_def update_conv')

lemma foldl_map_upd:
  "foldl (\<lambda>m (k, v). m(k \<mapsto> f k v)) m ps k =
     (case map_of (rev ps) k of None \<Rightarrow> m k | Some v \<Rightarrow> Some (f k v))"
  by (induction ps arbitrary: m) (auto split: option.splits simp: map_add_def)

lemma map_of_saved_pairs: "map_of (saved_pairs t) k = map_of t k"
proof -
  have "map_of (List.map_filter (\<lambda>k. map_option (Pair k) (map_of t k)) ks) k =
      (if k \<in> set ks then map_of t k else None)" for ks
    by (induction ks) (auto simp: List.map_filter_def split: option.splits)
  moreover have "map_of (filter (\<lambda>(k, v). \<not> P k) t) k = (if P k then None else map_of t k)" for P
    by (induction t) auto
  ultimately show ?thesis
    by (auto simp: saved_pairs_def map_add_def is_special_history_key_def any_equal_def
        list_ex_iff split: option.splits)
qed

lemma map_of_rev_same: "distinct (map fst xs) \<Longrightarrow> map_of (rev xs) = map_of xs"
  by (subst map_of_inject_set) (simp_all add: rev_map [symmetric])

lemma saved_pairs_distinct:
  assumes "distinct (map fst t)"
  shows "distinct (map fst (saved_pairs t))"
proof -
  have "map fst (List.map_filter (\<lambda>k. map_option (Pair k) (map_of t k)) ks) =
      filter (\<lambda>k. map_of t k \<noteq> None) ks" for ks
    by (induction ks) (auto simp: List.map_filter_def)
  moreover have "distinct special_history_keys" by (simp add: special_history_keys_def)
  moreover have "set special_history_keys \<inter> fst ` set (filter (\<lambda>(k, v). \<not> is_special_history_key k) t) = {}"
    by (auto simp: is_special_history_key_def any_equal_def list_ex_iff)
  moreover have "distinct (map fst (filter P t))" for P
    using assms by (induction t) auto
  ultimately show ?thesis
    unfolding saved_pairs_def by auto
qed

lemma map_of_reloaded:
  assumes "distinct (map fst t)"
  shows "map_of (reloaded t) k = map_option (\<lambda>v. VStr (saved_text k v)) (map_of t k)"
proof -
  have "distinct (map fst (saved_pairs t))" using assms by (rule saved_pairs_distinct)
  then have "map_of (rev (saved_pairs t)) = map_of (saved_pairs t)"
    by (rule map_of_rev_same)
  then have "map_of (rev (saved_pairs t)) k = map_of t k" by (simp add: map_of_saved_pairs)
  then show ?thesis
    by (simp add: reloaded_def map_of_loaded_pairs foldl_map_upd split: option.splits)
qed

section \<open>Saving is stable\<close>

lemma update_fresh: "k \<notin> fst ` set t \<Longrightarrow> AList.update k v t = t @ [(k, v)]"
  by (induction t) auto

lemma loaded_pairs_fresh:
  "distinct (map fst ps) \<Longrightarrow> fst ` set t \<inter> fst ` set ps = {} \<Longrightarrow>
   loaded_pairs ps t = t @ map (\<lambda>(k, v). (k, VStr (saved_text k v))) ps"
  by (induction ps arbitrary: t) (auto simp: loaded_pairs_def update_fresh)

lemma reloaded_eq:
  "distinct (map fst t) \<Longrightarrow> reloaded t = map (\<lambda>(k, v). (k, VStr (saved_text k v))) (saved_pairs t)"
  using loaded_pairs_fresh [OF saved_pairs_distinct, of t "[]"] by (simp add: reloaded_def)

lemma saved_text_again: "saved_text k (VStr (saved_text k v)) = saved_text k v"
  by (simp add: saved_text_def read_show_int)

lemma save_tlv_key_again: "save_tlv_key k (VStr (saved_text k v)) = save_tlv_key k v"
  by (simp add: save_tlv_key_def saved_text_def read_show_int)

lemma saved_pairs_reloaded:
  assumes "distinct (map fst t)"
  shows "saved_pairs (reloaded t) = reloaded t"
proof -
  let ?f = "\<lambda>(k, v). (k, VStr (saved_text k v))"
  let ?A = "List.map_filter (\<lambda>k. map_option (Pair k) (map_of t k)) special_history_keys"
  let ?B = "filter (\<lambda>(k, v). \<not> is_special_history_key k) t"
  have r: "reloaded t = map ?f ?A @ map ?f ?B"
    using reloaded_eq [OF assms] by (simp add: saved_pairs_def)
  have A: "List.map_filter (\<lambda>k. map_option (Pair k) (map_of (reloaded t) k)) ks =
     map ?f (List.map_filter (\<lambda>k. map_option (Pair k) (map_of t k)) ks)" for ks
    by (induction ks) (auto simp: List.map_filter_def map_of_reloaded [OF assms] split: option.splits)
  have sp: "\<forall>(k, v) \<in> set ?A. is_special_history_key k"
    by (auto simp: List.map_filter_def is_special_history_key_def any_equal_def list_ex_iff)
  then have "filter (\<lambda>(k, v). \<not> is_special_history_key k) (map ?f ?A) = []"
    by (auto simp: filter_empty_conv)
  moreover have "filter (\<lambda>(k, v). \<not> is_special_history_key k) (map ?f ?B) = map ?f ?B"
    by (auto simp: filter_id_conv)
  ultimately show ?thesis
    unfolding saved_pairs_def A by (simp add: r)
qed

lemma save_definition_again:
  assumes "distinct (map fst t)"
  shows "save_definition (reloaded t) = save_definition t"
proof -
  have s: "save_pairs p (map (\<lambda>(k, v). (k, VStr (saved_text k v))) ps) = save_pairs p ps" for p ps
    by (induction ps) (auto simp: save_pairs_def save_tlv_key_again)
  have "saved_pairs (reloaded t) = map (\<lambda>(k, v). (k, VStr (saved_text k v))) (saved_pairs t)"
    using saved_pairs_reloaded [OF assms] reloaded_eq [OF assms] by simp
  then show ?thesis
    unfolding save_definition_def by (cases "saved_pairs t") (auto simp: save_tlv_key_again s)
qed

lemma save_again:
  assumes "list_all (\<lambda>t. distinct (map fst t)) h"
  shows "save_tlv (map reloaded h) = save_tlv h"
proof -
  have "map (save_definition \<circ> reloaded) h = map save_definition h"
    using assms by (auto simp: list_all_iff save_definition_again)
  then show ?thesis by (simp only: save_tlv_def map_map)
qed

section \<open>Properties\<close>

definition demo_history :: "lua_table list" where
  "demo_history =
     [[(''main'', VStr (''function main()'' @ [NL] @ ''end'' @ [NL])), (''__teliva_timestamp'', VStr (''Mon'' @ [NL]))],
      [(''__teliva_undo'', VInt 0), (''n'', VStr ''5'')]]"

lemma demo_storable: "list_all (\<lambda>t. storable t \<and> distinct (map fst t)) demo_history"
  by code_simp

text \<open>C5: An image with at least one change is read back as it was written, provided that its changes can be
  stored (\<open>storable\<close>): every change has a pair and no key twice, every key is one word that fits into the
  reader's line, no value has a NUL, a value with a blank or a newline ends in a newline and its lines are
  shorter than 1018 bytes, and any other value has no white space and fits on a line with its key.  It then has the
  same number of changes, each with the same keys, every value as the text that was saved, and undo
  targets with the same number.\<close>

theorem image_round_trip:
  assumes "list_all (\<lambda>t. storable t \<and> distinct (map fst t)) h" "h \<noteq> []"
  shows "\<exists>h'. load_tlv (Some (save_tlv h)) = Inr (Some h') \<and> length h' = length h \<and>
     (\<forall>i < length h. \<forall>k. map_of (h' ! i) k = map_option (\<lambda>v. VStr (saved_text k v)) (map_of (h ! i) k)) \<and>
     (\<forall>i < length h. map_option lua_tointeger (map_of (h' ! i) ''__teliva_undo'') =
        map_option lua_tointeger (map_of (h ! i) ''__teliva_undo''))"
proof -
  have d: "\<forall>i < length h. distinct (map fst (h ! i))" and s: "list_all storable h"
    using assms(1) by (auto simp: list_all_iff)
  then have "\<forall>i < length h. \<forall>k. map_of (map reloaded h ! i) k =
      map_option (\<lambda>v. VStr (saved_text k v)) (map_of (h ! i) k)"
    by (simp add: map_of_reloaded)
  with load_save [OF s assms(2)] show ?thesis
    by (intro exI [of _ "map reloaded h"])
      (auto simp: saved_text_def read_show_int option.map_comp comp_def)
qed

theorem image_round_trip_witness:
  "\<exists>h'. load_tlv (Some (save_tlv demo_history)) = Inr (Some h') \<and> length h' = 2 \<and>
     map_of (h' ! 1) ''n'' = Some (VStr ''5'') \<and>
     map_option lua_tointeger (map_of (h' ! 1) ''__teliva_undo'') = Some 0"
proof -
  have "demo_history \<noteq> []" by (simp add: demo_history_def)
  from image_round_trip [OF demo_storable this] obtain h' where h': "load_tlv (Some (save_tlv demo_history)) = Inr (Some h')"
    "length h' = length demo_history"
    "\<forall>i < length demo_history. \<forall>k. map_of (h' ! i) k =
       map_option (\<lambda>v. VStr (saved_text k v)) (map_of (demo_history ! i) k)"
    "\<forall>i < length demo_history. map_option lua_tointeger (map_of (h' ! i) ''__teliva_undo'') =
        map_option lua_tointeger (map_of (demo_history ! i) ''__teliva_undo'')" by blast
  have "length demo_history = 2" "map_of (demo_history ! 1) ''n'' = Some (VStr ''5'')"
    "map_of (demo_history ! 1) ''__teliva_undo'' = Some (VInt 0)"
    by (simp_all add: demo_history_def)
  with h' show ?thesis by (intro exI [of _ h']) (simp add: saved_text_def read_show_int)
qed

text \<open>Saving an image that was just loaded from a saved image writes the same file, byte for
  byte.\<close>

theorem image_save_stable:
  assumes "list_all (\<lambda>t. storable t \<and> distinct (map fst t)) h" "load_tlv (Some (save_tlv h)) = Inr (Some h')"
  shows "save_tlv h' = save_tlv h"
proof -
  have "list_all storable h" "list_all (\<lambda>t. distinct (map fst t)) h"
    using assms(1) by (auto simp: list_all_iff)
  with load_save [of h] load_header save_again [of h] assms(2) show ?thesis by (cases "h = []") auto
qed

theorem image_save_stable_witness:
  "\<exists>h'. load_tlv (Some (save_tlv demo_history)) = Inr (Some h') \<and> save_tlv h' = save_tlv demo_history"
proof -
  have "list_all storable demo_history" using demo_storable by (auto simp: list_all_iff)
  then have "load_tlv (Some (save_tlv demo_history)) = Inr (Some (map reloaded demo_history))"
    by (rule load_save) (simp add: demo_history_def)
  with image_save_stable [OF demo_storable this] show ?thesis by blast
qed

section \<open>What the format loses\<close>

text \<open>A key without value on a last line without newline is read again and again.\<close>

lemma unfinished_key_hangs:
  "load_pairs n (''  c:'') t \<lparr>rest = [], at_eof = True\<rparr> = Inl OutOfFuel"
proof (induction n arbitrary: t)
  case (Suc n)
  have "scan_pair ''c:'' = Inr (''c:'', [])" by (simp add: scan_pair_def scan_word_def isspace_def)
  with Suc show ?case
    by (simp add: line_at_def strip_colon_def load_value_def teliva_load_multiline_string_def ml_loop.simps)
qed simp

text \<open>A value with a tab is cut at the tab.\<close>

lemma tab_truncates:
  "teliva_load_definition 2 (open_read (save_definition [(''k'', VStr (''a'' @ [TAB] @ ''b''))])) =
     Inr (Some [(''k'', VStr ''a'')], \<lparr>rest = [], at_eof = True\<rparr>)"
  by code_simp

text \<open>A value with a space and no final newline swallows the next key.\<close>

lemma missing_newline_swallows:
  "teliva_load_definition 2 (open_read (save_definition [(''k'', VStr ''a b''), (''l'', VStr ''c'')])) =
     Inr (Some [(''k'', VStr (''a b  l: c'' @ [NL]))], \<lparr>rest = [], at_eof = True\<rparr>)"
  by code_simp

end
