(* ===== verification/History.thy ===== *)
theory History
  imports Tlv
begin

text \<open>
  The change history of a program image, \<^verbatim>\<open>src/src/teliva.c\<close>: looking up and updating
  definitions, undo events, notes, the recent-changes view and the loading of definitions into
  the interpreter.  Events are numbered from 1, as in the Lua array.  Running Lua code is a
  parameter.
\<close>

section \<open>Looking up a definition\<close>

datatype binding = Found lua_value | Undo int | NotHere

fun scan_bindings :: "string \<Rightarrow> lua_table \<Rightarrow> binding" where
  "scan_bindings name [] = NotHere"
| "scan_bindings name ((key, v) # t) =
     (if key = ''__teliva_undo'' then Undo (lua_tointeger v)
      else if is_special_history_key key then scan_bindings name t
      else if key = name then Found v
      else scan_bindings name t)"

text \<open>
  The loop of \<open>look_up_definition\<close> from event \<open>i\<close> down.  Besides the value it returns how many
  values it has left on the Lua stack: breaking out at an undo event pops the key instead of
  the table.
\<close>

function look_up_from ::
    "lua_table list \<Rightarrow> nat \<Rightarrow> string \<Rightarrow> nat \<Rightarrow> (lua_value option \<times> nat) res" where
  "look_up_from h i name stack =
     (case i of 0 \<Rightarrow> Inr (None, stack)
      | Suc j \<Rightarrow>
          (case scan_bindings name (h ! j) of
             Found v \<Rightarrow> Inr (Some v, stack)
           | Undo next_i \<Rightarrow>
               if next_i < int i then look_up_from h (nat next_i) name (stack + 1)
               else Inl AssertionFailed
           | NotHere \<Rightarrow> look_up_from h j name stack))"
  by pat_completeness auto
termination by (relation "measure (\<lambda>(h, i, name, stack). i)") auto

declare look_up_from.simps [simp del]

definition look_up_definition :: "lua_table list \<Rightarrow> string \<Rightarrow> lua_value option res" where
  "look_up_definition h name =
     bindR (look_up_from h (length h) name 0) (\<lambda>(v, _). Inr v)"

section \<open>Changing the history\<close>

definition update_definition ::
    "string \<Rightarrow> string \<Rightarrow> string \<Rightarrow> lua_table list \<Rightarrow> lua_table list res" where
  "update_definition time name new_contents h =
     bindR (look_up_definition h name) (\<lambda>old.
     if map_option (c_str \<circ> lua_tostring) old = Some new_contents then Inr h
     else assertR (name \<noteq> [])
       (Inr (h @ [AList.update ''__teliva_timestamp'' (VStr time) [(name, VStr new_contents)]])))"

definition add_undo_event :: "string \<Rightarrow> int \<Rightarrow> lua_table list \<Rightarrow> lua_table list" where
  "add_undo_event time cursor h =
     h @ [[(''__teliva_undo'', VInt cursor), (''__teliva_timestamp'', VStr time)]]"

section \<open>The editor buffer\<close>

record image =
  history :: "lua_table list"
  Current_definition :: string
  editor_buffer :: string
  image_file :: string

definition CURRENT_DEFINITION_LEN :: nat where
  "CURRENT_DEFINITION_LEN = 256"

definition save_to_current_definition_and_editor_buffer :: "string \<Rightarrow> image \<Rightarrow> image res" where
  "save_to_current_definition_and_editor_buffer definition I =
     (let I1 = I\<lparr>Current_definition := take CURRENT_DEFINITION_LEN (c_str definition)\<rparr> in
      bindR (look_up_definition (history I1) (Current_definition I1)) (\<lambda>v.
      Inr (I1\<lparr>editor_buffer := (case v of None \<Rightarrow> [] | Some v \<Rightarrow> c_str (lua_tostring v))\<rparr>)))"

text \<open>\<open>fread\<close> into a zeroed buffer of 8192 bytes; anything after 8190 bytes is lost.\<close>

definition read_editor_buffer :: "nat \<Rightarrow> string \<Rightarrow> string" where
  "read_editor_buffer capacity file = c_str (take capacity file)"

definition load_editor_buffer_to_current_definition_in_image :: "string \<Rightarrow> image \<Rightarrow> image res" where
  "load_editor_buffer_to_current_definition_in_image time I =
     bindR (update_definition time (Current_definition I) (read_editor_buffer 8190 (editor_buffer I))
              (history I)) (\<lambda>h.
     Inr (I\<lparr>history := h, image_file := save_tlv h\<rparr>))"

section \<open>Recent changes\<close>

definition event_at :: "int \<Rightarrow> lua_table list \<Rightarrow> lua_table res" where
  "event_at cursor h =
     (if 1 \<le> cursor \<and> cursor \<le> int (length h) then Inr (h ! nat (cursor - 1)) else Inl NullPointer)"

definition save_note_to_editor_buffer :: "int \<Rightarrow> image \<Rightarrow> image res" where
  "save_note_to_editor_buffer cursor I =
     bindR (event_at cursor (history I)) (\<lambda>t.
     Inr (I\<lparr>editor_buffer := (case map_of t ''__teliva_note'' of None \<Rightarrow> []
        | Some v \<Rightarrow> c_str (lua_tostring v))\<rparr>))"

definition load_note_from_editor_buffer :: "int \<Rightarrow> image \<Rightarrow> image res" where
  "load_note_from_editor_buffer cursor I =
     bindR (event_at cursor (history I)) (\<lambda>t.
     Inr (I\<lparr>history := (history I)[nat (cursor - 1) :=
        AList.update ''__teliva_note'' (VStr (read_editor_buffer 8190 (editor_buffer I))) t]\<rparr>))"

record changes_view =
  changes_cursor :: int
  history_array_size :: int
  changes_quit :: bool

datatype changes_key = CTRL_X_key | Older | Newer | EditNote | UndoAfter | OtherKey

definition open_changes_view :: "image \<Rightarrow> changes_view" where
  "open_changes_view I =
     \<lparr>changes_cursor = int (length (history I)), history_array_size = int (length (history I)),
      changes_quit = False\<rparr>"

text \<open>
  One round of \<open>recent_changes_view\<close>.  \<open>edit\<close> is what the user makes of the note in the
  buffer.  The size is read once, when the view is opened.
\<close>

definition changes_step ::
    "string \<Rightarrow> (string \<Rightarrow> string) \<Rightarrow> changes_key \<Rightarrow> changes_view \<times> image \<Rightarrow> (changes_view \<times> image) res" where
  "changes_step time edit c = (\<lambda>(V, I).
     case c of
       CTRL_X_key \<Rightarrow> Inr (V\<lparr>changes_quit := True\<rparr>, I)
     | Older \<Rightarrow> Inr (if changes_cursor V > 1 then V\<lparr>changes_cursor := changes_cursor V - 1\<rparr> else V, I)
     | Newer \<Rightarrow> Inr (if changes_cursor V < history_array_size V
                    then V\<lparr>changes_cursor := changes_cursor V + 1\<rparr> else V, I)
     | EditNote \<Rightarrow>
         bindR (save_note_to_editor_buffer (changes_cursor V) I) (\<lambda>I1.
         bindR (load_note_from_editor_buffer (changes_cursor V)
                  (I1\<lparr>editor_buffer := edit (editor_buffer I1)\<rparr>)) (\<lambda>I2.
         Inr (V, I2\<lparr>image_file := save_tlv (history I2)\<rparr>)))
     | UndoAfter \<Rightarrow>
         (if changes_cursor V < history_array_size V then
            let h = add_undo_event time (changes_cursor V) (history I) in
            Inr (V, I\<lparr>history := h, image_file := save_tlv h\<rparr>)
          else Inr (V, I))
     | OtherKey \<Rightarrow> Inr (V, I))"

section \<open>Loading definitions into the interpreter\<close>

text \<open>
  The interpreter is a parameter: \<open>binding_exists\<close> tells whether a global is set, \<open>dostring\<close>
  runs a definition and returns its status.
\<close>

fun load_bindings ::
    "('g \<Rightarrow> string \<Rightarrow> bool) \<Rightarrow> (string \<Rightarrow> string \<Rightarrow> 'g \<Rightarrow> int \<times> 'g) \<Rightarrow>
     lua_table \<Rightarrow> 'g \<Rightarrow> (int \<times> int option) \<times> 'g" where
  "load_bindings binding_exists dostring [] G = ((0, None), G)"
| "load_bindings binding_exists dostring ((key, v) # t) G =
     (if key = ''__teliva_undo'' then ((0, Some (lua_tointeger v)), G)
      else if is_special_history_key key then load_bindings binding_exists dostring t G
      else if starts_with key ''doc:'' then load_bindings binding_exists dostring t G
      else if binding_exists G key then load_bindings binding_exists dostring t G
      else (case dostring (lua_tostring v) key G of
              (status, G1) \<Rightarrow>
                if status \<noteq> 0 then ((status, None), G1)
                else load_bindings binding_exists dostring t G1))"

function load_definitions_down ::
    "('g \<Rightarrow> string \<Rightarrow> bool) \<Rightarrow> (string \<Rightarrow> string \<Rightarrow> 'g \<Rightarrow> int \<times> 'g) \<Rightarrow>
     lua_table list \<Rightarrow> nat \<Rightarrow> 'g \<Rightarrow> (int \<times> 'g) res" where
  "load_definitions_down binding_exists dostring h i G =
     (case i of 0 \<Rightarrow> Inr (0, G)
      | Suc j \<Rightarrow>
          (case load_bindings binding_exists dostring (h ! j) G of
             ((status, undo), G1) \<Rightarrow>
               if status \<noteq> 0 then Inr (status, G1)
               else (case undo of
                 None \<Rightarrow> load_definitions_down binding_exists dostring h j G1
               | Some next_i \<Rightarrow>
                   if next_i < int i
                   then load_definitions_down binding_exists dostring h (nat next_i) G1
                   else Inl AssertionFailed)))"
  by pat_completeness auto
termination by (relation "measure (\<lambda>(be, ds, h, i, G). i)") auto

declare load_definitions_down.simps [simp del]

definition load_definitions ::
    "('g \<Rightarrow> string \<Rightarrow> bool) \<Rightarrow> (string \<Rightarrow> string \<Rightarrow> 'g \<Rightarrow> int \<times> 'g) \<Rightarrow>
     lua_table list \<Rightarrow> 'g \<Rightarrow> (int \<times> 'g) res" where
  "load_definitions binding_exists dostring h G =
     load_definitions_down binding_exists dostring h (length h) G"

section \<open>Tests\<close>

text \<open>
  The globals in the order of \<open>lua_next\<close>: name and, for a function, what calling it does: no
  result, or an error object (\<open>None\<close> for \<open>nil\<close>).
\<close>

fun run_tests_loop :: "(string \<times> ('s \<Rightarrow> 'e option option \<times> 's) option) list \<Rightarrow> nat \<Rightarrow>
     'e option \<Rightarrow> 's \<Rightarrow> nat \<times> 'e option \<times> 's" where
  "run_tests_loop [] num_failures first_failure s = (num_failures, first_failure, s)"
| "run_tests_loop ((key, f) # gs) num_failures first_failure s =
     (if \<not> starts_with key ''test_'' then run_tests_loop gs num_failures first_failure s
      else (case f of
              None \<Rightarrow> run_tests_loop gs num_failures first_failure s
            | Some call \<Rightarrow>
                (case call s of
                   (None, s1) \<Rightarrow> run_tests_loop gs num_failures first_failure s1
                 | (Some e, s1) \<Rightarrow>
                     run_tests_loop gs (num_failures + 1)
                       (if first_failure = None then e else first_failure) s1)))"

definition run_tests :: "(string \<times> ('s \<Rightarrow> 'e option option \<times> 's) option) list \<Rightarrow> 's \<Rightarrow>
     ('e option \<times> 's) res" where
  "run_tests globals s =
     (case run_tests_loop globals 0 None s of
        (num_failures, first_failure, s1) \<Rightarrow>
          if num_failures = 0 then Inr (None, s1)
          else assertR (first_failure \<noteq> None) (Inr (first_failure, s1)))"

section \<open>Resuming the editor\<close>

definition save_editor_state ::
    "string \<Rightarrow> string \<Rightarrow> int \<Rightarrow> int \<Rightarrow> int \<Rightarrow> int \<Rightarrow> string option \<Rightarrow> string option" where
  "save_editor_state image_name current rowoff coloff cy cx file =
     (if current = [] then file
      else Some
        (''- image: '' @ image_name @ [NL] @
         ''  definition: '' @ current @ [NL] @
         ''  rowoff: '' @ show_int rowoff @ [NL] @
         ''  coloff: '' @ show_int coloff @ [NL] @
         ''  cy: '' @ show_int cy @ [NL] @
         ''  cx: '' @ show_int cx @ [NL]))"

text \<open>\<open>None\<close> when there is no state or it belongs to another image.\<close>

definition editor_view_in_progress :: "nat \<Rightarrow> string \<Rightarrow> string option \<Rightarrow> lua_table option res" where
  "editor_view_in_progress fuel image_name file =
     (case file of None \<Rightarrow> Inr None
      | Some s \<Rightarrow>
          bindR (teliva_load_definition fuel (open_read s)) (\<lambda>(d, _).
          case d of None \<Rightarrow> Inl NullPointer
          | Some t \<Rightarrow>
              (case map_of t ''image'' of None \<Rightarrow> Inl NullPointer
               | Some v \<Rightarrow> Inr (if lua_tostring v = image_name then Some t else None))))"

definition table_int :: "lua_table \<Rightarrow> string \<Rightarrow> int" where
  "table_int t k = (case map_of t k of None \<Rightarrow> 0 | Some v \<Rightarrow> lua_tointeger v)"

text \<open>What \<open>restore_editor_view\<close> hands to \<open>editFrom\<close>: definition, rowoff, coloff, cy, cx.\<close>

definition restore_editor_view :: "lua_table \<Rightarrow> (string \<times> int \<times> int \<times> int \<times> int) res" where
  "restore_editor_view t =
     (case map_of t ''definition'' of None \<Rightarrow> Inl NullPointer
      | Some d \<Rightarrow> Inr (lua_tostring d, table_int t ''rowoff'', table_int t ''coloff'',
                      table_int t ''cy'', table_int t ''cx''))"

section \<open>The state after each event\<close>

text \<open>
  An event is one undo or some definitions; an undo event points back before itself.
\<close>

abbreviation undo_key :: string where "undo_key \<equiv> ''__teliva_undo''"

definition wf_event :: "lua_table \<Rightarrow> bool" where
  "wf_event t \<longleftrightarrow> distinct (map fst t) \<and>
     (map_of t undo_key \<noteq> None \<longrightarrow> list_all (\<lambda>(k, v). is_special_history_key k) t)"

definition undo_target :: "lua_table \<Rightarrow> int option" where
  "undo_target t = map_option lua_tointeger (map_of t undo_key)"

definition wf_history :: "lua_table list \<Rightarrow> bool" where
  "wf_history h \<longleftrightarrow> (\<forall>j < length h. wf_event (h ! j) \<and>
     (\<forall>k. undo_target (h ! j) = Some k \<longrightarrow> k \<le> int j))"

text \<open>The definitions in force after the first \<open>i\<close> events.\<close>

function state_at :: "lua_table list \<Rightarrow> nat \<Rightarrow> string \<Rightarrow> lua_value option" where
  "state_at h i =
     (case i of 0 \<Rightarrow> Map.empty
      | Suc j \<Rightarrow>
          (case undo_target (h ! j) of
             Some k \<Rightarrow> if k \<le> int j then state_at h (nat k) else Map.empty
           | None \<Rightarrow> \<lambda>name. if is_special_history_key name then None
                            else case map_of (h ! j) name of Some v \<Rightarrow> Some v | None \<Rightarrow> state_at h j name))"
  by pat_completeness auto
termination by (relation "measure (\<lambda>(h, i). i)") auto

declare state_at.simps [simp del]

lemma state_at_0 [simp]: "state_at h 0 = Map.empty"
  by (simp add: state_at.simps)

lemma state_at_Suc:
  "state_at h (Suc j) =
     (case undo_target (h ! j) of
        Some k \<Rightarrow> if k \<le> int j then state_at h (nat k) else Map.empty
      | None \<Rightarrow> \<lambda>name. if is_special_history_key name then None
                       else case map_of (h ! j) name of Some v \<Rightarrow> Some v | None \<Rightarrow> state_at h j name)"
  by (subst state_at.simps) simp

lemma undo_key_special [simp]: "is_special_history_key undo_key"
  by (simp add: is_special_history_key_def special_history_keys_def any_equal_def)

lemma scan_special:
  assumes "list_all (\<lambda>(k, v). is_special_history_key k) t"
  shows "scan_bindings name t = (case undo_target t of Some k \<Rightarrow> Undo k | None \<Rightarrow> NotHere)"
  using assms by (induction name t rule: scan_bindings.induct) (auto simp: undo_target_def)

lemma scan_no_undo:
  assumes "undo_target t = None" "distinct (map fst t)"
  shows "scan_bindings name t =
     (if is_special_history_key name then NotHere
      else case map_of t name of Some v \<Rightarrow> Found v | None \<Rightarrow> NotHere)"
  using assms
proof (induction t)
  case (Cons kv t)
  obtain key v where kv: "kv = (key, v)" by (cases kv)
  from Cons have "undo_target t = None" "distinct (map fst t)" "undo_key \<noteq> key"
    by (auto simp: undo_target_def kv split: if_splits)
  with Cons.IH kv show ?case by (cases "is_special_history_key key") auto
qed simp

lemma special_state: "is_special_history_key name \<Longrightarrow> state_at h i name = None"
proof (induction h i rule: state_at.induct)
  case (1 h i)
  then show ?case by (cases i) (auto simp: state_at_Suc split: option.splits)
qed

lemma scan_wf:
  assumes "wf_event t"
  shows "scan_bindings name t =
     (case undo_target t of
        Some k \<Rightarrow> Undo k
      | None \<Rightarrow> if is_special_history_key name then NotHere
                else case map_of t name of Some v \<Rightarrow> Found v | None \<Rightarrow> NotHere)"
proof (cases "undo_target t")
  case None
  with assms scan_no_undo show ?thesis by (simp add: wf_event_def)
next
  case (Some k)
  with assms scan_special show ?thesis by (auto simp: wf_event_def undo_target_def)
qed

lemma look_up_from_state:
  assumes "wf_history h" "i \<le> length h"
  shows "\<exists>st. look_up_from h i name s = Inr (state_at h i name, st)"
  using assms
proof (induction h i name s rule: look_up_from.induct)
  case (1 h i name s)
  show ?case
  proof (cases i)
    case 0
    then show ?thesis by (simp add: look_up_from.simps)
  next
    case (Suc j)
    with "1.prems" have j: "j < length h" "wf_event (h ! j)"
      "\<And>k. undo_target (h ! j) = Some k \<Longrightarrow> k \<le> int j" by (auto simp: wf_history_def)
    note scan = scan_wf [OF j(2), of name]
    show ?thesis
    proof (cases "undo_target (h ! j)")
      case (Some k)
      with j(3) have k: "k \<le> int j" by blast
      with "1.IH"(1) [OF Suc, of k] Some scan "1.prems" j(1) Suc show ?thesis
        by (subst look_up_from.simps) (auto simp: state_at_Suc)
    next
      case None
      with "1.IH"(2) [OF Suc] scan "1.prems" j(1) Suc show ?thesis
        by (subst look_up_from.simps) (auto simp: state_at_Suc special_state split: option.splits if_splits)
    qed
  qed
qed

definition current :: "lua_table list \<Rightarrow> string \<Rightarrow> lua_value option" where
  "current h = state_at h (length h)"

lemma look_up_current: "wf_history h \<Longrightarrow> look_up_definition h name = Inr (current h name)"
  using look_up_from_state [of h "length h" name 0] by (auto simp: look_up_definition_def current_def)

lemma state_at_append: "i \<le> length h \<Longrightarrow> wf_history h \<Longrightarrow> state_at (h @ h') i = state_at h i"
proof (induction h i rule: state_at.induct)
  case (1 h i)
  show ?case
  proof (cases i)
    case (Suc j)
    with "1.prems" have j: "j < length h" "(h @ h') ! j = h ! j"
      "\<And>k. undo_target (h ! j) = Some k \<Longrightarrow> k \<le> int j" by (auto simp: wf_history_def nth_append)
    show ?thesis
    proof (cases "undo_target (h ! j)")
      case None
      with "1.IH"(1) [OF Suc None] "1.prems" j Suc None show ?thesis
        by (auto simp: state_at_Suc fun_eq_iff split: option.splits)
    next
      case (Some k)
      with j(3) have "k \<le> int j" by blast
      with "1.IH"(2) [OF Suc Some] "1.prems" j Suc Some show ?thesis by (simp add: state_at_Suc)
    qed
  qed simp
qed

lemma wf_history_append:
  assumes "wf_history h" "wf_event t" "\<And>k. undo_target t = Some k \<Longrightarrow> k \<le> int (length h)"
  shows "wf_history (h @ [t])"
  using assms by (auto simp: wf_history_def nth_append less_Suc_eq)

lemma current_append:
  assumes "wf_history h"
  shows "current (h @ [t]) =
    (case undo_target t of
        Some k \<Rightarrow> if k \<le> int (length h) then state_at h (nat k) else Map.empty
      | None \<Rightarrow> \<lambda>name. if is_special_history_key name then None
                       else case map_of t name of Some v \<Rightarrow> Some v | None \<Rightarrow> current h name)"
  using state_at_append [OF _ assms]
  by (auto simp: current_def state_at_Suc nth_append fun_eq_iff split: option.splits)

lemma add_undo_event_ok:
  assumes "wf_history h" "0 \<le> cursor" "cursor \<le> int (length h)"
  shows "wf_history (add_undo_event time cursor h) \<and>
     current (add_undo_event time cursor h) = state_at h (nat cursor)"
proof -
  let ?t = "[(undo_key, VInt cursor), (''__teliva_timestamp'', VStr time)]"
  have u: "undo_target ?t = Some cursor" by (simp add: undo_target_def)
  have "wf_event ?t"
    by (simp add: wf_event_def is_special_history_key_def special_history_keys_def any_equal_def)
  with assms u have "wf_history (h @ [?t])" by (intro wf_history_append) auto
  with current_append [OF assms(1), of ?t] u assms show ?thesis by (simp add: add_undo_event_def)
qed

text \<open>The event that an edit adds.\<close>

definition edit_event :: "string \<Rightarrow> string \<Rightarrow> string \<Rightarrow> lua_table" where
  "edit_event time name new = [(name, VStr new), (''__teliva_timestamp'', VStr time)]"

lemma update_definition_ok:
  assumes "wf_history h" "name \<noteq> []" "\<not> is_special_history_key name"
    and "NUL \<notin> set new" "\<And>v. current h name = Some v \<Longrightarrow> NUL \<notin> set (lua_tostring v)"
  shows "\<exists>h'. update_definition time name new h = Inr h' \<and> wf_history h' \<and>
     map_option lua_tostring (current h' name) = Some new \<and>
     (\<forall>other. other \<noteq> name \<longrightarrow> current h' other = current h other) \<and>
     h' = (if map_option lua_tostring (current h name) = Some new then h else h @ [edit_event time name new])"
proof (cases "map_option lua_tostring (current h name) = Some new")
  case True
  then have "map_option (c_str \<circ> lua_tostring) (current h name) = Some new"
    using assms(4) c_str_id by auto
  with True assms show ?thesis by (simp add: update_definition_def look_up_current)
next
  case False
  let ?t = "edit_event time name new"
  have ts: "name \<noteq> ''__teliva_timestamp''" "name \<noteq> undo_key"
    using assms(3) by (auto simp: is_special_history_key_def special_history_keys_def any_equal_def)
  then have t: "AList.update ''__teliva_timestamp'' (VStr time) [(name, VStr new)] = ?t" by (simp add: edit_event_def)
  have u: "undo_target ?t = None" using ts by (simp add: undo_target_def edit_event_def)
  have "wf_event ?t" using ts by (simp add: wf_event_def edit_event_def)
  with assms(1) u have wf: "wf_history (h @ [?t])" by (intro wf_history_append) auto
  have "map_option (c_str \<circ> lua_tostring) (current h name) \<noteq> Some new"
    using False assms(5) c_str_id by (cases "current h name") auto
  then have "update_definition time name new h = Inr (h @ [?t])"
    using assms(1,2) t by (simp add: update_definition_def look_up_current)
  moreover have "current (h @ [?t]) name = Some (VStr new)"
    using current_append [OF assms(1), of ?t] u ts assms(3) by (simp add: edit_event_def)
  moreover have "current (h @ [?t]) other = current h other" if "other \<noteq> name" for other
  proof (cases "is_special_history_key other")
    case True
    with current_append [OF assms(1), of ?t] u show ?thesis by (simp add: current_def special_state)
  next
    case no: False
    then have "other \<noteq> ''__teliva_timestamp''"
      by (auto simp: is_special_history_key_def special_history_keys_def any_equal_def)
    with current_append [OF assms(1), of ?t] u that no show ?thesis by (simp add: edit_event_def)
  qed
  ultimately show ?thesis using wf False by auto
qed

section \<open>Histories that survive saving and loading\<close>

text \<open>
  What the history needs of the file format: tables that can be saved come back with the same
  undo targets and the same text for every definition.
\<close>

locale image_format =
  fixes save :: "lua_table list \<Rightarrow> string"
    and load :: "string \<Rightarrow> lua_table list option res"
    and ok :: "lua_table \<Rightarrow> bool"
    and norm :: "lua_table \<Rightarrow> lua_table"
  assumes load_save: "list_all ok h \<Longrightarrow> h \<noteq> [] \<Longrightarrow> load (save h) = Inr (Some (map norm h))"
    and norm_undo: "ok t \<Longrightarrow> undo_target (norm t) = undo_target t"
    and norm_text: "ok t \<Longrightarrow> \<not> is_special_history_key k \<Longrightarrow>
      map_option lua_tostring (map_of (norm t) k) = map_option lua_tostring (map_of t k)"
    and norm_wf: "ok t \<Longrightarrow> wf_event t \<Longrightarrow> wf_event (norm t)"
begin

lemma norm_history:
  assumes "list_all ok h" "wf_history h"
  shows "wf_history (map norm h)"
  using assms by (auto simp: wf_history_def list_all_length norm_undo norm_wf)

lemma norm_state:
  assumes "list_all ok h" "i \<le> length h"
  shows "map_option lua_tostring (state_at (map norm h) i name) = map_option lua_tostring (state_at h i name)"
  using assms
proof (induction h i rule: state_at.induct)
  case (1 h i)
  show ?case
  proof (cases i)
    case (Suc j)
    with "1.prems" have j: "j < length h" "ok (h ! j)" by (auto simp: list_all_length)
    show ?thesis
    proof (cases "undo_target (h ! j)")
      case (Some k)
      with "1.IH"(2) [OF Suc Some] "1.prems" j Suc show ?thesis
        by (auto simp: state_at_Suc norm_undo)
    next
      case None
      show ?thesis
      proof (cases "is_special_history_key name")
        case True
        then show ?thesis by (simp add: special_state)
      next
        case False
        have "map_of (h ! j) name = None \<Longrightarrow>
            map_option lua_tostring (state_at (map norm h) j name) = map_option lua_tostring (state_at h j name)"
          using "1.IH"(1) [OF Suc None False] "1.prems" Suc by simp
        with norm_text [OF j(2) False] None False j Suc show ?thesis
          by (auto simp: state_at_Suc norm_undo split: option.splits)
      qed
    qed
  qed simp
qed

lemma reload:
  assumes "list_all ok h" "wf_history h" "h \<noteq> []"
  shows "\<exists>h'. load (save h) = Inr (Some h') \<and> wf_history h' \<and> length h' = length h \<and>
     (\<forall>name. map_option lua_tostring (current h' name) = map_option lua_tostring (current h name))"
  using load_save [OF assms(1,3)] norm_history [OF assms(1,2)] norm_state [OF assms(1)]
  by (auto simp: current_def)

end

lemma map_fst_pair: "map (fst \<circ> (\<lambda>(k, v). (k, f k v))) ps = map fst ps"
  by (induction ps) auto

interpretation tlv_format: image_format save_tlv "\<lambda>s. load_tlv (Some s)"
  "\<lambda>t. storable t \<and> distinct (map fst t)" reloaded
proof unfold_locales
  fix h assume h: "list_all (\<lambda>t. storable t \<and> distinct (map fst t)) h" "h \<noteq> []"
  then have "list_all storable h" by (auto simp: list_all_iff)
  then show "load_tlv (Some (save_tlv h)) = Inr (Some (map reloaded h))" using h(2) by (rule load_save)
next
  fix t assume t: "storable t \<and> distinct (map fst t)"
  then show "undo_target (reloaded t) = undo_target t"
    by (simp add: undo_target_def map_of_reloaded option.map_comp comp_def saved_text_def read_show_int)
  show "map_option lua_tostring (map_of (reloaded t) k) = map_option lua_tostring (map_of t k)"
    if "\<not> is_special_history_key k" for k
  proof -
    have "k \<noteq> undo_key" using that by auto
    with t show ?thesis by (simp add: map_of_reloaded option.map_comp comp_def saved_text_def)
  qed
  show "wf_event (reloaded t)" if "wf_event t"
  proof -
    have d: "distinct (map fst (reloaded t))"
      using t saved_pairs_distinct [of t] by (simp add: reloaded_eq map_fst_pair)
    moreover have "list_all (\<lambda>(k, v). is_special_history_key k) (reloaded t)"
      if sp: "list_all (\<lambda>(k, v). is_special_history_key k) t"
      using sp t map_of_reloaded [of t] d by (fastforce simp: list_all_iff dest: map_of_SomeD
          map_of_is_SomeI)
    ultimately show ?thesis using that t by (auto simp: wf_event_def map_of_reloaded)
  qed
qed

section \<open>The Lua stack\<close>

text \<open>Each undo event on the way leaves one value behind.\<close>

function undo_hops :: "lua_table list \<Rightarrow> nat \<Rightarrow> nat" where
  "undo_hops h i =
     (case i of 0 \<Rightarrow> 0
      | Suc j \<Rightarrow> (case undo_target (h ! j) of
           Some k \<Rightarrow> if k \<le> int j then Suc (undo_hops h (nat k)) else 0
         | None \<Rightarrow> undo_hops h j))"
  by pat_completeness auto
termination by (relation "measure (\<lambda>(h, i). i)") auto

declare undo_hops.simps [simp del]

lemma look_up_leaves:
  assumes "wf_history h" "i \<le> length h" "state_at h i name = None"
  shows "look_up_from h i name s = Inr (None, s + undo_hops h i)"
  using assms
proof (induction h i name s rule: look_up_from.induct)
  case (1 h i name s)
  show ?case
  proof (cases i)
    case 0
    then show ?thesis by (simp add: look_up_from.simps undo_hops.simps)
  next
    case (Suc j)
    with "1.prems" have j: "j < length h" "wf_event (h ! j)"
      "\<And>k. undo_target (h ! j) = Some k \<Longrightarrow> k \<le> int j" by (auto simp: wf_history_def)
    note scan = scan_wf [OF j(2), of name]
    show ?thesis
    proof (cases "undo_target (h ! j)")
      case (Some k)
      with j(3) have k: "k \<le> int j" by blast
      with "1.IH"(1) [OF Suc, of k] Some scan "1.prems" j(1) Suc show ?thesis
        by (subst look_up_from.simps) (auto simp: state_at_Suc undo_hops.simps [of h "Suc j"])
    next
      case None
      with "1.IH"(2) [OF Suc] scan "1.prems" j(1) Suc show ?thesis
        by (subst look_up_from.simps)
          (auto simp: state_at_Suc special_state undo_hops.simps [of h "Suc j"] split: option.splits if_splits)
    qed
  qed
qed

section \<open>Loading definitions\<close>

text \<open>
  What is assumed of running a definition: it succeeds and sets the global it is named after,
  and no other.
\<close>

definition defines_global :: "('g \<Rightarrow> string \<Rightarrow> bool) \<Rightarrow> (string \<Rightarrow> string \<Rightarrow> 'g \<Rightarrow> int \<times> 'g) \<Rightarrow> bool" where
  "defines_global be ds \<longleftrightarrow>
     (\<forall>code key G. fst (ds code key G) = 0 \<and> (\<forall>k. be (snd (ds code key G)) k \<longleftrightarrow> k = key \<or> be G k))"

text \<open>The interpreter with a record of what it ran.\<close>

definition traced :: "(string \<Rightarrow> string \<Rightarrow> 'g \<Rightarrow> int \<times> 'g) \<Rightarrow> string \<Rightarrow> string \<Rightarrow>
    'g \<times> (string \<times> string) list \<Rightarrow> int \<times> ('g \<times> (string \<times> string) list)" where
  "traced ds code key = (\<lambda>(G, tr). let (status, G1) = ds code key G in (status, (G1, tr @ [(key, code)])))"

definition to_run :: "('g \<Rightarrow> string \<Rightarrow> bool) \<Rightarrow> 'g \<Rightarrow> string \<Rightarrow> bool" where
  "to_run be G k \<longleftrightarrow> \<not> is_special_history_key k \<and> \<not> starts_with k ''doc:'' \<and> \<not> be G k"

lemma load_bindings_special:
  assumes "list_all (\<lambda>(k, v). is_special_history_key k) t"
  shows "load_bindings be ds t G = ((0, undo_target t), G)"
  using assms by (induction be ds t G rule: load_bindings.induct) (auto simp: undo_target_def)

definition ran :: "('g \<Rightarrow> string \<Rightarrow> bool) \<Rightarrow> 'g \<Rightarrow> lua_table \<Rightarrow> (string \<times> string) list" where
  "ran be G t = map (\<lambda>(k, v). (k, lua_tostring v)) (filter (\<lambda>(k, v). to_run be G k) t)"

lemma ran_simps [simp]:
  "ran be G [] = []"
  "ran be G ((k, v) # t) = (if to_run be G k then (k, lua_tostring v) # ran be G t else ran be G t)"
  by (simp_all add: ran_def)

lemma ran_other:
  assumes "key \<notin> fst ` set t" "\<And>k. be G1 k \<longleftrightarrow> k = key \<or> be G k"
  shows "ran be G1 t = ran be G t"
proof -
  have "filter (\<lambda>(k, v). to_run be G1 k) t = filter (\<lambda>(k, v). to_run be G k) t"
    using assms by (intro filter_cong) (auto simp: to_run_def rev_image_eqI)
  then show ?thesis by (simp add: ran_def)
qed

lemma load_bindings_run:
  assumes "defines_global be ds" "distinct (map fst t)" "undo_target t = None"
  shows "\<exists>G'. load_bindings (\<lambda>(G, tr). be G) (traced ds) t (G, tr) = ((0, None), (G', tr @ ran be G t)) \<and>
     (\<forall>k. be G' k \<longleftrightarrow> be G k \<or> k \<in> fst ` set (ran be G t))"
  using assms(2,3)
proof (induction t arbitrary: G tr)
  case (Cons kv t)
  obtain key v where kv: "kv = (key, v)" by (cases kv)
  from Cons.prems have t: "undo_target t = None" "distinct (map fst t)" "undo_key \<noteq> key"
    "key \<notin> fst ` set t"
    by (auto simp: undo_target_def kv split: if_splits)
  show ?case
  proof (cases "to_run be G key")
    case False
    with Cons.IH [OF t(2,1), of G tr] t(3) kv show ?thesis by (auto simp: to_run_def)
  next
    case True
    obtain status G1 where ds: "ds (lua_tostring v) key G = (status, G1)" by fastforce
    with assms(1) have G1: "status = 0" "\<And>k. be G1 k \<longleftrightarrow> k = key \<or> be G k"
      unfolding defines_global_def by (metis fst_conv snd_conv)+
    have "load_bindings (\<lambda>(G, tr). be G) (traced ds) (kv # t) (G, tr) =
        load_bindings (\<lambda>(G, tr). be G) (traced ds) t (G1, tr @ [(key, lua_tostring v)])"
      using True t(3) ds G1(1) by (simp add: kv to_run_def traced_def)
    with Cons.IH [OF t(2,1), of G1 "tr @ [(key, lua_tostring v)]"] ran_other [OF t(4) G1(2)] True G1(2) kv
    show ?thesis by auto
  qed
qed simp

lemma map_of_ran:
  assumes "distinct (map fst t)"
  shows "map_of (ran be G t) k = (if to_run be G k then map_option lua_tostring (map_of t k) else None)"
  using assms by (induction t) auto

lemma ran_distinct: "distinct (map fst t) \<Longrightarrow> distinct (map fst (ran be G t))"
proof (induction t)
  case (Cons kv t)
  have "fst ` set (ran be G t) \<subseteq> fst ` set t" by (force simp: ran_def)
  with Cons show ?case by (cases kv) auto
qed simp

lemma load_definitions_down_run:
  assumes "defines_global be ds" "wf_history h" "i \<le> length h"
  shows "\<exists>G' new. load_definitions_down (\<lambda>(G, tr). be G) (traced ds) h i (G, tr) = Inr (0, (G', tr @ new)) \<and>
     distinct (map fst new) \<and>
     (\<forall>k. map_of new k = (if to_run be G k then map_option lua_tostring (state_at h i k) else None))"
  using assms(3)
proof (induction i arbitrary: G tr rule: less_induct)
  case (less i)
  show ?case
  proof (cases i)
    case 0
    then show ?thesis by (simp add: load_definitions_down.simps)
  next
    case (Suc j)
    with less.prems assms(2) have j: "j < length h" "wf_event (h ! j)"
      "\<And>k. undo_target (h ! j) = Some k \<Longrightarrow> k \<le> int j" by (auto simp: wf_history_def)
    show ?thesis
    proof (cases "undo_target (h ! j)")
      case (Some u)
      with j(3) have u: "u \<le> int j" by blast
      have "list_all (\<lambda>(k, v). is_special_history_key k) (h ! j)"
        using j(2) Some by (auto simp: wf_event_def undo_target_def)
      from load_bindings_special [OF this] Some
      have "load_bindings (\<lambda>(G, tr). be G) (traced ds) (h ! j) (G, tr) = ((0, Some u), (G, tr))" by simp
      then have "load_definitions_down (\<lambda>(G, tr). be G) (traced ds) h i (G, tr) =
          load_definitions_down (\<lambda>(G, tr). be G) (traced ds) h (nat u) (G, tr)"
        using u Suc by (subst load_definitions_down.simps) simp
      moreover have "state_at h i = state_at h (nat u)" using Some u Suc by (simp add: state_at_Suc)
      moreover have "nat u < i" "nat u \<le> length h" using u Suc less.prems by auto
      ultimately show ?thesis using less.IH [of "nat u" G tr] by presburger
    next
      case None
      from j(2) have d: "distinct (map fst (h ! j))" by (simp add: wf_event_def)
      from load_bindings_run [OF assms(1) d None] obtain G1 where G1:
        "load_bindings (\<lambda>(G, tr). be G) (traced ds) (h ! j) (G, tr) = ((0, None), (G1, tr @ ran be G (h ! j)))"
        "\<And>k. be G1 k \<longleftrightarrow> be G k \<or> k \<in> fst ` set (ran be G (h ! j))" by blast
      from less.IH [of j G1 "tr @ ran be G (h ! j)"] Suc less.prems obtain G2 new where new:
        "load_definitions_down (\<lambda>(G, tr). be G) (traced ds) h j (G1, tr @ ran be G (h ! j)) =
           Inr (0, (G2, (tr @ ran be G (h ! j)) @ new))" "distinct (map fst new)"
        "\<And>k. map_of new k = (if to_run be G1 k then map_option lua_tostring (state_at h j k) else None)"
        by auto
      have keys: "k \<in> fst ` set (ran be G (h ! j)) \<longleftrightarrow> to_run be G k \<and> map_of (h ! j) k \<noteq> None" for k
        using map_of_ran [OF d, of be G k] map_of_eq_None_iff [of "ran be G (h ! j)" k] by (auto split: if_splits)
      have "fst ` set (ran be G (h ! j)) \<inter> fst ` set new = {}"
      proof -
        have "k \<in> fst ` set new \<Longrightarrow> \<not> be G1 k" for k
          using new(3) [of k] map_of_eq_None_iff [of new k] by (auto simp: to_run_def split: if_splits)
        with G1(2) show ?thesis by blast
      qed
      then have dist: "distinct (map fst (ran be G (h ! j) @ new))"
        using ran_distinct [OF d] new(2) by simp
      have m: "map_of (ran be G (h ! j) @ new) k =
          (if to_run be G k then map_option lua_tostring (state_at h i k) else None)" for k
        using new(3) [of k] map_of_ran [OF d, of be G k] keys [of k] G1(2) [of k] None
        by (auto simp: map_add_def Suc state_at_Suc to_run_def split: option.splits if_splits)
      have "load_definitions_down (\<lambda>(G, tr). be G) (traced ds) h i (G, tr) =
          Inr (0, (G2, tr @ (ran be G (h ! j) @ new)))"
        using G1(1) new(1) Suc by (subst load_definitions_down.simps) simp
      with dist m show ?thesis by blast
    qed
  qed
qed

section \<open>The recent-changes view\<close>

lemma note_event:
  assumes "wf_event t"
  shows "wf_event (AList.update ''__teliva_note'' v t)" "undo_target (AList.update ''__teliva_note'' v t) = undo_target t"
    "\<not> is_special_history_key k \<Longrightarrow> map_of (AList.update ''__teliva_note'' v t) k = map_of t k"
proof -
  have sp: "is_special_history_key ''__teliva_note''"
    by (simp add: is_special_history_key_def special_history_keys_def any_equal_def)
  show u: "undo_target (AList.update ''__teliva_note'' v t) = undo_target t"
    by (simp add: undo_target_def update_conv')
  show "map_of (AList.update ''__teliva_note'' v t) k = map_of t k" if "\<not> is_special_history_key k"
    using that sp by (auto simp: update_conv')
  have "list_all (\<lambda>(k, v). is_special_history_key k) (AList.update ''__teliva_note'' v t)"
    if "list_all (\<lambda>(k, v). is_special_history_key k) t"
    using that sp by (induction t) auto
  with assms u show "wf_event (AList.update ''__teliva_note'' v t)"
    by (auto simp: wf_event_def distinct_update update_conv')
qed

lemma note_history:
  assumes "wf_history h" "j < length h"
  shows "wf_history (h[j := AList.update ''__teliva_note'' v (h ! j)])"
  using assms note_event by (auto simp: wf_history_def nth_list_update)

lemma note_state:
  assumes "wf_history h" "i \<le> length h"
  shows "state_at (h[j := AList.update ''__teliva_note'' v (h ! j)]) i = state_at h i"
  using assms
proof (induction h i rule: state_at.induct)
  case (1 h i)
  show ?case
  proof (cases i)
    case (Suc n)
    let ?h = "h[j := AList.update ''__teliva_note'' v (h ! j)]"
    from "1.prems" Suc have n: "n < length h" "wf_event (h ! n)"
      "\<And>k. undo_target (h ! n) = Some k \<Longrightarrow> k \<le> int n" by (auto simp: wf_history_def)
    have u: "undo_target (?h ! n) = undo_target (h ! n)"
      using note_event(2) [OF n(2)] n(1) by (cases "n = j") auto
    show ?thesis
    proof (cases "undo_target (h ! n)")
      case (Some k)
      with "1.IH"(2) [OF Suc Some n(3) [OF Some]] "1.prems" n(3) [OF Some] n(1) Suc u show ?thesis
        by (simp add: state_at_Suc)
    next
      case None
      have "map_of (?h ! n) k = map_of (h ! n) k" if "\<not> is_special_history_key k" for k
        using note_event(3) [OF n(2) that] n(1) by (cases "n = j") auto
      moreover have "state_at ?h n k = state_at h n k"
        if "\<not> is_special_history_key k" "map_of (h ! n) k = None" for k
        using "1.IH"(1) [OF Suc None that] "1.prems" n(1) by simp
      ultimately show ?thesis using None u Suc
        by (auto simp: state_at_Suc fun_eq_iff split: option.splits)
    qed
  qed simp
qed

text \<open>
  The view stays inside the events it was opened on; those events keep their meaning, and
  every event added is an undo to one of them.
\<close>

definition changes_inv :: "lua_table list \<Rightarrow> changes_view \<times> image \<Rightarrow> bool" where
  "changes_inv h0 = (\<lambda>(V, I).
     1 \<le> changes_cursor V \<and> changes_cursor V \<le> history_array_size V \<and>
     history_array_size V = int (length h0) \<and> length h0 \<le> length (history I) \<and>
     wf_history (history I) \<and> (\<forall>i \<le> length h0. state_at (history I) i = state_at h0 i))"

lemma changes_step_inv:
  assumes "changes_inv h0 (V, I)"
  shows "\<exists>V' I'. changes_step time edit c (V, I) = Inr (V', I') \<and> changes_inv h0 (V', I') \<and>
     (c = UndoAfter \<longrightarrow> changes_cursor V < history_array_size V \<longrightarrow>
        current (history I') = state_at h0 (nat (changes_cursor V))) \<and>
     (c \<noteq> UndoAfter \<longrightarrow> current (history I') = current (history I))"
proof -
  note inv = assms [unfolded changes_inv_def, simplified]
  let ?c = "changes_cursor V"
  show ?thesis
  proof (cases c)
    case EditNote
    let ?j = "nat (?c - 1)"
    have j: "?j < length (history I)" using inv by linarith
    have e: "event_at ?c (history J) = Inr (history J ! ?j)" if "history J = history I" for J
      using inv that by (auto simp: event_at_def)
    obtain s where s: "changes_step time edit EditNote (V, I) =
        Inr (V, I\<lparr>editor_buffer := s, history := (history I)[?j := AList.update ''__teliva_note''
               (VStr (read_editor_buffer 8190 s)) (history I ! ?j)],
             image_file := save_tlv ((history I)[?j := AList.update ''__teliva_note''
               (VStr (read_editor_buffer 8190 s)) (history I ! ?j)])\<rparr>)"
      by (auto simp: changes_step_def save_note_to_editor_buffer_def
          load_note_from_editor_buffer_def e)
    show ?thesis using inv EditNote note_history [of "history I" ?j] note_state [of "history I" _ ?j] j
      by (auto simp: s changes_inv_def current_def)
  next
    case UndoAfter
    show ?thesis
    proof (cases "?c < history_array_size V")
      case True
      from inv have c: "0 \<le> ?c" "?c \<le> int (length (history I))" by linarith+
      note A = add_undo_event_ok [OF _ c, of time]
      have "state_at (add_undo_event time ?c (history I)) i = state_at h0 i" if "i \<le> length h0" for i
        using state_at_append [of i "history I"] inv that by (simp add: add_undo_event_def)
      with A inv UndoAfter True show ?thesis
        by (auto simp: changes_step_def changes_inv_def Let_def add_undo_event_def)
    qed (use inv UndoAfter in \<open>auto simp: changes_step_def changes_inv_def\<close>)
  qed (use inv in \<open>auto simp: changes_step_def changes_inv_def\<close>)
qed

text \<open>A session of keys; \<open>edits\<close> says what becomes of each note.\<close>

fun changes_run :: "string \<Rightarrow> ((string \<Rightarrow> string) \<times> changes_key) list \<Rightarrow> changes_view \<times> image \<Rightarrow>
    (changes_view \<times> image) res" where
  "changes_run time [] S = Inr S"
| "changes_run time ((edit, c) # cs) S =
     (if changes_quit (fst S) then Inr S
      else bindR (changes_step time edit c S) (changes_run time cs))"

lemma changes_run_inv:
  "changes_inv h0 S \<Longrightarrow> \<exists>S'. changes_run time cs S = Inr S' \<and> changes_inv h0 S'"
proof (induction cs arbitrary: S)
  case (Cons ec cs)
  obtain edit c where ec: "ec = (edit, c)" by (cases ec)
  obtain V I where S: "S = (V, I)" by (cases S)
  from changes_step_inv [OF Cons.prems [unfolded S], of time edit c] Cons.IH ec S Cons.prems show ?case
    by auto
qed simp

lemma changes_open_inv: "wf_history (history I) \<Longrightarrow> history I \<noteq> [] \<Longrightarrow>
    changes_inv (history I) (open_changes_view I, I)"
  by (simp add: changes_inv_def open_changes_view_def Suc_le_eq)

section \<open>The editor buffer\<close>

lemma read_editor_buffer_id: "NUL \<notin> set s \<Longrightarrow> length s \<le> n \<Longrightarrow> read_editor_buffer n s = s"
  by (simp add: read_editor_buffer_def c_str_id)

text \<open>An updated history, saved and loaded.\<close>

lemma updated_reload:
  assumes "wf_history h" "name \<noteq> []" "\<not> is_special_history_key name" "NUL \<notin> set new"
    "\<And>v. current h name = Some v \<Longrightarrow> NUL \<notin> set (lua_tostring v)"
    "list_all (\<lambda>t. storable t \<and> distinct (map fst t)) (edit_event time name new # h)"
  shows "\<exists>h' h''. update_definition time name new h = Inr h' \<and> wf_history h' \<and>
    map_option lua_tostring (current h' name) = Some new \<and>
    load_tlv (Some (save_tlv h')) = Inr (Some h'') \<and> wf_history h'' \<and>
    (\<forall>k. map_option lua_tostring (current h'' k) =
       (if k = name then Some new else map_option lua_tostring (current h k)))"
proof -
  from update_definition_ok [OF assms(1-5), of time] obtain h' where u: "update_definition time name new h = Inr h'"
    "wf_history h'" "map_option lua_tostring (current h' name) = Some new"
    "\<And>other. other \<noteq> name \<Longrightarrow> current h' other = current h other"
    "h' = (if map_option lua_tostring (current h name) = Some new then h else h @ [edit_event time name new])"
    by blast
  have "h' \<noteq> []" using u(3) by (auto simp: current_def)
  moreover have "list_all (\<lambda>t. storable t \<and> distinct (map fst t)) h'" using assms(6) u(5) by (auto split: if_splits)
  ultimately obtain h'' where "load_tlv (Some (save_tlv h')) = Inr (Some h'')" "wf_history h''"
    "\<And>k. map_option lua_tostring (current h'' k) = map_option lua_tostring (current h' k)"
    using tlv_format.reload u(2) by blast
  with u(1-4) show ?thesis by (intro exI [of _ h'] exI [of _ h'']) auto
qed

text \<open>Opening a definition and leaving the buffer as it is changes nothing.\<close>

lemma open_close_definition:
  assumes "wf_history (history I)" "current (history I) name = Some v" "NUL \<notin> set name"
    "length name \<le> 256" "NUL \<notin> set (lua_tostring v)" "length (lua_tostring v) \<le> 8190"
  shows "\<exists>I1 I2. save_to_current_definition_and_editor_buffer name I = Inr I1 \<and>
     editor_buffer I1 = lua_tostring v \<and>
     load_editor_buffer_to_current_definition_in_image time I1 = Inr I2 \<and> history I2 = history I"
proof -
  have n: "take CURRENT_DEFINITION_LEN (c_str name) = name"
    using assms(3,4) by (simp add: CURRENT_DEFINITION_LEN_def c_str_id)
  let ?I1 = "I\<lparr>Current_definition := name, editor_buffer := lua_tostring v\<rparr>"
  have "save_to_current_definition_and_editor_buffer name I = Inr ?I1"
    using n look_up_current [OF assms(1), of name] assms(2,5)
    by (simp add: save_to_current_definition_and_editor_buffer_def c_str_id)
  moreover have "load_editor_buffer_to_current_definition_in_image time ?I1 =
      Inr (?I1\<lparr>history := history I, image_file := save_tlv (history I)\<rparr>)"
    using look_up_current [OF assms(1), of name] assms(2,5,6)
    by (simp add: load_editor_buffer_to_current_definition_in_image_def read_editor_buffer_id
        update_definition_def c_str_id)
  ultimately show ?thesis by auto
qed

section \<open>Resuming the editor\<close>

definition plain_word :: "string \<Rightarrow> bool" where
  "plain_word s \<longleftrightarrow> s \<noteq> [] \<and> list_all (\<lambda>c. \<not> isspace c \<and> c \<noteq> NUL) s \<and> length s < 1000"

definition state_table :: "string \<Rightarrow> string \<Rightarrow> int \<Rightarrow> int \<Rightarrow> int \<Rightarrow> int \<Rightarrow> lua_table" where
  "state_table image_name d rowoff coloff cy cx =
     [(''image'', VStr image_name), (''definition'', VStr d), (''rowoff'', VInt rowoff),
      (''coloff'', VInt coloff), (''cy'', VInt cy), (''cx'', VInt cx)]"

lemma special_key_cases:
  "is_special_history_key k \<longleftrightarrow> k \<in> {''__teliva_timestamp'', ''__teliva_note'', undo_key}"
  by (auto simp: is_special_history_key_def special_history_keys_def any_equal_def)

lemma plain_value: "list_all (\<lambda>c. \<not> isspace c \<and> c \<noteq> NUL) s \<Longrightarrow> \<not> multiline s \<and> NUL \<notin> set s"
  by (auto simp: multiline_def list_all_iff isspace_def)

lemma show_int_plain': "list_all (\<lambda>c. \<not> isspace c \<and> c \<noteq> NUL) (show_int i)"
  using show_int_plain(1) by (simp add: list_all_iff)

lemma state_pairs: "saved_pairs (state_table im d r c y x) = state_table im d r c y x"
  by (simp add: saved_pairs_def state_table_def special_history_keys_def List.map_filter_def special_key_cases)

lemma save_plain:
  "k \<noteq> undo_key \<Longrightarrow> list_all (\<lambda>c. \<not> isspace c \<and> c \<noteq> NUL) (lua_tostring v) \<Longrightarrow>
   save_tlv_key k v = k @ '': '' @ lua_tostring v @ [NL]"
  using plain_value [of "lua_tostring v"]
  by (auto simp: save_tlv_key_def multiline_def c_str_id Let_def)

lemma save_editor_state_eq:
  assumes "plain_word im" "plain_word d"
  shows "save_editor_state im d r c y x file = Some (save_definition (state_table im d r c y x))"
proof -
  have pl: "list_all (\<lambda>c. \<not> isspace c \<and> c \<noteq> NUL) im" "list_all (\<lambda>c. \<not> isspace c \<and> c \<noteq> NUL) d" "d \<noteq> []"
    using assms by (simp_all add: plain_word_def)
  show ?thesis
    unfolding save_definition_def state_pairs
    by (simp add: state_table_def save_pairs_def save_plain pl show_int_plain' save_editor_state_def)
qed

lemma show_nat_length: "n < 10 ^ Suc k \<Longrightarrow> length (show_nat n) \<le> Suc k"
proof (induction k arbitrary: n)
  case 0
  then show ?case by (simp add: show_nat.simps)
next
  case (Suc k)
  have "n div 10 < 10 ^ Suc k" using Suc.prems by (simp add: less_mult_imp_div_less)
  with Suc.IH [of "n div 10"] show ?case by (subst show_nat.simps) auto
qed

definition c_int :: "int \<Rightarrow> bool" where
  "c_int i \<longleftrightarrow> - (2 ^ 31) \<le> i \<and> i < 2 ^ 31"

lemma show_int_length: "c_int i \<Longrightarrow> length (show_int i) \<le> 11"
  using show_nat_length [of "nat i" 9] show_nat_length [of "nat (- i)" 9]
  by (auto simp: show_int_def c_int_def nat_less_iff)

lemma state_storable:
  assumes "plain_word im" "plain_word d" "c_int r" "c_int c" "c_int y" "c_int x"
  shows "storable (state_table im d r c y x)" "distinct (map fst (state_table im d r c y x))"
proof -
  have w: "storable_pair k s" if "k \<in> {''image'', ''definition'', ''rowoff'', ''coloff'', ''cy'', ''cx''}"
    "list_all (\<lambda>c. \<not> isspace c \<and> c \<noteq> NUL) s" "length s < 1000" for k s
  proof -
    have "plain_key k" "length k \<le> 10" using that(1) by (auto simp: plain_key_def isspace_def)
    with plain_value [OF that(2)] that(2,3) show ?thesis
      by (simp add: storable_pair_def list_all_iff)
  qed
  have n: "list_all (\<lambda>c. \<not> isspace c \<and> c \<noteq> NUL) (show_int i)" "length (show_int i) < 1000" if "c_int i" for i
    using show_int_plain' [of i] show_int_length [OF that] by simp_all
  show "storable (state_table im d r c y x)"
    unfolding storable_def state_pairs
    using assms w n by (simp add: state_table_def storable_pairs_def saved_text_def plain_word_def)
  show "distinct (map fst (state_table im d r c y x))" by (simp add: state_table_def)
qed

lemma resume_state:
  assumes "plain_word im" "plain_word d" "c_int r" "c_int c" "c_int y" "c_int x" "6 \<le> n"
  shows "\<exists>t. editor_view_in_progress n im (save_editor_state im d r c y x file) = Inr (Some t) \<and>
     restore_editor_view t = Inr (d, r, c, y, x)"
proof -
  let ?t = "state_table im d r c y x"
  note st = state_storable [OF assms(1-6)]
  have m: "map_of (reloaded ?t) k = map_option (\<lambda>v. VStr (saved_text k v)) (map_of ?t k)" for k
    using st(2) by (rule map_of_reloaded)
  have "teliva_load_definition n (open_read (save_definition ?t @ [])) =
      Inr (Some (reloaded ?t), stream_after [])"
    unfolding reloaded_def
  proof (rule load_definition_saved)
    show "saved_pairs ?t = (''image'', VStr im) # tl ?t" by (simp add: state_pairs) (simp add: state_table_def)
    show "storable_pairs (saved_pairs ?t)" using st(1) by (simp add: storable_def)
    show "ends_definition []" by (simp add: ends_definition_def)
    show "length (saved_pairs ?t) \<le> n" using assms(7) by (simp add: state_pairs) (simp add: state_table_def)
  qed
  then have "editor_view_in_progress n im (save_editor_state im d r c y x file) = Inr (Some (reloaded ?t))"
    using m [of "''image''"]
    by (simp add: save_editor_state_eq [OF assms(1,2)] editor_view_in_progress_def state_table_def saved_text_def)
  moreover have "restore_editor_view (reloaded ?t) = Inr (d, r, c, y, x)"
    using m [of "''definition''"] m [of "''rowoff''"] m [of "''coloff''"] m [of "''cy''"] m [of "''cx''"]
    by (simp add: restore_editor_view_def table_int_def state_table_def saved_text_def read_show_int)
  ultimately show ?thesis by blast
qed

section \<open>Properties\<close>

text \<open>C6: Looking up a definition walks the history backwards, jumping at undo events; on a
  well-formed history it always returns, and returns what is in force after the last event.\<close>

theorem look_up_refines_state:
  assumes "wf_history h"
  shows "look_up_definition h name = Inr (current h name)"
  using assms by (rule look_up_current)

definition demo_undone :: "lua_table list" where
  "demo_undone =
     [[(''f'', VStr ''one'')], [(''f'', VStr ''two''), (''__teliva_note'', VStr ''n'')],
      [(''__teliva_undo'', VInt 1)]]"

lemma demo_undone_wf: "wf_history demo_undone"
  by (auto simp: wf_history_def demo_undone_def wf_event_def undo_target_def less_Suc_eq special_key_cases)

theorem look_up_refines_state_witness:
  "look_up_definition demo_undone ''f'' = Inr (Some (VStr ''one''))"
  using look_up_refines_state [OF demo_undone_wf, of "''f''"]
  by (simp add: current_def demo_undone_def state_at_Suc numeral_eq_Suc undo_target_def special_key_cases)

text \<open>C26: Updating a definition (to a text without NUL, which a C string cannot hold) makes the new text the one in
  force and leaves every other definition in force; when the text differs from the one in force it appends one event,
  with the name, the text and the time, to the history, and otherwise the history stays as it is.\<close>

theorem update_then_look_up:
  assumes "wf_history h" "name \<noteq> []" "\<not> is_special_history_key name"
    and "NUL \<notin> set new" "\<And>v. current h name = Some v \<Longrightarrow> NUL \<notin> set (lua_tostring v)"
  shows "\<exists>h'. update_definition time name new h = Inr h' \<and> wf_history h' \<and>
     map_option lua_tostring (current h' name) = Some new \<and>
     (\<forall>other. other \<noteq> name \<longrightarrow> current h' other = current h other) \<and>
     h' = (if map_option lua_tostring (current h name) = Some new then h else h @ [edit_event time name new])"
  using assms by (rule update_definition_ok)

theorem update_then_look_up_witness:
  "\<exists>h'. update_definition ''now'' ''f'' ''three'' demo_undone = Inr h' \<and> wf_history h' \<and>
     map_option lua_tostring (current h' ''f'') = Some ''three''"
proof -
  have "current demo_undone ''f'' = Some (VStr ''one'')"
    using look_up_current [OF demo_undone_wf, of "''f''"]
    by (simp add: current_def demo_undone_def state_at_Suc numeral_eq_Suc undo_target_def special_key_cases)
  with update_then_look_up [OF demo_undone_wf, of "''f''" "''three''" "''now''"] show ?thesis
    by (auto simp: special_key_cases)
qed




definition demo_image :: image where
  "demo_image = \<lparr>history = demo_undone, Current_definition = [], editor_buffer = [], image_file = []\<rparr>"


text \<open>C32: Undo in the recent-changes view puts in force exactly the definitions that were in
  force after the event under the cursor.\<close>

theorem undo_restores:
  assumes "changes_inv h0 (V, I)" "changes_cursor V < history_array_size V"
  shows "\<exists>I'. changes_step time edit UndoAfter (V, I) = Inr (V, I') \<and>
     current (history I') = state_at h0 (nat (changes_cursor V)) \<and>
     image_file I' = save_tlv (history I') \<and> changes_inv h0 (V, I')"
proof -
  from changes_step_inv [OF assms(1), of time edit UndoAfter] assms(2) show ?thesis
    by (auto simp: changes_step_def Let_def)
qed

theorem undo_restores_witness:
  "\<exists>V I'. changes_step ''now'' id UndoAfter (V, demo_image) = Inr (V, I') \<and>
     current (history I') ''f'' = Some (VStr ''two'')"
proof -
  let ?V = "(open_changes_view demo_image)\<lparr>changes_cursor := 2\<rparr>"
  have h: "history demo_image = demo_undone" "length demo_undone = 3"
    by (simp_all add: demo_image_def demo_undone_def)
  then have inv: "changes_inv demo_undone (?V, demo_image)"
    using demo_undone_wf by (simp add: changes_inv_def open_changes_view_def)
  have "changes_cursor ?V < history_array_size ?V" using h by (simp add: open_changes_view_def)
  from undo_restores [OF inv this, of "''now''" id] obtain I' where
    "changes_step ''now'' id UndoAfter (?V, demo_image) = Inr (?V, I')"
    "current (history I') = state_at demo_undone 2" by auto
  then show ?thesis
    by (intro exI [of _ ?V] exI [of _ I'])
      (simp add: demo_undone_def state_at_Suc numeral_eq_Suc undo_target_def special_key_cases)
qed

text \<open>Loading an image runs, when running a definition sets just the global it defines,
  exactly the code definitions in force whose globals are not set yet, each once and with the
  text in force; prose is not run.\<close>

theorem load_definitions_runs_current:
  assumes "defines_global be ds" "wf_history h"
  shows "\<exists>G' tr. load_definitions (\<lambda>(G, tr). be G) (traced ds) h (G, []) = Inr (0, (G', tr)) \<and>
     distinct (map fst tr) \<and>
     (\<forall>k. map_of tr k = (if to_run be G k then map_option lua_tostring (current h k) else None))"
  using load_definitions_down_run [OF assms order.refl, of G "[]"]
  by (auto simp: load_definitions_def current_def)

theorem load_definitions_runs_current_witness:
  "\<exists>G' tr. load_definitions (\<lambda>(G, tr). (\<lambda>G k. k \<in> set G) G) (traced (\<lambda>code key G. (0, key # G)))
       demo_undone ([], []) = Inr (0, (G', tr)) \<and> map_of tr ''f'' = Some ''one''"
proof -
  have d: "defines_global (\<lambda>G k. k \<in> set G) (\<lambda>code key G. (0, key # G))"
    by (simp add: defines_global_def)
  have "current demo_undone ''f'' = Some (VStr ''one'')" "to_run (\<lambda>G k. k \<in> set G) [] ''f''"
    by (simp_all add: current_def demo_undone_def state_at_Suc numeral_eq_Suc undo_target_def
        special_key_cases to_run_def starts_with_def)
  with load_definitions_runs_current [OF d demo_undone_wf, of "[]"] show ?thesis by fastforce
qed

text \<open>Opening a definition for editing and leaving the buffer untouched leaves the history
  as it was; this needs the definition to fit the 8190 bytes that are read back.\<close>

theorem open_close_unchanged:
  assumes "wf_history (history I)" "current (history I) name = Some v" "NUL \<notin> set name"
    "length name \<le> 256" "NUL \<notin> set (lua_tostring v)" "length (lua_tostring v) \<le> 8190"
  shows "\<exists>I1 I2. save_to_current_definition_and_editor_buffer name I = Inr I1 \<and>
     editor_buffer I1 = lua_tostring v \<and>
     load_editor_buffer_to_current_definition_in_image time I1 = Inr I2 \<and> history I2 = history I"
  using assms by (rule open_close_definition)

theorem open_close_unchanged_witness:
  "\<exists>I1 I2. save_to_current_definition_and_editor_buffer ''f'' demo_image = Inr I1 \<and>
     editor_buffer I1 = ''one'' \<and>
     load_editor_buffer_to_current_definition_in_image ''now'' I1 = Inr I2 \<and> history I2 = demo_undone"
proof -
  have h: "history demo_image = demo_undone" by (simp add: demo_image_def)
  have "current demo_undone ''f'' = Some (VStr ''one'')"
    by (simp add: current_def demo_undone_def state_at_Suc numeral_eq_Suc undo_target_def special_key_cases)
  with open_close_unchanged [of demo_image "''f''" "VStr ''one''" "''now''"] h demo_undone_wf show ?thesis by auto
qed

text \<open>The editor state saved when the editor is left is found again for the same image, and
  restores the definition and the cursor, negative offsets included.\<close>

theorem editor_state_resumes:
  assumes "plain_word im" "plain_word d" "c_int r" "c_int c" "c_int y" "c_int x" "6 \<le> n"
  shows "\<exists>t. editor_view_in_progress n im (save_editor_state im d r c y x file) = Inr (Some t) \<and>
     restore_editor_view t = Inr (d, r, c, y, x)"
  using assms by (rule resume_state)

theorem editor_state_resumes_witness:
  "\<exists>t. editor_view_in_progress 6 ''a.tlv'' (save_editor_state ''a.tlv'' ''main'' 12 (-3) 0 7 None) = Inr (Some t) \<and>
     restore_editor_view t = Inr (''main'', 12, -3, 0, 7)"
proof -
  have "plain_word ''a.tlv''" "plain_word ''main''"
    by (simp_all add: plain_word_def isspace_def)
  then show ?thesis
    using editor_state_resumes [of "''a.tlv''" "''main''" 12 "-3" 0 7 6 None] by (simp add: c_int_def)
qed

text \<open>Looking up a name that is not defined leaves one value on the Lua stack for every undo
  event it passes.\<close>

lemma look_up_leaks_stack:
  assumes "wf_history h" "current h name = None"
  shows "look_up_from h (length h) name 0 = Inr (None, undo_hops h (length h))"
  using look_up_leaves [OF assms(1) order.refl, of name 0] assms(2) by (simp add: current_def)

end
