(* ===== verification/BigPicture.thy ===== *)
theory BigPicture
  imports History
begin

text \<open>
  The call graph that is recorded while an app runs, and the big-picture view that lists the
  definitions of an image by it, \<^verbatim>\<open>src/src/teliva.c\<close>.  Functions are named by
  their addresses, a type parameter; what kind of value a global holds is an argument.
\<close>

section \<open>The call graph\<close>

record call_graph =
  depth_of :: "string \<rightharpoonup> int"
  callers_of :: "string \<rightharpoonup> string set"

definition no_calls :: call_graph where
  "no_calls = \<lparr>depth_of = Map.empty, callers_of = Map.empty\<rparr>"

text \<open>The globals in the order of \<open>lua_next\<close>; a later one takes over the name of its value.\<close>

definition precompute_names_of_globals :: "(string \<times> 'f) list \<Rightarrow> 'f \<rightharpoonup> string" where
  "precompute_names_of_globals globals = foldl (\<lambda>m (k, v). m(v \<mapsto> k)) Map.empty globals"

definition save_call_graph_depth :: "int \<Rightarrow> string \<Rightarrow> call_graph \<Rightarrow> call_graph" where
  "save_call_graph_depth depth name G =
     (if depth_of G name = None then G\<lparr>depth_of := (depth_of G)(name \<mapsto> depth)\<rparr> else G)"

definition save_caller :: "string \<Rightarrow> string \<Rightarrow> call_graph \<Rightarrow> call_graph" where
  "save_caller name caller_name G =
     (let cs = (case callers_of G name of None \<Rightarrow> {} | Some cs \<Rightarrow> cs)
      in G\<lparr>callers_of := (callers_of G)(name \<mapsto> insert caller_name cs)\<rparr>)"

text \<open>\<open>stack\<close> holds the called functions, innermost first and without the base frame.\<close>

definition record_metadata_about_function_call ::
    "('f \<rightharpoonup> string) \<Rightarrow> 'f list \<Rightarrow> call_graph \<Rightarrow> call_graph" where
  "record_metadata_about_function_call name_of_global stack G =
     (case stack of
        [] \<Rightarrow> G
      | f # below \<Rightarrow>
          (case name_of_global f of
             None \<Rightarrow> G
           | Some function_name \<Rightarrow>
               let depth = int (length stack); G = save_call_graph_depth depth function_name G in
               if depth \<le> 1 then G
               else (case name_of_global (hd below) of
                       Some caller_name \<Rightarrow> save_caller function_name caller_name G
                     | None \<Rightarrow> if depth = 3 then save_caller function_name ''main'' G else G)))"

definition clear_call_graph_depth :: "call_graph \<Rightarrow> call_graph" where
  "clear_call_graph_depth G = G\<lparr>depth_of := \<lambda>_. None\<rparr>"

definition clear_caller :: "call_graph \<Rightarrow> call_graph" where
  "clear_caller G = G\<lparr>callers_of := \<lambda>_. None\<rparr>"

section \<open>The levels of the view\<close>

datatype lua_kind = KFunction | KUserdata | KValue

text \<open>No later event has the same key; undo events are not looked at.\<close>

definition is_current_definition :: "string \<Rightarrow> nat \<Rightarrow> lua_table list \<Rightarrow> bool" where
  "is_current_definition name i h \<longleftrightarrow> \<not> list_ex (\<lambda>t. list_ex (\<lambda>(k, v). k = name) t) (drop i h)"

text \<open>The names drawn by one of the scans over the history, from the newest event back.\<close>

definition shown :: "lua_table list \<Rightarrow> (string \<Rightarrow> bool) \<Rightarrow> string list" where
  "shown h keep =
     concat (map (\<lambda>i. filter (\<lambda>k. \<not> is_special_history_key k \<and> keep k \<and> is_current_definition k i h)
                        (map fst (h ! (i - 1))))
       (rev [1..<length h + 1]))"

definition is_doc :: "string \<Rightarrow> bool" where
  "is_doc k \<longleftrightarrow> starts_with k ''doc:''"

definition data_level :: "(string \<Rightarrow> lua_kind) \<Rightarrow> lua_table list \<Rightarrow> string list" where
  "data_level kind h =
     shown h (\<lambda>k. \<not> is_doc k \<and> k \<noteq> ''menu'' \<and> kind k \<noteq> KFunction \<and> kind k \<noteq> KUserdata) @
     shown h (\<lambda>k. \<not> is_doc k \<and> (k = ''menu'' \<or> kind k = KUserdata))"

definition prose_level :: "lua_table list \<Rightarrow> string list" where
  "prose_level h = shown h is_doc"

definition drew_anything :: "(string \<rightharpoonup> int) \<Rightarrow> lua_table list \<Rightarrow> int \<Rightarrow> bool" where
  "drew_anything depth h d \<longleftrightarrow>
     list_ex (\<lambda>t. list_ex (\<lambda>(k, v). \<not> is_special_history_key k \<and> depth k = Some d) t) h"

definition depths :: "(string \<rightharpoonup> int) \<Rightarrow> lua_table list \<Rightarrow> int list" where
  "depths depth h = map (\<lambda>(k, v). case depth k of None \<Rightarrow> 0 | Some d \<Rightarrow> d) (concat h)"

lemma drew_bounded: "drew_anything depth h d \<Longrightarrow> d \<le> foldr max (depths depth h) 0"
proof -
  assume "drew_anything depth h d"
  then have "d \<in> set (depths depth h)" by (force simp: drew_anything_def depths_def list_ex_iff)
  moreover have "x \<in> set xs \<Longrightarrow> x \<le> foldr max xs (0 :: int)" for x xs
    by (induction xs) auto
  ultimately show ?thesis by blast
qed

function function_levels :: "(string \<rightharpoonup> int) \<Rightarrow> lua_table list \<Rightarrow> int \<Rightarrow> string list list" where
  "function_levels depth h d =
     (if drew_anything depth h d then shown h (\<lambda>k. depth k = Some d) # function_levels depth h (d + 1)
      else [])"
  by pat_completeness auto
termination
  by (relation "measure (\<lambda>(depth, h, d). nat (foldr max (depths depth h) 0 + 1 - d))")
    (auto dest: drew_bounded)

declare function_levels.simps [simp del]

definition unused_level :: "(string \<Rightarrow> lua_kind) \<Rightarrow> (string \<rightharpoonup> int) \<Rightarrow> lua_table list \<Rightarrow> string list" where
  "unused_level kind depth h = shown h (\<lambda>k. kind k = KFunction \<and> depth k = None)"

definition levels :: "(string \<Rightarrow> lua_kind) \<Rightarrow> (string \<rightharpoonup> int) \<Rightarrow> lua_table list \<Rightarrow> string list list" where
  "levels kind depth h =
     [data_level kind h, prose_level h] @ function_levels depth h 2 @ [unused_level kind depth h]"

section \<open>The view\<close>

record big_picture =
  highlight_level :: int
  highlight_index :: int
  level_size :: "int list"
  highlight :: string
  bp_query :: string

definition MAX_LEVELS :: nat where
  "MAX_LEVELS = 30"

definition open_big_picture :: big_picture where
  "open_big_picture = \<lparr>highlight_level = 0, highlight_index = 0, level_size = replicate MAX_LEVELS 0,
     highlight = [], bp_query = []\<rparr>"

text \<open>Drawing (\<open>restart\<close>) sets the sizes of the levels and the highlighted name.\<close>

definition redraw :: "string list list \<Rightarrow> big_picture \<Rightarrow> big_picture res" where
  "redraw ls B =
     (let l = (if highlight_level B < 0 then 0 else highlight_level B);
          name = (if l < int (length ls) \<and> 0 \<le> highlight_index B \<and>
                     highlight_index B < int (length (ls ! nat l))
                  then take CURRENT_DEFINITION_LEN (c_str (ls ! nat l ! nat (highlight_index B)))
                  else highlight B)
      in if length ls \<le> length (level_size B) then
           Inr (B\<lparr>highlight_level := l, highlight := name, bp_query := [],
             level_size := map (\<lambda>xs. int (length xs)) ls @ drop (length ls) (level_size B)\<rparr>)
         else Inl OutOfBounds)"

definition clamp_index :: "big_picture \<Rightarrow> big_picture res" where
  "clamp_index B =
     (if highlight_level B < 0 then Inl OutOfBounds
      else bindR (nthR (level_size B) (nat (highlight_level B))) (\<lambda>size.
      let i = (if highlight_index B \<ge> size then size - 1 else highlight_index B)
      in Inr (B\<lparr>highlight_index := (if i < 0 then 0 else i)\<rparr>)))"

datatype bp_key =
    BpBackspace | BpQuit | BpEnter | BpClear | BpChanges | BpLeft | BpRight | BpUp | BpDown
  | BpGo | BpEvents | BpChar char | BpOther

datatype bp_outcome =
    Restart big_picture
  | Keep big_picture
  | Back
  | Edit string
  | RecentChanges
  | RecentEvents

text \<open>One key; \<open>max_level\<close> is the last level drawn.\<close>

definition big_picture_key :: "int \<Rightarrow> bp_key \<Rightarrow> big_picture \<Rightarrow> bp_outcome res" where
  "big_picture_key max_level c B =
     (case c of
        BpBackspace \<Rightarrow> Inr (Keep (B\<lparr>bp_query := butlast (bp_query B)\<rparr>))
      | BpQuit \<Rightarrow> Inr Back
      | BpEnter \<Rightarrow> Inr (if bp_query B \<noteq> [] then Edit (bp_query B) else Keep B)
      | BpClear \<Rightarrow> Inr (Keep (B\<lparr>bp_query := []\<rparr>))
      | BpChanges \<Rightarrow> Inr RecentChanges
      | BpLeft \<Rightarrow>
          let i = highlight_index B - 1 in Inr (Restart (B\<lparr>highlight_index := (if i < 0 then 0 else i)\<rparr>))
      | BpRight \<Rightarrow> bindR (clamp_index (B\<lparr>highlight_index := highlight_index B + 1\<rparr>)) (\<lambda>B. Inr (Restart B))
      | BpUp \<Rightarrow>
          let l = highlight_level B - 1 in
          bindR (clamp_index (B\<lparr>highlight_level := (if l < 0 then 0 else l)\<rparr>)) (\<lambda>B. Inr (Restart B))
      | BpDown \<Rightarrow>
          let l = highlight_level B + 1 in
          bindR (clamp_index (B\<lparr>highlight_level := (if l > max_level then max_level else l)\<rparr>)) (\<lambda>B. Inr (Restart B))
      | BpGo \<Rightarrow> Inr (Edit (highlight B))
      | BpEvents \<Rightarrow> Inr RecentEvents
      | BpChar ch \<Rightarrow>
          Inr (Keep (if length (bp_query B) < CURRENT_DEFINITION_LEN
                     then B\<lparr>bp_query := bp_query B @ [ch]\<rparr> else B))
      | BpOther \<Rightarrow> Inr (Keep B))"

text \<open>Keys typed while the definitions stay as they are, until one leads somewhere else.\<close>

fun big_picture_run :: "string list list \<Rightarrow> bp_key list \<Rightarrow> big_picture \<Rightarrow> bp_outcome res" where
  "big_picture_run ls [] B = Inr (Keep B)"
| "big_picture_run ls (c # cs) B =
     bindR (big_picture_key (int (length ls) - 1) c B) (\<lambda>r.
       case r of
         Restart B1 \<Rightarrow> bindR (redraw ls B1) (big_picture_run ls cs)
       | Keep B1 \<Rightarrow> big_picture_run ls cs B1
       | Back \<Rightarrow> Inr r | Edit _ \<Rightarrow> Inr r | RecentChanges \<Rightarrow> Inr r | RecentEvents \<Rightarrow> Inr r)"

definition default_big_picture_view ::
    "(string \<Rightarrow> lua_kind) \<Rightarrow> (string \<rightharpoonup> int) \<Rightarrow> lua_table list \<Rightarrow> bp_key list \<Rightarrow> bp_outcome res" where
  "default_big_picture_view kind depth h keys =
     (let ls = levels kind depth h in bindR (redraw ls open_big_picture) (big_picture_run ls keys))"

section \<open>What the call graph records\<close>

definition record_calls :: "('f \<rightharpoonup> string) \<Rightarrow> 'f list list \<Rightarrow> call_graph \<Rightarrow> call_graph" where
  "record_calls names stacks G = foldl (\<lambda>G s. record_metadata_about_function_call names s G) G stacks"

text \<open>The callers that a call is evidence of.\<close>

definition evidence :: "('f \<rightharpoonup> string) \<Rightarrow> 'f list \<Rightarrow> (string \<times> string) set" where
  "evidence names s =
     (case s of f # g # below \<Rightarrow>
        (case names f of None \<Rightarrow> {}
         | Some n \<Rightarrow> (case names g of Some c \<Rightarrow> {(n, c)} | None \<Rightarrow> if length below = 1 then {(n, ''main'')} else {}))
      | _ \<Rightarrow> {})"

definition called :: "('f \<rightharpoonup> string) \<Rightarrow> string \<Rightarrow> 'f list \<Rightarrow> bool" where
  "called names n s \<longleftrightarrow> (case s of [] \<Rightarrow> False | f # _ \<Rightarrow> names f = Some n)"

definition callers :: "call_graph \<Rightarrow> string \<Rightarrow> string set" where
  "callers G n = (case callers_of G n of None \<Rightarrow> {} | Some cs \<Rightarrow> cs)"

lemma record_one:
  "depth_of (record_metadata_about_function_call names s G) n =
     (if depth_of G n = None \<and> called names n s then Some (int (length s)) else depth_of G n)"
  "callers (record_metadata_about_function_call names s G) n =
     callers G n \<union> {c. (n, c) \<in> evidence names s}"
  by (auto simp: record_metadata_about_function_call_def save_call_graph_depth_def save_caller_def
      called_def evidence_def callers_def Let_def split: list.splits option.splits)

lemma record_calls_graph:
  "depth_of (record_calls names ss G) n =
     (case depth_of G n of Some d \<Rightarrow> Some d | None \<Rightarrow> map_option (\<lambda>s. int (length s)) (find (called names n) ss))"
  "callers (record_calls names ss G) n = callers G n \<union> {c. \<exists>s \<in> set ss. (n, c) \<in> evidence names s}"
  by (induction ss arbitrary: G) (auto simp: record_calls_def record_one split: option.splits)

text \<open>After any sequence of calls the call graph holds exactly, for each function
  that is a global, the depth of the stack at its first call, and the callers that some call showed:
  the global right below it on the stack, or \<open>main\<close> for a function without a name two frames
  above the base.\<close>

theorem call_graph_exact:
  "depth_of (record_calls names stacks no_calls) n =
     map_option (\<lambda>s. int (length s)) (find (called names n) stacks) \<and>
   callers (record_calls names stacks no_calls) n = {c. \<exists>s \<in> set stacks. (n, c) \<in> evidence names s}"
  by (simp add: record_calls_graph) (simp add: no_calls_def callers_def)

section \<open>What the view shows\<close>

definition names_in :: "lua_table list \<Rightarrow> string set" where
  "names_in h = fst ` set (concat h)"

lemma is_current_snoc:
  "i \<le> length h \<Longrightarrow> is_current_definition k i (h @ [t]) \<longleftrightarrow>
     is_current_definition k i h \<and> k \<notin> fst ` set t"
  by (auto simp: is_current_definition_def list_ex_iff image_iff)

lemma shown_snoc:
  "shown (h @ [t]) keep =
     filter (\<lambda>k. \<not> is_special_history_key k \<and> keep k) (map fst t) @
     shown h (\<lambda>k. keep k \<and> k \<notin> fst ` set t)"
proof -
  let ?f = "\<lambda>h i. \<lambda>k. \<not> is_special_history_key k \<and> keep k \<and> is_current_definition k i h"
  have r: "rev [1..<length (h @ [t]) + 1] = (length h + 1) # rev [1..<length h + 1]" by simp
  have n: "is_current_definition k (length h + 1) (h @ [t])" for k
    by (simp add: is_current_definition_def)
  have l: "(h @ [t]) ! (length h + 1 - 1) = t" by simp
  have eq: "map (\<lambda>i. filter (?f (h @ [t]) i) (map fst ((h @ [t]) ! (i - 1)))) (rev [1..<length h + 1]) =
      map (\<lambda>i. filter (\<lambda>k. \<not> is_special_history_key k \<and> (keep k \<and> k \<notin> fst ` set t) \<and>
        is_current_definition k i h) (map fst (h ! (i - 1)))) (rev [1..<length h + 1])"
  proof (rule map_cong [OF refl])
    fix i assume "i \<in> set (rev [1..<length h + 1])"
    then have i: "i \<le> length h" "(h @ [t]) ! (i - 1) = h ! (i - 1)" by (auto simp: nth_append)
    show "filter (?f (h @ [t]) i) (map fst ((h @ [t]) ! (i - 1))) =
      filter (\<lambda>k. \<not> is_special_history_key k \<and> (keep k \<and> k \<notin> fst ` set t) \<and>
        is_current_definition k i h) (map fst (h ! (i - 1)))"
      unfolding i(2) is_current_snoc [OF i(1)] by (rule filter_cong) auto
  qed
  show ?thesis by (simp only: shown_def r list.map concat.simps eq l n simp_thms)
qed

lemma shown_exactly:
  assumes "list_all (\<lambda>t. distinct (map fst t)) h"
  shows "set (shown h keep) = {k \<in> names_in h. \<not> is_special_history_key k \<and> keep k} \<and> distinct (shown h keep)"
  using assms
proof (induction h arbitrary: keep rule: rev_induct)
  case Nil
  then show ?case by (simp add: shown_def names_in_def)
next
  case (snoc t h)
  then have "list_all (\<lambda>t. distinct (map fst t)) h" "distinct (map fst t)" by simp_all
  with snoc.IH [OF this(1), of "\<lambda>k. keep k \<and> k \<notin> fst ` set t"] show ?case
    unfolding shown_snoc by (auto simp: names_in_def)
qed

lemma function_levels_nth:
  "i < length (function_levels depth h d) \<Longrightarrow>
     function_levels depth h d ! i = shown h (\<lambda>k. depth k = Some (d + int i))"
proof (induction depth h d arbitrary: i rule: function_levels.induct)
  case (1 depth h d)
  show ?case
  proof (cases "drew_anything depth h d")
    case True
    then have e: "function_levels depth h d =
        shown h (\<lambda>k. depth k = Some d) # function_levels depth h (d + 1)"
      by (simp add: function_levels.simps [of depth h d])
    show ?thesis
    proof (cases i)
      case 0
      with e show ?thesis by simp
    next
      case (Suc j)
      then have "j < length (function_levels depth h (d + 1))" using "1.prems" e by simp
      from "1.IH" [OF True this] Suc e show ?thesis by (simp add: algebra_simps)
    qed
  next
    case False
    then show ?thesis using "1.prems" by (simp add: function_levels.simps [of depth h d])
  qed
qed

lemma function_levels_length:
  "(\<And>j. j \<le> n \<Longrightarrow> drew_anything depth h (d + int j)) \<Longrightarrow> n < length (function_levels depth h d)"
proof (induction n arbitrary: d)
  case 0
  from 0 [of 0] show ?case by (simp add: function_levels.simps [of depth h d])
next
  case (Suc n)
  have "drew_anything depth h (d + 1 + int j)" if "j \<le> n" for j
    using Suc.prems [of "Suc j"] that by (simp add: algebra_simps)
  then have "n < length (function_levels depth h (d + 1))" by (rule Suc.IH)
  with Suc.prems [of 0] show ?case by (simp add: function_levels.simps [of depth h d])
qed

text \<open>Where a definition belongs.\<close>

definition level_for :: "(string \<Rightarrow> lua_kind) \<Rightarrow> (string \<rightharpoonup> int) \<Rightarrow> string \<Rightarrow> nat \<Rightarrow> nat" where
  "level_for kind depth k final =
     (if is_doc k then 1
      else if k = ''menu'' \<or> kind k \<noteq> KFunction then 0
      else case depth k of None \<Rightarrow> final | Some d \<Rightarrow> nat d)"

lemma not_doc_special: "is_special_history_key k \<Longrightarrow> \<not> is_doc k"
  by (auto simp: is_special_history_key_def special_history_keys_def any_equal_def is_doc_def starts_with_def)

text \<open>C27: no definition of an image is missing from the big-picture view: every name
  ever defined is listed in the level for its kind (data, prose, functions by the depth of their
  first call, unused functions), provided that the depths at which functions were first called
  have no gap below its own; and no level lists a name twice.\<close>

theorem big_picture_complete:
  assumes "list_all (\<lambda>t. distinct (map fst t)) h" "k \<in> names_in h" "\<not> is_special_history_key k"
    "\<forall>d. depth k = Some d \<longrightarrow> 2 \<le> d \<and> (\<forall>e. 2 \<le> e \<and> e \<le> d \<longrightarrow> drew_anything depth h e)"
  shows "let ls = levels kind depth h; l = level_for kind depth k (length ls - 1)
    in l < length ls \<and> k \<in> set (ls ! l) \<and> (\<forall>xs \<in> set ls. distinct xs)"
proof -
  let ?ls = "levels kind depth h"
  note sh = shown_exactly [OF assms(1)]
  have "\<forall>xs \<in> set (function_levels depth h 2). distinct xs"
    using function_levels_nth [of _ depth h 2] sh by (auto simp: in_set_conv_nth)
  then have dist: "\<forall>xs \<in> set ?ls. distinct xs"
    using sh by (auto simp: levels_def data_level_def prose_level_def unused_level_def)
  have at: "l < length ?ls \<and> k \<in> set (?ls ! l)" if l: "l = level_for kind depth k (length ?ls - 1)" for l
  proof -
    consider (doc) "is_doc k" | (data) "\<not> is_doc k" "k = ''menu'' \<or> kind k \<noteq> KFunction"
      | (unused) "\<not> is_doc k" "k \<noteq> ''menu''" "kind k = KFunction" "depth k = None"
      | (used) d where "\<not> is_doc k" "k \<noteq> ''menu''" "kind k = KFunction" "depth k = Some d"
      by (cases "depth k") blast+
    then show ?thesis
    proof cases
      case doc
      with l sh assms(2,3) show ?thesis by (simp add: level_for_def levels_def prose_level_def)
    next
      case data
      then show ?thesis using l sh assms(2,3) by (cases "kind k") (auto simp: level_for_def levels_def data_level_def)
    next
      case unused
      with l sh assms(2,3) show ?thesis
        by (auto simp: level_for_def levels_def unused_level_def nth_append)
    next
      case used
      then have d: "2 \<le> d" "\<And>e. 2 \<le> e \<Longrightarrow> e \<le> d \<Longrightarrow> drew_anything depth h e" using assms(4) by auto
      have n: "nat d - 2 < length (function_levels depth h 2)"
        using d by (intro function_levels_length) auto
      moreover have "l = Suc (Suc (nat d - 2))" using l used d(1) by (simp add: level_for_def)
      ultimately have "?ls ! l = shown h (\<lambda>k. depth k = Some d)" "l < length ?ls"
        using function_levels_nth [OF n] d(1) by (auto simp: levels_def nth_append)
      with sh assms(2,3) used(4) show ?thesis by simp
    qed
  qed
  from at [OF refl] dist show ?thesis unfolding Let_def by blast
qed

section \<open>Moving the highlight\<close>

definition sizes :: "string list list \<Rightarrow> int list" where
  "sizes ls = map (\<lambda>xs. int (length xs)) ls"

definition at_item :: "string list list \<Rightarrow> nat \<Rightarrow> nat \<Rightarrow> big_picture \<Rightarrow> bool" where
  "at_item ls l i B \<longleftrightarrow> highlight_level B = int l \<and> highlight_index B = int i \<and>
     take (length ls) (level_size B) = sizes ls \<and> length ls \<le> length (level_size B) \<and>
     (i < length (ls ! l) \<longrightarrow> highlight B = take CURRENT_DEFINITION_LEN (c_str (ls ! l ! i)))"

lemma redraw_at:
  assumes "highlight_level B = int l" "highlight_index B = int i" "l < length ls" "length ls \<le> length (level_size B)"
  shows "\<exists>B'. redraw ls B = Inr B' \<and> at_item ls l i B'"
  using assms by (auto simp: redraw_def at_item_def sizes_def Let_def)

lemma size_at:
  assumes "at_item ls l i B" "k < length ls"
  shows "nthR (level_size B) k = Inr (int (length (ls ! k)))"
proof -
  have "level_size B ! k = sizes ls ! k"
    using assms unfolding at_item_def by (metis nth_take)
  with assms show ?thesis by (simp add: at_item_def sizes_def)
qed

lemma down_at:
  assumes "at_item ls l 0 B" "Suc l < length ls"
  shows "\<exists>B'. big_picture_run ls (BpDown # ks) B = big_picture_run ls ks B' \<and> at_item ls (Suc l) 0 B'"
proof -
  let ?B = "B\<lparr>highlight_level := int (Suc l)\<rparr>"
  have c: "clamp_index ?B = Inr ?B"
    using size_at [OF assms] assms(1) by (simp add: clamp_index_def at_item_def del: of_nat_Suc)
  have "(if int l + 1 > int (length ls) - 1 then int (length ls) - 1 else int l + 1) = int (Suc l)"
    using assms(2) by simp
  then have k: "big_picture_key (int (length ls) - 1) BpDown B = Inr (Restart ?B)"
    using c assms(1) by (simp add: big_picture_key_def at_item_def Let_def)
  obtain B' where "redraw ls ?B = Inr B'" "at_item ls (Suc l) 0 B'"
    using redraw_at [of ?B "Suc l" 0 ls] assms by (auto simp: at_item_def)
  with k show ?thesis by auto
qed

lemma right_at:
  assumes "at_item ls l i B" "l < length ls" "Suc i < length (ls ! l)"
  shows "\<exists>B'. big_picture_run ls (BpRight # ks) B = big_picture_run ls ks B' \<and> at_item ls l (Suc i) B'"
proof -
  let ?B = "B\<lparr>highlight_index := int (Suc i)\<rparr>"
  have c: "clamp_index (B\<lparr>highlight_index := int i + 1\<rparr>) = Inr ?B"
    using size_at [OF assms(1,2)] assms by (simp add: clamp_index_def at_item_def)
  then have k: "big_picture_key (int (length ls) - 1) BpRight B = Inr (Restart ?B)"
    using assms(1) by (simp add: big_picture_key_def at_item_def)
  obtain B' where "redraw ls ?B = Inr B'" "at_item ls l (Suc i) B'"
    using redraw_at [of ?B l "Suc i" ls] assms by (auto simp: at_item_def)
  with k show ?thesis by auto
qed

lemma downs_at:
  "at_item ls l 0 B \<Longrightarrow> l + n < length ls \<Longrightarrow>
     \<exists>B'. big_picture_run ls (replicate n BpDown @ ks) B = big_picture_run ls ks B' \<and> at_item ls (l + n) 0 B'"
proof (induction n arbitrary: l B)
  case (Suc n)
  obtain B1 where "big_picture_run ls (BpDown # replicate n BpDown @ ks) B =
      big_picture_run ls (replicate n BpDown @ ks) B1" "at_item ls (Suc l) 0 B1"
    using down_at [OF Suc.prems(1)] Suc.prems(2) by fastforce
  with Suc.IH [of "Suc l" B1] Suc.prems(2) show ?case by simp
qed auto

lemma rights_at:
  "at_item ls l i B \<Longrightarrow> l < length ls \<Longrightarrow> i + n < length (ls ! l) \<Longrightarrow>
     \<exists>B'. big_picture_run ls (replicate n BpRight @ ks) B = big_picture_run ls ks B' \<and> at_item ls l (i + n) B'"
proof (induction n arbitrary: i B)
  case (Suc n)
  obtain B1 where "big_picture_run ls (BpRight # replicate n BpRight @ ks) B =
      big_picture_run ls (replicate n BpRight @ ks) B1" "at_item ls l (Suc i) B1"
    using right_at [OF Suc.prems(1,2)] Suc.prems(3) by fastforce
  with Suc.IH [of "Suc i" B1] Suc.prems(2,3) show ?case by simp
qed auto

lemma navigate:
  assumes "length ls \<le> MAX_LEVELS" "l < length ls" "i < length (ls ! l)"
  shows "\<exists>B. redraw ls open_big_picture = Inr B \<and>
    big_picture_run ls (replicate l BpDown @ replicate i BpRight @ [BpGo]) B =
      Inr (Edit (take CURRENT_DEFINITION_LEN (c_str (ls ! l ! i))))"
proof -
  obtain B where B: "redraw ls open_big_picture = Inr B" "at_item ls 0 0 B"
  proof -
    have "0 < length ls" "length ls \<le> length (level_size open_big_picture)"
      "highlight_level open_big_picture = int 0" "highlight_index open_big_picture = int 0"
      using assms(1) assms(2) [THEN le_less_trans [OF le0]] by (simp_all add: open_big_picture_def)
    from redraw_at [OF this(3,4,1,2)] that show thesis by blast
  qed
  obtain B1 where B1: "big_picture_run ls (replicate l BpDown @ replicate i BpRight @ [BpGo]) B =
      big_picture_run ls (replicate i BpRight @ [BpGo]) B1" "at_item ls l 0 B1"
    using downs_at [OF B(2), of l] assms(2) by fastforce
  obtain B2 where "big_picture_run ls (replicate i BpRight @ [BpGo]) B1 = big_picture_run ls [BpGo] B2"
      "at_item ls l i B2"
    using rights_at [OF B1(2) assms(2), of i] assms(3) by fastforce
  with B B1 assms(3) show ?thesis by (simp add: big_picture_key_def at_item_def)
qed

definition proper_name :: "string \<Rightarrow> bool" where
  "proper_name k \<longleftrightarrow> NUL \<notin> set k \<and> length k \<le> CURRENT_DEFINITION_LEN"

text \<open>Every definition that the big-picture view lists can be edited from it: moving
  down to its level, right to its place in it and pressing the key for the highlight opens that
  very definition, and never reads outside the array of level sizes, as long as there are no more
  than 30 levels.\<close>

theorem big_picture_reaches:
  assumes "length (levels kind depth h) \<le> MAX_LEVELS" "l < length (levels kind depth h)"
    "i < length (levels kind depth h ! l)" "proper_name (levels kind depth h ! l ! i)"
  shows "default_big_picture_view kind depth h (replicate l BpDown @ replicate i BpRight @ [BpGo]) =
    Inr (Edit (levels kind depth h ! l ! i))"
proof -
  have "take CURRENT_DEFINITION_LEN (c_str (levels kind depth h ! l ! i)) = levels kind depth h ! l ! i"
    using assms(4) by (simp add: proper_name_def c_str_id)
  with navigate [OF assms(1-3)] show ?thesis by (auto simp: default_big_picture_view_def Let_def)
qed

definition demo_names :: "lua_table list" where
  "demo_names = [[(''main'', VStr ''function main() end'')], [(''x'', VStr ''x = 1'')],
     [(''doc:blurb'', VStr ''A demo.''), (''__teliva_note'', VStr ''n'')], [(''f'', VStr ''function f() end'')]]"

definition demo_kind :: "string \<Rightarrow> lua_kind" where
  "demo_kind k = (if k = ''main'' \<or> k = ''f'' then KFunction else KValue)"

definition demo_depth :: "string \<rightharpoonup> int" where
  "demo_depth k = (if k = ''main'' then Some 2 else None)"

lemma demo_drew: "drew_anything demo_depth demo_names d \<longleftrightarrow> d = 2"
proof -
  have "\<not> is_special_history_key ''main''" by code_simp
  then show ?thesis
    by (auto simp: drew_anything_def demo_names_def demo_depth_def)
qed

lemma demo_levels: "levels demo_kind demo_depth demo_names = [[''x''], [''doc:blurb''], [''main''], [''f'']]"
proof -
  have "function_levels demo_depth demo_names 2 = [shown demo_names (\<lambda>k. demo_depth k = Some 2)]"
    by (simp add: function_levels.simps demo_drew)
  moreover have "data_level demo_kind demo_names = [''x'']" "prose_level demo_names = [''doc:blurb'']"
    "shown demo_names (\<lambda>k. demo_depth k = Some 2) = [''main'']"
    "unused_level demo_kind demo_depth demo_names = [''f'']" by code_simp+
  ultimately show ?thesis by (simp add: levels_def)
qed

theorem big_picture_complete_witness:
  "''main'' \<in> set (levels demo_kind demo_depth demo_names ! 2)"
proof -
  have d: "list_all (\<lambda>t. distinct (map fst t)) demo_names" "\<not> is_special_history_key ''main''"
    "level_for demo_kind demo_depth ''main'' 3 = 2" by code_simp+
  have k: "''main'' \<in> names_in demo_names" by (simp add: names_in_def demo_names_def)
  have "\<forall>d. demo_depth ''main'' = Some d \<longrightarrow> 2 \<le> d \<and> (\<forall>e. 2 \<le> e \<and> e \<le> d \<longrightarrow> drew_anything demo_depth demo_names e)"
    by (auto simp: demo_depth_def demo_drew)
  from big_picture_complete [OF d(1) k d(2) this, of demo_kind] d(3) show ?thesis
    by (simp add: demo_levels Let_def)
qed

theorem big_picture_reaches_witness:
  "default_big_picture_view demo_kind demo_depth demo_names [BpDown, BpDown, BpGo] = Inr (Edit ''main'')"
  using big_picture_reaches [of demo_kind demo_depth demo_names 2 0]
  by (simp add: demo_levels MAX_LEVELS_def proper_name_def CURRENT_DEFINITION_LEN_def numeral_2_eq_2)

text \<open>A function that was first called at a depth below which no other definition was first
  called is neither among the functions by depth nor among the unused ones.\<close>

lemma gap_hides_function:
  "levels (\<lambda>_. KFunction) [''f'' \<mapsto> 3] [[(''f'', VStr [])]] = [[], [], []]"
proof -
  have "\<not> is_special_history_key ''f''" by code_simp
  then have "\<not> drew_anything [''f'' \<mapsto> 3] [[(''f'', VStr [])]] 2" by (simp add: drew_anything_def)
  then have "function_levels [''f'' \<mapsto> 3] [[(''f'', VStr [])]] 2 = []" by (simp add: function_levels.simps)
  moreover have "data_level (\<lambda>_. KFunction) [[(''f'', VStr [])]] = []" "prose_level [[(''f'', VStr [])]] = []"
    "unused_level (\<lambda>_. KFunction) [''f'' \<mapsto> 3] [[(''f'', VStr [])]] = []" by code_simp+
  ultimately show ?thesis by (simp add: levels_def)
qed

end
