(* ===== verification/Permissions.thy ===== *)
theory Permissions
  imports Tlv
begin

text \<open>
  Permissions, \<^verbatim>\<open>src/src/teliva.c\<close>: what the user allows an app to do, how it is
  summarised on the screen, and the configuration file it is kept in.

  The predicate on file operations is a Lua function whose body the user writes.  It runs in an
  interpreter of its own; \<open>compile\<close>, the parameter of this theory, stands for what running
  the text of a chunk there defines as \<open>file_operation_permitted\<close>: \<open>None\<close> when the
  chunk does not compile.  The function is called with a boolean or a string as second argument.
\<close>

section \<open>State\<close>

datatype lua_arg = ArgBool bool | ArgStr string

datatype lua_result = RBool bool | RNil | RError

type_synonym predicate = "string \<Rightarrow> lua_arg \<Rightarrow> lua_result"

record permissions =
  predicate_body :: "string option"
  ask_always :: int
  net_permitted :: int
  permitted_fn :: predicate

definition default_body :: string where
  "default_body = ''return false'' @ [NL]"

text \<open>The variables before anything is loaded; calling an undefined function is an error.\<close>

definition initial_permissions :: permissions where
  "initial_permissions = \<lparr>predicate_body = None, ask_always = 0, net_permitted = 0,
     permitted_fn = (\<lambda>_ _. RError)\<rparr>"

section \<open>Text helpers\<close>

text \<open>The second loop of \<open>trim\<close> walks back from the end and has no other bound than a
  character that is not a space.\<close>

fun trim_end :: "string \<Rightarrow> nat \<Rightarrow> nat res" where
  "trim_end s 0 = Inl OutOfBounds"
| "trim_end s (Suc e) = (if isspace (s ! e) then trim_end s e else Inr (Suc e))"

definition trim :: "string \<Rightarrow> string res" where
  "trim s =
     assertR (length s < 1020)
       (let start = length (takeWhile isspace s) in
        bindR (trim_end s (length s)) (\<lambda>e. Inr (take (e - start) (drop start s))))"

text \<open>\<open>render_wrapped_text\<close>: the cells it draws and the last line it reaches.\<close>

fun render_wrapped :: "nat \<Rightarrow> nat \<Rightarrow> nat \<Rightarrow> nat \<Rightarrow> string \<Rightarrow> (nat \<times> nat \<times> char) list \<times> nat" where
  "render_wrapped y x xmin xmax [] = ([], y)"
| "render_wrapped y x xmin xmax (c # cs) =
     (if c \<noteq> NL then
        let (cells, y') =
          (if x + 1 \<ge> xmax then render_wrapped (y + 1) xmin xmin xmax cs
           else render_wrapped y (x + 1) xmin xmax cs)
        in ((y, x, c) # cells, y')
      else render_wrapped (y + 1) xmin xmin xmax cs)"

definition render_wrapped_text :: "nat \<Rightarrow> nat \<Rightarrow> nat \<Rightarrow> string \<Rightarrow> (nat \<times> nat \<times> char) list \<times> nat" where
  "render_wrapped_text y xmin xmax s = render_wrapped y xmin xmin xmax s"

section \<open>The predicate\<close>

definition predicate_head :: string where
  "predicate_head = ''function file_operation_permitted(filename, is_write)'' @ [NL]"

definition predicate_chunk :: "string \<Rightarrow> string res" where
  "predicate_chunk body =
     (let b = predicate_head @ take 1020 (c_str body);
          b = (if last b \<noteq> NL then b @ [NL] else b) @ ''end'' @ [NL]
      in if length b < 1024 then Inr b else Inl OutOfBounds)"

datatype load_status = Loaded | LeftNil | LeftError

definition validate_file_operations_predicate :: "permissions \<Rightarrow> load_status" where
  "validate_file_operations_predicate p =
     (case permitted_fn p ''filename'' (ArgStr ''r'') of
        RBool _ \<Rightarrow> Loaded | RNil \<Rightarrow> LeftNil | RError \<Rightarrow> LeftError)"

definition load_file_operations_predicate ::
    "(string \<Rightarrow> predicate option) \<Rightarrow> string \<Rightarrow> permissions \<Rightarrow> (load_status \<times> permissions) res" where
  "load_file_operations_predicate compile body p =
     bindR (predicate_chunk body) (\<lambda>chunk.
       case compile chunk of
         None \<Rightarrow> Inr (LeftError, p)
       | Some f \<Rightarrow>
           let p = p\<lparr>permitted_fn := f\<rparr> in Inr (validate_file_operations_predicate p, p))"

text \<open>\<open>strncmp(mode, "r", 2)\<close> is 0 for the mode \<open>"r"\<close> only.\<close>

definition is_write :: "string \<Rightarrow> bool" where
  "is_write mode \<longleftrightarrow> mode \<noteq> ''r''"

text \<open>\<open>getch() == 'y'\<close>; \<open>None\<close> when there is no key.\<close>

definition file_operation_permitted_manually :: "int option \<Rightarrow> bool" where
  "file_operation_permitted_manually response \<longleftrightarrow> response = Some 121"

definition file_operation_permitted_automatically :: "permissions \<Rightarrow> string \<Rightarrow> string \<Rightarrow> bool res" where
  "file_operation_permitted_automatically p filename mode =
     (case permitted_fn p filename (ArgBool (is_write mode)) of
        RBool b \<Rightarrow> Inr b | RNil \<Rightarrow> Inl (ExitCode 1) | RError \<Rightarrow> Inl (ExitCode 1))"

text \<open>The answer, and the keys not yet read.\<close>

definition file_operation_permitted ::
    "permissions \<Rightarrow> string \<Rightarrow> string \<Rightarrow> int list \<Rightarrow> (bool \<times> int list) res" where
  "file_operation_permitted p filename mode keys =
     (if ask_always p \<noteq> 0 then
        (case keys of
           [] \<Rightarrow> Inr (file_operation_permitted_manually None, [])
         | k # ks \<Rightarrow> Inr (file_operation_permitted_manually (Some k), ks))
      else bindR (file_operation_permitted_automatically p filename mode) (\<lambda>b. Inr (b, keys)))"

section \<open>What the screens say\<close>

datatype colour = Safe | Warn | Risk

text \<open>\<open>render_permissions\<close>: the two lamps of the menu.\<close>

definition render_permissions :: "permissions \<Rightarrow> (colour \<times> colour) res" where
  "render_permissions p =
     bindR (if ask_always p \<noteq> 0 then Inr Warn
            else case predicate_body p of
                None \<Rightarrow> Inr Safe
              | Some b \<Rightarrow> bindR (trim b) (\<lambda>t. Inr (if t \<noteq> ''return false'' then Warn else Safe)))
       (\<lambda>file.
        let net = (if net_permitted p \<noteq> 0 then Warn else Safe)
        in Inr (if file = Warn \<and> net = Warn then (Risk, Risk) else (file, net)))"

definition test_filenames :: "string list" where
  "test_filenames = [''foo'', ''/foo'', ''../foo'']"

definition test_modes :: "string list" where
  "test_modes = [''r'', ''r+'', ''w'', ''w+'', ''a'', ''a+'']"

definition attempts :: "permissions \<Rightarrow> lua_result list" where
  "attempts p = concat (map (\<lambda>f. map (\<lambda>m. permitted_fn p f (ArgStr m)) test_modes) test_filenames)"

definition num_errors :: "permissions \<Rightarrow> nat" where
  "num_errors p = length (filter (\<lambda>r. case r of RBool _ \<Rightarrow> False | RNil \<Rightarrow> True | RError \<Rightarrow> True) (attempts p))"

definition num_rejections :: "permissions \<Rightarrow> nat" where
  "num_rejections p = length (filter (\<lambda>r. r = RBool False) (attempts p))"

datatype verdict = ThrowsErrors | RejectsAll | AllowsAll | Suspected string

definition statuses :: "string list" where
  "statuses =
     [''Weakly suspected to allow all file operations.'',
      ''Weakly suspected to allow most file operations.'',
      ''Weakly suspected to allow many file operations.'',
      ''Weakly suspected to reject most file operations.'',
      ''Weakly suspected to reject all file operations.'']"

definition characterize_file_operations_predicate :: "permissions \<Rightarrow> verdict res" where
  "characterize_file_operations_predicate p =
     (if num_errors p > 0 then Inr ThrowsErrors
      else case predicate_body p of None \<Rightarrow> Inl NullPointer
      | Some b \<Rightarrow> bindR (trim b) (\<lambda>t.
          if t = ''return false'' then Inr RejectsAll
          else if t = ''return true'' then Inr AllowsAll
          else bindR (nthR statuses (num_rejections p * 4 div length (attempts p)))
                 (\<lambda>s. Inr (Suspected s))))"

datatype summary =
    CannotAccessOrCommunicate
  | AccessButCannotLeave
  | CommunicateButCannotAccess
  | CannotProtect
  | CannotTell
  | ManualCannotLeave
  | ManualWithNetwork

definition permissions_summary :: "permissions \<Rightarrow> summary res" where
  "permissions_summary p =
     (if ask_always p = 0 then
        case predicate_body p of None \<Rightarrow> Inl NullPointer
        | Some b \<Rightarrow> bindR (trim b) (\<lambda>t.
            let file_safe = (t = ''return false''); net_safe = (net_permitted p = 0);
                file_unsafe = (t = ''return true''); net_unsafe = (net_permitted p \<noteq> 0)
            in Inr (if file_safe \<and> net_safe then CannotAccessOrCommunicate
                    else if file_safe \<or> net_safe then
                      (if net_safe then AccessButCannotLeave else CommunicateButCannotAccess)
                    else if file_unsafe \<and> net_unsafe then CannotProtect
                    else CannotTell))
      else Inr (if net_permitted p = 0 then ManualCannotLeave else ManualWithNetwork))"

text \<open>The screen as what it says of files, of the network, and of both.\<close>

definition render_permissions_screen :: "permissions \<Rightarrow> (verdict option \<times> bool \<times> summary) res" where
  "render_permissions_screen p =
     bindR (if ask_always p = 0
            then bindR (characterize_file_operations_predicate p) (\<lambda>v. Inr (Some v)) else Inr None)
       (\<lambda>v. bindR (permissions_summary p) (\<lambda>s. Inr (v, net_permitted p \<noteq> 0, s)))"

section \<open>Changing permissions\<close>

text \<open>
  \<open>edit_file_operations_predicate_body\<close>: the argument lists what the user leaves in the file
  at each round of the editor; the flag says whether the editor was left.  A body whose trial call
  returns nil ends the loop but leaves the nil on the stack, which the check for leaks finds.
\<close>

fun edit_file_operations_predicate_body ::
    "(string \<Rightarrow> predicate option) \<Rightarrow> string list \<Rightarrow> permissions \<Rightarrow> (bool \<times> permissions) res" where
  "edit_file_operations_predicate_body compile [] p = Inr (False, p)"
| "edit_file_operations_predicate_body compile (file # files) p =
     (let buffer = c_str (take 500 file) in
      bindR (load_file_operations_predicate compile buffer p) (\<lambda>(status, p).
        case status of
          Loaded \<Rightarrow> Inr (True, p\<lparr>predicate_body := Some buffer\<rparr>)
        | LeftNil \<Rightarrow> Inl (ExitCode 1)
        | LeftError \<Rightarrow> edit_file_operations_predicate_body compile files p))"

datatype permission_key = PermQuit | PermEdit "string list" | PermAsk | PermNet | PermOther

text \<open>Keys until the view is left; the flag says whether it was.\<close>

fun permissions_view ::
    "(string \<Rightarrow> predicate option) \<Rightarrow> permission_key list \<Rightarrow> permissions \<Rightarrow> (bool \<times> permissions) res" where
  "permissions_view compile [] p = bindR (render_permissions_screen p) (\<lambda>_. Inr (False, p))"
| "permissions_view compile (k # ks) p =
     bindR (render_permissions_screen p) (\<lambda>_.
       case k of
         PermQuit \<Rightarrow> Inr (True, p)
       | PermEdit files \<Rightarrow>
           if ask_always p = 0 then
             bindR (edit_file_operations_predicate_body compile files p) (\<lambda>(left, p).
               if left then permissions_view compile ks p else Inr (False, p))
           else permissions_view compile ks p
       | PermAsk \<Rightarrow> permissions_view compile ks (p\<lparr>ask_always := if ask_always p = 0 then 1 else 0\<rparr>)
       | PermNet \<Rightarrow> permissions_view compile ks (p\<lparr>net_permitted := if net_permitted p = 0 then 1 else 0\<rparr>)
       | PermOther \<Rightarrow> permissions_view compile ks p)"

section \<open>The configuration file\<close>

abbreviation k_image :: string where "k_image \<equiv> ''image_name''"
abbreviation k_body :: string where "k_body \<equiv> ''file_operations_predicate_body''"
abbreviation k_ask :: string where "k_ask \<equiv> ''ask_for_permission_on_every_file_operation''"
abbreviation k_net :: string where "k_net \<equiv> ''net_operations_permitted''"

definition config_entry :: "string \<Rightarrow> string option \<Rightarrow> string \<Rightarrow> string \<Rightarrow> string" where
  "config_entry name body ask net =
     ''- '' @ k_image @ '': '' @ name @ [NL] @
     ''  '' @ k_body @ '':'' @ [NL] @
     (case body of None \<Rightarrow> [] | Some b \<Rightarrow> emit_multiline_string b) @
     ''  '' @ k_ask @ '': '' @ ask @ [NL] @
     ''  '' @ k_net @ '': '' @ net @ [NL]"

definition field :: "lua_table \<Rightarrow> string \<Rightarrow> string res" where
  "field t k = (case map_of t k of None \<Rightarrow> Inl NullPointer | Some v \<Rightarrow> Inr (lua_tostring v))"

text \<open>The entry of another image is copied, the one of this image is dropped.\<close>

definition copy_entry :: "string \<Rightarrow> lua_table \<Rightarrow> string \<Rightarrow> string res" where
  "copy_entry name t out =
     bindR (field t k_image) (\<lambda>n.
       if n \<noteq> name then
         bindR (field t k_ask) (\<lambda>ask. bindR (field t k_net) (\<lambda>net.
           Inr (out @ config_entry n (map_option lua_tostring (map_of t k_body)) ask net)))
       else Inr out)"

definition config_entries :: "string \<Rightarrow> lua_table list res" where
  "config_entries config =
     bindR (load_definitions_from (length config + 2) (open_read config)) (\<lambda>(entries, _). Inr entries)"

definition save_permissions_to_user_configuration ::
    "string \<Rightarrow> string option \<Rightarrow> permissions \<Rightarrow> string res" where
  "save_permissions_to_user_configuration image_name config p =
     bindR (case config of None \<Rightarrow> Inr [] | Some c \<Rightarrow> config_entries c) (\<lambda>entries.
     bindR (foldMR (copy_entry image_name) entries []) (\<lambda>out.
     case predicate_body p of
       None \<Rightarrow> Inl AssertionFailed
     | Some b \<Rightarrow> Inr (out @ config_entry image_name (Some b) (show_int (ask_always p)) (show_int (net_permitted p)))))"

definition integer_field :: "lua_table \<Rightarrow> string \<Rightarrow> int" where
  "integer_field t k = (case map_of t k of None \<Rightarrow> 0 | Some v \<Rightarrow> lua_tointeger v)"

definition load_entry :: "string \<Rightarrow> lua_table \<Rightarrow> permissions \<Rightarrow> permissions res" where
  "load_entry image_name t p =
     bindR (field t k_image) (\<lambda>n.
       Inr (if n = image_name then
              p\<lparr>predicate_body :=
                  (case map_of t k_body of None \<Rightarrow> predicate_body p
                   | Some b \<Rightarrow> Some (take 500 (c_str (lua_tostring b)))),
                ask_always := integer_field t k_ask,
                net_permitted := integer_field t k_net\<rparr>
            else p))"

definition load_permissions_from_user_configuration ::
    "(string \<Rightarrow> predicate option) \<Rightarrow> string \<Rightarrow> string option \<Rightarrow> permissions res" where
  "load_permissions_from_user_configuration compile image_name config =
     bindR (load_file_operations_predicate compile default_body
         (initial_permissions\<lparr>predicate_body := Some default_body\<rparr>)) (\<lambda>(status, p).
     if status = LeftNil then Inl (ExitCode 1)
     else case config of
         None \<Rightarrow> Inr p
       | Some c \<Rightarrow>
           bindR (config_entries c) (\<lambda>entries.
           bindR (foldMR (load_entry image_name) entries p) (\<lambda>p.
           case predicate_body p of None \<Rightarrow> Inl AssertionFailed
           | Some b \<Rightarrow>
               bindR (load_file_operations_predicate compile b p) (\<lambda>(status, p).
                 if status = LeftError then Inl (ExitCode 1) else Inr p))))"

text \<open>
  \<open>permissions_mode\<close>: the view, then the configuration is saved and the program starts
  again, with the permissions it finds there.
\<close>

definition permissions_mode ::
    "(string \<Rightarrow> predicate option) \<Rightarrow> string \<Rightarrow> string option \<Rightarrow> permission_key list \<Rightarrow> permissions \<Rightarrow>
     (string \<times> permissions) option res" where
  "permissions_mode compile image_name config keys p =
     bindR (permissions_view compile keys p) (\<lambda>(left, p).
       if \<not> left then Inr None
       else bindR (save_permissions_to_user_configuration image_name config p) (\<lambda>config'.
            bindR (load_permissions_from_user_configuration compile image_name (Some config')) (\<lambda>p'.
            Inr (Some (config', p')))))"

section \<open>What the screens promise\<close>

text \<open>The loaded function is the one the body defines; loading and editing keep this.\<close>

definition in_force :: "(string \<Rightarrow> predicate option) \<Rightarrow> permissions \<Rightarrow> bool" where
  "in_force compile p \<longleftrightarrow>
     (\<exists>b chunk. predicate_body p = Some b \<and> predicate_chunk b = Inr chunk \<and>
        compile chunk = Some (permitted_fn p))"

lemma load_predicate_in_force:
  assumes "load_file_operations_predicate compile b p = Inr (status, p')" "status \<noteq> LeftError"
  shows "in_force compile (p'\<lparr>predicate_body := Some b\<rparr>) \<and>
    predicate_body p' = predicate_body p \<and> ask_always p' = ask_always p \<and> net_permitted p' = net_permitted p"
  using assms
  by (auto simp: load_file_operations_predicate_def in_force_def bindR_Inr_iff Let_def split: option.splits)

lemma in_force_cong:
  "predicate_body p = predicate_body q \<Longrightarrow> permitted_fn p = permitted_fn q \<Longrightarrow>
   in_force compile p = in_force compile q"
  by (simp add: in_force_def)

lemma edit_in_force:
  "edit_file_operations_predicate_body compile files p = Inr (True, p') \<Longrightarrow> in_force compile p'"
proof (induction compile files p rule: edit_file_operations_predicate_body.induct)
  case (2 compile contents files p)
  let ?b = "c_str (take 500 contents)"
  from 2(2) obtain status q where l: "load_file_operations_predicate compile ?b p = Inr (status, q)"
    "(case status of Loaded \<Rightarrow> Inr (True, q\<lparr>predicate_body := Some ?b\<rparr>) | LeftNil \<Rightarrow> Inl (ExitCode 1)
      | LeftError \<Rightarrow> edit_file_operations_predicate_body compile files q) = Inr (True, p')"
    by (auto simp: bindR_Inr_iff Let_def)
  show ?case
  proof (cases status)
    case Loaded
    with l load_predicate_in_force [of compile ?b p status q] show ?thesis by simp
  next
    case LeftNil
    with l show ?thesis by simp
  next
    case LeftError
    with l 2(1) show ?thesis by auto
  qed
qed simp

lemma view_in_force:
  "permissions_view compile keys p = Inr (True, p') \<Longrightarrow> in_force compile p \<Longrightarrow> in_force compile p'"
proof (induction compile keys p rule: permissions_view.induct)
  case (2 compile k ks p)
  show ?case
  proof (cases k)
    case (PermEdit files)
    show ?thesis
    proof (cases "ask_always p = 0")
      case True
      with 2(6) PermEdit obtain v w q where "render_permissions_screen p = Inr v"
          "edit_file_operations_predicate_body compile files p = Inr (True, q)"
          "permissions_view compile ks q = Inr (True, p')"
        by (auto simp: bindR_Inr_iff split: if_splits)
      with 2(1) PermEdit True edit_in_force show ?thesis by blast
    qed (use 2 PermEdit in \<open>auto simp: bindR_Inr_iff\<close>)
  next
    case PermAsk
    have "in_force compile (p\<lparr>ask_always := a\<rparr>)" for a
      using 2(7) in_force_cong [of "p\<lparr>ask_always := a\<rparr>" p] by simp
    with 2 PermAsk show ?thesis by (auto simp: bindR_Inr_iff)
  next
    case PermNet
    have "in_force compile (p\<lparr>net_permitted := a\<rparr>)" for a
      using 2(7) in_force_cong [of "p\<lparr>net_permitted := a\<rparr>" p] by simp
    with 2 PermNet show ?thesis by (auto simp: bindR_Inr_iff)
  qed (use 2 in \<open>auto simp: bindR_Inr_iff\<close>)
qed (auto simp: bindR_Inr_iff)

lemma load_in_force:
  assumes "load_permissions_from_user_configuration compile name config = Inr p"
    "compile (projr (predicate_chunk default_body)) \<noteq> None"
  shows "in_force compile p"
proof -
  obtain s p0 where l: "load_file_operations_predicate compile default_body
      (initial_permissions\<lparr>predicate_body := Some default_body\<rparr>) = Inr (s, p0)"
    using assms(1) by (auto simp: load_permissions_from_user_configuration_def bindR_Inr_iff)
  show ?thesis
  proof (cases config)
    case None
    then have "p = p0" using assms(1) l
      by (auto simp: load_permissions_from_user_configuration_def split: if_splits)
    with l assms(2) show ?thesis
      by (auto simp: load_file_operations_predicate_def bindR_Inr_iff in_force_def Let_def)
  next
    case (Some c)
    with assms(1) l obtain p1 b s2 where "predicate_body p1 = Some b"
      "load_file_operations_predicate compile b p1 = Inr (s2, p)" "s2 \<noteq> LeftError"
      by (auto simp: load_permissions_from_user_configuration_def bindR_Inr_iff split: if_splits option.splits)
    with load_predicate_in_force [of compile b p1 s2 p] in_force_cong [of "p\<lparr>predicate_body := Some b\<rparr>" p]
    show ?thesis by simp
  qed
qed

text \<open>What Lua promises of a body that is \<open>return false\<close>, up to surrounding space.\<close>

definition runs_return_false :: "(string \<Rightarrow> predicate option) \<Rightarrow> bool" where
  "runs_return_false compile \<longleftrightarrow>
     (\<forall>b chunk. trim b = Inr ''return false'' \<longrightarrow> predicate_chunk b = Inr chunk \<longrightarrow>
        compile chunk = Some (\<lambda>_ _. RBool False))"

lemma safe_denies:
  assumes "in_force compile p" "runs_return_false compile" "ask_always p = 0"
    "predicate_body p = Some b" "trim b = Inr ''return false''"
  shows "file_operation_permitted p f m keys = Inr (False, keys)"
proof -
  have "permitted_fn p = (\<lambda>_ _. RBool False)"
    using assms by (auto simp: in_force_def runs_return_false_def)
  with assms(3) show ?thesis
    by (simp add: file_operation_permitted_def file_operation_permitted_automatically_def)
qed

lemma summary_safe:
  assumes "permissions_summary p = Inr CannotAccessOrCommunicate"
  shows "ask_always p = 0 \<and> net_permitted p = 0 \<and> (\<exists>b. predicate_body p = Some b \<and> trim b = Inr ''return false'')"
  using assms
  by (auto simp: permissions_summary_def bindR_Inr_iff Let_def split: if_splits option.splits)

lemma lamps_safe:
  assumes "render_permissions p = Inr (Safe, Safe)" "predicate_body p \<noteq> None"
  shows "ask_always p = 0 \<and> net_permitted p = 0 \<and> (\<exists>b. predicate_body p = Some b \<and> trim b = Inr ''return false'')"
  using assms
  by (auto simp: render_permissions_def bindR_Inr_iff Let_def split: if_splits)

lemma trim_default: "trim default_body = Inr ''return false''"
  by code_simp

lemma chunk_default: "predicate_chunk default_body =
   Inr (predicate_head @ ''return false'' @ [NL] @ ''end'' @ [NL])"
  by code_simp

lemma default_compiles: "runs_return_false compile \<Longrightarrow>
   compile (projr (predicate_chunk default_body)) = Some (\<lambda>_ _. RBool False)"
  using trim_default chunk_default by (auto simp: runs_return_false_def)

text \<open>C17: when the permissions screen says that an app can neither access private data
  nor communicate, or both lamps of the menu are safe, then whatever configuration was loaded and
  whatever was typed on the permissions screen since, every file operation is denied without
  asking and the network is not permitted; the Lua interpreter is only trusted to run a body
  that reads \<open>return false\<close> up to surrounding space as it should.\<close>

theorem safe_screen_denies:
  assumes "load_permissions_from_user_configuration compile name config = Inr p0"
    "permissions_view compile typed p0 = Inr (True, p)"
    "runs_return_false compile"
    "permissions_summary p = Inr CannotAccessOrCommunicate \<or> render_permissions p = Inr (Safe, Safe)"
  shows "file_operation_permitted p f m keys = Inr (False, keys) \<and> net_permitted p = 0"
proof -
  have i: "in_force compile p"
    using view_in_force [OF assms(2) load_in_force [OF assms(1)]] default_compiles [OF assms(3)] by simp
  then have "predicate_body p \<noteq> None" by (auto simp: in_force_def)
  with assms(4) summary_safe lamps_safe obtain b where
    "ask_always p = 0" "net_permitted p = 0" "predicate_body p = Some b" "trim b = Inr ''return false''"
    by blast
  with safe_denies [OF i assms(3)] show ?thesis by simp
qed

text \<open>A Lua of five programs, for the examples.\<close>

definition small_lua :: "string \<Rightarrow> predicate option" where
  "small_lua chunk =
     (if contains chunk ''return false'' then Some (\<lambda>_ _. RBool False)
      else if contains chunk ''return true'' then Some (\<lambda>_ _. RBool True)
      else if contains chunk ''is_write == false'' then Some (\<lambda>_ a. RBool (a = ArgBool False))
      else if contains chunk ''return'' then Some (\<lambda>_ _. RNil)
      else None)"

text \<open>\<open>trim\<close> only removes characters at the ends.\<close>

lemma trim_end_bound: "trim_end s n = Inr e \<Longrightarrow> e \<le> n"
  by (induction s n rule: trim_end.induct) (auto split: if_splits)

lemma trim_sublist:
  assumes "trim s = Inr t"
  shows "sublist t s"
  using assms by (auto simp: trim_def assertR_Inr_iff bindR_Inr_iff Let_def
      intro: sublist_order.order.trans [OF sublist_take sublist_drop])

lemma chunk_of_body:
  assumes "sublist t b" "predicate_chunk b = Inr chunk" "NUL \<notin> set b"
  shows "sublist t chunk"
proof -
  have c: "c_str b = b" by (rule c_str_id [OF assms(3)])
  have "length (take 1020 b) < 1020"
    using assms(2) c by (auto simp: predicate_chunk_def predicate_head_def Let_def split: if_splits)
  then have "take 1020 b = b" by simp
  then have "\<exists>r. chunk = predicate_head @ b @ r"
    using assms(2) c by (auto simp: predicate_chunk_def Let_def split: if_splits)
  then obtain l r where "chunk = l @ b @ r" by blast
  then have "sublist b chunk" by (simp add: sublist_appendI)
  with assms(1) show ?thesis by (rule sublist_order.order.trans)
qed

lemma trim_end_spaces: "trim_end b n = Inr e \<Longrightarrow> \<forall>i < n. e \<le> i \<longrightarrow> isspace (b ! i)"
  by (induction b n rule: trim_end.induct) (auto split: if_splits simp: less_Suc_eq)

lemma small_lua_ok: "runs_return_false small_lua"
proof -
  have "contains chunk ''return false''"
    if t: "trim b = Inr ''return false''" "predicate_chunk b = Inr chunk" for b chunk
  proof -
    let ?s = "length (takeWhile isspace b)"
    obtain e where e: "trim_end b (length b) = Inr e" "take (e - ?s) (drop ?s b) = ''return false''"
      using t(1) by (auto simp: trim_def assertR_Inr_iff bindR_Inr_iff Let_def)
    have "\<forall>c \<in> set (takeWhile isspace b). c \<noteq> NUL" by (auto simp: isspace_def dest: set_takeWhileD)
    moreover have "\<forall>c \<in> set (drop e b). c \<noteq> NUL"
    proof -
      have sp: "\<forall>i < length b. e \<le> i \<longrightarrow> isspace (b ! i)" using trim_end_spaces [OF e(1)] .
      have "isspace (drop e b ! j)" if "j < length (drop e b)" for j
        using sp that by simp
      then have "\<forall>c \<in> set (drop e b). isspace c" by (metis in_set_conv_nth)
      moreover have "\<not> isspace NUL" by (simp add: isspace_def)
      ultimately show ?thesis by blast
    qed
    moreover have eq: "b = takeWhile isspace b @ ''return false'' @ drop e b"
    proof -
      have "length (take (e - ?s) (drop ?s b)) = 12" using e(2) by simp
      then have "?s \<le> e" "e \<le> length b" using trim_end_bound [OF e(1)] by auto
      have "b = take ?s b @ take (e - ?s) (drop ?s b) @ drop (e - ?s) (drop ?s b)" by (simp only: append_take_drop_id)
      also have "take ?s b = takeWhile isspace b" by (rule takeWhile_eq_take [symmetric])
      finally show ?thesis using e(2) \<open>?s \<le> e\<close> by simp
    qed
    have "NUL \<notin> set (takeWhile isspace b @ ''return false'' @ drop e b)" if "NUL \<notin> set (takeWhile isspace b)"
        "NUL \<notin> set (drop e b)"
      using that by simp
    ultimately have "NUL \<notin> set b" by (metis eq)
    with chunk_of_body [OF trim_sublist [OF t(1)] t(2)] show ?thesis by (simp add: contains_sublist)
  qed
  then show ?thesis by (auto simp: runs_return_false_def small_lua_def)
qed

theorem safe_screen_denies_witness:
  "file_operation_permitted (initial_permissions\<lparr>predicate_body := Some default_body,
     permitted_fn := \<lambda>_ _. RBool False\<rparr>) ''/etc/passwd'' ''r'' [] = Inr (False, [])"
proof -
  let ?p = "initial_permissions\<lparr>predicate_body := Some default_body, permitted_fn := \<lambda>_ _. RBool False\<rparr>"
  have "small_lua (projr (predicate_chunk default_body)) = Some (\<lambda>_ _. RBool False)"
    by (rule default_compiles [OF small_lua_ok])
  then have l: "load_permissions_from_user_configuration small_lua ''a.tlv'' None = Inr ?p"
    by (simp add: load_permissions_from_user_configuration_def load_file_operations_predicate_def
        chunk_default validate_file_operations_predicate_def initial_permissions_def)
  have v: "permissions_view small_lua [PermQuit] ?p = Inr (True, ?p)"
  proof -
    have "render_permissions_screen ?p = Inr (Some RejectsAll, False, CannotAccessOrCommunicate)"
      by code_simp
    then show ?thesis by simp
  qed
  have s: "permissions_summary ?p = Inr CannotAccessOrCommunicate"
    by code_simp
  from safe_screen_denies [OF l v small_lua_ok] s show ?thesis by blast
qed

section \<open>How the predicate is characterised\<close>

lemma attempts_length: "length (attempts p) = 18"
  by (simp add: attempts_def test_filenames_def test_modes_def)

lemma rejections_bound: "num_rejections p \<le> 18"
  unfolding num_rejections_def attempts_length [symmetric, of p] by (rule length_filter_le)

text \<open>The verdict on the predicate never reads outside the table of verdicts, for any
  function and any body that is not blank; of the two extreme suspicions, the screen shows
  "reject all" only if each of the 18 trial calls returned false, and "allow all" only if fewer
  than five did.\<close>

theorem verdict_defined:
  assumes "predicate_body p = Some b" "trim b = Inr t"
  shows "\<exists>v. characterize_file_operations_predicate p = Inr v \<and>
     (v = Suspected (statuses ! 4) \<longrightarrow> set (attempts p) = {RBool False}) \<and>
     (v = Suspected (statuses ! 0) \<longrightarrow> num_rejections p < 5)"
proof -
  let ?f = "num_rejections p * 4 div 18"
  have "?f < length statuses" using rejections_bound [of p] by (simp add: statuses_def)
  moreover have "statuses ! ?f = statuses ! 4 \<longrightarrow> ?f = 4" "statuses ! ?f = statuses ! 0 \<longrightarrow> ?f = 0"
  proof -
    have "distinct statuses" by code_simp
    moreover have "length statuses = 5" by (simp add: statuses_def)
    ultimately show "statuses ! ?f = statuses ! 4 \<longrightarrow> ?f = 4" "statuses ! ?f = statuses ! 0 \<longrightarrow> ?f = 0"
      using \<open>?f < length statuses\<close> nth_eq_iff_index_eq [of statuses ?f 4]
        nth_eq_iff_index_eq [of statuses ?f 0] by simp_all
  qed
  moreover have "set (attempts p) = {RBool False}" if "?f = 4"
  proof -
    have "num_rejections p = length (attempts p)"
      using that rejections_bound [of p] attempts_length [of p] by linarith
    then have "filter (\<lambda>r. r = RBool False) (attempts p) = attempts p"
      unfolding num_rejections_def by (metis length_filter_less less_irrefl filter_id_conv)
    then have "set (attempts p) \<subseteq> {RBool False}" by (auto simp: filter_id_conv)
    moreover have "set (attempts p) \<noteq> {}" using attempts_length [of p] by auto
    ultimately show ?thesis by (metis subset_singletonD)
  qed
  moreover have "num_rejections p < 5" if "?f = 0" using that by linarith
  ultimately have "(statuses ! ?f = statuses ! 4 \<longrightarrow> set (attempts p) = {RBool False}) \<and>
      (statuses ! ?f = statuses ! 0 \<longrightarrow> num_rejections p < 5)" "?f < length statuses" by blast+
  with assms show ?thesis
    unfolding characterize_file_operations_predicate_def attempts_length by simp
qed

theorem verdict_defined_witness:
  "\<exists>v. characterize_file_operations_predicate (initial_permissions\<lparr>predicate_body := Some default_body,
     permitted_fn := \<lambda>_ _. RBool False\<rparr>) = Inr v"
  using verdict_defined [of "initial_permissions\<lparr>predicate_body := Some default_body,
     permitted_fn := \<lambda>_ _. RBool False\<rparr>" default_body] trim_default by simp blast

text \<open>The trial calls pass the open mode where the function expects a boolean, so the suggested
  predicate for reading only, \<open>return is_write == false\<close>, is reported to reject everything.\<close>

lemma read_only_reported_as_rejecting:
  "characterize_file_operations_predicate \<lparr>predicate_body = Some (''return is_write == false'' @ [NL]),
     ask_always = 0, net_permitted = 0, permitted_fn = \<lambda>_ a. RBool (a = ArgBool False)\<rparr> =
   Inr (Suspected ''Weakly suspected to reject all file operations.'')"
  "file_operation_permitted \<lparr>predicate_body = Some (''return is_write == false'' @ [NL]),
     ask_always = 0, net_permitted = 0, permitted_fn = \<lambda>_ a. RBool (a = ArgBool False)\<rparr> ''foo'' ''r'' [] =
   Inr (True, [])"
  by code_simp+

lemma blank_body_reads_outside: "trim '' '' = Inl OutOfBounds" "trim '''' = Inl OutOfBounds"
  by code_simp+

section \<open>The configuration file as a map\<close>

text \<open>A configuration is abstractly a list of entries: image, body, ask, net.\<close>

type_synonym config_item = "string \<times> string \<times> int \<times> int"

fun entry_table :: "config_item \<Rightarrow> lua_table" where
  "entry_table (n, b, a, t) = [(k_image, VStr n), (k_body, VStr b), (k_ask, VInt a), (k_net, VInt t)]"

definition config_text :: "config_item list \<Rightarrow> string" where
  "config_text es = concat (map (\<lambda>e. save_definition (entry_table e)) es)"

text \<open>Names without space, bodies of whole lines that fit the buffers.\<close>

definition good_name :: "string \<Rightarrow> bool" where
  "good_name n \<longleftrightarrow> list_all (\<lambda>c. \<not> isspace c \<and> c \<noteq> NUL) n \<and> length n < 1000"

definition good_body :: "string \<Rightarrow> bool" where
  "good_body b \<longleftrightarrow> b \<noteq> [] \<and> last b = NL \<and> NUL \<notin> set b \<and> length b \<le> 500"

fun good_item :: "config_item \<Rightarrow> bool" where
  "good_item (n, b, a, t) \<longleftrightarrow> good_name n \<and> good_body b \<and> \<bar>a\<bar> \<le> 1 \<and> \<bar>t\<bar> \<le> 1"

lemma text_lines_length: "l \<in> set (text_lines s) \<Longrightarrow> length l \<le> length s"
proof (induction s arbitrary: l rule: text_lines.induct)
  case (2 c cs)
  then show ?case by (fastforce split: if_splits list.splits)
qed simp

lemma show_small: "\<bar>i\<bar> \<le> 1 \<Longrightarrow> length (show_int i) \<le> 2"
proof -
  assume "\<bar>i\<bar> \<le> 1"
  then have "i = 0 \<or> i = 1 \<or> i = -1" by linarith
  then show ?thesis by (elim disjE) (simp_all add: show_int_def show_nat.simps)
qed

lemma storable_text_pair:
  assumes "list_all (\<lambda>c. \<not> isspace c \<and> c \<noteq> NUL) s" "length k + length s < 1019" "plain_key k"
  shows "storable_pair k s"
proof -
  have "\<not> multiline s" using assms(1) by (auto simp: multiline_def list_all_iff isspace_def)
  with assms show ?thesis by (auto simp: storable_pair_def list_all_iff)
qed

lemma storable_body: "good_body b \<Longrightarrow> storable_pair k_body b"
proof -
  assume b: "good_body b"
  then have "NL \<in> set b" unfolding good_body_def by (metis last_in_set)
  then have "multiline b" by (simp add: multiline_def)
  moreover have "list_all (\<lambda>l. length l < 1018) (text_lines b)"
    using b text_lines_length [of _ b] by (fastforce simp: list_all_iff good_body_def)
  moreover have "plain_key k_body" by code_simp
  ultimately show ?thesis using b by (simp add: storable_pair_def good_body_def)
qed

lemma storable_int: "\<bar>i\<bar> \<le> 1 \<Longrightarrow> length k < 511 \<Longrightarrow> plain_key k \<Longrightarrow> storable_pair k (show_int i)"
  using show_int_plain(1) [of i] show_small [of i]
  by (intro storable_text_pair) (auto simp: list_all_iff)

lemma saved_pairs_entry: "saved_pairs (entry_table e) = entry_table e"
  by (cases e) (simp add: saved_pairs_def special_history_keys_def is_special_history_key_def
      any_equal_def List.map_filter_def)

lemma plain_keys: "plain_key k_image" "plain_key k_body" "plain_key k_ask" "plain_key k_net"
  by code_simp+

lemma saved_text_entry:
  "saved_text k_image v = lua_tostring v" "saved_text k_body v = lua_tostring v"
  "saved_text k_ask v = lua_tostring v" "saved_text k_net v = lua_tostring v"
  by (simp_all add: saved_text_def)

lemma storable_entry: "good_item e \<Longrightarrow> storable (entry_table e)"
proof -
  assume "good_item e"
  moreover obtain n b a t where e: "e = (n, b, a, t)" by (cases e)
  ultimately have g: "good_name n" "good_body b" "\<bar>a\<bar> \<le> 1" "\<bar>t\<bar> \<le> 1" by auto
  have "storable_pair k_image n"
    using g(1) plain_keys by (intro storable_text_pair) (auto simp: good_name_def)
  with g e storable_body storable_int [of a k_ask] storable_int [of t k_net] plain_keys show ?thesis
    unfolding storable_def saved_pairs_entry by (simp add: storable_pairs_def saved_text_entry)
qed

lemma entry_text:
  assumes "good_item (n, b, a, t)"
  shows "config_entry n (Some b) (show_int a) (show_int t) = save_definition (entry_table (n, b, a, t))"
proof -
  have g: "good_name n" "good_body b" using assms by auto
  have n: "c_str n = n" "SPC \<notin> set n" "NL \<notin> set n"
    using g(1) by (auto simp: good_name_def list_all_iff isspace_def intro!: c_str_id)
  have b: "c_str b = b" "NL \<in> set b"
    using g(2) last_in_set [of b] by (auto simp: good_body_def c_str_id)
  have i: "c_str (show_int i) = show_int i" "SPC \<notin> set (show_int i)" "NL \<notin> set (show_int i)" for i
    using show_int_plain(1) [of i] by (auto simp: isspace_def intro!: c_str_id)
  show ?thesis
    unfolding save_definition_def saved_pairs_entry
    by (simp add: config_entry_def save_pairs_def save_tlv_key_def Let_def n b i)
qed

lemma config_entries_text:
  assumes "list_all good_item es"
  shows "config_entries (config_text es) = Inr (map (\<lambda>e. reloaded (entry_table e)) es)"
proof -
  let ?h = "map entry_table es" and ?b = "config_text es"
  have st: "list_all storable ?h" using assms storable_entry by (auto simp: list_all_iff)
  then have ne: "list_all (\<lambda>t. saved_pairs t \<noteq> []) ?h" by (auto simp: list_all_iff storable_def)
  have b: "?b = concat (map save_definition ?h)" by (simp add: config_text_def comp_def)
  obtain m where m: "list_all (\<lambda>t. length (saved_pairs t) \<le> m) ?h" "m + length ?h \<le> length ?b + 1"
    using history_length [OF ne] unfolding b by blast
  show ?thesis
  proof (cases es)
    case Nil
    then show ?thesis
      by (simp add: config_entries_def config_text_def open_read_def teliva_load_definition_def
          skip_comments.simps fgets_def)
  next
    case (Cons e es')
    then have "?b \<noteq> []" using save_definition_start(2) [of "entry_table e"] ne by (auto simp: config_text_def)
    then have "open_read ?b = stream_after ?b" by (simp add: open_read_def stream_after_def)
    moreover have "m + length ?h < length ?b + 2" using m(2) by simp
    ultimately show ?thesis
      using load_definitions_saved [OF st m(1), of "length ?b + 2"] b
      by (simp add: config_entries_def comp_def)
  qed
qed

lemma reloaded_entry:
  "reloaded (entry_table (n, b, a, t)) =
     [(k_image, VStr n), (k_body, VStr b), (k_ask, VStr (show_int a)), (k_net, VStr (show_int t))]"
proof -
  have "distinct (map fst (entry_table (n, b, a, t)))" by simp
  from reloaded_eq [OF this] show ?thesis
    unfolding saved_pairs_entry by (simp add: saved_text_entry)
qed

lemma copy_entries:
  "list_all good_item es \<Longrightarrow>
   foldMR (copy_entry name) (map (\<lambda>e. reloaded (entry_table e)) es) out =
     Inr (out @ config_text (filter (\<lambda>e. fst e \<noteq> name) es))"
proof (induction es arbitrary: out)
  case (Cons e es)
  obtain n b a t where e: "e = (n, b, a, t)" by (cases e)
  with Cons.prems entry_text [of n b a t] Cons.IH show ?case
    by (simp add: reloaded_entry copy_entry_def field_def config_text_def del: entry_table.simps)
qed (simp add: config_text_def)

text \<open>What an image is given: its entry, or nothing at all.\<close>

definition config_lookup :: "string \<Rightarrow> config_item list \<Rightarrow> string \<times> int \<times> int" where
  "config_lookup name es = (case map_of es name of None \<Rightarrow> (default_body, 0, 0) | Some x \<Rightarrow> x)"

lemma load_entry_item:
  assumes "good_item (n, b, a, t)"
  shows "load_entry name (reloaded (entry_table (n, b, a, t))) p =
     Inr (if n = name then p\<lparr>predicate_body := Some b, ask_always := a, net_permitted := t\<rparr> else p)"
  using assms
  by (simp add: reloaded_entry load_entry_def field_def integer_field_def read_show_int good_body_def c_str_id
      del: entry_table.simps)

lemma load_entries:
  assumes "list_all good_item es" "distinct (map fst es)"
  shows "foldMR (load_entry name) (map (\<lambda>e. reloaded (entry_table e)) es) p =
     Inr (case map_of es name of None \<Rightarrow> p
          | Some (b, a, t) \<Rightarrow> p\<lparr>predicate_body := Some b, ask_always := a, net_permitted := t\<rparr>)"
  using assms
proof (induction es arbitrary: p)
  case (Cons e es)
  obtain n b a t where e: "e = (n, b, a, t)" by (cases e)
  show ?case
  proof (cases "n = name")
    case True
    with Cons.prems e have "map_of es name = None" by (auto simp: map_of_eq_None_iff)
    with True Cons e load_entry_item [of n b a t name p] show ?thesis
      by (simp del: entry_table.simps)
  next
    case False
    with Cons e load_entry_item [of n b a t name p] show ?thesis
      by (simp del: entry_table.simps)
  qed
qed simp

definition config_update :: "string \<Rightarrow> string \<times> int \<times> int \<Rightarrow> config_item list \<Rightarrow> config_item list" where
  "config_update name x es = filter (\<lambda>e. fst e \<noteq> name) es @ [(name, x)]"

lemma config_update_lookup:
  "map_of (config_update name x es) name = Some x"
  "other \<noteq> name \<Longrightarrow> map_of (config_update name x es) other = map_of es other"
  by (induction es) (auto simp: config_update_def)

lemma config_update_ok:
  "list_all good_item es \<Longrightarrow> good_item (name, x) \<Longrightarrow> list_all good_item (config_update name x es)"
  "distinct (map fst es) \<Longrightarrow> distinct (map fst (config_update name x es))"
  by (induction es) (auto simp: config_update_def)

lemma save_is_update:
  assumes "list_all good_item es" "predicate_body p = Some b" "good_item (name, b, ask_always p, net_permitted p)"
  shows "save_permissions_to_user_configuration name (Some (config_text es)) p =
    Inr (config_text (config_update name (b, ask_always p, net_permitted p) es))"
proof -
  have "config_text (config_update name x es) = config_text (filter (\<lambda>e. fst e \<noteq> name) es) @
      save_definition (entry_table (name, x))" for x
    by (simp add: config_update_def config_text_def del: entry_table.simps)
  then show ?thesis
    using assms entry_text [OF assms(3)] copy_entries [OF assms(1), of name "[]"]
    by (simp add: save_permissions_to_user_configuration_def config_entries_text del: entry_table.simps)
qed

text \<open>Loading is a lookup followed by the compilation of the body found.\<close>

definition permissions_from ::
    "(string \<Rightarrow> predicate option) \<Rightarrow> string \<times> int \<times> int \<Rightarrow> permissions res" where
  "permissions_from compile x =
     (case x of (b, a, t) \<Rightarrow>
        bindR (load_file_operations_predicate compile b
          \<lparr>predicate_body = Some b, ask_always = a, net_permitted = t, permitted_fn = \<lambda>_ _. RBool False\<rparr>)
          (\<lambda>(status, p). if status = LeftError then Inl (ExitCode 1) else Inr p))"

lemma load_is_lookup:
  assumes "list_all good_item es" "distinct (map fst es)" "runs_return_false compile"
  shows "load_permissions_from_user_configuration compile name (Some (config_text es)) =
    permissions_from compile (config_lookup name es)"
proof -
  let ?p = "\<lparr>predicate_body = Some default_body, ask_always = 0, net_permitted = 0,
     permitted_fn = \<lambda>_ _. RBool False\<rparr>"
  have "load_file_operations_predicate compile default_body
      (initial_permissions\<lparr>predicate_body := Some default_body\<rparr>) = Inr (Loaded, ?p)"
    using default_compiles [OF assms(3)]
    by (simp add: load_file_operations_predicate_def chunk_default validate_file_operations_predicate_def
        initial_permissions_def)
  then show ?thesis
    using config_entries_text [OF assms(1)] load_entries [OF assms(1,2), of name ?p]
    by (auto simp: load_permissions_from_user_configuration_def permissions_from_def config_lookup_def
        split: option.splits)
qed

text \<open>The configuration file behaves as a map from images to permissions: saving is
  an update of this image's entry that leaves the other entries as they are, and loading looks an
  image up, gives an image without an entry no permissions at all, and compiles the body
  found.\<close>

theorem permissions_file_is_a_map:
  assumes "list_all good_item es" "distinct (map fst es)" "runs_return_false compile"
    "predicate_body p = Some b" "good_item (name, b, ask_always p, net_permitted p)"
  shows "save_permissions_to_user_configuration name (Some (config_text es)) p =
      Inr (config_text (config_update name (b, ask_always p, net_permitted p) es)) \<and>
    load_permissions_from_user_configuration compile other (Some (config_text es)) =
      permissions_from compile (config_lookup other es)"
  using save_is_update [OF assms(1,4,5)] load_is_lookup [OF assms(1-3)] by simp

definition demo_config :: "config_item list" where
  "demo_config = [(''life.tlv'', default_body, 0, 1), (''b.tlv'', ''return true'' @ [NL], 1, 0)]"

lemma demo_config_ok: "list_all good_item demo_config" "distinct (map fst demo_config)"
  by code_simp+

theorem permissions_file_is_a_map_witness:
  "load_permissions_from_user_configuration small_lua ''c.tlv'' (Some (config_text demo_config)) =
     permissions_from small_lua (default_body, 0, 0)"
  using permissions_file_is_a_map [OF demo_config_ok small_lua_ok,
      of "\<lparr>predicate_body = Some default_body, ask_always = 0, net_permitted = 1,
        permitted_fn = \<lambda>_ _. RBool False\<rparr>" default_body "''life.tlv''" "''c.tlv''"]
  by (simp add: demo_config_def config_lookup_def good_name_def isspace_def good_body_def default_body_def)



text \<open>A body that is empty is saved as a line without an end, which swallows the next key when it
  is read again: the image then has a body that does not compile.\<close>

lemma empty_body_swallows_next_key:
  "config_entry ''a'' (Some []) ''0'' ''0'' =
     ''- image_name: a'' @ [NL] @ ''  file_operations_predicate_body:'' @ [NL] @
     ''    >  ask_for_permission_on_every_file_operation: 0'' @ [NL] @ ''  net_operations_permitted: 0'' @ [NL]"
  by code_simp

end
