(* ===== verification/EditSession.thy ===== *)
theory EditSession
  imports Find BigPicture Permissions
begin

text \<open>
  Editing a definition, from the buffer file to the image: the loops \<open>edit\<close>,
  \<open>resumeEdit\<close> and the keys that leave the buffer (\<^verbatim>\<open>src/src/kilo.c\<close>), and
  \<open>edit_current_definition\<close> around them (\<^verbatim>\<open>src/src/teliva.c\<close>).  Keys come as one list;
  each reader takes what it needs from the front.  The window does not change size during a
  session.  Running the new text in the interpreter is the argument \<open>reload\<close>.
\<close>

section \<open>State\<close>

record session =
  editor :: editorConfig
  image_of :: image
  state_file :: "string option"
  quit :: bool
  back_to_big_picture :: bool
  previous_error :: bool

text \<open>The syntax a buffer is opened with.\<close>

definition syntax_for :: "string \<Rightarrow> editorSyntax" where
  "syntax_for name = (if starts_with name ''doc:'' then ProseSyntax else LuaSyntax)"

definition save_buffer :: "session \<Rightarrow> session res" where
  "save_buffer S =
     bindR (editorSaveToDisk True (editor_buffer (image_of S)) (editor S)) (\<lambda>(s, E).
       Inr (S\<lparr>editor := E, image_of := (image_of S)\<lparr>editor_buffer := s\<rparr>\<rparr>))"

text \<open>The keys of \<open>editorProcessKeypress2\<close> other than \<open>CTRL_F\<close>.\<close>

definition editorProcessKeypress2 :: "string \<Rightarrow> key \<Rightarrow> session \<Rightarrow> session res" where
  "editorProcessKeypress2 image_name c S =
     (if c = Byte 3 then (if previous_error S then Inl (ExitCode 1) else Inr S)
      else if c = Byte 24 then
        bindR (save_buffer S) (\<lambda>S.
          let E = editor S in
          Inr (S\<lparr>quit := True,
            state_file := save_editor_state image_name (Current_definition (image_of S))
              (rowoff E) (coloff E) (cy E) (cx E) (state_file S)\<rparr>))
      else bindR (editorProcessKey c (editor S)) (\<lambda>E. Inr (S\<lparr>editor := E\<rparr>)))"

definition load_editor_buffer_and_reload ::
    "string \<Rightarrow> (string \<Rightarrow> string \<Rightarrow> load_status) \<Rightarrow> session \<Rightarrow> (load_status \<times> session) res" where
  "load_editor_buffer_and_reload time reload S =
     bindR (load_editor_buffer_to_current_definition_in_image time (image_of S)) (\<lambda>I.
       Inr (reload (Current_definition I) (read_editor_buffer 8190 (editor_buffer I)), S\<lparr>image_of := I\<rparr>))"

section \<open>Going to another definition\<close>

text \<open>\<open>None\<close>: more keys are awaited; otherwise the query, if it was accepted, and the rest.\<close>

fun go_query :: "string \<Rightarrow> key list \<Rightarrow> (string option \<times> key list) option" where
  "go_query q [] = None"
| "go_query q (c # cs) =
     (if c = KEY_BACKSPACE \<or> c = Byte 127 \<or> c = Byte 8 then go_query (butlast q) cs
      else if c = Byte 24 then Some (None, cs)
      else if c = Byte 10 then Some (Some q, cs)
      else if c = Byte 21 then go_query [] cs
      else (case c of
              Byte b \<Rightarrow> go_query (if find_printable b \<and> length q < CURRENT_DEFINITION_LEN
                                 then q @ [char_of b] else q) cs
            | _ \<Rightarrow> go_query q cs))"

definition editorGo ::
    "string \<Rightarrow> (string \<Rightarrow> string \<Rightarrow> load_status) \<Rightarrow> key list \<Rightarrow> session \<Rightarrow> (session \<times> key list) res" where
  "editorGo time reload keys S =
     bindR (if Current_definition (image_of S) = [] then Inr S
            else bindR (save_buffer S) (\<lambda>S.
                 bindR (load_editor_buffer_and_reload time reload S) (\<lambda>(status, S). Inr S))) (\<lambda>S.
     bindR (word_at_cursor CURRENT_DEFINITION_LEN (editor S)) (\<lambda>word.
     case go_query word keys of
       None \<Rightarrow> Inr (S, [])
     | Some (None, ks) \<Rightarrow> Inr (S, ks)
     | Some (Some q, ks) \<Rightarrow>
         bindR (save_to_current_definition_and_editor_buffer q (image_of S)) (\<lambda>I.
         bindR (clearEditor (editor S)) (\<lambda>E.
         bindR (editorOpen ''teliva_editor_buffer'' (Some (editor_buffer I))
                  (E\<lparr>esyntax := Some (syntax_for q)\<rparr>)) (\<lambda>E.
         Inr (S\<lparr>editor := E, image_of := I\<rparr>, ks))))))"

lemma go_query_shorter: "go_query q ks = Some (r, ks') \<Longrightarrow> length ks' < length ks"
proof (induction ks arbitrary: q)
  case (Cons c cs)
  have "go_query q (c # cs) = Some (None, cs) \<or> go_query q (c # cs) = Some (Some q, cs) \<or>
      (\<exists>q'. go_query q (c # cs) = go_query q' cs)"
    by (cases c) auto
  with Cons show ?case by fastforce
qed simp

lemma editorGo_shorter:
  assumes "editorGo time reload keys S = Inr (S', ks)"
  shows "length ks \<le> length keys"
  using assms go_query_shorter
  by (fastforce simp: editorGo_def bindR_Inr_iff split: option.splits prod.splits)

section \<open>The loops\<close>

text \<open>The keys of find mode, up to the one that ends it.\<close>

definition find_mode :: "key list \<Rightarrow> session \<Rightarrow> (session \<times> key list) res" where
  "find_mode ks S =
     (case dropWhile (\<lambda>k. \<not> ends_find k) ks of
        [] \<Rightarrow> bindR (editorFind ks (editor S)) (\<lambda>(ended, E). Inr (S\<lparr>editor := E\<rparr>, []))
      | e # ks' \<Rightarrow> bindR (editorFind (takeWhile (\<lambda>k. \<not> ends_find k) ks @ [e]) (editor S)) (\<lambda>(ended, E).
          Inr (S\<lparr>editor := E\<rparr>, ks')))"

lemma find_mode_shorter: "find_mode ks S = Inr (S', ks') \<Longrightarrow> length ks' \<le> length ks"
proof -
  assume a: "find_mode ks S = Inr (S', ks')"
  have "length (dropWhile (\<lambda>k. \<not> ends_find k) ks) \<le> length ks" by (rule length_dropWhile_le)
  with a show ?thesis by (auto simp: find_mode_def bindR_Inr_iff split: list.splits)
qed

text \<open>Keys are handled until the editor is left or no more are typed.\<close>

function edit_keys ::
    "string \<Rightarrow> string \<Rightarrow> (string \<Rightarrow> string \<Rightarrow> load_status) \<Rightarrow> key list \<Rightarrow> session \<Rightarrow> (session \<times> key list) res" where
  "edit_keys image_name time reload keys S =
     (case keys of
        [] \<Rightarrow> Inr (S, [])
      | c # ks \<Rightarrow>
          if quit S then Inr (S, keys)
          else if c = Byte 7 then
            bindR (editorGo time reload ks S) (\<lambda>(S, ks'). edit_keys image_name time reload ks' S)
          else if c = Byte 2 then
            bindR (save_buffer S) (\<lambda>S. Inr (S\<lparr>quit := True, back_to_big_picture := True\<rparr>, ks))
          else if c = Byte 6 then
            bindR (find_mode ks S) (\<lambda>(S, ks'). edit_keys image_name time reload ks' S)
          else bindR (editorProcessKeypress2 image_name c S) (edit_keys image_name time reload ks))"
  by pat_completeness auto
termination
proof (relation "measure (\<lambda>(image_name, time, reload, keys, S). length keys)", goal_cases)
  case (2 image_name time reload keys S c ks p S' ks')
  then show ?case using editorGo_shorter [of time reload ks S S' ks'] by auto
next
  case (3 image_name time reload keys S c ks p S' ks')
  then show ?case using find_mode_shorter [of ks S S' ks'] by auto
qed auto

declare edit_keys.simps [simp del]

definition edit ::
    "string \<Rightarrow> string \<Rightarrow> (string \<Rightarrow> string \<Rightarrow> load_status) \<Rightarrow> key list \<Rightarrow> session \<Rightarrow> (session \<times> key list) res" where
  "edit image_name time reload keys S =
     bindR (editorOpen ''teliva_editor_buffer'' (Some (editor_buffer (image_of S)))
        ((initEditor (editor S))\<lparr>esyntax := Some (syntax_for (Current_definition (image_of S)))\<rparr>)) (\<lambda>E.
     edit_keys image_name time reload keys (S\<lparr>editor := E, quit := False, back_to_big_picture := False\<rparr>))"

definition resumeEdit ::
    "string \<Rightarrow> string \<Rightarrow> (string \<Rightarrow> string \<Rightarrow> load_status) \<Rightarrow> key list \<Rightarrow> session \<Rightarrow> (session \<times> key list) res" where
  "resumeEdit image_name time reload keys S =
     edit_keys image_name time reload keys (S\<lparr>quit := False, back_to_big_picture := False\<rparr>)"

text \<open>Reloading until there is no error; each round needs at least one more key.  A nil error is
  left on the stack, which the check for leaks finds.\<close>

fun reload_loop ::
    "nat \<Rightarrow> string \<Rightarrow> string \<Rightarrow> (string \<Rightarrow> string \<Rightarrow> load_status) \<Rightarrow> key list \<Rightarrow> session \<Rightarrow> (session \<times> key list) res" where
  "reload_loop 0 image_name time reload keys S = Inl OutOfFuel"
| "reload_loop (Suc n) image_name time reload keys S =
     bindR (load_editor_buffer_and_reload time reload S) (\<lambda>(status, S).
       case status of
         Loaded \<Rightarrow> Inr (S, keys)
       | LeftNil \<Rightarrow> Inl (ExitCode 1)
       | LeftError \<Rightarrow>
           bindR (resumeEdit image_name time reload keys (S\<lparr>previous_error := True\<rparr>)) (\<lambda>(S, ks).
             if quit S then reload_loop n image_name time reload ks S else Inr (S, ks)))"

text \<open>What follows once the editor is left, in \<open>edit_current_definition\<close> and
  \<open>restore_editor_view\<close>.\<close>

definition after_edit ::
    "string \<Rightarrow> string \<Rightarrow> (string \<Rightarrow> string \<Rightarrow> load_status) \<Rightarrow> session \<times> key list \<Rightarrow> (session \<times> key list) res" where
  "after_edit image_name time reload r =
     (case r of (S, ks) \<Rightarrow>
       if \<not> quit S then Inr (S, ks)
       else if starts_with (Current_definition (image_of S)) ''doc:'' then
         bindR (load_editor_buffer_to_current_definition_in_image time (image_of S)) (\<lambda>I.
           Inr (S\<lparr>image_of := I\<rparr>, ks))
       else reload_loop (length ks + 1) image_name time reload ks S)"

definition edit_current_definition ::
    "string \<Rightarrow> string \<Rightarrow> (string \<Rightarrow> string \<Rightarrow> load_status) \<Rightarrow> key list \<Rightarrow> session \<Rightarrow> (session \<times> key list) res" where
  "edit_current_definition image_name time reload keys S =
     bindR (edit image_name time reload keys S) (after_edit image_name time reload)"

text \<open>Coming back to the editor where it was left: \<open>editFrom\<close>, and \<open>restore_editor_view\<close>
  around it, given the saved state.\<close>

definition editFrom ::
    "string \<Rightarrow> string \<Rightarrow> (string \<Rightarrow> string \<Rightarrow> load_status) \<Rightarrow> int \<times> int \<times> int \<times> int \<Rightarrow> key list \<Rightarrow>
     session \<Rightarrow> (session \<times> key list) res" where
  "editFrom image_name time reload p keys S =
     (case p of (ro, co, y, x) \<Rightarrow>
        bindR (editorOpen ''teliva_editor_buffer'' (Some (editor_buffer (image_of S)))
          ((initEditor (editor S))\<lparr>esyntax := Some (syntax_for (Current_definition (image_of S))),
             rowoff := ro, coloff := co, cy := y, cx := x\<rparr>)) (\<lambda>E.
        edit_keys image_name time reload keys (S\<lparr>editor := E, quit := False, back_to_big_picture := False\<rparr>)))"

definition resume_editor_view ::
    "string \<Rightarrow> string \<Rightarrow> (string \<Rightarrow> string \<Rightarrow> load_status) \<Rightarrow> lua_table \<Rightarrow> key list \<Rightarrow> session \<Rightarrow>
     (session \<times> key list) res" where
  "resume_editor_view image_name time reload t keys S =
     bindR (restore_editor_view t) (\<lambda>(definition_name, p).
     bindR (save_to_current_definition_and_editor_buffer definition_name (image_of S)) (\<lambda>I.
     bindR (editFrom image_name time reload p keys (S\<lparr>image_of := I\<rparr>)) (after_edit image_name time reload)))"

text \<open>Editing the note of a change: without the keys that lead to other definitions, in the
  syntax that was last used.\<close>

function noncode_keys :: "string \<Rightarrow> key list \<Rightarrow> session \<Rightarrow> (session \<times> key list) res" where
  "noncode_keys image_name keys S =
     (case keys of
        [] \<Rightarrow> Inr (S, [])
      | c # ks \<Rightarrow>
          if quit S then Inr (S, keys)
          else if c = Byte 6 then bindR (find_mode ks S) (\<lambda>(S, ks'). noncode_keys image_name ks' S)
          else bindR (editorProcessKeypress2 image_name c S) (noncode_keys image_name ks))"
  by pat_completeness auto
termination
proof (relation "measure (\<lambda>(image_name, keys, S). length keys)", goal_cases)
  case (2 image_name keys S c ks p S' ks')
  then show ?case using find_mode_shorter [of ks S S' ks'] by auto
qed auto

declare noncode_keys.simps [simp del]

definition editNonCode :: "string \<Rightarrow> key list \<Rightarrow> session \<Rightarrow> (session \<times> key list) res" where
  "editNonCode image_name keys S =
     bindR (editorOpen ''teliva_editor_buffer'' (Some (editor_buffer (image_of S))) (initEditor (editor S))) (\<lambda>E.
     noncode_keys image_name keys (S\<lparr>editor := E, quit := False, back_to_big_picture := False\<rparr>))"

text \<open>Opening a definition from the big picture.\<close>

definition open_and_edit ::
    "string \<Rightarrow> string \<Rightarrow> (string \<Rightarrow> string \<Rightarrow> load_status) \<Rightarrow> string \<Rightarrow> key list \<Rightarrow> session \<Rightarrow> (session \<times> key list) res" where
  "open_and_edit image_name time reload definition keys S =
     bindR (save_to_current_definition_and_editor_buffer definition (image_of S)) (\<lambda>I.
       edit_current_definition image_name time reload keys (S\<lparr>image_of := I\<rparr>))"

section \<open>An editing session ends in the image\<close>

text \<open>Editing keys, each pressed where it does no harm, that take \<open>E\<close> to \<open>E'\<close>.\<close>

fun plain_keys :: "key list \<Rightarrow> editorConfig \<Rightarrow> editorConfig \<Rightarrow> bool" where
  "plain_keys [] E E' \<longleftrightarrow> E' = E"
| "plain_keys (c # cs) E E' \<longleftrightarrow> c \<notin> {Byte 2, Byte 3, Byte 6, Byte 7, Byte 24} \<and> roomy E \<and> key_safe c E \<and>
     (case editorProcessKey c E of Inl e \<Rightarrow> False | Inr E1 \<Rightarrow> plain_keys cs E1 E')"

lemma plain_keys_edits: "edits E0 E \<Longrightarrow> plain_keys cs E E' \<Longrightarrow> edits E0 E'"
proof (induction cs arbitrary: E)
  case (Cons c cs)
  then show ?case by (auto split: sum.splits intro: edits_key)
qed simp

lemma edit_keys_Nil: "edit_keys im time reload [] S = Inr (S, [])"
  by (simp add: edit_keys.simps)

lemma edit_keys_plain:
  "plain_keys cs (editor S) E' \<Longrightarrow> \<not> quit S \<Longrightarrow>
   edit_keys im time reload (cs @ ks) S = edit_keys im time reload ks (S\<lparr>editor := E'\<rparr>)"
proof (induction cs arbitrary: S)
  case (Cons c cs)
  obtain E1 where E1: "editorProcessKey c (editor S) = Inr E1" "plain_keys cs E1 E'"
    using Cons.prems(1) by (auto split: sum.splits)
  have "edit_keys im time reload ((c # cs) @ ks) S = edit_keys im time reload (cs @ ks) (S\<lparr>editor := E1\<rparr>)"
    using Cons.prems E1(1) by (subst edit_keys.simps) (simp add: editorProcessKeypress2_def)
  with Cons.IH [of "S\<lparr>editor := E1\<rparr>"] Cons.prems(2) E1(2) show ?case by simp
qed simp

lemma save_buffer_ok:
  assumes "ed_inv (editor S)"
  shows "save_buffer S = Inr (S\<lparr>editor := (editor S)\<lparr>dirty := 0\<rparr>,
    image_of := (image_of S)\<lparr>editor_buffer := unlines (lines_of (editor S))\<rparr>\<rparr>)"
  using assms by (simp add: save_buffer_def editorSaveToDisk_def editorRowsToString_eq)

lemma edit_keys_leave:
  assumes "ed_inv (editor S)" "\<not> quit S"
  shows "\<exists>S'. edit_keys im time reload [Byte 24] S = Inr (S', []) \<and> quit S' \<and>
    image_of S' = (image_of S)\<lparr>editor_buffer := unlines (lines_of (editor S))\<rparr> \<and>
    back_to_big_picture S' = back_to_big_picture S \<and>
    state_file S' = save_editor_state im (Current_definition (image_of S)) (rowoff (editor S)) (coloff (editor S))
      (cy (editor S)) (cx (editor S)) (state_file S)"
  using assms save_buffer_ok [OF assms(1)]
  by (subst edit_keys.simps) (simp add: editorProcessKeypress2_def edit_keys_Nil Let_def)

lemma initEditor_syntax: "(initEditor E)\<lparr>esyntax := x\<rparr> = initEditor (E\<lparr>esyntax := x\<rparr>)"
  by (simp add: initEditor_def)

definition plain_name :: "string \<Rightarrow> bool" where
  "plain_name k \<longleftrightarrow> k \<noteq> [] \<and> NUL \<notin> set k \<and> length k \<le> CURRENT_DEFINITION_LEN \<and>
     \<not> is_special_history_key k \<and> \<not> is_doc k"


definition demo_session :: session where
  "demo_session = \<lparr>editor = demo_editor, image_of = demo_image, state_file = None, quit = False,
     back_to_big_picture = False, previous_error = False\<rparr>"

lemma demo_typed:
  "\<exists>E E'. editorOpen ''teliva_editor_buffer'' (Some ''one'')
      ((initEditor (editor demo_session))\<lparr>esyntax := Some LuaSyntax\<rparr>) = Inr E \<and>
    plain_keys [Byte 120] E E' \<and> lines_of E' = [''xone'']"
proof -
  let ?D = "demo_editor\<lparr>esyntax := Some LuaSyntax\<rparr>"
  have fl: "file_lines ''one'' = [''one'']" by code_simp
  then have fit: "list_all fits (file_lines ''one'')" by (simp add: fits_def)
  have w: "\<forall>s. esyntax ?D = Some s \<longrightarrow> wf_syntax s" "0 < cols ?D" "startrow ?D < endrow ?D"
    by (simp_all add: demo_editor_def)
  from opened_good [OF w fit, of "''teliva_editor_buffer''"] fl obtain E where E:
    "editorOpen ''teliva_editor_buffer'' (Some ''one'') (initEditor ?D) = Inr E" "good E"
    "lines_of E = [''one'']" "filerow E = 0" "filecol E = 0" by auto
  have n: "numrows E = 1" using E(2,3) ed_inv_length [of E] length_lines [of E] by (simp add: good_def)
  obtain E' where E': "editorInsertChar (CHR ''x'') E = Inr E'" "lines_of E' = [''xone'']"
    using type_run [OF E(2), of "''x''"] E(3-5) n by (auto simp: bindR_Inr_iff)
  have "plain_keys [Byte 120] E E'"
    using E' E(3) by (simp add: roomy_def editorProcessKey_def char_of_def bit_simps)
  with E E'(2) show ?thesis by (auto simp: initEditor_syntax demo_session_def)
qed


section \<open>Coming back to the editor\<close>

lemma resume_shows:
  assumes "wf_history (history (image_of S))" "map_option lua_tostring (current (history (image_of S)) name) = Some s"
    "plain_name name" "NUL \<notin> set s" "list_all fits (file_lines s)" "restore_editor_view t = Inr (name, p)"
  shows "\<exists>S'. resume_editor_view im time reload t [] S = Inr (S', []) \<and> lines_of (editor S') = file_lines s \<and>
    (rowoff (editor S'), coloff (editor S'), cy (editor S'), cx (editor S')) = p"
proof -
  obtain ro co y x where p: "p = (ro, co, y, x)" by (cases p)
  have n: "take CURRENT_DEFINITION_LEN (c_str name) = name" "\<not> starts_with name ''doc:''"
    using assms(3) by (simp_all add: plain_name_def c_str_id is_doc_def)
  let ?I = "(image_of S)\<lparr>Current_definition := name, editor_buffer := s\<rparr>"
  have o: "save_to_current_definition_and_editor_buffer name (image_of S) = Inr ?I"
    using look_up_current [OF assms(1), of name] assms(2,4) n(1)
    by (auto simp: save_to_current_definition_and_editor_buffer_def c_str_id)
  let ?E = "(initEditor (editor S))\<lparr>esyntax := Some LuaSyntax, rowoff := ro, coloff := co, cy := y, cx := x\<rparr>"
  have "ed_inv ?E" "lines_of ?E = []"
    using wf_LuaSyntax by (simp_all add: initEditor_def ed_inv_def rows_inv_def lines_of_def)
  from editorOpen_ok [OF this(1) assms(5), of "''teliva_editor_buffer''"] this(2)
  obtain E where "editorOpen ''teliva_editor_buffer'' (Some s) ?E = Inr E" "lines_of E = file_lines s"
    "same_view (?E\<lparr>efilename := ''teliva_editor_buffer''\<rparr>) E" by auto
  then show ?thesis
    using assms(6) o n(2) p
    by (simp add: resume_editor_view_def editFrom_def edit_keys_Nil after_edit_def syntax_for_def same_view_def)
qed


definition demo_left :: session where
  "demo_left = demo_session\<lparr>image_of := demo_image\<lparr>Current_definition := ''f''\<rparr>\<rparr>"


text \<open>Leaving the editor of a note with \<open>CTRL_X\<close> saves the position in the note as the place
  to resume the definition that was edited last.\<close>

lemma note_moves_resumed_cursor:
  assumes "ed_inv (editor S)" "\<not> quit S"
  shows "\<exists>S'. noncode_keys im [Byte 24] S = Inr (S', []) \<and>
    state_file S' = save_editor_state im (Current_definition (image_of S)) (rowoff (editor S)) (coloff (editor S))
      (cy (editor S)) (cx (editor S)) (state_file S)"
  using assms save_buffer_ok [OF assms(1)]
  by (subst noncode_keys.simps) (simp add: editorProcessKeypress2_def noncode_keys.simps Let_def)

end
