(* ===== verification/AuditLog.thy ===== *)
theory AuditLog
  imports Prelude
begin

text \<open>
  The audit log of \<^verbatim>\<open>src/src/teliva.c\<close>: a ring buffer of the sensitive calls an app
  has made, and the screen that lists them.
\<close>

definition NAUDIT :: nat where
  "NAUDIT = 8192"

text \<open>An event: the call, and the function of the app that made it.\<close>

type_synonym audit_event = "string \<times> string"

record audit_log =
  audit_events :: "audit_event option list"
  naudit :: nat
  iaudit :: nat

definition empty_log :: audit_log where
  "empty_log = \<lparr>audit_events = replicate NAUDIT None, naudit = 0, iaudit = 0\<rparr>"

definition next_slot :: "nat \<Rightarrow> nat" where
  "next_slot i = (if i + 1 \<ge> NAUDIT then 0 else i + 1)"

text \<open>\<open>caller\<close> is \<open>ar.name\<close>: \<open>None\<close> when the calling function has no name.\<close>

definition append_to_audit_log :: "string option \<Rightarrow> string \<Rightarrow> audit_log \<Rightarrow> audit_log res" where
  "append_to_audit_log caller buffer A =
     (case caller of
        None \<Rightarrow> Inr A
      | Some func \<Rightarrow>
          bindR (updR (audit_events A) (naudit A) (Some (buffer, func))) (\<lambda>evs.
          let n = next_slot (naudit A);
              i = (if n = iaudit A then next_slot (iaudit A) else iaudit A)
          in Inr (A\<lparr>audit_events := evs, naudit := n, iaudit := i\<rparr>)))"

text \<open>The slots \<open>render_events\<close> draws, in order, on a screen of \<open>lines\<close> lines.\<close>

definition rendered_slots :: "nat \<Rightarrow> audit_log \<Rightarrow> nat list" where
  "rendered_slots lines A =
     (if iaudit A = 0 then filter (\<lambda>i. i < lines - 1) [0..<naudit A]
      else map (\<lambda>i. (iaudit A + i) mod NAUDIT) (filter (\<lambda>i. i < lines - 1) [0..<NAUDIT]))"

text \<open>Drawing an empty slot would pass a null pointer to curses.\<close>

definition render_events :: "nat \<Rightarrow> audit_log \<Rightarrow> (nat \<times> audit_event) list res" where
  "render_events lines A =
     foldMR (\<lambda>i out. bindR (nthR (audit_events A) i) (\<lambda>e.
        case e of None \<Rightarrow> Inl NullPointer | Some e \<Rightarrow> Inr (out @ [(i, e)]))) (rendered_slots lines A) []"

datatype events_key = EvQuit | EvUp | EvDown | EvEnter | EvOther

text \<open>Keys until the view is left; the result is the function to go to.\<close>

fun events_view :: "audit_log \<Rightarrow> int \<Rightarrow> events_key list \<Rightarrow> (string option, int) sum res" where
  "events_view A cursor [] = Inr (Inr cursor)"
| "events_view A cursor (c # cs) =
     (case c of
        EvQuit \<Rightarrow> Inr (Inl None)
      | EvUp \<Rightarrow> events_view A (if cursor > 0 then cursor - 1 else cursor) cs
      | EvDown \<Rightarrow> events_view A (if cursor < int (naudit A) - 1 then cursor + 1 else cursor) cs
      | EvEnter \<Rightarrow>
          if cursor < 0 then Inl OutOfBounds
          else bindR (nthR (audit_events A) (nat cursor)) (\<lambda>e. Inr (Inl (map_option snd e)))
      | EvOther \<Rightarrow> events_view A cursor cs)"

section \<open>What the ring holds\<close>

fun append_all :: "audit_event list \<Rightarrow> audit_log \<Rightarrow> audit_log res" where
  "append_all [] A = Inr A"
| "append_all (e # es) A = bindR (append_to_audit_log (Some (snd e)) (fst e) A) (append_all es)"

definition log_of :: "audit_event list \<Rightarrow> audit_log \<Rightarrow> bool" where
  "log_of xs A \<longleftrightarrow> length (audit_events A) = NAUDIT \<and>
     naudit A = length xs mod NAUDIT \<and>
     iaudit A = (if length xs < NAUDIT then 0 else (length xs + 1) mod NAUDIT) \<and>
     (\<forall>j < length xs. length xs \<le> j + NAUDIT \<longrightarrow> audit_events A ! (j mod NAUDIT) = Some (xs ! j))"

lemma NAUDIT_pos [simp]: "0 < NAUDIT" "1 < NAUDIT" "NAUDIT \<noteq> Suc 0" "\<not> NAUDIT \<le> Suc 0"
  by (simp_all add: NAUDIT_def)

lemma log_of_empty: "log_of [] empty_log"
  by (simp add: log_of_def empty_log_def)

lemma next_slot_mod: "next_slot (n mod NAUDIT) = (n + 1) mod NAUDIT"
proof -
  have "n mod NAUDIT + 1 \<le> NAUDIT" by (simp add: Suc_leI)
  then have "n mod NAUDIT + 1 \<ge> NAUDIT \<longleftrightarrow> Suc (n mod NAUDIT) = NAUDIT" by linarith
  then show ?thesis by (simp add: next_slot_def mod_Suc)
qed

lemma mod_eq_near:
  assumes "j < n" "n \<le> j + N" "j mod N = n mod (N :: nat)"
  shows "n = j + N"
proof -
  have "N dvd n - j" using assms(1,3) mod_eq_dvd_iff_nat [of j n N] by simp
  then obtain k where k: "n - j = N * k" ..
  with assms(1,2) show ?thesis by (cases k; cases "k - 1") auto
qed

lemma log_of_append:
  assumes "log_of xs A"
  shows "\<exists>A'. append_to_audit_log (Some f) b A = Inr A' \<and> log_of (xs @ [(b, f)]) A'"
proof -
  let ?n = "length xs"
  define A' where "A' = A\<lparr>audit_events := (audit_events A)[?n mod NAUDIT := Some (b, f)],
     naudit := (?n + 1) mod NAUDIT,
     iaudit := (if ?n + 1 < NAUDIT then 0 else (?n + 2) mod NAUDIT)\<rparr>"
  have len: "length (audit_events A) = NAUDIT" and na: "naudit A = ?n mod NAUDIT"
    and ia: "iaudit A = (if ?n < NAUDIT then 0 else (?n + 1) mod NAUDIT)"
    using assms by (simp_all add: log_of_def)
  have i: "(if (?n + 1) mod NAUDIT = iaudit A then next_slot (iaudit A) else iaudit A) =
      (if ?n + 1 < NAUDIT then 0 else (?n + 2) mod NAUDIT)"
  proof (cases "?n < NAUDIT")
    case True
    show ?thesis
    proof (cases "?n + 1 < NAUDIT")
      case False
      with True have n: "?n + 1 = NAUDIT" by simp
      then have "(?n + 2) mod NAUDIT = next_slot 0"
        using next_slot_mod [of "?n + 1"] by (simp add: numeral_2_eq_2)
      with n ia True show ?thesis by simp
    qed (use ia in simp)
  next
    case False
    with ia next_slot_mod [of "?n + 1"] show ?thesis by (simp add: numeral_2_eq_2)
  qed
  have "append_to_audit_log (Some f) b A = Inr A'"
    using len na i next_slot_mod [of ?n] by (simp add: append_to_audit_log_def A'_def Let_def del: One_nat_def)
  moreover have "audit_events A' ! (j mod NAUDIT) = Some ((xs @ [(b, f)]) ! j)"
    if j: "j < ?n + 1" "?n + 1 \<le> j + NAUDIT" for j
  proof (cases "j = ?n")
    case True
    then show ?thesis by (simp add: A'_def len)
  next
    case False
    then have "j < ?n" "?n \<le> j + NAUDIT" using j by simp_all
    moreover then have "j mod NAUDIT \<noteq> ?n mod NAUDIT" using mod_eq_near [of j ?n NAUDIT] j by auto
    ultimately show ?thesis using assms by (simp add: A'_def log_of_def nth_append)
  qed
  ultimately show ?thesis using len by (auto simp: log_of_def A'_def)
qed

lemma append_all_log:
  "log_of xs A \<Longrightarrow> \<exists>A'. append_all es A = Inr A' \<and> log_of (xs @ es) A'"
proof (induction es arbitrary: xs A)
  case (Cons e es)
  obtain b f where e: "e = (b, f)" by (cases e)
  from log_of_append [OF Cons.prems, of f b] obtain A1 where
    "append_to_audit_log (Some f) b A = Inr A1" "log_of (xs @ [(b, f)]) A1" by blast
  with Cons.IH [of "xs @ [(b, f)]" A1] e show ?case by auto
qed simp

section \<open>What the screen shows\<close>

lemma filter_upt: "filter (\<lambda>i. i < m) [0..<n] = [0..<min m n]"
proof -
  have "[0..<n] = [0..<min m n] @ [min m n..<n]"
    by (metis le_add_diff_inverse min.cobounded2 upt_add_eq_append zero_le)
  moreover have "filter (\<lambda>i. i < m) [min m n..<n] = []" by (auto simp: filter_empty_conv)
  moreover have "filter (\<lambda>i. i < m) [0..<min m n] = [0..<min m n]" by (auto simp: filter_id_conv)
  ultimately show ?thesis by (metis append_Nil2 filter_append)
qed

lemma render_total:
  assumes "\<And>i. i \<in> set is \<Longrightarrow> i < length evs \<and> evs ! i = Some (f i)"
  shows "foldMR (\<lambda>i out. bindR (nthR evs i) (\<lambda>e. case e of None \<Rightarrow> Inl NullPointer
      | Some e \<Rightarrow> Inr (out @ [(i, e)]))) is out = Inr (out @ map (\<lambda>i. (i, f i)) is)"
  using assms by (induction "is" arbitrary: out) auto

text \<open>The events in the order of the screen: once the ring is full the oldest one comes last.\<close>

definition screen_order :: "audit_event list \<Rightarrow> audit_event list" where
  "screen_order xs =
     (if length xs < NAUDIT then xs
      else drop (length xs - NAUDIT + 1) xs @
        (if (length xs + 1) mod NAUDIT = 0 then [] else [xs ! (length xs - NAUDIT)]))"

lemma slot_event:
  assumes "log_of xs A" "j < length xs" "length xs \<le> j + NAUDIT" "s = j mod NAUDIT"
  shows "s < length (audit_events A) \<and> audit_events A ! s = Some (xs ! j)"
  using assms by (auto simp: log_of_def)

lemma render_map:
  assumes "log_of xs A" "rendered_slots L A = map g [0..<m]"
    "\<And>i. i < m \<Longrightarrow> h i < length xs \<and> length xs \<le> h i + NAUDIT \<and> g i = h i mod NAUDIT"
  shows "\<exists>out. render_events L A = Inr out \<and> map snd out = map (\<lambda>i. xs ! h i) [0..<m]"
proof -
  have s: "i \<in> set (rendered_slots L A) \<Longrightarrow> i < length (audit_events A) \<and>
      audit_events A ! i = Some (the (audit_events A ! i))" for i
    using assms(3) slot_event [OF assms(1)] unfolding assms(2) by fastforce
  have "map (\<lambda>i. the (audit_events A ! i)) (rendered_slots L A) = map (\<lambda>i. xs ! h i) [0..<m]"
    unfolding assms(2) using assms(3) slot_event [OF assms(1)] by fastforce
  with render_total [of "rendered_slots L A", OF s, of "[]"] show ?thesis
    by (simp add: render_events_def comp_def)
qed

lemma render_shows:
  assumes "log_of xs A"
  shows "\<exists>out. render_events L A = Inr out \<and> map snd out = take (L - 1) (screen_order xs)"
proof -
  let ?n = "length xs" and ?k = "L - 1"
  have ia: "iaudit A = (if ?n < NAUDIT then 0 else (?n + 1) mod NAUDIT)" and na: "naudit A = ?n mod NAUDIT"
    using assms by (simp_all add: log_of_def)
  consider (part) "?n < NAUDIT" | (edge) "NAUDIT \<le> ?n" "(?n + 1) mod NAUDIT = 0"
    | (full) "NAUDIT \<le> ?n" "(?n + 1) mod NAUDIT \<noteq> 0" by linarith
  then show ?thesis
  proof cases
    case part
    have "rendered_slots L A = map id [0..<min ?k ?n]"
      using ia na part by (simp add: rendered_slots_def filter_upt)
    from render_map [OF assms this, of id] part obtain out where
      "render_events L A = Inr out" "map snd out = map (\<lambda>i. xs ! i) [0..<min ?k ?n]" by auto
    moreover have "map (\<lambda>i. xs ! i) [0..<min ?k ?n] = take ?k xs"
      by (rule nth_equalityI) auto
    ultimately show ?thesis using part by (simp add: screen_order_def)
  next
    case edge
    have n: "?n mod NAUDIT = NAUDIT - 1"
      using edge(2) by (simp add: mod_Suc split: if_splits)
    have "rendered_slots L A = map id [0..<min ?k (NAUDIT - 1)]"
      using ia na edge n by (simp add: rendered_slots_def filter_upt)
    moreover have "i mod NAUDIT = (?n - (NAUDIT - 1) + i) mod NAUDIT" for i
    proof -
      have "(?n - (NAUDIT - 1)) mod NAUDIT = 0"
        using n edge(1) by (metis mod_less_eq_dividend minus_mod_eq_mult_div mod_mult_self1_is_0)
      then show ?thesis by (metis mod_add_left_eq add_0)
    qed
    moreover have "?n - (NAUDIT - 1) + i < ?n \<and> ?n \<le> ?n - (NAUDIT - 1) + i + NAUDIT"
      if "i < min ?k (NAUDIT - 1)" for i
      using that edge(1) by arith
    moreover have "i < min ?k (NAUDIT - 1) \<Longrightarrow> id i = i mod NAUDIT" for i
    proof -
      assume "i < min ?k (NAUDIT - 1)"
      then have "i < NAUDIT" by arith
      then show "id i = i mod NAUDIT" by simp
    qed
    ultimately obtain out where
      "render_events L A = Inr out"
      "map snd out = map (\<lambda>i. xs ! (?n - (NAUDIT - 1) + i)) [0..<min ?k (NAUDIT - 1)]"
      using render_map [OF assms, of L id "min ?k (NAUDIT - 1)" "\<lambda>i. ?n - (NAUDIT - 1) + i"]
      by metis
    moreover have "map (\<lambda>i. xs ! (?n - (NAUDIT - 1) + i)) [0..<min ?k (NAUDIT - 1)] =
        take ?k (drop (?n - NAUDIT + 1) xs)"
      using edge(1) NAUDIT_pos(1) by (intro nth_equalityI) (auto simp: Suc_diff_le)
    ultimately show ?thesis using edge by (simp add: screen_order_def)
  next
    case full
    let ?h = "\<lambda>i. if i < NAUDIT - 1 then ?n - NAUDIT + 1 + i else ?n - NAUDIT"
    have slots: "rendered_slots L A = map (\<lambda>i. ((?n + 1) mod NAUDIT + i) mod NAUDIT) [0..<min ?k NAUDIT]"
      using ia full by (simp add: rendered_slots_def filter_upt)
    have slot: "((?n + 1) mod NAUDIT + i) mod NAUDIT = ?h i mod NAUDIT" if "i < NAUDIT" for i
    proof -
      have e: "((?n + 1) mod NAUDIT + i) mod NAUDIT = (?n + 1 + i) mod NAUDIT" by (rule mod_add_left_eq)
      show ?thesis
      proof (cases "i < NAUDIT - 1")
        case True
        have "?n + 1 + i = (?n - NAUDIT + 1 + i) + NAUDIT" using full(1) by simp
        then have "(?n + 1 + i) mod NAUDIT = (?n - NAUDIT + 1 + i) mod NAUDIT" by (simp only: mod_add_self2)
        with e True show ?thesis by (simp only: if_True)
      next
        case False
        then have "?n + 1 + i = (?n - NAUDIT) + NAUDIT + NAUDIT" using that full(1) by simp
        then have "(?n + 1 + i) mod NAUDIT = (?n - NAUDIT) mod NAUDIT" by (simp only: mod_add_self2)
        with e False show ?thesis by (simp only: if_False)
      qed
    qed
    have held: "?h i < ?n \<and> ?n \<le> ?h i + NAUDIT" for i
    proof (cases "i < NAUDIT - 1")
      case True
      then show ?thesis using full(1) by (simp del: One_nat_def)
    next
      case False
      then show ?thesis using full(1) NAUDIT_pos(1) by (simp del: One_nat_def NAUDIT_pos)
    qed
    obtain out where
      "render_events L A = Inr out" "map snd out = map (\<lambda>i. xs ! ?h i) [0..<min ?k NAUDIT]"
    proof -
      have "i < min ?k NAUDIT \<Longrightarrow> ?h i < ?n \<and> ?n \<le> ?h i + NAUDIT \<and>
          ((?n + 1) mod NAUDIT + i) mod NAUDIT = ?h i mod NAUDIT" for i
        using slot [of i] held [of i] by (simp only: min_less_iff_conj)
      from render_map [OF assms slots this] show thesis using that by blast
    qed
    moreover have "map (\<lambda>i. xs ! ?h i) [0..<min ?k NAUDIT] =
        take ?k (drop (?n - NAUDIT + 1) xs @ [xs ! (?n - NAUDIT)])"
    proof (rule nth_equalityI)
      show len: "length (map (\<lambda>i. xs ! ?h i) [0..<min ?k NAUDIT]) =
          length (take ?k (drop (?n - NAUDIT + 1) xs @ [xs ! (?n - NAUDIT)]))"
        using full(1) NAUDIT_pos(1) by (auto simp: min_def simp del: NAUDIT_pos)
      fix i assume "i < length (map (\<lambda>i. xs ! ?h i) [0..<min ?k NAUDIT])"
      then have i: "i < ?k" "i < NAUDIT" by simp_all
      then have "take ?k (drop (?n - NAUDIT + 1) xs @ [xs ! (?n - NAUDIT)]) ! i =
          (drop (?n - NAUDIT + 1) xs @ [xs ! (?n - NAUDIT)]) ! i" by (simp only: nth_take)
      also have "\<dots> = xs ! ?h i"
      proof (cases "i < NAUDIT - 1")
        case True
        then have "i < length (drop (?n - NAUDIT + 1) xs)" using full(1) by simp
        with True full(1) show ?thesis by (simp add: nth_append)
      next
        case False
        with i have "i = NAUDIT - 1" by simp
        moreover have "length (drop (?n - NAUDIT + 1) xs) = NAUDIT - 1" using full(1) by simp
        ultimately show ?thesis by (simp add: nth_append)
      qed
      finally show "map (\<lambda>i. xs ! ?h i) [0..<min ?k NAUDIT] ! i =
          take ?k (drop (?n - NAUDIT + 1) xs @ [xs ! (?n - NAUDIT)]) ! i"
        using i by simp
    qed
    ultimately show ?thesis using full by (simp add: screen_order_def)
  qed
qed

section \<open>Properties\<close>

text \<open>C33: after any sequence of sensitive calls the log is a ring buffer that holds
  the latest of them (all of them, up to 8192, each in the slot of its number modulo 8192), no
  append ever writes outside the ring, and the events screen is drawn without reading an empty
  slot: it lists, from the top and as far as the screen reaches, the events in the order of
  \<open>screen_order\<close>.\<close>

theorem audit_log_keeps_latest:
  "\<exists>A out. append_all es empty_log = Inr A \<and> log_of es A \<and>
     render_events L A = Inr out \<and> map snd out = take (L - 1) (screen_order es)"
proof -
  from append_all_log [OF log_of_empty, of es] obtain A where
    "append_all es empty_log = Inr A" "log_of es A" by auto
  with render_shows [of es A L] show ?thesis by blast
qed

lemma slot_held:
  assumes "log_of xs A" "xs \<noteq> []" "c < naudit A \<or> c = 0"
  shows "\<exists>e \<in> set xs. audit_events A ! c = Some e"
proof (cases "length xs < NAUDIT")
  case True
  then have "c < length xs" using assms by (auto simp: log_of_def)
  then show ?thesis using slot_event [OF assms(1), of c c] True by auto
next
  case False
  let ?n = "length xs"
  define j where "j = ?n - NAUDIT + (c + NAUDIT - (?n - NAUDIT) mod NAUDIT) mod NAUDIT"
  have c: "c < NAUDIT" using assms(1,3) by (auto simp: log_of_def intro: less_trans)
  let ?r = "(?n - NAUDIT) mod NAUDIT"
  have r: "?r < NAUDIT" by simp
  have "j mod NAUDIT = (?r + (c + NAUDIT - ?r)) mod NAUDIT"
    unfolding j_def by (simp only: mod_add_left_eq mod_add_right_eq)
  also have "?r + (c + NAUDIT - ?r) = c + NAUDIT" using r by linarith
  finally have "c = j mod NAUDIT" using c by simp
  moreover have "j < ?n" "?n \<le> j + NAUDIT"
  proof -
    have "(c + NAUDIT - ?r) mod NAUDIT < NAUDIT" by simp
    then show "j < ?n" "?n \<le> j + NAUDIT" using False unfolding j_def by linarith+
  qed
  ultimately show ?thesis using slot_event [OF assms(1)] by fastforce
qed

lemma events_view_run:
  assumes "log_of xs A" "xs = [] \<Longrightarrow> A = empty_log" "0 \<le> cursor" "nat cursor < naudit A \<or> cursor = 0"
  shows "\<exists>r. events_view A cursor ks = Inr r \<and>
     (case r of Inl f \<Rightarrow> f \<in> {None} \<union> Some ` snd ` set xs
      | Inr c \<Rightarrow> 0 \<le> c \<and> (nat c < naudit A \<or> c = 0))"
  using assms(3,4)
proof (induction ks arbitrary: cursor)
  case (Cons k ks)
  have slot: "\<exists>e. nthR (audit_events A) (nat cursor) = Inr e \<and>
      map_option snd e \<in> {None} \<union> Some ` snd ` set xs"
  proof (cases "xs = []")
    case True
    then show ?thesis using assms(2) Cons.prems by (auto simp: empty_log_def)
  next
    case False
    have "nat cursor < length (audit_events A)" using assms(1) Cons.prems by (auto simp: log_of_def intro: less_trans)
    with slot_held [OF assms(1) False, of "nat cursor"] Cons.prems show ?thesis by auto
  qed
  show ?case
  proof (cases k)
    case EvEnter
    with slot Cons.prems show ?thesis by (elim exE conjE) (auto split del: if_split)
  qed (use Cons in \<open>auto intro!: Cons.IH\<close>)
qed auto

text \<open>The keys of the events screen can never make it read outside the ring: after
  any calls and any keys the cursor is at the first line or at a slot before the next free one,
  and Enter leads to a function one of the logged calls was made from, or back.\<close>

theorem events_view_stays_in_ring:
  "\<exists>A r. append_all es empty_log = Inr A \<and> events_view A 0 ks = Inr r \<and>
     (case r of Inl f \<Rightarrow> f \<in> {None} \<union> Some ` snd ` set es
      | Inr c \<Rightarrow> 0 \<le> c \<and> (nat c < naudit A \<or> c = 0))"
proof -
  from append_all_log [OF log_of_empty, of es] obtain A where
    A: "append_all es empty_log = Inr A" "log_of es A" by auto
  then have "es = [] \<Longrightarrow> A = empty_log" by auto
  with events_view_run [OF A(2), of 0 ks] A(1) show ?thesis by auto
qed

text \<open>Once the ring is full the oldest event is drawn after the newest one, and the cursor stops
  before the next free slot even though all slots hold events.\<close>

lemma full_ring_shows_oldest_last:
  assumes "length es = NAUDIT"
  shows "screen_order es = tl es @ [hd es]"
proof -
  have "es \<noteq> []" "(NAUDIT + 1) mod NAUDIT = 1" using assms NAUDIT_pos by (auto simp: mod_Suc simp del: NAUDIT_pos)
  with assms show ?thesis by (simp add: screen_order_def hd_conv_nth drop_Suc)
qed

end
