(* ===== verification/DeveloperMode.thy ===== *)
theory DeveloperMode
  imports EditSession AuditLog
begin

text \<open>
  Developer mode as a whole (\<open>developer_mode\<close>, \<open>big_picture_view\<close>,
  \<open>default_big_picture_view\<close> and \<open>recent_changes_view\<close> in
  \<^verbatim>\<open>src/src/teliva.c\<close>): the screens hand the keyboard to one another, and all
  of them work on one image.  Keys come as one list; a run ends when the app would be started
  again or when more keys are awaited.
\<close>

section \<open>What the screens are given\<close>

text \<open>The name of the image, the clock, the interpreter (what reloading a definition ends in, what
  kind of value a global holds), the depths of calls recorded so far and the audit log.\<close>

record app =
  Image_name :: string
  clock :: string
  reload_of :: "string \<Rightarrow> string \<Rightarrow> load_status"
  kind_of :: "session \<Rightarrow> string \<Rightarrow> lua_kind"
  call_depth :: "string \<rightharpoonup> int"
  events_of :: audit_log

section \<open>Recent changes\<close>

definition changes_key_of :: "key \<Rightarrow> changes_key" where
  "changes_key_of c =
     (if c = Byte 24 then CTRL_X_key
      else if c = KEY_DOWN \<or> c = Byte 32 then Older
      else if c = KEY_UP \<or> c = KEY_BACKSPACE \<or> c = Byte 127 \<or> c = Byte 8 then Newer
      else if c = Byte 5 then EditNote
      else if c = Byte 21 then UndoAfter
      else OtherKey)"

text \<open>Between two states of a session the image file is untouched together with the history, or
  it is the history's.\<close>

definition saves :: "image \<Rightarrow> image \<Rightarrow> bool" where
  "saves I I' \<longleftrightarrow> image_file I' = save_tlv (history I') \<or> history I' = history I \<and> image_file I' = image_file I"

lemma saves_refl [simp]: "saves I I"
  by (simp add: saves_def)

lemma saves_trans: "saves I J \<Longrightarrow> saves J K \<Longrightarrow> saves I K"
  by (auto simp: saves_def)

named_theorems saving "what the steps of a session keep of the image"

lemma save_buffer_saves [saving]: "save_buffer S = Inr S' \<Longrightarrow> saves (image_of S) (image_of S')"
  by (auto simp: save_buffer_def bindR_Inr_iff saves_def)

lemma load_saves [saving]:
  "load_editor_buffer_to_current_definition_in_image time I = Inr I' \<Longrightarrow> saves I I'"
  by (auto simp: load_editor_buffer_to_current_definition_in_image_def bindR_Inr_iff saves_def)

lemma reload_saves [saving]:
  "load_editor_buffer_and_reload time reload S = Inr (r, S') \<Longrightarrow> saves (image_of S) (image_of S')"
  by (auto simp: load_editor_buffer_and_reload_def bindR_Inr_iff dest: load_saves)

lemma show_saves [saving]:
  "save_to_current_definition_and_editor_buffer name I = Inr I' \<Longrightarrow> saves I I'"
  by (auto simp: save_to_current_definition_and_editor_buffer_def bindR_Inr_iff saves_def Let_def)

lemma key_saves [saving]: "editorProcessKeypress2 im c S = Inr S' \<Longrightarrow> saves (image_of S) (image_of S')"
  by (auto simp: editorProcessKeypress2_def bindR_Inr_iff Let_def split: if_splits dest: save_buffer_saves)

lemma find_saves [saving]: "find_mode ks S = Inr (S', ks') \<Longrightarrow> saves (image_of S) (image_of S')"
  by (auto simp: find_mode_def bindR_Inr_iff split: list.splits)

lemma go_saves [saving]:
  assumes "editorGo time reload keys S = Inr (S', ks)"
  shows "saves (image_of S) (image_of S')"
proof -
  obtain S1 w where S1: "(if Current_definition (image_of S) = [] then Inr S
            else bindR (save_buffer S) (\<lambda>S. bindR (load_editor_buffer_and_reload time reload S) (\<lambda>(status, S). Inr S))) = Inr S1"
    and w: "(case go_query w keys of
         None \<Rightarrow> Inr (S1, [])
       | Some (None, ks) \<Rightarrow> Inr (S1, ks)
       | Some (Some q, ks) \<Rightarrow>
           bindR (save_to_current_definition_and_editor_buffer q (image_of S1)) (\<lambda>I.
           bindR (clearEditor (editor S1)) (\<lambda>E.
           bindR (editorOpen ''teliva_editor_buffer'' (Some (editor_buffer I))
                    (E\<lparr>esyntax := Some (syntax_for q)\<rparr>)) (\<lambda>E.
           Inr (S1\<lparr>editor := E, image_of := I\<rparr>, ks))))) = Inr (S', ks)"
    using assms unfolding editorGo_def bindR_Inr_iff by blast
  from w have rest: "saves (image_of S1) (image_of S')"
    by (auto simp: bindR_Inr_iff split: option.splits prod.splits dest: show_saves)
  have "saves (image_of S) (image_of S1)"
    using S1 by (auto simp: bindR_Inr_iff split: if_splits dest!: save_buffer_saves reload_saves intro: saves_trans)
  then show ?thesis using rest by (rule saves_trans)
qed

text \<open>A step of a session: it does not lengthen the keys, and what it keeps of the image.\<close>

definition session_step :: "key list \<Rightarrow> session \<Rightarrow> session \<times> key list \<Rightarrow> bool" where
  "session_step keys S r \<longleftrightarrow> length (snd r) \<le> length keys \<and> saves (image_of S) (image_of (fst r))"

lemma step_refl: "session_step keys S (S, keys)" "session_step keys S (S, [])"
  by (simp_all add: session_step_def)

lemma step_trans:
  "saves (image_of S) (image_of S1) \<Longrightarrow> length ks \<le> length keys \<Longrightarrow> session_step ks S1 r \<Longrightarrow> session_step keys S r"
  by (auto simp: session_step_def intro: saves_trans)

lemma noncode_keys_step: "noncode_keys im keys S = Inr r \<Longrightarrow> session_step keys S r"
proof (induction im keys S arbitrary: r rule: noncode_keys.induct)
  case (1 im keys S)
  show ?case
  proof (cases keys)
    case Nil
    then show ?thesis using "1.prems" by (auto simp: noncode_keys.simps session_step_def)
  next
    case (Cons c cs)
    show ?thesis
    proof (cases "quit S")
      case True
      then show ?thesis using "1.prems" Cons by (auto simp: noncode_keys.simps session_step_def)
    next
      case False
      show ?thesis
      proof (cases "c = Byte 6")
        case True
        then obtain S1 k1 where f: "find_mode cs S = Inr (S1, k1)" "noncode_keys im k1 S1 = Inr r"
          using "1.prems" Cons False by (subst (asm) noncode_keys.simps) (auto simp: bindR_Inr_iff)
        have "session_step k1 S1 r" by (rule "1.IH"(1) [OF Cons False True f(1) refl f(2)])
        with step_trans [OF find_saves [OF f(1)], of k1 keys r] find_mode_shorter [OF f(1)] Cons show ?thesis
          by simp
      next
        case other: False
        then obtain S1 where f: "editorProcessKeypress2 im c S = Inr S1" "noncode_keys im cs S1 = Inr r"
          using "1.prems" Cons False by (subst (asm) noncode_keys.simps) (auto simp: bindR_Inr_iff)
        from "1.IH"(2) [OF Cons False other f] step_trans [OF key_saves [OF f(1)], of cs keys r] Cons show ?thesis
          by simp
      qed
    qed
  qed
qed

lemma editNonCode_step: "editNonCode im keys S = Inr r \<Longrightarrow> session_step keys S r"
  by (auto simp: editNonCode_def bindR_Inr_iff dest!: noncode_keys_step) (auto simp: session_step_def)

lemma editNonCode_shorter: "editNonCode im keys S = Inr (S', ks) \<Longrightarrow> length ks \<le> length keys"
  using editNonCode_step [of im keys S] by (simp add: session_step_def)

function changes_loop ::
    "string \<Rightarrow> string \<Rightarrow> key list \<Rightarrow> changes_view \<Rightarrow> session \<Rightarrow> (session \<times> key list) res" where
  "changes_loop im time keys V S =
     (case keys of
        [] \<Rightarrow> Inr (S, [])
      | c # ks \<Rightarrow>
          if changes_key_of c = EditNote then
            bindR (save_note_to_editor_buffer (changes_cursor V) (image_of S)) (\<lambda>I.
            bindR (editNonCode im ks (S\<lparr>image_of := I\<rparr>)) (\<lambda>(S, ks').
            if \<not> quit S then Inr (S, ks')
            else bindR (load_note_from_editor_buffer (changes_cursor V) (image_of S)) (\<lambda>I.
              changes_loop im time ks' V (S\<lparr>image_of := I\<lparr>image_file := save_tlv (history I)\<rparr>\<rparr>))))
          else
            bindR (changes_step time id (changes_key_of c) (V, image_of S)) (\<lambda>(V, I).
            if changes_quit V then Inr (S\<lparr>image_of := I\<rparr>, ks)
            else changes_loop im time ks V (S\<lparr>image_of := I\<rparr>)))"
  by pat_completeness auto
termination
proof (relation "measure (\<lambda>(im, time, keys, V, S). length keys)", goal_cases)
  case (2 im time keys V S c ks I p S' ks' J)
  then show ?case using editNonCode_shorter [of im ks "S\<lparr>image_of := I\<rparr>" S' ks'] by auto
qed auto

declare changes_loop.simps [simp del]

definition recent_changes_view :: "app \<Rightarrow> key list \<Rightarrow> session \<Rightarrow> (session \<times> key list) res" where
  "recent_changes_view a keys S =
     changes_loop (Image_name a) (clock a) keys (open_changes_view (image_of S)) S"

lemma changes_step_saves [saving]:
  "changes_step time f c (V, I) = Inr (V', I') \<Longrightarrow> saves I I'"
  by (cases c) (auto simp: changes_step_def bindR_Inr_iff saves_def Let_def split: if_splits)

lemma note_saves [saving]: "save_note_to_editor_buffer n I = Inr I' \<Longrightarrow> saves I I'"
  by (auto simp: save_note_to_editor_buffer_def bindR_Inr_iff saves_def)

lemma changes_loop_step: "changes_loop im time keys V S = Inr r \<Longrightarrow> session_step keys S r"
proof (induction im time keys V S arbitrary: r rule: changes_loop.induct)
  case (1 im time keys V S)
  show ?case
  proof (cases keys)
    case Nil
    then show ?thesis using "1.prems" by (auto simp: changes_loop.simps session_step_def)
  next
    case (Cons c cs)
    show ?thesis
    proof (cases "changes_key_of c = EditNote")
      case True
      then obtain I S1 k1 where f: "save_note_to_editor_buffer (changes_cursor V) (image_of S) = Inr I"
        "editNonCode im cs (S\<lparr>image_of := I\<rparr>) = Inr (S1, k1)"
        and rest: "if \<not> quit S1 then r = (S1, k1)
          else \<exists>J. load_note_from_editor_buffer (changes_cursor V) (image_of S1) = Inr J \<and>
            changes_loop im time k1 V (S1\<lparr>image_of := J\<lparr>image_file := save_tlv (history J)\<rparr>\<rparr>) = Inr r"
        using "1.prems" Cons by (subst (asm) changes_loop.simps) (auto simp: bindR_Inr_iff split: if_splits)
      have s: "saves (image_of S) (image_of S1)" "length k1 \<le> length cs"
        using note_saves [OF f(1)] editNonCode_step [OF f(2)] by (auto simp: session_step_def intro: saves_trans)
      show ?thesis
      proof (cases "quit S1")
        case False
        then show ?thesis using rest s Cons by (simp add: session_step_def)
      next
        case quit: True
        then obtain J where J: "load_note_from_editor_buffer (changes_cursor V) (image_of S1) = Inr J"
          "changes_loop im time k1 V (S1\<lparr>image_of := J\<lparr>image_file := save_tlv (history J)\<rparr>\<rparr>) = Inr r"
          using rest by auto
        from quit have nq: "\<not> \<not> quit S1" by simp
        have "session_step k1 (S1\<lparr>image_of := J\<lparr>image_file := save_tlv (history J)\<rparr>\<rparr>) r"
          by (rule "1.IH"(1) [OF Cons True f refl nq J])
        moreover have "saves (image_of S) (J\<lparr>image_file := save_tlv (history J)\<rparr>)" by (simp add: saves_def)
        ultimately show ?thesis
          using step_trans [of S "S1\<lparr>image_of := J\<lparr>image_file := save_tlv (history J)\<rparr>\<rparr>" k1 keys r] s(2) Cons by simp
      qed
    next
      case False
      then obtain V1 I where f: "changes_step time id (changes_key_of c) (V, image_of S) = Inr (V1, I)"
        and rest: "if changes_quit V1 then r = (S\<lparr>image_of := I\<rparr>, cs) else changes_loop im time cs V1 (S\<lparr>image_of := I\<rparr>) = Inr r"
        using "1.prems" Cons by (subst (asm) changes_loop.simps) (auto simp: bindR_Inr_iff split: if_splits)
      from changes_step_saves [OF f] have s: "saves (image_of S) (image_of (S\<lparr>image_of := I\<rparr>))" by simp
      show ?thesis
      proof (cases "changes_quit V1")
        case True
        then show ?thesis using rest s Cons by (simp add: session_step_def)
      next
        case go: False
        with rest "1.IH"(2) [OF Cons False f refl go] have "session_step cs (S\<lparr>image_of := I\<rparr>) r" by simp
        then show ?thesis using step_trans [OF s, of cs keys r] Cons by simp
      qed
    qed
  qed
qed

section \<open>Editing definitions\<close>

lemma edit_keys_step: "edit_keys im time reload keys S = Inr r \<Longrightarrow> session_step keys S r"
proof (induction im time reload keys S arbitrary: r rule: edit_keys.induct)
  case (1 im time reload keys S)
  show ?case
  proof (cases keys)
    case Nil
    then show ?thesis using "1.prems" by (auto simp: edit_keys.simps session_step_def)
  next
    case (Cons c cs)
    show ?thesis
    proof (cases "quit S")
      case True
      then show ?thesis using "1.prems" Cons by (auto simp: edit_keys.simps session_step_def)
    next
      case False
      consider (go) "c = Byte 7" | (leave) "c = Byte 2" | (search) "c = Byte 6" | (other) "c \<noteq> Byte 7" "c \<noteq> Byte 2" "c \<noteq> Byte 6"
        by blast
      then show ?thesis
      proof cases
        case go
        then obtain S1 k1 where f: "editorGo time reload cs S = Inr (S1, k1)" "edit_keys im time reload k1 S1 = Inr r"
          using "1.prems" Cons False by (subst (asm) edit_keys.simps) (auto simp: bindR_Inr_iff)
        have "session_step k1 S1 r" by (rule "1.IH"(1) [OF Cons False go f(1) refl f(2)])
        with step_trans [OF go_saves [OF f(1)], of k1 keys r] editorGo_shorter [OF f(1)] Cons show ?thesis
          by simp
      next
        case leave
        then show ?thesis using "1.prems" Cons False
          by (subst (asm) edit_keys.simps) (auto simp: bindR_Inr_iff session_step_def dest: save_buffer_saves)
      next
        case search
        then obtain S1 k1 where f: "find_mode cs S = Inr (S1, k1)" "edit_keys im time reload k1 S1 = Inr r"
          using "1.prems" Cons False by (subst (asm) edit_keys.simps) (auto simp: bindR_Inr_iff)
        have n: "c \<noteq> Byte 7" "c \<noteq> Byte 2" using search by simp_all
        have "session_step k1 S1 r" by (rule "1.IH"(2) [OF Cons False n search f(1) refl f(2)])
        with step_trans [OF find_saves [OF f(1)], of k1 keys r] find_mode_shorter [OF f(1)] Cons show ?thesis
          by simp
      next
        case other
        then obtain S1 where f: "editorProcessKeypress2 im c S = Inr S1" "edit_keys im time reload cs S1 = Inr r"
          using "1.prems" Cons False by (subst (asm) edit_keys.simps) (auto simp: bindR_Inr_iff)
        from "1.IH"(3) [OF Cons False other f] step_trans [OF key_saves [OF f(1)], of cs keys r] Cons show ?thesis
          by simp
      qed
    qed
  qed
qed

lemma image_step: "session_step keys (S\<lparr>editor := E, quit := q, back_to_big_picture := b\<rparr>) r \<Longrightarrow> session_step keys S r"
  by (simp add: session_step_def)

lemma edit_step: "edit im time reload keys S = Inr r \<Longrightarrow> session_step keys S r"
  by (auto simp: edit_def bindR_Inr_iff intro: image_step dest!: edit_keys_step)

lemma resumeEdit_step: "resumeEdit im time reload keys S = Inr r \<Longrightarrow> session_step keys S r"
  by (auto simp: resumeEdit_def session_step_def dest!: edit_keys_step)

lemma reload_loop_step: "reload_loop n im time reload keys S = Inr r \<Longrightarrow> session_step keys S r"
proof (induction n arbitrary: keys S r)
  case (Suc n)
  then obtain status S1 where f: "load_editor_buffer_and_reload time reload S = Inr (status, S1)"
    and rest: "(case status of Loaded \<Rightarrow> Inr (S1, keys) | LeftNil \<Rightarrow> Inl (ExitCode 1)
       | LeftError \<Rightarrow> bindR (resumeEdit im time reload keys (S1\<lparr>previous_error := True\<rparr>)) (\<lambda>(S, ks).
             if quit S then reload_loop n im time reload ks S else Inr (S, ks))) = Inr r"
    by (auto simp: bindR_Inr_iff)
  note s = reload_saves [OF f]
  show ?case
  proof (cases status)
    case Loaded
    then show ?thesis using rest s by (auto simp: session_step_def)
  next
    case LeftError
    then obtain S2 k2 where g: "resumeEdit im time reload keys (S1\<lparr>previous_error := True\<rparr>) = Inr (S2, k2)"
      "if quit S2 then reload_loop n im time reload k2 S2 = Inr r else r = (S2, k2)"
      using rest by (auto simp: bindR_Inr_iff split: if_splits)
    have t: "session_step keys S (S2, k2)"
      using resumeEdit_step [OF g(1)] s by (auto simp: session_step_def intro: saves_trans)
    then show ?thesis
      using g(2) Suc.IH [of k2 S2 r] step_trans [of S S2 k2 keys r] by (auto simp: session_step_def split: if_splits)
  qed (use rest in simp)
qed simp

lemma after_edit_step:
  "after_edit im time reload (S, keys) = Inr r \<Longrightarrow> session_step keys S r"
  by (auto simp: after_edit_def bindR_Inr_iff session_step_def simp del: reload_loop.simps split: if_splits
      dest!: load_saves reload_loop_step)

lemma edit_current_definition_step:
  assumes "edit_current_definition im time reload keys S = Inr r"
  shows "session_step keys S r"
proof -
  obtain S1 k1 where f: "edit im time reload keys S = Inr (S1, k1)" "after_edit im time reload (S1, k1) = Inr r"
    using assms by (auto simp: edit_current_definition_def bindR_Inr_iff)
  show ?thesis
    using edit_step [OF f(1)] step_trans [OF _ _ after_edit_step [OF f(2)], of S keys] by (simp add: session_step_def)
qed

lemma open_and_edit_step:
  assumes "open_and_edit im time reload name keys S = Inr r"
  shows "session_step keys S r"
proof -
  obtain I where f: "save_to_current_definition_and_editor_buffer name (image_of S) = Inr I"
    "edit_current_definition im time reload keys (S\<lparr>image_of := I\<rparr>) = Inr r"
    using assms by (auto simp: open_and_edit_def bindR_Inr_iff)
  show ?thesis
    using step_trans [OF _ _ edit_current_definition_step [OF f(2)], of S keys] show_saves [OF f(1)] by simp
qed

lemma resume_editor_view_step:
  assumes "resume_editor_view im time reload t keys S = Inr r"
  shows "session_step keys S r"
proof -
  obtain name p I S1 k1 where f: "save_to_current_definition_and_editor_buffer name (image_of S) = Inr I"
    "editFrom im time reload p keys (S\<lparr>image_of := I\<rparr>) = Inr (S1, k1)" "after_edit im time reload (S1, k1) = Inr r"
    using assms by (auto simp: resume_editor_view_def bindR_Inr_iff)
  have "session_step keys (S\<lparr>image_of := I\<rparr>) (S1, k1)"
    using f(2) by (auto simp: editFrom_def bindR_Inr_iff intro: image_step dest!: edit_keys_step split: prod.splits)
  then have "session_step keys S (S1, k1)" using show_saves [OF f(1)] by (intro step_trans [of S _ keys]) simp_all
  then show ?thesis using step_trans [OF _ _ after_edit_step [OF f(3)], of S keys] by (simp add: session_step_def)
qed

section \<open>The big picture\<close>

definition bp_key_of :: "key \<Rightarrow> bp_key" where
  "bp_key_of c =
     (if c = KEY_BACKSPACE \<or> c = Byte 127 \<or> c = Byte 8 then BpBackspace
      else if c = Byte 24 then BpQuit
      else if c = Byte 10 then BpEnter
      else if c = Byte 21 then BpClear
      else if c = Byte 18 then BpChanges
      else if c = KEY_LEFT then BpLeft
      else if c = KEY_RIGHT then BpRight
      else if c = KEY_UP then BpUp
      else if c = KEY_DOWN then BpDown
      else if c = Byte 7 then BpGo
      else if c = Byte 5 then BpEvents
      else (case c of Byte b \<Rightarrow> if find_printable b then BpChar (char_of b) else BpOther | _ \<Rightarrow> BpOther))"

definition events_key_of :: "key \<Rightarrow> events_key" where
  "events_key_of c =
     (if c = Byte 24 then EvQuit else if c = KEY_UP then EvUp else if c = KEY_DOWN then EvDown
      else if c = Byte 10 then EvEnter else EvOther)"

text \<open>The keys of the events screen, up to the one that ends it; \<open>None\<close>: more are awaited.\<close>

definition choose_event :: "app \<Rightarrow> key list \<Rightarrow> (string option \<times> key list) option res" where
  "choose_event a ks =
     (case dropWhile (\<lambda>k. \<not> ends_find k) ks of
        [] \<Rightarrow> Inr None
      | e # ks' \<Rightarrow>
          bindR (events_view (events_of a) 0 (map events_key_of (takeWhile (\<lambda>k. \<not> ends_find k) ks @ [e]))) (\<lambda>r.
          case r of Inl name \<Rightarrow> Inr (Some (name, ks')) | Inr cursor \<Rightarrow> Inr None))"

lemma choose_event_shorter:
  assumes "choose_event a ks = Inr (Some (n, ks'))"
  shows "length ks' \<le> length ks"
proof (cases "dropWhile (\<lambda>k. \<not> ends_find k) ks")
  case Nil
  then show ?thesis using assms
    by (simp add: choose_event_def del: de_Morgan_disj dropWhile_eq_Nil_conv)
next
  case (Cons e k)
  then obtain r :: "string option + int" where
    "(case r of Inl name \<Rightarrow> Inr (Some (name, k)) | Inr cursor \<Rightarrow> Inr None) =
      (Inr (Some (n, ks')) :: (string option \<times> key list) option res)"
    using assms unfolding choose_event_def by (auto simp: bindR_Inr_iff simp del: de_Morgan_disj)
  then have "k = ks'" by (cases r) auto
  moreover have "length (e # k) \<le> length ks" using Cons length_dropWhile_le by metis
  ultimately show ?thesis by simp
qed

definition levels_now :: "app \<Rightarrow> session \<Rightarrow> string list list" where
  "levels_now a S = levels (kind_of a S) (call_depth a) (history (image_of S))"

text \<open>What a key leads to, with the keys left for it: to the big picture drawn again, out of it
  (\<open>True\<close>), or to the end of the keys.\<close>

datatype bp_next = DrawAgain session big_picture "key list" | Done session "key list" bool

definition edit_chosen :: "app \<Rightarrow> string \<Rightarrow> key list \<Rightarrow> big_picture \<Rightarrow> session \<Rightarrow> bp_next res" where
  "edit_chosen a name ks B S =
     bindR (open_and_edit (Image_name a) (clock a) (reload_of a) name ks S) (\<lambda>(S, ks).
       Inr (if \<not> quit S then Done S ks False
            else if back_to_big_picture S then DrawAgain S B ks else Done S ks True))"

definition bp_step :: "app \<Rightarrow> key \<Rightarrow> key list \<Rightarrow> big_picture \<Rightarrow> session \<Rightarrow> (big_picture + bp_next) res" where
  "bp_step a c ks B S =
     bindR (big_picture_key (int (length (levels_now a S)) - 1) (bp_key_of c) B) (\<lambda>r.
     case r of
       Restart B \<Rightarrow> Inr (Inr (DrawAgain S B ks))
     | Keep B \<Rightarrow> Inr (Inl B)
     | Back \<Rightarrow> Inr (Inr (Done S ks True))
     | Edit name \<Rightarrow> bindR (edit_chosen a name ks B S) (\<lambda>n. Inr (Inr n))
     | RecentChanges \<Rightarrow> bindR (recent_changes_view a ks S) (\<lambda>(S, ks). Inr (Inr (DrawAgain S B ks)))
     | RecentEvents \<Rightarrow>
         bindR (choose_event a ks) (\<lambda>e.
         case e of
           None \<Rightarrow> Inr (Inr (Done S [] False))
         | Some (None, ks) \<Rightarrow> Inr (Inr (Done S ks True))
         | Some (Some name, ks) \<Rightarrow> bindR (edit_chosen a name ks B S) (\<lambda>n. Inr (Inr n))))"

definition next_step :: "key list \<Rightarrow> session \<Rightarrow> bp_next \<Rightarrow> bool" where
  "next_step ks S n = (case n of DrawAgain S' B ks' \<Rightarrow> session_step ks S (S', ks') | Done S' ks' b \<Rightarrow> session_step ks S (S', ks'))"

lemma edit_chosen_step: "edit_chosen a name ks B S = Inr n \<Longrightarrow> next_step ks S n"
  by (auto simp: edit_chosen_def bindR_Inr_iff next_step_def dest!: open_and_edit_step)

lemma changes_view_step: "recent_changes_view a ks S = Inr r \<Longrightarrow> session_step ks S r"
  unfolding recent_changes_view_def by (rule changes_loop_step)

lemma next_step_shorter: "next_step ks S n \<Longrightarrow> length ks \<le> length ks' \<Longrightarrow> next_step ks' S n"
  by (auto simp: next_step_def session_step_def split: bp_next.splits)

lemma bp_step_step:
  assumes "bp_step a c ks B S = Inr (Inr n)"
  shows "next_step ks S n"
proof -
  obtain r where r: "big_picture_key (int (length (levels_now a S)) - 1) (bp_key_of c) B = Inr r"
    using assms by (auto simp: bp_step_def bindR_Inr_iff)
  show ?thesis
  proof (cases r)
    case (Edit name)
    then show ?thesis using assms r by (auto simp: bp_step_def bindR_Inr_iff dest: edit_chosen_step)
  next
    case RecentChanges
    then show ?thesis using assms r
      by (auto simp: bp_step_def bindR_Inr_iff next_step_def dest: changes_view_step)
  next
    case RecentEvents
    then obtain e where "choose_event a ks = Inr e" "(case e of
           None \<Rightarrow> Inr (Inr (Done S [] False))
         | Some (None, ks) \<Rightarrow> Inr (Inr (Done S ks True))
         | Some (Some name, ks) \<Rightarrow> bindR (edit_chosen a name ks B S) (\<lambda>n. Inr (Inr n))) =
           (Inr (Inr n) :: (big_picture + bp_next) res)"
      using assms r by (auto simp: bp_step_def bindR_Inr_iff)
    note e = this
    show ?thesis
    proof (cases e)
      case None
      then show ?thesis using e(2) by (auto simp: next_step_def session_step_def)
    next
      case (Some p)
      obtain name k where p: "p = (name, k)" by (cases p)
      have k: "length k \<le> length ks" using choose_event_shorter e(1) Some p by blast
      show ?thesis
      proof (cases name)
        case None
        then show ?thesis using e(2) Some p k by (auto simp: next_step_def session_step_def)
      next
        case (Some nm)
        then have "edit_chosen a nm k B S = Inr n" using e(2) \<open>e = Some p\<close> p by (auto simp: bindR_Inr_iff)
        then show ?thesis using next_step_shorter [OF edit_chosen_step k] by simp
      qed
    qed
  qed (use assms r in \<open>auto simp: bp_step_def next_step_def session_step_def\<close>)
qed

lemma bp_step_next:
  assumes "bp_step a c ks B S = Inr (Inr (DrawAgain S' B' ks'))"
  shows "length ks' \<le> length ks" "saves (image_of S) (image_of S')"
  using bp_step_step [OF assms] by (simp_all add: next_step_def session_step_def)

text \<open>\<open>default_big_picture_view\<close> with everything its keys lead to; the flag says that the
  view was left.\<close>

function big_picture_loop ::
    "app \<Rightarrow> key list \<Rightarrow> big_picture \<Rightarrow> session \<Rightarrow> (session \<times> key list \<times> bool) res" where
  "big_picture_loop a keys B S =
     (case keys of
        [] \<Rightarrow> Inr (S, [], False)
      | c # ks \<Rightarrow>
          bindR (bp_step a c ks B S) (\<lambda>r.
          case r of
            Inl B \<Rightarrow> big_picture_loop a ks B S
          | Inr (Done S ks left) \<Rightarrow> Inr (S, ks, left)
          | Inr (DrawAgain S B ks) \<Rightarrow> bindR (redraw (levels_now a S) B) (\<lambda>B. big_picture_loop a ks B S)))"
  by pat_completeness auto
termination
proof (relation "measure (\<lambda>(a, keys, B, S). length keys)", goal_cases)
  case (3 a keys B S c ks r n S' B' ks' B'')
  then show ?case using bp_step_next(1) [of a c ks B S S' B' ks'] by auto
qed auto

declare big_picture_loop.simps [simp del]

definition default_view :: "app \<Rightarrow> key list \<Rightarrow> session \<Rightarrow> (session \<times> key list \<times> bool) res" where
  "default_view a keys S = bindR (redraw (levels_now a S) open_big_picture) (\<lambda>B. big_picture_loop a keys B S)"

definition big_picture_view :: "app \<Rightarrow> key list \<Rightarrow> session \<Rightarrow> (session \<times> key list \<times> bool) res" where
  "big_picture_view a keys S =
     bindR (look_up_definition (history (image_of S)) ''doc:main'') (\<lambda>found.
     case found of
       None \<Rightarrow> default_view a keys S
     | Some _ \<Rightarrow>
         bindR (open_and_edit (Image_name a) (clock a) (reload_of a) ''doc:main'' keys S) (\<lambda>(S, ks).
         if \<not> quit S then Inr (S, ks, False)
         else if back_to_big_picture S then default_view a ks S else Inr (S, ks, True)))"

text \<open>\<open>True\<close>: the app is started again with the image file as it is then.\<close>

definition developer_mode :: "app \<Rightarrow> key list \<Rightarrow> session \<Rightarrow> (session \<times> key list \<times> bool) res" where
  "developer_mode a keys S =
     bindR (editor_view_in_progress (length (concat (case state_file S of None \<Rightarrow> [] | Some s \<Rightarrow> [s])) + 1)
              (Image_name a) (state_file S)) (\<lambda>state.
     case state of
       None \<Rightarrow> big_picture_view a keys S
     | Some t \<Rightarrow>
         bindR (resume_editor_view (Image_name a) (clock a) (reload_of a) t keys S) (\<lambda>(S, ks).
         if \<not> quit S then Inr (S, ks, False)
         else if back_to_big_picture S then big_picture_view a ks S else Inr (S, ks, True)))"

section \<open>Nothing is lost\<close>

lemma big_picture_loop_saves:
  "big_picture_loop a keys B S = Inr (S', ks', left) \<Longrightarrow> saves (image_of S) (image_of S')"
proof (induction a keys B S arbitrary: S' ks' left rule: big_picture_loop.induct)
  case (1 a keys B S)
  show ?case
  proof (cases keys)
    case Nil
    then show ?thesis using "1.prems" by (simp add: big_picture_loop.simps)
  next
    case (Cons c cs)
    then obtain r where r: "bp_step a c cs B S = Inr r"
      and rest: "(case r of
            Inl B \<Rightarrow> big_picture_loop a cs B S
          | Inr (Done S ks left) \<Rightarrow> Inr (S, ks, left)
          | Inr (DrawAgain S B ks) \<Rightarrow> bindR (redraw (levels_now a S) B) (\<lambda>B. big_picture_loop a ks B S)) =
          Inr (S', ks', left)"
      using "1.prems" by (subst (asm) big_picture_loop.simps) (auto simp: bindR_Inr_iff)
    show ?thesis
    proof (cases r)
      case (Inl B1)
      then show ?thesis using "1.IH"(1) [OF Cons r Inl] rest by simp
    next
      case (Inr n)
      show ?thesis
      proof (cases n)
        case (DrawAgain S1 B1 k1)
        then obtain B2 where B2: "redraw (levels_now a S1) B1 = Inr B2" "big_picture_loop a k1 B2 S1 = Inr (S', ks', left)"
          using rest Inr by (auto simp: bindR_Inr_iff)
        have "saves (image_of S1) (image_of S')" by (rule "1.IH"(2) [OF Cons r Inr DrawAgain B2])
        moreover have "saves (image_of S) (image_of S1)" using bp_step_next(2) r Inr DrawAgain by simp
        ultimately show ?thesis by (blast intro: saves_trans)
      next
        case (Done S1 k1 l)
        then show ?thesis using bp_step_step [of a c cs B S n] r Inr rest by (simp add: next_step_def session_step_def)
      qed
    qed
  qed
qed

lemma default_view_saves: "default_view a keys S = Inr (S', ks', left) \<Longrightarrow> saves (image_of S) (image_of S')"
  by (auto simp: default_view_def bindR_Inr_iff dest: big_picture_loop_saves)

lemma big_picture_view_saves:
  assumes "big_picture_view a keys S = Inr (S', ks', left)"
  shows "saves (image_of S) (image_of S')"
proof -
  obtain found where "look_up_definition (history (image_of S)) ''doc:main'' = Inr found"
    "(case found of
       None \<Rightarrow> default_view a keys S
     | Some _ \<Rightarrow>
         bindR (open_and_edit (Image_name a) (clock a) (reload_of a) ''doc:main'' keys S) (\<lambda>(S, ks).
         if \<not> quit S then Inr (S, ks, False)
         else if back_to_big_picture S then default_view a ks S else Inr (S, ks, True))) = Inr (S', ks', left)"
    using assms by (auto simp: big_picture_view_def bindR_Inr_iff)
  then show ?thesis
    by (auto simp: bindR_Inr_iff session_step_def split: option.split_asm if_split_asm
        dest!: default_view_saves open_and_edit_step intro: saves_trans)
qed

lemma developer_mode_runs:
  assumes "developer_mode a keys S = Inr (S', ks', left)"
  shows "saves (image_of S) (image_of S')"
proof -
  obtain st where "(case st of
       None \<Rightarrow> big_picture_view a keys S
     | Some t \<Rightarrow>
         bindR (resume_editor_view (Image_name a) (clock a) (reload_of a) t keys S) (\<lambda>(S, ks).
         if \<not> quit S then Inr (S, ks, False)
         else if back_to_big_picture S then big_picture_view a ks S else Inr (S, ks, True))) = Inr (S', ks', left)"
    using assms by (auto simp: developer_mode_def bindR_Inr_iff)
  then show ?thesis
    by (auto simp: bindR_Inr_iff session_step_def split: option.split_asm if_split_asm
        dest!: big_picture_view_saves resume_editor_view_step intro: saves_trans)
qed


definition demo_app :: app where
  "demo_app = \<lparr>Image_name = ''a.tlv'', clock = ''now'', reload_of = \<lambda>_ _. Loaded, kind_of = \<lambda>_ _. KValue,
     call_depth = \<lambda>_. None, events_of = \<lparr>audit_events = [], naudit = 0, iaudit = 0\<rparr>\<rparr>"

definition demo_two :: "lua_table list" where
  "demo_two = [[(''f'', VStr ''one'')], [(''f'', VStr ''two'')]]"

definition demo_open :: session where
  "demo_open = demo_session\<lparr>image_of := \<lparr>history = demo_two, Current_definition = [], editor_buffer = [],
     image_file = save_tlv demo_two\<rparr>\<rparr>"

text \<open>Recent changes, one change back, undo everything after it, and out again.\<close>

definition demo_keys :: "key list" where
  "demo_keys = [Byte 18, KEY_DOWN, Byte 21, Byte 24, Byte 24]"

lemma demo_run:
  "case developer_mode demo_app demo_keys demo_open of Inl e \<Rightarrow> False
   | Inr (S', ks, left) \<Rightarrow> left \<and> ks = [] \<and> history (image_of S') =
       demo_two @ [[(''__teliva_undo'', VInt 1), (''__teliva_timestamp'', VStr ''now'')]]"
  by code_simp


end
