(* ===== verification/Terminal.thy ===== *)
theory Terminal
  imports Prelude
begin

text \<open>
  Drawing on the terminal.  The functions of the program that draw are modelled as the sequence of
  curses calls they make; what those calls do is not the program's code, so it is the locale
  \<open>curses_terminal\<close>, whose laws are the documented behaviour of the calls for
  characters that take one column.  The lemmas of the locale say what sequences of calls leave on the
  screen, and \<open>grid\<close> is a terminal that obeys the laws.
\<close>

section \<open>Calls\<close>

text \<open>\<open>enum color_pair\<close> of \<^verbatim>\<open>src/src/teliva.h\<close>.\<close>

datatype color_pair =
    COLOR_PAIR_NORMAL | COLOR_PAIR_SELECTABLE | COLOR_PAIR_FADE | COLOR_PAIR_MENU_ALTERNATE
  | COLOR_PAIR_LUA_COMMENT | COLOR_PAIR_LUA_KEYWORD | COLOR_PAIR_LUA_CONSTANT | COLOR_PAIR_MATCH
  | COLOR_PAIR_SAFE | COLOR_PAIR_WARN | COLOR_PAIR_RISK | COLOR_PAIR_MENU | COLOR_PAIR_ERROR

text \<open>\<open>enum color\<close>, as far as the interface sets colour pairs; the numbers depend on the colour scheme.\<close>

datatype color =
    COLOR_FOREGROUND | COLOR_BACKGROUND | COLOR_ERROR_FOREGROUND | COLOR_ERROR_BACKGROUND
  | COLOR_SAFE_REVERSE | COLOR_WARN_REVERSE | COLOR_RISK_REVERSE

datatype attribute = A_BOLD | A_REVERSE | COLOR_PAIR color_pair

text \<open>Attributes that are or-ed together are a list; \<open>A_NORMAL\<close> is the empty one.\<close>

abbreviation A_NORMAL :: "attribute list" where "A_NORMAL \<equiv> []"

datatype curses_call =
    Move int int
  | Mvaddstr int int string
  | Addstr string
  | Addch int
  | Attrset "attribute list"
  | Attron "attribute list"
  | Attroff "attribute list"
  | Color_set color_pair
  | Clrtobot
  | Clear
  | Curs_set nat
  | Init_pair color_pair color color

text \<open>A \<open>char\<close> that is passed as an \<open>int\<close>; the type is signed.\<close>

definition schar :: "char \<Rightarrow> int" where
  "schar c = (if of_char c < (128 :: int) then of_char c else of_char c - 256)"

section \<open>The pen\<close>

record pen =
  pen_bold :: bool
  pen_reverse :: bool
  pen_color :: color_pair

definition normal_pen :: pen where
  "normal_pen = \<lparr>pen_bold = False, pen_reverse = False, pen_color = COLOR_PAIR_NORMAL\<rparr>"

fun turn_on :: "attribute \<Rightarrow> pen \<Rightarrow> pen" where
  "turn_on A_BOLD p = p\<lparr>pen_bold := True\<rparr>"
| "turn_on A_REVERSE p = p\<lparr>pen_reverse := True\<rparr>"
| "turn_on (COLOR_PAIR c) p = p\<lparr>pen_color := c\<rparr>"

fun turn_off :: "attribute \<Rightarrow> pen \<Rightarrow> pen" where
  "turn_off A_BOLD p = p\<lparr>pen_bold := False\<rparr>"
| "turn_off A_REVERSE p = p\<lparr>pen_reverse := False\<rparr>"
| "turn_off (COLOR_PAIR c) p = p\<lparr>pen_color := COLOR_PAIR_NORMAL\<rparr>"

fun pen_after :: "curses_call \<Rightarrow> pen \<Rightarrow> pen" where
  "pen_after (Attrset as) p = fold turn_on as normal_pen"
| "pen_after (Attron as) p = fold turn_on as p"
| "pen_after (Attroff as) p = fold turn_off as p"
| "pen_after (Color_set c) p = p\<lparr>pen_color := c\<rparr>"
| "pen_after _ p = p"

text \<open>The colours of the colour pairs, foreground and background.\<close>

fun pairs_after :: "curses_call \<Rightarrow> (color_pair \<Rightarrow> color \<times> color) \<Rightarrow> color_pair \<Rightarrow> color \<times> color" where
  "pairs_after (Init_pair c f b) P = P(c := (f, b))"
| "pairs_after _ P = P"

text \<open>Calls that neither write nor move.\<close>

fun quiet :: "curses_call \<Rightarrow> bool" where
  "quiet (Attrset as) \<longleftrightarrow> True"
| "quiet (Attron as) \<longleftrightarrow> True"
| "quiet (Attroff as) \<longleftrightarrow> True"
| "quiet (Color_set c) \<longleftrightarrow> True"
| "quiet (Curs_set n) \<longleftrightarrow> True"
| "quiet (Init_pair c f b) \<longleftrightarrow> True"
| "quiet _ \<longleftrightarrow> False"

definition printable :: "int \<Rightarrow> bool" where
  "printable v \<longleftrightarrow> 32 \<le> v \<and> v < 127"

abbreviation printable_text :: "string \<Rightarrow> bool" where
  "printable_text t \<equiv> list_all (\<lambda>c. printable (schar c)) t"

text \<open>Calls that write on line \<open>y\<close> or below, once the cursor is there.\<close>

fun stays_below :: "int \<Rightarrow> curses_call \<Rightarrow> bool" where
  "stays_below y (Mvaddstr y' x t) \<longleftrightarrow> y \<le> y'"
| "stays_below y (Addstr t) \<longleftrightarrow> True"
| "stays_below y (Addch v) \<longleftrightarrow> True"
| "stays_below y c \<longleftrightarrow> quiet c"

text \<open>What calls that only write and change the pen put next to each other.\<close>

fun painted :: "curses_call list \<Rightarrow> pen \<Rightarrow> (int \<times> pen) list" where
  "painted [] p = []"
| "painted (Addstr t # cs) p = map (\<lambda>c. (schar c, p)) t @ painted cs p"
| "painted (Addch v # cs) p = (v, p) # painted cs p"
| "painted (c # cs) p = painted cs (pen_after c p)"

fun paints :: "curses_call \<Rightarrow> bool" where
  "paints (Addstr t) \<longleftrightarrow> printable_text t"
| "paints (Addch v) \<longleftrightarrow> printable v"
| "paints c \<longleftrightarrow> quiet c"

lemma painted_quiet: "quiet c \<Longrightarrow> painted (c # cs) p = painted cs (pen_after c p)"
  by (cases c) simp_all

lemma painted_append: "painted (as @ bs) p = painted as p @ painted bs (fold pen_after as p)"
  by (induction as p rule: painted.induct) simp_all

section \<open>Terminals\<close>

locale curses_terminal =
  fixes LINES COLS :: int
    and exec :: "curses_call \<Rightarrow> 's \<Rightarrow> 's"
    and cursor :: "'s \<Rightarrow> int \<times> int"
    and pen :: "'s \<Rightarrow> pen"
    and cell :: "'s \<Rightarrow> int \<times> int \<Rightarrow> int \<times> pen"
    and pairs :: "'s \<Rightarrow> color_pair \<Rightarrow> color \<times> color"
  assumes pairs_exec: "pairs (exec c s) = pairs_after c (pairs s)"
    and pen_exec: "pen (exec c s) = pen_after c (pen s)"
    and quiet_exec: "quiet c \<Longrightarrow> cursor (exec c s) = cursor s \<and> cell (exec c s) = cell s"
    and move_in: "\<lbrakk>0 \<le> y; y < LINES; 0 \<le> x; x < COLS\<rbrakk> \<Longrightarrow>
      cursor (exec (Move y x) s) = (y, x) \<and> cell (exec (Move y x) s) = cell s"
    and mvaddstr_in: "\<lbrakk>0 \<le> y; y < LINES; 0 \<le> x; x < COLS\<rbrakk> \<Longrightarrow>
      exec (Mvaddstr y x t) s = exec (Addstr t) (exec (Move y x) s)"
    and mvaddstr_out: "\<not> (0 \<le> y \<and> y < LINES \<and> 0 \<le> x \<and> x < COLS) \<Longrightarrow>
      cursor (exec (Mvaddstr y x t) s) = cursor s \<and> cell (exec (Mvaddstr y x t) s) = cell s"
    and addstr_chars: "printable_text t \<Longrightarrow> exec (Addstr t) s = fold (\<lambda>c. exec (Addch (schar c))) t s"
    and addch_cell: "\<lbrakk>cursor s = (y, x); printable v; x + 1 < COLS \<or> y + 1 < LINES\<rbrakk> \<Longrightarrow>
      cell (exec (Addch v) s) = (cell s)((y, x) := (v, pen s))"
    and addch_cursor: "\<lbrakk>cursor s = (y, x); printable v; x + 1 < COLS\<rbrakk> \<Longrightarrow>
      cursor (exec (Addch v) s) = (y, x + 1)"
    and addch_below: "fst (cursor s) \<le> fst (cursor (exec (Addch v) s)) \<and>
      (a < fst (cursor s) \<longrightarrow> cell (exec (Addch v) s) (a, b) = cell s (a, b))"
    and addstr_below: "fst (cursor s) \<le> fst (cursor (exec (Addstr t) s)) \<and>
      (a < fst (cursor s) \<longrightarrow> cell (exec (Addstr t) s) (a, b) = cell s (a, b))"
begin

text \<open>What printable text leaves behind.\<close>

lemma addstr_cells:
  assumes "cursor s = (y, x)" "printable_text t" "x + int (length t) < COLS \<or> x + int (length t) = COLS \<and> y + 1 < LINES"
  shows "cell (exec (Addstr t) s) (y', x') =
      (if y' = y \<and> x \<le> x' \<and> x' < x + int (length t) then (schar (t ! nat (x' - x)), pen s) else cell s (y', x'))"
    and "x + int (length t) < COLS \<Longrightarrow> cursor (exec (Addstr t) s) = (y, x + int (length t))"
proof -
  have "cell (fold (\<lambda>c. exec (Addch (schar c))) t s) (y', x') =
      (if y' = y \<and> x \<le> x' \<and> x' < x + int (length t) then (schar (t ! nat (x' - x)), pen s) else cell s (y', x')) \<and>
    (x + int (length t) < COLS \<longrightarrow> cursor (fold (\<lambda>c. exec (Addch (schar c))) t s) = (y, x + int (length t)))"
    using assms
  proof (induction t arbitrary: s x)
    case (Cons c t)
    let ?s = "exec (Addch (schar c)) s"
    have n: "cell ?s = (cell s)((y, x) := (schar c, pen s))" "pen ?s = pen s"
      using addch_cell [OF Cons.prems(1)] Cons.prems pen_exec [of "Addch (schar c)" s] by auto
    show ?case
    proof (cases "t = []")
      case True
      then show ?thesis using n addch_cursor [OF Cons.prems(1)] Cons.prems(2) by auto
    next
      case False
      then have l: "x + 1 < COLS" using Cons.prems(3) by (cases t) auto
      have "cursor ?s = (y, x + 1)" using addch_cursor [OF Cons.prems(1) _ l] Cons.prems(2) by simp
      moreover have "(c # t) ! nat (x' - x) = t ! nat (x' - (x + 1))" if "x < x'"
      proof -
        have "nat (x' - x) = Suc (nat (x' - (x + 1)))" using that by simp
        then show ?thesis by simp
      qed
      ultimately show ?thesis using Cons.IH [of ?s "x + 1"] Cons.prems(2,3) n by auto
    qed
  qed auto
  then show "cell (exec (Addstr t) s) (y', x') =
      (if y' = y \<and> x \<le> x' \<and> x' < x + int (length t) then (schar (t ! nat (x' - x)), pen s) else cell s (y', x'))"
    "x + int (length t) < COLS \<Longrightarrow> cursor (exec (Addstr t) s) = (y, x + int (length t))"
    using addstr_chars [OF assms(2)] by simp_all
qed

lemma addstr_Nil: "exec (Addstr []) s = s"
  using addstr_chars [of "[]" s] by simp

lemma goto:
  assumes "0 \<le> y" "y < LINES" "0 \<le> x" "x < COLS"
  shows "cursor (exec (Mvaddstr y x []) s) = (y, x)" "cell (exec (Mvaddstr y x []) s) = cell s"
    "pen (exec (Mvaddstr y x []) s) = pen s"
  using mvaddstr_in [OF assms] move_in [OF assms] addstr_Nil pen_exec [of "Mvaddstr y x []" s] by simp_all

lemma goto_cells: "cell (exec (Mvaddstr y x []) s) = cell s"
  using goto(2) mvaddstr_out by blast

lemma pen_run: "pen (fold exec cs s) = fold pen_after cs (pen s)"
  by (induction cs arbitrary: s) (simp_all add: pen_exec)

lemma pairs_run: "pairs (fold exec cs s) = fold pairs_after cs (pairs s)"
  by (induction cs arbitrary: s) (simp_all add: pairs_exec)

lemma quiet_run: "list_all quiet cs \<Longrightarrow> cursor (fold exec cs s) = cursor s \<and> cell (fold exec cs s) = cell s"
  by (induction cs arbitrary: s) (simp_all add: quiet_exec)

lemma paint_one:
  assumes "cursor s = (y, x)" "paints c" "n = int (length (painted [c] (pen s)))"
    "x + n < COLS \<or> x + n = COLS \<and> y + 1 < LINES"
  shows "cell (exec c s) (y', x') =
      (if y' = y \<and> x \<le> x' \<and> x' < x + n then painted [c] (pen s) ! nat (x' - x) else cell s (y', x'))"
    and "x + n < COLS \<Longrightarrow> cursor (exec c s) = (y, x + n)"
proof -
  have *: "cell (exec c s) (y', x') =
      (if y' = y \<and> x \<le> x' \<and> x' < x + n then painted [c] (pen s) ! nat (x' - x) else cell s (y', x')) \<and>
    (x + n < COLS \<longrightarrow> cursor (exec c s) = (y, x + n))"
  proof (cases "quiet c")
    case True
    then have "painted [c] (pen s) = []" by (simp add: painted_quiet)
    with True assms(1,3) quiet_exec [OF True, of s] show ?thesis by auto
  next
    case False
    show ?thesis
    proof (cases c)
      case (Addstr t)
      with addstr_cells(1) [OF assms(1), where t = t and y' = y' and x' = x'] addstr_cells(2) [OF assms(1), of t] assms(2-4)
      show ?thesis by auto
    next
      case (Addch v)
      with addch_cell [OF assms(1), of v] addch_cursor [OF assms(1), of v] assms(2-4) show ?thesis
        by auto
    qed (use False assms(2) in simp_all)
  qed
  then show "cell (exec c s) (y', x') =
      (if y' = y \<and> x \<le> x' \<and> x' < x + n then painted [c] (pen s) ! nat (x' - x) else cell s (y', x'))"
    "x + n < COLS \<Longrightarrow> cursor (exec c s) = (y, x + n)" by simp_all
qed

lemma painted_one: "painted (c # cs) p = painted [c] p @ painted cs (pen_after c p)"
  using painted_append [of "[c]" cs p] by simp

lemma paint_nothing:
  assumes "list_all paints cs" "painted cs (pen s) = []"
  shows "cell (fold exec cs s) = cell s"
  using assms
proof (induction cs arbitrary: s)
  case (Cons c cs)
  have p: "painted [c] (pen s) = []" "painted cs (pen (exec c s)) = []"
    using Cons.prems(2) by (subst (asm) painted_one, simp add: pen_exec)+
  have "cell (exec c s) = cell s"
  proof (cases c)
    case (Addstr t)
    then show ?thesis using p(1) addstr_Nil by simp
  qed (use p(1) Cons.prems(1) quiet_exec in auto)
  with Cons p(2) show ?case by simp
qed simp

lemma paint_run:
  assumes "cursor s = (y, x)" "list_all paints cs" "n = int (length (painted cs (pen s)))"
    "x + n < COLS \<or> x + n = COLS \<and> y + 1 < LINES"
  shows "cell (fold exec cs s) (y', x') =
      (if y' = y \<and> x \<le> x' \<and> x' < x + n then painted cs (pen s) ! nat (x' - x) else cell s (y', x'))"
  using assms
proof (induction cs arbitrary: s x n)
  case (Cons c cs)
  let ?one = "painted [c] (pen s)" and ?more = "painted cs (pen (exec c s))"
  have sp: "painted (c # cs) (pen s) = ?one @ ?more" by (subst painted_one) (simp add: pen_exec)
  let ?k = "int (length ?one)"
  have k: "x + ?k < COLS \<or> x + ?k = COLS \<and> y + 1 < LINES" using Cons.prems(3,4) sp by auto
  have "paints c" using Cons.prems(2) by simp
  note one = paint_one [OF Cons.prems(1) this refl k]
  show ?case
  proof (cases "?more = []")
    case True
    then have "cell (fold exec (c # cs) s) = cell (exec c s)" using paint_nothing [of cs "exec c s"] Cons.prems(2) by simp
    moreover have "painted (c # cs) (pen s) = ?one" using sp True by simp
    ultimately show ?thesis using one(1) Cons.prems(3) by simp
  next
    case False
    then have "x + ?k < COLS" using Cons.prems(3,4) sp by (cases ?more) auto
    note c' = one(2) [OF this]
    have m: "x + ?k + int (length ?more) < COLS \<or> x + ?k + int (length ?more) = COLS \<and> y + 1 < LINES"
      "n = ?k + int (length ?more)"
      using Cons.prems(3,4) sp by auto
    have "cell (fold exec cs (exec c s)) (y', x') =
      (if y' = y \<and> x + ?k \<le> x' \<and> x' < x + ?k + int (length ?more) then ?more ! nat (x' - (x + ?k))
       else cell (exec c s) (y', x'))"
      using Cons.IH [OF c' _ refl m(1)] Cons.prems(2) by simp
    moreover have "nat (x' - (x + ?k)) = nat (x' - x) - length ?one" by simp
    ultimately show ?thesis
      by (auto simp: sp m(2) one(1) nth_append nat_less_iff)
  qed
qed auto

lemma below_step:
  assumes "stays_below y c" "y \<le> fst (cursor s)"
  shows "y \<le> fst (cursor (exec c s)) \<and> (a < y \<longrightarrow> cell (exec c s) (a, b) = cell s (a, b))"
proof (cases c)
  case (Mvaddstr y' x t)
  show ?thesis
  proof (cases "0 \<le> y' \<and> y' < LINES \<and> 0 \<le> x \<and> x < COLS")
    case True
    then show ?thesis
      using Mvaddstr assms addstr_below [of "exec (Move y' x) s" t a b] mvaddstr_in [of y' x t s] move_in [of y' x s]
      by auto
  next
    case False
    with mvaddstr_out [OF this, of t s] assms(2) Mvaddstr show ?thesis by simp
  qed
next
  case (Addstr t)
  with addstr_below [of s t a b] assms(2) show ?thesis by auto
next
  case (Addch v)
  with addch_below [of s v a b] assms(2) show ?thesis by auto
qed (use assms quiet_exec [of c s] in auto)

lemma below_run:
  assumes "list_all (stays_below y) cs" "y \<le> fst (cursor s)" "a < y"
  shows "cell (fold exec cs s) (a, b) = cell s (a, b)"
  using assms
proof (induction cs arbitrary: s)
  case (Cons c cs)
  with below_step [of y c s a b] show ?case by simp
qed simp

end

section \<open>A terminal\<close>

record grid =
  g_cursor :: "int \<times> int"
  g_pen :: pen
  g_cells :: "int \<times> int \<Rightarrow> int \<times> pen"
  g_pairs :: "color_pair \<Rightarrow> color \<times> color"

definition blank_grid :: grid where
  "blank_grid = \<lparr>g_cursor = (0, 0), g_pen = normal_pen, g_cells = \<lambda>_. (32, normal_pen),
     g_pairs = \<lambda>_. (COLOR_FOREGROUND, COLOR_BACKGROUND)\<rparr>"

definition grid_addch :: "int \<Rightarrow> int \<Rightarrow> int \<Rightarrow> grid \<Rightarrow> grid" where
  "grid_addch lines cols v g =
     (case g_cursor g of (y, x) \<Rightarrow>
        g\<lparr>g_cells := (g_cells g)((y, x) := (v, g_pen g)),
          g_cursor := (if x + 1 < cols then (y, x + 1) else if y + 1 < lines then (y + 1, 0) else (y, x))\<rparr>)"

fun grid_exec :: "int \<Rightarrow> int \<Rightarrow> curses_call \<Rightarrow> grid \<Rightarrow> grid" where
  "grid_exec lines cols (Move y x) g =
     (if 0 \<le> y \<and> y < lines \<and> 0 \<le> x \<and> x < cols then g\<lparr>g_cursor := (y, x)\<rparr> else g)"
| "grid_exec lines cols (Mvaddstr y x t) g =
     (if 0 \<le> y \<and> y < lines \<and> 0 \<le> x \<and> x < cols
      then fold (\<lambda>c. grid_addch lines cols (schar c)) t (g\<lparr>g_cursor := (y, x)\<rparr>) else g)"
| "grid_exec lines cols (Addstr t) g = fold (\<lambda>c. grid_addch lines cols (schar c)) t g"
| "grid_exec lines cols (Addch v) g = grid_addch lines cols v g"
| "grid_exec lines cols Clrtobot g =
     g\<lparr>g_cells := \<lambda>(y, x). if y > fst (g_cursor g) \<or> y = fst (g_cursor g) \<and> x \<ge> snd (g_cursor g)
                        then (32, normal_pen) else g_cells g (y, x)\<rparr>"
| "grid_exec lines cols Clear g = g\<lparr>g_cursor := (0, 0), g_cells := \<lambda>_. (32, normal_pen)\<rparr>"
| "grid_exec lines cols (Init_pair c f b) g = g\<lparr>g_pairs := (g_pairs g)(c := (f, b))\<rparr>"
| "grid_exec lines cols c g = g\<lparr>g_pen := pen_after c (g_pen g)\<rparr>"

lemma grid_addch_pen [simp]: "g_pen (grid_addch lines cols v g) = g_pen g"
  by (simp add: grid_addch_def split: prod.splits)

lemma grid_text_pen [simp]: "g_pen (fold (\<lambda>c. grid_addch lines cols (schar c)) t g) = g_pen g"
  by (induction t arbitrary: g) simp_all

lemma grid_addch_below:
  "fst (g_cursor g) \<le> fst (g_cursor (grid_addch lines cols v g)) \<and>
   (a < fst (g_cursor g) \<longrightarrow> g_cells (grid_addch lines cols v g) (a, b) = g_cells g (a, b))"
  by (auto simp: grid_addch_def split: prod.splits)

lemma grid_text_below:
  "fst (g_cursor g) \<le> fst (g_cursor (fold (\<lambda>c. grid_addch lines cols (schar c)) t g)) \<and>
   (a < fst (g_cursor g) \<longrightarrow> g_cells (fold (\<lambda>c. grid_addch lines cols (schar c)) t g) (a, b) = g_cells g (a, b))"
proof (induction t arbitrary: g)
  case (Cons c t)
  let ?g = "grid_addch lines cols (schar c) g"
  have "fst (g_cursor g) \<le> fst (g_cursor ?g)" "a < fst (g_cursor g) \<Longrightarrow> g_cells ?g (a, b) = g_cells g (a, b)"
    using grid_addch_below [of g lines cols "schar c" a b] by blast+
  with Cons [of ?g] show ?case by auto
qed simp

lemma grid_quiet:
  "quiet c \<Longrightarrow> g_cursor (grid_exec lines cols c g) = g_cursor g \<and> g_cells (grid_exec lines cols c g) = g_cells g"
  by (cases c) simp_all

lemma grid_pen: "g_pen (grid_exec lines cols c g) = pen_after c (g_pen g)"
  by (cases c) simp_all

lemma grid_addch_pairs [simp]: "g_pairs (grid_addch lines cols v g) = g_pairs g"
  by (simp add: grid_addch_def split: prod.splits)

lemma grid_text_pairs [simp]: "g_pairs (fold (\<lambda>c. grid_addch lines cols (schar c)) t g) = g_pairs g"
  by (induction t arbitrary: g) simp_all

lemma grid_pairs: "g_pairs (grid_exec lines cols c g) = pairs_after c (g_pairs g)"
  by (cases c) simp_all

lemma grid_exec_addch: "grid_exec lines cols (Addch v) = grid_addch lines cols v"
  by (simp add: fun_eq_iff)

interpretation grid_terminal: curses_terminal lines cols "grid_exec lines cols" g_cursor g_pen g_cells g_pairs
  for lines cols :: int
proof (unfold_locales, goal_cases)
  case (10 s v a b)
  then show ?case using grid_addch_below by simp
next
  case (11 s t a b)
  then show ?case using grid_text_below by simp
qed (auto simp: grid_pairs grid_pen grid_quiet grid_exec_addch grid_addch_def)

end
