(* ===== verification/Menus.thy ===== *)
theory Menus
  imports Terminal Permissions
begin

text \<open>
  The standard elements of the interface in \<^verbatim>\<open>src/src/teliva.c\<close>: menu items, the menu
  with the lamps for permissions that an app cannot draw over, the menus of the screens, wrapped
  text, and the screen of recent changes.  Text that an app chooses (its menu items, its error
  messages) is an argument.
\<close>

section \<open>Menu items\<close>

record window =
  LINES :: int
  COLS :: int

text \<open>The calls made so far, and the column for the next menu item.\<close>

record ui =
  menu_column :: int
  ui_calls :: "curses_call list"

definition no_ui :: ui where
  "no_ui = \<lparr>menu_column = 0, ui_calls = []\<rparr>"

definition emit :: "curses_call list \<Rightarrow> ui \<Rightarrow> ui" where
  "emit cs U = U\<lparr>ui_calls := ui_calls U @ cs\<rparr>"

definition column :: "int \<Rightarrow> ui \<Rightarrow> ui" where
  "column x U = U\<lparr>menu_column := x\<rparr>"

definition skip_columns :: "int \<Rightarrow> ui \<Rightarrow> ui" where
  "skip_columns n U = U\<lparr>menu_column := menu_column U + n\<rparr>"

definition at_column :: "window \<Rightarrow> string \<Rightarrow> ui \<Rightarrow> ui" where
  "at_column w s U = emit [Mvaddstr (LINES w - 1) (menu_column U) s] U"

definition draw_string_on_menu :: "window \<Rightarrow> string \<Rightarrow> ui \<Rightarrow> ui" where
  "draw_string_on_menu w s U =
     (let U = skip_columns 1 (at_column w '' '' U);
          U = skip_columns (int (length (c_str s))) (at_column w (c_str s) U)
      in skip_columns 1 (at_column w '' '' U))"

definition draw_menu_item :: "window \<Rightarrow> string \<Rightarrow> string \<Rightarrow> ui \<Rightarrow> ui" where
  "draw_menu_item w key name U =
     draw_string_on_menu w name (emit [Attron [A_REVERSE]]
       (draw_string_on_menu w key (emit [Attroff [A_REVERSE]] U)))"

text \<open>\<open>for (int x = 0; x < COLS; ++x) mvaddch(y, x, ' ');\<close>\<close>

definition blank_line :: "window \<Rightarrow> int \<Rightarrow> curses_call list" where
  "blank_line w y = map (\<lambda>x. Mvaddstr y x '' '') [0..COLS w - 1]"

section \<open>The menu of an app\<close>

definition colour_pair :: "colour \<Rightarrow> color_pair" where
  "colour_pair c = (case c of Safe \<Rightarrow> COLOR_PAIR_SAFE | Warn \<Rightarrow> COLOR_PAIR_WARN | Risk \<Rightarrow> COLOR_PAIR_RISK)"

definition draw_permissions :: "permissions \<Rightarrow> curses_call list res" where
  "draw_permissions p =
     bindR (render_permissions p) (\<lambda>(file, net).
       let file_colors = COLOR_PAIR (colour_pair file); net_colors = COLOR_PAIR (colour_pair net) in
       Inr [Attron [file_colors], Addstr ''file '', Attron [A_REVERSE], Addstr '' '', Attroff [file_colors],
            Attron [net_colors], Addstr '' '', Attroff [A_REVERSE], Addstr '' net'', Attroff [net_colors]])"

text \<open>An item is a table with a key and a name; one that is not a table is read as if it were, and a key or name
  that is not a string takes \<open>strlen\<close> to a null pointer.\<close>

type_synonym app_item = "(string option \<times> string option) option"

fun draw_app_items :: "window \<Rightarrow> app_item list \<Rightarrow> ui \<Rightarrow> ui res" where
  "draw_app_items w [] U = Inr U"
| "draw_app_items w (Some (Some key, Some name) # items) U = draw_app_items w items (draw_menu_item w key name U)"
| "draw_app_items w (None # items) U = Inl OutOfBounds"
| "draw_app_items w (_ # items) U = Inl NullPointer"

definition draw_menu ::
    "window \<Rightarrow> string option \<Rightarrow> app_item list option \<Rightarrow> permissions \<Rightarrow> ui \<Rightarrow> ui res" where
  "draw_menu w previous_message menu p U =
     (let U = emit ([Attron [A_BOLD, A_REVERSE], Color_set COLOR_PAIR_MENU] @ blank_line w (LINES w - 1)) U;
          U = draw_menu_item w ''^x'' ''exit'' (column 2 U)
      in bindR (case previous_message of
                  None \<Rightarrow> (case menu of Some items \<Rightarrow> draw_app_items w items U | None \<Rightarrow> Inr U)
                | Some m \<Rightarrow>
                    Inr (emit [Attron [COLOR_PAIR COLOR_PAIR_ERROR], Addstr '' '', Addstr (c_str m), Addstr '' '',
                               Attroff [COLOR_PAIR COLOR_PAIR_ERROR]] U)) (\<lambda>U.
         let U = draw_menu_item w ''^p'' ''perms'' (draw_menu_item w ''^u'' ''edit app'' (column (COLS w - 37) U));
             U = emit [Attrset A_NORMAL, Mvaddstr (LINES w - 1) (COLS w - 12) []] U
         in bindR (draw_permissions p) (\<lambda>cs. Inr (emit (cs @ [Attrset A_NORMAL]) U))))"

text \<open>The colours of the reserved colour pairs, which an app may have changed, are set again.  \<open>yx\<close>: where the app
  has left the cursor.\<close>

definition trusted_pairs :: "curses_call list" where
  "trusted_pairs =
     [Init_pair COLOR_PAIR_ERROR COLOR_ERROR_FOREGROUND COLOR_ERROR_BACKGROUND,
      Init_pair COLOR_PAIR_MENU COLOR_FOREGROUND COLOR_BACKGROUND,
      Init_pair COLOR_PAIR_SAFE COLOR_SAFE_REVERSE COLOR_FOREGROUND,
      Init_pair COLOR_PAIR_WARN COLOR_WARN_REVERSE COLOR_FOREGROUND,
      Init_pair COLOR_PAIR_RISK COLOR_RISK_REVERSE COLOR_FOREGROUND]"

definition render_trusted_teliva_data ::
    "window \<Rightarrow> string option \<Rightarrow> app_item list option \<Rightarrow> permissions \<Rightarrow> int \<times> int \<Rightarrow> ui \<Rightarrow> ui res" where
  "render_trusted_teliva_data w previous_message menu p yx U =
     bindR (draw_menu w previous_message menu p (emit trusted_pairs U)) (\<lambda>U. Inr (emit [Mvaddstr (fst yx) (snd yx) []] U))"

section \<open>Wrapped text\<close>

text \<open>\<open>render_wrapped_text\<close>: the calls, and the last line it reaches.\<close>

fun wrapped_calls :: "int \<Rightarrow> int \<Rightarrow> int \<Rightarrow> int \<Rightarrow> string \<Rightarrow> curses_call list \<times> int" where
  "wrapped_calls y x xmin xmax [] = ([], y)"
| "wrapped_calls y x xmin xmax (c # cs) =
     (if c \<noteq> NL then
        (if x + 1 \<ge> xmax then
           let (r, y') = wrapped_calls (y + 1) xmin xmin xmax cs in (Addch (schar c) # Move (y + 1) xmin # r, y')
         else let (r, y') = wrapped_calls y (x + 1) xmin xmax cs in (Addch (schar c) # r, y'))
      else let (r, y') = wrapped_calls (y + 1) xmin xmin xmax cs in (Move (y + 1) xmin # r, y'))"

definition render_previous_error :: "window \<Rightarrow> string option \<Rightarrow> curses_call list" where
  "render_previous_error w previous_error =
     (case previous_error of
        None \<Rightarrow> []
      | Some e \<Rightarrow>
          [Init_pair COLOR_PAIR_ERROR COLOR_ERROR_FOREGROUND COLOR_ERROR_BACKGROUND,
           Attron [COLOR_PAIR COLOR_PAIR_ERROR], Move (LINES w - 10) (COLS w div 2)] @
          fst (wrapped_calls (LINES w - 10) (COLS w div 2) (COLS w div 2) (COLS w) (c_str e)) @
          [Attroff [COLOR_PAIR COLOR_PAIR_ERROR]])"

fun lua_text_calls :: "int \<Rightarrow> int \<Rightarrow> int \<Rightarrow> int \<Rightarrow> string \<Rightarrow> curses_call list \<times> int" where
  "lua_text_calls y x xmin xmax [] = ([], y)"
| "lua_text_calls y x xmin xmax (c # cs) =
     (let comment = (if c = CHR ''-'' \<and> cs \<noteq> [] \<and> hd cs = CHR ''-''
                     then [Attron [COLOR_PAIR COLOR_PAIR_LUA_COMMENT]] else [])
      in if c \<noteq> NL then
           (if x + 1 \<ge> xmax then
              let (r, y') = lua_text_calls (y + 1) xmin xmin xmax cs
              in (comment @ Addch (schar c) # Move (y + 1) xmin # r, y')
            else let (r, y') = lua_text_calls y (x + 1) xmin xmax cs in (comment @ Addch (schar c) # r, y'))
         else let (r, y') = lua_text_calls (y + 1) xmin xmin xmax cs
           in (Move (y + 1) xmin # Attroff [COLOR_PAIR COLOR_PAIR_LUA_COMMENT] # r, y'))"

definition render_wrapped_lua_text :: "int \<Rightarrow> int \<Rightarrow> int \<Rightarrow> string \<Rightarrow> curses_call list \<times> int" where
  "render_wrapped_lua_text y xmin xmax s =
     (let (r, y') = lua_text_calls y xmin xmin xmax (c_str s) in (Move y xmin # r, y'))"

section \<open>Names of definitions\<close>

definition draw_definition_name :: "string \<Rightarrow> curses_call list" where
  "draw_definition_name name =
     [Attron [COLOR_PAIR COLOR_PAIR_SELECTABLE], Addstr '' '', Addstr (c_str name), Addstr '' '',
      Attroff [COLOR_PAIR COLOR_PAIR_SELECTABLE], Addstr ''  '']"

definition draw_highlighted_definition_name :: "string \<Rightarrow> curses_call list" where
  "draw_highlighted_definition_name name =
     [Attron [A_REVERSE], Addstr '' '', Addstr (c_str name), Addstr '' '', Attroff [A_REVERSE], Addstr ''  '']"

text \<open>The callers come in the order of \<open>lua_next\<close>.\<close>

definition draw_current_definition_name_and_callers :: "string \<Rightarrow> string list option \<Rightarrow> curses_call list" where
  "draw_current_definition_name_and_callers current callers =
     Mvaddstr 0 0 [] # draw_definition_name current @
     (case callers of None \<Rightarrow> []
      | Some cs \<Rightarrow> [Attron [COLOR_PAIR COLOR_PAIR_FADE], Addstr ''callers: '', Attroff [COLOR_PAIR COLOR_PAIR_FADE]] @
          concat (map draw_definition_name cs))"

section \<open>The menus of the screens\<close>

definition up_arrow :: string where "up_arrow = [CHR 0xE2, CHR 0x86, CHR 0x91]"
definition down_arrow :: string where "down_arrow = [CHR 0xE2, CHR 0x86, CHR 0x93]"
definition left_arrow :: string where "left_arrow = [CHR 0xE2, CHR 0x86, CHR 0x90]"
definition right_arrow :: string where "right_arrow = [CHR 0xE2, CHR 0x86, CHR 0x92]"

text \<open>What every menu of the editing environment starts with.\<close>

definition start_menu :: "window \<Rightarrow> ui \<Rightarrow> ui" where
  "start_menu w U =
     column 2 (emit ([Attrset [A_REVERSE]] @ blank_line w (LINES w - 1) @ [Attrset A_NORMAL]) U)"

definition alternate :: "string \<Rightarrow> curses_call list" where
  "alternate s =
     [Attron [COLOR_PAIR COLOR_PAIR_MENU_ALTERNATE], Addstr s, Attroff [COLOR_PAIR COLOR_PAIR_MENU_ALTERNATE]]"

definition comment_item :: "window \<Rightarrow> ui \<Rightarrow> ui" where
  "comment_item w U =
     (let U = skip_columns 10 (emit (alternate ''|'' @ [Addstr ''^-''] @ alternate ''|'' @ [Addstr ''^_ ''])
                (at_column w '' ^/'' (emit [Attroff [A_REVERSE]] U)))
      in emit [Attrset A_NORMAL] (skip_columns 18 (at_column w '' (un)comment line '' (emit [Attron [A_REVERSE]] U))))"

definition abort_item :: "window \<Rightarrow> bool \<Rightarrow> ui \<Rightarrow> ui" where
  "abort_item w previous_error U =
     (if previous_error
      then emit [Attroff [A_BOLD]] (draw_menu_item w ''^c'' ''abort'' (emit [Attron [A_BOLD]] U)) else U)"

definition menu_items :: "window \<Rightarrow> (string \<times> string) list \<Rightarrow> ui \<Rightarrow> ui" where
  "menu_items w items U = fold (\<lambda>(key, name). draw_menu_item w key name) items U"

definition editorMenu :: "window \<Rightarrow> bool \<Rightarrow> ui \<Rightarrow> ui" where
  "editorMenu w previous_error U =
     comment_item w (menu_items w [(''^g'', ''go''), (''^b'', ''big picture''), (''^f'', ''find''),
       (''^h'', ''backspace''), (''^l'', ''end of line'')]
       (abort_item w previous_error (draw_menu_item w ''^x'' ''run'' (start_menu w U))))"

definition editorNonCodeMenu :: "window \<Rightarrow> bool \<Rightarrow> ui \<Rightarrow> ui" where
  "editorNonCodeMenu w previous_error U =
     comment_item w (menu_items w [(''^f'', ''find''), (''^h'', ''backspace''), (''^l'', ''end of line'')]
       (abort_item w previous_error (draw_menu_item w ''^x'' ''back'' (start_menu w U))))"

definition arrow_item :: "window \<Rightarrow> string \<Rightarrow> string \<Rightarrow> ui \<Rightarrow> ui" where
  "arrow_item w arrows name U =
     draw_string_on_menu w name (emit [Attron [A_REVERSE]]
       (skip_columns 5 (at_column w arrows (emit [Attroff [A_REVERSE]] U))))"

definition editorFindMenu :: "window \<Rightarrow> ui \<Rightarrow> ui" where
  "editorFindMenu w U =
     emit [Attrset A_NORMAL]
       (arrow_item w ('' '' @ down_arrow @ ''|'' @ right_arrow @ '' '') ''next''
         (arrow_item w ('' '' @ left_arrow @ ''|'' @ up_arrow @ '' '') ''previous''
           (menu_items w [(''^x'', ''cancel''), (''Enter'', ''submit''), (''^h'', ''backspace''), (''^u'', ''clear'')]
             (start_menu w U))))"

definition editorGoMenu :: "window \<Rightarrow> ui \<Rightarrow> ui" where
  "editorGoMenu w U =
     emit [Attrset A_NORMAL]
       (menu_items w [(''^x'', ''cancel''), (''Enter'', ''submit''), (''^h'', ''backspace''), (''^u'', ''clear'')]
         (start_menu w U))"

definition big_picture_menu :: "window \<Rightarrow> ui \<Rightarrow> ui" where
  "big_picture_menu w U =
     emit [Attrset A_NORMAL]
       (menu_items w [(''^x'', ''go back''), (''^g'', ''go to highlight''), (''Enter'', ''submit''),
          (''^h'', ''backspace''), (''^u'', ''clear''), (''^r'', ''recent changes''), (''^e'', ''recent events'')]
         (start_menu w U))"

definition events_menu :: "window \<Rightarrow> ui \<Rightarrow> ui" where
  "events_menu w U =
     emit [Attrset A_NORMAL]
       (menu_items w [(''^x'', ''go back''), (''Enter'', ''go to highlight'')] (start_menu w U))"

definition permissions_menu :: "window \<Rightarrow> permissions \<Rightarrow> ui \<Rightarrow> ui" where
  "permissions_menu w p U =
     emit [Attrset A_NORMAL]
       (menu_items w
         ((''^x'', ''go back'') #
          (if ask_always p = 0
           then [(''^f'', ''edit file permissions''), (''^a'', ''ask for permission on every file operation'')]
           else [(''^a'', ''stop asking for permission on every file operation'')]) @
          [(''^n'', ''toggle network permissions'')])
         (start_menu w U))"

definition recent_changes_menu :: "window \<Rightarrow> int \<Rightarrow> int \<Rightarrow> ui \<Rightarrow> ui" where
  "recent_changes_menu w cursor history_array_size U =
     (let U = draw_menu_item w ''^x'' ''go back'' (start_menu w U);
          U = at_column w ('' '' @ down_arrow) (emit [Attroff [A_REVERSE]] U);
          U = skip_columns 9 (emit (alternate ''|'' @ [Addstr ''space '']) U);
          U = draw_string_on_menu w ''older'' (emit [Attron [A_REVERSE]] U);
          U = at_column w ('' '' @ up_arrow) (emit [Attroff [A_REVERSE]] U);
          U = skip_columns 23 (emit (alternate ''|'' @ [Addstr ''backspace''] @ alternate ''|'' @
                [Addstr ''delete''] @ alternate ''|'' @ [Addstr ''^h '']) U);
          U = draw_string_on_menu w ''newer'' (emit [Attron [A_REVERSE]] U);
          U = draw_menu_item w ''^e'' ''edit note'' U;
          U = (if cursor < history_array_size then draw_menu_item w ''^u'' ''undo everything after this'' U else U)
      in emit [Attrset A_NORMAL] U)"

section \<open>Menus keep to the last line\<close>

definition menu_ok :: "window \<Rightarrow> ui \<Rightarrow> bool" where
  "menu_ok w U \<longleftrightarrow> list_all (stays_below (LINES w - 1)) (ui_calls U) \<and>
     prefix (ui_calls (start_menu w no_ui)) (ui_calls U)"

named_theorems menu_simps "what the steps of a menu keep"

lemma menu_emit [menu_simps]:
  "menu_ok w U \<Longrightarrow> list_all (stays_below (LINES w - 1)) cs \<Longrightarrow> menu_ok w (emit cs U)"
  by (simp add: menu_ok_def emit_def)

lemma menu_column_ok [menu_simps]:
  "menu_ok w (column x U) = menu_ok w U" "menu_ok w (skip_columns n U) = menu_ok w U"
  by (simp_all add: menu_ok_def column_def skip_columns_def)

lemma menu_string [menu_simps]:
  "menu_ok w U \<Longrightarrow> menu_ok w (at_column w s U)" "menu_ok w U \<Longrightarrow> menu_ok w (draw_string_on_menu w s U)"
  by (simp_all add: at_column_def draw_string_on_menu_def Let_def menu_simps)

lemma menu_item [menu_simps]: "menu_ok w U \<Longrightarrow> menu_ok w (draw_menu_item w key name U)"
  by (simp add: draw_menu_item_def menu_simps)

lemma menu_items_ok [menu_simps]: "menu_ok w U \<Longrightarrow> menu_ok w (menu_items w items U)"
  by (induction items arbitrary: U) (auto simp: menu_items_def menu_simps)

lemma blank_line_below [simp]: "list_all (stays_below y) (blank_line w y)"
  by (simp add: blank_line_def list_all_iff)

lemma start_menu_ok [menu_simps]: "menu_ok w (start_menu w no_ui)"
  by (simp add: menu_ok_def start_menu_def column_def emit_def no_ui_def)

lemma menu_parts [menu_simps]:
  "menu_ok w U \<Longrightarrow> menu_ok w (comment_item w U)" "menu_ok w U \<Longrightarrow> menu_ok w (abort_item w b U)"
  "menu_ok w U \<Longrightarrow> menu_ok w (arrow_item w s name U)"
  by (simp_all add: comment_item_def abort_item_def arrow_item_def alternate_def Let_def menu_simps)

lemma menus_ok:
  "menu_ok w (editorMenu w b no_ui)" "menu_ok w (editorNonCodeMenu w b no_ui)"
  "menu_ok w (editorFindMenu w no_ui)" "menu_ok w (editorGoMenu w no_ui)"
  by (simp_all add: editorMenu_def editorNonCodeMenu_def editorFindMenu_def editorGoMenu_def menu_simps)

context curses_terminal
begin

lemma menu_frame:
  assumes "menu_ok \<lparr>LINES = LINES, COLS = COLS\<rparr> U" "0 < LINES" "0 < COLS" "a < LINES - 1"
  shows "cell (fold exec (ui_calls U) s) (a, b) = cell s (a, b)"
proof -
  let ?w = "\<lparr>LINES = LINES, COLS = COLS\<rparr>"
  obtain cs where "ui_calls U = ui_calls (start_menu ?w no_ui) @ cs"
    using assms(1) by (auto simp: menu_ok_def prefix_def)
  then obtain rest where U: "ui_calls U = Attrset [A_REVERSE] # Mvaddstr (LINES - 1) 0 '' '' # rest"
    using assms(3) by (auto simp: start_menu_def column_def emit_def no_ui_def blank_line_def upto_rec1)
  let ?s = "exec (Mvaddstr (LINES - 1) 0 '' '') (exec (Attrset [A_REVERSE]) s)"
  let ?m = "exec (Move (LINES - 1) 0) (exec (Attrset [A_REVERSE]) s)"
  have m: "cursor ?m = (LINES - 1, 0)" "cell ?m = cell s" "?s = exec (Addstr '' '') ?m"
    using move_in [of "LINES - 1" 0] mvaddstr_in [of "LINES - 1" 0] quiet_exec [of "Attrset [A_REVERSE]" s] assms(2,3)
    by simp_all
  then have "LINES - 1 \<le> fst (cursor ?s)" "cell ?s (a, b) = cell s (a, b)"
    using addstr_below [of ?m "'' ''" a b] assms(4) by simp_all
  moreover have "list_all (stays_below (LINES - 1)) rest" using assms(1) U by (simp add: menu_ok_def)
  ultimately show ?thesis using below_run [of "LINES - 1" rest ?s a b] assms(4) U by simp
qed

end

section \<open>The lamps\<close>

text \<open>What the last columns of the menu show: the word \<open>file\<close>, its lamp, the lamp of the network
  and the word \<open>net\<close>.\<close>

definition lamp_text :: string where
  "lamp_text = ''file    net''"

definition lamp_pen :: "colour \<Rightarrow> colour \<Rightarrow> nat \<Rightarrow> pen" where
  "lamp_pen file net i =
     normal_pen\<lparr>pen_color := colour_pair (if i < 6 then file else net), pen_reverse := (i = 5 \<or> i = 6)\<rparr>"

lemma lamps_paint:
  assumes "draw_permissions p = Inr cs" "render_permissions p = Inr (file, net)"
  shows "list_all paints (cs @ [Attrset A_NORMAL])"
    "painted (cs @ [Attrset A_NORMAL]) normal_pen = map (\<lambda>i. (schar (lamp_text ! i), lamp_pen file net i)) [0..<11]"
proof -
  have cs: "cs = [Attron [COLOR_PAIR (colour_pair file)], Addstr ''file '', Attron [A_REVERSE], Addstr '' '',
      Attroff [COLOR_PAIR (colour_pair file)], Attron [COLOR_PAIR (colour_pair net)], Addstr '' '',
      Attroff [A_REVERSE], Addstr '' net'', Attroff [COLOR_PAIR (colour_pair net)]]"
    using assms by (simp add: draw_permissions_def Let_def)
  show "list_all paints (cs @ [Attrset A_NORMAL])"
    unfolding cs by (simp add: schar_def printable_def)
  show "painted (cs @ [Attrset A_NORMAL]) normal_pen = map (\<lambda>i. (schar (lamp_text ! i), lamp_pen file net i)) [0..<11]"
    unfolding cs by (simp add: normal_pen_def lamp_text_def lamp_pen_def upt_rec)
qed

text \<open>The colours of a lamp.\<close>

definition lamp_colours :: "colour \<Rightarrow> color \<times> color" where
  "lamp_colours c =
     (case c of Safe \<Rightarrow> COLOR_SAFE_REVERSE | Warn \<Rightarrow> COLOR_WARN_REVERSE | Risk \<Rightarrow> COLOR_RISK_REVERSE, COLOR_FOREGROUND)"

fun keeps_pairs :: "curses_call \<Rightarrow> bool" where
  "keeps_pairs (Init_pair c f b) \<longleftrightarrow> False"
| "keeps_pairs _ \<longleftrightarrow> True"

lemma draw_app_items_keep:
  "draw_app_items w items U = Inr U' \<Longrightarrow>
     \<exists>cs. ui_calls U' = ui_calls U @ cs \<and> list_all keeps_pairs cs"
proof (induction w items U rule: draw_app_items.induct)
  case (2 w key name items U)
  obtain cs where cs: "ui_calls U' = ui_calls (draw_menu_item w key name U) @ cs" "list_all keeps_pairs cs"
    using "2.IH" "2.prems" by auto
  have "\<exists>as. ui_calls (draw_menu_item w key name U) = ui_calls U @ as \<and> list_all keeps_pairs as"
    by (simp add: draw_menu_item_def draw_string_on_menu_def at_column_def skip_columns_def emit_def Let_def)
  with cs show ?case by fastforce
qed simp_all

lemma draw_menu_ends:
  assumes "draw_menu w m items p U = Inr U'"
  shows "\<exists>before cs. draw_permissions p = Inr cs \<and> list_all keeps_pairs before \<and>
    ui_calls U' = ui_calls U @ before @ [Attrset A_NORMAL, Mvaddstr (LINES w - 1) (COLS w - 12) []] @ cs @ [Attrset A_NORMAL]"
proof -
  let ?start = "draw_menu_item w ''^x'' ''exit'' (column 2
    (emit ([Attron [A_BOLD, A_REVERSE], Color_set COLOR_PAIR_MENU] @ blank_line w (LINES w - 1)) U))"
  let ?keeps = "\<lambda>V V'. \<exists>cs. ui_calls V' = ui_calls V @ cs \<and> list_all keeps_pairs cs"
  have item: "?keeps V (draw_menu_item w key name V)" for key name V
    by (simp add: draw_menu_item_def draw_string_on_menu_def at_column_def skip_columns_def emit_def Let_def)
  have trans: "?keeps V1 V2 \<Longrightarrow> ?keeps V2 V3 \<Longrightarrow> ?keeps V1 V3" for V1 V2 V3 by force
  obtain U1 cs where U1: "(case m of
                  None \<Rightarrow> (case items of Some items \<Rightarrow> draw_app_items w items ?start | None \<Rightarrow> Inr ?start)
                | Some m \<Rightarrow>
                    Inr (emit [Attron [COLOR_PAIR COLOR_PAIR_ERROR], Addstr '' '', Addstr (c_str m), Addstr '' '',
                               Attroff [COLOR_PAIR COLOR_PAIR_ERROR]] ?start)) = Inr U1"
    and cs: "draw_permissions p = Inr cs"
    and U': "U' = emit (cs @ [Attrset A_NORMAL]) (emit [Attrset A_NORMAL, Mvaddstr (LINES w - 1) (COLS w - 12) []]
      (draw_menu_item w ''^p'' ''perms'' (draw_menu_item w ''^u'' ''edit app'' (column (COLS w - 37) U1))))"
    using assms unfolding draw_menu_def Let_def bindR_Inr_iff by blast
  have "?keeps U (column 2 (emit ([Attron [A_BOLD, A_REVERSE], Color_set COLOR_PAIR_MENU] @ blank_line w (LINES w - 1)) U))"
    by (simp add: column_def emit_def blank_line_def list_all_iff)
  then have "?keeps U ?start" using item trans by blast
  moreover have "?keeps ?start U1"
  proof (cases m)
    case None
    then show ?thesis using U1 draw_app_items_keep by (cases items) auto
  next
    case (Some x)
    then show ?thesis using U1 by (auto simp: emit_def)
  qed
  ultimately have "?keeps U U1" using trans by blast
  moreover have "ui_calls (column (COLS w - 37) U1) = ui_calls U1" by (simp add: column_def)
  ultimately have "?keeps U (column (COLS w - 37) U1)" by metis
  then have "?keeps U (draw_menu_item w ''^p'' ''perms'' (draw_menu_item w ''^u'' ''edit app'' (column (COLS w - 37) U1)))"
    using item trans by blast
  then show ?thesis using cs U' by (auto simp: emit_def)
qed

lemma no_pairs: "list_all keeps_pairs cs \<Longrightarrow> fold pairs_after cs P = P"
proof (induction cs arbitrary: P)
  case (Cons c cs)
  then show ?case by (cases c) simp_all
qed simp

lemma permissions_pairs: "draw_permissions p = Inr cs \<Longrightarrow> list_all keeps_pairs cs"
  by (auto simp: draw_permissions_def bindR_Inr_iff Let_def)

context curses_terminal
begin

lemma lamps_shown:
  assumes "0 < LINES" "12 \<le> COLS" "render_trusted_teliva_data \<lparr>LINES = LINES, COLS = COLS\<rparr> message items p yx no_ui = Inr U"
    "render_permissions p = Inr (file, net)"
  shows "i < 11 \<Longrightarrow> cell (fold exec (ui_calls U) s) (LINES - 1, COLS - 12 + int i) =
    (schar (lamp_text ! i), lamp_pen file net i)"
    and "pairs (fold exec (ui_calls U) s) (colour_pair c) = lamp_colours c"
proof -
  obtain V where V: "draw_menu \<lparr>LINES = LINES, COLS = COLS\<rparr> message items p (emit trusted_pairs no_ui) = Inr V"
    "U = emit [Mvaddstr (fst yx) (snd yx) []] V"
    using assms(3) by (auto simp: render_trusted_teliva_data_def bindR_Inr_iff)
  obtain before cs where cs: "draw_permissions p = Inr cs" "list_all keeps_pairs before"
    and calls: "ui_calls V = trusted_pairs @ before @
      [Attrset A_NORMAL, Mvaddstr (LINES - 1) (COLS - 12) []] @ cs @ [Attrset A_NORMAL]"
    using draw_menu_ends [OF V(1)] by (auto simp: emit_def no_ui_def)
  let ?s = "exec (Mvaddstr (LINES - 1) (COLS - 12) []) (exec (Attrset A_NORMAL) (fold exec before (fold exec trusted_pairs s)))"
  have c: "cursor ?s = (LINES - 1, COLS - 12)" and p: "pen ?s = normal_pen"
    using goto [of "LINES - 1" "COLS - 12"] assms(1,2) by (simp_all add: pen_exec)
  note paint = lamps_paint [OF cs(1) assms(4)]
  have U: "fold exec (ui_calls U) s = exec (Mvaddstr (fst yx) (snd yx) []) (fold exec (cs @ [Attrset A_NORMAL]) ?s)"
    by (simp add: V(2) emit_def calls)
  show "cell (fold exec (ui_calls U) s) (LINES - 1, COLS - 12 + int i) = (schar (lamp_text ! i), lamp_pen file net i)"
    if "i < 11"
    using paint_run [OF c paint(1) refl, of "LINES - 1" "COLS - 12 + int i"] paint(2) p assms(2) that
    unfolding U goto_cells by simp
  have "pairs (fold exec (ui_calls U) s) = fold pairs_after trusted_pairs (pairs s)"
    using no_pairs [OF cs(2)] no_pairs [OF permissions_pairs [OF cs(1)]]
    unfolding pairs_run V(2) emit_def calls by (simp add: calls)
  then show "pairs (fold exec (ui_calls U) s) (colour_pair c) = lamp_colours c"
    by (cases c) (simp_all add: trusted_pairs_def colour_pair_def lamp_colours_def)
qed

end



end
