(* ===== verification/Screens.thy ===== *)
theory Screens
  imports Menus EditorKeys History AuditLog
begin

text \<open>
  What the editor draws, \<open>editorRefreshScreen\<close> in \<^verbatim>\<open>src/src/kilo.c\<close>, and the
  screens of recent changes and events in \<^verbatim>\<open>src/src/teliva.c\<close>, as sequences of curses calls.  The
  properties compare what is left on a terminal with the rows of the editor: the changes of colour
  that the drawing loop saves make no difference, and the cursor stands on the character it is said
  to be on.
\<close>

section \<open>Drawing the rows\<close>

definition LINE_NUMBER_SPACE :: int where
  "LINE_NUMBER_SPACE = 4"

definition editorSyntaxToColorPair :: "hltype \<Rightarrow> color_pair" where
  "editorSyntaxToColorPair hl =
     (case hl of
        HL_COMMENT \<Rightarrow> COLOR_PAIR_LUA_COMMENT
      | HL_MLCOMMENT \<Rightarrow> COLOR_PAIR_LUA_COMMENT
      | HL_KEYWORD1 \<Rightarrow> COLOR_PAIR_LUA_KEYWORD
      | HL_KEYWORD2 \<Rightarrow> COLOR_PAIR_LUA_CONSTANT
      | HL_STRING \<Rightarrow> COLOR_PAIR_LUA_CONSTANT
      | HL_NUMBER \<Rightarrow> COLOR_PAIR_LUA_CONSTANT
      | HL_MATCH \<Rightarrow> COLOR_PAIR_MATCH
      | HL_SELECTABLE \<Rightarrow> COLOR_PAIR_SELECTABLE
      | HL_SELECTABLE_BORDER \<Rightarrow> COLOR_PAIR_FADE
      | _ \<Rightarrow> COLOR_PAIR_NORMAL)"

text \<open>\<open>printf\<close> with \<open>%3d\<close>.\<close>

definition pad3 :: "string \<Rightarrow> string" where
  "pad3 s = replicate (3 - length s) SPC @ s"

definition line_number :: "editorConfig \<Rightarrow> int \<Rightarrow> curses_call list" where
  "line_number E y =
     (let filerow = rowoff E + y - startrow E in
      if filerow \<ge> int (numrows E) then []
      else [Mvaddstr y 0 [], Attron [COLOR_PAIR COLOR_PAIR_FADE], Addstr (pad3 (show_int (filerow + 1)) @ '' ''),
            Attroff [COLOR_PAIR COLOR_PAIR_FADE]])"

text \<open>What stands for a character that cannot be printed; \<open>char\<close> is signed.\<close>

definition nonprint_symbol :: "char \<Rightarrow> int" where
  "nonprint_symbol c =
     schar (if schar c \<le> 26 then char_of ((64 + schar c) mod 256) else CHR ''?'')"

text \<open>The loop over the characters; \<open>None\<close> is a \<open>current_color\<close> of -1.\<close>

fun draw_chars :: "(char \<times> hltype) list \<Rightarrow> color_pair option \<Rightarrow> curses_call list \<times> color_pair option" where
  "draw_chars [] current_color = ([], current_color)"
| "draw_chars ((c, hl) # cs) current_color =
     (if hl = HL_NONPRINT then
        let (r, cc) = draw_chars cs current_color
        in ([Attron [A_REVERSE], Addch (nonprint_symbol c), Attroff [A_REVERSE]] @ r, cc)
      else if hl = HL_NORMAL then
        let (r, cc) = draw_chars cs None
        in ((if current_color \<noteq> None then [Attrset A_NORMAL] else []) @ [Addch (schar c)] @ r, cc)
      else
        let color = editorSyntaxToColorPair hl; (r, cc) = draw_chars cs (Some color)
        in ((if Some color \<noteq> current_color then [Attrset [COLOR_PAIR color]] else []) @ [Addch (schar c)] @ r, cc))"

definition visible :: "editorConfig \<Rightarrow> erow \<Rightarrow> (char \<times> hltype) list res" where
  "visible E r =
     (let len = int (length (r_render r)) - coloff E;
          len = (if len > cols E then cols E else len)
      in if len \<le> 0 then Inr []
         else bindR (natR (coloff E)) (\<lambda>k.
           if k + nat len \<le> length (r_hl r)
           then Inr (zip (take (nat len) (drop k (r_render r))) (take (nat len) (drop k (r_hl r))))
           else Inl OutOfBounds))"

definition draw_row :: "editorConfig \<Rightarrow> int \<Rightarrow> color_pair option \<Rightarrow> (curses_call list \<times> color_pair option) res" where
  "draw_row E y current_color =
     (let filerow = rowoff E + y - startrow E in
      if filerow \<ge> int (numrows E) then Inr ([], current_color)
      else bindR (natR filerow) (\<lambda>k.
           bindR (nthR (erows E) k) (\<lambda>r.
           bindR (visible E r) (\<lambda>chars.
           let (cs, current_color) = draw_chars chars current_color
           in Inr (Mvaddstr y (startcol E) [] # cs, current_color)))))"

fun draw_rows :: "editorConfig \<Rightarrow> int list \<Rightarrow> color_pair option \<Rightarrow> curses_call list res" where
  "draw_rows E [] current_color = Inr []"
| "draw_rows E (y # ys) current_color =
     bindR (draw_row E y current_color) (\<lambda>(cs, current_color).
     bindR (draw_rows E ys current_color) (\<lambda>rest. Inr (cs @ rest)))"

definition editorRefreshScreen ::
    "window \<Rightarrow> string option \<Rightarrow> (ui \<Rightarrow> ui) \<Rightarrow> editorConfig \<Rightarrow> curses_call list res" where
  "editorRefreshScreen w previous_error menu_func E =
     (let ys = [startrow E..endrow E - 1] in
      bindR (draw_rows E ys None) (\<lambda>text.
      bindR (cursor_column E) (\<lambda>x.
      Inr ([Curs_set 0, Mvaddstr (startrow E) 0 [], Clrtobot, Attrset A_NORMAL] @
           concat (map (line_number E) ys) @ text @
           render_previous_error w previous_error @ ui_calls (menu_func no_ui) @
           [Mvaddstr (cy E + startrow E) (int x + LINE_NUMBER_SPACE) [], Curs_set 1]))))"

section \<open>What each character should look like\<close>

definition pen_for :: "hltype \<Rightarrow> pen" where
  "pen_for hl = normal_pen\<lparr>pen_color := (if hl = HL_NORMAL then COLOR_PAIR_NORMAL else editorSyntaxToColorPair hl)\<rparr>"

definition looks :: "char \<times> hltype \<Rightarrow> int \<times> pen \<Rightarrow> bool" where
  "looks d q \<longleftrightarrow> (case d of (c, hl) \<Rightarrow>
     if hl = HL_NONPRINT then fst q = nonprint_symbol c \<and> pen_reverse (snd q)
     else q = (schar c, pen_for hl))"

definition displayable :: "char \<times> hltype \<Rightarrow> bool" where
  "displayable d \<longleftrightarrow> (case d of (c, hl) \<Rightarrow> printable (if hl = HL_NONPRINT then nonprint_symbol c else schar c))"

lemma look_pair [simp]:
  "looks (c, hl) q \<longleftrightarrow> (if hl = HL_NONPRINT then fst q = nonprint_symbol c \<and> pen_reverse (snd q)
     else q = (schar c, pen_for hl))"
  "displayable (c, hl) \<longleftrightarrow> printable (if hl = HL_NONPRINT then nonprint_symbol c else schar c)"
  by (simp_all add: looks_def displayable_def)

text \<open>The pen that \<open>current_color\<close> stands for.\<close>

definition pen_now :: "color_pair option \<Rightarrow> pen" where
  "pen_now cc = normal_pen\<lparr>pen_color := (case cc of None \<Rightarrow> COLOR_PAIR_NORMAL | Some c \<Rightarrow> c)\<rparr>"

lemma draw_chars_look:
  assumes "draw_chars ds cc = (cs, cc')" "list_all displayable ds"
  shows "list_all paints cs" "list_all2 looks ds (painted cs (pen_now cc))" "fold pen_after cs (pen_now cc) = pen_now cc'"
proof -
  have "list_all paints cs \<and> list_all2 looks ds (painted cs (pen_now cc)) \<and> fold pen_after cs (pen_now cc) = pen_now cc'"
    using assms
  proof (induction ds cc arbitrary: cs cc' rule: draw_chars.induct)
    case (2 c hl ds cc)
    show ?case
    proof (cases "hl = HL_NONPRINT")
      case True
      obtain r where r: "draw_chars ds cc = (r, cc')"
        "cs = [Attron [A_REVERSE], Addch (nonprint_symbol c), Attroff [A_REVERSE]] @ r"
        using 2(4) True by (auto split: prod.splits)
      have "(pen_now cc)\<lparr>pen_reverse := True, pen_reverse := False\<rparr> = pen_now cc"
        by (simp add: pen_now_def normal_pen_def)
      then show ?thesis using 2(1) [OF True r(1)] 2(5) True r(2)
        by simp
    next
      case False
      let ?p = "pen_for hl"
      show ?thesis
      proof (cases "hl = HL_NORMAL")
        case True
        obtain r where r: "draw_chars ds None = (r, cc')"
          "cs = (if cc \<noteq> None then [Attrset A_NORMAL] else []) @ [Addch (schar c)] @ r"
          using 2(4) True by (auto split: prod.splits)
        have "pen_now None = ?p" "pen_now None = normal_pen"
          by (simp_all add: pen_now_def pen_for_def True normal_pen_def)
        then show ?thesis using 2(2) [OF False True r(1)] 2(5) False r(2)
          by (cases cc) auto
      next
        case normal: False
        let ?c = "editorSyntaxToColorPair hl"
        obtain r where r: "draw_chars ds (Some ?c) = (r, cc')"
          "cs = (if Some ?c \<noteq> cc then [Attrset [COLOR_PAIR ?c]] else []) @ [Addch (schar c)] @ r"
          using 2(4) False normal by (auto simp: Let_def split: prod.splits)
        have "pen_now (Some ?c) = ?p" "normal_pen\<lparr>pen_color := ?c\<rparr> = ?p"
          by (simp_all add: pen_now_def pen_for_def normal)
        then show ?thesis using 2(3) [OF False normal refl r(1)] 2(5) False r(2)
          by auto
      qed
    qed
  qed simp
  then show "list_all paints cs" "list_all2 looks ds (painted cs (pen_now cc))" "fold pen_after cs (pen_now cc) = pen_now cc'"
    by simp_all
qed

text \<open>The characters a line of the screen should show.\<close>

definition row_chars :: "editorConfig \<Rightarrow> int \<Rightarrow> (char \<times> hltype) list" where
  "row_chars E y =
     (let k = rowoff E + y - startrow E in
      if k < 0 \<or> k \<ge> int (numrows E) then []
      else let r = erows E ! nat k
           in take (nat (cols E)) (drop (nat (coloff E)) (zip (r_render r) (r_hl r))))"

lemma visible_row:
  assumes "length (r_hl r) = length (r_render r)" "0 \<le> coloff E" "0 \<le> cols E"
  shows "visible E r = Inr (take (nat (cols E)) (drop (nat (coloff E)) (zip (r_render r) (r_hl r))))"
  using assms by (auto simp: visible_def natR_def Let_def take_zip drop_zip)

definition drawable :: "editorConfig \<Rightarrow> bool" where
  "drawable E \<longleftrightarrow> 0 \<le> rowoff E \<and> 0 \<le> coloff E \<and> 0 \<le> cols E"

lemma draw_row_returns:
  assumes "ed_inv E" "drawable E" "startrow E \<le> y"
  shows "\<exists>cs cc'. draw_row E y cc = Inr (if rowoff E + y - startrow E < int (numrows E)
      then Mvaddstr y (startcol E) [] # cs else [], cc') \<and> draw_chars (row_chars E y) cc = (cs, cc')"
proof (cases "rowoff E + y - startrow E < int (numrows E)")
  case True
  let ?k = "nat (rowoff E + y - startrow E)"
  have k: "?k < length (erows E)" "0 \<le> rowoff E + y - startrow E"
    using True assms ed_inv_length [OF assms(1)] by (auto simp: drawable_def)
  then have "hl_shape (esyntax E) (erows E ! ?k)" using assms(1) by (auto simp: ed_inv_def rows_inv_def)
  then have "visible E (erows E ! ?k) = Inr (row_chars E y)"
    using visible_row [of "erows E ! ?k" E] assms(2) True k
    by (simp add: hl_shape_def drawable_def row_chars_def Let_def)
  with True k show ?thesis
    by (simp add: draw_row_def natR_def Let_def split: prod.splits)
next
  case False
  then show ?thesis by (simp add: draw_row_def row_chars_def Let_def)
qed

lemma draw_rows_return:
  "ed_inv E \<Longrightarrow> drawable E \<Longrightarrow> \<forall>y \<in> set ys. startrow E \<le> y \<Longrightarrow> \<exists>cs. draw_rows E ys cc = Inr cs"
proof (induction ys arbitrary: cc)
  case (Cons y ys)
  obtain cs cc' where "draw_row E y cc = Inr (cs, cc')"
    using draw_row_returns [OF Cons.prems(1,2), of y cc] Cons.prems(3) by auto
  with Cons.IH [OF Cons.prems(1,2), of cc'] Cons.prems(3) show ?case by auto
qed simp

context curses_terminal
begin

lemma draw_row_cells:
  assumes "ed_inv E" "drawable E" "startrow E \<le> y" "0 \<le> y" "y < LINES - 1" "0 \<le> startcol E" "startcol E < COLS"
    "startcol E + cols E \<le> COLS" "list_all displayable (row_chars E y)"
    "draw_row E y cc = Inr (cs, cc')" "pen s = pen_now cc"
  shows "pen (fold exec cs s) = pen_now cc'" "y' \<noteq> y \<Longrightarrow> cell (fold exec cs s) (y', x') = cell s (y', x')"
    "j < length (row_chars E y) \<Longrightarrow> looks (row_chars E y ! j) (cell (fold exec cs s) (y, startcol E + int j))"
proof -
  let ?ds = "row_chars E y"
  obtain ds where ds: "draw_chars ?ds cc = (ds, cc')"
    and cs: "cs = (if rowoff E + y - startrow E < int (numrows E) then Mvaddstr y (startcol E) [] # ds else [])"
    using draw_row_returns [OF assms(1-3), of cc] assms(10) by auto
  note look = draw_chars_look [OF ds assms(9)]
  have empty: "ds = [] \<and> cc' = cc" if "\<not> rowoff E + y - startrow E < int (numrows E)"
    using ds that by (simp add: row_chars_def)
  let ?s = "exec (Mvaddstr y (startcol E) []) s"
  have g: "cursor ?s = (y, startcol E)" "cell ?s = cell s" "pen ?s = pen_now cc"
    using goto [of y "startcol E" s] assms(4-7,11) by simp_all
  have len: "length (painted ds (pen_now cc)) = length ?ds" using look(2) by (simp add: list_all2_lengthD)
  have "length ?ds \<le> nat (cols E)" by (simp add: row_chars_def Let_def)
  then have "int (length ?ds) \<le> cols E" using assms(2) by (simp add: drawable_def le_nat_iff)
  then have fit: "startcol E + int (length (painted ds (pen ?s))) < COLS \<or>
      startcol E + int (length (painted ds (pen ?s))) = COLS \<and> y + 1 < LINES"
    using assms(5,8) len g(3) by auto
  note run = paint_run [OF g(1) look(1) refl fit]
  show "pen (fold exec cs s) = pen_now cc'"
    using cs look(3) pen_run [of ds ?s] g(3) empty assms(11) by auto
  show "cell (fold exec cs s) (y', x') = cell s (y', x')" if "y' \<noteq> y"
    using cs run [of y' x'] g(2) that by auto
  show "looks (?ds ! j) (cell (fold exec cs s) (y, startcol E + int j))" if "j < length ?ds"
  proof -
    have "rowoff E + y - startrow E < int (numrows E)" using that by (auto simp: row_chars_def Let_def split: if_splits)
    then have "cell (fold exec cs s) (y, startcol E + int j) = painted ds (pen_now cc) ! j"
      using cs run [of y "startcol E + int j"] that len g(3) by auto
    then show ?thesis using list_all2_nthD [OF look(2) that] by simp
  qed
qed

lemma draw_rows_cells:
  assumes "ed_inv E" "drawable E" "\<forall>y \<in> set ys. startrow E \<le> y \<and> 0 \<le> y \<and> y < LINES - 1 \<and> list_all displayable (row_chars E y)"
    "0 \<le> startcol E" "startcol E < COLS" "startcol E + cols E \<le> COLS" "distinct ys"
    "draw_rows E ys cc = Inr cs" "pen s = pen_now cc"
  shows "(y \<notin> set ys \<longrightarrow> cell (fold exec cs s) (y, x) = cell s (y, x)) \<and>
    (y \<in> set ys \<longrightarrow> j < length (row_chars E y) \<longrightarrow>
      looks (row_chars E y ! j) (cell (fold exec cs s) (y, startcol E + int j)))"
  using assms(3,7-)
proof (induction ys arbitrary: cc cs s x)
  case (Cons z ys)
  obtain ds cc' rest where d: "draw_row E z cc = Inr (ds, cc')" "draw_rows E ys cc' = Inr rest" "cs = ds @ rest"
    using Cons.prems(3) by (auto simp: bindR_Inr_iff)
  have z: "startrow E \<le> z" "0 \<le> z" "z < LINES - 1" "list_all displayable (row_chars E z)"
    using Cons.prems(1) by auto
  note row = draw_row_cells [OF assms(1,2) z(1-3) assms(4-6) z(4) d(1) Cons.prems(4)]
  have p: "pen (fold exec ds s) = pen_now cc'" using row(1) .
  have IH: "(y \<notin> set ys \<longrightarrow> cell (fold exec rest (fold exec ds s)) (y, x) = cell (fold exec ds s) (y, x)) \<and>
    (y \<in> set ys \<longrightarrow> j < length (row_chars E y) \<longrightarrow>
      looks (row_chars E y ! j) (cell (fold exec rest (fold exec ds s)) (y, startcol E + int j)))" for x
    using Cons.IH [OF _ _ d(2) p] Cons.prems(1,2) by simp
  show ?case
  proof (cases "y = z")
    case True
    with row(3) [of j] IH [of "startcol E + int j"] Cons.prems(2) d(3) show ?thesis by simp
  next
    case False
    with row(2) [of y x] IH [of x] d(3) show ?thesis by simp
  qed
qed simp

lemma line_numbers_pen: "fold pen_after (concat (map (line_number E) ys)) normal_pen = normal_pen"
proof (induction ys)
  case (Cons y ys)
  have "fold pen_after (line_number E y) normal_pen = normal_pen"
    by (simp add: line_number_def Let_def normal_pen_def)
  with Cons show ?case by simp
qed simp

lemma refresh_cells:
  assumes "ed_inv E" "drawable E" "0 \<le> startrow E" "endrow E \<le> LINES - 1" "0 \<le> startcol E" "startcol E < COLS"
    "startcol E + cols E \<le> COLS" "\<And>y. startrow E \<le> y \<Longrightarrow> y < endrow E \<Longrightarrow> list_all displayable (row_chars E y)"
    "menu_ok \<lparr>LINES = LINES, COLS = COLS\<rparr> (menu no_ui)" "0 < LINES" "0 < COLS" "cursor_column E = Inr c"
  shows "\<exists>cs. editorRefreshScreen \<lparr>LINES = LINES, COLS = COLS\<rparr> None menu E = Inr cs \<and>
    (\<forall>s y j. startrow E \<le> y \<longrightarrow> y < endrow E \<longrightarrow> j < length (row_chars E y) \<longrightarrow>
       looks (row_chars E y ! j) (cell (fold exec cs s) (y, startcol E + int j))) \<and>
    (0 \<le> cy E + startrow E \<longrightarrow> cy E + startrow E < LINES \<longrightarrow> int c + LINE_NUMBER_SPACE < COLS \<longrightarrow>
       (\<forall>s. cursor (fold exec cs s) = (cy E + startrow E, int c + LINE_NUMBER_SPACE)))"
proof -
  let ?ys = "[startrow E..endrow E - 1]" and ?w = "\<lparr>LINES = LINES, COLS = COLS\<rparr>"
  have ys: "\<forall>y \<in> set ?ys. startrow E \<le> y \<and> 0 \<le> y \<and> y < LINES - 1 \<and> list_all displayable (row_chars E y)"
    using assms(3,4,8) by auto
  obtain rows where drawn: "draw_rows E ?ys None = Inr rows"
    using draw_rows_return [OF assms(1,2), of ?ys] by auto
  let ?before = "[Curs_set 0, Mvaddstr (startrow E) 0 [], Clrtobot, Attrset A_NORMAL] @ concat (map (line_number E) ?ys)"
  let ?m = "ui_calls (menu no_ui)" and ?here = "Mvaddstr (cy E + startrow E) (int c + LINE_NUMBER_SPACE) []"
  let ?cs = "?before @ rows @ ?m @ [?here, Curs_set 1]"
  have cs: "editorRefreshScreen ?w None menu E = Inr ?cs"
    using drawn assms(12) by (simp add: editorRefreshScreen_def render_previous_error_def)
  have shown: "looks (row_chars E y ! j) (cell (fold exec ?cs s) (y, startcol E + int j))"
    if "startrow E \<le> y" "y < endrow E" "j < length (row_chars E y)" for s y j
  proof -
    let ?s = "fold exec ?before s"
    have "pen ?s = pen_now None"
      using pen_run [of ?before s] line_numbers_pen [of E ?ys] by (simp add: pen_now_def normal_pen_def)
    then have "looks (row_chars E y ! j) (cell (fold exec rows ?s) (y, startcol E + int j))"
      using draw_rows_cells [OF assms(1,2) ys assms(5-7) _ drawn] that by simp
    moreover have "cell (fold exec ?cs s) (y, startcol E + int j) = cell (fold exec rows ?s) (y, startcol E + int j)"
      using menu_frame [OF assms(9-11)] that(2) assms(4) by (simp add: goto_cells quiet_exec)
    ultimately show ?thesis by simp
  qed
  have "cursor (fold exec ?cs s) = (cy E + startrow E, int c + LINE_NUMBER_SPACE)"
    if "0 \<le> cy E + startrow E" "cy E + startrow E < LINES" "int c + LINE_NUMBER_SPACE < COLS" for s
    using goto(1) [of "cy E + startrow E" "int c + LINE_NUMBER_SPACE"] that
    by (simp add: quiet_exec LINE_NUMBER_SPACE_def)
  with cs shown show ?thesis by blast
qed

end

lemma good_drawable: "good E \<Longrightarrow> ed_inv E \<and> drawable E"
  by (auto simp: good_def drawable_def screen_pos_def)

lemma cursor_column_plain:
  assumes "good E" "r = erows E ! nat (filerow E)" "filerow E < int (numrows E)" "TAB \<notin> set (row_text r)"
  shows "cursor_column E = Inr (nat (cx E))"
proof -
  have col: "screen_col t x = x + length t" if "TAB \<notin> set t" for t x
    using that by (induction t arbitrary: x) auto
  have pos: "0 \<le> filerow E" "0 \<le> coloff E" "0 \<le> cx E" using assms(1) by (auto simp: good_def screen_pos_def file_pos_def)
  let ?seen = "take (nat (cx E)) (drop (nat (coloff E)) (row_text r))"
  have "TAB \<notin> set (?seen @ replicate (nat (cx E) - length ?seen) SPC)"
    using assms(4) by (auto dest: in_set_takeD in_set_dropD)
  from col [OF this, of 0] have c: "screen_col (?seen @ replicate (nat (cx E) - length ?seen) SPC) 0 = nat (cx E)" by simp
  have k: "nat (filerow E) < length (erows E)"
    using pos assms(3) ed_inv_length [of E] assms(1) by (auto simp: good_def)
  show ?thesis
    using pos k assms(3) c [unfolded assms(2)] by (simp add: cursor_column_def row_at_def natR_def Let_def)
qed

section \<open>What is on the screen\<close>

text \<open>The window as the loops of the editor set it up before they draw.\<close>

definition laid_out :: "int \<Rightarrow> int \<Rightarrow> editorConfig \<Rightarrow> bool" where
  "laid_out height width E \<longleftrightarrow> good E \<and> 0 \<le> startrow E \<and> endrow E \<le> height - 1 \<and>
     startcol E = LINE_NUMBER_SPACE \<and> cols E = width - LINE_NUMBER_SPACE \<and>
     (\<forall>y \<in> {startrow E..<endrow E}. list_all displayable (row_chars E y))"

definition editor_menu :: "window \<Rightarrow> (ui \<Rightarrow> ui) \<Rightarrow> bool" where
  "editor_menu w menu \<longleftrightarrow> menu = editorMenu w False \<or> menu = editorNonCodeMenu w False \<or>
     menu = editorFindMenu w \<or> menu = editorGoMenu w"

lemma cursor_column_returns: "good E \<Longrightarrow> \<exists>c. cursor_column E = Inr c"
  using ed_inv_length [of E]
  by (auto simp: cursor_column_def row_at_def natR_def good_def screen_pos_def file_pos_def Let_def)

lemma laid_out_refresh:
  assumes "curses_terminal height width exec cursor pen cell pairs" "laid_out height width E"
    "editor_menu \<lparr>LINES = height, COLS = width\<rparr> menu" "cursor_column E = Inr c"
  shows "\<exists>cs. editorRefreshScreen \<lparr>LINES = height, COLS = width\<rparr> None menu E = Inr cs \<and>
    (\<forall>s y j. startrow E \<le> y \<longrightarrow> y < endrow E \<longrightarrow> j < length (row_chars E y) \<longrightarrow>
       looks (row_chars E y ! j) (cell (fold exec cs s) (y, startcol E + int j))) \<and>
    (0 \<le> cy E + startrow E \<longrightarrow> cy E + startrow E < height \<longrightarrow> int c + LINE_NUMBER_SPACE < width \<longrightarrow>
       (\<forall>s. cursor (fold exec cs s) = (cy E + startrow E, int c + LINE_NUMBER_SPACE)))"
proof -
  have g: "ed_inv E" "drawable E" "0 < cols E" "startrow E < endrow E"
    using assms(2) good_drawable by (auto simp: laid_out_def good_def screen_pos_def)
  moreover have "menu_ok \<lparr>LINES = height, COLS = width\<rparr> (menu no_ui)"
    using assms(3) menus_ok by (auto simp: editor_menu_def)
  ultimately show ?thesis
    using assms(2,4) by (intro curses_terminal.refresh_cells [OF assms(1)]) (auto simp: laid_out_def LINE_NUMBER_SPACE_def)
qed


text \<open>The terminal's cursor stands on the character of the line that the next key acts
  on, in lines without tabs: the cell under it shows the character at the editor's position in the
  file.\<close>

theorem cursor_on_character:
  assumes "curses_terminal height width exec cursor pen cell pairs" "laid_out height width E"
    "editor_menu \<lparr>LINES = height, COLS = width\<rparr> menu"
    "filerow E < int (numrows E)" "r = erows E ! nat (filerow E)" "TAB \<notin> set (row_text r)"
    "r_render r = render_from 0 (row_text r)" "filecol E < int (length (row_text r))"
  shows "\<exists>cs. editorRefreshScreen \<lparr>LINES = height, COLS = width\<rparr> None menu E = Inr cs \<and>
    looks (row_text r ! nat (filecol E), r_hl r ! nat (filecol E)) (cell (fold exec cs s) (cursor (fold exec cs s)))"
proof -
  have good: "good E" using assms(2) by (simp add: laid_out_def)
  then have pos: "0 \<le> filerow E" "0 \<le> coloff E" "0 \<le> cx E" "cx E < cols E" "0 \<le> cy E" "cy E < endrow E - startrow E"
    "0 \<le> startrow E" "endrow E \<le> height - 1" "cols E = width - LINE_NUMBER_SPACE" "startcol E = LINE_NUMBER_SPACE"
    using assms(2) by (auto simp: good_def screen_pos_def file_pos_def laid_out_def)
  from laid_out_refresh [OF assms(1-3) cursor_column_plain [OF good assms(5,4,6)]]
  obtain cs where cs: "editorRefreshScreen \<lparr>LINES = height, COLS = width\<rparr> None menu E = Inr cs"
    "\<And>s y j. startrow E \<le> y \<Longrightarrow> y < endrow E \<Longrightarrow> j < length (row_chars E y) \<Longrightarrow>
       looks (row_chars E y ! j) (cell (fold exec cs s) (y, startcol E + int j))"
    "cursor (fold exec cs s) = (cy E + startrow E, int (nat (cx E)) + LINE_NUMBER_SPACE)"
    using pos by auto
  have render: "render_from n t = t" if "TAB \<notin> set t" for t n
    using that by (induction t arbitrary: n) auto
  let ?y = "startrow E + cy E" and ?j = "nat (cx E)"
  have k: "nat (filerow E) < length (erows E)" using pos assms(4) ed_inv_length [of E] good by (auto simp: good_def)
  then have h: "length (r_hl r) = length (r_render r)"
    using good assms(5) by (auto simp: good_def ed_inv_def rows_inv_def hl_shape_def)
  have fr: "rowoff E + ?y - startrow E = filerow E" by (simp add: filerow_def)
  have row: "row_chars E ?y = take (nat (cols E)) (drop (nat (coloff E)) (zip (row_text r) (r_hl r)))"
    using pos(1) assms(4,5,7) render [OF assms(6), of 0] unfolding row_chars_def fr by (simp add: Let_def)
  have fc: "nat (coloff E) + ?j = nat (filecol E)" "nat (filecol E) < length (row_text r)"
    using pos assms(8) by (auto simp: filecol_def)
  have len: "length (r_hl r) = length (row_text r)" using h assms(7) render [OF assms(6)] by simp
  have j: "?j < length (row_chars E ?y)" using row fc len pos by simp
  have "row_chars E ?y ! ?j = (row_text r ! nat (filecol E), r_hl r ! nat (filecol E))"
    using row fc len pos by simp
  with cs(2) [OF _ _ j] cs(1,3) pos show ?thesis by (auto simp: add.commute)
qed

definition screen_editor :: editorConfig where
  "screen_editor = demo_editor\<lparr>startcol := 4\<rparr>"

lemma good_startcol: "good (E\<lparr>startcol := x\<rparr>) = good E"
  by (simp add: good_def ed_inv_def rows_inv_def file_pos_def cur_len_def screen_pos_def filerow_def
      filecol_def lines_of_def)

lemma screen_laid_out: "laid_out 5 24 screen_editor"
proof -
  have "good screen_editor"
    by (simp add: screen_editor_def good_startcol)
  moreover have "\<forall>y \<in> set [0..3]. list_all displayable (row_chars screen_editor y)" by code_simp
  then have "\<forall>y \<in> {0..<4}. list_all displayable (row_chars screen_editor y)" by auto
  ultimately show ?thesis by (simp add: laid_out_def screen_editor_def demo_editor_def LINE_NUMBER_SPACE_def)
qed

lemma screen_menu: "editor_menu w (editorMenu w False)"
  by (simp add: editor_menu_def)


theorem cursor_on_character_witness:
  "\<exists>cs. editorRefreshScreen \<lparr>LINES = 5, COLS = 24\<rparr> None (editorMenu \<lparr>LINES = 5, COLS = 24\<rparr> False) screen_editor = Inr cs \<and>
     g_cells (fold (grid_exec 5 24) cs blank_grid) (g_cursor (fold (grid_exec 5 24) cs blank_grid)) =
       (schar (CHR ''b''), normal_pen)"
proof -
  let ?r = "erows screen_editor ! 0"
  have "row_text ?r = ''ab''" "r_render ?r = render_from 0 (row_text ?r)" "r_hl ?r ! 1 = HL_NORMAL" by code_simp+
  moreover have "filerow screen_editor = 0" "filecol screen_editor = 1" "numrows screen_editor = 2"
    by (simp_all add: screen_editor_def demo_editor_def filerow_def filecol_def)
  ultimately show ?thesis
    using cursor_on_character [OF grid_terminal.curses_terminal_axioms screen_laid_out screen_menu, of ?r blank_grid]
    by (auto simp: pen_for_def normal_pen_def)
qed

text \<open>A tab is drawn up to the column before the next multiple of eight, but moves the cursor to
  the multiple: after one the cursor stands one column too far right.\<close>

lemma cursor_off_after_tab:
  "screen_col [TAB] 0 = 8 \<and> length (render_from 0 [TAB]) = 7"
  by code_simp

text \<open>Bytes of UTF-8 text are drawn as control characters, or as negative numbers whose sign
  extends into the attributes of the cell.\<close>

lemma nonascii_symbols:
  "nonprint_symbol (CHR 0xC3) = 3 \<and> nonprint_symbol (CHR 0x86) = - 58"
  by code_simp

section \<open>The screen of recent changes\<close>

text \<open>The time of a change: at most 120 characters, without a newline at the end.\<close>

definition change_stamp :: "lua_table \<Rightarrow> curses_call list res" where
  "change_stamp t =
     (case map_of t ''__teliva_timestamp'' of
        None \<Rightarrow> Inr []
      | Some v \<Rightarrow>
          let buffer = take 120 (c_str (lua_tostring v)) in
          if buffer = [] then Inl OutOfBounds
          else Inr [Attron [COLOR_PAIR COLOR_PAIR_FADE],
                    Addstr (''  '' @ (if last buffer = NL then butlast buffer else buffer)),
                    Attroff [COLOR_PAIR COLOR_PAIR_FADE]])"

definition change_note :: "lua_table \<Rightarrow> curses_call list" where
  "change_note t =
     (case map_of t ''__teliva_note'' of
        None \<Rightarrow> []
      | Some v \<Rightarrow> [Attron [COLOR_PAIR COLOR_PAIR_FADE], Addstr (''  -- '' @ c_str (lua_tostring v)),
                   Attroff [COLOR_PAIR COLOR_PAIR_FADE]])"

text \<open>One binding of a change; the flag says that the screen is full.\<close>

definition change_binding ::
    "window \<Rightarrow> lua_table \<Rightarrow> string \<times> lua_value \<Rightarrow> int \<Rightarrow> (curses_call list \<times> int \<times> bool) res" where
  "change_binding w t b y =
     (case b of (k, v) \<Rightarrow>
        if k = ''__teliva_undo'' then
          Inr ([Addstr ''undo to '', Attron [A_BOLD], Addstr (show_int (lua_tointeger v)), Attroff [A_BOLD]], y + 1, False)
        else if is_special_history_key k then Inr ([], y, False)
        else bindR (change_stamp t) (\<lambda>stamp.
          let (contents, y1) = render_wrapped_lua_text (y + 1) 0 (COLS w) (lua_tostring v)
          in Inr ([Addstr k] @ stamp @ change_note t @ contents, y1 + 1, y1 + 1 \<ge> LINES w - 1)))"

fun change_bindings ::
    "window \<Rightarrow> lua_table \<Rightarrow> (string \<times> lua_value) list \<Rightarrow> int \<Rightarrow> (curses_call list \<times> int) res" where
  "change_bindings w t [] y = Inr ([], y)"
| "change_bindings w t (b # bs) y =
     bindR (change_binding w t b y) (\<lambda>(cs, y, full).
       if full then Inr (cs, y)
       else bindR (change_bindings w t bs y) (\<lambda>(rest, y). Inr (cs @ rest, y)))"

fun change_events :: "window \<Rightarrow> lua_table list \<Rightarrow> nat \<Rightarrow> int \<Rightarrow> curses_call list res" where
  "change_events w h 0 y = Inr []"
| "change_events w h (Suc i) y =
     bindR (nthR h i) (\<lambda>t.
     bindR (change_bindings w t t y) (\<lambda>(cs, y').
       let cs = [Attron [A_BOLD], Mvaddstr y 0 (pad3 (show_int (int (Suc i))) @ ''. ''), Attrset A_NORMAL] @ cs in
       if y' + 1 \<ge> LINES w - 1 then Inr cs
       else bindR (change_events w h i (y' + 1)) (\<lambda>rest. Inr (cs @ rest))))"

definition render_recent_changes :: "window \<Rightarrow> nat \<Rightarrow> lua_table list \<Rightarrow> curses_call list res" where
  "render_recent_changes w start_index h =
     bindR (change_events w h start_index 3) (\<lambda>cs.
       Inr ([Clear, Attrset [A_BOLD], Mvaddstr 1 0 ''Recent changes'', Attrset A_NORMAL, Attron [A_REVERSE]] @
            cs @ ui_calls (recent_changes_menu w (int start_index) (int (length h)) no_ui)))"

text \<open>The screen can be drawn for every history whose timestamps are not empty.\<close>

definition stamped :: "lua_table \<Rightarrow> bool" where
  "stamped t \<longleftrightarrow> (case map_of t ''__teliva_timestamp'' of None \<Rightarrow> True | Some v \<Rightarrow> c_str (lua_tostring v) \<noteq> [])"

lemma change_binding_returns: "stamped t \<Longrightarrow> \<exists>r. change_binding w t b y = Inr r"
  by (cases b) (auto simp: change_binding_def change_stamp_def stamped_def Let_def split: option.splits prod.splits)

lemma change_bindings_return: "stamped t \<Longrightarrow> \<exists>r. change_bindings w t bs y = Inr r"
proof (induction bs arbitrary: y)
  case (Cons b bs)
  obtain cs y' full where "change_binding w t b y = Inr (cs, y', full)"
    using change_binding_returns [OF Cons.prems, of w b y] by auto
  with Cons.IH [OF Cons.prems, of y'] show ?case by auto
qed simp

lemma change_events_return:
  "list_all stamped h \<Longrightarrow> n \<le> length h \<Longrightarrow> \<exists>cs. change_events w h n y = Inr cs"
proof (induction n arbitrary: y)
  case (Suc n)
  have "stamped (h ! n)" using Suc.prems by (simp add: list_all_length)
  then obtain cs y' where "change_bindings w (h ! n) (h ! n) y = Inr (cs, y')"
    using change_bindings_return [of "h ! n" w "h ! n" y] by auto
  with Suc.IH [OF Suc.prems(1), of "y' + 1"] Suc.prems show ?case by (auto simp: Let_def)
qed simp

lemma recent_changes_drawn:
  "list_all stamped h \<Longrightarrow> n \<le> length h \<Longrightarrow> \<exists>cs. render_recent_changes w n h = Inr cs"
  using change_events_return [of h n w 3] by (auto simp: render_recent_changes_def)

section \<open>The screen of recent events\<close>

text \<open>One event, in the line \<open>y\<close>; \<open>i\<close> is its slot.\<close>

definition render_event :: "int \<Rightarrow> int \<times> nat \<times> audit_event \<Rightarrow> curses_call list" where
  "render_event cursor d =
     (case d of (y, i, buffer, func) \<Rightarrow>
        [Mvaddstr y 2 []] @
        (if int i = cursor then draw_highlighted_definition_name func else draw_definition_name func) @
        [Mvaddstr y 16 (c_str buffer)])"

definition events_screen :: "window \<Rightarrow> int \<Rightarrow> audit_log \<Rightarrow> curses_call list res" where
  "events_screen w cursor A =
     bindR (render_events (nat (LINES w)) A) (\<lambda>events.
       Inr ([Clear, Attrset [A_BOLD], Mvaddstr 1 0 ''Recent events'', Attrset A_NORMAL] @
            concat (map (render_event cursor) (zip [3..int (length events) + 2] events)) @
            ui_calls (events_menu w no_ui)))"

end
