(* ===== verification/Sandbox.thy ===== *)
theory Sandbox
  imports Permissions AuditLog
begin

text \<open>
  The sandbox: the functions of the Lua library through which an app reaches files
  (\<^verbatim>\<open>io_open\<close> and \<^verbatim>\<open>io_tmpfile\<close> in
  \<^verbatim>\<open>src/src/liolib.c\<close>, \<^verbatim>\<open>os_remove\<close>,
  \<^verbatim>\<open>os_rename\<close> and \<^verbatim>\<open>os_tmpname\<close> in \<^verbatim>\<open>src/src/loslib.c\<close>,
  the loaders of keys and certificates in \<^verbatim>\<open>src/src/luasec/context.c\<close>), the network
  (\<^verbatim>\<open>src/src/luasocket/usocket.c\<close>, the host lookups of
  \<^verbatim>\<open>src/src/luasocket/inet.c\<close>) and the keyboard (\<^verbatim>\<open>Wgetch\<close> in
  \<^verbatim>\<open>src/src/lcurses/window.c\<close>).  The state records what the operating system is asked
  to do and what the user is asked, in one list with the newest event first; what the operating
  system answers is an argument of each operation.
\<close>

section \<open>State\<close>

datatype syscall =
    SysOpen string string
  | SysRemove string
  | SysRename string string
  | SysBind
  | SysConnect
  | SysSendto
  | SysTmpfile
  | SysMkstemp
  | SysLocations "string option" "string option"
  | SysCertificate string
  | SysPrivateKey string
  | SysListen
  | SysResolve string

datatype event =
    Sys syscall
  | Prompt string bool bool

record sandbox =
  audit :: audit_log
  message :: "string option"
  keys :: "int list"
  trace :: "event list"

definition start_sandbox :: "int list \<Rightarrow> sandbox" where
  "start_sandbox ks = \<lparr>audit = empty_log, message = None, keys = ks, trace = []\<rparr>"

definition emit :: "syscall \<Rightarrow> sandbox \<Rightarrow> sandbox" where
  "emit c S = S\<lparr>trace := Sys c # trace S\<rparr>"

definition say :: "string \<Rightarrow> sandbox \<Rightarrow> sandbox" where
  "say m S = S\<lparr>message := Some (take 1023 m)\<rparr>"

definition tmp_prefix :: string where "tmp_prefix = ''teliva_tmp_''"
definition reserved_prefix :: string where "reserved_prefix = ''teliva_''"
definition relative_mark :: string where "relative_mark = ''./''"

text \<open>The question to the permissions, and what it shows the user.\<close>

definition ask :: "permissions \<Rightarrow> string \<Rightarrow> string \<Rightarrow> sandbox \<Rightarrow> (bool \<times> sandbox) res" where
  "ask P filename mode S =
     bindR (file_operation_permitted P filename mode (keys S)) (\<lambda>(b, ks).
       Inr (b, S\<lparr>keys := ks,
         trace := (if ask_always P \<noteq> 0 then [Prompt filename (is_write mode) b] else []) @ trace S\<rparr>))"

section \<open>Files\<close>

definition quoted :: "string \<Rightarrow> string \<Rightarrow> string \<Rightarrow> string" where
  "quoted before f after = before @ [CHR 39] @ f @ [CHR 39] @ after"

definition open_line :: "string \<Rightarrow> string \<Rightarrow> string" where
  "open_line f m = take 1019 (''io.open('' @ [CHR 34] @ f @ [CHR 34] @ '', '' @ [CHR 34] @ m @ [CHR 34] @ '')'')"

text \<open>\<open>ok\<close> tells whether the system call succeeds; the result is whether a file was opened.\<close>

definition io_open ::
    "permissions \<Rightarrow> bool \<Rightarrow> string option \<Rightarrow> string \<Rightarrow> string option \<Rightarrow> sandbox \<Rightarrow> (bool \<times> sandbox) res" where
  "io_open P ok caller filename mode S =
     (let filename = c_str filename;
          mode = (case mode of None \<Rightarrow> ''r'' | Some m \<Rightarrow> c_str m) in
      bindR (append_to_audit_log caller (open_line filename mode) (audit S)) (\<lambda>A.
      let S = S\<lparr>audit := A\<rparr> in
      if starts_with filename tmp_prefix then Inr (ok, emit (SysOpen filename mode) S)
      else if starts_with filename reserved_prefix then
        Inr (False, say (quoted ''app tried to open file '' filename ''; relative paths are never allowed'') S)
      else if contains filename relative_mark then
        Inr (False, say (quoted ''app tried to open file '' filename ''; relative paths are never allowed'') S)
      else bindR (ask P filename mode S) (\<lambda>(allowed, S).
        if allowed then Inr (ok, emit (SysOpen filename mode) S)
        else Inr (False, say (quoted ''app tried to open file '' filename
               ''; adjust its permissions (ctrl-p) if that is expected'') S))))"

definition os_remove ::
    "permissions \<Rightarrow> bool \<Rightarrow> string \<Rightarrow> sandbox \<Rightarrow> (bool \<times> sandbox) res" where
  "os_remove P ok filename S =
     (let filename = c_str filename in
      if starts_with filename tmp_prefix then Inr (ok, emit (SysRemove filename) S)
      else if starts_with filename reserved_prefix then
        Inr (False, say (quoted ''app tried to remove file '' filename
          (''; that'' @ [CHR 39] @ ''s never allowed for filenames starting with '' @ [CHR 39] @ ''teliva_'' @ [CHR 39])) S)
      else if contains filename relative_mark then
        Inr (False, say (quoted ''app tried to remove file '' filename ''; relative paths are never allowed'') S)
      else bindR (ask P filename ''w'' S) (\<lambda>(allowed, S).
        if allowed then Inr (ok, emit (SysRemove filename) S)
        else Inr (False, say (quoted ''app tried to remove file '' filename
               ''; give it write permissions (ctrl-p) if that is expected'') S)))"

text \<open>One of the two chains of checks of \<open>os_rename\<close>: \<open>checked\<close> is the name the test for
  relative paths looks at.\<close>

definition rename_check ::
    "permissions \<Rightarrow> string \<Rightarrow> string \<Rightarrow> string \<Rightarrow> string \<Rightarrow> string \<Rightarrow> sandbox \<Rightarrow> (bool \<times> sandbox) res" where
  "rename_check P what name checked mode access S =
     (if starts_with name tmp_prefix then Inr (True, S)
      else if starts_with name reserved_prefix then
        Inr (False, say (quoted what name
          (''; that'' @ [CHR 39] @ ''s never allowed for filenames starting with '' @ [CHR 39] @ ''teliva_'' @ [CHR 39])) S)
      else if contains checked relative_mark then
        Inr (False, say (quoted what name ''; relative paths are never allowed'') S)
      else bindR (ask P name mode S) (\<lambda>(allowed, S).
        if allowed then Inr (True, S)
        else Inr (False, say (quoted what name (''; give it '' @ access @ '' permissions (ctrl-p) if that is expected'')) S)))"

definition os_rename ::
    "permissions \<Rightarrow> bool \<Rightarrow> string \<Rightarrow> string \<Rightarrow> sandbox \<Rightarrow> (bool \<times> sandbox) res" where
  "os_rename P ok fromname toname S =
     (let fromname = c_str fromname; toname = c_str toname in
      bindR (rename_check P ''app tried to rename file '' fromname fromname ''r'' ''read'' S) (\<lambda>(go, S).
      if \<not> go then Inr (False, S)
      else bindR (rename_check P ''app tried to rename to file '' toname fromname ''w'' ''write'' S) (\<lambda>(go, S).
        if \<not> go then Inr (False, S)
        else Inr (ok, emit (SysRename fromname toname) S))))"

text \<open>Calls that no permission is asked for.  \<open>made\<close>: the name \<open>mkstemp\<close> gave the
  file it created; without one \<open>os.tmpname\<close> raises an error.\<close>

definition io_tmpfile :: "bool \<Rightarrow> sandbox \<Rightarrow> bool \<times> sandbox" where
  "io_tmpfile ok S = (ok, emit SysTmpfile S)"

definition os_tmpname :: "string option \<Rightarrow> sandbox \<Rightarrow> string option \<times> sandbox" where
  "os_tmpname made S = (made, emit SysMkstemp S)"

definition load_locations ::
    "bool \<Rightarrow> string option \<Rightarrow> string option \<Rightarrow> sandbox \<Rightarrow> bool \<times> sandbox" where
  "load_locations ok cafile capath S =
     (ok, emit (SysLocations (map_option c_str cafile) (map_option c_str capath)) S)"

definition load_cert :: "bool \<Rightarrow> string \<Rightarrow> sandbox \<Rightarrow> bool \<times> sandbox" where
  "load_cert ok filename S = (ok, emit (SysCertificate (c_str filename)) S)"

text \<open>The third argument of \<open>loadkey\<close>: a password, a function that gives one, or nothing;
  any other value is an error, here None.\<close>

datatype passwd_arg = PasswdString string | PasswdFunction | PasswdNil | PasswdOther

definition load_key :: "bool \<Rightarrow> string \<Rightarrow> passwd_arg \<Rightarrow> sandbox \<Rightarrow> bool option \<times> sandbox" where
  "load_key ok filename cb S =
     (if cb = PasswdOther then (None, S) else (Some ok, emit (SysPrivateKey (c_str filename)) S))"

section \<open>Network\<close>

definition IO_DONE :: int where "IO_DONE = 0"
definition IO_TIMEOUT :: int where "IO_TIMEOUT = -1"
definition IO_CLOSED :: int where "IO_CLOSED = -2"
definition EINTR :: int where "EINTR = 4"
definition EAGAIN :: int where "EAGAIN = 11"
definition EPIPE :: int where "EPIPE = 32"
definition EPROTOTYPE :: int where "EPROTOTYPE = 91"
definition EINPROGRESS :: int where "EINPROGRESS = 115"

text \<open>\<open>err\<close>: what \<open>bind\<close> fails with, 0 when it succeeds.\<close>

definition socket_bind :: "permissions \<Rightarrow> int \<Rightarrow> sandbox \<Rightarrow> int \<times> sandbox" where
  "socket_bind P err S =
     (if net_permitted P = 0 then
        (IO_CLOSED, say ''app tried to start a server; adjust its permissions (ctrl-p) if that is expected'' S)
      else (if err = 0 then IO_DONE else err, emit SysBind S))"

text \<open>Calls of \<open>connect\<close> until one is not interrupted: \<open>errs\<close> lists what they fail with.\<close>

fun connect_loop :: "int list \<Rightarrow> sandbox \<Rightarrow> (int \<times> sandbox) res" where
  "connect_loop [] S = Inl OutOfFuel"
| "connect_loop (e # es) S =
     (let S = emit SysConnect S in
      if e = 0 then Inr (0, S) else if e = EINTR then connect_loop es S else Inr (e, S))"

definition socket_connect ::
    "permissions \<Rightarrow> bool \<Rightarrow> int list \<Rightarrow> bool \<Rightarrow> int \<Rightarrow> int \<Rightarrow> sandbox \<Rightarrow> (int \<times> sandbox) res" where
  "socket_connect P valid errs zero_timeout wait pending S =
     (if \<not> valid then Inr (IO_CLOSED, S)
      else if net_permitted P = 0 then
        Inr (IO_CLOSED, say ''app tried to connect to a remote server; adjust its permissions (ctrl-p) if that is expected'' S)
      else bindR (connect_loop errs S) (\<lambda>(err, S).
        if err = 0 then Inr (IO_DONE, S)
        else if err \<noteq> EINPROGRESS \<and> err \<noteq> EAGAIN then Inr (err, S)
        else if zero_timeout then Inr (IO_TIMEOUT, S)
        else if wait = IO_CLOSED then Inr (if pending = 0 then IO_DONE else pending, S)
        else Inr (wait, S)))"

text \<open>Rounds of \<open>sendto\<close>: bytes put, or an error and what waiting for the socket then gives.\<close>

fun sendto_loop :: "(nat + int \<times> int) list \<Rightarrow> sandbox \<Rightarrow> (int \<times> nat \<times> sandbox) res" where
  "sendto_loop [] S = Inl OutOfFuel"
| "sendto_loop (r # rs) S =
     (let S = emit SysSendto S in
      case r of
        Inl put \<Rightarrow> Inr (IO_DONE, put, S)
      | Inr (err, wait) \<Rightarrow>
          if err = EPIPE then Inr (IO_CLOSED, 0, S)
          else if err = EPROTOTYPE then sendto_loop rs S
          else if err = EINTR then sendto_loop rs S
          else if err \<noteq> EAGAIN then Inr (err, 0, S)
          else if wait \<noteq> IO_DONE then Inr (wait, 0, S)
          else sendto_loop rs S)"

definition socket_sendto :: "bool \<Rightarrow> (nat + int \<times> int) list \<Rightarrow> sandbox \<Rightarrow> (int \<times> nat \<times> sandbox) res" where
  "socket_sendto valid rounds S =
     (if \<not> valid then Inr (IO_CLOSED, 0, S) else sendto_loop rounds S)"

text \<open>Listening on a socket, and the lookups of host names, which are not checked:
  \<open>found\<close> is what the resolver answers, or its error.  The two that also log themselves share
  \<open>inet_lookup\<close>, \<open>what\<close> being the name in the log; \<open>getnameinfo\<close> takes a host or a
  service (None is a null pointer, printed as the C library prints it) and wants one of them.\<close>

definition socket_listen :: "int \<Rightarrow> sandbox \<Rightarrow> int \<times> sandbox" where
  "socket_listen err S = (if err \<noteq> 0 then err else IO_DONE, emit SysListen S)"

definition lookup_line :: "string \<Rightarrow> string \<Rightarrow> string" where
  "lookup_line what address = take 1019 (''socket.'' @ what @ ''('' @ [CHR 34] @ address @ [CHR 34] @ '')'')"

definition inet_lookup ::
    "string \<Rightarrow> string option \<Rightarrow> int + string list \<Rightarrow> string \<Rightarrow> sandbox \<Rightarrow> ((int + string list) \<times> sandbox) res" where
  "inet_lookup what caller found address S =
     (let address = c_str address in
      bindR (append_to_audit_log caller (lookup_line what address) (audit S)) (\<lambda>A.
      Inr (found, emit (SysResolve address) (S\<lparr>audit := A\<rparr>))))"

definition inet_global_tohostname ::
    "string option \<Rightarrow> int + string list \<Rightarrow> string \<Rightarrow> sandbox \<Rightarrow> ((int + string list) \<times> sandbox) res" where
  "inet_global_tohostname = inet_lookup ''tohostname''"

definition inet_global_toip ::
    "string option \<Rightarrow> int + string list \<Rightarrow> string \<Rightarrow> sandbox \<Rightarrow> ((int + string list) \<times> sandbox) res" where
  "inet_global_toip = inet_lookup ''toip''"

definition inet_global_getaddrinfo ::
    "int + string list \<Rightarrow> string \<Rightarrow> sandbox \<Rightarrow> (int + string list) \<times> sandbox" where
  "inet_global_getaddrinfo found hostname S = (found, emit (SysResolve (c_str hostname)) S)"

definition shown_arg :: "string option \<Rightarrow> string" where
  "shown_arg a = (case a of None \<Rightarrow> ''(null)'' | Some s \<Rightarrow> c_str s)"

definition inet_global_getnameinfo ::
    "string option \<Rightarrow> int + string list \<Rightarrow> string option \<Rightarrow> string option \<Rightarrow> sandbox \<Rightarrow>
      ((int + string list) option \<times> sandbox) res" where
  "inet_global_getnameinfo caller found host serv S =
     bindR (append_to_audit_log caller
       (take 1019 (''socket.getnameinfo('' @ [CHR 34] @ shown_arg host @ [CHR 34] @ '', '' @
         [CHR 34] @ shown_arg serv @ [CHR 34] @ '')'')) (audit S)) (\<lambda>A.
     let S = S\<lparr>audit := A\<rparr> in
     if host = None \<and> serv = None then Inr (None, S)
     else Inr (Some found, emit (SysResolve (case host of None \<Rightarrow> [] | Some h \<Rightarrow> c_str h)) S))"

section \<open>The keyboard\<close>

definition ERR :: int where "ERR = -1"
definition CTRL_X :: int where "CTRL_X = 24"
definition CTRL_U :: int where "CTRL_U = 21"
definition CTRL_P :: int where "CTRL_P = 16"

text \<open>What a call of \<open>getch\<close> by the app comes to; the last three never return to it.\<close>

datatype getch_result =
    NoKey
  | Key int
  | Exit
  | DeveloperMode
  | PermissionsMode

definition character_name :: "char \<Rightarrow> string" where
  "character_name c =
     (if c = NL then ''ENTER'' else if c = TAB then ''TAB'' else if c = SPC then ''SPACE'' else ''UNKNOWN'')"

definition getch_line :: "int \<Rightarrow> string" where
  "getch_line c =
     (let ch = (char_of (nat (c mod 256)) :: char) in
      ''getch() => '' @ (if 0 \<le> c \<and> c < 256 \<and> isspace ch then character_name ch else c_str [ch]))"

fun confirm :: "int list \<Rightarrow> (int \<times> int list) res" where
  "confirm [] = Inl OutOfFuel"
| "confirm (k # ks) = (if k = ERR then confirm ks else Inr (k, ks))"

text \<open>\<open>input\<close> lists what \<open>wgetch\<close> returns; the rest of it is returned.  \<open>in_progress\<close> is
  \<open>editor_view_in_progress\<close>.\<close>

definition Wgetch ::
    "bool \<Rightarrow> string option \<Rightarrow> int list \<Rightarrow> audit_log \<Rightarrow> (getch_result \<times> int list \<times> audit_log) res" where
  "Wgetch in_progress caller input A =
     (case input of
        [] \<Rightarrow> Inl OutOfFuel
      | c # ks \<Rightarrow>
          bindR (append_to_audit_log caller (getch_line c) A) (\<lambda>A.
          if c = ERR then Inr (NoKey, ks, A)
          else if c = CTRL_U \<and> in_progress then Inr (DeveloperMode, ks, A)
          else if c = CTRL_X \<or> c = CTRL_U \<or> c = CTRL_P then
            bindR (confirm ks) (\<lambda>(second, ks).
              if c \<noteq> second then Inr (Key 0, ks, A)
              else if c = CTRL_X then Inr (Exit, ks, A)
              else if c = CTRL_U then Inr (DeveloperMode, ks, A)
              else Inr (PermissionsMode, ks, A))
          else Inr (Key c, ks, A)))"

text \<open>Two more calls an app has: the key it puts back is the next one anybody reads, and
  \<open>mvgetch\<close> reads a key without any of the above.\<close>

definition Wungetch :: "int \<Rightarrow> sandbox \<Rightarrow> sandbox" where
  "Wungetch ch S = S\<lparr>keys := ch # keys S\<rparr>"

definition Wmvgetch :: "int list \<Rightarrow> (getch_result \<times> int list) res" where
  "Wmvgetch input =
     (case input of [] \<Rightarrow> Inl OutOfFuel | c # ks \<Rightarrow> Inr (if c = ERR then NoKey else Key c, ks))"

section \<open>An app running\<close>

text \<open>A step of the app is one call of the library that opens, creates, removes or renames a
  file, looks up a host, or binds, connects, listens on or sends a datagram from a socket.  Calls on a file or a
  socket the app already holds (reading, writing, sending, accepting) are not steps.\<close>

inductive app_step :: "permissions \<Rightarrow> sandbox \<Rightarrow> sandbox \<Rightarrow> bool" for P where
  step_open: "io_open P ok caller f m S = Inr (r, S') \<Longrightarrow> app_step P S S'"
| step_remove: "os_remove P ok f S = Inr (r, S') \<Longrightarrow> app_step P S S'"
| step_rename: "os_rename P ok f g S = Inr (r, S') \<Longrightarrow> app_step P S S'"
| step_bind: "socket_bind P err S = (e, S') \<Longrightarrow> app_step P S S'"
| step_connect: "socket_connect P valid errs z w p S = Inr (e, S') \<Longrightarrow> app_step P S S'"
| step_sendto: "socket_sendto valid rounds S = Inr (e, n, S') \<Longrightarrow> app_step P S S'"
| step_ungetch: "Wungetch ch S = S' \<Longrightarrow> app_step P S S'"
| step_tmpfile: "io_tmpfile ok S = (r, S') \<Longrightarrow> app_step P S S'"
| step_tmpname: "os_tmpname made S = (name, S') \<Longrightarrow> app_step P S S'"
| step_locations: "load_locations ok f d S = (r, S') \<Longrightarrow> app_step P S S'"
| step_cert: "load_cert ok f S = (r, S') \<Longrightarrow> app_step P S S'"
| step_key: "load_key ok f cb S = (q, S') \<Longrightarrow> app_step P S S'"
| step_listen: "socket_listen err S = (e, S') \<Longrightarrow> app_step P S S'"
| step_tohostname: "inet_global_tohostname caller found f S = Inr (ans, S') \<Longrightarrow> app_step P S S'"
| step_toip: "inet_global_toip caller found f S = Inr (ans, S') \<Longrightarrow> app_step P S S'"
| step_getaddrinfo: "inet_global_getaddrinfo found f S = (ans, S') \<Longrightarrow> app_step P S S'"
| step_getnameinfo: "inet_global_getnameinfo caller found h v S = Inr (named, S') \<Longrightarrow> app_step P S S'"

inductive app_run :: "permissions \<Rightarrow> sandbox \<Rightarrow> bool" for P where
  run_start: "app_run P (start_sandbox ks)"
| run_step: "app_run P S \<Longrightarrow> app_step P S S' \<Longrightarrow> app_run P S'"

section \<open>The reference monitor\<close>

text \<open>A file is granted by the predicate of the user, or by an answer to a prompt before.\<close>

definition granted :: "permissions \<Rightarrow> event list \<Rightarrow> string \<Rightarrow> string \<Rightarrow> bool" where
  "granted P past f m \<longleftrightarrow>
     (if ask_always P \<noteq> 0 then Prompt f (is_write m) True \<in> set past
      else permitted_fn P f (ArgBool (is_write m)) = RBool True)"

definition target_ok :: "permissions \<Rightarrow> event list \<Rightarrow> string \<Rightarrow> string \<Rightarrow> bool" where
  "target_ok P past f m \<longleftrightarrow>
     starts_with f tmp_prefix \<or> \<not> starts_with f reserved_prefix \<and> granted P past f m"

definition file_ok :: "permissions \<Rightarrow> event list \<Rightarrow> string \<Rightarrow> string \<Rightarrow> bool" where
  "file_ok P past f m \<longleftrightarrow>
     starts_with f tmp_prefix \<or> \<not> contains f relative_mark \<and> target_ok P past f m"

fun justified :: "permissions \<Rightarrow> event list \<Rightarrow> syscall \<Rightarrow> bool" where
  "justified P past (SysOpen f m) = file_ok P past f m"
| "justified P past (SysRemove f) = file_ok P past f ''w''"
| "justified P past (SysRename f g) = (file_ok P past f ''r'' \<and> target_ok P past g ''w'')"
| "justified P past SysBind = (net_permitted P \<noteq> 0)"
| "justified P past SysConnect = (net_permitted P \<noteq> 0)"
| "justified P past SysSendto = True"
| "justified P past SysTmpfile = True"
| "justified P past SysMkstemp = True"
| "justified P past (SysLocations f d) = True"
| "justified P past (SysCertificate f) = True"
| "justified P past (SysPrivateKey f) = True"
| "justified P past SysListen = True"
| "justified P past (SysResolve host) = True"

fun monitored :: "permissions \<Rightarrow> event list \<Rightarrow> bool" where
  "monitored P [] = True"
| "monitored P (Sys c # past) = (justified P past c \<and> monitored P past)"
| "monitored P (Prompt f w b # past) = monitored P past"

lemma granted_mono: "granted P past f m \<Longrightarrow> set past \<subseteq> set past' \<Longrightarrow> granted P past' f m"
  by (auto simp: granted_def split: if_splits)

lemma file_ok_mono: "file_ok P past f m \<Longrightarrow> set past \<subseteq> set past' \<Longrightarrow> file_ok P past' f m"
  by (auto simp: file_ok_def target_ok_def intro: granted_mono)

lemma ask_grants:
  assumes "ask P f m S = Inr (b, S')"
  shows "b \<Longrightarrow> granted P (trace S') f m" "monitored P (trace S') = monitored P (trace S)"
    "set (trace S) \<subseteq> set (trace S')"
  using assms
  by (auto simp: ask_def file_operation_permitted_def bindR_Inr_iff granted_def
      file_operation_permitted_automatically_def file_operation_permitted_manually_def
      split: if_splits list.splits lua_result.splits)

lemma emit_trace [simp]: "trace (emit c S) = Sys c # trace S"
  by (simp add: emit_def)

lemma say_trace [simp]: "trace (say m S) = trace S"
  by (simp add: say_def)

lemma io_open_monitored:
  assumes "io_open P ok caller f m S = Inr (r, S')" "monitored P (trace S)"
  shows "monitored P (trace S')"
  using assms
  by (auto simp: io_open_def Let_def bindR_Inr_iff file_ok_def target_ok_def ask_grants
      split: if_splits)

lemma os_remove_monitored:
  assumes "os_remove P ok f S = Inr (r, S')" "monitored P (trace S)"
  shows "monitored P (trace S')"
  using assms
  by (auto simp: os_remove_def Let_def bindR_Inr_iff file_ok_def target_ok_def ask_grants
      split: if_splits)

lemma rename_check_grants:
  assumes "rename_check P what f checked m access S = Inr (b, S')"
  shows "b \<Longrightarrow> target_ok P (trace S') f m"
    "b \<Longrightarrow> checked = f \<Longrightarrow> file_ok P (trace S') f m"
    "monitored P (trace S') = monitored P (trace S)"
    "set (trace S) \<subseteq> set (trace S')"
  using assms ask_grants
  by (fastforce simp: rename_check_def bindR_Inr_iff target_ok_def file_ok_def split: if_splits)+

lemma os_rename_monitored:
  assumes "os_rename P ok f g S = Inr (r, S')" "monitored P (trace S)"
  shows "monitored P (trace S')"
proof -
  let ?f = "c_str f" and ?g = "c_str g"
  obtain go S1 where c1: "rename_check P ''app tried to rename file '' ?f ?f ''r'' ''read'' S = Inr (go, S1)"
    using assms(1) by (auto simp: os_rename_def Let_def bindR_Inr_iff)
  show ?thesis
  proof (cases go)
    case False
    with c1 assms rename_check_grants(3) [OF c1] show ?thesis by (simp add: os_rename_def)
  next
    case True
    obtain go2 S2 where c2: "rename_check P ''app tried to rename to file '' ?g ?f ''w'' ''write'' S1 = Inr (go2, S2)"
      using assms(1) c1 True by (auto simp: os_rename_def Let_def bindR_Inr_iff)
    have f: "file_ok P (trace S2) ?f ''r''"
      using rename_check_grants(2) [OF c1 True refl] rename_check_grants(4) [OF c2] by (rule file_ok_mono)
    have m: "monitored P (trace S2)"
      using assms(2) rename_check_grants(3) [OF c1] rename_check_grants(3) [OF c2] by simp
    show ?thesis
    proof (cases go2)
      case False
      with assms(1) c1 c2 True m show ?thesis by (simp add: os_rename_def)
    next
      case go2: True
      then have "S' = emit (SysRename ?f ?g) S2"
        using assms(1) c1 c2 True by (simp add: os_rename_def)
      with f m rename_check_grants(1) [OF c2 go2] show ?thesis by simp
    qed
  qed
qed

lemma socket_bind_monitored:
  "socket_bind P err S = (e, S') \<Longrightarrow> monitored P (trace S) \<Longrightarrow> monitored P (trace S')"
  by (auto simp: socket_bind_def split: if_splits)

lemma connect_loop_monitored:
  "connect_loop errs S = Inr (e, S') \<Longrightarrow> net_permitted P \<noteq> 0 \<Longrightarrow> monitored P (trace S) \<Longrightarrow> monitored P (trace S')"
  by (induction errs S rule: connect_loop.induct) (auto simp: Let_def split: if_splits)

lemma socket_connect_monitored:
  "socket_connect P valid errs z w p S = Inr (e, S') \<Longrightarrow> monitored P (trace S) \<Longrightarrow> monitored P (trace S')"
  by (auto simp: socket_connect_def bindR_Inr_iff split: if_splits dest: connect_loop_monitored)

lemma sendto_loop_monitored:
  "sendto_loop rounds S = Inr (e, n, S') \<Longrightarrow> monitored P (trace S) \<Longrightarrow> monitored P (trace S')"
  by (induction rounds S rule: sendto_loop.induct) (auto simp: Let_def split: if_splits sum.splits)

lemmas unchecked_calls = io_tmpfile_def os_tmpname_def load_locations_def load_cert_def load_key_def
  socket_listen_def

lemmas lookup_calls = inet_global_tohostname_def inet_global_toip_def inet_global_getaddrinfo_def
  inet_global_getnameinfo_def inet_lookup_def

lemma app_step_monitored: "app_step P S S' \<Longrightarrow> monitored P (trace S) \<Longrightarrow> monitored P (trace S')"
proof (induction rule: app_step.induct)
  case (step_sendto valid rounds S e n S')
  then show ?case by (auto simp: socket_sendto_def split: if_splits dest: sendto_loop_monitored)
next
  case (step_ungetch ch S S')
  then show ?case by (auto simp: Wungetch_def)
qed (auto simp: unchecked_calls lookup_calls Let_def bindR_Inr_iff split: if_splits option.splits dest: io_open_monitored os_remove_monitored os_rename_monitored socket_bind_monitored
    socket_connect_monitored)

lemma runs_are_monitored:
  assumes "app_run P S"
  shows "monitored P (trace S)"
  using assms
proof induction
  case (run_start ks)
  show ?case by (simp add: start_sandbox_def)
next
  case (run_step S S')
  then show ?case by (blast intro: app_step_monitored)
qed


definition allow_all :: permissions where
  "allow_all = \<lparr>predicate_body = Some (''return true'' @ [NL]), ask_always = 0, net_permitted = 0,
     permitted_fn = \<lambda>_ _. RBool True\<rparr>"

lemma open_example:
  "io_open allow_all True (Some ''main'') ''data.txt'' None (start_sandbox []) =
     Inr (True, emit (SysOpen ''data.txt'' ''r'')
       ((start_sandbox [])\<lparr>audit := empty_log\<lparr>audit_events :=
          (audit_events empty_log)[0 := Some (open_line ''data.txt'' ''r'', ''main'')], naudit := 1, iaudit := 0\<rparr>\<rparr>))"
proof -
  have n: "\<not> starts_with ''data.txt'' tmp_prefix" "\<not> starts_with ''data.txt'' reserved_prefix"
    "\<not> contains ''data.txt'' relative_mark" "c_str ''data.txt'' = ''data.txt''" by code_simp+
  have a: "append_to_audit_log (Some ''main'') l empty_log = Inr (empty_log\<lparr>audit_events :=
          (audit_events empty_log)[0 := Some (l, ''main'')], naudit := 1, iaudit := 0\<rparr>)" for l
    by (simp add: append_to_audit_log_def empty_log_def next_slot_def Let_def)
  show ?thesis
    unfolding io_open_def n(4) option.case Let_def using n(1-3) a [of "open_line ''data.txt'' ''r''"]
    by (simp add: start_sandbox_def ask_def file_operation_permitted_def allow_all_def
        file_operation_permitted_automatically_def)
qed


lemma monitored_each: "monitored P t \<Longrightarrow> Sys c \<in> set t \<Longrightarrow> \<exists>past. justified P past c"
  by (induction P t rule: monitored.induct) auto

lemma monitored_no_prompts:
  assumes "monitored P t" "Sys c \<in> set t" "ask_always P = 0" "\<And>f w. permitted_fn P f w = RBool False"
    "net_permitted P = 0"
  shows "case c of SysOpen f m \<Rightarrow> starts_with f tmp_prefix | SysRemove f \<Rightarrow> starts_with f tmp_prefix
    | SysRename f g \<Rightarrow> starts_with f tmp_prefix \<and> starts_with g tmp_prefix
    | SysBind \<Rightarrow> False | SysConnect \<Rightarrow> False | _ \<Rightarrow> True"
proof -
  obtain past where j: "justified P past c" using monitored_each [OF assms(1,2)] by blast
  have "\<not> granted P q f m" for q f m using assms(3,4) by (simp add: granted_def)
  with j assms(5) show ?thesis by (cases c) (auto simp: file_ok_def target_ok_def)
qed


text \<open>What an app can do without any permission: each of these operations asks neither the
  permissions nor the user.  It makes files (\<open>io.tmpfile\<close>, \<open>os.tmpname\<close>), lets the TLS
  library read a file at any path (\<open>locations\<close>, \<open>loadcert\<close>, \<open>loadkey\<close>), serves on a port
  the system chooses, and tells a name server any string.\<close>

lemma tmpfile_not_checked:
  "io_tmpfile ok S = (ok, emit SysTmpfile S)" "os_tmpname made S = (made, emit SysMkstemp S)"
  by (simp_all add: unchecked_calls)

lemma certificates_not_checked:
  "trace (snd (load_locations ok (Some f) None S)) = Sys (SysLocations (Some (c_str f)) None) # trace S"
  "trace (snd (load_cert ok f S)) = Sys (SysCertificate (c_str f)) # trace S"
  "cb \<noteq> PasswdOther \<Longrightarrow> trace (snd (load_key ok f cb S)) = Sys (SysPrivateKey (c_str f)) # trace S"
  by (simp_all add: unchecked_calls)

lemma listen_not_checked: "socket_listen 0 S = (IO_DONE, emit SysListen S)"
  by (simp add: socket_listen_def)

lemma lookups_not_checked:
  assumes "log_of xs (audit S)"
  shows "\<exists>S'. inet_global_toip (Some caller) found host S = Inr (found, S') \<and>
    trace S' = Sys (SysResolve (c_str host)) # trace S \<and>
    log_of (xs @ [(lookup_line ''toip'' (c_str host), caller)]) (audit S')"
  using log_of_append [OF assms, of caller "lookup_line ''toip'' (c_str host)"]
  by (auto simp: lookup_calls Let_def emit_def)

text \<open>\<open>getaddrinfo\<close> alone also leaves no trace in the log of events.\<close>

lemma getaddrinfo_not_logged:
  "audit (snd (inet_global_getaddrinfo found host S)) = audit S"
  "trace (snd (inet_global_getaddrinfo found host S)) = Sys (SysResolve (c_str host)) # trace S"
  by (simp_all add: lookup_calls emit_def)

text \<open>A datagram is sent whatever the permissions are.\<close>

lemma datagram_not_checked:
  "socket_sendto True [Inl n] S = Inr (IO_DONE, n, emit SysSendto S)"
  by (simp add: socket_sendto_def)

text \<open>An app can answer the prompt that protects the user's files: it puts the answer back as a
  key, and the prompt reads it.\<close>

lemma app_answers_prompt:
  assumes "ask_always P \<noteq> 0" "\<not> starts_with (c_str f) tmp_prefix" "\<not> starts_with (c_str f) reserved_prefix"
    "\<not> contains (c_str f) relative_mark"
  shows "\<exists>S'. os_remove P True f (Wungetch 121 S) = Inr (True, S') \<and>
    trace S' = [Sys (SysRemove (c_str f)), Prompt (c_str f) True True] @ trace S"
  using assms
  by (simp add: os_remove_def Wungetch_def ask_def file_operation_permitted_def
      file_operation_permitted_manually_def is_write_def Let_def)

text \<open>\<open>mvgetch\<close> gives the app every key, those of the menu included.\<close>

lemma mvgetch_hands_over_menu_keys: "Wmvgetch [CTRL_X] = Inr (Key CTRL_X, [])"
  by (simp add: Wmvgetch_def CTRL_X_def ERR_def)

text \<open>A rename may move a file to a name with \<open>./\<close> in it: the second test looks at the first
  name again.\<close>

lemma rename_escapes_directory:
  "\<exists>S'. os_rename allow_all True ''data.txt'' ''../../data.txt'' (start_sandbox []) = Inr (True, S') \<and>
     trace S' = [Sys (SysRename ''data.txt'' ''../../data.txt'')]"
proof -
  have n: "\<not> starts_with ''data.txt'' tmp_prefix" "\<not> starts_with ''data.txt'' reserved_prefix"
    "\<not> contains ''data.txt'' relative_mark" "c_str ''data.txt'' = ''data.txt''"
    "\<not> starts_with ''../../data.txt'' tmp_prefix" "\<not> starts_with ''../../data.txt'' reserved_prefix"
    "c_str ''../../data.txt'' = ''../../data.txt''" by code_simp+
  show ?thesis
    unfolding os_rename_def n(4,7) Let_def rename_check_def using n(1-3,5,6)
    by (simp add: start_sandbox_def ask_def file_operation_permitted_def allow_all_def
        file_operation_permitted_automatically_def)
qed

text \<open>The prefix \<open>teliva_tmp_\<close> is all that is looked at.\<close>

lemma tmp_prefix_escapes_directory:
  "\<exists>S'. os_remove P True ''teliva_tmp_/../../data.txt'' S = Inr (True, S') \<and>
     trace S' = Sys (SysRemove ''teliva_tmp_/../../data.txt'') # trace S"
proof -
  have n: "starts_with ''teliva_tmp_/../../data.txt'' tmp_prefix"
    "c_str ''teliva_tmp_/../../data.txt'' = ''teliva_tmp_/../../data.txt''" by code_simp+
  then show ?thesis unfolding os_remove_def n(2) Let_def by simp
qed

section \<open>What is logged, and what the app is told\<close>

definition calls_of :: "event list \<Rightarrow> syscall list" where
  "calls_of t = List.map_filter (\<lambda>e. case e of Sys c \<Rightarrow> Some c | Prompt _ _ _ \<Rightarrow> None) t"

lemma calls_of_simps [simp]:
  "calls_of [] = []" "calls_of (Sys c # t) = c # calls_of t" "calls_of (Prompt f w b # t) = calls_of t"
  by (simp_all add: calls_of_def List.map_filter_simps)

lemma ask_frame:
  assumes "ask P f m S = Inr (b, S')"
  shows "calls_of (trace S') = calls_of (trace S)" "message S' = message S" "audit S' = audit S"
  using assms by (auto simp: ask_def bindR_Inr_iff)

text \<open>Every call of \<open>io.open\<close> from a named function is logged before anything
  else, whether it is allowed or not, and ends in one of two ways: one system call, with the
  result of it and no message, or no system call, a failure, and a message for the user that
  names the file.\<close>

theorem open_logs_then_opens_or_reports:
  assumes "log_of xs (audit S)" "io_open P ok (Some caller) f (Some m) S = Inr (r, S')"
  shows "log_of (xs @ [(open_line (c_str f) (c_str m), caller)]) (audit S') \<and>
    (calls_of (trace S') = SysOpen (c_str f) (c_str m) # calls_of (trace S) \<and> r = ok \<and> message S' = message S \<or>
     calls_of (trace S') = calls_of (trace S) \<and> \<not> r \<and>
       (\<exists>why. message S' = Some (take 1023 (quoted ''app tried to open file '' (c_str f) why))))"
proof -
  obtain A where A: "append_to_audit_log (Some caller) (open_line (c_str f) (c_str m)) (audit S) = Inr A"
      "log_of (xs @ [(open_line (c_str f) (c_str m), caller)]) A"
    using log_of_append [OF assms(1)] by blast
  let ?S = "S\<lparr>audit := A\<rparr>"
  consider (sys) "S' = emit (SysOpen (c_str f) (c_str m)) ?S" "r = ok"
    | (no) why where "S' = say (quoted ''app tried to open file '' (c_str f) why) ?S" "\<not> r"
    | (asked) b S1 why where "ask P (c_str f) (c_str m) ?S = Inr (b, S1)"
        "b \<and> S' = emit (SysOpen (c_str f) (c_str m)) S1 \<and> r = ok \<or>
         \<not> b \<and> S' = say (quoted ''app tried to open file '' (c_str f) why) S1 \<and> \<not> r"
    using assms(2) A(1) unfolding io_open_def
    by (auto simp: Let_def bindR_Inr_iff split: if_splits)
  then show ?thesis
  proof cases
    case asked
    with ask_frame [OF asked(1)] A(2) show ?thesis by (auto simp: emit_def say_def)
  qed (use A(2) in \<open>auto simp: emit_def say_def\<close>)
qed

section \<open>The menu keys\<close>

lemma confirm_skips: "k \<noteq> ERR \<Longrightarrow> confirm (replicate n ERR @ k # ks) = Inr (k, ks)"
  by (induction n) auto

definition menu_keys :: "int set" where
  "menu_keys = {CTRL_X, CTRL_U, CTRL_P}"

text \<open>An app cannot take over the keys of Teliva's menu: one of them typed twice,
  however often polling finds no key in between, leads to the exit, to the editor or to the
  permissions (and is logged), and whatever is typed, no call of \<open>getch\<close> returns one of them to
  the app (\<open>mvgetch\<close> does).\<close>

theorem menu_keys_reach_teliva:
  assumes "log_of xs A" "c \<in> menu_keys"
  shows "\<exists>r rest A'. Wgetch in_progress (Some caller) (c # replicate n ERR @ c # ks) A = Inr (r, rest, A') \<and>
      r = (if c = CTRL_X then Exit else if c = CTRL_U then DeveloperMode else PermissionsMode) \<and>
      log_of (xs @ [(getch_line c, caller)]) A' \<and>
      Wgetch in_progress who input B \<noteq> Inr (Key c, rest', B')"
proof -
  obtain A1 where A: "append_to_audit_log (Some caller) (getch_line c) A = Inr A1"
      "log_of (xs @ [(getch_line c, caller)]) A1" using log_of_append [OF assms(1)] by blast
  have c: "c \<noteq> ERR" "c \<noteq> 0" "CTRL_X \<noteq> CTRL_U" "CTRL_X \<noteq> CTRL_P" "CTRL_U \<noteq> CTRL_P"
    using assms(2) by (auto simp: menu_keys_def CTRL_X_def CTRL_U_def CTRL_P_def ERR_def)
  have "Wgetch in_progress who input B \<noteq> Inr (Key c, rest', B')"
    using c assms(2)
    by (auto simp: Wgetch_def menu_keys_def bindR_Inr_iff split: list.splits if_splits)
  with A c confirm_skips [OF c(1), of n ks] assms(2) show ?thesis
    by (auto simp: Wgetch_def menu_keys_def)
qed

definition denied :: permissions where
  "denied = \<lparr>predicate_body = Some default_body, ask_always = 0, net_permitted = 0,
     permitted_fn = \<lambda>_ _. RBool False\<rparr>"

lemma denied_loaded:
  "load_permissions_from_user_configuration small_lua ''a.tlv'' None = Inr denied"
  "permissions_view small_lua [PermQuit] denied = Inr (True, denied)"
  "permissions_summary denied = Inr CannotAccessOrCommunicate"
proof -
  have "small_lua (projr (predicate_chunk default_body)) = Some (\<lambda>_ _. RBool False)"
    by (rule default_compiles [OF small_lua_ok])
  then show "load_permissions_from_user_configuration small_lua ''a.tlv'' None = Inr denied"
    by (simp add: load_permissions_from_user_configuration_def load_file_operations_predicate_def
        chunk_default validate_file_operations_predicate_def initial_permissions_def denied_def)
  have "render_permissions_screen denied = Inr (Some RejectsAll, False, CannotAccessOrCommunicate)"
    by code_simp
  then show "permissions_view small_lua [PermQuit] denied = Inr (True, denied)" by simp
  show "permissions_summary denied = Inr CannotAccessOrCommunicate" by code_simp
qed

lemma remove_example:
  "os_remove denied True ''teliva_tmp_1'' (start_sandbox []) =
     Inr (True, emit (SysRemove ''teliva_tmp_1'') (start_sandbox []))"
proof -
  have n: "starts_with ''teliva_tmp_1'' tmp_prefix" "c_str ''teliva_tmp_1'' = ''teliva_tmp_1''" by code_simp+
  then show ?thesis unfolding os_remove_def n(2) Let_def by simp
qed


theorem open_logs_then_opens_or_reports_witness:
  "\<exists>S'. io_open allow_all True (Some ''main'') ''data.txt'' (Some ''w'') (start_sandbox []) = Inr (True, S') \<and>
     log_of [(open_line ''data.txt'' ''w'', ''main'')] (audit S') \<and>
     calls_of (trace S') = [SysOpen ''data.txt'' ''w'']"
proof -
  have n: "\<not> starts_with ''data.txt'' tmp_prefix" "\<not> starts_with ''data.txt'' reserved_prefix"
    "\<not> contains ''data.txt'' relative_mark" "c_str ''data.txt'' = ''data.txt''" "c_str ''w'' = ''w''" by code_simp+
  obtain A where "append_to_audit_log (Some ''main'') (open_line ''data.txt'' ''w'') empty_log = Inr A"
    using log_of_append [OF log_of_empty] by blast
  then obtain S' where o: "io_open allow_all True (Some ''main'') ''data.txt'' (Some ''w'') (start_sandbox []) = Inr (True, S')"
    unfolding io_open_def n(4) option.case n(5) Let_def using n(1-3)
    by (simp add: start_sandbox_def ask_def file_operation_permitted_def allow_all_def
        file_operation_permitted_automatically_def)
  have l: "log_of [] (audit (start_sandbox []))" by (simp add: start_sandbox_def log_of_empty)
  from open_logs_then_opens_or_reports [OF l o] o show ?thesis
    by (auto simp: n(4,5) start_sandbox_def)
qed

theorem menu_keys_reach_teliva_witness:
  "\<exists>rest A'. Wgetch False (Some ''main'') [CTRL_X, ERR, ERR, CTRL_X] empty_log = Inr (Exit, rest, A')"
  using menu_keys_reach_teliva [OF log_of_empty, of CTRL_X False "''main''" 2 "[]" None "[]"
      empty_log "[]" empty_log]
  by (auto simp: menu_keys_def numeral_2_eq_2)

end
