(* ===== verification/SocketBuffer.thy ===== *)
theory SocketBuffer
  imports Complex_Main Sandbox
begin

text \<open>
  Buffered input and output of sockets: \<^verbatim>\<open>src/src/luasocket/buffer.c\<close> on \<^verbatim>\<open>socket_recv\<close> and \<^verbatim>\<open>socket_send\<close>
  of \<^verbatim>\<open>src/src/luasocket/usocket.c\<close>.  The operating system is a list of the results of its calls; waiting
  (\<^verbatim>\<open>socket_waitfd\<close>) and the time it takes are part of these results.
\<close>

section \<open>System calls\<close>

text \<open>
  What the next \<^verbatim>\<open>recv\<close> gives: bytes (none when the other side has closed), or an error with what
  \<^verbatim>\<open>socket_waitfd\<close> gives if the program waits after it.  Bytes beyond the room in the call stay.  After the end
  of the list the connection is closed.
\<close>

datatype recv_result = Arrived string | Failed int int

fun socket_recv :: "bool \<Rightarrow> nat \<Rightarrow> recv_result list \<Rightarrow> int \<times> string \<times> recv_result list" where
  "socket_recv invalid n [] = (IO_CLOSED, [], [])"
| "socket_recv invalid n (Arrived d # rs) =
     (if invalid then (IO_CLOSED, [], Arrived d # rs)
      else if d = [] then (IO_CLOSED, [], rs)
      else if length d \<le> n then (IO_DONE, d, rs)
      else (IO_DONE, take n d, Arrived (drop n d) # rs))"
| "socket_recv invalid n (Failed err w # rs) =
     (if invalid then (IO_CLOSED, [], Failed err w # rs)
      else if err = EINTR then socket_recv invalid n rs
      else if err \<noteq> EAGAIN then (err, [], rs)
      else if w \<noteq> IO_DONE then (w, [], rs)
      else socket_recv invalid n rs)"

text \<open>What the next \<^verbatim>\<open>send\<close> gives: how many bytes at most it takes, or an error.\<close>

datatype send_result = Taken nat | SendFailed int int

fun socket_send :: "bool \<Rightarrow> string \<Rightarrow> send_result list \<Rightarrow> int \<times> nat \<times> send_result list" where
  "socket_send invalid data [] = (IO_CLOSED, 0, [])"
| "socket_send invalid data (Taken n # rs) =
     (if invalid then (IO_CLOSED, 0, Taken n # rs) else (IO_DONE, min n (length data), rs))"
| "socket_send invalid data (SendFailed err w # rs) =
     (if invalid then (IO_CLOSED, 0, SendFailed err w # rs)
      else if err = EPIPE then (IO_CLOSED, 0, rs)
      else if err = EPROTOTYPE then socket_send invalid data rs
      else if err = EINTR then socket_send invalid data rs
      else if err \<noteq> EAGAIN then (err, 0, rs)
      else if w \<noteq> IO_DONE then (w, 0, rs)
      else socket_send invalid data rs)"

text \<open>The message for an error; none where nothing went wrong.\<close>

definition io_strerror :: "int \<Rightarrow> string option" where
  "io_strerror err =
     (if err = IO_DONE then None
      else if err = IO_CLOSED then Some ''closed''
      else if err = IO_TIMEOUT then Some ''timeout''
      else Some ''unknown error'')"

section \<open>The buffer\<close>

definition BUF_SIZE :: nat where "BUF_SIZE = 8192"
definition STEPSIZE :: nat where "STEPSIZE = 8192"

text \<open>\<open>birthday\<close> is when it was made, \<open>buf_data\<close> what the last \<^verbatim>\<open>recv\<close> wrote; \<open>wire\<close> is what has been sent.\<close>

record p_buffer =
  birthday :: real
  buf_first :: nat
  buf_last :: nat
  buf_data :: string
  buf_received :: nat
  buf_sent :: nat
  invalid :: bool
  incoming :: "recv_result list"
  outgoing :: "send_result list"
  wire :: string

definition buffer_init :: "real \<Rightarrow> bool \<Rightarrow> recv_result list \<Rightarrow> send_result list \<Rightarrow> p_buffer" where
  "buffer_init now inval ins outs =
     \<lparr>birthday = now, buf_first = 0, buf_last = 0, buf_data = [], buf_received = 0, buf_sent = 0, invalid = inval,
      incoming = ins, outgoing = outs, wire = []\<rparr>"

text \<open>The statistics of a socket: bytes received and sent, and its age.\<close>

definition buffer_meth_getstats :: "real \<Rightarrow> p_buffer \<Rightarrow> nat \<times> nat \<times> real" where
  "buffer_meth_getstats now buf = (buf_received buf, buf_sent buf, now - birthday buf)"

definition buffer_meth_setstats ::
  "real \<Rightarrow> nat option \<Rightarrow> nat option \<Rightarrow> real option \<Rightarrow> p_buffer \<Rightarrow> nat \<times> p_buffer"
where
  "buffer_meth_setstats now received sent age buf =
     (let buf = buf\<lparr>buf_received := (case received of None \<Rightarrow> buf_received buf | Some n \<Rightarrow> n),
                    buf_sent := (case sent of None \<Rightarrow> buf_sent buf | Some n \<Rightarrow> n)\<rparr>
      in (1, case age of None \<Rightarrow> buf | Some a \<Rightarrow> buf\<lparr>birthday := now - a\<rparr>))"

lemma stats_are_read_back:
  "buffer_meth_getstats now (snd (buffer_meth_setstats now (Some r) (Some s) (Some a) buf)) = (r, s, a)"
  by (simp add: buffer_meth_getstats_def buffer_meth_setstats_def Let_def)

definition buffer_isempty :: "p_buffer \<Rightarrow> bool" where
  "buffer_isempty b \<longleftrightarrow> buf_first b \<ge> buf_last b"

definition buffer_skip :: "p_buffer \<Rightarrow> nat \<Rightarrow> p_buffer" where
  "buffer_skip b count =
     (let b = b\<lparr>buf_received := buf_received b + count, buf_first := buf_first b + count\<rparr>
      in if buffer_isempty b then b\<lparr>buf_first := 0, buf_last := 0\<rparr> else b)"

text \<open>The bytes in the buffer; a slice that does not lie in the data would be a read out of bounds.\<close>

definition buffer_get :: "p_buffer \<Rightarrow> (int \<times> string \<times> p_buffer) res" where
  "buffer_get b =
     (let (err, b) =
        (if buffer_isempty b then
           (case socket_recv (invalid b) BUF_SIZE (incoming b) of (err, got, ins) \<Rightarrow>
              (err, b\<lparr>buf_data := got, buf_first := 0, buf_last := length got, incoming := ins\<rparr>))
         else (IO_DONE, b))
      in if buf_last b > length (buf_data b) then Inl OutOfBounds
         else Inr (err, take (buf_last b - buf_first b) (drop (buf_first b) (buf_data b)), b))"

text \<open>A measure for the loops: every round takes bytes or a result away.\<close>

fun result_size :: "recv_result \<Rightarrow> nat" where
  "result_size (Arrived d) = length d + 1"
| "result_size (Failed e w) = 1"

definition pending :: "p_buffer \<Rightarrow> nat" where
  "pending b = (buf_last b - buf_first b) + sum_list (map result_size (incoming b))"

lemma socket_recv_pending:
  "socket_recv inval n rs = (err, got, rs') \<Longrightarrow> err = IO_DONE \<Longrightarrow> 0 < n \<Longrightarrow>
     length got + sum_list (map result_size rs') \<le> sum_list (map result_size rs) \<and> length got \<le> n \<and>
     sum_list (map result_size rs') < sum_list (map result_size rs)"
proof (induction inval n rs rule: socket_recv.induct)
  case (2 inval n d rs)
  then show ?case by (cases d) (auto simp: IO_DONE_def IO_CLOSED_def split: if_splits)
qed (auto simp: IO_DONE_def IO_CLOSED_def split: if_splits)

lemma buffer_get_pending:
  assumes "buffer_get b = Inr (err, data, b')" "err = IO_DONE"
  shows "pending (buffer_skip b' (length data)) < pending b"
proof (cases "buffer_isempty b")
  case False
  then have b: "b' = b" "length data = buf_last b - buf_first b" "buf_first b < buf_last b"
    using assms(1) by (auto simp: buffer_get_def buffer_isempty_def split: if_splits)
  then show ?thesis by (simp add: pending_def buffer_skip_def buffer_isempty_def)
next
  case True
  obtain e got ins where r: "socket_recv (invalid b) BUF_SIZE (incoming b) = (e, got, ins)" by (metis prod_cases3)
  then have b: "b' = b\<lparr>buf_data := got, buf_first := 0, buf_last := length got, incoming := ins\<rparr>" "data = got" "e = err"
    using True assms(1) by (auto simp: buffer_get_def split: if_splits)
  have "sum_list (map result_size ins) < sum_list (map result_size (incoming b))"
    using socket_recv_pending [OF r] assms(2) b(3) by (simp add: BUF_SIZE_def)
  with b True show ?thesis by (simp add: pending_def buffer_skip_def buffer_isempty_def Let_def)
qed

section \<open>Receiving\<close>

function recvline :: "p_buffer \<Rightarrow> string \<Rightarrow> (int \<times> string \<times> p_buffer) res" where
  "recvline buf b =
     (case buffer_get buf of
        Inl e \<Rightarrow> Inl e
      | Inr (err, data, buf) \<Rightarrow>
          let pos = length (takeWhile (\<lambda>c. c \<noteq> NL) data);
              b = b @ filter (\<lambda>c. c \<noteq> CR) (takeWhile (\<lambda>c. c \<noteq> NL) data) in
          if pos < length data then Inr (err, b, buffer_skip buf (pos + 1))
          else if err = IO_DONE then recvline (buffer_skip buf (length data)) b
          else Inr (err, b, buffer_skip buf (length data)))"
  by pat_completeness auto
termination
  by (relation "measure (\<lambda>(buf, b). pending buf)") (auto dest: buffer_get_pending)

function recvraw_loop :: "p_buffer \<Rightarrow> nat \<Rightarrow> nat \<Rightarrow> string \<Rightarrow> (int \<times> string \<times> p_buffer) res" where
  "recvraw_loop buf wanted tot b =
     (case buffer_get buf of
        Inl e \<Rightarrow> Inl e
      | Inr (err, data, buf) \<Rightarrow>
          let count = min (length data) (wanted - tot) in
          if tot + count \<ge> wanted then Inr (err, b @ take count data, buffer_skip buf count)
          else if err = IO_DONE then recvraw_loop (buffer_skip buf count) wanted (tot + count) (b @ take count data)
          else Inr (err, b @ take count data, buffer_skip buf count))"
  by pat_completeness auto
termination
proof (relation "measure (\<lambda>(buf, wanted, tot, b). pending buf)", goal_cases)
  case (2 buf wanted tot b p err q data buf' count)
  then have "count = length data" by auto
  with 2 buffer_get_pending show ?case by auto
qed simp

definition recvraw :: "p_buffer \<Rightarrow> nat \<Rightarrow> string \<Rightarrow> (int \<times> string \<times> p_buffer) res" where
  "recvraw buf wanted b = recvraw_loop buf wanted 0 b"

function recvall_loop :: "p_buffer \<Rightarrow> nat \<Rightarrow> string \<Rightarrow> (int \<times> nat \<times> string \<times> p_buffer) res" where
  "recvall_loop buf tot b =
     (case buffer_get buf of
        Inl e \<Rightarrow> Inl e
      | Inr (err, data, buf) \<Rightarrow>
          if err = IO_DONE then recvall_loop (buffer_skip buf (length data)) (tot + length data) (b @ data)
          else Inr (err, tot + length data, b @ data, buffer_skip buf (length data)))"
  by pat_completeness auto
termination
  by (relation "measure (\<lambda>(buf, tot, b). pending buf)") (auto dest: buffer_get_pending)

definition recvall :: "p_buffer \<Rightarrow> string \<Rightarrow> (int \<times> string \<times> p_buffer) res" where
  "recvall buf b =
     bindR (recvall_loop buf 0 b) (\<lambda>(err, tot, b, buf).
       if err = IO_CLOSED then (if tot > 0 then Inr (IO_DONE, b, buf) else Inr (IO_CLOSED, b, buf))
       else Inr (err, b, buf))"

declare recvline.simps [simp del] recvraw_loop.simps [simp del] recvall_loop.simps [simp del]

text \<open>
  The argument of \<^verbatim>\<open>receive\<close>: a whole number, or a string of which the first two bytes count.  The result: the
  data, or the message for the error and the data so far.
\<close>

datatype receive_arg = Bytes int | Pattern string

definition buffer_meth_receive ::
  "(int \<Rightarrow> string) \<Rightarrow> receive_arg \<Rightarrow> string \<Rightarrow> p_buffer \<Rightarrow> ((string option \<times> string option \<times> string option) \<times> p_buffer) res"
where
  "buffer_meth_receive strerror arg part buf =
     bindR
       (case arg of
          Pattern p \<Rightarrow>
            if take 2 p = ''*l'' then recvline buf part
            else if take 2 p = ''*a'' then recvall buf part
            else Inl (LuaError ''invalid receive pattern'')
        | Bytes n \<Rightarrow>
            if n < 0 then Inl (LuaError ''invalid receive pattern'')
            else if length part = 0 \<or> nat n > length part then recvraw buf (nat n - length part) part
            else Inr (IO_DONE, part, buf))
       (\<lambda>(err, b, buf).
          if err \<noteq> IO_DONE then Inr ((None, Some (strerror err), Some b), buf)
          else Inr ((Some b, None, None), buf))"

section \<open>Sending\<close>

lemma socket_send_bounds: "socket_send inval d rs = (err, n, rs') \<Longrightarrow> n \<le> length d \<and> (err \<noteq> IO_DONE \<longrightarrow> n = 0)"
  by (induction inval d rs rule: socket_send.induct) (auto split: if_splits)

lemma socket_send_fewer: "socket_send inval d rs = (IO_DONE, n, rs') \<Longrightarrow> length rs' < length rs \<and> n \<le> length d"
  by (induction inval d rs rule: socket_send.induct) (auto simp: IO_DONE_def IO_CLOSED_def split: if_splits)

function sendraw_loop :: "p_buffer \<Rightarrow> string \<Rightarrow> nat \<Rightarrow> int \<times> nat \<times> p_buffer" where
  "sendraw_loop buf data tot =
     (if tot < length data then
        let step = (if length data - tot \<le> STEPSIZE then length data - tot else STEPSIZE) in
        case socket_send (invalid buf) (take step (drop tot data)) (outgoing buf) of (err, sent, outs) \<Rightarrow>
          let buf = buf\<lparr>outgoing := outs, wire := wire buf @ take sent (take step (drop tot data))\<rparr> in
          if err = IO_DONE then sendraw_loop buf data (tot + sent) else (err, tot + sent, buf)
      else (IO_DONE, tot, buf))"
  by pat_completeness auto
termination
  by (relation "measure (\<lambda>(buf, data, tot). length (outgoing buf))") (auto dest!: sym [of "(_, _, _)"] dest: socket_send_fewer)

declare sendraw_loop.simps [simp del]

definition sendraw :: "p_buffer \<Rightarrow> string \<Rightarrow> int \<times> nat \<times> p_buffer" where
  "sendraw buf data =
     (case sendraw_loop buf data 0 of (err, tot, buf) \<Rightarrow> (err, tot, buf\<lparr>buf_sent := buf_sent buf + tot\<rparr>))"

text \<open>The first and last byte to send count from 1, negative ones from the end.  The result: the index of the
  last byte sent, or a message with it.\<close>

definition buffer_meth_send ::
  "(int \<Rightarrow> string) \<Rightarrow> string \<Rightarrow> int \<Rightarrow> int \<Rightarrow> p_buffer \<Rightarrow> (int option \<times> string option \<times> int option) \<times> p_buffer"
where
  "buffer_meth_send strerror data start stop buf =
     (let sz = int (length data);
          start = (if start < 0 then sz + start + 1 else start);
          stop = (if stop < 0 then sz + stop + 1 else stop);
          start = (if start < 1 then 1 else start);
          stop = (if stop > sz then sz else stop);
          (err, sent, buf) =
            (if start \<le> stop then sendraw buf (take (nat (stop - start + 1)) (drop (nat (start - 1)) data))
             else (IO_DONE, 0, buf))
      in if err \<noteq> IO_DONE then ((None, Some (strerror err), Some (int sent + start - 1)), buf)
         else ((Some (int sent + start - 1), None, None), buf))"

lemma sendraw_loop_sends:
  "sendraw_loop buf data done = (err, n, buf') \<Longrightarrow> done \<le> length data \<Longrightarrow>
     done \<le> n \<and> n \<le> length data \<and> wire buf' = wire buf @ take (n - done) (drop done data) \<and>
     (err = IO_DONE \<longrightarrow> n = length data) \<and> (\<exists>outs w. buf' = buf\<lparr>outgoing := outs, wire := w\<rparr>)"
proof (induction buf data "done" rule: sendraw_loop.induct)
  case (1 buf data dn)
  show ?case
  proof (cases "dn < length data")
    case False
    with "1.prems" show ?thesis
      by (auto simp: sendraw_loop.simps [of buf data dn] intro!: exI [of _ "outgoing buf'"] exI [of _ "wire buf'"])
  next
    case True
    let ?step = "if length data - dn \<le> STEPSIZE then length data - dn else STEPSIZE"
    let ?part = "take ?step (drop dn data)"
    obtain e k outs where r: "socket_send (invalid buf) ?part (outgoing buf) = (e, k, outs)" by (metis prod_cases3)
    let ?buf = "buf\<lparr>outgoing := outs, wire := wire buf @ take k ?part\<rparr>"
    have k: "k \<le> length ?part" "e \<noteq> IO_DONE \<Longrightarrow> k = 0" using socket_send_bounds [OF r] by auto
    then have kk: "take k ?part = take k (drop dn data)" "dn + k \<le> length data" using True by (auto split: if_splits)
    show ?thesis
    proof (cases "e = IO_DONE")
      case False
      with "1.prems" r k True show ?thesis
        by (auto simp: sendraw_loop.simps [of buf data dn] Let_def intro!: exI [of _ outs] exI [of _ "wire buf"])
    next
      case ok: True
      then have "sendraw_loop ?buf data (dn + k) = (err, n, buf')"
        using "1.prems" r True by (simp add: sendraw_loop.simps [of buf data dn] Let_def)
      from "1.IH" [of ?step e "(k, outs)" k outs ?buf, OF True refl r [symmetric] refl refl ok this kk(2)]
      obtain outs2 w2 where n: "dn + k \<le> n" "n \<le> length data" "err = IO_DONE \<longrightarrow> n = length data"
        "wire buf' = wire ?buf @ take (n - (dn + k)) (drop (dn + k) data)"
        "buf' = ?buf\<lparr>outgoing := outs2, wire := w2\<rparr>" by blast
      have "wire ?buf = wire buf @ take k ?part" by simp
      then have w: "wire ?buf = wire buf @ take k (drop dn data)" by (simp only: kk(1))
      have u: "\<exists>outs w. buf' = buf\<lparr>outgoing := outs, wire := w\<rparr>" using n(5) by auto
      have "take k (drop dn data) @ take (n - (dn + k)) (drop (dn + k) data) = take (k + (n - (dn + k))) (drop dn data)"
        by (simp add: take_add add.commute)
      moreover have "k + (n - (dn + k)) = n - dn" using n(1) by arith
      ultimately show ?thesis using n(1-3) u unfolding n(4) w by (simp only: append_assoc) simp
    qed
  qed
qed

section \<open>What receiving promises\<close>

text \<open>The stream of a socket: its bytes, and the errors between them.  After its end the connection is closed.\<close>

type_synonym stream = "(char + int) list"

fun arriving :: "recv_result list \<Rightarrow> stream" where
  "arriving [] = []"
| "arriving (Arrived d # rs) = (if d = [] then [Inr IO_CLOSED] else map Inl d) @ arriving rs"
| "arriving (Failed err w # rs) =
     (if err = EINTR then []
      else if err \<noteq> EAGAIN then [Inr err]
      else if w \<noteq> IO_DONE then [Inr w]
      else []) @ arriving rs"

definition buffered :: "p_buffer \<Rightarrow> string" where
  "buffered buf = take (buf_last buf - buf_first buf) (drop (buf_first buf) (buf_data buf))"

definition stream_of :: "p_buffer \<Rightarrow> stream" where
  "stream_of buf = map Inl (buffered buf) @ (if invalid buf then [] else arriving (incoming buf))"

definition buffer_ok :: "p_buffer \<Rightarrow> bool" where
  "buffer_ok buf \<longleftrightarrow> buf_last buf \<le> length (buf_data buf) \<and> length (buf_data buf) \<le> BUF_SIZE \<and>
     list_all (\<lambda>r. case r of Arrived d \<Rightarrow> True | Failed err w \<Rightarrow> err \<noteq> IO_DONE) (incoming buf)"

text \<open>A line: its bytes without carriage returns.\<close>

fun stream_line :: "stream \<Rightarrow> int \<times> string \<times> stream" where
  "stream_line [] = (IO_CLOSED, [], [])"
| "stream_line (Inr err # s) = (err, [], s)"
| "stream_line (Inl c # s) =
     (if c = NL then (IO_DONE, [], s)
      else case stream_line s of (err, l, s) \<Rightarrow> (err, if c = CR then l else c # l, s))"

text \<open>A number of bytes; to read none waits for the next byte all the same.\<close>

fun stream_bytes :: "nat \<Rightarrow> stream \<Rightarrow> int \<times> string \<times> stream" where
  "stream_bytes n [] = (IO_CLOSED, [], [])"
| "stream_bytes n (Inr err # s) = (err, [], s)"
| "stream_bytes n (Inl c # s) =
     (if n = 0 then (IO_DONE, [], Inl c # s)
      else if n = 1 then (IO_DONE, [c], s)
      else case stream_bytes (n - 1) s of (err, l, s) \<Rightarrow> (err, c # l, s))"

fun stream_all :: "stream \<Rightarrow> int \<times> string \<times> stream" where
  "stream_all [] = (IO_CLOSED, [], [])"
| "stream_all (Inr err # s) = (err, [], s)"
| "stream_all (Inl c # s) = (case stream_all s of (err, l, s) \<Rightarrow> (err, c # l, s))"

definition receive_spec ::
  "(int \<Rightarrow> string) \<Rightarrow> receive_arg \<Rightarrow> string \<Rightarrow> stream \<Rightarrow> ((string option \<times> string option \<times> string option) \<times> stream) res"
where
  "receive_spec strerror arg part s =
     bindR
       (case arg of
          Pattern p \<Rightarrow>
            if take 2 p = ''*l'' then Inr (stream_line s)
            else if take 2 p = ''*a'' then
              Inr (case stream_all s of (err, l, s) \<Rightarrow> (if err = IO_CLOSED \<and> l \<noteq> [] then IO_DONE else err, l, s))
            else Inl (LuaError ''invalid receive pattern'')
        | Bytes n \<Rightarrow>
            if n < 0 then Inl (LuaError ''invalid receive pattern'')
            else if length part = 0 \<or> nat n > length part then Inr (stream_bytes (nat n - length part) s)
            else Inr (IO_DONE, [], s))
       (\<lambda>(err, l, s).
          if err \<noteq> IO_DONE then Inr ((None, Some (strerror err), Some (part @ l)), s)
          else Inr ((Some (part @ l), None, None), s))"

lemma socket_recv_stream:
  "\<not> inval \<Longrightarrow> list_all (\<lambda>r. case r of Arrived d \<Rightarrow> True | Failed err w \<Rightarrow> err \<noteq> IO_DONE) rs \<Longrightarrow> 0 < n \<Longrightarrow>
   socket_recv inval n rs = (err, got, rs') \<Longrightarrow>
     list_all (\<lambda>r. case r of Arrived d \<Rightarrow> True | Failed err w \<Rightarrow> err \<noteq> IO_DONE) rs' \<and> length got \<le> n \<and>
     (if err = IO_DONE then got \<noteq> [] \<and> arriving rs = map Inl got @ arriving rs'
      else got = [] \<and> (arriving rs = Inr err # arriving rs' \<or> arriving rs = [] \<and> arriving rs' = [] \<and> err = IO_CLOSED))"
proof (induction inval n rs rule: socket_recv.induct)
  case (2 inval n d rs)
  then show ?case
    by (auto simp: IO_DONE_def IO_CLOSED_def append_assoc [symmetric] map_append [symmetric] simp del: append_assoc map_append
        split: if_splits)
qed (auto simp: IO_DONE_def IO_CLOSED_def EINTR_def EAGAIN_def split: if_splits)

lemma buffer_get_stream:
  assumes ok: "buffer_ok buf"
  obtains (bytes) data buf' where "buffer_get buf = Inr (IO_DONE, data, buf')" "data \<noteq> []" "take (length data) (stream_of buf) = map Inl data"
      "\<And>k. k \<le> length data \<Longrightarrow> stream_of (buffer_skip buf' k) = drop k (stream_of buf) \<and> buffer_ok (buffer_skip buf' k)"
  | (error) err buf' where "buffer_get buf = Inr (err, [], buf')" "err \<noteq> IO_DONE" "buffer_ok (buffer_skip buf' 0)"
      "stream_of buf = Inr err # stream_of (buffer_skip buf' 0) \<or>
       stream_of buf = [] \<and> stream_of (buffer_skip buf' 0) = [] \<and> err = IO_CLOSED"
proof (cases "buffer_isempty buf")
  case False
  let ?data = "buffered buf"
  have l: "length ?data = buf_last buf - buf_first buf" "buf_first buf < buf_last buf"
    using ok False by (auto simp: buffered_def buffer_ok_def buffer_isempty_def)
  have skip: "stream_of (buffer_skip buf k) = drop k (stream_of buf) \<and> buffer_ok (buffer_skip buf k)" if "k \<le> length ?data" for k
  proof (cases "buf_first buf + k < buf_last buf")
    case True
    then have "buffered (buffer_skip buf k) = drop k ?data"
      by (simp add: buffer_skip_def buffered_def buffer_isempty_def Let_def drop_take add.commute)
    moreover have "incoming (buffer_skip buf k) = incoming buf" "invalid (buffer_skip buf k) = invalid buf"
      by (simp_all add: buffer_skip_def Let_def)
    ultimately show ?thesis using that ok by (auto simp: stream_of_def drop_map buffer_ok_def buffer_skip_def Let_def)
  next
    case False
    with that l have "k = length ?data" by simp
    with False ok show ?thesis
      by (auto simp: stream_of_def buffer_ok_def buffer_skip_def buffer_isempty_def buffered_def Let_def)
  qed
  show thesis
  proof (rule bytes [of ?data buf])
    show "buffer_get buf = Inr (IO_DONE, ?data, buf)" using ok False by (simp add: buffer_get_def buffered_def buffer_ok_def)
    show "?data \<noteq> []" using l by auto
    show "take (length ?data) (stream_of buf) = map Inl ?data" by (simp add: stream_of_def)
  qed (rule skip)
next
  case True
  then have s: "stream_of buf = (if invalid buf then [] else arriving (incoming buf))"
    by (simp add: stream_of_def buffered_def buffer_isempty_def)
  obtain err got ins where r: "socket_recv (invalid buf) BUF_SIZE (incoming buf) = (err, got, ins)" by (metis prod_cases3)
  let ?b = "buf\<lparr>buf_data := got, buf_first := 0, buf_last := length got, incoming := ins\<rparr>"
  have g: "buffer_get buf = Inr (err, got, ?b)" using True r by (simp add: buffer_get_def)
  show thesis
  proof (cases "invalid buf")
    case inv: True
    then have "(err, got, ins) = (IO_CLOSED, [], incoming buf)" using r by (cases "incoming buf" rule: arriving.cases) auto
    with g s inv ok show thesis
      by (intro error [of err ?b])
        (auto simp: IO_DONE_def IO_CLOSED_def stream_of_def buffered_def buffer_skip_def buffer_isempty_def buffer_ok_def Let_def)
  next
    case False
    have ev: "list_all (\<lambda>r. case r of Arrived d \<Rightarrow> True | Failed err w \<Rightarrow> err \<noteq> IO_DONE) (incoming buf)" "0 < BUF_SIZE"
      using ok by (simp_all add: buffer_ok_def BUF_SIZE_def)
    note rs = socket_recv_stream [OF False ev r]
    show thesis
    proof (cases "err = IO_DONE")
      case True
      with rs have got: "got \<noteq> []" "arriving (incoming buf) = map Inl got @ arriving ins" by auto
      show thesis
      proof (rule bytes [of got ?b])
        show "buffer_get buf = Inr (IO_DONE, got, ?b)" using g True by simp
        show "take (length got) (stream_of buf) = map Inl got" using s False got(2) by simp
        show "stream_of (buffer_skip ?b k) = drop k (stream_of buf) \<and> buffer_ok (buffer_skip ?b k)" if "k \<le> length got" for k
          using that s False got rs
          by (auto simp: stream_of_def buffered_def buffer_skip_def buffer_isempty_def buffer_ok_def Let_def drop_map)
      qed (rule got(1))
    next
      case nd: False
      with rs have "got = []" by auto
      with g nd s False rs show thesis
        by (intro error [of err ?b])
          (auto simp: stream_of_def buffered_def buffer_skip_def buffer_isempty_def buffer_ok_def Let_def)
    qed
  qed
qed

lemma stream_line_append:
  "NL \<notin> set d \<Longrightarrow> stream_line (map Inl d @ s) =
     (case stream_line s of (err, l, s) \<Rightarrow> (err, filter (\<lambda>c. c \<noteq> CR) d @ l, s))"
  by (induction d) (auto split: prod.split)

lemma stream_line_here:
  "NL \<notin> set d \<Longrightarrow> stream_line (map Inl d @ Inl NL # s) = (IO_DONE, filter (\<lambda>c. c \<noteq> CR) d, s)"
  using stream_line_append [of d "Inl NL # s"] by simp

lemma take_stream: "take (length d) s = map Inl d \<Longrightarrow> s = map Inl d @ drop (length d) s"
  by (metis append_take_drop_id)

lemma recvline_stream:
  "buffer_ok buf \<Longrightarrow> \<exists>err l buf'. recvline buf b = Inr (err, b @ l, buf') \<and> buffer_ok buf' \<and>
     stream_line (stream_of buf) = (err, l, stream_of buf')"
proof (induction buf b rule: recvline.induct)
  case (1 buf b)
  from "1.prems" show ?case
  proof (cases rule: buffer_get_stream)
    case (error err buf')
    then show ?thesis
      by (intro exI [of _ err] exI [of _ "[]"] exI [of _ "buffer_skip buf' 0"]) (auto simp: recvline.simps [of buf b])
  next
    case (bytes data buf')
    let ?pre = "takeWhile (\<lambda>c. c \<noteq> NL) data"
    note s = take_stream [OF bytes(3)]
    have pre: "NL \<notin> set ?pre" by (auto dest: set_takeWhileD)
    show ?thesis
    proof (cases "length ?pre < length data")
      case True
      have "data = take (length ?pre) data @ data ! length ?pre # drop (Suc (length ?pre)) data" by (rule id_take_nth_drop [OF True])
      moreover have "take (length ?pre) data = ?pre" by (rule takeWhile_eq_take [symmetric])
      moreover have "data ! length ?pre = NL" using nth_length_takeWhile [OF True] by simp
      ultimately have d: "data = ?pre @ NL # drop (length ?pre + 1) data" by simp
      have "stream_of buf = map Inl ?pre @ Inl NL # map Inl (drop (length ?pre + 1) data) @ drop (length data) (stream_of buf)"
        by (subst s, subst d) simp
      then have line: "stream_line (stream_of buf) = (IO_DONE, filter (\<lambda>c. c \<noteq> CR) ?pre,
          map Inl (drop (length ?pre + 1) data) @ drop (length data) (stream_of buf))"
        using stream_line_here [OF pre] by metis
      have "drop (length ?pre + 1) (stream_of buf) = map Inl (drop (length ?pre + 1) data) @ drop (length data) (stream_of buf)"
        using True by (subst s) (simp add: drop_map)
      with bytes(4) [of "length ?pre + 1"] True line bytes(1) show ?thesis by (simp add: recvline.simps [of buf b])
    next
      case False
      then have d: "?pre = data" by (metis length_takeWhile_le linorder_not_less nat_less_le takeWhile_eq_take take_all)
      with pre have "NL \<notin> set data" by simp
      with s have line: "stream_line (stream_of buf) =
          (case stream_line (drop (length data) (stream_of buf)) of (err, l, s) \<Rightarrow> (err, filter (\<lambda>c. c \<noteq> CR) data @ l, s))"
        using stream_line_append by metis
      let ?buf = "buffer_skip buf' (length data)"
      have ok: "stream_of ?buf = drop (length data) (stream_of buf)" "buffer_ok ?buf" using bytes(4) [of "length data"] by simp_all
      have "\<exists>err l buf2. recvline ?buf (b @ filter (\<lambda>c. c \<noteq> CR) data) = Inr (err, (b @ filter (\<lambda>c. c \<noteq> CR) data) @ l, buf2) \<and>
          buffer_ok buf2 \<and> stream_line (stream_of ?buf) = (err, l, stream_of buf2)"
        using "1.IH" [OF bytes(1) refl refl refl refl _ refl] False d ok(2) by simp
      then obtain err l buf2 where
        r: "recvline ?buf (b @ filter (\<lambda>c. c \<noteq> CR) data) = Inr (err, (b @ filter (\<lambda>c. c \<noteq> CR) data) @ l, buf2)"
          "buffer_ok buf2" "stream_line (drop (length data) (stream_of buf)) = (err, l, stream_of buf2)" unfolding ok(1) by blast
      have "recvline buf b = recvline ?buf (b @ filter (\<lambda>c. c \<noteq> CR) data)"
        by (subst recvline.simps [of buf b]) (simp only: bytes(1) sum.case prod.case Let_def d less_irrefl if_False if_True simp_thms)
      with r line show ?thesis
        by (intro exI [of _ err] exI [of _ "filter (\<lambda>c. c \<noteq> CR) data @ l"] exI [of _ buf2]) simp
    qed
  qed
qed

lemma stream_bytes_append:
  "length d < n \<Longrightarrow> stream_bytes n (map Inl d @ s) = (case stream_bytes (n - length d) s of (err, l, s) \<Rightarrow> (err, d @ l, s))"
  by (induction d arbitrary: n) (auto split: prod.split)

lemma stream_bytes_here:
  "0 < n \<Longrightarrow> n \<le> length d \<Longrightarrow> stream_bytes n (map Inl d @ s) = (IO_DONE, take n d, map Inl (drop n d) @ s)"
proof (induction d arbitrary: n)
  case (Cons c d)
  then show ?case by (cases n) (auto simp: take_Cons' drop_Cons')
qed simp

lemma recvraw_loop_stream:
  "buffer_ok buf \<Longrightarrow> got < wanted \<or> wanted = 0 \<and> got = 0 \<Longrightarrow>
     \<exists>err l buf'. recvraw_loop buf wanted got b = Inr (err, b @ l, buf') \<and> buffer_ok buf' \<and>
       stream_bytes (wanted - got) (stream_of buf) = (err, l, stream_of buf')"
proof (induction buf wanted got b rule: recvraw_loop.induct)
  case (1 buf wanted got b)
  from "1.prems"(1) show ?case
  proof (cases rule: buffer_get_stream)
    case (error err buf')
    then show ?thesis
      by (intro exI [of _ err] exI [of _ "[]"] exI [of _ "buffer_skip buf' 0"]) (auto simp: recvraw_loop.simps [of buf wanted got b])
  next
    case (bytes data buf')
    note s = take_stream [OF bytes(3)]
    let ?count = "min (length data) (wanted - got)"
    show ?thesis
    proof (cases "wanted \<le> got + ?count")
      case True
      then have c: "?count = wanted - got" by auto
      have "stream_bytes (wanted - got) (stream_of buf) = (IO_DONE, take ?count data, drop ?count (stream_of buf))"
      proof (cases "wanted - got = 0")
        case True
        then show ?thesis using bytes(2) s by (cases data; cases "stream_of buf") auto
      next
        case False
        then have "stream_bytes (wanted - got) (map Inl data @ drop (length data) (stream_of buf)) =
            (IO_DONE, take (wanted - got) data, map Inl (drop (wanted - got) data) @ drop (length data) (stream_of buf))"
          using c by (intro stream_bytes_here) auto
        moreover have "drop (wanted - got) (stream_of buf) = map Inl (drop (wanted - got) data) @ drop (length data) (stream_of buf)"
          using c by (subst s) (simp add: drop_map)
        ultimately show ?thesis using s c by metis
      qed
      moreover have "wanted \<le> got + (wanted - got)" by arith
      ultimately show ?thesis using True bytes(1) bytes(4) [of ?count]
        by (intro exI [of _ IO_DONE] exI [of _ "take ?count data"] exI [of _ "buffer_skip buf' ?count"])
          (simp add: recvraw_loop.simps [of buf wanted got b] Let_def)
    next
      case False
      then have c: "?count = length data" "length data < wanted - got" by auto
      let ?buf = "buffer_skip buf' (length data)"
      have ok: "stream_of ?buf = drop (length data) (stream_of buf)" "buffer_ok ?buf" using bytes(4) [of "length data"] by simp_all
      have "stream_bytes (wanted - got) (stream_of buf) =
          (case stream_bytes (wanted - got - length data) (drop (length data) (stream_of buf)) of (err, l, s) \<Rightarrow> (err, data @ l, s))"
        using stream_bytes_append [OF c(2)] s by metis
      moreover have "\<exists>err l buf2. recvraw_loop ?buf wanted (got + length data) (b @ data) = Inr (err, (b @ data) @ l, buf2) \<and>
          buffer_ok buf2 \<and> stream_bytes (wanted - (got + length data)) (stream_of ?buf) = (err, l, stream_of buf2)"
        using "1.IH" [OF bytes(1) refl refl refl _ refl] False c ok(2) by simp
      ultimately show ?thesis using ok(1) bytes(1) c False
        by (auto simp: recvraw_loop.simps [of buf wanted got b] diff_diff_left Let_def)
    qed
  qed
qed

lemma stream_all_append:
  "stream_all (map Inl d @ s) = (case stream_all s of (err, l, s) \<Rightarrow> (err, d @ l, s))"
  by (induction d) (auto split: prod.split)

lemma recvall_loop_stream:
  "buffer_ok buf \<Longrightarrow> \<exists>err l buf'. recvall_loop buf got b = Inr (err, got + length l, b @ l, buf') \<and> buffer_ok buf' \<and>
     stream_all (stream_of buf) = (err, l, stream_of buf')"
proof (induction buf got b rule: recvall_loop.induct)
  case (1 buf got b)
  from "1.prems" show ?case
  proof (cases rule: buffer_get_stream)
    case (error err buf')
    then show ?thesis
      by (intro exI [of _ err] exI [of _ "[]"] exI [of _ "buffer_skip buf' 0"]) (auto simp: recvall_loop.simps [of buf got b])
  next
    case (bytes data buf')
    let ?buf = "buffer_skip buf' (length data)"
    have ok: "stream_of ?buf = drop (length data) (stream_of buf)" "buffer_ok ?buf" using bytes(4) [of "length data"] by simp_all
    have "stream_all (stream_of buf) = (case stream_all (drop (length data) (stream_of buf)) of (err, l, s) \<Rightarrow> (err, data @ l, s))"
      using stream_all_append take_stream [OF bytes(3)] by metis
    moreover have "\<exists>err l buf2. recvall_loop ?buf (got + length data) (b @ data) = Inr (err, got + length data + length l, (b @ data) @ l, buf2) \<and>
        buffer_ok buf2 \<and> stream_all (stream_of ?buf) = (err, l, stream_of buf2)"
      using "1.IH" [OF bytes(1) refl refl refl] ok(2) by simp
    ultimately show ?thesis using ok(1) bytes(1) by (auto simp: recvall_loop.simps [of buf got b])
  qed
qed

text \<open>C38: what receive returns depends on the stream of bytes only, not on how it was cut into packets, on
  interrupted calls or on what is in the buffer: lines, numbers of bytes and the rest are cut from the stream
  in order and nothing is lost, an error comes with the bytes before it, and the next call goes on behind
  them; no call reads outside the buffer, and every call ends.\<close>

theorem receive_refines_stream:
  assumes "buffer_ok buf"
  shows "case buffer_meth_receive strerror arg part buf of
     Inl e \<Rightarrow> receive_spec strerror arg part (stream_of buf) = Inl e
   | Inr (r, buf') \<Rightarrow> buffer_ok buf' \<and> receive_spec strerror arg part (stream_of buf) = Inr (r, stream_of buf')"
proof (cases arg)
  case (Pattern p)
  obtain err l buf' where line: "recvline buf part = Inr (err, part @ l, buf')" "buffer_ok buf'"
    "stream_line (stream_of buf) = (err, l, stream_of buf')" using recvline_stream [OF assms] by blast
  obtain err2 l2 buf2 where all: "recvall_loop buf 0 part = Inr (err2, 0 + length l2, part @ l2, buf2)" "buffer_ok buf2"
    "stream_all (stream_of buf) = (err2, l2, stream_of buf2)" using recvall_loop_stream [OF assms] by blast
  from line all Pattern show ?thesis
    by (auto simp: buffer_meth_receive_def receive_spec_def recvall_def)
next
  case (Bytes n)
  let ?w = "nat n - length part"
  obtain err l buf' where "recvraw buf ?w part = Inr (err, part @ l, buf')" "buffer_ok buf'"
    "stream_bytes ?w (stream_of buf) = (err, l, stream_of buf')"
    using recvraw_loop_stream [OF assms, of 0 ?w part] unfolding recvraw_def by (cases "?w = 0") force+
  with assms Bytes show ?thesis by (auto simp: buffer_meth_receive_def receive_spec_def)
qed

theorem receive_refines_stream_witness:
  "(let buf = buffer_init 0 False [Arrived ''ab'', Failed EINTR 0, Arrived (''c'' @ [CR, NL] @ ''de''), Failed EAGAIN (- 1)] []
    in case buffer_meth_receive (\<lambda>err. the (io_strerror err)) (Pattern ''*l'') [] buf of
         Inl e \<Rightarrow> False
       | Inr (r, buf') \<Rightarrow> r = (Some ''abc'', None, None) \<and> buffer_ok buf' \<and>
           stream_of buf' = [Inl CHR ''d'', Inl CHR ''e'', Inr IO_TIMEOUT])"
proof -
  let ?buf = "buffer_init 0 False [Arrived ''ab'', Failed EINTR 0, Arrived (''c'' @ [CR, NL] @ ''de''), Failed EAGAIN (- 1)] []"
  have "buffer_ok ?buf" by (simp add: buffer_ok_def buffer_init_def EINTR_def EAGAIN_def IO_DONE_def)
  from receive_refines_stream [OF this, of "\<lambda>err. the (io_strerror err)" "Pattern ''*l''" "[]"]
  show ?thesis
    by (auto simp: Let_def receive_spec_def stream_of_def buffered_def buffer_init_def EINTR_def EAGAIN_def IO_DONE_def
        IO_TIMEOUT_def split: sum.splits)
qed

text \<open>C40: what send puts on the wire is a beginning of the bytes asked for, in order and each once however few
  of them the system takes at a time; the index it returns is that of the last byte sent, it is the end of
  the range when there is no error, and what has been received is left alone.\<close>

theorem send_puts_range:
  "case buffer_meth_send strerror data start stop buf of ((ok, msg, part), buf') \<Rightarrow>
     (let sz = int (length data);
          first = max 1 (if start < 0 then sz + start + 1 else start);
          lst = min sz (if stop < 0 then sz + stop + 1 else stop);
          idx = (case ok of Some i \<Rightarrow> i | None \<Rightarrow> the part)
      in wire buf' = wire buf @ take (nat (idx - first + 1)) (drop (nat (first - 1)) data) \<and>
         first - 1 \<le> idx \<and> idx \<le> max (first - 1) lst \<and>
         (case ok of Some i \<Rightarrow> i = max (first - 1) lst \<and> msg = None | None \<Rightarrow> msg \<noteq> None) \<and>
         buf_sent buf' = buf_sent buf + nat (idx - first + 1) \<and> stream_of buf' = stream_of buf)"
proof -
  define sz where "sz = int (length data)"
  define first where "first = max 1 (if start < 0 then sz + start + 1 else start)"
  define lst where "lst = min sz (if stop < 0 then sz + stop + 1 else stop)"
  define piece where "piece = take (nat (lst - first + 1)) (drop (nat (first - 1)) data)"
  obtain err n buf' where r:
    "(if first \<le> lst then sendraw buf piece else (IO_DONE, 0, buf)) = (err, n, buf')" by (metis prod_cases3)
  have bounds: "1 \<le> first" "lst \<le> sz" by (simp_all add: first_def lst_def)
  have clip: "(if (if start < 0 then sz + start + 1 else start) < 1 then 1 else if start < 0 then sz + start + 1 else start) = first"
    "(if sz < (if stop < 0 then sz + stop + 1 else stop) then sz else if stop < 0 then sz + stop + 1 else stop) = lst"
    unfolding first_def lst_def max_def min_def by presburger+
  have run: "buffer_meth_send strerror data start stop buf =
      (if err \<noteq> IO_DONE then ((None, Some (strerror err), Some (int n + first - 1)), buf')
       else ((Some (int n + first - 1), None, None), buf'))"
    unfolding buffer_meth_send_def by (simp only: Let_def sz_def [symmetric] clip piece_def [symmetric] r prod.case)
  have sent: "wire buf' = wire buf @ take n (drop (nat (first - 1)) data) \<and> int n \<le> max 0 (lst - first + 1) \<and>
      (err = IO_DONE \<longrightarrow> int n = max 0 (lst - first + 1)) \<and> buf_sent buf' = buf_sent buf + n \<and> stream_of buf' = stream_of buf"
  proof (cases "first \<le> lst")
    case False
    with r show ?thesis by auto
  next
    case True
    then have len: "length piece = nat (lst - first + 1)" using bounds by (simp add: piece_def sz_def nat_le_iff)
    obtain buf2 where l: "sendraw_loop buf piece 0 = (err, n, buf2)" "buf' = buf2\<lparr>buf_sent := buf_sent buf2 + n\<rparr>"
      using r True by (auto simp: sendraw_def split: prod.splits)
    from sendraw_loop_sends [OF l(1)] obtain outs w where
      b: "n \<le> length piece" "wire buf2 = wire buf @ take n piece" "err = IO_DONE \<longrightarrow> n = length piece"
        "buf2 = buf\<lparr>outgoing := outs, wire := w\<rparr>" by auto
    have "take n piece = take n (drop (nat (first - 1)) data)" using b(1) len by (simp add: piece_def min_def)
    with b l(2) len True show ?thesis by (auto simp: stream_of_def buffered_def)
  qed
  show ?thesis unfolding run Let_def sz_def [symmetric] first_def [symmetric] lst_def [symmetric]
    using sent bounds nat_int [of n] by (auto split: if_splits simp del: nat_int)
qed

end
