(* ===== verification/Startup.thy ===== *)
theory Startup
  imports BigPicture Permissions
begin

text \<open>
  From the command line to \<^verbatim>\<open>main\<close>: \<^verbatim>\<open>src/lua.c\<close> (\<open>docall\<close>, \<open>dofile\<close>, \<open>dostring\<close>,
  \<open>dorequire\<close>, \<open>pmain\<close>) and \<open>load_image\<close> and \<open>report_in_developer_mode\<close> in
  \<^verbatim>\<open>src/teliva.c\<close>.  The interpreter is a record of functions: what a file or a text compiles
  to, and what running a chunk does to the state of the interpreter, given the permissions in
  force.  A call that does not return (developer mode, \<^verbatim>\<open>exit\<close>, a crash) marks the process as
  stopped; nothing runs in a stopped process.
\<close>

section \<open>State\<close>

text \<open>An error object is \<open>None\<close> for \<^verbatim>\<open>nil\<close>; numbers count as strings, as for \<^verbatim>\<open>lua_tostring\<close>.\<close>

datatype error_value = ErrString string | ErrOther

datatype stop = DeveloperMode | Crashed | Exited int

text \<open>What running a chunk ends in: \<open>Returns\<close> tells whether the first result is nil.\<close>

datatype chunk_result = Returns bool | Raises "error_value option" | Stops stop

record ('c, 'g) interpreter =
  compile_text :: "string \<Rightarrow> string \<Rightarrow> error_value + 'c"
  compile_file :: "string \<Rightarrow> error_value + 'c"
  run_chunk :: "'c \<Rightarrow> permissions option \<Rightarrow> 'g \<Rightarrow> chunk_result \<times> 'g"
  set_result :: "string \<Rightarrow> 'g \<Rightarrow> 'g"
  globals_of :: "'g \<Rightarrow> (string \<times> bool \<times> 'c) list"
  debug_traceback :: "'g \<Rightarrow> (string \<Rightarrow> error_value option) option"
  predicate_of :: "string \<Rightarrow> predicate option"

datatype origin = FileChunk string | TextChunk string | TestCall string | MainCall

text \<open>\<open>trusted\<close> is \<open>None\<close> while \<^verbatim>\<open>trustedL\<close> is a null pointer.  \<open>tried\<close> lists the chunks that were
  loaded and called, each with the permissions at that time and what it ended in.\<close>

type_synonym attempt = "origin \<times> permissions option \<times> chunk_result"

record ('c, 'g) process =
  lua_state :: 'g
  trusted :: "permissions option"
  last_error :: "string option"
  program :: "lua_table list"
  arg_table :: "(int \<times> string) list"
  function_names :: "'c \<rightharpoonup> string"
  calls :: call_graph
  tried :: "attempt list"
  stopped :: "stop option"

section \<open>Calling Lua\<close>

text \<open>\<^verbatim>\<open>debug.traceback\<close> is \<open>None\<close> when \<^verbatim>\<open>debug\<close> is not a table or the field not a function.\<close>

definition traceback :: "('c, 'g) interpreter \<Rightarrow> 'g \<Rightarrow> error_value option \<Rightarrow> error_value option" where
  "traceback W g e =
     (case e of
        Some (ErrString msg) \<Rightarrow> (case debug_traceback W g of None \<Rightarrow> e | Some f \<Rightarrow> f msg)
      | _ \<Rightarrow> e)"

definition attempted :: "origin \<Rightarrow> chunk_result \<Rightarrow> ('c, 'g) process \<Rightarrow> ('c, 'g) process" where
  "attempted what r p = p\<lparr>tried := tried p @ [(what, trusted p, r)],
     stopped := (case r of Stops s \<Rightarrow> Some s | _ \<Rightarrow> stopped p)\<rparr>"

text \<open>The third argument of \<open>lua_pcall\<close> here is the handler that an error object goes through.\<close>

definition lua_pcall :: "('c, 'g) interpreter \<Rightarrow> origin \<Rightarrow> ('g \<Rightarrow> error_value option \<Rightarrow> error_value option) \<Rightarrow>
     'c \<Rightarrow> ('c, 'g) process \<Rightarrow> chunk_result \<times> ('c, 'g) process" where
  "lua_pcall W what errfunc c p =
     (case stopped p of
        Some s \<Rightarrow> (Stops s, p)
      | None \<Rightarrow>
          (case run_chunk W c (trusted p) (lua_state p) of (r, g) \<Rightarrow>
             let r = (case r of Raises e \<Rightarrow> Raises (errfunc g e) | _ \<Rightarrow> r)
             in (r, attempted what r (p\<lparr>lua_state := g\<rparr>))))"

definition docall :: "('c, 'g) interpreter \<Rightarrow> origin \<Rightarrow> 'c \<Rightarrow> ('c, 'g) process \<Rightarrow>
     chunk_result \<times> ('c, 'g) process" where
  "docall W what c p = lua_pcall W what (traceback W) c p"

text \<open>\<^verbatim>\<open>luaL_loadfile(...) || docall(...)\<close>, and the same for a text.\<close>

definition load_and_call :: "('c, 'g) interpreter \<Rightarrow> origin \<Rightarrow> error_value + 'c \<Rightarrow> ('c, 'g) process \<Rightarrow>
     chunk_result \<times> ('c, 'g) process" where
  "load_and_call W what loaded p =
     (case loaded of
        Inl e \<Rightarrow> (Raises (Some e), attempted what (Raises (Some e)) p)
      | Inr c \<Rightarrow> docall W what c p)"

text \<open>\<^verbatim>\<open>strdup(NULL)\<close> comes before the test for \<^verbatim>\<open>NULL\<close>.\<close>

definition report_in_developer_mode ::
    "int \<Rightarrow> error_value option \<Rightarrow> ('c, 'g) process \<Rightarrow> int \<times> ('c, 'g) process" where
  "report_in_developer_mode status e p =
     (if status \<noteq> 0 then
        (case e of
           None \<Rightarrow> (status, p)
         | Some (ErrString msg) \<Rightarrow> (status, p\<lparr>last_error := Some msg, stopped := Some DeveloperMode\<rparr>)
         | Some ErrOther \<Rightarrow> (status, p\<lparr>stopped := Some Crashed\<rparr>))
      else (status, p))"

definition reported :: "chunk_result \<times> ('c, 'g) process \<Rightarrow> int \<times> ('c, 'g) process" where
  "reported r =
     (case r of
        (Returns _, p) \<Rightarrow> (0, p)
      | (Raises e, p) \<Rightarrow> report_in_developer_mode 1 e p
      | (Stops s, p) \<Rightarrow> (1, p))"

definition dofile :: "('c, 'g) interpreter \<Rightarrow> string \<Rightarrow> ('c, 'g) process \<Rightarrow> int \<times> ('c, 'g) process" where
  "dofile W filename p = reported (load_and_call W (FileChunk filename) (compile_file W filename) p)"

definition dostring :: "('c, 'g) interpreter \<Rightarrow> string \<Rightarrow> string \<Rightarrow> ('c, 'g) process \<Rightarrow> int \<times> ('c, 'g) process" where
  "dostring W s chunkname p = reported (load_and_call W (TextChunk chunkname) (compile_text W (c_str s) chunkname) p)"

definition dorequire :: "('c, 'g) interpreter \<Rightarrow> string \<times> string \<Rightarrow> ('c, 'g) process \<Rightarrow> int \<times> ('c, 'g) process" where
  "dorequire W lib p =
     (case lib of (filename, globalname) \<Rightarrow>
       (case load_and_call W (FileChunk filename) (compile_file W filename) p of
          (Returns is_nil, p) \<Rightarrow>
            if is_nil then (1, p\<lparr>stopped := Some (Exited 1)\<rparr>)
            else (0, p\<lparr>lua_state := set_result W globalname (lua_state p)\<rparr>)
        | r \<Rightarrow> reported r))"

definition handle_luainit :: "('c, 'g) interpreter \<Rightarrow> string option \<Rightarrow> ('c, 'g) process \<Rightarrow> int \<times> ('c, 'g) process" where
  "handle_luainit W init p =
     (case init of
        None \<Rightarrow> (0, p)
      | Some s \<Rightarrow>
          (case s of
             c # filename \<Rightarrow> if c = CHR ''@'' then dofile W filename p else dostring W s ''=LUA_INIT'' p
           | [] \<Rightarrow> dostring W s ''=LUA_INIT'' p))"

section \<open>Loading the image\<close>

text \<open>When a definition raises nil, \<open>report_in_developer_mode\<close> does nothing, neither in \<open>dostring\<close>
  nor when \<open>load_definitions\<close> calls it once more.\<close>

definition set_args :: "string list \<Rightarrow> nat \<Rightarrow> (int \<times> string) list" where
  "set_args argv n = map (\<lambda>i. (int i - int n, argv ! i)) [0..<length argv]"

definition binding_exists :: "('c, 'g) interpreter \<Rightarrow> ('c, 'g) process \<Rightarrow> string \<Rightarrow> bool" where
  "binding_exists W p key = (map_of (globals_of W (lua_state p)) key \<noteq> None)"

text \<open>Tests are called without the handler that adds a traceback.\<close>

definition run_test :: "('c, 'g) interpreter \<Rightarrow> string \<Rightarrow> 'c \<Rightarrow> ('c, 'g) process \<Rightarrow>
     error_value option option \<times> ('c, 'g) process" where
  "run_test W key c p =
     (case lua_pcall W (TestCall key) (\<lambda>g e. e) c p of
        (Raises e, p) \<Rightarrow> (Some e, p)
      | (_, p) \<Rightarrow> (None, p))"

definition test_calls :: "('c, 'g) interpreter \<Rightarrow> 'g \<Rightarrow>
     (string \<times> (('c, 'g) process \<Rightarrow> error_value option option \<times> ('c, 'g) process) option) list" where
  "test_calls W g =
     map (\<lambda>(key, is_function, c). (key, if is_function then Some (run_test W key c) else None)) (globals_of W g)"

text \<open>The length of nil is 0 (\<^verbatim>\<open>lua_objlen\<close>), so a program that is nil has no events to load.\<close>

definition program_events :: "lua_table list option \<Rightarrow> lua_table list" where
  "program_events teliva_program = (case teliva_program of None \<Rightarrow> [] | Some h \<Rightarrow> h)"

definition load_image :: "('c, 'g) interpreter \<Rightarrow> (string \<Rightarrow> string option) \<Rightarrow> string option \<Rightarrow> string list \<Rightarrow>
     nat \<Rightarrow> ('c, 'g) process \<Rightarrow> (int \<times> ('c, 'g) process) res" where
  "load_image W file_system config argv n p =
     bindR (load_tlv (file_system (argv ! n))) (\<lambda>teliva_program.
     let h = program_events teliva_program in
     bindR (load_definitions (binding_exists W) (dostring W) h
              (p\<lparr>arg_table := set_args argv n, program := h\<rparr>)) (\<lambda>(status, p).
     if stopped p \<noteq> None then Inr (status, p)
     else if status \<noteq> 0 then Inr (0, p)
     else bindR (run_tests (test_calls W (lua_state p))
              (p\<lparr>function_names := precompute_names_of_globals (map (\<lambda>(k, _, c). (k, c)) (globals_of W (lua_state p)))\<rparr>))
       (\<lambda>(first_failure, p).
     if stopped p \<noteq> None then Inr (1, p)
     else if first_failure \<noteq> None then Inr (report_in_developer_mode 1 first_failure p)
     else bindR (load_permissions_from_user_configuration (predicate_of W) (argv ! n) config) (\<lambda>q.
       Inr (0, p\<lparr>calls := clear_caller (clear_call_graph_depth (calls p)), trusted := Some q\<rparr>)))))"

section \<open>The main program\<close>

definition libraries :: "(string \<times> string) list" where
  "libraries =
     [(''src/lcurses/curses.lua'', ''curses''), (''src/luasocket/socket.lua'', ''socket''),
      (''src/luasocket/url.lua'', ''url''), (''src/luasocket/ltn12.lua'', ''ltn12''),
      (''src/luasocket/mime.lua'', ''mime''), (''src/luasocket/headers.lua'', ''headers''),
      (''src/luasocket/http.lua'', ''http''), (''src/luasec/ssl.lua'', ''ssl''),
      (''src/luasec/https.lua'', ''https''), (''src/json.lua'', ''json''),
      (''src/jsonf.lua'', ''jsonf''), (''src/task.lua'', ''task'')]"

fun require_all :: "('c, 'g) interpreter \<Rightarrow> (string \<times> string) list \<Rightarrow> ('c, 'g) process \<Rightarrow>
     int \<times> ('c, 'g) process" where
  "require_all W [] p = (0, p)"
| "require_all W (lib # libs) p =
     (case dorequire W lib p of (status, p) \<Rightarrow>
        if status \<noteq> 0 then (status, p) else require_all W libs p)"

text \<open>The interpreter calls whatever \<^verbatim>\<open>main\<close> is; only nil is not a value of it.\<close>

definition call_main :: "('c, 'g) interpreter \<Rightarrow> ('c, 'g) process \<Rightarrow> int \<times> ('c, 'g) process" where
  "call_main W p =
     (case map_of (globals_of W (lua_state p)) ''main'' of
        Some (_, c) \<Rightarrow> reported (docall W MainCall c p)
      | None \<Rightarrow>
          let r = Raises (traceback W (lua_state p) (Some (ErrString ''attempt to call a nil value'')))
          in reported (r, attempted MainCall r p))"

text \<open>The first component is \<^verbatim>\<open>s->status\<close>, \<open>None\<close> as long as nothing was stored there.\<close>

definition pmain :: "('c, 'g) interpreter \<Rightarrow> (string \<Rightarrow> string option) \<Rightarrow> string option \<Rightarrow> string option \<Rightarrow>
     string list \<Rightarrow> ('c, 'g) process \<Rightarrow> (int option \<times> ('c, 'g) process) res" where
  "pmain W file_system config init argv p =
     (case require_all W libraries p of (status, p) \<Rightarrow>
      if status \<noteq> 0 then Inr (None, p)
      else case dofile W ''src/file.lua'' p of (status, p) \<Rightarrow>
      if status \<noteq> 0 then Inr (None, p)
      else case handle_luainit W init p of (status, p) \<Rightarrow>
      if status \<noteq> 0 then Inr (Some status, p)
      else bindR (load_image W file_system config argv 1 p) (\<lambda>(status, p).
      if stopped p \<noteq> None \<or> status \<noteq> 0 then Inr (Some status, p)
      else case call_main W (p\<lparr>calls := save_call_graph_depth 2 ''main'' (calls p)\<rparr>) of
        (status, p) \<Rightarrow> Inr (Some status, p)))"

text \<open>How the program ends when it was not stopped before: \<open>None\<close> is an exit status that depends on
  a variable that was never set.\<close>

definition teliva_main :: "('c, 'g) interpreter \<Rightarrow> (string \<Rightarrow> string option) \<Rightarrow> string option \<Rightarrow> string option \<Rightarrow>
     string list \<Rightarrow> ('c, 'g) process \<Rightarrow> (int option \<times> ('c, 'g) process) res" where
  "teliva_main W file_system config init argv p =
     (if length argv = 1 then Inl (ExitCode 1)
      else bindR (pmain W file_system config init argv p) (\<lambda>(status, p).
        Inr (map_option (\<lambda>s. if s \<noteq> 0 then 1 else 0) status, p)))"

text \<open>A process as \<^verbatim>\<open>main\<close> starts it.\<close>

definition new_process :: "'g \<Rightarrow> ('c, 'g) process" where
  "new_process g = \<lparr>lua_state = g, trusted = None, last_error = None, program = [], arg_table = [],
     function_names = Map.empty, calls = no_calls, tried = [], stopped = None\<rparr>"

section \<open>What a status tells\<close>

definition fine :: "attempt \<Rightarrow> bool" where
  "fine a \<longleftrightarrow> (case a of (_, _, Returns _) \<Rightarrow> True | _ \<Rightarrow> False)"

text \<open>How a process ends up after a chunk that did not simply return.\<close>

definition ended_by :: "chunk_result \<Rightarrow> ('c, 'g) process \<Rightarrow> bool" where
  "ended_by r p \<longleftrightarrow>
     (case r of
        Returns is_nil \<Rightarrow> is_nil \<and> stopped p = Some (Exited 1)
      | Raises None \<Rightarrow> stopped p = None
      | Raises (Some (ErrString m)) \<Rightarrow> stopped p = Some DeveloperMode \<and> last_error p = Some m
      | Raises (Some ErrOther) \<Rightarrow> stopped p = Some Crashed
      | Stops s \<Rightarrow> stopped p = Some s)"

definition under :: "(origin \<Rightarrow> bool) \<Rightarrow> permissions option \<Rightarrow> attempt \<Rightarrow> bool" where
  "under K q a \<longleftrightarrow> K (fst a) \<and> fst (snd a) = q"

text \<open>From \<open>p\<close>, attempts of the kind \<open>K\<close> lead to \<open>p'\<close>: with status 0 all of them returned,
  otherwise the last one decides how it ends.\<close>

definition settles :: "(origin \<Rightarrow> bool) \<Rightarrow> ('c, 'g) process \<Rightarrow> int \<times> ('c, 'g) process \<Rightarrow> bool" where
  "settles K p r \<longleftrightarrow>
     (case r of (status, p') \<Rightarrow>
        \<exists>new. tried p' = tried p @ new \<and> trusted p' = trusted p \<and>
          list_all (under K (trusted p)) new \<and>
          (if status = 0 then stopped p' = None \<and> list_all fine new
           else new \<noteq> [] \<and> list_all fine (butlast new) \<and> ended_by (snd (snd (last new))) p'))"

lemma settles_refl: "stopped p = None \<Longrightarrow> settles K p (0, p)"
  by (simp add: settles_def)

lemma settles_update:
  assumes "settles K p (status, p')"
    and "tried p'' = tried p'" "trusted p'' = trusted p'" "stopped p'' = stopped p'" "last_error p'' = last_error p'"
  shows "settles K p (status, p'')"
proof -
  have "ended_by r p'' = ended_by r p'" for r
    using assms(4,5) by (simp add: ended_by_def split: chunk_result.splits option.splits error_value.splits)
  with assms show ?thesis by (auto simp: settles_def)
qed

lemma settlesI:
  assumes "tried p' = tried p @ new" "trusted p' = trusted p" "list_all (under K (trusted p)) new"
    and "status = 0 \<Longrightarrow> stopped p' = None \<and> list_all fine new"
    and "status \<noteq> 0 \<Longrightarrow> new \<noteq> [] \<and> list_all fine (butlast new) \<and> ended_by (snd (snd (last new))) p'"
  shows "settles K p (status, p')"
  using assms by (auto simp: settles_def)

lemma settles_trans:
  assumes "settles K p (0, p')" "settles K p' (status, p'')"
  shows "settles K p (status, p'')"
proof -
  from assms(1) obtain new where new: "tried p' = tried p @ new" "trusted p' = trusted p"
    "list_all (under K (trusted p)) new" "list_all fine new"
    by (auto simp: settles_def)
  from assms(2) obtain new' where new': "tried p'' = tried p' @ new'" "trusted p'' = trusted p'"
    "list_all (under K (trusted p')) new'"
    "if status = 0 then stopped p'' = None \<and> list_all fine new'
     else new' \<noteq> [] \<and> list_all fine (butlast new') \<and> ended_by (snd (snd (last new'))) p''"
    by (auto simp: settles_def)
  show ?thesis
  proof (rule settlesI [where new = "new @ new'"])
    assume "status \<noteq> 0"
    then show "new @ new' \<noteq> [] \<and> list_all fine (butlast (new @ new')) \<and> ended_by (snd (snd (last (new @ new')))) p''"
      using new(4) new'(4) by (simp add: butlast_append)
  qed (use new new' in simp_all)
qed

lemma settles_running: "settles K p (0, p') \<Longrightarrow> stopped p' = None"
  by (auto simp: settles_def)

lemma reported_attempt:
  assumes "stopped p = None" "K what" "tried p' = tried p" "trusted p' = trusted p" "stopped p' = None"
  shows "settles K p (reported (r, attempted what r p'))"
proof (cases r)
  case (Returns b)
  with assms show ?thesis by (simp add: reported_def settles_def attempted_def fine_def under_def)
next
  case (Raises e)
  show ?thesis
  proof (cases e)
    case None
    with assms Raises show ?thesis
      by (simp add: reported_def settles_def attempted_def report_in_developer_mode_def ended_by_def under_def)
  next
    case (Some v)
    with assms Raises show ?thesis
      by (cases v) (simp_all add: reported_def settles_def attempted_def report_in_developer_mode_def ended_by_def under_def)
  qed
next
  case (Stops st)
  with assms show ?thesis by (simp add: reported_def settles_def attempted_def ended_by_def under_def)
qed

text \<open>What \<open>docall\<close> gives is an attempt from a state of the interpreter.\<close>

lemma load_and_call_attempt:
  assumes "stopped p = None"
  obtains r p' where "load_and_call W what loaded p = (r, attempted what r p')"
    "tried p' = tried p" "trusted p' = trusted p" "stopped p' = None"
proof (cases loaded)
  case (Inl e)
  then show ?thesis using that [of "Raises (Some e)" p] assms by (simp add: load_and_call_def)
next
  case (Inr c)
  obtain r g where rc: "run_chunk W c (trusted p) (lua_state p) = (r, g)" by fastforce
  show ?thesis
    by (rule that [of "case r of Raises e \<Rightarrow> Raises (traceback W g e) | _ \<Rightarrow> r" "p\<lparr>lua_state := g\<rparr>"])
      (use assms in \<open>simp_all add: load_and_call_def Inr docall_def lua_pcall_def rc Let_def\<close>)
qed

lemma reported_load_and_call:
  "stopped p = None \<Longrightarrow> K what \<Longrightarrow> settles K p (reported (load_and_call W what loaded p))"
  by (rule load_and_call_attempt [of p W what loaded]) (auto intro: reported_attempt)

lemma dofile_settles: "stopped p = None \<Longrightarrow> K (FileChunk f) \<Longrightarrow> settles K p (dofile W f p)"
  by (simp add: dofile_def reported_load_and_call)

lemma dostring_settles: "stopped p = None \<Longrightarrow> K (TextChunk n) \<Longrightarrow> settles K p (dostring W t n p)"
  by (simp add: dostring_def reported_load_and_call)

lemma handle_luainit_settles:
  assumes "stopped p = None" "\<And>f. K (FileChunk f)" "\<And>n. K (TextChunk n)"
  shows "settles K p (handle_luainit W init p)"
  using assms by (auto simp: handle_luainit_def settles_refl dofile_settles dostring_settles
      split: option.splits list.splits)

lemma dorequire_settles:
  assumes "stopped p = None" "K (FileChunk (fst lib))"
  shows "settles K p (dorequire W lib p)"
proof -
  obtain f n where lib: "lib = (f, n)" by (cases lib)
  obtain r p' where r: "load_and_call W (FileChunk f) (compile_file W f) p = (r, attempted (FileChunk f) r p')"
    "tried p' = tried p" "trusted p' = trusted p" "stopped p' = None"
    using load_and_call_attempt [OF assms(1)] .
  show ?thesis
  proof (cases r)
    case (Returns b)
    with assms r lib show ?thesis
      by (simp add: dorequire_def settles_def attempted_def fine_def ended_by_def under_def)
  qed (use assms r lib reported_attempt [OF assms(1) _ r(2-4)] in \<open>simp_all add: dorequire_def\<close>)
qed

lemma require_all_settles:
  assumes "stopped p = None" "\<And>f. K (FileChunk f)"
  shows "settles K p (require_all W libs p)"
  using assms(1)
proof (induction libs arbitrary: p)
  case (Cons lib libs)
  have 1: "settles K p (dorequire W lib p)" using Cons.prems assms(2) by (simp add: dorequire_settles)
  obtain status p' where d: "dorequire W lib p = (status, p')" by fastforce
  show ?case
  proof (cases "status = 0")
    case True
    then have "stopped p' = None" using 1 d by (auto simp: settles_def)
    then have "settles K p' (require_all W libs p')" by (rule Cons.IH)
    then have "settles K p (require_all W libs p')"
      using 1 d True settles_trans [of K p p'] by (cases "require_all W libs p'") simp
    then show ?thesis using d True by simp
  qed (use 1 d in simp)
qed (simp add: settles_refl)

lemma load_bindings_settles:
  assumes "\<And>v k G. stopped G = None \<Longrightarrow> settles K G (ds v k G)"
  shows "load_bindings be ds t G = ((status, undo), G') \<Longrightarrow> stopped G = None \<Longrightarrow>
     settles K G (status, G')"
proof (induction t arbitrary: G)
  case (Cons kv t)
  obtain key v where kv: "kv = (key, v)" by (cases kv)
  obtain st G1 where d: "ds (lua_tostring v) key G = (st, G1)" by fastforce
  with assms [OF Cons.prems(2), of "lua_tostring v" key] have 1: "settles K G (st, G1)" by simp
  show ?case
  proof (cases "st = 0")
    case True
    with Cons.prems Cons.IH [of G1] Cons.IH [of G] 1 d settles_running [of K G G1] settles_trans [of K G G1]
    show ?thesis by (auto simp: kv settles_refl split: if_splits)
  next
    case False
    with Cons.prems Cons.IH [of G] 1 d show ?thesis by (auto simp: kv settles_refl split: if_splits)
  qed
qed (simp add: settles_refl)

lemma load_definitions_settles:
  assumes "\<And>v k G. stopped G = None \<Longrightarrow> settles K G (ds v k G)"
  shows "load_definitions_down be ds h i G = Inr (status, G') \<Longrightarrow> stopped G = None \<Longrightarrow>
     settles K G (status, G')"
proof (induction i arbitrary: G rule: less_induct)
  case (less i)
  show ?case
  proof (cases i)
    case 0
    with less.prems show ?thesis by (simp add: load_definitions_down.simps settles_refl)
  next
    case (Suc j)
    obtain st undo G1 where b: "load_bindings be ds (h ! j) G = ((st, undo), G1)" by (metis prod.exhaust)
    have 1: "settles K G (st, G1)" by (rule load_bindings_settles [OF assms b less.prems(2)])
    show ?thesis
    proof (cases "st = 0")
      case False
      with less.prems(1) b 1 show ?thesis unfolding Suc
        by (simp add: load_definitions_down.simps [of be ds h "Suc j"])
    next
      case True
      have below: "nat a < Suc j" if "a < 1 + int j" for a using that by linarith
      from True obtain k where "k < i" "load_definitions_down be ds h k G1 = Inr (status, G')"
        using less.prems(1) b unfolding Suc
        by (cases undo)
          (auto simp: load_definitions_down.simps [of be ds h "Suc j"] dest: below split: if_splits)
      with less.IH 1 True settles_running settles_trans show ?thesis by metis
    qed
  qed
qed

section \<open>Tests\<close>

text \<open>The first error object that is not nil.\<close>

fun first_error :: "attempt list \<Rightarrow> error_value option" where
  "first_error [] = None"
| "first_error ((_, _, r) # as) = (case r of Raises (Some e) \<Rightarrow> Some e | _ \<Rightarrow> first_error as)"

lemma first_error_append:
  "first_error (as @ bs) = (case first_error as of None \<Rightarrow> first_error bs | e \<Rightarrow> e)"
  by (induction as rule: first_error.induct) (auto split: chunk_result.splits option.splits)

lemma first_error_fine: "list_all fine as \<Longrightarrow> first_error as = None"
  by (induction as rule: first_error.induct) (auto simp: fine_def split: chunk_result.splits)

definition raised :: "attempt \<Rightarrow> bool" where
  "raised a \<longleftrightarrow> (case a of (_, _, Raises _) \<Rightarrow> True | _ \<Rightarrow> False)"

lemma first_error_raised: "first_error as = first_error (filter raised as)"
  by (induction as rule: first_error.induct) (auto simp: raised_def split: chunk_result.splits option.splits)

definition is_test :: "origin \<Rightarrow> bool" where
  "is_test w \<longleftrightarrow> (case w of TestCall _ \<Rightarrow> True | _ \<Rightarrow> False)"

text \<open>Running tests from \<open>p\<close> leads to \<open>p'\<close> by the attempts \<open>new\<close>; a test that stops the program is the last.\<close>

definition tested :: "('c, 'g) process \<Rightarrow> attempt list \<Rightarrow> ('c, 'g) process \<Rightarrow> bool" where
  "tested p new p' \<longleftrightarrow>
     tried p' = tried p @ new \<and> trusted p' = trusted p \<and> last_error p' = last_error p \<and>
     list_all (under is_test (trusted p)) new \<and>
     (stopped p' = None \<longrightarrow> list_all (\<lambda>a. fine a \<or> raised a) new) \<and>
     (case stopped p' of None \<Rightarrow> True | Some st \<Rightarrow> stopped p = Some st \<or> (\<exists>w q. (w, q, Stops st) \<in> set new))"

lemma tested_trans:
  assumes "tested p new p'" "tested p' new' p''" "stopped p'' = None \<Longrightarrow> stopped p' = None"
  shows "tested p (new @ new') p''"
  using assms unfolding tested_def by (auto split: option.splits)

lemma run_test_tested:
  assumes "run_test W key c p = (e, p')"
  shows "\<exists>new. tested p new p' \<and> (stopped p' = None \<longrightarrow> stopped p = None) \<and>
     filter raised new = (case e of None \<Rightarrow> [] | Some e \<Rightarrow> [(TestCall key, trusted p, Raises e)])"
proof (cases "stopped p")
  case (Some st)
  with assms show ?thesis by (intro exI [of _ "[]"]) (auto simp: run_test_def lua_pcall_def tested_def)
next
  case None
  obtain r g where r: "run_chunk W c (trusted p) (lua_state p) = (r, g)" by fastforce
  show ?thesis
    by (rule exI [of _ "[(TestCall key, trusted p, r)]"])
      (use assms None r in \<open>cases r; auto simp: run_test_def lua_pcall_def Let_def tested_def attempted_def under_def
        is_test_def fine_def raised_def\<close>)
qed

lemma run_tests_loop_tested:
  "run_tests_loop (map (\<lambda>(key, is_function, c). (key, if is_function then Some (run_test W key c) else None)) gs)
     n first p = (num, fst_failure, p') \<Longrightarrow>
   \<exists>new. tested p new p' \<and> (stopped p' = None \<longrightarrow> stopped p = None) \<and>
     num = n + length (filter raised new) \<and>
     fst_failure = (case first of None \<Rightarrow> first_error new | e \<Rightarrow> e)"
proof (induction gs arbitrary: n first p)
  case Nil
  then show ?case
    by (intro exI [of _ "[]"]) (auto simp: tested_def split: option.splits)
next
  case (Cons g gs)
  obtain key is_function c where g: "g = (key, is_function, c)" by (cases g)
  show ?case
  proof (cases "starts_with key ''test_'' \<and> is_function")
    case False
    with Cons.prems Cons.IH [of n first p] show ?thesis by (auto simp: g split: if_splits)
  next
    case True
    obtain e p1 where r: "run_test W key c p = (e, p1)" by fastforce
    from run_test_tested [OF r] obtain new1 where n1: "tested p new1 p1 \<and> (stopped p1 = None \<longrightarrow> stopped p = None) \<and>
      filter raised new1 = (case e of None \<Rightarrow> [] | Some e \<Rightarrow> [(TestCall key, trusted p, Raises e)])" ..
    note new1 = conjunct1 [OF n1] conjunct1 [OF conjunct2 [OF n1]] conjunct2 [OF conjunct2 [OF n1]]
    let ?n = "case e of None \<Rightarrow> n | Some _ \<Rightarrow> n + 1"
    let ?first = "case e of None \<Rightarrow> first | Some e \<Rightarrow> if first = None then e else first"
    from Cons.prems True r Cons.IH [of ?n ?first p1] obtain new2 where new2: "tested p1 new2 p'"
      "stopped p' = None \<longrightarrow> stopped p1 = None" "num = ?n + length (filter raised new2)"
      "fst_failure = (case ?first of None \<Rightarrow> first_error new2 | e \<Rightarrow> e)"
      by (cases e) (auto simp: g)
    have "first_error new1 = (case e of None \<Rightarrow> None | Some e \<Rightarrow> e)"
      using first_error_raised [of new1] new1(3) by (simp split: option.splits)
    then have "num = n + length (filter raised (new1 @ new2))"
      "fst_failure = (case first of None \<Rightarrow> first_error (new1 @ new2) | e \<Rightarrow> e)"
      using new2(3,4) new1(3) by (cases e; cases first; simp add: first_error_append)+
    moreover have "tested p (new1 @ new2) p'"
      using tested_trans [OF new1(1) new2(1)] new2(2) by simp
    moreover have "stopped p' = None \<longrightarrow> stopped p = None" using new1(2) new2(2) by simp
    ultimately show ?thesis by (intro exI [of _ "new1 @ new2"] conjI)
  qed
qed

section \<open>From the command line to main\<close>

abbreviation not_main :: "origin \<Rightarrow> bool" where
  "not_main w \<equiv> w \<noteq> MainCall"

lemma settles_error:
  assumes "settles K p (status, p')"
  obtains new where "tried p' = tried p @ new" "list_all (under K (trusted p)) new" "trusted p' = trusted p"
    "stopped p' = None \<longrightarrow> list_all fine new \<and> status = 0 \<or>
       new \<noteq> [] \<and> list_all fine (butlast new) \<and> snd (snd (last new)) = Raises None \<and> status \<noteq> 0"
    "\<forall>e. first_error new = Some e \<longrightarrow> ended_by (Raises (Some e)) p'"
proof -
  from assms obtain new where new: "tried p' = tried p @ new" "list_all (under K (trusted p)) new"
    "trusted p' = trusted p"
    "if status = 0 then stopped p' = None \<and> list_all fine new
     else new \<noteq> [] \<and> list_all fine (butlast new) \<and> ended_by (snd (snd (last new))) p'"
    by (auto simp: settles_def)
  have 1: "list_all fine new \<and> status = 0 \<or>
       new \<noteq> [] \<and> list_all fine (butlast new) \<and> snd (snd (last new)) = Raises None \<and> status \<noteq> 0"
    if "stopped p' = None"
    using new(4) that
    by (auto simp: ended_by_def split: if_splits chunk_result.splits option.splits error_value.splits)
  have 2: "ended_by (Raises (Some e)) p'" if e: "first_error new = Some e" for e
  proof (cases "status = 0")
    case True
    with new(4) e show ?thesis by (simp add: first_error_fine)
  next
    case False
    with new(4) have n: "new = butlast new @ [last new]" "list_all fine (butlast new)"
      "ended_by (snd (snd (last new))) p'" by simp_all
    have "first_error new = first_error [last new]"
      using n(2) by (subst n(1)) (simp add: first_error_append first_error_fine del: append_butlast_last_id)
    with e n(3) show ?thesis
      by (cases "last new") (auto split: chunk_result.splits option.splits)
  qed
  from new(1-3) 1 2 show ?thesis by (intro that) auto
qed

lemma call_main_settles: "stopped p = None \<Longrightarrow> settles (\<lambda>w. w = MainCall) p (call_main W p)"
proof -
  assume p: "stopped p = None"
  have "settles (\<lambda>w. w = MainCall) p (reported (docall W MainCall c p))" for c
    using reported_load_and_call [OF p, of "\<lambda>w. w = MainCall" MainCall W "Inr c"]
    by (simp add: load_and_call_def)
  then show ?thesis
    using reported_attempt [OF p, of "\<lambda>w. w = MainCall" MainCall p] p
    by (auto simp: call_main_def Let_def split: option.splits)
qed

lemma run_tests_tested:
  assumes "run_tests (test_calls W g) p = Inr (first_failure, p')" "stopped p = None"
  obtains new where "tested p new p'" "first_failure = first_error new"
    "stopped p' = None \<Longrightarrow> first_failure = None \<Longrightarrow> list_all fine new"
proof -
  obtain num f p1 where l: "run_tests_loop (test_calls W g) 0 None p = (num, f, p1)" by (metis prod.exhaust)
  from run_tests_loop_tested [OF l [unfolded test_calls_def]] obtain new where
    n: "tested p new p1 \<and> (stopped p1 = None \<longrightarrow> stopped p = None) \<and>
      num = 0 + length (filter raised new) \<and> f = (case None of None \<Rightarrow> first_error new | e \<Rightarrow> e)" ..
  have p1: "p' = p1" and f: "first_failure = first_error new"
    using assms(1) l n first_error_raised [of new]
    by (auto simp: run_tests_def assertR_def split: if_splits)
  show ?thesis
  proof (rule that [of new])
    show "tested p new p'" using n p1 by simp
    assume "stopped p' = None" "first_failure = None"
    then have "num = 0" using assms(1) l n f by (auto simp: run_tests_def assertR_def split: if_splits)
    then have "filter raised new = []" using n by simp
    moreover have "list_all (\<lambda>a. fine a \<or> raised a) new"
      using n p1 \<open>stopped p' = None\<close> by (simp add: tested_def)
    ultimately show "list_all fine new" by (auto simp: list_all_iff filter_empty_conv)
  qed (rule f)
qed

text \<open>After the image is loaded: what was tried, what follows when it goes on to main, and what an
  error has led to.\<close>

definition loaded_by ::
    "('c, 'g) interpreter \<Rightarrow> string option \<Rightarrow> string \<Rightarrow> ('c, 'g) process \<Rightarrow> attempt list \<Rightarrow>
     int \<times> ('c, 'g) process \<Rightarrow> bool" where
  "loaded_by W config im p new r \<longleftrightarrow>
     (case r of (status, p') \<Rightarrow>
        tried p' = tried p @ new \<and> list_all (under not_main (trusted p)) new \<and>
        (stopped p' = None \<longrightarrow> status = 0 \<and>
          (list_all fine new \<and>
             (\<exists>q. load_permissions_from_user_configuration (predicate_of W) im config = Inr q \<and>
                trusted p' = Some q) \<or>
           trusted p' = trusted p \<and> new \<noteq> [] \<and> list_all fine (butlast new) \<and> snd (snd (last new)) = Raises None)) \<and>
        (\<forall>e. first_error new = Some e \<longrightarrow>
           ended_by (Raises (Some e)) p' \<or> (\<exists>w q st. (w, q, Stops st) \<in> set new)))"

lemma under_tests: "list_all (under is_test q) new \<Longrightarrow> list_all (under not_main q) new"
  by (fastforce simp: list_all_iff under_def is_test_def)

lemma report_ends:
  "e \<noteq> None \<Longrightarrow> report_in_developer_mode 1 e p = (status, p') \<Longrightarrow>
     ended_by (Raises e) p' \<and> stopped p' \<noteq> None \<and> tried p' = tried p \<and> trusted p' = trusted p"
  by (auto simp: report_in_developer_mode_def ended_by_def split: option.splits error_value.splits)

lemma load_image_loaded:
  assumes "load_image W file_system config argv n p = Inr (status, p')" "stopped p = None"
  shows "\<exists>new. loaded_by W config (argv ! n) p new (status, p')"
proof -
  from assms(1) obtain h st p1 where
    d: "load_definitions (binding_exists W) (dostring W) h (p\<lparr>arg_table := set_args argv n, program := h\<rparr>) = Inr (st, p1)"
    and after: "(if stopped p1 \<noteq> None then Inr (st, p1) else if st \<noteq> 0 then Inr (0, p1)
      else bindR (run_tests (test_calls W (lua_state p1))
              (p1\<lparr>function_names := precompute_names_of_globals (map (\<lambda>(k, _, c). (k, c)) (globals_of W (lua_state p1)))\<rparr>))
       (\<lambda>(first_failure, p).
     if stopped p \<noteq> None then Inr (1, p)
     else if first_failure \<noteq> None then Inr (report_in_developer_mode 1 first_failure p)
     else bindR (load_permissions_from_user_configuration (predicate_of W) (argv ! n) config) (\<lambda>q.
       Inr (0, p\<lparr>calls := clear_caller (clear_call_graph_depth (calls p)), trusted := Some q\<rparr>)))) =
      Inr (status, p')" (is "(if _ then _ else if _ then _ else bindR (run_tests _ ?p2) _) = _")
    unfolding load_image_def Let_def bindR_Inr_iff by auto
  have "settles not_main (p\<lparr>arg_table := set_args argv n, program := h\<rparr>) (st, p1)"
    using load_definitions_settles [OF dostring_settles d [unfolded load_definitions_def]] assms(2) by simp
  then have s: "settles not_main p (st, p1)" by (simp add: settles_def)
  obtain new1 where new1: "tried p1 = tried p @ new1" "list_all (under not_main (trusted p)) new1"
    "trusted p1 = trusted p"
    "stopped p1 = None \<longrightarrow> list_all fine new1 \<and> st = 0 \<or>
       new1 \<noteq> [] \<and> list_all fine (butlast new1) \<and> snd (snd (last new1)) = Raises None \<and> st \<noteq> 0"
    "\<forall>e. first_error new1 = Some e \<longrightarrow> ended_by (Raises (Some e)) p1"
    using settles_error [OF s] .
  show ?thesis
  proof (cases "stopped p1 = None \<and> st = 0")
    case False
    then have "p' = p1 \<and> (stopped p1 = None \<longrightarrow> status = 0 \<and> st \<noteq> 0)"
      using after by (cases "stopped p1") auto
    with new1 show ?thesis by (intro exI [of _ new1]) (auto simp: loaded_by_def)
  next
    case True
    then have fine1: "list_all fine new1" using new1(4) by blast
    from True after obtain ff p3 where t: "run_tests (test_calls W (lua_state p1)) ?p2 = Inr (ff, p3)"
      and after3: "(if stopped p3 \<noteq> None then Inr (1, p3)
       else if ff \<noteq> None then Inr (report_in_developer_mode 1 ff p3)
       else bindR (load_permissions_from_user_configuration (predicate_of W) (argv ! n) config) (\<lambda>q.
         Inr (0, p3\<lparr>calls := clear_caller (clear_call_graph_depth (calls p3)), trusted := Some q\<rparr>))) = Inr (status, p')"
      by (auto simp: bindR_Inr_iff)
    obtain new2 where new2: "tested ?p2 new2 p3" "ff = first_error new2"
      "stopped p3 = None \<Longrightarrow> ff = None \<Longrightarrow> list_all fine new2"
      using run_tests_tested [OF t] True by auto
    have p3: "tried p3 = tried p @ new1 @ new2" "trusted p3 = trusted p"
      "list_all (under not_main (trusted p)) (new1 @ new2)" "first_error (new1 @ new2) = ff"
      using new2(1,2) new1(1-3) True fine1 under_tests [of "trusted p" new2]
      by (auto simp: tested_def first_error_append first_error_fine)
    have halted: "\<exists>w q st. (w, q, Stops st) \<in> set new2" if stp: "stopped p3 = Some st" for st
    proof -
      have "\<exists>w q. (w, q, Stops st) \<in> set new2" using new2(1) True stp by (simp add: tested_def)
      then show ?thesis by blast
    qed
    consider (stop) "stopped p3 \<noteq> None" "p' = p3" "status = 1"
      | (fail) "stopped p3 = None" "ff \<noteq> None" "report_in_developer_mode 1 ff p3 = (status, p')"
      | (pass) q where "stopped p3 = None" "ff = None" "status = 0"
          "load_permissions_from_user_configuration (predicate_of W) (argv ! n) config = Inr q"
          "p' = p3\<lparr>calls := clear_caller (clear_call_graph_depth (calls p3)), trusted := Some q\<rparr>"
      using after3 by (auto simp: bindR_Inr_iff split: if_splits)
    then show ?thesis
    proof cases
      case stop
      with halted have "\<exists>w q st. (w, q, Stops st) \<in> set (new1 @ new2)" by fastforce
      with stop p3 show ?thesis by (intro exI [of _ "new1 @ new2"]) (simp add: loaded_by_def)
    next
      case fail
      with p3 report_ends [OF fail(2,3)] show ?thesis
        by (intro exI [of _ "new1 @ new2"]) (auto simp: loaded_by_def)
    next
      case pass
      with p3 fine1 new2(3) show ?thesis
        by (intro exI [of _ "new1 @ new2"]) (auto simp: loaded_by_def)
    qed
  qed
qed

text \<open>The part of \<open>pmain\<close> before the image is read.\<close>

definition prepare :: "('c, 'g) interpreter \<Rightarrow> string option \<Rightarrow> ('c, 'g) process \<Rightarrow> int \<times> ('c, 'g) process" where
  "prepare W init p =
     (case require_all W libraries p of (status, p) \<Rightarrow>
      if status \<noteq> 0 then (status, p)
      else case dofile W ''src/file.lua'' p of (status, p) \<Rightarrow>
      if status \<noteq> 0 then (status, p) else handle_luainit W init p)"

lemma prepare_settles:
  assumes "stopped p = None"
  shows "settles not_main p (prepare W init p)"
proof -
  obtain s1 p1 where 1: "require_all W libraries p = (s1, p1)" by fastforce
  obtain s2 p2 where 2: "dofile W ''src/file.lua'' p1 = (s2, p2)" by fastforce
  obtain s3 p3 where 3: "handle_luainit W init p2 = (s3, p3)" by fastforce
  have a: "settles not_main p (s1, p1)" using require_all_settles [OF assms, of not_main] 1 by (metis origin.distinct(5))
  show ?thesis
  proof (cases "s1 = 0")
    case True
    then have "stopped p1 = None" using a by (auto intro: settles_running)
    then have "settles not_main p1 (s2, p2)" using dofile_settles [of p1 not_main] 2 by (metis origin.distinct(5))
    then have b: "settles not_main p (s2, p2)" using a True settles_trans by blast
    show ?thesis
    proof (cases "s2 = 0")
      case True
      then have "stopped p2 = None" using b by (auto intro: settles_running)
      then have "settles not_main p2 (s3, p3)"
        using handle_luainit_settles [of p2 not_main W init] 3 by simp
      then have "settles not_main p (s3, p3)" using b True settles_trans by blast
      then show ?thesis using 1 2 3 True \<open>s1 = 0\<close> by (simp add: prepare_def)
    qed (use 1 2 b \<open>s1 = 0\<close> in \<open>simp add: prepare_def\<close>)
  qed (use 1 a in \<open>simp add: prepare_def\<close>)
qed

lemma pmain_prepare:
  assumes "pmain W file_system config init argv p = Inr (status, p')" "prepare W init p = (s, p1)"
  shows "if s \<noteq> 0 then p' = p1
    else \<exists>s2 p2. load_image W file_system config argv 1 p1 = Inr (s2, p2) \<and>
      (if stopped p2 \<noteq> None \<or> s2 \<noteq> 0 then p' = p2
       else \<exists>s3. call_main W (p2\<lparr>calls := save_call_graph_depth 2 ''main'' (calls p2)\<rparr>) = (s3, p'))"
proof -
  obtain s1 q1 where 1: "require_all W libraries p = (s1, q1)" by fastforce
  obtain s2 q2 where 2: "dofile W ''src/file.lua'' q1 = (s2, q2)" by fastforce
  obtain s3 q3 where 3: "handle_luainit W init q2 = (s3, q3)" by fastforce
  show ?thesis
  proof (cases "s1 = 0 \<and> s2 = 0 \<and> s3 = 0")
    case True
    with assms 1 2 3 have s: "s = 0" "p1 = q3" by (auto simp: prepare_def)
    from assms(1) 1 2 3 True obtain s4 p2 where l: "load_image W file_system config argv 1 q3 = Inr (s4, p2)"
      and c: "(if stopped p2 \<noteq> None \<or> s4 \<noteq> 0 then Inr (Some s4, p2)
        else case call_main W (p2\<lparr>calls := save_call_graph_depth 2 ''main'' (calls p2)\<rparr>) of
        (status, p) \<Rightarrow> Inr (Some status, p)) = (Inr (status, p') :: (int option \<times> _) res)"
      by (auto simp: pmain_def bindR_Inr_iff)
    from c have "if stopped p2 \<noteq> None \<or> s4 \<noteq> 0 then p' = p2
       else \<exists>s3. call_main W (p2\<lparr>calls := save_call_graph_depth 2 ''main'' (calls p2)\<rparr>) = (s3, p')"
      by (cases "stopped p2 \<noteq> None \<or> s4 \<noteq> 0") (auto split: prod.splits)
    with s l show ?thesis by auto
  qed (use assms 1 2 3 in \<open>cases "s1 = 0"; cases "s2 = 0"; auto simp: pmain_def prepare_def\<close>)
qed

lemma reported_once:
  assumes "stopped p = None" "tried p' = tried p" "trusted p' = trusted p" "stopped p' = None"
    and "reported (r, attempted what r p') = (status, p'')"
  shows "tried p'' = tried p @ [(what, trusted p, r)] \<and> (\<forall>e. r = Raises e \<longrightarrow> ended_by r p'')"
proof (cases r)
  case (Raises e)
  show ?thesis
  proof (cases e)
    case None
    with assms Raises show ?thesis
      by (auto simp: reported_def attempted_def report_in_developer_mode_def ended_by_def)
  next
    case (Some v)
    with assms Raises show ?thesis
      by (cases v) (auto simp: reported_def attempted_def report_in_developer_mode_def ended_by_def)
  qed
qed (use assms in \<open>auto simp: reported_def attempted_def\<close>)

lemma call_main_once:
  assumes "call_main W p = (status, p')" "stopped p = None"
  shows "\<exists>r. tried p' = tried p @ [(MainCall, trusted p, r)] \<and> (\<forall>e. r = Raises e \<longrightarrow> ended_by r p')"
proof -
  have "\<exists>r p1. call_main W p = reported (r, attempted MainCall r p1) \<and> tried p1 = tried p \<and>
      trusted p1 = trusted p \<and> stopped p1 = None"
  proof (cases "map_of (globals_of W (lua_state p)) ''main''")
    case (Some x)
    obtain b c where c: "map_of (globals_of W (lua_state p)) ''main'' = Some (b, c)" using Some by (cases x) auto
    from load_and_call_attempt [OF assms(2), of W MainCall "Inr c"] obtain r p1 where
      "docall W MainCall c p = (r, attempted MainCall r p1)" "tried p1 = tried p"
      "trusted p1 = trusted p" "stopped p1 = None" by (auto simp: load_and_call_def)
    with c show ?thesis by (auto simp: call_main_def)
  next
    case None
    then show ?thesis using assms(2)
      by (intro exI [of _ "Raises (traceback W (lua_state p) (Some (ErrString ''attempt to call a nil value'')))"] exI [of _ p])
        (auto simp: call_main_def Let_def)
  qed
  with assms reported_once [of p] show ?thesis by metis
qed

definition run_of ::
    "('c, 'g) interpreter \<Rightarrow> string option \<Rightarrow> string list \<Rightarrow> attempt list \<Rightarrow> ('c, 'g) process \<Rightarrow> bool" where
  "run_of W config argv before p \<longleftrightarrow>
     list_all (under not_main None) before \<and>
     (tried p = before \<and>
        (\<forall>e. first_error before = Some e \<longrightarrow> ended_by (Raises (Some e)) p \<or> (\<exists>w q st. (w, q, Stops st) \<in> set before)) \<or>
      (\<exists>q r. tried p = before @ [(MainCall, q, r)] \<and> (\<forall>e. r = Raises e \<longrightarrow> ended_by r p) \<and>
        (if list_all fine before
         then \<exists>perms. q = Some perms \<and>
                load_permissions_from_user_configuration (predicate_of W) (argv ! 1) config = Inr perms
         else q = None \<and> before \<noteq> [] \<and> list_all fine (butlast before) \<and> snd (snd (last before)) = Raises None)))"

lemma list_all_last_fine: "snd (snd (last as)) = Raises e \<Longrightarrow> as \<noteq> [] \<Longrightarrow> \<not> list_all fine as"
proof
  assume r: "snd (snd (last as)) = Raises e" "as \<noteq> []" "list_all fine as"
  then have "fine (last as)" by (simp add: list_all_iff)
  with r(1) show False by (cases "last as") (simp add: fine_def)
qed

lemma pmain_run_of:
  assumes "pmain W file_system config init argv (new_process g) = Inr (status, p)"
  shows "\<exists>before. run_of W config argv before p"
proof -
  let ?p0 = "new_process g :: ('a, 'b) process"
  have p0: "stopped ?p0 = None" "tried ?p0 = []" "trusted ?p0 = None" by (simp_all add: new_process_def)
  obtain s p1 where pr: "prepare W init ?p0 = (s, p1)" by fastforce
  have st: "settles not_main ?p0 (s, p1)" using prepare_settles [OF p0(1), of W init] pr by simp
  obtain new1 where new1: "tried p1 = tried ?p0 @ new1" "list_all (under not_main (trusted ?p0)) new1"
    "trusted p1 = trusted ?p0"
    "\<forall>e. first_error new1 = Some e \<longrightarrow> ended_by (Raises (Some e)) p1"
    using settles_error [OF st] by metis
  show ?thesis
  proof (cases "s = 0")
    case False
    then have "p = p1" using pmain_prepare [OF assms pr] by simp
    with new1 p0 show ?thesis by (intro exI [of _ new1]) (simp add: run_of_def)
  next
    case True
    then have run1: "stopped p1 = None" "list_all fine new1"
      using st new1(1) by (auto simp: settles_def)
    from pmain_prepare [OF assms pr] True obtain s2 p2 where
      li: "load_image W file_system config argv 1 p1 = Inr (s2, p2)" and
      fin: "if stopped p2 \<noteq> None \<or> s2 \<noteq> 0 then p = p2
        else \<exists>s3. call_main W (p2\<lparr>calls := save_call_graph_depth 2 ''main'' (calls p2)\<rparr>) = (s3, p)"
      by auto
    from load_image_loaded [OF li run1(1)] obtain new2 where n2: "loaded_by W config (argv ! 1) p1 new2 (s2, p2)" ..
    have pre: "list_all (under not_main None) (new1 @ new2)" "tried p2 = new1 @ new2"
      "first_error (new1 @ new2) = first_error new2"
      using n2 new1 p0 run1(2) by (simp_all add: loaded_by_def first_error_append first_error_fine)
    show ?thesis
    proof (cases "stopped p2")
      case (Some x)
      with fin have "p = p2" by auto
      moreover have "\<forall>e. first_error new2 = Some e \<longrightarrow>
         ended_by (Raises (Some e)) p2 \<or> (\<exists>w q st. (w, q, Stops st) \<in> set (new1 @ new2))"
        using n2 by (fastforce simp: loaded_by_def)
      ultimately show ?thesis using pre by (intro exI [of _ "new1 @ new2"]) (simp add: run_of_def)
    next
      case None
      with n2 fin obtain s3 where
        cm: "call_main W (p2\<lparr>calls := save_call_graph_depth 2 ''main'' (calls p2)\<rparr>) = (s3, p)"
        by (auto simp: loaded_by_def)
      from call_main_once [OF cm] None obtain r where
        r: "tried p = tried p2 @ [(MainCall, trusted p2, r)]" "\<forall>e. r = Raises e \<longrightarrow> ended_by r p" by auto
      have "if list_all fine (new1 @ new2)
         then \<exists>perms. trusted p2 = Some perms \<and>
                load_permissions_from_user_configuration (predicate_of W) (argv ! 1) config = Inr perms
         else trusted p2 = None \<and> new1 @ new2 \<noteq> [] \<and> list_all fine (butlast (new1 @ new2)) \<and>
           snd (snd (last (new1 @ new2))) = Raises None"
        using n2 None run1(2) new1(3) p0(3)
        by (cases "list_all fine new2") (auto simp: loaded_by_def butlast_append dest!: list_all_last_fine)
      with pre r show ?thesis by (intro exI [of _ "new1 @ new2"]) (auto simp: run_of_def)
    qed
  qed
qed

section \<open>What has run before main\<close>

abbreviation origins :: "('c, 'g) process \<Rightarrow> origin list" where
  "origins p \<equiv> map fst (tried p)"

definition init_origins :: "string option \<Rightarrow> origin list" where
  "init_origins init =
     (case init of None \<Rightarrow> []
      | Some s \<Rightarrow> [if s \<noteq> [] \<and> hd s = CHR ''@'' then FileChunk (tl s) else TextChunk ''=LUA_INIT''])"

definition test_names :: "('c, 'g) interpreter \<Rightarrow> 'g \<Rightarrow> string list" where
  "test_names W g = map fst (filter (\<lambda>(key, is_function, _). starts_with key ''test_'' \<and> is_function) (globals_of W g))"

text \<open>Every code definition in force after \<open>i\<close> events is among the names, or was bound already in some
  state of the interpreter.\<close>

definition in_force_ran :: "('c, 'g) interpreter \<Rightarrow> lua_table list \<Rightarrow> nat \<Rightarrow> string list \<Rightarrow> bool" where
  "in_force_ran W h i names \<longleftrightarrow>
     (\<forall>k. state_at h i k \<noteq> None \<longrightarrow> starts_with k ''doc:'' \<or> k \<in> set names \<or>
        (\<exists>g. map_of (globals_of W g) k \<noteq> None))"

lemma reported_origins: "origins (snd (reported (r, p))) = origins p"
  by (cases r) (auto simp: reported_def report_in_developer_mode_def split: option.splits error_value.splits)

lemma load_and_call_origins:
  "stopped p = None \<Longrightarrow> origins (snd (reported (load_and_call W what loaded p))) = origins p @ [what]"
  by (rule load_and_call_attempt [of p W what loaded]) (simp_all add: reported_origins, simp add: attempted_def)

lemma dofile_origins: "stopped p = None \<Longrightarrow> origins (snd (dofile W f p)) = origins p @ [FileChunk f]"
  by (simp add: dofile_def load_and_call_origins)

lemma dostring_origins: "stopped p = None \<Longrightarrow> origins (snd (dostring W t n p)) = origins p @ [TextChunk n]"
  by (simp add: dostring_def load_and_call_origins)

lemma handle_luainit_origins:
  "stopped p = None \<Longrightarrow> origins (snd (handle_luainit W init p)) = origins p @ init_origins init"
  by (auto simp: handle_luainit_def init_origins_def dofile_origins dostring_origins split: option.splits list.splits)

lemma dorequire_origins: "stopped p = None \<Longrightarrow> origins (snd (dorequire W lib p)) = origins p @ [FileChunk (fst lib)]"
proof -
  assume p: "stopped p = None"
  obtain f n where lib: "lib = (f, n)" by (cases lib)
  obtain r p' where r: "load_and_call W (FileChunk f) (compile_file W f) p = (r, attempted (FileChunk f) r p')" "tried p' = tried p"
    using load_and_call_attempt [OF p] by metis
  then have "origins (attempted (FileChunk f) r p') = origins p @ [FileChunk f]" by (simp add: attempted_def)
  with r(1) show ?thesis
    by (cases r) (auto simp: lib dorequire_def reported_origins)
qed

lemma require_all_origins:
  "require_all W libs p = (0, p') \<Longrightarrow> stopped p = None \<Longrightarrow>
     origins p' = origins p @ map (\<lambda>(f, _). FileChunk f) libs \<and> stopped p' = None"
proof (induction libs arbitrary: p)
  case (Cons lib libs)
  obtain st p1 where d: "dorequire W lib p = (st, p1)" by fastforce
  with Cons.prems have "st = 0" "require_all W libs p1 = (0, p')" by (auto split: if_splits)
  moreover have "settles (\<lambda>_. True) p (st, p1)" using dorequire_settles [of p "\<lambda>_. True" lib W] Cons.prems(2) d by simp
  ultimately have "stopped p1 = None" "origins p' = origins p1 @ map (\<lambda>(f, _). FileChunk f) libs \<and> stopped p' = None"
    using Cons.IH settles_running by blast+
  with dorequire_origins [OF Cons.prems(2), of W lib] d show ?case by (cases lib) simp
qed simp

lemma load_bindings_no_undo:
  "load_bindings be ds t G = ((st, undo), G') \<Longrightarrow> undo_target t = None \<Longrightarrow> undo = None"
proof (induction t arbitrary: G)
  case (Cons kv t)
  obtain key v where kv: "kv = (key, v)" by (cases kv)
  have "key \<noteq> ''__teliva_undo''" "undo_target t = None" using Cons.prems(2) by (auto simp: undo_target_def kv split: if_splits)
  with Cons show ?case by (auto simp: kv split: if_splits prod.splits)
qed simp

lemma load_bindings_origins:
  "load_bindings (binding_exists W) (dostring W) t p = ((0, None), p') \<Longrightarrow> stopped p = None \<Longrightarrow>
     \<exists>names. origins p' = origins p @ map TextChunk names \<and> stopped p' = None \<and>
       (\<forall>k \<in> fst ` set t. is_special_history_key k \<or> starts_with k ''doc:'' \<or> k \<in> set names \<or>
          (\<exists>g. map_of (globals_of W g) k \<noteq> None))"
proof (induction t arbitrary: p)
  case (Cons kv t)
  obtain key v where kv: "kv = (key, v)" by (cases kv)
  have u: "key \<noteq> ''__teliva_undo''" using Cons.prems by (auto simp: kv)
  show ?case
  proof (cases "is_special_history_key key \<or> starts_with key ''doc:'' \<or> binding_exists W p key")
    case True
    with Cons.prems u have "load_bindings (binding_exists W) (dostring W) t p = ((0, None), p')"
      by (auto simp: kv split: if_splits)
    from Cons.IH [OF this Cons.prems(2)] True show ?thesis by (fastforce simp: kv binding_exists_def)
  next
    case False
    obtain st p1 where d: "dostring W (lua_tostring v) key p = (st, p1)" by fastforce
    with Cons.prems u False have st: "st = 0" "load_bindings (binding_exists W) (dostring W) t p1 = ((0, None), p')"
      by (auto simp: kv split: if_splits)
    have "settles (\<lambda>_. True) p (st, p1)" using dostring_settles [OF Cons.prems(2), of "\<lambda>_. True"] d by metis
    then have run: "stopped p1 = None" using st(1) settles_running by blast
    from Cons.IH [OF st(2) run] obtain names where n: "origins p' = origins p1 @ map TextChunk names" "stopped p' = None"
      "\<forall>k \<in> fst ` set t. is_special_history_key k \<or> starts_with k ''doc:'' \<or> k \<in> set names \<or>
          (\<exists>g. map_of (globals_of W g) k \<noteq> None)" by blast
    moreover have "origins p1 = origins p @ [TextChunk key]" using dostring_origins [OF Cons.prems(2)] d by (metis snd_conv)
    ultimately show ?thesis by (intro exI [of _ "key # names"]) (auto simp: kv)
  qed
qed simp

lemma load_definitions_origins:
  assumes "wf_history h" "i \<le> length h"
  shows "load_definitions_down (binding_exists W) (dostring W) h i p = Inr (0, p') \<Longrightarrow> stopped p = None \<Longrightarrow>
     \<exists>names. origins p' = origins p @ map TextChunk names \<and> stopped p' = None \<and> in_force_ran W h i names"
  using assms(2)
proof (induction i arbitrary: p rule: less_induct)
  case (less i)
  show ?case
  proof (cases i)
    case 0
    with less.prems show ?thesis
      by (intro exI [of _ "[]"]) (simp add: load_definitions_down.simps in_force_ran_def)
  next
    case (Suc j)
    then have j: "wf_event (h ! j)" "\<And>u. undo_target (h ! j) = Some u \<Longrightarrow> u \<le> int j"
      using assms(1) less.prems(3) by (auto simp: wf_history_def)
    show ?thesis
    proof (cases "undo_target (h ! j)")
      case (Some u)
      then have "list_all (\<lambda>(k, v). is_special_history_key k) (h ! j)"
        using j(1) by (auto simp: wf_event_def undo_target_def)
      from load_bindings_special [OF this, of "binding_exists W" "dostring W" p] Some j(2) [OF Some] less.prems(1) Suc
      have "load_definitions_down (binding_exists W) (dostring W) h (nat u) p = Inr (0, p')"
        by (simp add: load_definitions_down.simps [of "binding_exists W" "dostring W" h "Suc j"])
      moreover have "nat u < i" "nat u \<le> length h" "state_at h i = state_at h (nat u)"
        using Some j(2) [OF Some] Suc less.prems(3) by (auto simp: state_at_Suc)
      ultimately show ?thesis using less.IH [of "nat u" p] less.prems(2) by (simp add: in_force_ran_def)
    next
      case None
      obtain st undo p1 where b: "load_bindings (binding_exists W) (dostring W) (h ! j) p = ((st, undo), p1)"
        by (metis prod.exhaust)
      have undo: "undo = None" using b None by (rule load_bindings_no_undo)
      with b less.prems(1) Suc have st: "st = 0" "load_definitions_down (binding_exists W) (dostring W) h j p1 = Inr (0, p')"
        by (simp_all add: load_definitions_down.simps [of "binding_exists W" "dostring W" h "Suc j"] split: if_splits)
      from load_bindings_origins [of W "h ! j" p p1] b undo st(1) less.prems(2) obtain n1 where n1:
        "origins p1 = origins p @ map TextChunk n1" "stopped p1 = None"
        "\<forall>k \<in> fst ` set (h ! j). is_special_history_key k \<or> starts_with k ''doc:'' \<or> k \<in> set n1 \<or>
          (\<exists>g. map_of (globals_of W g) k \<noteq> None)" by auto
      from less.IH [OF _ st(2) n1(2)] Suc less.prems(3) obtain n2 where n2:
        "origins p' = origins p1 @ map TextChunk n2" "stopped p' = None" "in_force_ran W h j n2" by auto
      have "in_force_ran W h i (n1 @ n2)" unfolding in_force_ran_def
      proof (intro allI impI)
        fix k assume k: "state_at h i k \<noteq> None"
        show "starts_with k ''doc:'' \<or> k \<in> set (n1 @ n2) \<or> (\<exists>g. map_of (globals_of W g) k \<noteq> None)"
        proof (cases "map_of (h ! j) k")
          case (Some v)
          then have "k \<in> fst ` set (h ! j)" by (metis domI dom_map_of_conv_image_fst)
          with n1(3) k None Suc show ?thesis by (fastforce simp: state_at_Suc)
        next
          case no: None
          with k None Suc have "state_at h j k \<noteq> None" by (auto simp: state_at_Suc split: if_splits)
          with n2(3) show ?thesis by (auto simp: in_force_ran_def)
        qed
      qed
      with n1(1) n2(1,2) show ?thesis by (intro exI [of _ "n1 @ n2"]) simp
    qed
  qed
qed

lemma run_test_origins:
  "run_test W key c p = (e, p') \<Longrightarrow> stopped p' = None \<Longrightarrow> stopped p = None \<and> origins p' = origins p @ [TestCall key]"
  by (cases "stopped p")
    (auto simp: run_test_def lua_pcall_def Let_def attempted_def split: prod.splits chunk_result.splits)

lemma run_tests_loop_origins:
  "run_tests_loop (map (\<lambda>(key, is_function, c). (key, if is_function then Some (run_test W key c) else None)) gs)
     n first p = (num, f, p') \<Longrightarrow> stopped p' = None \<Longrightarrow>
   stopped p = None \<and> origins p' = origins p @
     map TestCall (map fst (filter (\<lambda>(key, is_function, _). starts_with key ''test_'' \<and> is_function) gs))"
proof (induction gs arbitrary: n first p)
  case (Cons g gs)
  obtain key is_function c where g: "g = (key, is_function, c)" by (cases g)
  show ?case
  proof (cases "starts_with key ''test_'' \<and> is_function")
    case False
    with Cons show ?thesis by (auto simp: g split: if_splits)
  next
    case True
    obtain e p1 where r: "run_test W key c p = (e, p1)" by fastforce
    from Cons.prems True r obtain n1 first1 where
      "run_tests_loop (map (\<lambda>(key, is_function, c). (key, if is_function then Some (run_test W key c) else None)) gs)
         n1 first1 p1 = (num, f, p')"
      by (cases e) (auto simp: g)
    from Cons.IH [OF this Cons.prems(2)] run_test_origins [OF r] True show ?thesis by (simp add: g)
  qed
qed simp

definition started_before :: "('c, 'g) interpreter \<Rightarrow> string option \<Rightarrow> lua_table list \<Rightarrow> origin list \<Rightarrow> bool" where
  "started_before W init h before \<longleftrightarrow>
     (\<exists>names g. in_force_ran W h (length h) names \<and>
        before = map (\<lambda>(f, _). FileChunk f) libraries @ [FileChunk ''src/file.lua''] @ init_origins init @
          map TextChunk names @ map TestCall (test_names W g))"

lemma load_image_origins:
  assumes "load_image W file_system config argv n p = Inr (status, p')" "stopped p = None" "trusted p = None"
    "trusted p' \<noteq> None" "load_tlv (file_system (argv ! n)) = Inr prog" "wf_history (program_events prog)"
  shows "\<exists>names g. in_force_ran W (program_events prog) (length (program_events prog)) names \<and>
    origins p' = origins p @ map TextChunk names @ map TestCall (test_names W g)"
proof -
  let ?h = "program_events prog" and ?p0 = "p\<lparr>arg_table := set_args argv n, program := program_events prog\<rparr>"
  obtain st p1 where d: "load_definitions (binding_exists W) (dostring W) ?h ?p0 = Inr (st, p1)"
    and after: "(if stopped p1 \<noteq> None then Inr (st, p1) else if st \<noteq> 0 then Inr (0, p1)
      else bindR (run_tests (test_calls W (lua_state p1))
              (p1\<lparr>function_names := precompute_names_of_globals (map (\<lambda>(k, _, c). (k, c)) (globals_of W (lua_state p1)))\<rparr>))
       (\<lambda>(first_failure, p).
     if stopped p \<noteq> None then Inr (1, p)
     else if first_failure \<noteq> None then Inr (report_in_developer_mode 1 first_failure p)
     else bindR (load_permissions_from_user_configuration (predicate_of W) (argv ! n) config) (\<lambda>q.
       Inr (0, p\<lparr>calls := clear_caller (clear_call_graph_depth (calls p)), trusted := Some q\<rparr>)))) =
      Inr (status, p')" (is "(if _ then _ else if _ then _ else bindR (run_tests _ ?p2) _) = _")
    using assms(1,5) unfolding load_image_def Let_def by (auto simp: bindR_Inr_iff)
  have "settles not_main ?p0 (st, p1)"
    using load_definitions_settles [OF dostring_settles d [unfolded load_definitions_def]] assms(2) by simp
  then have t1: "trusted p1 = None" using assms(3) by (auto simp: settles_def)
  have go: "stopped p1 = None" "st = 0" using after t1 assms(4) by (auto split: if_splits)
  with d load_definitions_origins [OF assms(6) order.refl, of W ?p0 p1] assms(2) obtain names where
    names: "origins p1 = origins p @ map TextChunk names" "in_force_ran W ?h (length ?h) names"
    by (auto simp: load_definitions_def)
  from after go obtain ff p3 where t: "run_tests (test_calls W (lua_state p1)) ?p2 = Inr (ff, p3)"
    and after3: "(if stopped p3 \<noteq> None then Inr (1, p3)
       else if ff \<noteq> None then Inr (report_in_developer_mode 1 ff p3)
       else bindR (load_permissions_from_user_configuration (predicate_of W) (argv ! n) config) (\<lambda>q.
         Inr (0, p3\<lparr>calls := clear_caller (clear_call_graph_depth (calls p3)), trusted := Some q\<rparr>))) = Inr (status, p')"
    by (auto simp: bindR_Inr_iff)
  have t3: "trusted p3 = None" using run_tests_tested [OF t] go t1 by (auto simp: tested_def)
  have run: "stopped p3 = None" using after3 t3 assms(4) by (auto split: if_splits)
  have "tried p' = tried p3"
    using after3 run report_ends [of ff p3 status p'] by (cases "ff = None") (auto simp: bindR_Inr_iff)
  moreover obtain num f where "run_tests_loop (test_calls W (lua_state p1)) 0 None ?p2 = (num, f, p3)"
    using t by (auto simp: run_tests_def assertR_def split: prod.splits if_splits)
  from run_tests_loop_origins [OF this [unfolded test_calls_def] run]
  have "origins p3 = origins p1 @ map TestCall (test_names W (lua_state p1))" by (simp add: test_names_def)
  ultimately show ?thesis using names by (intro exI [of _ names] exI [of _ "lua_state p1"]) simp
qed

lemma prepare_origins:
  assumes "prepare W init p = (0, p')" "stopped p = None"
  shows "origins p' = origins p @ map (\<lambda>(f, _). FileChunk f) libraries @ [FileChunk ''src/file.lua''] @ init_origins init \<and>
    stopped p' = None \<and> trusted p' = trusted p"
proof -
  obtain s1 p1 where 1: "require_all W libraries p = (s1, p1)" by fastforce
  obtain s2 p2 where 2: "dofile W ''src/file.lua'' p1 = (s2, p2)" by fastforce
  have s: "s1 = 0" "s2 = 0" "handle_luainit W init p2 = (0, p')"
    using assms(1) 1 2 by (auto simp: prepare_def split: if_splits)
  have r1: "origins p1 = origins p @ map (\<lambda>(f, _). FileChunk f) libraries" "stopped p1 = None"
    using require_all_origins [OF _ assms(2)] 1 s(1) by blast+
  have "settles (\<lambda>_. True) p1 (s2, p2)" using dofile_settles [OF r1(2), of "\<lambda>_. True" "''src/file.lua''" W] 2 by simp
  then have r2: "stopped p2 = None" using s(2) settles_running by blast
  have "origins p2 = origins p1 @ [FileChunk ''src/file.lua'']" using dofile_origins [OF r1(2)] 2 by (metis snd_conv)
  moreover have "origins p' = origins p2 @ init_origins init" using handle_luainit_origins [OF r2] s(3) by (metis snd_conv)
  moreover have "settles not_main p (0, p')" using prepare_settles [OF assms(2), of W init] assms(1) by simp
  then have "stopped p' = None \<and> trusted p' = trusted p" by (auto simp: settles_def)
  ultimately show ?thesis using r1(1) by simp
qed

lemma pmain_origins:
  assumes "pmain W file_system config init argv (new_process g) = Inr (status, p)"
    "tried p = before @ [(MainCall, Some perms, r)]" "list_all (\<lambda>(what, _). what \<noteq> MainCall) before"
    "load_tlv (file_system (argv ! 1)) = Inr prog" "wf_history (program_events prog)"
  shows "started_before W init (program_events prog) (map fst before)"
proof -
  let ?p0 = "new_process g :: ('a, 'b) process"
  have p0: "stopped ?p0 = None" "tried ?p0 = []" "trusted ?p0 = None" by (simp_all add: new_process_def)
  obtain s p1 where pr: "prepare W init ?p0 = (s, p1)" by fastforce
  have no_main: "\<not> list_all (under not_main None) (tried p)" using assms(2) by (simp add: under_def)
  have "settles not_main ?p0 (s, p1)" using prepare_settles [OF p0(1), of W init] pr by simp
  then have pre: "list_all (under not_main None) (tried p1)" using p0 by (auto simp: settles_def)
  have s: "s = 0" using pmain_prepare [OF assms(1) pr] no_main pre by (auto split: if_splits)
  with prepare_origins [of W init ?p0 p1] pr p0 have p1: "stopped p1 = None" "trusted p1 = None"
    "origins p1 = map (\<lambda>(f, _). FileChunk f) libraries @ [FileChunk ''src/file.lua''] @ init_origins init" by auto
  from pmain_prepare [OF assms(1) pr] s obtain s2 p2 where
    li: "load_image W file_system config argv 1 p1 = Inr (s2, p2)" and
    fin: "if stopped p2 \<noteq> None \<or> s2 \<noteq> 0 then p = p2
      else \<exists>s3. call_main W (p2\<lparr>calls := save_call_graph_depth 2 ''main'' (calls p2)\<rparr>) = (s3, p)" by auto
  from load_image_loaded [OF li p1(1)] obtain new where "loaded_by W config (argv ! 1) p1 new (s2, p2)" ..
  then have "list_all (under not_main None) (tried p2)" using pre p1(2) by (simp add: loaded_by_def)
  then obtain s3 where st: "stopped p2 = None"
    and "call_main W (p2\<lparr>calls := save_call_graph_depth 2 ''main'' (calls p2)\<rparr>) = (s3, p)"
    using fin no_main by (auto split: if_splits)
  with call_main_once obtain r2 where "tried p = tried p2 @ [(MainCall, trusted p2, r2)]" by fastforce
  with assms(2) have b: "before = tried p2" "trusted p2 = Some perms" by auto
  with load_image_origins [OF li p1(1,2) _ assms(4,5)] p1(3) show ?thesis
    by (auto simp: started_before_def)
qed


text \<open>An interpreter in which every file and text runs without effect, so that there is no main.\<close>

definition idle :: "(unit, unit) interpreter" where
  "idle = \<lparr>compile_text = \<lambda>_ _. Inr (), compile_file = \<lambda>_. Inr (), run_chunk = \<lambda>_ _ g. (Returns False, g),
     set_result = \<lambda>_ g. g, globals_of = \<lambda>_. [], debug_traceback = \<lambda>_. None,
     predicate_of = \<lambda>_. Some (\<lambda>_ _. RBool False)\<rparr>"

definition idle_permissions :: permissions where
  "idle_permissions = \<lparr>predicate_body = Some default_body, ask_always = 0, net_permitted = 0,
     permitted_fn = (\<lambda>_ _. RBool False)\<rparr>"

definition idle_before :: "attempt list" where
  "idle_before = map (\<lambda>(f, _). (FileChunk f, None, Returns False)) libraries @
     [(FileChunk ''src/file.lua'', None, Returns False)]"

abbreviation nil_call :: chunk_result where
  "nil_call \<equiv> Raises (Some (ErrString ''attempt to call a nil value''))"

lemma idle_permissions_loaded:
  "load_permissions_from_user_configuration (predicate_of idle) ''a.tlv'' None = Inr idle_permissions"
  by (simp add: load_permissions_from_user_configuration_def load_file_operations_predicate_def
      predicate_chunk_def predicate_head_def default_body_def initial_permissions_def idle_def
      validate_file_operations_predicate_def idle_permissions_def c_str_def Let_def)

lemma idle_call:
  "stopped p = None \<Longrightarrow> load_and_call idle (FileChunk f) (compile_file idle f) p =
     (Returns False, p\<lparr>tried := tried p @ [(FileChunk f, trusted p, Returns False)]\<rparr>)"
  by (cases p) (simp add: Let_def load_and_call_def docall_def lua_pcall_def attempted_def idle_def)

lemma idle_require:
  "stopped p = None \<Longrightarrow> require_all idle libs p = (0, p\<lparr>tried := tried p @
     map (\<lambda>(f, _). (FileChunk f, trusted p, Returns False)) libs\<rparr>)"
proof (induction libs arbitrary: p)
  case (Cons lib libs)
  obtain f n where lib: "lib = (f, n)" by (cases lib)
  have "set_result idle n (lua_state (p :: (unit, unit) process)) = lua_state p" by simp
  with Cons show ?case by (simp add: lib dorequire_def idle_call)
qed simp

lemma idle_image:
  "stopped p = None \<Longrightarrow> load_image idle (\<lambda>_. Some tlv_header) None [''teliva'', ''a.tlv''] (Suc 0) p =
     Inr (0, p\<lparr>arg_table := [(-1, ''teliva''), (0, ''a.tlv'')], program := [], function_names := Map.empty,
       calls := clear_caller (clear_call_graph_depth (calls p)), trusted := Some idle_permissions\<rparr>)"
proof -
  assume p: "stopped p = None"
  have g: "globals_of idle () = []" "load_tlv (Some tlv_header) = Inr None"
    using load_header by (simp_all add: idle_def save_tlv_def)
  show ?thesis
    using p g idle_permissions_loaded
    by (simp add: load_image_def program_events_def load_definitions_def load_definitions_down.simps test_calls_def
        run_tests_def precompute_names_of_globals_def set_args_def upt_rec)
qed

lemma idle_run:
  "\<exists>p. teliva_main idle (\<lambda>_. Some tlv_header) None None [''teliva'', ''a.tlv''] (new_process ()) = Inr (Some 1, p) \<and>
     tried p = idle_before @ [(MainCall, Some idle_permissions, nil_call)]"
proof -
  have g: "globals_of idle () = []" "debug_traceback idle () = None" by (simp_all add: idle_def)
  note One_nat_def [simp]
  show ?thesis
    by (simp add: teliva_main_def pmain_def idle_require idle_image dofile_def idle_call handle_luainit_def reported_def
        call_main_def traceback_def attempted_def report_in_developer_mode_def idle_before_def g new_process_def)
qed


text \<open>C15: no mistake in an image locks the user out of it: unless a chunk itself ends the program, the
  first error object that is not nil, from a library, LUA_INIT, a definition, a test or \<^verbatim>\<open>main\<close>
  itself, leads to developer mode with its message on the screen; but an error object that is
  neither a string nor a number crashes the program, because \<^verbatim>\<open>strdup\<close> is called before the test for
  \<^verbatim>\<open>NULL\<close>.\<close>

theorem errors_open_developer_mode:
  assumes "teliva_main W file_system config init argv (new_process g) = Inr (status, p)"
    and "first_error (tried p) = Some e"
    and "list_all (\<lambda>(_, _, r). case r of Stops _ \<Rightarrow> False | _ \<Rightarrow> True) (tried p)"
  shows "case e of
      ErrString msg \<Rightarrow> stopped p = Some DeveloperMode \<and> last_error p = Some msg
    | ErrOther \<Rightarrow> stopped p = Some Crashed"
proof -
  from assms(1) obtain st where "pmain W file_system config init argv (new_process g) = Inr (st, p)"
    by (auto simp: teliva_main_def bindR_Inr_iff split: if_splits)
  from pmain_run_of [OF this] obtain before where b: "run_of W config argv before p" ..
  have fe: "first_error before = None" if "\<not> list_all fine before" "list_all fine (butlast before)"
    "snd (snd (last before)) = Raises None" "before \<noteq> []"
  proof -
    have "first_error before = first_error (butlast before @ [last before])" using that(4) by simp
    also have "\<dots> = first_error [last before]"
      using that(2) by (simp only: first_error_append first_error_fine option.case)
    also have "\<dots> = None" using that(3) by (cases "last before") simp
    finally show ?thesis .
  qed
  have "ended_by (Raises (Some e)) p"
    using b assms(2,3) fe unfolding run_of_def
    by (elim conjE disjE exE)
      (fastforce simp: list_all_iff,
        auto simp: first_error_append first_error_fine split: if_splits option.splits chunk_result.splits)
  then show ?thesis by (cases e) (simp_all add: ended_by_def)
qed

theorem errors_open_developer_mode_witness:
  "\<exists>p. teliva_main idle (\<lambda>_. Some tlv_header) None None [''teliva'', ''a.tlv''] (new_process ()) = Inr (Some 1, p) \<and>
     stopped p = Some DeveloperMode \<and> last_error p = Some ''attempt to call a nil value''"
proof -
  from idle_run obtain p where p: "teliva_main idle (\<lambda>_. Some tlv_header) None None [''teliva'', ''a.tlv'']
      (new_process ()) = Inr (Some 1, p)"
    "tried p = idle_before @ [(MainCall, Some idle_permissions, nil_call)]" by blast
  have "first_error (tried p) = Some (ErrString ''attempt to call a nil value'')"
    by (simp add: p(2) idle_before_def libraries_def)
  from errors_open_developer_mode [OF p(1) this] p show ?thesis
    by (intro exI [of _ p]) (simp add: idle_before_def libraries_def)
qed

section \<open>What permissions can say about the command line\<close>

definition isarg :: "string list \<Rightarrow> string \<Rightarrow> bool" where
  "isarg argv arg = any_equal argv arg"

definition inarg :: "string list \<Rightarrow> string \<Rightarrow> bool" where
  "inarg argv arg = any_starts_with argv arg"

text \<open>The suggestion on the permissions screen is to restrict access to the paths under the directories on the
  command line.  The prefix has no boundary and the path is not normalised, so the test also admits a sibling
  and a path that leaves the directory; and the image itself is an argument, too.\<close>

lemma inarg_leaves_directory:
  "inarg [''teliva'', ''a.tlv'', ''notes''] ''notes/../secret''"
  "inarg [''teliva'', ''a.tlv'', ''notes''] ''notes-private/diary''"
  "inarg [''teliva'', ''a.tlv'', ''notes''] ''a.tlv''"
  by (simp_all add: inarg_def any_starts_with_def starts_with_def)

text \<open>The name of the configuration file; the program gives up without \<^verbatim>\<open>HOME\<close>, even when
  \<^verbatim>\<open>XDG_CONFIG_HOME\<close> is set.  A name of more than 1019 bytes is cut.\<close>

definition user_configuration_filename :: "string option \<Rightarrow> string option \<Rightarrow> string res" where
  "user_configuration_filename home config_home =
     (case home of
        None \<Rightarrow> Inl (ExitCode 134)
      | Some h \<Rightarrow> Inr (take 1019 ((case config_home of None \<Rightarrow> h | Some c \<Rightarrow> c) @ ''/.teliva'')))"

lemma long_home_is_cut:
  "length h \<ge> 1019 \<Longrightarrow> user_configuration_filename (Some h) None = Inr (take 1019 h)"
  by (simp add: user_configuration_filename_def)

end
