(* ===== verification/LuaPattern.thy ===== *)
theory LuaPattern
  imports Prelude
begin

text \<open>
  The pattern matcher of the Lua string library as Teliva ships it
  (\<^verbatim>\<open>src/lstrlib.c\<close>, from \<^verbatim>\<open>check_capture\<close> to \<^verbatim>\<open>match\<close>).  A pointer into the subject or
  the pattern is an index into it; both are followed by a zero byte, which is read like any
  other byte, and a read beyond it is the error \<open>OutOfBounds\<close>.  \<open>luaL_error\<close> is the value
  \<open>Inl (LuaError m)\<close>.  The array \<^verbatim>\<open>capture\<close> and its \<^verbatim>\<open>level\<close> are one list, the entries below
  the level; \<^verbatim>\<open>match\<close> returns it together with the end of the match, because a failed
  attempt has to undo its captures before the next one is tried.

  The recursion of \<^verbatim>\<open>match\<close> (its \<^verbatim>\<open>goto init\<close> included) spends one unit of fuel; since every
  call continues further right in the pattern, the length of the pattern is enough, which
  \<open>match_sound\<close> shows together with the absence of wild reads.
\<close>

section \<open>Characters and single items\<close>

definition char_at :: "string \<Rightarrow> nat \<Rightarrow> char res" where
  "char_at t i =
     (if i < length t then Inr (t ! i) else if i = length t then Inr NUL else Inl OutOfBounds)"

definition islower :: "char \<Rightarrow> bool" where
  "islower c \<longleftrightarrow> c \<in> set ''abcdefghijklmnopqrstuvwxyz''"

definition isupper :: "char \<Rightarrow> bool" where
  "isupper c \<longleftrightarrow> c \<in> set ''ABCDEFGHIJKLMNOPQRSTUVWXYZ''"

definition tolower :: "char \<Rightarrow> char" where
  "tolower c = (if isupper c then char_of ((of_char c :: nat) + 32) else c)"

definition toupper :: "char \<Rightarrow> char" where
  "toupper c = (if islower c then char_of ((of_char c :: nat) - 32) else c)"

definition iscntrl :: "char \<Rightarrow> bool" where
  "iscntrl c \<longleftrightarrow> (of_char c :: nat) < 32 \<or> (of_char c :: nat) = 127"

definition ispunct :: "char \<Rightarrow> bool" where
  "ispunct c \<longleftrightarrow> isprint c \<and> c \<noteq> SPC \<and> \<not> isalnum c"

definition isxdigit :: "char \<Rightarrow> bool" where
  "isxdigit c \<longleftrightarrow> isdigit c \<or> c \<in> set ''abcdefABCDEF''"

abbreviation L_ESC :: char where "L_ESC \<equiv> CHR ''%''"
definition SPECIALS :: string where "SPECIALS = ''^$*+?.([%-''"

text \<open>The loop of \<^verbatim>\<open>classend\<close> that looks for the closing bracket of a set.\<close>

function class_loop :: "string \<Rightarrow> nat \<Rightarrow> nat res" where
  "class_loop pat p =
     bindR (char_at pat p) (\<lambda>c.
       if c = NUL then Inl (LuaError ''malformed pattern (missing ])'')
       else
         bindR (if c = L_ESC
                then bindR (char_at pat (p + 1)) (\<lambda>d. Inr (if d \<noteq> NUL then p + 2 else p + 1))
                else Inr (p + 1)) (\<lambda>p'.
         bindR (char_at pat p') (\<lambda>d.
           if d = CHR '']'' then Inr (p' + 1)
           else class_loop pat p')))"
  by pat_completeness auto
termination
  by (relation "measure (\<lambda>(pat, p). Suc (length pat) - p)")
    (auto simp: char_at_def res_simps split: if_splits)

definition classend :: "string \<Rightarrow> nat \<Rightarrow> nat res" where
  "classend pat p =
     bindR (char_at pat p) (\<lambda>c.
       if c = L_ESC then
         bindR (char_at pat (p + 1)) (\<lambda>d.
           if d = NUL then Inl (LuaError ''malformed pattern (ends with %)'')
           else Inr (p + 2))
       else if c = CHR ''['' then
         bindR (char_at pat (p + 1)) (\<lambda>d. class_loop pat (if d = CHR ''^'' then p + 2 else p + 1))
       else Inr (p + 1))"

definition match_class :: "char \<Rightarrow> char \<Rightarrow> bool" where
  "match_class c cl =
     (let l = tolower cl in
      let known = (\<lambda>res. if islower cl then res else \<not> res) in
      if l = CHR ''a'' then known (isalpha c)
      else if l = CHR ''c'' then known (iscntrl c)
      else if l = CHR ''d'' then known (isdigit c)
      else if l = CHR ''l'' then known (islower c)
      else if l = CHR ''p'' then known (ispunct c)
      else if l = CHR ''s'' then known (isspace c)
      else if l = CHR ''u'' then known (isupper c)
      else if l = CHR ''w'' then known (isalnum c)
      else if l = CHR ''x'' then known (isxdigit c)
      else if l = CHR ''z'' then known (c = NUL)
      else cl = c)"

function bracket_loop :: "string \<Rightarrow> char \<Rightarrow> bool \<Rightarrow> nat \<Rightarrow> nat \<Rightarrow> bool res" where
  "bracket_loop pat c sig p ec =
     (let p = p + 1 in
      if p < ec then
        bindR (char_at pat p) (\<lambda>d.
          if d = L_ESC then
            bindR (char_at pat (p + 1)) (\<lambda>e.
              if match_class c e then Inr sig else bracket_loop pat c sig (p + 1) ec)
          else
            bindR (char_at pat (p + 1)) (\<lambda>e.
              if e = CHR ''-'' \<and> p + 2 < ec then
                bindR (char_at pat (p + 2)) (\<lambda>hi.
                  if (of_char d :: nat) \<le> of_char c \<and> (of_char c :: nat) \<le> of_char hi then Inr sig
                  else bracket_loop pat c sig (p + 2) ec)
              else if d = c then Inr sig
              else bracket_loop pat c sig p ec))
      else Inr (\<not> sig))"
  by pat_completeness auto
termination
  by (relation "measure (\<lambda>(pat, c, sig, p, ec). ec - p)") auto

definition matchbracketclass :: "string \<Rightarrow> char \<Rightarrow> nat \<Rightarrow> nat \<Rightarrow> bool res" where
  "matchbracketclass pat c p ec =
     bindR (char_at pat (p + 1)) (\<lambda>d.
       if d = CHR ''^'' then bracket_loop pat c False (p + 1) ec
       else bracket_loop pat c True p ec)"

definition singlematch :: "string \<Rightarrow> char \<Rightarrow> nat \<Rightarrow> nat \<Rightarrow> bool res" where
  "singlematch pat c p ep =
     bindR (char_at pat p) (\<lambda>d.
       if d = CHR ''.'' then Inr True
       else if d = L_ESC then bindR (char_at pat (p + 1)) (\<lambda>e. Inr (match_class c e))
       else if d = CHR ''['' then matchbracketclass pat c p (ep - 1)
       else Inr (d = c))"

section \<open>Captures\<close>

definition CAP_UNFINISHED :: int where "CAP_UNFINISHED = -1"
definition CAP_POSITION :: int where "CAP_POSITION = -2"
definition LUA_MAXCAPTURES :: nat where "LUA_MAXCAPTURES = 32"

type_synonym captures = "(nat \<times> int) list"

definition check_capture :: "captures \<Rightarrow> char \<Rightarrow> nat res" where
  "check_capture caps ch =
     (let l = int (of_char ch) - int (of_char (CHR ''1'')) in
      if l < 0 \<or> l \<ge> int (length caps) \<or> snd (caps ! nat l) = CAP_UNFINISHED
      then Inl (LuaError ''invalid capture index'') else Inr (nat l))"

fun close_from :: "captures \<Rightarrow> nat \<Rightarrow> nat res" where
  "close_from caps 0 = Inl (LuaError ''invalid pattern capture'')"
| "close_from caps (Suc level) =
     (if snd (caps ! level) = CAP_UNFINISHED then Inr level else close_from caps level)"

definition capture_to_close :: "captures \<Rightarrow> nat res" where
  "capture_to_close caps = close_from caps (length caps)"

definition size_t_of :: "int \<Rightarrow> nat" where
  "size_t_of i = nat (i mod 2 ^ 64)"

definition match_capture :: "string \<Rightarrow> captures \<Rightarrow> nat \<Rightarrow> char \<Rightarrow> nat option res" where
  "match_capture src caps s ch =
     bindR (check_capture caps ch) (\<lambda>l.
       let len = size_t_of (snd (caps ! l)) in
       if length src - s \<ge> len \<and> take len (drop (fst (caps ! l)) src) = take len (drop s src)
       then Inr (Some (s + len)) else Inr None)"

fun balance_loop :: "string \<Rightarrow> char \<Rightarrow> char \<Rightarrow> nat \<Rightarrow> string \<Rightarrow> nat \<Rightarrow> nat option" where
  "balance_loop src b e cont [] s = None"
| "balance_loop src b e cont (c # cs) s =
     (if c = e then
        if cont - 1 = 0 then Some (s + 1) else balance_loop src b e (cont - 1) cs (s + 1)
      else if c = b then balance_loop src b e (cont + 1) cs (s + 1)
      else balance_loop src b e cont cs (s + 1))"

definition matchbalance :: "string \<Rightarrow> nat \<Rightarrow> string \<Rightarrow> nat \<Rightarrow> nat option res" where
  "matchbalance src s pat p =
     bindR (char_at pat p) (\<lambda>b.
       if b = NUL then Inl (LuaError ''unbalanced pattern'')
       else bindR (char_at pat (p + 1)) (\<lambda>e.
         if e = NUL then Inl (LuaError ''unbalanced pattern'')
         else bindR (char_at src s) (\<lambda>c.
           if c \<noteq> b then Inr None
           else Inr (balance_loop src b e 1 (drop (s + 1) src) (s + 1)))))"


section \<open>The matcher\<close>

type_synonym attempt = "(captures \<times> nat option) res"

text \<open>
  \<open>k caps s p\<close> is the recursive call \<^verbatim>\<open>match(ms, s, p)\<close>; \<open>orelse\<close> is the test of its result
  for \<^verbatim>\<open>NULL\<close>.
\<close>

definition orelse :: "attempt \<Rightarrow> (captures \<Rightarrow> attempt) \<Rightarrow> attempt" where
  "orelse m f = bindR m (\<lambda>(caps, r). case r of None \<Rightarrow> f caps | Some e \<Rightarrow> Inr (caps, Some e))"

fun count_max :: "string \<Rightarrow> nat \<Rightarrow> nat \<Rightarrow> string \<Rightarrow> nat res" where
  "count_max pat p ep [] = Inr 0"
| "count_max pat p ep (c # cs) =
     bindR (singlematch pat c p ep) (\<lambda>m.
       if m then bindR (count_max pat p ep cs) (\<lambda>i. Inr (Suc i)) else Inr 0)"

fun try_max :: "(captures \<Rightarrow> nat \<Rightarrow> attempt) \<Rightarrow> captures \<Rightarrow> nat \<Rightarrow> nat \<Rightarrow> attempt" where
  "try_max k caps s 0 = k caps s"
| "try_max k caps s (Suc i) = orelse (k caps (s + Suc i)) (\<lambda>caps. try_max k caps s i)"

definition max_expand ::
  "(captures \<Rightarrow> nat \<Rightarrow> nat \<Rightarrow> attempt) \<Rightarrow> string \<Rightarrow> string \<Rightarrow> captures \<Rightarrow> nat \<Rightarrow> nat \<Rightarrow> nat \<Rightarrow> attempt" where
  "max_expand k src pat caps s p ep =
     bindR (count_max pat p ep (drop s src)) (\<lambda>i. try_max (\<lambda>caps s. k caps s (ep + 1)) caps s i)"

text \<open>The last argument is the rest of the subject from \<open>s\<close> on.\<close>

fun min_loop ::
  "(captures \<Rightarrow> nat \<Rightarrow> nat \<Rightarrow> attempt) \<Rightarrow> string \<Rightarrow> captures \<Rightarrow> nat \<Rightarrow> nat \<Rightarrow> nat \<Rightarrow> string \<Rightarrow> attempt" where
  "min_loop k pat caps s p ep [] = k caps s (ep + 1)"
| "min_loop k pat caps s p ep (c # cs) =
     orelse (k caps s (ep + 1)) (\<lambda>caps.
       bindR (singlematch pat c p ep) (\<lambda>m.
         if m then min_loop k pat caps (s + 1) p ep cs else Inr (caps, None)))"

definition min_expand ::
  "(captures \<Rightarrow> nat \<Rightarrow> nat \<Rightarrow> attempt) \<Rightarrow> string \<Rightarrow> string \<Rightarrow> captures \<Rightarrow> nat \<Rightarrow> nat \<Rightarrow> nat \<Rightarrow> attempt" where
  "min_expand k src pat caps s p ep = min_loop k pat caps s p ep (drop s src)"

definition start_capture ::
  "(captures \<Rightarrow> nat \<Rightarrow> nat \<Rightarrow> attempt) \<Rightarrow> captures \<Rightarrow> nat \<Rightarrow> nat \<Rightarrow> int \<Rightarrow> attempt" where
  "start_capture k caps s p what =
     (if length caps \<ge> LUA_MAXCAPTURES then Inl (LuaError ''too many captures'')
      else orelse (k (caps @ [(s, what)]) s p) (\<lambda>caps. Inr (butlast caps, None)))"

definition end_capture ::
  "(captures \<Rightarrow> nat \<Rightarrow> nat \<Rightarrow> attempt) \<Rightarrow> captures \<Rightarrow> nat \<Rightarrow> nat \<Rightarrow> attempt" where
  "end_capture k caps s p =
     bindR (capture_to_close caps) (\<lambda>l.
       orelse (k (caps[l := (fst (caps ! l), int s - int (fst (caps ! l)))]) s p) (\<lambda>caps.
         Inr (caps[l := (fst (caps ! l), CAP_UNFINISHED)], None)))"

text \<open>The label \<^verbatim>\<open>dflt\<close>: a pattern item and what may follow it.\<close>

definition match_item ::
  "(captures \<Rightarrow> nat \<Rightarrow> nat \<Rightarrow> attempt) \<Rightarrow> string \<Rightarrow> string \<Rightarrow> captures \<Rightarrow> nat \<Rightarrow> nat \<Rightarrow> attempt" where
  "match_item k src pat caps s p =
     bindR (classend pat p) (\<lambda>ep.
     bindR (if s < length src then singlematch pat (src ! s) p ep else Inr False) (\<lambda>m.
     bindR (char_at pat ep) (\<lambda>x.
       if x = CHR ''?'' then
         (if m then orelse (k caps (s + 1) (ep + 1)) (\<lambda>caps. k caps s (ep + 1))
          else k caps s (ep + 1))
       else if x = CHR ''*'' then max_expand k src pat caps s p ep
       else if x = CHR ''+'' then
         (if m then max_expand k src pat caps (s + 1) p ep else Inr (caps, None))
       else if x = CHR ''-'' then min_expand k src pat caps s p ep
       else if m then k caps (s + 1) ep else Inr (caps, None))))"

definition match_frontier ::
  "(captures \<Rightarrow> nat \<Rightarrow> nat \<Rightarrow> attempt) \<Rightarrow> string \<Rightarrow> string \<Rightarrow> captures \<Rightarrow> nat \<Rightarrow> nat \<Rightarrow> attempt" where
  "match_frontier k src pat caps s p =
     bindR (char_at pat p) (\<lambda>c.
       if c \<noteq> CHR ''['' then Inl (LuaError ''missing [ after %f in pattern'')
       else
         bindR (classend pat p) (\<lambda>ep.
         bindR (matchbracketclass pat (if s = 0 then NUL else src ! (s - 1)) p (ep - 1)) (\<lambda>before.
           if before then Inr (caps, None)
           else
             bindR (char_at src s) (\<lambda>c.
             bindR (matchbracketclass pat c p (ep - 1)) (\<lambda>here.
               if \<not> here then Inr (caps, None) else k caps s ep)))))"

definition match_step ::
  "(captures \<Rightarrow> nat \<Rightarrow> nat \<Rightarrow> attempt) \<Rightarrow> string \<Rightarrow> string \<Rightarrow> captures \<Rightarrow> nat \<Rightarrow> nat \<Rightarrow> attempt" where
  "match_step k src pat caps s p =
     bindR (char_at pat p) (\<lambda>c.
       if c = CHR ''('' then
         bindR (char_at pat (p + 1)) (\<lambda>d.
           if d = CHR '')'' then start_capture k caps s (p + 2) CAP_POSITION
           else start_capture k caps s (p + 1) CAP_UNFINISHED)
       else if c = CHR '')'' then end_capture k caps s (p + 1)
       else if c = L_ESC then
         bindR (char_at pat (p + 1)) (\<lambda>d.
           if d = CHR ''b'' then
             bindR (matchbalance src s pat (p + 2)) (\<lambda>r.
               case r of None \<Rightarrow> Inr (caps, None) | Some s' \<Rightarrow> k caps s' (p + 4))
           else if d = CHR ''f'' then match_frontier k src pat caps s (p + 2)
           else if isdigit d then
             bindR (match_capture src caps s d) (\<lambda>r.
               case r of None \<Rightarrow> Inr (caps, None) | Some s' \<Rightarrow> k caps s' (p + 2))
           else match_item k src pat caps s p)
       else if c = NUL then Inr (caps, Some s)
       else if c = CHR ''$'' then
         bindR (char_at pat (p + 1)) (\<lambda>d.
           if d = NUL then Inr (caps, if s = length src then Some s else None)
           else match_item k src pat caps s p)
       else match_item k src pat caps s p)"

fun match :: "nat \<Rightarrow> string \<Rightarrow> string \<Rightarrow> captures \<Rightarrow> nat \<Rightarrow> nat \<Rightarrow> attempt" where
  "match 0 src pat caps s p = Inl OutOfFuel"
| "match (Suc n) src pat caps s p = match_step (match n src pat) src pat caps s p"

definition do_match :: "string \<Rightarrow> string \<Rightarrow> nat \<Rightarrow> nat \<Rightarrow> attempt" where
  "do_match src pat s p = match (Suc (length pat)) src pat [] s p"

section \<open>No wild reads, and enough fuel\<close>

declare class_loop.simps [simp del] bracket_loop.simps [simp del]

lemma sound_char_at: "i \<le> length t \<Longrightarrow> sound (char_at t i) (\<lambda>c. c \<noteq> NUL \<longrightarrow> i < length t \<and> c = t ! i)"
  by (simp add: char_at_def)

lemma char_at_inside: "char_at t i = Inr c \<Longrightarrow> c \<noteq> NUL \<Longrightarrow> i < length t"
  by (auto simp: char_at_def split: if_splits)

lemma class_loop_sound: "p \<le> length pat \<Longrightarrow> sound (class_loop pat p) (\<lambda>ep. p < ep \<and> ep \<le> length pat)"
proof (induction pat p rule: class_loop.induct)
  case (1 pat p)
  let ?step = "\<lambda>c. if c = L_ESC
                then bindR (char_at pat (p + 1)) (\<lambda>d. Inr (if d \<noteq> NUL then p + 2 else p + 1))
                else Inr (p + 1) :: nat res"
  have step: "sound (?step c) (\<lambda>p'. p < p' \<and> p' \<le> length pat)" if "p < length pat" for c
    using that by (auto intro!: sound_bindR [OF sound_char_at])
  show ?case
  proof (subst class_loop.simps, rule sound_bindR [OF sound_char_at [OF "1.prems"]])
    fix c
    assume c: "char_at pat p = Inr c" "c \<noteq> NUL \<longrightarrow> p < length pat \<and> c = pat ! p"
    show "sound (if c = NUL then Inl (LuaError ''malformed pattern (missing ])'')
       else bindR (?step c) (\<lambda>p'. bindR (char_at pat p')
         (\<lambda>d. if d = CHR '']'' then Inr (p' + 1) else class_loop pat p')))
       (\<lambda>ep. p < ep \<and> ep \<le> length pat)"
    proof (cases "c = NUL")
      case False
      then have "p < length pat" using c by simp
      show ?thesis unfolding if_not_P [OF False]
      proof (rule sound_bindR [OF step [OF \<open>p < length pat\<close>]])
        fix p'
        assume p': "?step c = Inr p'" "p < p' \<and> p' \<le> length pat"
        show "sound (bindR (char_at pat p') (\<lambda>d. if d = CHR '']'' then Inr (p' + 1) else class_loop pat p'))
           (\<lambda>ep. p < ep \<and> ep \<le> length pat)"
        proof (rule sound_bindR [OF sound_char_at])
          fix d
          assume d: "char_at pat p' = Inr d" "d \<noteq> NUL \<longrightarrow> p' < length pat \<and> d = pat ! p'"
          show "sound (if d = CHR '']'' then Inr (p' + 1) else class_loop pat p')
            (\<lambda>ep. p < ep \<and> ep \<le> length pat)"
          proof (cases "d = CHR '']''")
            case True
            with d p' show ?thesis by simp
          next
            case False
            have "sound (class_loop pat p') (\<lambda>ep. p' < ep \<and> ep \<le> length pat)"
              using "1.IH" [OF c(1) \<open>c \<noteq> NUL\<close> p'(1) d(1) False] p' by simp
            with False p' show ?thesis by (auto elim: sound_mono)
          qed
        qed (use p' in simp)
      qed
    qed simp
  qed
qed

lemma classend_sound:
  assumes "p < length pat"
  shows "sound (classend pat p) (\<lambda>ep. p < ep \<and> ep \<le> length pat)"
proof (unfold classend_def, rule sound_bindR [OF sound_char_at])
  fix c
  have cl: "sound (class_loop pat q) (\<lambda>ep. p < ep \<and> ep \<le> length pat)" if "p < q" "q \<le> length pat" for q
    using sound_mono [OF class_loop_sound [OF that(2)]] that(1) by auto
  show "sound (if c = L_ESC then bindR (char_at pat (p + 1)) (\<lambda>d.
           if d = NUL then Inl (LuaError ''malformed pattern (ends with %)'') else Inr (p + 2))
       else if c = CHR ''['' then
         bindR (char_at pat (p + 1)) (\<lambda>d. class_loop pat (if d = CHR ''^'' then p + 2 else p + 1))
       else Inr (p + 1)) (\<lambda>ep. p < ep \<and> ep \<le> length pat)"
    using assms by (auto intro!: sound_bindR [OF sound_char_at] cl split: if_splits)
qed (use assms in simp)

lemma bracket_loop_sound: "ec \<le> length pat \<Longrightarrow> sound (bracket_loop pat c sig p ec) (\<lambda>_. True)"
proof (induction pat c sig p ec rule: bracket_loop.induct)
  case (1 pat c sig p ec)
  show ?case
  proof (cases "p + 1 < ec")
    case True
    note IH = "1.IH" [OF refl True]
    show ?thesis
      using "1.prems" True IH
      by (subst bracket_loop.simps) (auto simp: Let_def intro!: sound_bindR [OF sound_char_at] split: if_splits)
  qed (simp add: bracket_loop.simps)
qed

lemma matchbracketclass_sound:
  "p < length pat \<Longrightarrow> ec \<le> length pat \<Longrightarrow> sound (matchbracketclass pat c p ec) (\<lambda>_. True)"
  by (auto simp: matchbracketclass_def intro!: sound_bindR [OF sound_char_at] bracket_loop_sound split: if_splits)

lemma singlematch_sound:
  "p < length pat \<Longrightarrow> ep \<le> length pat \<Longrightarrow> sound (singlematch pat c p ep) (\<lambda>_. True)"
  by (auto simp: singlematch_def intro!: sound_bindR [OF sound_char_at] matchbracketclass_sound split: if_splits)

section \<open>What a match leaves behind\<close>

text \<open>
  A capture is open, a position, or a stretch of the subject that starts at or after the start
  \<open>lo\<close> of the attempt and ends before the point reached.  A failed attempt leaves the captures as they were before it.
\<close>

definition cap_ok :: "nat \<Rightarrow> nat \<Rightarrow> nat \<times> int \<Rightarrow> bool" where
  "cap_ok lo s c \<longleftrightarrow> lo \<le> fst c \<and> fst c \<le> s \<and>
     (snd c = CAP_UNFINISHED \<or> snd c = CAP_POSITION \<or> 0 \<le> snd c \<and> int (fst c) + snd c \<le> int s)"

definition caps_ok :: "nat \<Rightarrow> nat \<Rightarrow> captures \<Rightarrow> bool" where
  "caps_ok lo s caps \<longleftrightarrow> lo \<le> s \<and> list_all (cap_ok lo s) caps \<and> length caps \<le> LUA_MAXCAPTURES"

definition outcome_ok :: "nat \<Rightarrow> string \<Rightarrow> nat \<Rightarrow> captures \<Rightarrow> captures \<times> nat option \<Rightarrow> bool" where
  "outcome_ok lo src s caps r \<longleftrightarrow>
     (case snd r of None \<Rightarrow> fst r = caps
      | Some e \<Rightarrow> s \<le> e \<and> e \<le> length src \<and> caps_ok lo e (fst r))"

abbreviation good_attempt :: "nat \<Rightarrow> string \<Rightarrow> nat \<Rightarrow> captures \<Rightarrow> attempt \<Rightarrow> bool" where
  "good_attempt lo src s caps r \<equiv> sound r (outcome_ok lo src s caps)"

definition good_rest :: "nat \<Rightarrow> string \<Rightarrow> string \<Rightarrow> nat \<Rightarrow> (captures \<Rightarrow> nat \<Rightarrow> nat \<Rightarrow> attempt) \<Rightarrow> bool" where
  "good_rest lo src pat p k \<longleftrightarrow>
     (\<forall>caps s q. caps_ok lo s caps \<longrightarrow> s \<le> length src \<longrightarrow> p < q \<longrightarrow> q \<le> length pat \<longrightarrow> good_attempt lo src s caps (k caps s q))"

lemma good_restD:
  "good_rest lo src pat p k \<Longrightarrow> caps_ok lo s caps \<Longrightarrow> s \<le> length src \<Longrightarrow> p < q \<Longrightarrow> q \<le> length pat \<Longrightarrow>
     good_attempt lo src s caps (k caps s q)"
  by (simp add: good_rest_def)

lemma caps_ok_later: "caps_ok lo s caps \<Longrightarrow> s \<le> s' \<Longrightarrow> caps_ok lo s' caps"
  by (auto simp: caps_ok_def cap_ok_def list_all_iff)

lemma good_earlier: "good_attempt lo src s' caps r \<Longrightarrow> s \<le> s' \<Longrightarrow> good_attempt lo src s caps r"
  by (erule sound_mono) (auto simp: outcome_ok_def split: option.splits)

lemma outcome_fail [simp]: "outcome_ok lo src s caps (caps, None)"
  by (simp add: outcome_ok_def)

lemma good_orelse:
  assumes "good_attempt lo src s caps m" "good_attempt lo src s caps (f caps)"
  shows "good_attempt lo src s caps (orelse m f)"
  unfolding orelse_def
  by (rule sound_bindR [OF assms(1)])
    (use assms(2) in \<open>auto simp: outcome_ok_def split: option.splits\<close>)

lemma count_max_sound:
  "p < length pat \<Longrightarrow> ep \<le> length pat \<Longrightarrow> sound (count_max pat p ep cs) (\<lambda>i. i \<le> length cs)"
proof (induction cs)
  case (Cons c cs)
  show ?case
  proof (simp only: count_max.simps, rule sound_bindR [OF singlematch_sound [OF Cons.prems]])
    fix m
    show "sound (if m then bindR (count_max pat p ep cs) (\<lambda>i. Inr (Suc i)) else Inr 0) (\<lambda>i. i \<le> length (c # cs))"
      using sound_bindR [OF Cons.IH [OF Cons.prems], of "\<lambda>i. Inr (Suc i)" "\<lambda>i. i \<le> length (c # cs)"]
      by simp
  qed
qed simp

lemma try_max_good:
  assumes "\<And>j. j \<le> i \<Longrightarrow> good_attempt lo src (s + j) caps (k caps (s + j))"
  shows "good_attempt lo src s caps (try_max k caps s i)"
  using assms
proof (induction i)
  case 0
  from this [of 0] show ?case by simp
next
  case (Suc i)
  have "good_attempt lo src (s + Suc i) caps (k caps (s + Suc i))" by (rule Suc.prems) simp
  then have "good_attempt lo src s caps (k caps (s + Suc i))" by (rule good_earlier) simp
  moreover have "good_attempt lo src s caps (try_max k caps s i)" by (rule Suc.IH) (simp add: Suc.prems)
  ultimately show ?case by (simp add: good_orelse)
qed

lemma max_expand_good:
  assumes "good_rest lo src pat p k" "caps_ok lo s caps" "s \<le> length src" "p < ep" "ep < length pat"
  shows "good_attempt lo src s caps (max_expand k src pat caps s p ep)"
proof (unfold max_expand_def, rule sound_bindR [OF count_max_sound])
  fix i
  assume i: "i \<le> length (drop s src)"
  show "good_attempt lo src s caps (try_max (\<lambda>caps s. k caps s (ep + 1)) caps s i)"
    using assms i by (intro try_max_good good_restD [OF assms(1)]) (auto intro: caps_ok_later)
qed (use assms in simp_all)

lemma min_loop_good:
  assumes "good_rest lo src pat p k" "p < ep" "ep < length pat"
  shows "caps_ok lo s caps \<Longrightarrow> s + length cs = length src \<Longrightarrow> good_attempt lo src s caps (min_loop k pat caps s p ep cs)"
proof (induction cs arbitrary: s)
  case Nil
  with assms show ?case by (auto intro: good_restD)
next
  case (Cons c cs)
  have now: "good_attempt lo src s caps (k caps s (ep + 1))"
    using Cons.prems assms by (intro good_restD [OF assms(1)]) auto
  have "good_attempt lo src (s + 1) caps (min_loop k pat caps (s + 1) p ep cs)"
    using Cons.prems by (intro Cons.IH) (auto intro: caps_ok_later)
  then have "good_attempt lo src s caps (min_loop k pat caps (s + 1) p ep cs)"
    by (rule good_earlier) simp
  then have "good_attempt lo src s caps (bindR (singlematch pat c p ep) (\<lambda>m.
      if m then min_loop k pat caps (s + 1) p ep cs else Inr (caps, None)))"
    using assms(2,3) by (intro sound_bindR [OF singlematch_sound]) (auto simp: outcome_ok_def)
  with now show ?case by (simp add: good_orelse)
qed

lemma min_expand_good:
  assumes "good_rest lo src pat p k" "caps_ok lo s caps" "s \<le> length src" "p < ep" "ep < length pat"
  shows "good_attempt lo src s caps (min_expand k src pat caps s p ep)"
  unfolding min_expand_def by (rule min_loop_good) (use assms in auto)

lemma good_orelse_undo:
  assumes "good_attempt lo src s caps' m" "f caps' = Inr (caps, None)"
  shows "good_attempt lo src s caps (orelse m f)"
  unfolding orelse_def
  by (rule sound_bindR [OF assms(1)])
    (use assms(2) in \<open>auto simp: outcome_ok_def split: option.splits\<close>)

lemma start_capture_good:
  assumes "good_rest lo src pat p k" "caps_ok lo s caps" "s \<le> length src" "p < q" "q \<le> length pat"
    "what = CAP_POSITION \<or> what = CAP_UNFINISHED"
  shows "good_attempt lo src s caps (start_capture k caps s q what)"
proof (cases "LUA_MAXCAPTURES \<le> length caps")
  case False
  then have "caps_ok lo s (caps @ [(s, what)])"
    using assms(2,6) by (auto simp: caps_ok_def cap_ok_def)
  then have "good_attempt lo src s (caps @ [(s, what)]) (k (caps @ [(s, what)]) s q)"
    using assms by (intro good_restD [OF assms(1)])
  with False show ?thesis
    unfolding start_capture_def by (auto intro: good_orelse_undo)
qed (simp add: start_capture_def)

lemma close_from_sound:
  "n \<le> length caps \<Longrightarrow> sound (close_from caps n) (\<lambda>l. l < length caps \<and> snd (caps ! l) = CAP_UNFINISHED)"
  by (induction n) auto

lemma end_capture_good:
  assumes "good_rest lo src pat p k" "caps_ok lo s caps" "s \<le> length src" "p < q" "q \<le> length pat"
  shows "good_attempt lo src s caps (end_capture k caps s q)"
  unfolding end_capture_def capture_to_close_def
proof (rule sound_bindR [OF close_from_sound])
  fix l
  assume l: "l < length caps \<and> snd (caps ! l) = CAP_UNFINISHED"
  let ?caps = "caps[l := (fst (caps ! l), int s - int (fst (caps ! l)))]"
  from l assms(2) have i: "fst (caps ! l) \<le> s"
    by (auto simp: caps_ok_def cap_ok_def list_all_length)
  have "caps_ok lo s ?caps"
    using assms(2) i l
    by (auto simp: caps_ok_def list_all_length nth_list_update) (auto simp: cap_ok_def)
  then have "good_attempt lo src s ?caps (k ?caps s q)"
    using assms by (intro good_restD [OF assms(1)])
  moreover have "(fst (caps ! l), CAP_UNFINISHED) = caps ! l"
    using l by (metis prod.collapse)
  ultimately show "good_attempt lo src s caps (orelse (k ?caps s q)
      (\<lambda>caps. Inr (caps[l := (fst (caps ! l), CAP_UNFINISHED)], None)))"
    using l by (auto intro!: good_orelse_undo)
qed simp

lemma match_item_good:
  assumes "good_rest lo src pat p k" "caps_ok lo s caps" "s \<le> length src" "p < length pat"
  shows "good_attempt lo src s caps (match_item k src pat caps s p)"
  unfolding match_item_def
proof (rule sound_bindR [OF classend_sound [OF assms(4)]], rule sound_bindR [where Q = "\<lambda>m. m \<longrightarrow> s < length src"])
  fix ep
  assume ep: "p < ep \<and> ep \<le> length pat"
  then show "sound (if s < length src then singlematch pat (src ! s) p ep else Inr False)
     (\<lambda>m. m \<longrightarrow> s < length src)"
    using sound_mono [OF singlematch_sound [OF assms(4)]] by auto
  fix m
  assume m: "m \<longrightarrow> s < length src"
  have k: "good_attempt lo src s caps (k caps s' q)" if "s \<le> s'" "s' \<le> length src" "p < q" "q \<le> length pat" for s' q
    using good_earlier [OF good_restD [OF assms(1) caps_ok_later [OF assms(2) that(1)] that(2-4)] that(1)] .
  show "good_attempt lo src s caps (bindR (char_at pat ep) (\<lambda>x.
      if x = CHR ''?'' then
        if m then orelse (k caps (s + 1) (ep + 1)) (\<lambda>caps. k caps s (ep + 1)) else k caps s (ep + 1)
      else if x = CHR ''*'' then max_expand k src pat caps s p ep
      else if x = CHR ''+'' then if m then max_expand k src pat caps (s + 1) p ep else Inr (caps, None)
      else if x = CHR ''-'' then min_expand k src pat caps s p ep
      else if m then k caps (s + 1) ep else Inr (caps, None)))"
  proof (rule sound_bindR [OF sound_char_at])
    fix x
    assume x: "x \<noteq> NUL \<longrightarrow> ep < length pat \<and> x = pat ! ep"
    have plus: "m \<Longrightarrow> ep < length pat \<Longrightarrow> good_attempt lo src s caps (max_expand k src pat caps (s + 1) p ep)"
    proof (rule good_earlier [where s' = "s + 1"])
      assume "m" "ep < length pat"
      then show "good_attempt lo src (s + 1) caps (max_expand k src pat caps (s + 1) p ep)"
        using ep m caps_ok_later [OF assms(2), of "s + 1"]
        by (intro max_expand_good [OF assms(1)]) simp_all
    qed simp
    have maxx: "ep < length pat \<Longrightarrow> good_attempt lo src s caps (max_expand k src pat caps s p ep)"
      using ep assms by (intro max_expand_good [OF assms(1)]) auto
    have minn: "ep < length pat \<Longrightarrow> good_attempt lo src s caps (min_expand k src pat caps s p ep)"
      using ep assms by (intro min_expand_good [OF assms(1)]) auto
    show "good_attempt lo src s caps (if x = CHR ''?'' then
        if m then orelse (k caps (s + 1) (ep + 1)) (\<lambda>caps. k caps s (ep + 1)) else k caps s (ep + 1)
      else if x = CHR ''*'' then max_expand k src pat caps s p ep
      else if x = CHR ''+'' then if m then max_expand k src pat caps (s + 1) p ep else Inr (caps, None)
      else if x = CHR ''-'' then min_expand k src pat caps s p ep
      else if m then k caps (s + 1) ep else Inr (caps, None))"
    proof -
      have one: "m \<Longrightarrow> good_attempt lo src s caps (k caps (s + 1) ep)"
        using ep m by (intro k) simp_all
      have skip: "ep < length pat \<Longrightarrow> good_attempt lo src s caps (k caps s (ep + 1))"
        using ep assms(3) by (intro k) simp_all
      have opt: "m \<Longrightarrow> ep < length pat \<Longrightarrow>
          good_attempt lo src s caps (orelse (k caps (s + 1) (ep + 1)) (\<lambda>caps. k caps s (ep + 1)))"
proof (rule good_orelse)
        assume "m" "ep < length pat"
        then show "good_attempt lo src s caps (k caps (s + 1) (ep + 1))" using ep m by (intro k) simp_all
        from \<open>ep < length pat\<close> show "good_attempt lo src s caps (k caps s (ep + 1))" by (rule skip)
      qed
      show ?thesis using x one skip opt plus maxx minn by simp
    qed
  qed (use ep in simp)
qed

lemma match_frontier_good:
  assumes "good_rest lo src pat p k" "caps_ok lo s caps" "s \<le> length src" "p < q" "q \<le> length pat"
  shows "good_attempt lo src s caps (match_frontier k src pat caps s q)"
  unfolding match_frontier_def
proof (rule sound_bindR [OF sound_char_at [OF assms(5)]])
  fix c
  assume c: "c \<noteq> NUL \<longrightarrow> q < length pat \<and> c = pat ! q"
  have "good_attempt lo src s caps (bindR (classend pat q) (\<lambda>ep.
      bindR (matchbracketclass pat (if s = 0 then NUL else src ! (s - 1)) q (ep - 1)) (\<lambda>before.
        if before then Inr (caps, None)
        else bindR (char_at src s) (\<lambda>c. bindR (matchbracketclass pat c q (ep - 1)) (\<lambda>here.
            if \<not> here then Inr (caps, None) else k caps s ep)))))" if q: "q < length pat"
  proof (rule sound_bindR [OF classend_sound [OF q]])
    fix ep
    assume ep: "q < ep \<and> ep \<le> length pat"
    then have bracket: "sound (matchbracketclass pat d q (ep - 1)) (\<lambda>_. True)" for d
      using q by (intro matchbracketclass_sound) auto
    have "good_attempt lo src s caps (k caps s ep)"
      using ep assms by (intro good_restD [OF assms(1)]) auto
    then have "good_attempt lo src s caps (bindR (char_at src s) (\<lambda>c. bindR (matchbracketclass pat c q (ep - 1)) (\<lambda>here.
            if \<not> here then Inr (caps, None) else k caps s ep)))"
      using assms(3)
      by (intro sound_bindR [OF sound_char_at] sound_bindR [OF bracket]) (auto simp: outcome_ok_def)
    then show "good_attempt lo src s caps (bindR (matchbracketclass pat (if s = 0 then NUL else src ! (s - 1)) q (ep - 1)) (\<lambda>before.
        if before then Inr (caps, None)
        else bindR (char_at src s) (\<lambda>c. bindR (matchbracketclass pat c q (ep - 1)) (\<lambda>here.
            if \<not> here then Inr (caps, None) else k caps s ep))))"
      by (intro sound_bindR [OF bracket]) (auto simp: outcome_ok_def)
  qed
  with c show "good_attempt lo src s caps (if c \<noteq> CHR ''['' then Inl (LuaError ''missing [ after %f in pattern'')
      else bindR (classend pat q) (\<lambda>ep.
      bindR (matchbracketclass pat (if s = 0 then NUL else src ! (s - 1)) q (ep - 1)) (\<lambda>before.
        if before then Inr (caps, None)
        else bindR (char_at src s) (\<lambda>c. bindR (matchbracketclass pat c q (ep - 1)) (\<lambda>here.
            if \<not> here then Inr (caps, None) else k caps s ep)))))"
    by auto
qed

lemma balance_loop_range: "balance_loop src b e cont cs s = Some s' \<Longrightarrow> s < s' \<and> s' \<le> s + length cs"
  by (induction src b e cont cs s rule: balance_loop.induct) (auto split: if_splits)

lemma matchbalance_sound:
  assumes "s \<le> length src" "p \<le> length pat"
  shows "sound (matchbalance src s pat p)
    (\<lambda>r. p + 2 \<le> length pat \<and> (\<forall>s'. r = Some s' \<longrightarrow> s < s' \<and> s' \<le> length src))"
  unfolding matchbalance_def
proof (rule sound_bindR [OF sound_char_at [OF assms(2)]])
  fix b
  assume b: "b \<noteq> NUL \<longrightarrow> p < length pat \<and> b = pat ! p"
  have "sound (bindR (char_at pat (p + 1)) (\<lambda>e.
         if e = NUL then Inl (LuaError ''unbalanced pattern'')
         else bindR (char_at src s) (\<lambda>c.
           if c \<noteq> b then Inr None else Inr (balance_loop src b e 1 (drop (s + 1) src) (s + 1)))))
     (\<lambda>r. p + 2 \<le> length pat \<and> (\<forall>s'. r = Some s' \<longrightarrow> s < s' \<and> s' \<le> length src))"
    if "b \<noteq> NUL"
  proof (rule sound_bindR [OF sound_char_at])
    fix e
    assume e: "e \<noteq> NUL \<longrightarrow> p + 1 < length pat \<and> e = pat ! (p + 1)"
    have "sound (bindR (char_at src s) (\<lambda>c.
           if c \<noteq> b then Inr None else Inr (balance_loop src b e 1 (drop (s + 1) src) (s + 1))))
       (\<lambda>r. \<forall>s'. r = Some s' \<longrightarrow> s < s' \<and> s' \<le> length src)"
    proof (rule sound_bindR [OF sound_char_at [OF assms(1)]])
      fix c
      assume c: "c \<noteq> NUL \<longrightarrow> s < length src \<and> c = src ! s"
      show "sound (if c \<noteq> b then Inr None else Inr (balance_loop src b e 1 (drop (s + 1) src) (s + 1)))
         (\<lambda>r. \<forall>s'. r = Some s' \<longrightarrow> s < s' \<and> s' \<le> length src)"
        using c that balance_loop_range [of src b e 1 "drop (s + 1) src" "s + 1"] by fastforce
    qed
    with e show "sound (if e = NUL then Inl (LuaError ''unbalanced pattern'')
         else bindR (char_at src s) (\<lambda>c.
           if c \<noteq> b then Inr None else Inr (balance_loop src b e 1 (drop (s + 1) src) (s + 1))))
       (\<lambda>r. p + 2 \<le> length pat \<and> (\<forall>s'. r = Some s' \<longrightarrow> s < s' \<and> s' \<le> length src))"
      by (auto elim: sound_mono)
  qed (use b that in simp)
  then show "sound (if b = NUL then Inl (LuaError ''unbalanced pattern'')
       else bindR (char_at pat (p + 1)) (\<lambda>e.
         if e = NUL then Inl (LuaError ''unbalanced pattern'')
         else bindR (char_at src s) (\<lambda>c.
           if c \<noteq> b then Inr None else Inr (balance_loop src b e 1 (drop (s + 1) src) (s + 1)))))
     (\<lambda>r. p + 2 \<le> length pat \<and> (\<forall>s'. r = Some s' \<longrightarrow> s < s' \<and> s' \<le> length src))"
    by simp
qed

lemma match_capture_sound:
  "s \<le> length src \<Longrightarrow>
     sound (match_capture src caps s c) (\<lambda>r. \<forall>s'. r = Some s' \<longrightarrow> s \<le> s' \<and> s' \<le> length src)"
  unfolding match_capture_def
  by (rule sound_bindR [where Q = "\<lambda>_. True"]) (auto simp: check_capture_def Let_def)

lemma match_step_good:
  assumes "good_rest lo src pat p k" "caps_ok lo s caps" "s \<le> length src" "p \<le> length pat"
  shows "good_attempt lo src s caps (match_step k src pat caps s p)"
  unfolding match_step_def
proof (rule sound_bindR [OF sound_char_at [OF assms(4)]])
  fix c
  assume c: "c \<noteq> NUL \<longrightarrow> p < length pat \<and> c = pat ! p"
  show "good_attempt lo src s caps (if c = CHR ''('' then
         bindR (char_at pat (p + 1)) (\<lambda>d.
           if d = CHR '')'' then start_capture k caps s (p + 2) CAP_POSITION
           else start_capture k caps s (p + 1) CAP_UNFINISHED)
       else if c = CHR '')'' then end_capture k caps s (p + 1)
       else if c = L_ESC then
         bindR (char_at pat (p + 1)) (\<lambda>d.
           if d = CHR ''b'' then
             bindR (matchbalance src s pat (p + 2)) (\<lambda>r.
               case r of None \<Rightarrow> Inr (caps, None) | Some s' \<Rightarrow> k caps s' (p + 4))
           else if d = CHR ''f'' then match_frontier k src pat caps s (p + 2)
           else if isdigit d then
             bindR (match_capture src caps s d) (\<lambda>r.
               case r of None \<Rightarrow> Inr (caps, None) | Some s' \<Rightarrow> k caps s' (p + 2))
           else match_item k src pat caps s p)
       else if c = NUL then Inr (caps, Some s)
       else if c = CHR ''$'' then
         bindR (char_at pat (p + 1)) (\<lambda>d.
           if d = NUL then Inr (caps, if s = length src then Some s else None)
           else match_item k src pat caps s p)
       else match_item k src pat caps s p)"
  proof (cases "c = NUL")
    case True
    with assms show ?thesis by (simp add: outcome_ok_def)
  next
    case False
    with c have p: "p < length pat" "p + 1 \<le> length pat" by auto
    have item: "good_attempt lo src s caps (match_item k src pat caps s p)"
      by (rule match_item_good [OF assms(1-3) p(1)])
    have later: "good_attempt lo src s caps (k caps s' q)" if "s \<le> s'" "s' \<le> length src" "p < q" "q \<le> length pat" for s' q
      using good_earlier [OF good_restD [OF assms(1) caps_ok_later [OF assms(2) that(1)] that(2-4)] that(1)] .
    note read = sound_bindR [OF sound_char_at [OF p(2)]]
    have "good_attempt lo src s caps (bindR (char_at pat (p + 1)) (\<lambda>d.
           if d = CHR '')'' then start_capture k caps s (p + 2) CAP_POSITION
           else start_capture k caps s (p + 1) CAP_UNFINISHED))"
      by (rule read) (use p in \<open>auto intro!: start_capture_good [OF assms(1-3)]\<close>)
    moreover have "good_attempt lo src s caps (end_capture k caps s (p + 1))"
      by (rule end_capture_good [OF assms(1-3)]) (use p in simp_all)
    moreover have "good_attempt lo src s caps (bindR (char_at pat (p + 1)) (\<lambda>d.
           if d = NUL then Inr (caps, if s = length src then Some s else None)
           else match_item k src pat caps s p))"
      by (rule read) (use item assms in \<open>auto simp: outcome_ok_def\<close>)
    moreover have "good_attempt lo src s caps (bindR (char_at pat (p + 1)) (\<lambda>d.
           if d = CHR ''b'' then
             bindR (matchbalance src s pat (p + 2)) (\<lambda>r.
               case r of None \<Rightarrow> Inr (caps, None) | Some s' \<Rightarrow> k caps s' (p + 4))
           else if d = CHR ''f'' then match_frontier k src pat caps s (p + 2)
           else if isdigit d then
             bindR (match_capture src caps s d) (\<lambda>r.
               case r of None \<Rightarrow> Inr (caps, None) | Some s' \<Rightarrow> k caps s' (p + 2))
           else match_item k src pat caps s p))"
    proof (rule read)
      fix d
      assume d: "d \<noteq> NUL \<longrightarrow> p + 1 < length pat \<and> d = pat ! (p + 1)"
      have bal: "good_attempt lo src s caps (bindR (matchbalance src s pat (p + 2)) (\<lambda>r.
               case r of None \<Rightarrow> Inr (caps, None) | Some s' \<Rightarrow> k caps s' (p + 4)))"
        if "p + 2 \<le> length pat"
        by (rule sound_bindR [OF matchbalance_sound [OF assms(3) that]])
          (auto split: option.split intro!: later)
      have front: "p + 2 \<le> length pat \<Longrightarrow> good_attempt lo src s caps (match_frontier k src pat caps s (p + 2))"
        by (rule match_frontier_good [OF assms(1-3)]) simp_all
      have backref: "good_attempt lo src s caps (bindR (match_capture src caps s d) (\<lambda>r.
               case r of None \<Rightarrow> Inr (caps, None) | Some s' \<Rightarrow> k caps s' (p + 2)))"
        if "p + 2 \<le> length pat"
        by (rule sound_bindR [OF match_capture_sound [OF assms(3)]])
          (use that in \<open>auto split: option.split intro!: later\<close>)
      have "d = CHR ''b'' \<or> d = CHR ''f'' \<or> isdigit d \<Longrightarrow> p + 2 \<le> length pat"
        using d by (auto simp: isdigit_def)
      then show "good_attempt lo src s caps (if d = CHR ''b'' then
             bindR (matchbalance src s pat (p + 2)) (\<lambda>r.
               case r of None \<Rightarrow> Inr (caps, None) | Some s' \<Rightarrow> k caps s' (p + 4))
           else if d = CHR ''f'' then match_frontier k src pat caps s (p + 2)
           else if isdigit d then
             bindR (match_capture src caps s d) (\<lambda>r.
               case r of None \<Rightarrow> Inr (caps, None) | Some s' \<Rightarrow> k caps s' (p + 2))
           else match_item k src pat caps s p)"
        using bal front backref item by (simp only: split: if_split) blast
    qed
    ultimately show ?thesis using False item by simp
  qed
qed

lemma match_good:
  "length pat - p < n \<Longrightarrow> p \<le> length pat \<Longrightarrow> s \<le> length src \<Longrightarrow> caps_ok lo s caps \<Longrightarrow>
     good_attempt lo src s caps (match n src pat caps s p)"
proof (induction n arbitrary: caps s p)
  case (Suc n)
  have "good_rest lo src pat p (match n src pat)"
    unfolding good_rest_def using Suc by auto
  from match_step_good [OF this Suc.prems(4,3,2)] show ?case by simp
qed simp

text \<open>C10: the pattern matcher is safe: for any subject and any pattern, however malformed,
  started anywhere inside them, it never reads outside the two strings and never loops, and it
  answers if the C stack is deep enough for it: calls of \<open>match\<close> nest at most one deeper than
  the pattern is long, and the code sets no limit of its own.  The answer is no match, with no
  captures left over, or a match whose end lies between its start and the
  end of the subject and whose captures (at most 32) are open, positions, or stretches of the
  subject, all between the start and the end of the match, or one of the errors it raises itself.\<close>

theorem match_sound:
  assumes "s \<le> length src" "p \<le> length pat"
  shows "sound (do_match src pat s p)
    (\<lambda>(caps, r). case r of None \<Rightarrow> caps = []
      | Some e \<Rightarrow> s \<le> e \<and> e \<le> length src \<and> length caps \<le> 32 \<and>
          (\<forall>c \<in> set caps. s \<le> fst c \<and> fst c \<le> e \<and> (snd c = CAP_UNFINISHED \<or> snd c = CAP_POSITION \<or>
             0 \<le> snd c \<and> int (fst c) + snd c \<le> int e)))"
proof -
  have "good_attempt s src s [] (match (Suc (length pat)) src pat [] s p)"
    using assms by (intro match_good) (auto simp: caps_ok_def)
  then show ?thesis
    unfolding do_match_def
    by (rule sound_mono)
      (simp add: outcome_ok_def caps_ok_def cap_ok_def list_all_iff LUA_MAXCAPTURES_def split_beta
        split: option.splits)
qed

lemma match_sound_witness:
  "sound (do_match '':: key = value'' ''(%w+)%s*=%s*()'' 3 0)
    (\<lambda>(caps, r). case r of None \<Rightarrow> caps = []
      | Some e \<Rightarrow> 3 \<le> e \<and> e \<le> length '':: key = value'' \<and> length caps \<le> 32 \<and>
          (\<forall>c \<in> set caps. 3 \<le> fst c \<and> fst c \<le> e \<and> (snd c = CAP_UNFINISHED \<or> snd c = CAP_POSITION \<or>
             0 \<le> snd c \<and> int (fst c) + snd c \<le> int e)))"
  by (rule match_sound) simp_all

section \<open>What a pattern means, and that the matcher decides it\<close>

text \<open>
  The meaning of a pattern without any search order: \<open>matches src pat caps s p caps' e\<close> says
  that the pattern from \<open>p\<close> on can cover the subject from \<open>s\<close> to \<open>e\<close>, with the captures
  \<open>caps\<close> before and \<open>caps'\<close> after.  How many characters a repeated item takes is chosen
  freely here; the matcher has to find the choices by backtracking.
\<close>

definition item_at :: "string \<Rightarrow> nat \<Rightarrow> bool" where
  "item_at pat p \<longleftrightarrow>
     (case char_at pat p of
        Inl _ \<Rightarrow> False
      | Inr c \<Rightarrow>
          c \<notin> {CHR ''('', CHR '')'', NUL} \<and>
          (case char_at pat (p + 1) of
             Inl _ \<Rightarrow> c \<noteq> L_ESC \<and> c \<noteq> CHR ''$''
           | Inr d \<Rightarrow>
               (c = L_ESC \<longrightarrow> d \<noteq> CHR ''b'' \<and> d \<noteq> CHR ''f'' \<and> \<not> isdigit d) \<and>
               (c = CHR ''$'' \<longrightarrow> d \<noteq> NUL)))"

definition runs :: "string \<Rightarrow> string \<Rightarrow> nat \<Rightarrow> nat \<Rightarrow> nat \<Rightarrow> nat \<Rightarrow> bool" where
  "runs src pat s p ep n \<longleftrightarrow>
     (\<forall>i<n. s + i < length src \<and> singlematch pat (src ! (s + i)) p ep = Inr True)"

definition may_repeat :: "char \<Rightarrow> nat \<Rightarrow> bool" where
  "may_repeat x n \<longleftrightarrow>
     x = CHR ''?'' \<and> n \<le> 1 \<or> x = CHR ''*'' \<or> x = CHR ''-'' \<or> x = CHR ''+'' \<and> 1 \<le> n"

definition repetition :: "char \<Rightarrow> bool" where
  "repetition x \<longleftrightarrow> x \<in> {CHR ''?'', CHR ''*'', CHR ''-'', CHR ''+''}"

inductive matches ::
  "string \<Rightarrow> string \<Rightarrow> captures \<Rightarrow> nat \<Rightarrow> nat \<Rightarrow> captures \<Rightarrow> nat \<Rightarrow> bool" for src pat where
  finish: "char_at pat p = Inr NUL \<Longrightarrow> matches src pat caps s p caps s"
| at_end: "char_at pat p = Inr (CHR ''$'') \<Longrightarrow> char_at pat (p + 1) = Inr NUL \<Longrightarrow> s = length src \<Longrightarrow>
    matches src pat caps s p caps s"
| open_capture: "char_at pat p = Inr (CHR ''('') \<Longrightarrow> char_at pat (p + 1) = Inr d \<Longrightarrow> d \<noteq> CHR '')'' \<Longrightarrow>
    matches src pat (caps @ [(s, CAP_UNFINISHED)]) s (p + 1) caps' e \<Longrightarrow> matches src pat caps s p caps' e"
| position: "char_at pat p = Inr (CHR ''('') \<Longrightarrow> char_at pat (p + 1) = Inr (CHR '')'') \<Longrightarrow>
    matches src pat (caps @ [(s, CAP_POSITION)]) s (p + 2) caps' e \<Longrightarrow> matches src pat caps s p caps' e"
| close_capture: "char_at pat p = Inr (CHR '')'') \<Longrightarrow> capture_to_close caps = Inr l \<Longrightarrow>
    matches src pat (caps[l := (fst (caps ! l), int s - int (fst (caps ! l)))]) s (p + 1) caps' e \<Longrightarrow>
    matches src pat caps s p caps' e"
| balance: "char_at pat p = Inr L_ESC \<Longrightarrow> char_at pat (p + 1) = Inr (CHR ''b'') \<Longrightarrow>
    matchbalance src s pat (p + 2) = Inr (Some s') \<Longrightarrow> matches src pat caps s' (p + 4) caps' e \<Longrightarrow>
    matches src pat caps s p caps' e"
| frontier: "char_at pat p = Inr L_ESC \<Longrightarrow> char_at pat (p + 1) = Inr (CHR ''f'') \<Longrightarrow>
    char_at pat (p + 2) = Inr (CHR ''['') \<Longrightarrow> classend pat (p + 2) = Inr ep \<Longrightarrow>
    matchbracketclass pat (if s = 0 then NUL else src ! (s - 1)) (p + 2) (ep - 1) = Inr False \<Longrightarrow>
    char_at src s = Inr c \<Longrightarrow> matchbracketclass pat c (p + 2) (ep - 1) = Inr True \<Longrightarrow>
    matches src pat caps s ep caps' e \<Longrightarrow> matches src pat caps s p caps' e"
| backref: "char_at pat p = Inr L_ESC \<Longrightarrow> char_at pat (p + 1) = Inr d \<Longrightarrow> isdigit d \<Longrightarrow>
    match_capture src caps s d = Inr (Some s') \<Longrightarrow> matches src pat caps s' (p + 2) caps' e \<Longrightarrow>
    matches src pat caps s p caps' e"
| item_once: "item_at pat p \<Longrightarrow> classend pat p = Inr ep \<Longrightarrow> char_at pat ep = Inr x \<Longrightarrow> \<not> repetition x \<Longrightarrow>
    runs src pat s p ep 1 \<Longrightarrow> matches src pat caps (s + 1) ep caps' e \<Longrightarrow> matches src pat caps s p caps' e"
| item_repeated: "item_at pat p \<Longrightarrow> classend pat p = Inr ep \<Longrightarrow> char_at pat ep = Inr x \<Longrightarrow> may_repeat x n \<Longrightarrow>
    runs src pat s p ep n \<Longrightarrow> matches src pat caps (s + n) (ep + 1) caps' e \<Longrightarrow>
    matches src pat caps s p caps' e"

text \<open>An attempt decides a set of outcomes: an error says nothing, a success is one of them, a
  failure undoes its captures and means that there are none.\<close>

fun decided :: "captures \<Rightarrow> (captures \<Rightarrow> nat \<Rightarrow> bool) \<Rightarrow> attempt \<Rightarrow> bool" where
  "decided caps P (Inl e) \<longleftrightarrow> True"
| "decided caps P (Inr (caps', Some e)) \<longleftrightarrow> P caps' e"
| "decided caps P (Inr (caps', None)) \<longleftrightarrow> caps' = caps \<and> (\<forall>c e. \<not> P c e)"

lemma decided_bindR: "(\<And>x. m = Inr x \<Longrightarrow> decided caps P (f x)) \<Longrightarrow> decided caps P (bindR m f)"
  by (cases m) auto

lemma decided_orelse:
  assumes "decided caps P m" "decided caps Q (f caps)"
  shows "decided caps (\<lambda>c e. P c e \<or> Q c e) (orelse m f)"
proof (cases m)
  case (Inr x)
  show ?thesis
  proof (cases "snd x")
    case None
    with assms Inr show ?thesis
      by (cases x; cases "f caps") (auto simp: orelse_def elim: decided.elims)
  qed (use assms Inr in \<open>cases x; simp add: orelse_def\<close>)
qed (simp add: orelse_def)

lemma decided_cong: "decided caps P r \<Longrightarrow> (\<And>c e. P c e \<longleftrightarrow> Q c e) \<Longrightarrow> decided caps Q r"
  by (cases "(caps, P, r)" rule: decided.cases) auto

lemma decided_undo:
  assumes "decided caps' P m" "f caps' = Inr (caps, None)"
  shows "decided caps P (orelse m f)"
  by (cases "(caps', P, m)" rule: decided.cases) (use assms in \<open>auto simp: orelse_def\<close>)

lemma runs_0 [simp]: "runs src pat s p ep 0"
  by (simp add: runs_def)

lemma runs_Suc: "runs src pat s p ep (Suc n) \<longleftrightarrow>
    s < length src \<and> singlematch pat (src ! s) p ep = Inr True \<and> runs src pat (s + 1) p ep n"
  by (auto simp: runs_def less_Suc_eq_0_disj)

lemma drop_ConsD:
  assumes "c # cs = drop s xs"
  shows "s < length xs" "xs ! s = c" "drop (s + 1) xs = cs"
proof -
  show "s < length xs" using assms by (cases "s < length xs") auto
  then have "drop s xs = xs ! s # drop (s + 1) xs" by (simp add: Cons_nth_drop_Suc)
  with assms show "xs ! s = c" "drop (s + 1) xs = cs" by auto
qed

lemma ex_nat_split: "(\<exists>n. P n) \<longleftrightarrow> P 0 \<or> (\<exists>n. P (Suc n))"
  by (metis not0_implies_Suc)

lemma count_max_runs:
  "count_max pat p ep (drop s src) = Inr i \<Longrightarrow> runs src pat s p ep n \<longleftrightarrow> n \<le> i"
proof (induction "drop s src" arbitrary: s i n)
  case Nil
  then show ?case by (cases n) (auto simp: runs_Suc)
next
  case (Cons c cs)
  note s = drop_ConsD [OF Cons.hyps(2)]
  have count: "count_max pat p ep (c # cs) = Inr i"
    using Cons.prems Cons.hyps(2) by argo
  then obtain m where m: "singlematch pat c p ep = Inr m"
    by (auto simp: res_simps)
  show ?case
  proof (cases m)
    case True
    with count m obtain j where j: "count_max pat p ep cs = Inr j" "i = Suc j"
      by (auto simp: res_simps)
    with s(3) have "count_max pat p ep (drop (s + 1) src) = Inr j" by argo
    from Cons.hyps(1) [OF s(3) [symmetric] this] j s m True show ?thesis
      by (cases n) (auto simp: runs_Suc)
  next
    case False
    with count m have "i = 0" by simp
    with s m False show ?thesis by (cases n) (auto simp: runs_Suc)
  qed
qed

lemma try_max_decided:
  assumes "\<And>s. decided caps (M s) (k caps s)"
  shows "decided caps (\<lambda>c e. \<exists>j\<le>i. M (s + j) c e) (try_max k caps s i)"
proof (induction i)
  case 0
  from assms [of s] show ?case by (auto elim: decided_cong)
next
  case (Suc i)
  from decided_orelse [OF assms [of "s + Suc i"], of "\<lambda>c e. \<exists>j\<le>i. M (s + j) c e" "\<lambda>caps. try_max k caps s i"] Suc
  show ?case by (auto elim!: decided_cong simp: le_Suc_eq)
qed

lemma max_expand_decided:
  assumes "\<And>s. decided caps (M s) (k caps s (ep + 1))"
  shows "decided caps (\<lambda>c e. \<exists>n. runs src pat s p ep n \<and> M (s + n) c e) (max_expand k src pat caps s p ep)"
  unfolding max_expand_def
proof (rule decided_bindR)
  fix i
  assume "count_max pat p ep (drop s src) = Inr i"
  then show "decided caps (\<lambda>c e. \<exists>n. runs src pat s p ep n \<and> M (s + n) c e)
      (try_max (\<lambda>caps s. k caps s (ep + 1)) caps s i)"
    using try_max_decided [of caps M "\<lambda>caps s. k caps s (ep + 1)" i s] assms
    by (simp add: count_max_runs)
qed

lemma min_expand_decided:
  assumes "\<And>s. decided caps (M s) (k caps s (ep + 1))"
  shows "decided caps (\<lambda>c e. \<exists>n. runs src pat s p ep n \<and> M (s + n) c e) (min_expand k src pat caps s p ep)"
  unfolding min_expand_def
proof (induction "drop s src" arbitrary: s)
  case Nil
  have "runs src pat s p ep n \<longleftrightarrow> n = 0" for n
    using Nil by (cases n) (auto simp: runs_Suc)
  with Nil [symmetric] assms [of s] show ?case by simp
next
  case (Cons c cs)
  note s = drop_ConsD [OF Cons.hyps(2)]
  have split: "(\<exists>n. runs src pat s p ep n \<and> M (s + n) c' e) \<longleftrightarrow>
      M s c' e \<or> singlematch pat c p ep = Inr True \<and> (\<exists>n. runs src pat (s + 1) p ep n \<and> M (s + 1 + n) c' e)" for c' e
    using s by (subst ex_nat_split) (simp add: runs_Suc)
  let ?rest = "\<lambda>caps. bindR (singlematch pat c p ep) (\<lambda>m.
         if m then min_loop k pat caps (s + 1) p ep cs else Inr (caps, None))"
  have "decided caps (\<lambda>c' e. singlematch pat c p ep = Inr True \<and>
      (\<exists>n. runs src pat (s + 1) p ep n \<and> M (s + 1 + n) c' e)) (?rest caps)"
    using Cons.hyps(1) [of "s + 1"] s(3) by (intro decided_bindR) auto
  from decided_orelse [where f = ?rest, OF assms [of s] this]
  have "decided caps (\<lambda>c' e. \<exists>n. runs src pat s p ep n \<and> M (s + n) c' e)
      (orelse (k caps s (ep + 1)) ?rest)"
    by (rule decided_cong) (use split in blast)
  then show ?case by (simp flip: Cons.hyps(2))
qed

lemma matches_iff:
  "char_at pat p = Inr NUL \<Longrightarrow> matches src pat caps s p c' e \<longleftrightarrow> c' = caps \<and> e = s"
  "char_at pat p = Inr (CHR ''$'') \<Longrightarrow> char_at pat (p + 1) = Inr NUL \<Longrightarrow>
     matches src pat caps s p c' e \<longleftrightarrow> s = length src \<and> c' = caps \<and> e = s"
  "char_at pat p = Inr (CHR ''('') \<Longrightarrow> char_at pat (p + 1) = Inr d \<Longrightarrow>
     matches src pat caps s p c' e \<longleftrightarrow>
       (if d = CHR '')'' then matches src pat (caps @ [(s, CAP_POSITION)]) s (p + 2) c' e
        else matches src pat (caps @ [(s, CAP_UNFINISHED)]) s (p + 1) c' e)"
  "char_at pat p = Inr (CHR '')'') \<Longrightarrow> capture_to_close caps = Inr l \<Longrightarrow>
     matches src pat caps s p c' e \<longleftrightarrow>
       matches src pat (caps[l := (fst (caps ! l), int s - int (fst (caps ! l)))]) s (p + 1) c' e"
  "char_at pat p = Inr L_ESC \<Longrightarrow> char_at pat (p + 1) = Inr (CHR ''b'') \<Longrightarrow>
     matches src pat caps s p c' e \<longleftrightarrow>
       (\<exists>s'. matchbalance src s pat (p + 2) = Inr (Some s') \<and> matches src pat caps s' (p + 4) c' e)"
  "char_at pat p = Inr L_ESC \<Longrightarrow> char_at pat (p + 1) = Inr d \<Longrightarrow> isdigit d \<Longrightarrow>
     matches src pat caps s p c' e \<longleftrightarrow>
       (\<exists>s'. match_capture src caps s d = Inr (Some s') \<and> matches src pat caps s' (p + 2) c' e)"
  "char_at pat p = Inr L_ESC \<Longrightarrow> char_at pat (p + 1) = Inr (CHR ''f'') \<Longrightarrow>
     char_at pat (p + 2) = Inr (CHR ''['') \<Longrightarrow> classend pat (p + 2) = Inr ep \<Longrightarrow>
     matches src pat caps s p c' e \<longleftrightarrow>
       matchbracketclass pat (if s = 0 then NUL else src ! (s - 1)) (p + 2) (ep - 1) = Inr False \<and>
       (\<exists>c. char_at src s = Inr c \<and> matchbracketclass pat c (p + 2) (ep - 1) = Inr True) \<and>
       matches src pat caps s ep c' e"
  by (subst matches.simps; auto simp: item_at_def isdigit_def)+

lemma matches_item_iff:
  assumes "item_at pat p" "classend pat p = Inr ep" "char_at pat ep = Inr x"
  shows "matches src pat caps s p c' e \<longleftrightarrow>
     (if repetition x then \<exists>n. may_repeat x n \<and> runs src pat s p ep n \<and> matches src pat caps (s + n) (ep + 1) c' e
      else runs src pat s p ep 1 \<and> matches src pat caps (s + 1) ep c' e)"
proof
  assume "matches src pat caps s p c' e"
  then show "if repetition x then \<exists>n. may_repeat x n \<and> runs src pat s p ep n \<and> matches src pat caps (s + n) (ep + 1) c' e
      else runs src pat s p ep 1 \<and> matches src pat caps (s + 1) ep c' e"
  proof cases
    case (item_once ep' x')
    with assms show ?thesis by simp
  next
    case (item_repeated ep' x' n)
    moreover from this have "repetition x'" by (auto simp: may_repeat_def repetition_def)
    ultimately show ?thesis using assms by auto
  qed (use assms(1) in \<open>simp_all add: item_at_def isdigit_def\<close>)
next
  assume "if repetition x then \<exists>n. may_repeat x n \<and> runs src pat s p ep n \<and> matches src pat caps (s + n) (ep + 1) c' e
      else runs src pat s p ep 1 \<and> matches src pat caps (s + 1) ep c' e"
  with assms show "matches src pat caps s p c' e"
    by (metis matches.item_once matches.item_repeated)
qed

lemma match_item_decided:
  assumes k: "\<And>caps s q. decided caps (matches src pat caps s q) (k caps s q)" and item: "item_at pat p"
  shows "decided caps (matches src pat caps s p) (match_item k src pat caps s p)"
  unfolding match_item_def
proof (intro decided_bindR)
  fix ep m x
  assume ep: "classend pat p = Inr ep"
    and m: "(if s < length src then singlematch pat (src ! s) p ep else Inr False) = Inr m"
    and x: "char_at pat ep = Inr x"
  have run: "runs src pat s p ep (Suc n) \<longleftrightarrow> m \<and> runs src pat (s + 1) p ep n" for n
    using m by (auto simp: runs_Suc split: if_splits)
  have meaning: "matches src pat caps s p = (\<lambda>c e.
     if repetition x then \<exists>n. may_repeat x n \<and> runs src pat s p ep n \<and> matches src pat caps (s + n) (ep + 1) c e
     else runs src pat s p ep 1 \<and> matches src pat caps (s + 1) ep c e)"
    by (intro ext) (rule matches_item_iff [OF item ep x])
  have reps: "decided caps (\<lambda>c e. \<exists>n. runs src pat s p ep n \<and> matches src pat caps (s + n) (ep + 1) c e)
        (max_expand k src pat caps s p ep)"
      "decided caps (\<lambda>c e. \<exists>n. runs src pat s p ep n \<and> matches src pat caps (s + n) (ep + 1) c e)
        (min_expand k src pat caps s p ep)"
      "decided caps (\<lambda>c e. \<exists>n. runs src pat (s + 1) p ep n \<and> matches src pat caps (s + 1 + n) (ep + 1) c e)
        (max_expand k src pat caps (s + 1) p ep)"
    using max_expand_decided [of caps "\<lambda>s. matches src pat caps s (ep + 1)" k ep]
      min_expand_decided [of caps "\<lambda>s. matches src pat caps s (ep + 1)" k ep] k by blast+
  consider "x = CHR ''?''" | "x = CHR ''*''" | "x = CHR ''+''" | "x = CHR ''-''" | "\<not> repetition x"
    by (auto simp: repetition_def)
  then show "decided caps (matches src pat caps s p)
     (if x = CHR ''?'' then
        if m then orelse (k caps (s + 1) (ep + 1)) (\<lambda>caps. k caps s (ep + 1)) else k caps s (ep + 1)
      else if x = CHR ''*'' then max_expand k src pat caps s p ep
      else if x = CHR ''+'' then if m then max_expand k src pat caps (s + 1) p ep else Inr (caps, None)
      else if x = CHR ''-'' then min_expand k src pat caps s p ep
      else if m then k caps (s + 1) ep else Inr (caps, None))"
  proof cases
    case 1
    have two: "may_repeat x n \<longleftrightarrow> n = 0 \<or> n = Suc 0" for n
      using 1 by (auto simp: may_repeat_def)
    have opt: "(\<exists>n. may_repeat x n \<and> runs src pat s p ep n \<and> matches src pat caps (s + n) (ep + 1) c e) \<longleftrightarrow>
        m \<and> matches src pat caps (s + 1) (ep + 1) c e \<or> matches src pat caps s (ep + 1) c e" for c e
      by (auto simp: two run intro: exI [of _ 0] exI [of _ "Suc 0"])
    have "matches src pat caps s p c e \<longleftrightarrow>
        m \<and> matches src pat caps (s + 1) (ep + 1) c e \<or> matches src pat caps s (ep + 1) c e" for c e
      using opt [of c e] 1 by (subst meaning) (simp add: repetition_def)
    then have meaning1: "matches src pat caps s p = (\<lambda>c e.
        m \<and> matches src pat caps (s + 1) (ep + 1) c e \<or> matches src pat caps s (ep + 1) c e)"
      by blast
    show ?thesis
    proof (cases m)
      case True
      have "decided caps (\<lambda>c e. matches src pat caps (s + 1) (ep + 1) c e \<or> matches src pat caps s (ep + 1) c e)
          (orelse (k caps (s + 1) (ep + 1)) (\<lambda>caps. k caps s (ep + 1)))"
        by (rule decided_orelse) (rule k)+
      with True 1 show ?thesis unfolding meaning1 by simp
    next
      case False
      with k [of caps s "ep + 1"] 1 show ?thesis unfolding meaning1 by simp
    qed
  next
    case 2
    with reps(1) show ?thesis
      by (auto elim!: decided_cong simp: meaning repetition_def may_repeat_def)
  next
    case 3
    have plus: "(\<exists>n. may_repeat x n \<and> runs src pat s p ep n \<and> matches src pat caps (s + n) (ep + 1) c e) \<longleftrightarrow>
        m \<and> (\<exists>n. runs src pat (s + 1) p ep n \<and> matches src pat caps (s + 1 + n) (ep + 1) c e)" for c e
      using 3 by (subst ex_nat_split) (auto simp: may_repeat_def run)
    have "decided caps (\<lambda>c e. m \<and> (\<exists>n. runs src pat (s + 1) p ep n \<and> matches src pat caps (s + 1 + n) (ep + 1) c e))
       (if m then max_expand k src pat caps (s + 1) p ep else Inr (caps, None))"
      using reps(3) by simp
    with 3 show ?thesis
      using plus by (auto elim!: decided_cong simp: meaning repetition_def)
  next
    case 4
    with reps(2) show ?thesis
      by (auto elim!: decided_cong simp: meaning repetition_def may_repeat_def)
  next
    case 5
    with k [of caps "s + 1" ep] run [of 0] show ?thesis
      by (auto elim!: decided_cong simp: meaning repetition_def)
  qed
qed

lemma decided_none: "decided caps P (Inr (caps, None)) \<longleftrightarrow> (\<forall>c e. \<not> P c e)"
  by simp

lemma frontier_decided:
  assumes k: "\<And>s q. decided caps (matches src pat caps s q) (k caps s q)"
    and p: "char_at pat p = Inr L_ESC" "char_at pat (p + 1) = Inr (CHR ''f'')"
  shows "decided caps (matches src pat caps s p) (match_frontier k src pat caps s (p + 2))"
  unfolding match_frontier_def
proof (rule decided_bindR)
  fix c
  assume c: "char_at pat (p + 2) = Inr c"
  have "decided caps (matches src pat caps s p) (bindR (classend pat (p + 2)) (\<lambda>ep.
      bindR (matchbracketclass pat (if s = 0 then NUL else src ! (s - 1)) (p + 2) (ep - 1)) (\<lambda>before.
        if before then Inr (caps, None)
        else bindR (char_at src s) (\<lambda>c. bindR (matchbracketclass pat c (p + 2) (ep - 1)) (\<lambda>here.
            if \<not> here then Inr (caps, None) else k caps s ep)))))" if "c = CHR ''[''"
  proof (rule decided_bindR)
    fix ep
    assume ep: "classend pat (p + 2) = Inr ep"
    have meaning: "matches src pat caps s p = (\<lambda>c e.
       matchbracketclass pat (if s = 0 then NUL else src ! (s - 1)) (p + 2) (ep - 1) = Inr False \<and>
       (\<exists>c. char_at src s = Inr c \<and> matchbracketclass pat c (p + 2) (ep - 1) = Inr True) \<and>
       matches src pat caps s ep c e)"
      using c that by (intro ext) (simp only: matches_iff(7) [OF p _ ep])
    show "decided caps (matches src pat caps s p)
      (bindR (matchbracketclass pat (if s = 0 then NUL else src ! (s - 1)) (p + 2) (ep - 1)) (\<lambda>before.
        if before then Inr (caps, None)
        else bindR (char_at src s) (\<lambda>c. bindR (matchbracketclass pat c (p + 2) (ep - 1)) (\<lambda>here.
            if \<not> here then Inr (caps, None) else k caps s ep))))"
      unfolding meaning using k [of s ep] by (intro decided_bindR) (auto intro!: decided_bindR)
  qed
  then show "decided caps (matches src pat caps s p)
     (if c \<noteq> CHR ''['' then Inl (LuaError ''missing [ after %f in pattern'')
      else bindR (classend pat (p + 2)) (\<lambda>ep.
      bindR (matchbracketclass pat (if s = 0 then NUL else src ! (s - 1)) (p + 2) (ep - 1)) (\<lambda>before.
        if before then Inr (caps, None)
        else bindR (char_at src s) (\<lambda>c. bindR (matchbracketclass pat c (p + 2) (ep - 1)) (\<lambda>here.
            if \<not> here then Inr (caps, None) else k caps s ep)))))"
    by simp
qed

lemma close_from_open:
  "close_from caps n = Inr l \<Longrightarrow> n \<le> length caps \<Longrightarrow> l < length caps \<and> caps ! l = (fst (caps ! l), CAP_UNFINISHED)"
  by (induction n) (auto split: if_splits simp: prod_eq_iff)

lemma match_step_decided:
  assumes k: "\<And>caps s q. decided caps (matches src pat caps s q) (k caps s q)"
  shows "decided caps (matches src pat caps s p) (match_step k src pat caps s p)"
  unfolding match_step_def
proof (rule decided_bindR)
  fix c
  assume c: "char_at pat p = Inr c"
  have capture: "decided caps (matches src pat (caps @ [(s, what)]) s q) (start_capture k caps s q what)" for q what
    unfolding start_capture_def by (auto intro: decided_undo [OF k])
  consider "c = CHR ''(''" | "c = CHR '')''" | "c = L_ESC" | "c = NUL" | "c = CHR ''$''"
    | "c \<notin> {CHR ''('', CHR '')'', L_ESC, NUL, CHR ''$''}"
    by auto
  then show "decided caps (matches src pat caps s p) (if c = CHR ''('' then
         bindR (char_at pat (p + 1)) (\<lambda>d.
           if d = CHR '')'' then start_capture k caps s (p + 2) CAP_POSITION
           else start_capture k caps s (p + 1) CAP_UNFINISHED)
       else if c = CHR '')'' then end_capture k caps s (p + 1)
       else if c = L_ESC then
         bindR (char_at pat (p + 1)) (\<lambda>d.
           if d = CHR ''b'' then
             bindR (matchbalance src s pat (p + 2)) (\<lambda>r.
               case r of None \<Rightarrow> Inr (caps, None) | Some s' \<Rightarrow> k caps s' (p + 4))
           else if d = CHR ''f'' then match_frontier k src pat caps s (p + 2)
           else if isdigit d then
             bindR (match_capture src caps s d) (\<lambda>r.
               case r of None \<Rightarrow> Inr (caps, None) | Some s' \<Rightarrow> k caps s' (p + 2))
           else match_item k src pat caps s p)
       else if c = NUL then Inr (caps, Some s)
       else if c = CHR ''$'' then
         bindR (char_at pat (p + 1)) (\<lambda>d.
           if d = NUL then Inr (caps, if s = length src then Some s else None)
           else match_item k src pat caps s p)
       else match_item k src pat caps s p)" (is "decided caps ?M ?step")
  proof cases
    case 1
    have "decided caps ?M (bindR (char_at pat (p + 1)) (\<lambda>d.
           if d = CHR '')'' then start_capture k caps s (p + 2) CAP_POSITION
           else start_capture k caps s (p + 1) CAP_UNFINISHED))"
    proof (rule decided_bindR)
      fix d
      assume d: "char_at pat (p + 1) = Inr d"
      have "?M = (\<lambda>c' e. if d = CHR '')'' then matches src pat (caps @ [(s, CAP_POSITION)]) s (p + 2) c' e
        else matches src pat (caps @ [(s, CAP_UNFINISHED)]) s (p + 1) c' e)"
        using c 1 d by (intro ext) (simp only: matches_iff(3))
      then show "decided caps ?M (if d = CHR '')'' then start_capture k caps s (p + 2) CAP_POSITION
           else start_capture k caps s (p + 1) CAP_UNFINISHED)"
        using capture by simp
    qed
    with 1 show ?thesis by simp
  next
    case 2
    have "decided caps ?M (end_capture k caps s (p + 1))"
      unfolding end_capture_def
    proof (rule decided_bindR)
      fix l
      assume l: "capture_to_close caps = Inr l"
      let ?caps = "caps[l := (fst (caps ! l), int s - int (fst (caps ! l)))]"
      have same: "caps[l := (fst (caps ! l), CAP_UNFINISHED)] = caps"
        and "l < length caps"
        using close_from_open [of caps "length caps" l] l
        by (metis capture_to_close_def list_update_id order_refl, metis capture_to_close_def close_from_open order_refl)
      have "decided caps (matches src pat ?caps s (p + 1)) (orelse (k ?caps s (p + 1))
          (\<lambda>caps'. Inr (caps'[l := (fst (caps' ! l), CAP_UNFINISHED)], None)))"
        by (rule decided_undo [OF k]) (simp add: same \<open>l < length caps\<close>)
      moreover have "?M = matches src pat ?caps s (p + 1)"
        using c 2 l by (intro ext) (simp only: matches_iff(4))
      ultimately show "decided caps ?M (orelse (k ?caps s (p + 1))
          (\<lambda>caps'. Inr (caps'[l := (fst (caps' ! l), CAP_UNFINISHED)], None)))"
        by simp
    qed
    with 2 show ?thesis by simp
  next
    case 3
    have "decided caps ?M (bindR (char_at pat (p + 1)) (\<lambda>d.
           if d = CHR ''b'' then
             bindR (matchbalance src s pat (p + 2)) (\<lambda>r.
               case r of None \<Rightarrow> Inr (caps, None) | Some s' \<Rightarrow> k caps s' (p + 4))
           else if d = CHR ''f'' then match_frontier k src pat caps s (p + 2)
           else if isdigit d then
             bindR (match_capture src caps s d) (\<lambda>r.
               case r of None \<Rightarrow> Inr (caps, None) | Some s' \<Rightarrow> k caps s' (p + 2))
           else match_item k src pat caps s p))"
    proof (rule decided_bindR)
      fix d
      assume d: "char_at pat (p + 1) = Inr d"
      consider "d = CHR ''b''" | "d = CHR ''f''" | "isdigit d" "d \<noteq> CHR ''b''" "d \<noteq> CHR ''f''"
        | "item_at pat p" "\<not> isdigit d" "d \<noteq> CHR ''b''" "d \<noteq> CHR ''f''"
        using c d 3 by (auto simp: item_at_def)
      then show "decided caps ?M (if d = CHR ''b'' then
             bindR (matchbalance src s pat (p + 2)) (\<lambda>r.
               case r of None \<Rightarrow> Inr (caps, None) | Some s' \<Rightarrow> k caps s' (p + 4))
           else if d = CHR ''f'' then match_frontier k src pat caps s (p + 2)
           else if isdigit d then
             bindR (match_capture src caps s d) (\<lambda>r.
               case r of None \<Rightarrow> Inr (caps, None) | Some s' \<Rightarrow> k caps s' (p + 2))
           else match_item k src pat caps s p)"
      proof cases
        case 1
        have "?M = (\<lambda>c' e. \<exists>s'. matchbalance src s pat (p + 2) = Inr (Some s') \<and> matches src pat caps s' (p + 4) c' e)"
          using c 3 d 1 by (intro ext) (simp only: matches_iff(5))
        with 1 k show ?thesis by (auto intro!: decided_bindR split: option.split)
      next
        case 2
        with frontier_decided [of caps src pat k p s] c 3 d k show ?thesis by simp
      next
        case b: 3
        have "?M = (\<lambda>c' e. \<exists>s'. match_capture src caps s d = Inr (Some s') \<and> matches src pat caps s' (p + 2) c' e)"
          using c 3 d b by (intro ext) (simp only: matches_iff(6))
        with b k show ?thesis by (auto intro!: decided_bindR split: option.split)
      next
        case 4
        with match_item_decided [OF k 4(1)] show ?thesis by simp
      qed
    qed
    with 3 show ?thesis by simp
  next
    case 4
    have "?M = (\<lambda>c' e. c' = caps \<and> e = s)"
      using c 4 by (intro ext) (simp only: matches_iff(1))
    with 4 show ?thesis by simp
  next
    case 5
    have "decided caps ?M (bindR (char_at pat (p + 1)) (\<lambda>d.
           if d = NUL then Inr (caps, if s = length src then Some s else None)
           else match_item k src pat caps s p))"
    proof (rule decided_bindR)
      fix d
      assume d: "char_at pat (p + 1) = Inr d"
      show "decided caps ?M (if d = NUL then Inr (caps, if s = length src then Some s else None)
           else match_item k src pat caps s p)"
      proof (cases "d = NUL")
        case True
        then have "?M = (\<lambda>c' e. s = length src \<and> c' = caps \<and> e = s)"
          using c 5 d by (intro ext) (simp only: matches_iff(2))
        with True show ?thesis by simp
      next
        case False
        then have "item_at pat p" using c 5 d by (simp add: item_at_def)
        with False match_item_decided [OF k] show ?thesis by simp
      qed
    qed
    with 5 show ?thesis by simp
  next
    case 6
    then have "item_at pat p" using c by (auto simp: item_at_def split: sum.split)
    with 6 match_item_decided [OF k] show ?thesis by simp
  qed
qed

lemma match_decided: "decided caps (matches src pat caps s p) (match n src pat caps s p)"
proof (induction n arbitrary: caps s p)
  case (Suc n)
  then show ?case by (simp add: match_step_decided)
qed simp

text \<open>C9: backtracking finds a match exactly when there is one: whenever the matcher does not
  raise an error, a success is one of the matches that the meaning of the pattern allows,
  captures included, and a failure means that there is none at that place, whatever
  repetition counts are chosen; the undoing of captures on the way never leaves a trace.
  This covers the whole pattern language: sets, the four repetitions, captures, positions,
  back references, balanced strings, frontiers and the final anchor.\<close>

theorem match_decides:
  assumes "do_match src pat s p = Inr (caps, r)"
  shows "case r of
      None \<Rightarrow> caps = [] \<and> \<not> (\<exists>caps' e. matches src pat [] s p caps' e)
    | Some e \<Rightarrow> matches src pat [] s p caps e"
  using match_decided [of "[]" src pat s p "Suc (length pat)"] assms
  by (auto simp: do_match_def split: option.split)

lemma match_decides_witness:
  "case Some 4 of None \<Rightarrow> [(2::nat, 1::int)] = [] \<and> \<not> (\<exists>caps' e. matches ''aaba'' ''a*(b)a'' [] 0 0 caps' e)
    | Some e \<Rightarrow> matches ''aaba'' ''a*(b)a'' [] 0 0 [(2, 1)] e"
  by (rule match_decides)
    (simp add: do_match_def match_step_def char_at_def match_item_def classend_def singlematch_def
      max_expand_def orelse_def start_capture_def end_capture_def capture_to_close_def eval_nat_numeral
      LUA_MAXCAPTURES_def CAP_UNFINISHED_def)

end
