(* ===== verification/LuaString.thy ===== *)
theory LuaString
  imports LuaPattern Tlv
begin

text \<open>
  The functions of the Lua string library (\<^verbatim>\<open>src/lstrlib.c\<close>): slices, repetition and
  bytes, the search functions \<^verbatim>\<open>string.find\<close>, \<^verbatim>\<open>match\<close>, \<^verbatim>\<open>gmatch\<close> and \<^verbatim>\<open>gsub\<close> on top of
  the matcher of \<open>LuaPattern\<close>.  A Lua value is \<open>lval\<close>; a function or table given to
  \<^verbatim>\<open>gsub\<close> is a parameter that answers with a value.
\<close>

datatype lval = LNil | LBool bool | LNum int | LStr string | LOther

section \<open>Slices and bytes\<close>

definition posrelat :: "int \<Rightarrow> nat \<Rightarrow> int" where
  "posrelat pos len = (let pos = (if pos < 0 then pos + int len + 1 else pos) in if pos \<ge> 0 then pos else 0)"

definition slice :: "string \<Rightarrow> nat \<Rightarrow> nat \<Rightarrow> string" where
  "slice t i j = take (j - i) (drop i t)"

definition str_sub :: "string \<Rightarrow> int \<Rightarrow> int option \<Rightarrow> string" where
  "str_sub s i j =
     (let l = length s;
          start = posrelat i l;
          fin = posrelat (case j of None \<Rightarrow> -1 | Some j \<Rightarrow> j) l;
          start = (if start < 1 then 1 else start);
          fin = (if fin > int l then int l else fin)
      in if start \<le> fin then slice s (nat (start - 1)) (nat fin) else [])"

fun rev_from :: "string \<Rightarrow> nat \<Rightarrow> string" where
  "rev_from s 0 = []"
| "rev_from s (Suc l) = s ! l # rev_from s l"

definition str_reverse :: "string \<Rightarrow> string" where
  "str_reverse s = rev_from s (length s)"

definition str_lower :: "string \<Rightarrow> string" where
  "str_lower s = map tolower s"

definition str_upper :: "string \<Rightarrow> string" where
  "str_upper s = map toupper s"

definition str_rep :: "string \<Rightarrow> int \<Rightarrow> string" where
  "str_rep s n = concat (replicate (nat n) s)"

definition str_byte :: "string \<Rightarrow> int option \<Rightarrow> int option \<Rightarrow> int list" where
  "str_byte s i j =
     (let l = length s;
          posi = posrelat (case i of None \<Rightarrow> 1 | Some i \<Rightarrow> i) l;
          pose = posrelat (case j of None \<Rightarrow> posi | Some j \<Rightarrow> j) l;
          posi = (if posi \<le> 0 then 1 else posi);
          pose = (if pose > int l then int l else pose)
      in if posi > pose then []
         else map (\<lambda>i. int (of_char (s ! nat (posi + int i - 1)))) [0..<nat (pose - posi + 1)])"

fun str_char :: "int list \<Rightarrow> string res" where
  "str_char [] = Inr []"
| "str_char (c # cs) =
     (if 0 \<le> c \<and> c \<le> 255 then bindR (str_char cs) (\<lambda>rest. Inr (char_of (nat c) # rest))
      else Inl (LuaError ''invalid value''))"

section \<open>Plain search\<close>

fun memchr :: "string \<Rightarrow> char \<Rightarrow> nat \<Rightarrow> nat option" where
  "memchr [] c n = None"
| "memchr (x # xs) c n =
     (if n = 0 then None else if x = c then Some 0 else map_option Suc (memchr xs c (n - 1)))"

text \<open>The loop of \<^verbatim>\<open>lmemfind\<close>; \<open>l1\<close> is the number of places left where \<open>s2\<close> can begin.\<close>

function lmem_loop :: "string \<Rightarrow> nat \<Rightarrow> string \<Rightarrow> nat \<Rightarrow> nat option" where
  "lmem_loop s1 l1 s2 l2 =
     (if l1 > 0 then
        case memchr s1 (s2 ! 0) l1 of
          None \<Rightarrow> None
        | Some j \<Rightarrow>
            if take l2 (drop (j + 1) s1) = take l2 (drop 1 s2) then Some j
            else map_option (\<lambda>r. j + 1 + r) (lmem_loop (drop (j + 1) s1) (l1 - (j + 1)) s2 l2)
      else None)"
  by pat_completeness auto
termination by (relation "measure (\<lambda>(s1, l1, s2, l2). l1)") auto

declare lmem_loop.simps [simp del]

definition lmemfind :: "string \<Rightarrow> string \<Rightarrow> nat option" where
  "lmemfind s1 s2 =
     (if length s2 = 0 then Some 0
      else if length s2 > length s1 then None
      else let l2 = length s2 - 1 in lmem_loop s1 (length s1 - l2) s2 l2)"

definition strpbrk :: "string \<Rightarrow> string \<Rightarrow> bool" where
  "strpbrk s accept \<longleftrightarrow> list_ex (\<lambda>c. c \<in> set accept) (c_str s)"

section \<open>find and match\<close>

definition push_onecapture :: "string \<Rightarrow> captures \<Rightarrow> nat \<Rightarrow> nat \<Rightarrow> nat \<Rightarrow> lval res" where
  "push_onecapture src caps i s e =
     (if i \<ge> length caps then
        if i = 0 then Inr (LStr (slice src s e)) else Inl (LuaError ''invalid capture index'')
      else
        let (init, l) = caps ! i in
        if l = CAP_UNFINISHED then Inl (LuaError ''unfinished capture'')
        else if l = CAP_POSITION then Inr (LNum (int init + 1))
        else Inr (LStr (take (nat l) (drop init src))))"

fun mapR :: "('a \<Rightarrow> 'b res) \<Rightarrow> 'a list \<Rightarrow> 'b list res" where
  "mapR f [] = Inr []"
| "mapR f (x # xs) = bindR (f x) (\<lambda>y. bindR (mapR f xs) (\<lambda>ys. Inr (y # ys)))"

text \<open>The range is \<open>None\<close> where the source passes \<^verbatim>\<open>NULL\<close>: then there is no whole match.\<close>

definition push_captures :: "string \<Rightarrow> captures \<Rightarrow> (nat \<times> nat) option \<Rightarrow> lval list res" where
  "push_captures src caps rng =
     (let nlevels = (if length caps = 0 \<and> rng \<noteq> None then 1 else length caps);
          (s, e) = (case rng of None \<Rightarrow> (0, 0) | Some r \<Rightarrow> r)
      in mapR (\<lambda>i. push_onecapture src caps i s e) [0..<nlevels])"

text \<open>The search for a match from \<open>s1\<close> on; the last argument is the subject from there.\<close>

fun scan_from :: "string \<Rightarrow> string \<Rightarrow> nat \<Rightarrow> bool \<Rightarrow> nat \<Rightarrow> string \<Rightarrow> (nat \<times> nat \<times> captures) option res" where
  "scan_from src pat p anchor s1 [] =
     bindR (do_match src pat s1 p) (\<lambda>(caps, r). Inr (map_option (\<lambda>e. (s1, e, caps)) r))"
| "scan_from src pat p anchor s1 (c # cs) =
     bindR (do_match src pat s1 p) (\<lambda>(caps, r).
       case r of
         Some e \<Rightarrow> Inr (Some (s1, e, caps))
       | None \<Rightarrow> if anchor then Inr None else scan_from src pat p anchor (s1 + 1) cs)"

definition init_place :: "string \<Rightarrow> int \<Rightarrow> nat" where
  "init_place src init =
     (let init = posrelat init (length src) - 1
      in if init < 0 then 0 else if nat init > length src then length src else nat init)"

definition find_pattern :: "string \<Rightarrow> string \<Rightarrow> nat \<Rightarrow> bool \<Rightarrow> lval list res" where
  "find_pattern src pat init want_pos =
     (let anchor = (pat \<noteq> [] \<and> pat ! 0 = CHR ''^'');
          p = (if anchor then 1 else 0)
      in bindR (scan_from src pat p anchor init (drop init src)) (\<lambda>r.
           case r of
             None \<Rightarrow> Inr [LNil]
           | Some (s1, e, caps) \<Rightarrow>
               if want_pos then
                 bindR (push_captures src caps None) (\<lambda>vs. Inr (LNum (int s1 + 1) # LNum (int e) # vs))
               else push_captures src caps (Some (s1, e))))"

definition str_find_aux :: "string \<Rightarrow> string \<Rightarrow> int \<Rightarrow> bool \<Rightarrow> bool \<Rightarrow> lval list res" where
  "str_find_aux src pat init plain want_pos =
     (let init = init_place src init in
      if want_pos \<and> (plain \<or> \<not> strpbrk pat SPECIALS) then
        case lmemfind (drop init src) pat of
          Some k \<Rightarrow> Inr [LNum (int (init + k) + 1), LNum (int (init + k + length pat))]
        | None \<Rightarrow> Inr [LNil]
      else find_pattern src pat init want_pos)"

definition str_find :: "string \<Rightarrow> string \<Rightarrow> int \<Rightarrow> bool \<Rightarrow> lval list res" where
  "str_find src pat init plain = str_find_aux src pat init plain True"

definition str_match :: "string \<Rightarrow> string \<Rightarrow> int \<Rightarrow> lval list res" where
  "str_match src pat init = str_find_aux src pat init False False"

section \<open>gmatch and gsub\<close>

text \<open>One call of the iterator: the values it returns and the position it stores.\<close>

definition gmatch_aux :: "string \<Rightarrow> string \<Rightarrow> nat \<Rightarrow> (lval list \<times> nat) option res" where
  "gmatch_aux src pat pos =
     (if pos \<le> length src then
        bindR (scan_from src pat 0 False pos (drop pos src)) (\<lambda>r.
          case r of
            None \<Rightarrow> Inr None
          | Some (s1, e, caps) \<Rightarrow>
              bindR (push_captures src caps (Some (s1, e))) (\<lambda>vs.
                Inr (Some (vs, if e = s1 then e + 1 else e))))
      else Inr None)"

definition tostring :: "lval \<Rightarrow> string" where
  "tostring v = (case v of LStr s \<Rightarrow> s | LNum i \<Rightarrow> show_int i | _ \<Rightarrow> [])"

fun add_s :: "string \<Rightarrow> captures \<Rightarrow> nat \<Rightarrow> nat \<Rightarrow> string \<Rightarrow> string res" where
  "add_s src caps s e [] = Inr []"
| "add_s src caps s e (c # news) =
     (if c \<noteq> L_ESC then bindR (add_s src caps s e news) (\<lambda>r. Inr (c # r))
      else
        case news of
          [] \<Rightarrow> Inr [NUL]
        | d # news' \<Rightarrow>
            if \<not> isdigit d then bindR (add_s src caps s e news') (\<lambda>r. Inr (d # r))
            else if d = CHR ''0'' then bindR (add_s src caps s e news') (\<lambda>r. Inr (slice src s e @ r))
            else bindR (push_onecapture src caps (of_char d - of_char (CHR ''1'')) s e) (\<lambda>v.
                   bindR (add_s src caps s e news') (\<lambda>r. Inr (tostring v @ r))))"

datatype replacement = RStr string | RFun "lval list \<Rightarrow> lval" | RTab "lval \<Rightarrow> lval"

definition use_value :: "string \<Rightarrow> nat \<Rightarrow> nat \<Rightarrow> lval \<Rightarrow> string res" where
  "use_value src s e v =
     (case v of
        LNil \<Rightarrow> Inr (slice src s e)
      | LBool False \<Rightarrow> Inr (slice src s e)
      | LNum _ \<Rightarrow> Inr (tostring v)
      | LStr _ \<Rightarrow> Inr (tostring v)
      | _ \<Rightarrow> Inl (LuaError ''invalid replacement value''))"

definition add_value :: "string \<Rightarrow> captures \<Rightarrow> replacement \<Rightarrow> nat \<Rightarrow> nat \<Rightarrow> string res" where
  "add_value src caps r s e =
     (case r of
        RStr news \<Rightarrow> add_s src caps s e news
      | RFun f \<Rightarrow> bindR (push_captures src caps (Some (s, e))) (\<lambda>vs. use_value src s e (f vs))
      | RTab t \<Rightarrow> bindR (push_onecapture src caps 0 s e) (\<lambda>v. use_value src s e (t v)))"

text \<open>
  The loop of \<^verbatim>\<open>str_gsub\<close>: every round that does not leave it moves on in the subject, so
  its length and one more round are enough.
\<close>

fun gsub_loop ::
  "nat \<Rightarrow> string \<Rightarrow> string \<Rightarrow> nat \<Rightarrow> bool \<Rightarrow> replacement \<Rightarrow> int \<Rightarrow> int \<Rightarrow> nat \<Rightarrow> (string \<times> int) res" where
  "gsub_loop 0 src pat p anchor r max_s n s = Inl OutOfFuel"
| "gsub_loop (Suc k) src pat p anchor r max_s n s =
     (let leave = (\<lambda>n s. Inr (drop s src, n)) in
      if n < max_s then
        bindR (do_match src pat s p) (\<lambda>(caps, e).
        bindR (case e of None \<Rightarrow> Inr [] | Some e \<Rightarrow> add_value src caps r s e) (\<lambda>added.
          let n = (if e = None then n else n + 1);
              go = (\<lambda>piece s. bindR (if anchor then leave n s
                                      else gsub_loop k src pat p anchor r max_s n s) (\<lambda>(out, n).
                      Inr (added @ piece @ out, n)))
          in
          case e of
            Some e' \<Rightarrow>
              if e' > s then go [] e'
              else if s < length src then go [src ! s] (s + 1)
              else bindR (leave n s) (\<lambda>(out, n). Inr (added @ out, n))
          | None \<Rightarrow>
              if s < length src then go [src ! s] (s + 1)
              else bindR (leave n s) (\<lambda>(out, n). Inr (added @ out, n))))
      else leave n s)"

definition str_gsub :: "string \<Rightarrow> string \<Rightarrow> replacement \<Rightarrow> int option \<Rightarrow> (string \<times> int) res" where
  "str_gsub src pat r max_s =
     (let anchor = (pat \<noteq> [] \<and> pat ! 0 = CHR ''^'')
      in gsub_loop (length src + 2) src pat (if anchor then 1 else 0) anchor r
           (case max_s of None \<Rightarrow> int (length src) + 1 | Some m \<Rightarrow> m) 0 0)"

section \<open>The plain search finds the first occurrence\<close>

lemma strstr_Cons: "strstr (x # xs) sub = (if starts_with (x # xs) sub then Some 0 else map_option Suc (strstr xs sub))"
  by (subst strstr.simps) simp

lemma strstr_short: "length s < length sub \<Longrightarrow> strstr s sub = None"
  using strstr_Some [of s sub] by (cases "strstr s sub") auto

lemma strstr_skip:
  "j \<le> length s \<Longrightarrow> \<forall>i<j. s ! i \<noteq> c \<Longrightarrow> strstr s (c # t) = map_option ((+) j) (strstr (drop j s) (c # t))"
proof (induction j arbitrary: s)
  case 0
  then show ?case by (simp add: map_option_case split: option.split)
next
  case (Suc j)
  then obtain x xs where s: "s = x # xs" by (cases s) auto
  with Suc.prems have "x \<noteq> c" "j \<le> length xs" "\<forall>i<j. xs ! i \<noteq> c" by force+
  with Suc.IH [of xs] s show ?case
    by (simp add: strstr_Cons starts_with_def option.map_comp o_def)
qed

lemma memchr_Some: "memchr s c n = Some j \<Longrightarrow> j < n \<and> j < length s \<and> s ! j = c \<and> (\<forall>i<j. s ! i \<noteq> c)"
proof (induction s c n arbitrary: j rule: memchr.induct)
  case (2 x xs c n)
  show ?case
  proof (cases "x = c \<or> n = 0")
    case True
    with 2 show ?thesis by (auto split: if_splits)
  next
    case False
    with 2 obtain i where "memchr xs c (n - 1) = Some i" "j = Suc i" by auto
    with 2 False show ?thesis by (auto simp: nth_Cons' less_Suc_eq_0_disj)
  qed
qed simp

lemma memchr_None: "memchr s c n = None \<Longrightarrow> i < n \<Longrightarrow> i < length s \<Longrightarrow> s ! i \<noteq> c"
proof (induction s c n arbitrary: i rule: memchr.induct)
  case (2 x xs c n)
  then show ?case by (cases i) (auto split: if_splits)
qed simp

lemma lmem_loop_strstr:
  "l1 + length t = length s \<Longrightarrow> lmem_loop s l1 (c # t) (length t) = strstr s (c # t)"
proof (induction l1 arbitrary: s rule: less_induct)
  case (less l1)
  show ?case
  proof (cases "memchr s c l1")
    case None
    then have "\<forall>i<l1. s ! i \<noteq> c" using memchr_None [OF None] less.prems by auto
    then have "strstr s (c # t) = None"
      using strstr_skip [of l1 s c t] less.prems by (simp add: strstr_short)
    with None show ?thesis by (subst lmem_loop.simps) simp
  next
    case (Some j)
    note j = memchr_Some [OF Some]
    then have skip: "strstr s (c # t) = map_option ((+) j) (strstr (drop j s) (c # t))"
      by (intro strstr_skip) auto
    have dj: "drop j s = c # drop (j + 1) s" using j by (simp add: take_nth_drop)
    show ?thesis
    proof (cases "take (length t) (drop (j + 1) s) = t")
      case True
      have "strstr (drop j s) (c # t) = Some 0"
        unfolding dj using True by (simp add: strstr_Cons starts_with_def)
      with Some j True skip show ?thesis by (subst lmem_loop.simps) simp
    next
      case False
      have "strstr (drop j s) (c # t) = map_option Suc (strstr (drop (j + 1) s) (c # t))"
        unfolding dj using False by (simp add: strstr_Cons starts_with_def)
      moreover have "lmem_loop (drop (j + 1) s) (l1 - (j + 1)) (c # t) (length t) = strstr (drop (j + 1) s) (c # t)"
        using j less.prems by (intro less.IH) auto
      ultimately show ?thesis using Some j False skip
        by (subst lmem_loop.simps) (simp add: option.map_comp o_def, simp add: map_option_case split: option.split)
    qed
  qed
qed

lemma lmemfind_strstr: "lmemfind s1 s2 = strstr s1 s2"
proof (cases s2)
  case Nil
  then show ?thesis by (subst strstr.simps) (simp add: lmemfind_def starts_with_def)
next
  case (Cons c t)
  show ?thesis
  proof (cases "length s2 > length s1")
    case True
    then show ?thesis using Cons by (simp add: lmemfind_def strstr_short)
  next
    case False
    with Cons lmem_loop_strstr [of "length s1 - length t" t s1 c] show ?thesis
      by (simp add: lmemfind_def)
  qed
qed

section \<open>Plain patterns\<close>

definition plain :: "string \<Rightarrow> bool" where
  "plain pat \<longleftrightarrow> list_all (\<lambda>c. c \<notin> set SPECIALS \<and> c \<noteq> CHR '')'' \<and> c \<noteq> NUL) pat"

lemma match_plain:
  assumes "plain pat"
  shows "length pat - p < n \<Longrightarrow> p \<le> length pat \<Longrightarrow> s \<le> length src \<Longrightarrow>
    match n src pat caps s p = Inr (caps, if starts_with (drop s src) (drop p pat) then Some (s + (length pat - p)) else None)"
proof (induction n arbitrary: s p)
  case (Suc n)
  show ?case
  proof (cases "p = length pat")
    case True
    then show ?thesis by (simp add: match_step_def char_at_def starts_with_def)
  next
    case False
    with Suc.prems have p: "p < length pat" by simp
    with assms have c: "pat ! p \<notin> set SPECIALS" "pat ! p \<noteq> CHR '')''" "pat ! p \<noteq> NUL"
      by (auto simp: plain_def list_all_length)
    obtain x where x: "char_at pat (p + 1) = Inr x" "x \<notin> {CHR ''?'', CHR ''*'', CHR ''+'', CHR ''-''}"
    proof (cases "p + 1 < length pat")
      case True
      with assms have "pat ! (p + 1) \<notin> set SPECIALS" by (auto simp: plain_def list_all_length)
      with True that show ?thesis by (auto simp: char_at_def SPECIALS_def)
    qed (use p that in \<open>auto simp: char_at_def\<close>)
    have step: "match (Suc n) src pat caps s p =
        (if s < length src \<and> pat ! p = src ! s then match n src pat caps (s + 1) (p + 1) else Inr (caps, None))"
      using p c x by (simp add: match_step_def match_item_def classend_def singlematch_def char_at_def SPECIALS_def)
    have "drop p pat = pat ! p # drop (p + 1) pat" using p by (simp add: take_nth_drop)
    then have "starts_with (drop s src) (drop p pat) \<longleftrightarrow>
        s < length src \<and> pat ! p = src ! s \<and> starts_with (drop (s + 1) src) (drop (p + 1) pat)"
      by (cases "s < length src") (auto simp: take_nth_drop starts_with_def)
    moreover have "s < length src \<Longrightarrow> match n src pat caps (s + 1) (p + 1) =
        Inr (caps, if starts_with (drop (s + 1) src) (drop (p + 1) pat) then Some (s + 1 + (length pat - (p + 1))) else None)"
      using Suc.prems p by (intro Suc.IH) auto
    ultimately show ?thesis using step p by (simp add: Suc_diff_Suc)
  qed
qed simp

lemma do_match_plain:
  assumes "plain pat" "s \<le> length src"
  shows "do_match src pat s 0 = Inr ([], if starts_with (drop s src) pat then Some (s + length pat) else None)"
  using match_plain [OF assms(1), of 0 "Suc (length pat)" s src "[]"] assms(2)
  by (simp add: do_match_def del: match.simps)

lemma scan_from_plain:
  assumes "plain pat"
  shows "s \<le> length src \<Longrightarrow> scan_from src pat 0 False s (drop s src) =
    Inr (map_option (\<lambda>k. (s + k, s + k + length pat, [])) (strstr (drop s src) pat))"
proof (induction "drop s src" arbitrary: s)
  case Nil
  then have "do_match src pat s 0 = Inr ([], if starts_with [] pat then Some (s + length pat) else None)"
    using do_match_plain [OF assms, of s src] by simp
  with Nil(1) [symmetric] show ?case
    by (subst strstr.simps) simp
next
  case (Cons c cs)
  have d: "do_match src pat s 0 = Inr ([], if starts_with (drop s src) pat then Some (s + length pat) else None)"
    by (rule do_match_plain [OF assms Cons.prems])
  note s = drop_ConsD [OF Cons.hyps(2)]
  then have "scan_from src pat 0 False (s + 1) cs =
      Inr (map_option (\<lambda>k. (s + 1 + k, s + 1 + k + length pat, [])) (strstr cs pat))"
    using Cons.hyps(1) [of "s + 1"] by auto
  with d show ?case
    unfolding Cons.hyps(2) [symmetric] by (simp add: strstr_Cons option.map_comp o_def)
qed

text \<open>The shortcut of \<^verbatim>\<open>string.find\<close> is right: for a pattern that the matcher takes
  literally, the plain search, with its jumps from one occurrence of the first character to
  the next, returns what the pattern search returns, the place of the first occurrence at
  or after the starting position or \<^verbatim>\<open>nil\<close>, whether plain search was asked for or not.
  A closing parenthesis is the one character that the test for the shortcut forgets.\<close>

theorem plain_find_is_pattern_find:
  assumes "plain pat"
  shows "str_find src pat init pl = find_pattern src pat (init_place src init) True \<and>
    str_find src pat init pl = Inr (case strstr (drop (init_place src init) src) pat of
        None \<Rightarrow> [LNil]
      | Some k \<Rightarrow> [LNum (int (init_place src init + k) + 1), LNum (int (init_place src init + k + length pat))])"
proof -
  have "c_str pat = pat"
    using assms by (intro c_str_id) (auto simp: plain_def list_all_iff)
  then have no_specials: "\<not> strpbrk pat SPECIALS"
    using assms by (auto simp: strpbrk_def plain_def list_ex_iff list_all_iff)
  have no_anchor: "(pat \<noteq> [] \<and> pat ! 0 = CHR ''^'') = False"
    using assms by (cases pat) (auto simp: plain_def SPECIALS_def)
  have start: "init_place src init \<le> length src" by (simp add: init_place_def Let_def)
  show ?thesis
    unfolding str_find_def str_find_aux_def find_pattern_def no_anchor Let_def
    using no_specials scan_from_plain [OF assms start]
    by (simp add: lmemfind_strstr push_captures_def split: option.split)
qed

lemma plain_find_is_pattern_find_witness:
  "str_find ''banana'' ''na'' 4 False = find_pattern ''banana'' ''na'' (init_place ''banana'' 4) True \<and>
    str_find ''banana'' ''na'' 4 False = Inr (case strstr (drop (init_place ''banana'' 4) ''banana'') ''na'' of
        None \<Rightarrow> [LNil]
      | Some k \<Rightarrow> [LNum (int (init_place ''banana'' 4 + k) + 1), LNum (int (init_place ''banana'' 4 + k + length ''na''))])"
  by (rule plain_find_is_pattern_find) (simp add: plain_def SPECIALS_def)

lemma closing_parenthesis_is_not_special:
  "str_find ''f(x)'' '')'' 1 False = Inr [LNum 4, LNum 4]"
  "str_match ''f(x)'' '')'' 1 = Inl (LuaError ''invalid pattern capture'')"
proof -
  show "str_find ''f(x)'' '')'' 1 False = Inr [LNum 4, LNum 4]"
    by (simp add: str_find_def str_find_aux_def init_place_def posrelat_def strpbrk_def c_str_def SPECIALS_def
        lmemfind_strstr strstr_Cons starts_with_def Let_def)
  show "str_match ''f(x)'' '')'' 1 = Inl (LuaError ''invalid pattern capture'')"
    by (simp add: str_match_def str_find_aux_def init_place_def posrelat_def find_pattern_def do_match_def
        match_step_def char_at_def end_capture_def capture_to_close_def Let_def)
qed

section \<open>gsub and gmatch end, and keep the rest of the subject\<close>

lemma push_onecapture_sound: "sound (push_onecapture src caps i s e) (\<lambda>_. True)"
  by (simp add: push_onecapture_def split_beta Let_def)

lemma mapR_sound: "(\<And>x. sound (f x) (\<lambda>_. True)) \<Longrightarrow> sound (mapR f xs) (\<lambda>_. True)"
proof (induction xs)
  case (Cons x xs)
  have "sound (bindR (mapR f xs) (\<lambda>ys. Inr (y # ys))) (\<lambda>_. True)" for y
    by (rule sound_bindR [OF Cons.IH [OF Cons.prems]]) simp
  then show ?case by (simp add: sound_bindR [OF Cons.prems])
qed simp

lemma push_captures_sound: "sound (push_captures src caps rng) (\<lambda>_. True)"
  unfolding push_captures_def Let_def split_beta by (rule mapR_sound) (rule push_onecapture_sound)

lemma sound_then: "sound m (\<lambda>_. True) \<Longrightarrow> sound (bindR m (\<lambda>r. Inr (f r))) (\<lambda>_. True)"
  by (erule sound_bindR) simp

lemma add_s_sound: "sound (add_s src caps s e news) (\<lambda>_. True)"
proof (induction news rule: length_induct)
  case (1 news)
  show ?case
  proof (cases news)
    case (Cons c cs)
    with 1 have IH: "sound (add_s src caps s e cs) (\<lambda>_. True)" by simp
    show ?thesis
    proof (cases "c = L_ESC \<and> cs \<noteq> []")
      case False
      with IH Cons show ?thesis by (auto simp: sound_then)
    next
      case True
      then obtain d ds where cs: "cs = d # ds" by (cases cs) auto
      with 1 Cons have "sound (add_s src caps s e ds) (\<lambda>_. True)" by simp
      with True Cons cs show ?thesis
        by (simp add: sound_then sound_bindR [OF push_onecapture_sound])
    qed
  qed simp
qed

lemma add_value_sound: "sound (add_value src caps r s e) (\<lambda>_. True)"
proof -
  have "sound (use_value src s e v) (\<lambda>_. True)" for v
    by (simp add: use_value_def split: lval.split bool.split)
  then show ?thesis
    by (cases r) (auto simp: add_value_def add_s_sound
        intro!: sound_bindR [OF push_captures_sound] sound_bindR [OF push_onecapture_sound])
qed

lemma add_whole_match: "add_value src caps (RStr ''%0'') s e = Inr (slice src s e)"
  by (simp add: add_value_def isdigit_def)

lemma slice_drop: "s \<le> e \<Longrightarrow> slice src s e @ drop e src = drop s src"
  by (simp add: slice_def) (metis append_take_drop_id drop_drop le_add_diff_inverse2)

definition gsub_ok :: "string \<Rightarrow> replacement \<Rightarrow> int \<Rightarrow> int \<Rightarrow> nat \<Rightarrow> string \<times> int \<Rightarrow> bool" where
  "gsub_ok src r max_s n s res \<longleftrightarrow>
     n \<le> snd res \<and> snd res \<le> max n max_s \<and> snd res \<le> n + int (length src - s) + 1 \<and>
     (snd res = n \<or> r = RStr ''%0'' \<longrightarrow> fst res = drop s src)"

lemma do_match_end:
  "s \<le> length src \<Longrightarrow> p \<le> length pat \<Longrightarrow>
     sound (do_match src pat s p) (\<lambda>(caps, r). \<forall>e. r = Some e \<longrightarrow> s \<le> e \<and> e \<le> length src)"
  unfolding do_match_def
  by (rule sound_mono [OF match_good [where caps = "[]" and lo = 0]])
    (auto simp: outcome_ok_def caps_ok_def split: option.splits)

lemma gsub_leave: "gsub_ok src r max_s n s (drop s src, n)"
  by (simp add: gsub_ok_def)

lemma gsub_loop_sound:
  assumes "p \<le> length pat"
  shows "s \<le> length src \<Longrightarrow> length src - s + 1 < k \<Longrightarrow>
    sound (gsub_loop k src pat p anchor r max_s n s) (gsub_ok src r max_s n s)"
proof (induction k arbitrary: n s)
  case (Suc k)
  show ?case
  proof (cases "n < max_s")
    case False
    then show ?thesis by (simp add: gsub_leave)
  next
    case True
    define cont where "cont n s = (if anchor then Inr (drop s src, n)
       else gsub_loop k src pat p anchor r max_s n s)" for n s
    have cont: "sound (cont n' s') (gsub_ok src r max_s n' s')" if "s < s'" "s' \<le> length src" for n' s'
      using that Suc.IH [of s' n'] Suc.prems by (cases anchor) (simp_all add: cont_def gsub_leave)
    show ?thesis
      unfolding gsub_loop.simps Let_def if_P [OF True] cont_def [symmetric]
    proof (rule sound_bindR [OF do_match_end [OF Suc.prems(1) assms]])
      fix x
      assume x: "case x of (caps :: captures, r) \<Rightarrow> \<forall>e. r = Some e \<longrightarrow> s \<le> e \<and> e \<le> length src"
      obtain caps e where xe: "x = (caps, e)" by (cases x)
      let ?add = "case e of None \<Rightarrow> Inr [] | Some e \<Rightarrow> add_value src caps r s e"
      have added: "sound ?add (\<lambda>added. e = None \<and> added = [] \<or>
          (\<exists>e'. e = Some e' \<and> (r = RStr ''%0'' \<longrightarrow> added = slice src s e')))"
      proof (cases e)
        case (Some e')
        then show ?thesis
          using add_value_sound [of src caps r s e'] add_whole_match [of src caps s e']
          by (cases "add_value src caps r s e'" rule: sum.exhaust) (auto elim!: sound_mono)
      qed simp
      have one_on: "sound (bindR (cont n' (s + 1)) (\<lambda>(out, n). Inr (added @ [src ! s] @ out, n)))
            (gsub_ok src r max_s n s)"
        if "s < length src" "n' = n \<and> added = [] \<or> n' = n + 1 \<and> (r = RStr ''%0'' \<longrightarrow> added = [])" for n' added
        by (rule sound_bindR [OF cont])
          (use that True in \<open>auto simp: gsub_ok_def take_nth_drop\<close>)
      have skip: "sound (bindR (cont (n + 1) e') (\<lambda>(out, n). Inr (added @ [] @ out, n)))
            (gsub_ok src r max_s n s)"
        if "s < e'" "e' \<le> length src" "r = RStr ''%0'' \<longrightarrow> added = slice src s e'" for e' added
        by (rule sound_bindR [OF cont])
          (use that True in \<open>auto simp: gsub_ok_def slice_drop\<close>)
      show "sound (case x of (caps, e) \<Rightarrow>
          bindR (case e of None \<Rightarrow> Inr [] | Some e \<Rightarrow> add_value src caps r s e) (\<lambda>added.
          case e of
            Some e' \<Rightarrow>
              if e' > s then bindR (cont (if e = None then n else n + 1) e') (\<lambda>(out, n). Inr (added @ [] @ out, n))
              else if s < length src then bindR (cont (if e = None then n else n + 1) (s + 1)) (\<lambda>(out, n). Inr (added @ [src ! s] @ out, n))
              else bindR (Inr (drop s src, if e = None then n else n + 1)) (\<lambda>(out, n). Inr (added @ out, n))
          | None \<Rightarrow>
              if s < length src then bindR (cont (if e = None then n else n + 1) (s + 1)) (\<lambda>(out, n). Inr (added @ [src ! s] @ out, n))
              else bindR (Inr (drop s src, if e = None then n else n + 1)) (\<lambda>(out, n). Inr (added @ out, n))))
          (gsub_ok src r max_s n s)"
        unfolding xe prod.case
      proof (rule sound_bindR [OF added])
        fix added
        assume a: "e = None \<and> added = [] \<or> (\<exists>e'. e = Some e' \<and> (r = RStr ''%0'' \<longrightarrow> added = slice src s e'))"
        show "sound (case e of
            Some e' \<Rightarrow>
              if e' > s then bindR (cont (if e = None then n else n + 1) e') (\<lambda>(out, n). Inr (added @ [] @ out, n))
              else if s < length src then bindR (cont (if e = None then n else n + 1) (s + 1)) (\<lambda>(out, n). Inr (added @ [src ! s] @ out, n))
              else bindR (Inr (drop s src, if e = None then n else n + 1)) (\<lambda>(out, n). Inr (added @ out, n))
          | None \<Rightarrow>
              if s < length src then bindR (cont (if e = None then n else n + 1) (s + 1)) (\<lambda>(out, n). Inr (added @ [src ! s] @ out, n))
              else bindR (Inr (drop s src, if e = None then n else n + 1)) (\<lambda>(out, n). Inr (added @ out, n)))
          (gsub_ok src r max_s n s)"
        proof (cases e)
          case None
          with a one_on [of n "[]"] show ?thesis by (simp add: gsub_ok_def)
        next
          case (Some e')
          with a have ad: "r = RStr ''%0'' \<longrightarrow> added = slice src s e'" by simp
          have "s \<le> e'" "e' \<le> length src" using x xe Some by auto
          moreover have "slice src s s = []" by (simp add: slice_def)
          ultimately show ?thesis
            using Some ad skip [of e' added] one_on [of "n + 1" added] True
            by (cases "s < e'") (auto simp: gsub_ok_def)
        qed
      qed
    qed
  qed
qed simp

text \<open>C34: \<^verbatim>\<open>string.gsub\<close> always ends and never loses a character: for any subject, pattern and
  replacement (string, function or table) it returns a result or raises a Lua error; it
  makes at most as many replacements as it was asked for and as there are places in the
  subject; a subject without a match comes back unchanged, and so does one whose matches
  are replaced by themselves (\<^verbatim>\<open>"%0"\<close>), empty matches included.\<close>

theorem gsub_replaces:
  "sound (str_gsub src pat r max_s) (\<lambda>(out, n).
     0 \<le> n \<and> n \<le> int (length src) + 1 \<and> (case max_s of None \<Rightarrow> True | Some m \<Rightarrow> n \<le> max 0 m) \<and>
     (n = 0 \<or> r = RStr ''%0'' \<longrightarrow> out = src))"
proof -
  let ?anchor = "pat \<noteq> [] \<and> pat ! 0 = CHR ''^''"
  let ?max = "case max_s of None \<Rightarrow> int (length src) + 1 | Some m \<Rightarrow> m"
  have "(if ?anchor then 1 else 0) \<le> length pat" by (cases pat) auto
  then have "sound (str_gsub src pat r max_s) (gsub_ok src r ?max 0 0)"
    unfolding str_gsub_def Let_def by (intro gsub_loop_sound) simp_all
  then show ?thesis
    by (rule sound_mono) (auto simp: gsub_ok_def split: option.splits)
qed

lemma gsub_replaces_witness:
  "snd (''ab'', 1) \<le> int (length ''ab'') + 1 \<and> fst (''ab'', 1 :: int) = ''ab''"
proof -
  have "str_gsub ''ab'' ''b'' (RStr ''%0'') None = Inr (''ab'', 1)"
    by (simp add: str_gsub_def do_match_def match_step_def match_item_def char_at_def classend_def
        singlematch_def add_value_def slice_def isdigit_def eval_nat_numeral Let_def)
  with gsub_replaces [of "''ab''" "''b''" "RStr ''%0''" None] show ?thesis by simp
qed

text \<open>
  A replacement that ends in a single percent sign makes the loop of \<^verbatim>\<open>add_s\<close> step over it and
  copy the zero byte behind the string.
\<close>

lemma trailing_percent_adds_zero_byte: "str_gsub ''a'' ''a'' (RStr ''x%'') None = Inr (''x'' @ [NUL], 1)"
  by (simp add: str_gsub_def do_match_def match_step_def match_item_def char_at_def classend_def singlematch_def
      add_value_def eval_nat_numeral Let_def)

text \<open>The iterator of \<^verbatim>\<open>gmatch\<close> always moves on, so it returns finitely many matches.\<close>

lemma scan_from_sound:
  "s \<le> length src \<Longrightarrow> p \<le> length pat \<Longrightarrow>
     sound (scan_from src pat p anchor s (drop s src))
       (\<lambda>r. \<forall>s1 e caps. r = Some (s1, e, caps) \<longrightarrow> s \<le> s1 \<and> s1 \<le> e \<and> e \<le> length src)"
proof (induction "drop s src" arbitrary: s)
  case Nil
  show ?case unfolding Nil(1) [symmetric] scan_from.simps
    by (rule sound_bindR [OF do_match_end]) (use Nil in auto)
next
  case (Cons c cs)
  note s = drop_ConsD [OF Cons.hyps(2)]
  have rest: "sound (scan_from src pat p anchor (s + 1) cs)
       (\<lambda>r. \<forall>s1 e caps. r = Some (s1, e, caps) \<longrightarrow> s \<le> s1 \<and> s1 \<le> e \<and> e \<le> length src)"
    using Cons.hyps(1) [of "s + 1"] s Cons.prems by (auto elim!: sound_mono)
  show ?case unfolding Cons.hyps(2) [symmetric] scan_from.simps
    by (rule sound_bindR [OF do_match_end])
      (use Cons.prems rest in \<open>auto split: option.split\<close>)
qed

lemma gmatch_moves_on:
  "sound (gmatch_aux src pat pos)
     (\<lambda>r. \<forall>vs pos'. r = Some (vs, pos') \<longrightarrow> pos < pos' \<and> pos' \<le> length src + 1)"
proof (cases "pos \<le> length src")
  case True
  show ?thesis
    unfolding gmatch_aux_def if_P [OF True]
  proof (rule sound_bindR [OF scan_from_sound [OF True]])
    fix r
    assume r: "\<forall>s1 e (caps :: captures). r = Some (s1, e, caps) \<longrightarrow> pos \<le> s1 \<and> s1 \<le> e \<and> e \<le> length src"
    show "sound (case r of None \<Rightarrow> Inr None
          | Some (s1, e, caps) \<Rightarrow>
              bindR (push_captures src caps (Some (s1, e))) (\<lambda>vs. Inr (Some (vs, if e = s1 then e + 1 else e))))
        (\<lambda>r. \<forall>vs pos'. r = Some (vs, pos') \<longrightarrow> pos < pos' \<and> pos' \<le> length src + 1)"
    proof (cases r)
      case (Some t)
      obtain s1 e caps where "t = (s1, e, caps)" by (cases t)
      with r Some show ?thesis by (auto intro!: sound_bindR [OF push_captures_sound])
    qed simp
  qed simp
qed (simp add: gmatch_aux_def)

section \<open>Slices, bytes and reversal\<close>

lemma rev_from_take: "l \<le> length s \<Longrightarrow> rev_from s l = rev (take l s)"
  by (induction l) (simp_all add: take_Suc_conv_app_nth)

lemma str_reverse_rev: "str_reverse s = rev s"
  by (simp add: str_reverse_def rev_from_take)

lemma str_char_bytes: "str_char (map (\<lambda>c. int (of_char c)) s) = Inr s"
proof (induction s)
  case (Cons c s)
  have "(of_char c :: nat) \<le> 255" using of_char_256 [of c] by linarith
  with Cons show ?case by simp
qed simp

lemma str_byte_all: "str_byte s (Some 1) (Some (-1)) = map (\<lambda>c. int (of_char c)) s"
  by (auto simp: str_byte_def posrelat_def Let_def intro: nth_equalityI)

text \<open>Slices and bytes lose nothing: a string cut at any place that is counted from the
  left is the two slices put together again, \<^verbatim>\<open>string.char\<close> of the bytes of a string is the
  string, and reversing twice gives it back.\<close>

theorem slices_and_bytes:
  assumes "0 \<le> i"
  shows "str_sub s 1 (Some i) @ str_sub s (i + 1) None = s \<and>
    str_char (str_byte s (Some 1) (Some (-1))) = Inr s \<and> str_reverse (str_reverse s) = s"
proof -
  have "str_sub s 1 (Some i) = take (nat i) s"
    using assms by (cases s) (auto simp: str_sub_def posrelat_def slice_def Let_def nat_le_iff)
  moreover have "str_sub s (i + 1) None = drop (nat i) s"
    using assms by (auto simp: str_sub_def posrelat_def slice_def Let_def nat_less_iff)
  ultimately show ?thesis by (simp add: str_byte_all str_char_bytes str_reverse_rev)
qed

lemma slices_and_bytes_witness:
  "str_sub ''teliva'' 1 (Some 2) @ str_sub ''teliva'' 3 None = ''teliva'' \<and>
    str_char (str_byte ''teliva'' (Some 1) (Some (-1))) = Inr ''teliva'' \<and>
    str_reverse (str_reverse ''teliva'') = ''teliva''"
  using slices_and_bytes [of 2 "''teliva''"] by simp

end
