(* ===== verification/LuaSort.thy ===== *)
theory LuaSort
  imports LuaString "HOL-Library.Multiset"
begin

text \<open>
  \<^verbatim>\<open>table.sort\<close>, the quicksort of \<^verbatim>\<open>src/ltablib.c\<close>, and the default order it uses
  (\<^verbatim>\<open>luaV_lessthan\<close> and \<^verbatim>\<open>l_strcmp\<close> in \<^verbatim>\<open>src/lvm.c\<close>).  The array part of a table is a function from
  indices to values, so that an index outside the range is a position like any other, as it is in Lua.  The
  comparison is a function into results, because it may raise an error; the locale \<open>order_function\<close>
  is what the algorithm relies on.
\<close>

section \<open>Partitioning\<close>

abbreviation bad_order :: "'a res" where
  "bad_order \<equiv> Inl (LuaError ''invalid order function for sorting'')"

definition set2 :: "(int \<Rightarrow> 'v) \<Rightarrow> int \<Rightarrow> int \<Rightarrow> int \<Rightarrow> 'v" where
  "set2 a i j = a(i := a j, j := a i)"

function up_scan :: "('v \<Rightarrow> 'v \<Rightarrow> bool res) \<Rightarrow> 'v \<Rightarrow> int \<Rightarrow> (int \<Rightarrow> 'v) \<Rightarrow> int \<Rightarrow> int res" where
  "up_scan lt P u a i =
     bindR (lt (a (i + 1)) P) (\<lambda>less.
       if less then (if i + 1 > u then bad_order else up_scan lt P u a (i + 1))
       else Inr (i + 1))"
  by pat_completeness auto
termination by (relation "measure (\<lambda>(lt, P, u, a, i). nat (u - i))") auto

function down_scan :: "('v \<Rightarrow> 'v \<Rightarrow> bool res) \<Rightarrow> 'v \<Rightarrow> int \<Rightarrow> (int \<Rightarrow> 'v) \<Rightarrow> int \<Rightarrow> int res" where
  "down_scan lt P l a j =
     bindR (lt P (a (j - 1))) (\<lambda>less.
       if less then (if j - 1 < l then bad_order else down_scan lt P l a (j - 1))
       else Inr (j - 1))"
  by pat_completeness auto
termination by (relation "measure (\<lambda>(lt, P, l, a, j). nat (j - l))") auto

declare up_scan.simps [simp del] down_scan.simps [simp del]

lemma up_scan_beyond: "up_scan lt P u a i = Inr i' \<Longrightarrow> i < i'"
proof (induction lt P u a i rule: up_scan.induct)
  case (1 lt P u a i)
  from "1.prems" obtain b where b: "lt (a (i + 1)) P = Inr b"
    by (subst (asm) up_scan.simps) (auto simp: bindR_Inr_iff)
  with "1.prems" "1.IH" [OF b] show ?case
    by (subst (asm) up_scan.simps) (auto split: if_splits)
qed

lemma down_scan_below: "down_scan lt P l a j = Inr j' \<Longrightarrow> j' < j"
proof (induction lt P l a j rule: down_scan.induct)
  case (1 lt P l a j)
  from "1.prems" obtain b where b: "lt P (a (j - 1)) = Inr b"
    by (subst (asm) down_scan.simps) (auto simp: bindR_Inr_iff)
  with "1.prems" "1.IH" [OF b] show ?case
    by (subst (asm) down_scan.simps) (auto split: if_splits)
qed

function partition_loop ::
    "('v \<Rightarrow> 'v \<Rightarrow> bool res) \<Rightarrow> 'v \<Rightarrow> int \<Rightarrow> int \<Rightarrow> int \<Rightarrow> int \<Rightarrow> (int \<Rightarrow> 'v) \<Rightarrow> (int \<times> (int \<Rightarrow> 'v)) res" where
  "partition_loop lt P l u i j a =
     bindR (up_scan lt P u a i) (\<lambda>i.
     bindR (down_scan lt P l a j) (\<lambda>j.
       if j < i then Inr (i, a) else partition_loop lt P l u i j (set2 a i j)))"
  by pat_completeness auto
termination
proof (relation "measure (\<lambda>(lt, P, l, u, i, j, a). nat (j - i))", goal_cases)
  case (2 lt P l u i j a i' j')
  then show ?case using up_scan_beyond [of lt P u a i i'] down_scan_below [of lt P l a j j'] by auto
qed simp

declare partition_loop.simps [simp del]

section \<open>Sorting\<close>

text \<open>The comparisons that bring the elements at \<open>l\<close>, \<open>i\<close> and \<open>u\<close> into order, once those at \<open>l\<close> and
  \<open>u\<close> are.\<close>

definition median :: "('v \<Rightarrow> 'v \<Rightarrow> bool res) \<Rightarrow> int \<Rightarrow> int \<Rightarrow> int \<Rightarrow> (int \<Rightarrow> 'v) \<Rightarrow> (int \<Rightarrow> 'v) res" where
  "median lt l i u a =
     bindR (lt (a i) (a l)) (\<lambda>less.
       if less then Inr (set2 a i l)
       else bindR (lt (a u) (a i)) (\<lambda>less. Inr (if less then set2 a i u else a)))"

fun auxsort :: "nat \<Rightarrow> ('v \<Rightarrow> 'v \<Rightarrow> bool res) \<Rightarrow> int \<Rightarrow> int \<Rightarrow> (int \<Rightarrow> 'v) \<Rightarrow> (int \<Rightarrow> 'v) res" where
  "auxsort 0 lt l u a = Inl OutOfFuel"
| "auxsort (Suc n) lt l u a =
     (if l < u then
        bindR (lt (a u) (a l)) (\<lambda>less.
        let a = (if less then set2 a l u else a) in
        if u - l = 1 then Inr a
        else let i = (l + u) div 2 in
        bindR (median lt l i u a) (\<lambda>a.
        if u - l = 2 then Inr a
        else
        bindR (partition_loop lt (a i) l u l (u - 1) (set2 a i (u - 1))) (\<lambda>(i, a).
        let a = set2 a (u - 1) i in
        if i - l < u - i then bindR (auxsort n lt l (i - 1) a) (auxsort n lt (i + 1) u)
        else bindR (auxsort n lt (i + 1) u a) (auxsort n lt l (i - 1)))))
      else Inr a)"

declare auxsort.simps(2) [simp del]

text \<open>A range of \<open>n\<close> elements needs at most \<open>n + 1\<close> nested calls, when the order is one.\<close>

definition sort_array :: "('v \<Rightarrow> 'v \<Rightarrow> bool res) \<Rightarrow> int \<Rightarrow> (int \<Rightarrow> 'v) \<Rightarrow> (int \<Rightarrow> 'v) res" where
  "sort_array lt n a = auxsort (nat n + 2) lt 1 n a"

section \<open>Rearranging a range\<close>

definition rearranged :: "int \<Rightarrow> int \<Rightarrow> (int \<Rightarrow> 'v) \<Rightarrow> (int \<Rightarrow> 'v) \<Rightarrow> bool" where
  "rearranged l u a b \<longleftrightarrow> (\<exists>f. bij f \<and> (\<forall>k. k < l \<or> u < k \<longrightarrow> f k = k) \<and> b = a \<circ> f)"

lemma rearranged_refl [simp]: "rearranged l u a a"
  unfolding rearranged_def by (rule exI [of _ id]) simp

lemma rearranged_trans: "rearranged l u a b \<Longrightarrow> rearranged l u b c \<Longrightarrow> rearranged l u a c"
  unfolding rearranged_def
proof (elim exE conjE)
  fix f g
  assume "bij f" "\<forall>k. k < l \<or> u < k \<longrightarrow> f k = k" "b = a \<circ> f" "bij g" "\<forall>k. k < l \<or> u < k \<longrightarrow> g k = k" "c = b \<circ> g"
  then show "\<exists>f. bij f \<and> (\<forall>k. k < l \<or> u < k \<longrightarrow> f k = k) \<and> c = a \<circ> f"
    by (intro exI [of _ "f \<circ> g"]) (auto simp: bij_comp comp_assoc)
qed

lemma rearranged_mono: "rearranged l u a b \<Longrightarrow> l' \<le> l \<Longrightarrow> u \<le> u' \<Longrightarrow> rearranged l' u' a b"
proof -
  assume a: "rearranged l u a b" "l' \<le> l" "u \<le> u'"
  from a(1) obtain f where f: "bij f" "\<forall>k. k < l \<or> u < k \<longrightarrow> f k = k" "b = a \<circ> f"
    unfolding rearranged_def by (elim exE conjE)
  have "f k = k" if "k < l' \<or> u' < k" for k using f(2) that a(2,3) by (metis le_less_trans less_le_trans)
  with f(1,3) show ?thesis unfolding rearranged_def by (intro exI [of _ f] conjI allI impI)
qed

lemma rearranged_set2:
  assumes "l \<le> i" "i \<le> u" "l \<le> j" "j \<le> u"
  shows "rearranged l u a (set2 a i j)"
proof -
  let ?f = "id(i := j, j := i)"
  have "?f \<circ> ?f = id" by auto
  then have "bij ?f" by (rule o_bij) (rule \<open>?f \<circ> ?f = id\<close>)
  moreover have "set2 a i j = a \<circ> ?f" by (auto simp: set2_def)
  ultimately show ?thesis unfolding rearranged_def
    by (intro exI [of _ ?f]) (use assms in auto)
qed

lemma rearranged_outside: "rearranged l u a b \<Longrightarrow> k < l \<or> u < k \<Longrightarrow> b k = a k"
  by (auto simp: rearranged_def)

lemma rearranged_inside:
  assumes "rearranged l u a b" "l \<le> k" "k \<le> u"
  shows "\<exists>k'. l \<le> k' \<and> k' \<le> u \<and> b k = a k'"
proof -
  from assms(1) obtain f where f: "bij f" "\<forall>k. k < l \<or> u < k \<longrightarrow> f k = k" "b = a \<circ> f"
    by (auto simp: rearranged_def)
  have "l \<le> f k \<and> f k \<le> u"
  proof (rule ccontr)
    assume n: "\<not> (l \<le> f k \<and> f k \<le> u)"
    then have "f (f k) = f k" using f(2) by (meson linorder_not_le)
    then have "f k = k" using f(1) by (meson bij_is_inj inj_eq)
    with n assms(2,3) show False by simp
  qed
  with f(3) show ?thesis by auto
qed

lemma rearranged_all:
  "rearranged l u a b \<Longrightarrow> (\<And>k. l \<le> k \<Longrightarrow> k \<le> u \<Longrightarrow> Q (a k)) \<Longrightarrow> l \<le> k \<Longrightarrow> k \<le> u \<Longrightarrow> Q (b k)"
  by (metis rearranged_inside)

lemma rearranged_mset:
  assumes "rearranged l u a b"
  shows "mset (map b [l..u]) = mset (map a [l..u])"
proof -
  from assms obtain f where f: "bij f" "\<forall>k. k < l \<or> u < k \<longrightarrow> f k = k" "b = a \<circ> f"
    by (auto simp: rearranged_def)
  have "f ` {l..u} = {l..u}"
  proof -
    have "f k = k" if "k \<in> - {l..u}" for k using that f(2) by (metis ComplD atLeastAtMost_iff not_le)
    then have "f ` (- {l..u}) = id ` (- {l..u})" by (intro image_cong) simp_all
    then have "f ` (- {l..u}) = - {l..u}" by simp
    then show ?thesis using f(1) by (metis bij_image_Compl_eq double_compl)
  qed
  then have "image_mset f (mset_set {l..u}) = mset_set {l..u}"
    using f(1) by (metis bij_is_inj image_mset_mset_set inj_on_subset subset_UNIV)
  moreover have "mset [l..u] = mset_set {l..u}" by (metis distinct_upto mset_set_set set_upto)
  ultimately show ?thesis by (simp add: f(3) flip: multiset.map_comp)
qed

section \<open>Orders\<close>

text \<open>A comparison that answers without an error on \<open>V\<close>, and is a strict weak order there.\<close>

locale order_function =
  fixes lt :: "'v \<Rightarrow> 'v \<Rightarrow> bool res" and less :: "'v \<Rightarrow> 'v \<Rightarrow> bool" and V :: "'v \<Rightarrow> bool"
  assumes lt_less: "V x \<Longrightarrow> V y \<Longrightarrow> lt x y = Inr (less x y)"
    and asym: "V x \<Longrightarrow> V y \<Longrightarrow> less x y \<Longrightarrow> \<not> less y x"
    and not_less_trans: "V x \<Longrightarrow> V y \<Longrightarrow> V z \<Longrightarrow> \<not> less x y \<Longrightarrow> \<not> less y z \<Longrightarrow> \<not> less x z"
begin

lemma irrefl: "V x \<Longrightarrow> \<not> less x x"
  using asym by blast

definition all_in :: "int \<Rightarrow> int \<Rightarrow> (int \<Rightarrow> 'v) \<Rightarrow> bool" where
  "all_in l u a \<longleftrightarrow> (\<forall>k. l \<le> k \<longrightarrow> k \<le> u \<longrightarrow> V (a k))"

lemma all_in_rearranged: "all_in l u a \<Longrightarrow> rearranged l u a b \<Longrightarrow> all_in l u b"
  unfolding all_in_def using rearranged_all [of l u a b V] by blast

lemma up_scan_stops:
  assumes "\<forall>k. i < k \<longrightarrow> k \<le> s \<longrightarrow> V (a k)" "V P" "i < s" "s \<le> u" "\<not> less (a s) P"
  shows "\<exists>i'. up_scan lt P u a i = Inr i' \<and> i < i' \<and> i' \<le> s \<and> \<not> less (a i') P \<and>
     (\<forall>k. i < k \<and> k < i' \<longrightarrow> less (a k) P)"
  using assms(1,3)
proof (induction "nat (s - i)" arbitrary: i)
  case (Suc n)
  have c: "lt (a (i + 1)) P = Inr (less (a (i + 1)) P)" using Suc.prems assms(2) by (simp add: lt_less)
  show ?case
  proof (cases "less (a (i + 1)) P")
    case True
    then have "i + 1 < s" using Suc.prems assms(5) by (cases "i + 1 = s") auto
    then have "\<exists>i'. up_scan lt P u a (i + 1) = Inr i' \<and> i + 1 < i' \<and> i' \<le> s \<and> \<not> less (a i') P \<and>
       (\<forall>k. i + 1 < k \<and> k < i' \<longrightarrow> less (a k) P)"
      using Suc.hyps Suc.prems by auto
    then obtain i' where i': "up_scan lt P u a (i + 1) = Inr i'" "i + 1 < i'" "i' \<le> s" "\<not> less (a i') P"
      "\<forall>k. i + 1 < k \<and> k < i' \<longrightarrow> less (a k) P" by blast
    have "less (a k) P" if "i < k" "k < i'" for k
      using that i'(5) True by (cases "k = i + 1") auto
    with i' c True \<open>i + 1 < s\<close> assms(4) show ?thesis
      by (subst up_scan.simps) auto
  next
    case False
    with c Suc.prems show ?thesis by (subst up_scan.simps) auto
  qed
qed simp

lemma down_scan_stops:
  assumes "\<forall>k. s \<le> k \<longrightarrow> k < j \<longrightarrow> V (a k)" "V P" "s < j" "l \<le> s" "\<not> less P (a s)"
  shows "\<exists>j'. down_scan lt P l a j = Inr j' \<and> s \<le> j' \<and> j' < j \<and> \<not> less P (a j') \<and>
     (\<forall>k. j' < k \<and> k < j \<longrightarrow> less P (a k))"
  using assms(1,3)
proof (induction "nat (j - s)" arbitrary: j)
  case (Suc n)
  have c: "lt P (a (j - 1)) = Inr (less P (a (j - 1)))" using Suc.prems assms(2) by (simp add: lt_less)
  show ?case
  proof (cases "less P (a (j - 1))")
    case True
    then have "s < j - 1" using Suc.prems assms(5) by (cases "j - 1 = s") auto
    then have "\<exists>j'. down_scan lt P l a (j - 1) = Inr j' \<and> s \<le> j' \<and> j' < j - 1 \<and> \<not> less P (a j') \<and>
       (\<forall>k. j' < k \<and> k < j - 1 \<longrightarrow> less P (a k))"
      using Suc.hyps Suc.prems by auto
    then obtain j' where j': "down_scan lt P l a (j - 1) = Inr j'" "s \<le> j'" "j' < j - 1" "\<not> less P (a j')"
      "\<forall>k. j' < k \<and> k < j - 1 \<longrightarrow> less P (a k)" by blast
    have "less P (a k)" if "j' < k" "k < j" for k
      using that j'(5) True by (cases "k = j - 1") auto
    with j' c True \<open>s < j - 1\<close> assms(4) show ?thesis
      by (subst down_scan.simps) auto
  next
    case False
    with c Suc.prems show ?thesis by (subst down_scan.simps) auto
  qed
qed simp

lemma partition_ok:
  assumes "all_in l u a" "V P" "l \<le> i" "i \<le> j" "j < u" "l < j" "i < u - 1" "i < j \<or> l < i"
    and "\<forall>k. l \<le> k \<and> k \<le> i \<longrightarrow> \<not> less P (a k)" "\<forall>k. j \<le> k \<and> k \<le> u \<longrightarrow> \<not> less (a k) P" "a (u - 1) = P"
  shows "\<exists>i' b. partition_loop lt P l u i j a = Inr (i', b) \<and> l < i' \<and> i' < u \<and> rearranged l u a b \<and>
     b (u - 1) = P \<and> (\<forall>k. l \<le> k \<and> k < i' \<longrightarrow> \<not> less P (b k)) \<and> (\<forall>k. i' \<le> k \<and> k \<le> u \<longrightarrow> \<not> less (b k) P)"
  using assms
proof (induction "nat (j - i)" arbitrary: i j a rule: less_induct)
  case less
  have V: "V (a k)" if "l \<le> k" "k \<le> u" for k using less.prems(1) that by (simp add: all_in_def)
  let ?s = "if i < j then j else j + 1" and ?t = "if i < j then i else i - 1"
  have up: "\<exists>i'. up_scan lt P u a i = Inr i' \<and> i < i' \<and> i' \<le> ?s \<and> \<not> less (a i') P \<and>
      (\<forall>k. i < k \<and> k < i' \<longrightarrow> less (a k) P)"
    by (rule up_scan_stops) (use less.prems V in \<open>auto split: if_splits\<close>)
  have down: "\<exists>j'. down_scan lt P l a j = Inr j' \<and> ?t \<le> j' \<and> j' < j \<and> \<not> less P (a j') \<and>
      (\<forall>k. j' < k \<and> k < j \<longrightarrow> less P (a k))"
    by (rule down_scan_stops) (use less.prems V in \<open>auto split: if_splits\<close>)
  from up obtain i' where i': "up_scan lt P u a i = Inr i'" "i < i'" "i' \<le> ?s" "\<not> less (a i') P"
    "\<forall>k. i < k \<and> k < i' \<longrightarrow> less (a k) P" by blast
  from down obtain j' where j': "down_scan lt P l a j = Inr j'" "?t \<le> j'" "j' < j" "\<not> less P (a j')"
    "\<forall>k. j' < k \<and> k < j \<longrightarrow> less P (a k)" by blast
  have i'u: "i' < u" using i'(3) less.prems(4-7) by (auto split: if_splits)
  have j'l: "l \<le> j'" using j'(2) less.prems(3,8) by (auto split: if_splits)
  have low: "\<not> less P (a k)" if "l \<le> k" "k < i'" for k
    using that less.prems(9) i'(5) asym [OF V less.prems(2)] i'u by (cases "k \<le> i") auto
  have high: "\<not> less (a k) P" if "j' < k" "k \<le> u" for k
    using that less.prems(10) j'(5) asym [OF less.prems(2) V] j'l by (cases "j \<le> k") auto
  show ?case
  proof (cases "j' < i'")
    case True
    have "\<not> less (a k) P" if "i' \<le> k" "k \<le> u" for k using high that True by simp
    moreover have "partition_loop lt P l u i j a = Inr (i', a)"
      using i'(1) j'(1) True by (simp add: partition_loop.simps [of lt P l u i j a])
    ultimately show ?thesis using low i'(2) i'u less.prems(3,11) by (intro exI [of _ i'] exI [of _ a]) auto
  next
    case False
    let ?a = "set2 a i' j'"
    have r: "rearranged l u a ?a" using False i' j' i'u less.prems(3,5) j'l by (intro rearranged_set2) auto
    have "\<exists>i'' b. partition_loop lt P l u i' j' ?a = Inr (i'', b) \<and> l < i'' \<and> i'' < u \<and> rearranged l u ?a b \<and>
     b (u - 1) = P \<and> (\<forall>k. l \<le> k \<and> k < i'' \<longrightarrow> \<not> less P (b k)) \<and> (\<forall>k. i'' \<le> k \<and> k \<le> u \<longrightarrow> \<not> less (b k) P)"
    proof (rule less.hyps)
      show "nat (j' - i') < nat (j - i)" using i'(2) j'(3) False by simp
      show "all_in l u ?a" using less.prems(1) r by (rule all_in_rearranged)
      show "\<forall>k. l \<le> k \<and> k \<le> i' \<longrightarrow> \<not> less P (?a k)"
        using low j'(4) False by (auto simp: set2_def)
      show "\<forall>k. j' \<le> k \<and> k \<le> u \<longrightarrow> \<not> less (?a k) P"
        using high i'(4) False by (auto simp: set2_def)
      show "?a (u - 1) = P"
        using less.prems(5,11) False j'(3) by (auto simp: set2_def)
    qed (use less.prems False i' j' in auto)
    moreover have "partition_loop lt P l u i j a = partition_loop lt P l u i' j' ?a"
      using i'(1) j'(1) False by (simp add: partition_loop.simps [of lt P l u i j a])
    ultimately show ?thesis using rearranged_trans [OF r] by metis
  qed
qed

definition in_order :: "int \<Rightarrow> int \<Rightarrow> (int \<Rightarrow> 'v) \<Rightarrow> bool" where
  "in_order l u a \<longleftrightarrow> (\<forall>p q. l \<le> p \<longrightarrow> p \<le> q \<longrightarrow> q \<le> u \<longrightarrow> \<not> less (a q) (a p))"

text \<open>The first three elements that are compared.\<close>

lemma median_ok:
  assumes "all_in l u a" "l < i" "i < u" "\<not> less (a u) (a l)"
  shows "\<exists>b. median lt l i u a = Inr b \<and> rearranged l u a b \<and> \<not> less (b i) (b l) \<and> \<not> less (b u) (b i)"
proof -
  have V: "V (a l)" "V (a i)" "V (a u)" using assms by (simp_all add: all_in_def)
  have s: "rearranged l u a (set2 a i l)" "rearranged l u a (set2 a i u)"
    using assms(2,3) by (auto intro: rearranged_set2)
  show ?thesis
    using V s assms(2-4) asym [OF V(2,1)] asym [OF V(3,2)] lt_less [OF V(2,1)] lt_less [OF V(3,2)]
    by (cases "less (a i) (a l)"; cases "less (a u) (a i)") (auto simp: median_def set2_def)
qed

lemma in_order_join:
  assumes "all_in l u c" "l \<le> i" "i \<le> u" "in_order l (i - 1) c" "in_order (i + 1) u c"
    and "\<And>k. l \<le> k \<Longrightarrow> k < i \<Longrightarrow> \<not> less (c i) (c k)" "\<And>k. i < k \<Longrightarrow> k \<le> u \<Longrightarrow> \<not> less (c k) (c i)"
  shows "in_order l u c"
  unfolding in_order_def
proof (intro allI impI)
  fix p q assume pq: "l \<le> p" "p \<le> q" "q \<le> u"
  have V: "V (c k)" if "l \<le> k" "k \<le> u" for k using assms(1) that by (simp add: all_in_def)
  consider "q < i" | "i < p" | "p \<le> i" "i \<le> q" using pq by linarith
  then show "\<not> less (c q) (c p)"
  proof cases
    case 3
    have "\<not> less (c i) (c p)" using assms(6) [OF pq(1)] irrefl [OF V] pq 3 by (cases "p = i") auto
    moreover have "\<not> less (c q) (c i)" using assms(7) pq irrefl [OF V] 3 by (cases "q = i") auto
    moreover have Vs: "V (c q)" "V (c i)" "V (c p)" using V pq 3 assms(2,3) by simp_all
    ultimately show ?thesis using not_less_trans [OF Vs] by simp
  qed (use assms(4,5) pq in \<open>auto simp: in_order_def\<close>)
qed

text \<open>Both halves are sorted, in either order, around the pivot at \<open>i\<close>.\<close>

lemma halves_ok:
  assumes IH: "\<And>l' u' x. all_in l' u' x \<Longrightarrow> l \<le> l' \<Longrightarrow> u' \<le> u \<Longrightarrow> l' = l \<and> u' = i - 1 \<or> l' = i + 1 \<and> u' = u \<Longrightarrow>
      \<exists>b. auxsort n lt l' u' x = Inr b \<and> rearranged l' u' x b \<and> in_order l' u' b"
    and a: "all_in l u a" "l < i" "i < u"
    and low: "\<And>k. l \<le> k \<Longrightarrow> k < i \<Longrightarrow> \<not> less (a i) (a k)" and high: "\<And>k. i < k \<Longrightarrow> k \<le> u \<Longrightarrow> \<not> less (a k) (a i)"
  shows "\<exists>c. (if b then bindR (auxsort n lt l (i - 1) a) (auxsort n lt (i + 1) u)
        else bindR (auxsort n lt (i + 1) u a) (auxsort n lt l (i - 1))) = Inr c \<and>
     rearranged l u a c \<and> in_order l u c"
proof -
  let ?h1 = "if b then (l, i - 1) else (i + 1, u)" and ?h2 = "if b then (i + 1, u) else (l, i - 1)"
  have 1: "all_in (fst ?h1) (snd ?h1) a" using a by (auto simp: all_in_def)
  have "\<exists>d. auxsort n lt (fst ?h1) (snd ?h1) a = Inr d \<and> rearranged (fst ?h1) (snd ?h1) a d \<and> in_order (fst ?h1) (snd ?h1) d"
    by (rule IH [OF 1]) (use a in auto)
  then obtain d where d: "auxsort n lt (fst ?h1) (snd ?h1) a = Inr d" "rearranged (fst ?h1) (snd ?h1) a d"
    "in_order (fst ?h1) (snd ?h1) d" by blast
  have rd: "rearranged l u a d" using d(2) a by (auto intro: rearranged_mono split: if_splits)
  have 2: "all_in (fst ?h2) (snd ?h2) d" using all_in_rearranged [OF a(1) rd] a by (auto simp: all_in_def)
  have "\<exists>c. auxsort n lt (fst ?h2) (snd ?h2) d = Inr c \<and> rearranged (fst ?h2) (snd ?h2) d c \<and> in_order (fst ?h2) (snd ?h2) c"
    by (rule IH [OF 2]) (use a in auto)
  then obtain c where c: "auxsort n lt (fst ?h2) (snd ?h2) d = Inr c" "rearranged (fst ?h2) (snd ?h2) d c"
    "in_order (fst ?h2) (snd ?h2) c" by blast
  have rc: "rearranged l u d c" using c(2) a by (auto intro: rearranged_mono split: if_splits)
  have first: "c k = d k" if "fst ?h1 \<le> k" "k \<le> snd ?h1" for k
    using rearranged_outside [OF c(2)] that a by (auto split: if_splits)
  have second: "d k = a k" if "fst ?h2 \<le> k" "k \<le> snd ?h2" for k
    using rearranged_outside [OF d(2)] that a by (auto split: if_splits)
  have ci: "c i = a i" using rearranged_outside [OF c(2)] rearranged_outside [OF d(2)] by (auto split: if_splits)
  have o: "in_order l (i - 1) c" "in_order (i + 1) u c"
    using d(3) c(3) first by (auto simp: in_order_def split: if_splits)
  have l: "\<not> less (c i) (c k)" if "l \<le> k" "k < i" for k
  proof (cases b)
    case True
    have "\<not> less (a i) (d k)"
      using rearranged_all [of l "i - 1" a d "\<lambda>x. \<not> less (a i) x" k] d(2) low that True by simp
    then show ?thesis using first that True ci by simp
  next
    case False
    then show ?thesis
      using rearranged_all [of l "i - 1" d c "\<lambda>x. \<not> less (a i) x" k] c(2) low that second ci by simp
  qed
  have h: "\<not> less (c k) (c i)" if "i < k" "k \<le> u" for k
  proof (cases b)
    case True
    then show ?thesis
      using rearranged_all [of "i + 1" u d c "\<lambda>x. \<not> less x (a i)" k] c(2) high that second ci by simp
  next
    case False
    have "\<not> less (d k) (a i)"
      using rearranged_all [of "i + 1" u a d "\<lambda>x. \<not> less x (a i)" k] d(2) high that False by simp
    then show ?thesis using first that False ci by simp
  qed
  have "in_order l u c"
    using in_order_join [OF all_in_rearranged [OF all_in_rearranged [OF a(1) rd] rc] _ _ o l h] a(2,3) by simp
  moreover have "(if b then bindR (auxsort n lt l (i - 1) a) (auxsort n lt (i + 1) u)
        else bindR (auxsort n lt (i + 1) u a) (auxsort n lt l (i - 1))) = Inr c"
    using d(1) c(1) by (auto split: if_splits)
  ultimately show ?thesis using rearranged_trans [OF rd rc] by blast
qed

lemma auxsort_ok:
  assumes "all_in l u a" "nat (u - l + 1) < n"
  shows "\<exists>b. auxsort n lt l u a = Inr b \<and> rearranged l u a b \<and> in_order l u b"
  using assms
proof (induction n arbitrary: l u a)
  case (Suc n)
  show ?case
  proof (cases "l < u")
    case False
    have "in_order l u a" unfolding in_order_def
    proof (intro allI impI)
      fix p q assume "l \<le> p" "p \<le> q" "q \<le> u"
      then have "p = q" "V (a p)" using False Suc.prems(1) by (auto simp: all_in_def)
      then show "\<not> less (a q) (a p)" using irrefl by simp
    qed
    with False show ?thesis by (intro exI [of _ a]) (simp add: auxsort.simps(2))
  next
    case True
    have Vlu: "V (a l)" "V (a u)" using Suc.prems(1) True by (simp_all add: all_in_def)
    let ?a1 = "if less (a u) (a l) then set2 a l u else a"
    have r1: "rearranged l u a ?a1" using True by (simp add: rearranged_set2)
    have o1: "\<not> less (?a1 u) (?a1 l)" using asym [OF Vlu(2,1)] True by (simp add: set2_def)
    note V1 = all_in_rearranged [OF Suc.prems(1) r1]
    note step = auxsort.simps(2) [of n lt l u a] lt_less [OF Vlu(2,1)]
    show ?thesis
    proof (cases "u - l = 1")
      case True
      have "in_order l u ?a1" unfolding in_order_def
      proof (intro allI impI)
        fix p q assume "l \<le> p" "p \<le> q" "q \<le> u"
        with True have "p = q \<and> (p = l \<or> p = u) \<or> p = l \<and> q = u" by linarith
        then show "\<not> less (?a1 q) (?a1 p)"
          using o1 irrefl V1 \<open>l < u\<close> unfolding all_in_def by (metis less_imp_le order_refl)
      qed
      with True r1 \<open>l < u\<close> step show ?thesis by (intro exI [of _ ?a1]) simp
    next
      case False
      let ?i = "(l + u) div 2"
      have i: "l < ?i" "?i < u" using True False by auto
      from median_ok [OF V1 i o1] obtain a2 where a2: "median lt l ?i u ?a1 = Inr a2" "rearranged l u ?a1 a2"
        "\<not> less (a2 ?i) (a2 l)" "\<not> less (a2 u) (a2 ?i)" by blast
      note V2 = all_in_rearranged [OF V1 a2(2)]
      note r2 = rearranged_trans [OF r1 a2(2)]
      have V2s: "V (a2 l)" "V (a2 ?i)" "V (a2 u)" using V2 i True by (simp_all add: all_in_def)
      show ?thesis
      proof (cases "u - l = 2")
        case three: True
        have "in_order l u a2" unfolding in_order_def
        proof (intro allI impI)
          fix p q assume "l \<le> p" "p \<le> q" "q \<le> u"
          moreover have "?i = l + 1" using three by simp
          ultimately have "p = q \<and> (p = l \<or> p = ?i \<or> p = u) \<or> p = l \<and> (q = ?i \<or> q = u) \<or> p = ?i \<and> q = u"
            using three by linarith
          then show "\<not> less (a2 q) (a2 p)"
            using a2(3,4) irrefl V2s not_less_trans [OF V2s(3,2,1) a2(4,3)] by metis
        qed
        with three r2 a2(1) True False step show ?thesis by (intro exI [of _ a2]) simp
      next
        case many: False
        let ?a3 = "set2 a2 ?i (u - 1)"
        have u: "l < u - 1" "?i \<le> u - 1" using True False many by auto
        have r3: "rearranged l u a2 ?a3" using i u by (intro rearranged_set2) auto
        have "\<exists>i' b. partition_loop lt (a2 ?i) l u l (u - 1) ?a3 = Inr (i', b) \<and> l < i' \<and> i' < u \<and> rearranged l u ?a3 b \<and>
          b (u - 1) = a2 ?i \<and> (\<forall>k. l \<le> k \<and> k < i' \<longrightarrow> \<not> less (a2 ?i) (b k)) \<and>
          (\<forall>k. i' \<le> k \<and> k \<le> u \<longrightarrow> \<not> less (b k) (a2 ?i))"
        proof (rule partition_ok)
          show "all_in l u ?a3" using V2 r3 by (rule all_in_rearranged)
          show "\<forall>k. l \<le> k \<and> k \<le> l \<longrightarrow> \<not> less (a2 ?i) (?a3 k)"
            using a2(3) i u(1) by (auto simp: set2_def)
          show "\<forall>k. u - 1 \<le> k \<and> k \<le> u \<longrightarrow> \<not> less (?a3 k) (a2 ?i)"
          proof (intro allI impI)
            fix k assume "u - 1 \<le> k \<and> k \<le> u"
            then have "k = u - 1 \<or> k = u" by linarith
            then show "\<not> less (?a3 k) (a2 ?i)"
              using a2(4) irrefl [OF V2s(2)] i by (auto simp: set2_def)
          qed
          show "?a3 (u - 1) = a2 ?i" by (simp add: set2_def)
        qed (use V2s i u in auto)
        then obtain i' a4 where p: "partition_loop lt (a2 ?i) l u l (u - 1) ?a3 = Inr (i', a4)" "l < i'" "i' < u"
          "rearranged l u ?a3 a4" "a4 (u - 1) = a2 ?i" "\<forall>k. l \<le> k \<and> k < i' \<longrightarrow> \<not> less (a2 ?i) (a4 k)"
          "\<forall>k. i' \<le> k \<and> k \<le> u \<longrightarrow> \<not> less (a4 k) (a2 ?i)" by blast
        let ?a5 = "set2 a4 (u - 1) i'"
        have r5: "rearranged l u a ?a5"
          using rearranged_trans [OF rearranged_trans [OF r2 r3] rearranged_trans [OF p(4) rearranged_set2]] p(2,3) True
          by simp
        have pivot: "?a5 i' = a2 ?i" using p(5) by (simp add: set2_def)
        have low: "\<not> less (?a5 i') (?a5 k)" if "l \<le> k" "k < i'" for k
          using p(3,6) that by (simp add: pivot) (simp add: set2_def)
        have high: "\<not> less (?a5 k) (?a5 i')" if "i' < k" "k \<le> u" for k
          using p(3,7) that by (simp add: pivot) (simp add: set2_def)
        have "\<exists>c. (if i' - l < u - i' then bindR (auxsort n lt l (i' - 1) ?a5) (auxsort n lt (i' + 1) u)
            else bindR (auxsort n lt (i' + 1) u ?a5) (auxsort n lt l (i' - 1))) = Inr c \<and>
          rearranged l u ?a5 c \<and> in_order l u c"
        proof (rule halves_ok)
          show "all_in l u ?a5" using Suc.prems(1) r5 by (rule all_in_rearranged)
        qed (use Suc p(2,3) low high in auto)
        then obtain c where "(if i' - l < u - i' then bindR (auxsort n lt l (i' - 1) ?a5) (auxsort n lt (i' + 1) u)
            else bindR (auxsort n lt (i' + 1) u ?a5) (auxsort n lt l (i' - 1))) = Inr c"
          "rearranged l u ?a5 c" "in_order l u c" by blast
        with p(1) a2(1) r5 True False many step rearranged_trans [OF r5] show ?thesis
          by (intro exI [of _ c]) (simp add: Let_def)
      qed
    qed
  qed
qed simp

end

section \<open>The default order\<close>

lemma c_str_shorter: "length (c_str s) \<le> length s"
  by (simp add: c_str_def length_takeWhile_le)

lemma c_str_all: "length (c_str s) = length s \<longleftrightarrow> NUL \<notin> set s"
  by (induction s) (auto simp: c_str_def)

text \<open>\<open>strcoll\<close> compares C strings by the rules of the locale; it is a parameter, and the locale
  \<open>collation\<close> is its documented behaviour in a locale that tells different strings apart.\<close>

function l_strcmp :: "(string \<Rightarrow> string \<Rightarrow> int) \<Rightarrow> string \<Rightarrow> string \<Rightarrow> int" where
  "l_strcmp strcoll l r =
     (let temp = strcoll (c_str l) (c_str r) in
      if temp \<noteq> 0 then temp
      else let len = length (c_str l) in
        if len = length r then (if len = length l then 0 else 1)
        else if len = length l then -1
        else l_strcmp strcoll (drop (len + 1) l) (drop (len + 1) r))"
  by pat_completeness auto
termination
proof (relation "measure (\<lambda>(strcoll, l, r). length l)", goal_cases)
  case (2 strcoll l r temp len)
  then show ?case using c_str_shorter [of l] by auto
qed simp

declare l_strcmp.simps [simp del]

text \<open>Other values of one type are compared by a metamethod, \<open>None\<close> when there is none.\<close>

definition same_type :: "lval \<Rightarrow> lval \<Rightarrow> bool" where
  "same_type l r =
     (case (l, r) of (LNil, LNil) \<Rightarrow> True | (LBool _, LBool _) \<Rightarrow> True | (LOther, LOther) \<Rightarrow> True | _ \<Rightarrow> False)"

definition luaV_lessthan ::
    "(string \<Rightarrow> string \<Rightarrow> int) \<Rightarrow> (lval \<Rightarrow> lval \<Rightarrow> bool option) \<Rightarrow> lval \<Rightarrow> lval \<Rightarrow> bool res" where
  "luaV_lessthan strcoll order_tm l r =
     (case (l, r) of
        (LNum x, LNum y) \<Rightarrow> Inr (x < y)
      | (LStr x, LStr y) \<Rightarrow> Inr (l_strcmp strcoll x y < 0)
      | _ \<Rightarrow>
          (case (if same_type l r then order_tm l r else None) of
             Some b \<Rightarrow> Inr b | None \<Rightarrow> Inl (LuaError ''attempt to compare'')))"

definition lua_toboolean :: "lval \<Rightarrow> bool" where
  "lua_toboolean v = (v \<noteq> LNil \<and> v \<noteq> LBool False)"

definition sort_comp ::
    "(lval \<Rightarrow> lval \<Rightarrow> bool res) \<Rightarrow> (lval \<Rightarrow> lval \<Rightarrow> lval res) option \<Rightarrow> lval \<Rightarrow> lval \<Rightarrow> bool res" where
  "sort_comp lessthan f a b =
     (case f of
        Some f \<Rightarrow> bindR (f a b) (\<lambda>v. Inr (lua_toboolean v))
      | None \<Rightarrow> lessthan a b)"

text \<open>\<^verbatim>\<open>table.sort(t, f)\<close> for a table with \<open>n\<close> elements.\<close>

definition lua_sort ::
    "(lval \<Rightarrow> lval \<Rightarrow> bool res) \<Rightarrow> (lval \<Rightarrow> lval \<Rightarrow> lval res) option \<Rightarrow> int \<Rightarrow> (int \<Rightarrow> lval) \<Rightarrow> (int \<Rightarrow> lval) res" where
  "lua_sort lessthan f n a = sort_array (sort_comp lessthan f) n a"

section \<open>Strings are ordered piece by piece\<close>

function pieces :: "string \<Rightarrow> string list" where
  "pieces s = (if NUL \<in> set s then c_str s # pieces (drop (length (c_str s) + 1) s) else [s])"
  by pat_completeness auto
termination
proof (relation "measure length", goal_cases)
  case (2 s)
  then show ?case by (cases s) auto
qed simp

declare pieces.simps [simp del]

lemma pieces_head: "pieces s = c_str s # (if NUL \<in> set s then pieces (drop (length (c_str s) + 1) s) else [])"
  by (subst pieces.simps) (simp add: c_str_id)

text \<open>The documented behaviour of \<open>strcoll\<close> in a locale that tells different strings apart.\<close>

locale collation =
  fixes strcoll :: "string \<Rightarrow> string \<Rightarrow> int"
  assumes coll_eq: "strcoll a b = 0 \<longleftrightarrow> a = b"
    and coll_swap: "strcoll a b < 0 \<longleftrightarrow> 0 < strcoll b a"
    and coll_trans: "strcoll a b < 0 \<Longrightarrow> strcoll b c < 0 \<Longrightarrow> strcoll a c < 0"
begin

abbreviation below :: "(string \<times> string) set" where
  "below \<equiv> {(a, b). strcoll a b < 0}"

lemma l_strcmp_lex: "l_strcmp strcoll l r < 0 \<longleftrightarrow> (pieces l, pieces r) \<in> lexord below"
proof (induction "length l" arbitrary: l r rule: less_induct)
  case less
  let ?rest = "\<lambda>s :: string. drop (length (c_str s) + 1) s"
  have heads: "(pieces l, pieces r) \<in> lexord below \<longleftrightarrow> strcoll (c_str l) (c_str r) < 0 \<or> c_str l = c_str r \<and>
      ((if NUL \<in> set l then pieces (?rest l) else []), (if NUL \<in> set r then pieces (?rest r) else [])) \<in> lexord below"
    by (subst (1 2) pieces_head) simp
  show ?case
  proof (cases "strcoll (c_str l) (c_str r) = 0")
    case False
    then show ?thesis using heads coll_eq by (simp add: l_strcmp.simps [of strcoll l r])
  next
    case True
    then have eq: "c_str l = c_str r" by (simp add: coll_eq)
    have "length (c_str l) = length r \<longleftrightarrow> NUL \<notin> set r" "length (c_str l) = length l \<longleftrightarrow> NUL \<notin> set l"
      using c_str_all [of r] c_str_all [of l] eq by simp_all
    moreover have "length (?rest l) < length l" if "NUL \<in> set l" using that by (cases l) auto
    moreover have "pieces (?rest r) \<noteq> []" by (subst pieces_head) simp
    ultimately show ?thesis
      using heads True less.hyps [of "?rest l" "?rest r"] eq
      by (cases "NUL \<in> set l"; cases "NUL \<in> set r") (auto simp: l_strcmp.simps [of strcoll l r] Let_def neq_Nil_conv)
  qed
qed

lemma below_order: "trans below" "asym below" "a = b \<or> (a, b) \<in> below \<or> (b, a) \<in> below"
  using coll_trans coll_swap coll_eq by (auto intro!: transI asymI) (metis less_asym, metis less_linear coll_swap)

lemma l_strcmp_asym: "l_strcmp strcoll x y < 0 \<Longrightarrow> \<not> l_strcmp strcoll y x < 0"
  unfolding l_strcmp_lex using asymD [OF lexord_asym [OF below_order(2)]] by blast

lemma l_strcmp_not_less_trans:
  assumes "\<not> l_strcmp strcoll x y < 0" "\<not> l_strcmp strcoll y z < 0"
  shows "\<not> l_strcmp strcoll x z < 0"
proof
  assume xz: "l_strcmp strcoll x z < 0"
  have "pieces x = pieces y \<or> (pieces y, pieces x) \<in> lexord below"
    using lexord_linear [of below "pieces x" "pieces y"] below_order(3) assms(1) by (auto simp: l_strcmp_lex)
  with xz have "(pieces y, pieces z) \<in> lexord below"
    unfolding l_strcmp_lex using lexord_trans [OF _ _ below_order(1)] by metis
  with assms(2) show False by (simp add: l_strcmp_lex)
qed

end

text \<open>In the C locale, \<open>strcoll\<close> is \<open>strcmp\<close>: the order of the bytes.\<close>

fun strcmp :: "string \<Rightarrow> string \<Rightarrow> int" where
  "strcmp [] [] = 0"
| "strcmp [] (d # ds) = -1"
| "strcmp (c # cs) [] = 1"
| "strcmp (c # cs) (d # ds) = (if c = d then strcmp cs ds else of_char c - of_char d)"

lemma strcmp_eq: "strcmp a b = 0 \<longleftrightarrow> a = b"
  by (induction a b rule: strcmp.induct) auto

lemma strcmp_swap: "strcmp a b < 0 \<longleftrightarrow> 0 < strcmp b a"
  by (induction a b rule: strcmp.induct) auto

lemma strcmp_trans: "strcmp a b < 0 \<Longrightarrow> strcmp b c < 0 \<Longrightarrow> strcmp a c < 0"
proof (induction a b arbitrary: c rule: strcmp.induct)
  case (4 x xs y ys)
  then show ?case by (cases c) (auto split: if_splits)
next
  case (2 d ds)
  then show ?case by (cases c) auto
qed auto

interpretation bytes: collation strcmp
  by unfold_locales (fact strcmp_eq, fact strcmp_swap, fact strcmp_trans)

section \<open>What table.sort promises\<close>

interpretation number_order:
  order_function "luaV_lessthan coll tm" "\<lambda>x y. case (x, y) of (LNum a, LNum b) \<Rightarrow> a < b | _ \<Rightarrow> False" "\<lambda>x. \<exists>n. x = LNum n"
  for coll tm
  by unfold_locales (auto simp: luaV_lessthan_def)

interpretation string_order:
  order_function "luaV_lessthan strcmp tm"
    "\<lambda>x y. case (x, y) of (LStr a, LStr b) \<Rightarrow> l_strcmp strcmp a b < 0 | _ \<Rightarrow> False" "\<lambda>x. \<exists>s. x = LStr s"
  for tm
  by unfold_locales
    (auto simp: luaV_lessthan_def dest: bytes.l_strcmp_asym bytes.l_strcmp_not_less_trans)

context order_function
begin

lemma sort_array_ok:
  assumes "\<And>k. 1 \<le> k \<Longrightarrow> k \<le> n \<Longrightarrow> V (a k)"
  shows "\<exists>b. sort_array lt n a = Inr b \<and> sorted_wrt (\<lambda>x y. \<not> less y x) (map b [1..n]) \<and>
     mset (map b [1..n]) = mset (map a [1..n]) \<and> (\<forall>k. k < 1 \<or> n < k \<longrightarrow> b k = a k)"
proof -
  have "all_in 1 n a" using assms by (simp add: all_in_def)
  then obtain b where b: "sort_array lt n a = Inr b" "rearranged 1 n a b" "in_order 1 n b"
    using auxsort_ok [of 1 n a "nat n + 2"] by (auto simp: sort_array_def)
  have "sorted_wrt (\<lambda>x y. \<not> less y x) (map b [1..n])"
    using b(3) by (auto simp: sorted_wrt_map in_order_def sorted_wrt_iff_nth_less)
  with b(1) rearranged_mset [OF b(2)] rearranged_outside [OF b(2)] show ?thesis by blast
qed

end

text \<open>C19: table.sort sorts: for a comparison that answers on the elements without an error and is a
  strict weak order on them, whether it is the default or the second argument, it returns, with the
  elements in order, each as often as before, and nothing outside the range touched.\<close>

theorem sort_sorts:
  assumes "\<And>x y. x \<in> a ` {1..n} \<Longrightarrow> y \<in> a ` {1..n} \<Longrightarrow> sort_comp lessthan f x y = Inr (before x y)"
    and "\<And>x y. x \<in> a ` {1..n} \<Longrightarrow> y \<in> a ` {1..n} \<Longrightarrow> before x y \<Longrightarrow> \<not> before y x"
    and "\<And>x y z. x \<in> a ` {1..n} \<Longrightarrow> y \<in> a ` {1..n} \<Longrightarrow> z \<in> a ` {1..n} \<Longrightarrow>
      \<not> before x y \<Longrightarrow> \<not> before y z \<Longrightarrow> \<not> before x z"
  shows "\<exists>b. lua_sort lessthan f n a = Inr b \<and> sorted_wrt (\<lambda>x y. \<not> before y x) (map b [1..n]) \<and>
     mset (map b [1..n]) = mset (map a [1..n]) \<and> (\<forall>k. k < 1 \<or> n < k \<longrightarrow> b k = a k)"
proof -
  have "order_function (sort_comp lessthan f) before (\<lambda>x. x \<in> a ` {1..n})"
    using assms by unfold_locales blast+
  then show ?thesis unfolding lua_sort_def by (rule order_function.sort_array_ok) simp
qed

definition three_numbers :: "int \<Rightarrow> lval" where
  "three_numbers k = (if k = 1 then LNum 7 else if k = 2 then LNum 9 else if k = 3 then LNum 7 else LNil)"

theorem sort_sorts_witness:
  "\<exists>b. lua_sort (luaV_lessthan strcmp (\<lambda>_ _. None)) None 3 three_numbers = Inr b \<and>
     sorted_wrt (\<lambda>x y. \<not> (case (y, x) of (LNum c, LNum d) \<Rightarrow> c < d | _ \<Rightarrow> False)) (map b [1..3]) \<and>
     mset (map b [1..3]) = mset (map three_numbers [1..3]) \<and> (\<forall>k. k < 1 \<or> 3 < k \<longrightarrow> b k = three_numbers k)"
proof (rule sort_sorts)
  have "three_numbers ` {1..3} \<subseteq> range LNum"
    by (auto simp: three_numbers_def)
  then have num: "\<exists>m. x = LNum m" if "x \<in> three_numbers ` {1..3}" for x using that by blast
  fix x y z
  assume x: "x \<in> three_numbers ` {1..3}" and y: "y \<in> three_numbers ` {1..3}"
  obtain c d where "x = LNum c" "y = LNum d" using num [OF x] num [OF y] by blast
  then show "sort_comp (luaV_lessthan strcmp (\<lambda>_ _. None)) None x y =
      Inr (case (x, y) of (LNum c, LNum d) \<Rightarrow> c < d | _ \<Rightarrow> False)"
    "(case (x, y) of (LNum c, LNum d) \<Rightarrow> c < d | _ \<Rightarrow> False) \<Longrightarrow>
      \<not> (case (y, x) of (LNum c, LNum d) \<Rightarrow> c < d | _ \<Rightarrow> False)"
    by (simp_all add: sort_comp_def luaV_lessthan_def)
  assume z: "z \<in> three_numbers ` {1..3}"
    "\<not> (case (x, y) of (LNum c, LNum d) \<Rightarrow> c < d | _ \<Rightarrow> False)"
    "\<not> (case (y, z) of (LNum c, LNum d) \<Rightarrow> c < d | _ \<Rightarrow> False)"
  obtain e where "z = LNum e" using num [OF z(1)] by blast
  with z \<open>x = LNum c\<close> \<open>y = LNum d\<close> show "\<not> (case (x, z) of (LNum c, LNum d) \<Rightarrow> c < d | _ \<Rightarrow> False)" by simp
qed

text \<open>Without an order function of one's own, tables of numbers and tables of strings are sorted.\<close>

lemma numbers_sorted:
  "(\<And>k. 1 \<le> k \<Longrightarrow> k \<le> n \<Longrightarrow> \<exists>x. a k = LNum x) \<Longrightarrow>
   \<exists>b. lua_sort (luaV_lessthan strcmp tm) None n a = Inr b \<and> mset (map b [1..n]) = mset (map a [1..n]) \<and>
     sorted_wrt (\<lambda>x y. \<not> (case (y, x) of (LNum c, LNum d) \<Rightarrow> c < d | _ \<Rightarrow> False)) (map b [1..n])"
  using number_order.sort_array_ok [of n a strcmp tm]
  by (auto simp: lua_sort_def sort_comp_def [abs_def])

lemma strings_sorted:
  "(\<And>k. 1 \<le> k \<Longrightarrow> k \<le> n \<Longrightarrow> \<exists>x. a k = LStr x) \<Longrightarrow>
   \<exists>b. lua_sort (luaV_lessthan strcmp tm) None n a = Inr b \<and> mset (map b [1..n]) = mset (map a [1..n]) \<and>
     sorted_wrt (\<lambda>x y. \<not> (case (y, x) of (LStr c, LStr d) \<Rightarrow> l_strcmp strcmp c d < 0 | _ \<Rightarrow> False)) (map b [1..n])"
  using string_order.sort_array_ok [of n a tm]
  by (auto simp: lua_sort_def sort_comp_def [abs_def])

text \<open>The test for an invalid order function comes too late: here sorting four elements by a
  comparison that is not an order raises no error, but leaves a hole at 3 and moves an element to 5.\<close>

definition confused :: "lval \<Rightarrow> lval \<Rightarrow> bool res" where
  "confused x y = Inr ((x, y) \<in> {(LNum 0, LNum 3), (LNum 1, LNum 1), (LNum 1, LNum 2), (LNum 1, LNum 3),
     (LNum 2, LNum 0), (LNum 2, LNum 2), (LNum 2, LNum 3), (LNum 3, LNum 1), (LNum 3, LNum 2), (LNum 3, LNum 3),
     (LNum 0, LNil), (LNum 3, LNil)})"

lemma invalid_order_leaves_range:
  "case sort_array confused 4 (\<lambda>k. if 1 \<le> k \<and> k \<le> 4 then LNum (k - 1) else LNil) of
     Inr b \<Rightarrow> b 3 = LNil \<and> b 5 = LNum 3 | Inl e \<Rightarrow> False"
  by code_simp

end
