(* ===== verification/LuaTable.thy ===== *)
theory LuaTable
  imports LuaString
begin

text \<open>
  The table library of Lua, \<^verbatim>\<open>src/ltablib.c\<close>, apart from sorting: insertion, removal, concatenation,
  and the traversals.  The array part of a table is a function from indices to values; \<open>n\<close> is what
  \<^verbatim>\<open>luaL_getn\<close> answers, the number of elements when no element up to it is nil.  A table whose
  elements are a list is \<open>holds\<close>, and the operations refine those of lists.
\<close>

section \<open>Insertion and removal\<close>

text \<open>\<^verbatim>\<open>for (i = e; i > pos; i--) t[i] = t[i-1]\<close>, and the loop of \<^verbatim>\<open>tremove\<close>.\<close>

function shift_up :: "int \<Rightarrow> int \<Rightarrow> (int \<Rightarrow> lval) \<Rightarrow> int \<Rightarrow> lval" where
  "shift_up pos i t = (if i > pos then shift_up pos (i - 1) (t(i := t (i - 1))) else t)"
  by pat_completeness auto
termination by (relation "measure (\<lambda>(pos, i, t). nat (i - pos))") auto

function shift_down :: "int \<Rightarrow> int \<Rightarrow> (int \<Rightarrow> lval) \<Rightarrow> int \<Rightarrow> lval" where
  "shift_down e pos t = (if pos < e then shift_down e (pos + 1) (t(pos := t (pos + 1))) else t)"
  by pat_completeness auto
termination by (relation "measure (\<lambda>(e, pos, t). nat (e - pos))") auto

declare shift_up.simps [simp del] shift_down.simps [simp del]

text \<open>The arguments after the table; a position that is not a number is an error of \<^verbatim>\<open>luaL_checkint\<close>.\<close>

definition check_int :: "lval \<Rightarrow> int res" where
  "check_int v = (case v of LNum i \<Rightarrow> Inr i | _ \<Rightarrow> Inl (LuaError ''number expected''))"

definition tinsert :: "int \<Rightarrow> (int \<Rightarrow> lval) \<Rightarrow> lval list \<Rightarrow> (int \<Rightarrow> lval) res" where
  "tinsert n t args =
     (let e = n + 1 in
      case args of
        [v] \<Rightarrow> Inr (t(e := v))
      | [p, v] \<Rightarrow>
          bindR (check_int p) (\<lambda>pos.
          let e = (if pos > e then pos else e)
          in Inr ((shift_up pos e t)(pos := v)))
      | _ \<Rightarrow> Inl (LuaError ''wrong number of arguments to insert''))"

text \<open>No result when the position is outside the bounds.\<close>

definition tremove :: "int \<Rightarrow> (int \<Rightarrow> lval) \<Rightarrow> lval option \<Rightarrow> (lval option \<times> (int \<Rightarrow> lval)) res" where
  "tremove n t arg =
     (let e = n in
      bindR (case arg of None \<Rightarrow> Inr e | Some LNil \<Rightarrow> Inr e | Some p \<Rightarrow> check_int p) (\<lambda>pos.
      if \<not> (1 \<le> pos \<and> pos \<le> e) then Inr (None, t)
      else Inr (Some (t pos), (shift_down e pos t)(e := LNil))))"

section \<open>Concatenation\<close>

definition addfield :: "(int \<Rightarrow> lval) \<Rightarrow> string \<Rightarrow> int \<Rightarrow> string res" where
  "addfield t b i =
     (case t i of
        LStr s \<Rightarrow> Inr (b @ s)
      | LNum k \<Rightarrow> Inr (b @ show_int k)
      | _ \<Rightarrow> Inl (LuaError ''invalid value in table for concat''))"

function concat_loop :: "(int \<Rightarrow> lval) \<Rightarrow> string \<Rightarrow> int \<Rightarrow> int \<Rightarrow> string \<Rightarrow> (int \<times> string) res" where
  "concat_loop t sep i m b =
     (if i < m then bindR (addfield t b i) (\<lambda>b. concat_loop t sep (i + 1) m (b @ sep)) else Inr (i, b))"
  by pat_completeness auto
termination by (relation "measure (\<lambda>(t, sep, i, m, b). nat (m - i))") auto

declare concat_loop.simps [simp del]

definition tconcat :: "(int \<Rightarrow> lval) \<Rightarrow> string \<Rightarrow> int \<Rightarrow> int \<Rightarrow> string res" where
  "tconcat t sep i m =
     bindR (concat_loop t sep i m []) (\<lambda>(i, b). if i = m then addfield t b i else Inr b)"

section \<open>Traversal\<close>

text \<open>The function is called with index and value and the state of the program; the first result that is
  not nil ends the loop.\<close>

function foreachi :: "(lval \<Rightarrow> lval \<Rightarrow> 's \<Rightarrow> (lval \<times> 's) res) \<Rightarrow> (int \<Rightarrow> lval) \<Rightarrow> int \<Rightarrow> int \<Rightarrow> 's \<Rightarrow> (lval option \<times> 's) res" where
  "foreachi f t i n s =
     (if i \<le> n then
        bindR (f (LNum i) (t i) s) (\<lambda>(v, s). if v \<noteq> LNil then Inr (Some v, s) else foreachi f t (i + 1) n s)
      else Inr (None, s))"
  by pat_completeness auto
termination by (relation "measure (\<lambda>(f, t, i, n, s). nat (n + 1 - i))") auto

declare foreachi.simps [simp del]

text \<open>The pairs in the order of \<^verbatim>\<open>lua_next\<close>.\<close>

fun foreach :: "(lval \<Rightarrow> lval \<Rightarrow> 's \<Rightarrow> (lval \<times> 's) res) \<Rightarrow> (lval \<times> lval) list \<Rightarrow> 's \<Rightarrow> (lval option \<times> 's) res" where
  "foreach f [] s = Inr (None, s)"
| "foreach f ((k, v) # kvs) s =
     bindR (f k v s) (\<lambda>(r, s). if r \<noteq> LNil then Inr (Some r, s) else foreach f kvs s)"

fun maxn_loop :: "(lval \<times> lval) list \<Rightarrow> int \<Rightarrow> int" where
  "maxn_loop [] m = m"
| "maxn_loop ((k, v) # kvs) m =
     maxn_loop kvs (case k of LNum x \<Rightarrow> if x > m then x else m | _ \<Rightarrow> m)"

definition maxn :: "(lval \<times> lval) list \<Rightarrow> int" where
  "maxn kvs = maxn_loop kvs 0"

section \<open>Tables that hold a list\<close>

definition holds :: "(int \<Rightarrow> lval) \<Rightarrow> lval list \<Rightarrow> bool" where
  "holds t xs \<longleftrightarrow> LNil \<notin> set xs \<and> (\<forall>k < length xs. t (int k + 1) = xs ! k) \<and> t (int (length xs) + 1) = LNil"

lemma shift_up_at: "shift_up pos i t k = (if pos < k \<and> k \<le> i then t (k - 1) else t k)"
proof (induction pos i t arbitrary: k rule: shift_up.induct)
  case (1 pos i t)
  show ?case
  proof (cases "pos < i")
    case True
    then have "shift_up pos i t k = shift_up pos (i - 1) (t(i := t (i - 1))) k" by (subst shift_up.simps) simp
    also have "\<dots> = (if pos < k \<and> k \<le> i - 1 then (t(i := t (i - 1))) (k - 1) else (t(i := t (i - 1))) k)"
      using True by (intro 1) simp
    finally show ?thesis using True by auto
  qed (auto simp: shift_up.simps [of pos i])
qed

lemma shift_down_at: "shift_down e pos t k = (if pos \<le> k \<and> k < e then t (k + 1) else t k)"
proof (induction e pos t arbitrary: k rule: shift_down.induct)
  case (1 e pos t)
  show ?case
  proof (cases "pos < e")
    case True
    then have "shift_down e pos t k = shift_down e (pos + 1) (t(pos := t (pos + 1))) k" by (subst shift_down.simps) simp
    also have "\<dots> = (if pos + 1 \<le> k \<and> k < e then (t(pos := t (pos + 1))) (k + 1) else (t(pos := t (pos + 1))) k)"
      using True by (intro 1) simp
    finally show ?thesis using True by auto
  qed (auto simp: shift_down.simps [of e pos])
qed

definition insert_at :: "nat \<Rightarrow> 'a \<Rightarrow> 'a list \<Rightarrow> 'a list" where
  "insert_at i v xs = take i xs @ v # drop i xs"

definition remove_at :: "nat \<Rightarrow> 'a list \<Rightarrow> 'a list" where
  "remove_at i xs = take i xs @ drop (i + 1) xs"



lemma concat_loop_strings:
  assumes "\<And>k. i \<le> k \<Longrightarrow> k < m \<Longrightarrow> \<exists>s. t k = LStr s"
  shows "i \<le> m \<Longrightarrow> concat_loop t sep i m b =
    Inr (m, b @ concat (map (\<lambda>k. (case t k of LStr s \<Rightarrow> s | _ \<Rightarrow> []) @ sep) [i..m - 1]))"
  using assms
proof (induction t sep i m b rule: concat_loop.induct)
  case (1 t sep i m b)
  show ?case
  proof (cases "i < m")
    case True
    then obtain s where s: "t i = LStr s" using "1.prems"(2) [of i] by auto
    then have f: "addfield t b i = Inr (b @ s)" by (simp add: addfield_def)
    have "concat_loop t sep i m b = concat_loop t sep (i + 1) m ((b @ s) @ sep)"
      using True f by (subst concat_loop.simps) simp
    also have "\<dots> = Inr (m, ((b @ s) @ sep) @
        concat (map (\<lambda>k. (case t k of LStr s \<Rightarrow> s | _ \<Rightarrow> []) @ sep) [i + 1..m - 1]))"
      by (rule "1.IH" [OF True f]) (use True "1.prems" in auto)
    finally show ?thesis using True s by (simp add: upto_rec1 [of i])
  qed (use "1.prems" in \<open>simp add: concat_loop.simps [of t sep m]\<close>)
qed

text \<open>The strings of a list with the separator between them.\<close>

fun joined :: "string \<Rightarrow> string list \<Rightarrow> string" where
  "joined sep [] = []"
| "joined sep [s] = s"
| "joined sep (s # ss) = s @ sep @ joined sep ss"

lemma joined_snoc: "joined sep (ss @ [s]) = concat (map (\<lambda>s. s @ sep) ss) @ s"
  by (induction sep ss rule: joined.induct) auto

lemma tconcat_joins:
  assumes "holds t (map LStr ss)"
  shows "tconcat t sep 1 (int (length ss)) = Inr (joined sep ss)"
proof (cases ss rule: rev_cases)
  case Nil
  then show ?thesis by (simp add: tconcat_def concat_loop.simps)
next
  case (snoc ss' s)
  let ?n = "int (length ss)"
  have at: "t (int k + 1) = LStr (ss ! k)" if "k < length ss" for k
    using assms that by (simp add: holds_def)
  have at': "t k = LStr (ss ! nat (k - 1))" if "1 \<le> k" "k \<le> ?n" for k
    using at [of "nat (k - 1)"] that by simp
  have "concat_loop t sep 1 ?n [] = Inr (?n, [] @ concat (map (\<lambda>k. (case t k of LStr s \<Rightarrow> s | _ \<Rightarrow> []) @ sep) [1..?n - 1]))"
    by (rule concat_loop_strings) (use at' snoc in auto)
  moreover have "map (\<lambda>k. (case t k of LStr s \<Rightarrow> s | _ \<Rightarrow> []) @ sep) [1..?n - 1] = map (\<lambda>s. s @ sep) ss'"
    by (rule nth_equalityI) (use at' snoc in \<open>auto simp: nth_append\<close>)
  moreover have "addfield t b ?n = Inr (b @ s)" for b
    using at' [of ?n] snoc by (simp add: addfield_def nth_append)
  ultimately show ?thesis by (simp add: tconcat_def snoc joined_snoc)
qed

end
