(* ===== verification/LuaHash.thy ===== *)
theory LuaHash
  imports Prelude "HOL-Library.Word"
begin

text \<open>
  Tables of Lua, \<^verbatim>\<open>src/ltable.c\<close>: values of positive integer keys in an array, all others in a vector
  of nodes that are chained through it (a chained scatter table with Brent's variation).  This theory
  has the keys and their hashing, the search functions and the insertion of a key while
  there is a free node; \<open>LuaRehash\<close> lets tables grow, \<open>LuaNext\<close> traverses them.  A value is \<open>None\<close>
  for nil; a pointer to a node is its index.  Objects are addresses; the hash value stored in a string is
  read through the argument \<open>h\<close>.  Memory allocation, garbage collection barriers and the cache of absent
  metamethods (\<^verbatim>\<open>flags\<close>) are left out.
\<close>

unbundle bit_operations_syntax

section \<open>Numbers\<close>

text \<open>A number is a double, given by its 64 bits.\<close>

type_synonym lua_Number = "64 word"

definition num_exponent :: "lua_Number \<Rightarrow> nat" where
  "num_exponent n = unat (take_bit 11 (drop_bit 52 n))"

definition num_fraction :: "lua_Number \<Rightarrow> nat" where
  "num_fraction n = unat (take_bit 52 n)"

definition luai_numisnan :: "lua_Number \<Rightarrow> bool" where
  "luai_numisnan n \<longleftrightarrow> num_exponent n = 2047 \<and> num_fraction n \<noteq> 0"

definition num_zero :: "lua_Number \<Rightarrow> bool" where
  "num_zero n \<longleftrightarrow> num_exponent n = 0 \<and> num_fraction n = 0"

text \<open>Two zeros are equal, and no NaN equals anything.\<close>

definition luai_numeq :: "lua_Number \<Rightarrow> lua_Number \<Rightarrow> bool" where
  "luai_numeq a b \<longleftrightarrow> \<not> luai_numisnan a \<and> \<not> luai_numisnan b \<and> (a = b \<or> num_zero a \<and> num_zero b)"

fun binary_exponent :: "nat \<Rightarrow> nat" where
  "binary_exponent m = (if m < 2 then 0 else Suc (binary_exponent (m div 2)))"

declare binary_exponent.simps [simp del]

lemma binary_exponent: "0 < m \<Longrightarrow> 2 ^ binary_exponent m \<le> m \<and> m < 2 ^ Suc (binary_exponent m)"
proof (induction m rule: binary_exponent.induct)
  case (1 m)
  show ?case
  proof (cases "m < 2")
    case True
    with "1.prems" show ?thesis by (simp add: binary_exponent.simps [of m])
  next
    case False
    with "1.IH" have "2 ^ binary_exponent (m div 2) \<le> m div 2" "m div 2 < 2 ^ Suc (binary_exponent (m div 2))" by auto
    moreover have "2 * x \<le> m \<and> m < 4 * y" if "x \<le> m div 2" "m div 2 < 2 * y" for x y :: nat
      using that by linarith
    ultimately show ?thesis using False by (simp add: binary_exponent.simps [of m])
  qed
qed

text \<open>The double of an \<^verbatim>\<open>int\<close>.\<close>

definition num_bits :: "bool \<Rightarrow> nat \<Rightarrow> nat \<Rightarrow> nat" where
  "num_bits negative e f = (if negative then 2 ^ 63 else 0) + e * 2 ^ 52 + f"

definition cast_num :: "int \<Rightarrow> lua_Number" where
  "cast_num k =
     (if k = 0 then 0
      else let m = nat \<bar>k\<bar>; e = binary_exponent m
           in of_nat (num_bits (k < 0) (1023 + e) ((m - 2 ^ e) * 2 ^ (52 - e))))"

text \<open>
  The conversion to \<^verbatim>\<open>int\<close> truncates.  C leaves the result open when it does not fit; the
  instruction of the platforms gives the smallest \<^verbatim>\<open>int\<close>, and all callers compare the result with
  the number again.
\<close>

definition lua_number2int :: "lua_Number \<Rightarrow> int" where
  "lua_number2int n =
     (let e = num_exponent n in
      if e < 1023 then 0
      else if e > 1023 + 31 then - (2 ^ 31)
      else let m = int ((2 ^ 52 + num_fraction n) div 2 ^ (52 - (e - 1023)));
               k = (if bit n 63 then - m else m)
           in if - (2 ^ 31) \<le> k \<and> k < 2 ^ 31 then k else - (2 ^ 31))"

lemma num_bits_fields:
  assumes "e < 2048" "f < 2 ^ 52"
  shows "num_exponent (of_nat (num_bits s e f)) = e" "num_fraction (of_nat (num_bits s e f)) = f"
    "bit (of_nat (num_bits s e f) :: lua_Number) 63 = s"
proof -
  let ?n = "num_bits s e f"
  have e: "num_bits s e f = ((if s then 2048 else 0) + e) * 2 ^ 52 + f" by (simp add: num_bits_def)
  have lt: "?n < 2 ^ 64" using assms by (simp add: num_bits_def)
  then have u: "unat (of_nat ?n :: lua_Number) = ?n" by (simp add: unat_of_nat take_bit_nat_eq_self_iff)
  have d: "?n div 2 ^ 52 = (if s then 2048 else 0) + e" "?n mod 2 ^ 52 = f"
    unfolding e using assms(2) by (simp_all only: div_mult_self3 mod_mult_self3 div_less mod_less add_0_right)
  show "num_exponent (of_nat ?n) = e"
    unfolding num_exponent_def unsigned_take_bit_eq unsigned_drop_bit_eq u using d(1) assms(1) lt
    by (simp add: drop_bit_eq_div take_bit_eq_mod)
  show "num_fraction (of_nat ?n) = f"
    unfolding num_fraction_def unsigned_take_bit_eq u using d(2) by (simp add: take_bit_eq_mod)
  have "?n div 2 ^ 63 = (if s then 1 else 0)" using assms by (auto simp: num_bits_def)
  then have "odd (?n div 2 ^ 63) = s" by auto
  then have "bit ?n 63 = s" by (simp add: bit_iff_odd)
  then show "bit (of_nat ?n :: lua_Number) 63 = s" by (simp add: bit_of_nat_iff)
qed

lemma num_zero_iff: "num_zero (of_nat (num_bits s e f)) \<longleftrightarrow> e = 0 \<and> f = 0" if "e < 2048" "f < 2 ^ 52"
  by (simp add: num_zero_def num_bits_fields [OF that])

lemma cast_num_parts:
  assumes "k \<noteq> 0" "- (2 ^ 31) \<le> k" "k < 2 ^ 31"
  obtains e f where "cast_num k = of_nat (num_bits (k < 0) (1023 + e) f)" "e \<le> 31" "f < 2 ^ 52"
    "(2 ^ 52 + f) div 2 ^ (52 - e) = nat \<bar>k\<bar>"
proof -
  define m where "m = nat \<bar>k\<bar>"
  define e where "e = binary_exponent m"
  have m: "0 < m" "m \<le> 2 ^ 31" using assms by (simp_all add: m_def)
  have b: "2 ^ e \<le> m" "m < 2 ^ Suc e" using binary_exponent [OF m(1)] by (simp_all add: e_def)
  have "(2 :: nat) ^ e \<le> 2 ^ 31" using b(1) m(2) by linarith
  then have e: "e \<le> 31" by (rule power_le_imp_le_exp [rotated]) simp
  have p: "2 ^ e * 2 ^ (52 - e) = (2 :: nat) ^ 52" using e by (simp flip: power_add)
  have "m - 2 ^ e < 2 ^ e" using b(2) by simp
  then have "(m - 2 ^ e) * 2 ^ (52 - e) < 2 ^ e * 2 ^ (52 - e)" by (rule mult_strict_right_mono) simp
  with p have f: "(m - 2 ^ e) * 2 ^ (52 - e) < 2 ^ 52" by metis
  have "2 ^ 52 + (m - 2 ^ e) * 2 ^ (52 - e) = m * 2 ^ (52 - e)"
    using b(1) p by (metis add_mult_distrib le_add_diff_inverse)
  then have "(2 ^ 52 + (m - 2 ^ e) * 2 ^ (52 - e)) div 2 ^ (52 - e) = m" by (metis nonzero_mult_div_cancel_right power_not_zero zero_neq_numeral)
  moreover have "cast_num k = of_nat (num_bits (k < 0) (1023 + e) ((m - 2 ^ e) * 2 ^ (52 - e)))"
    using assms(1) by (simp add: cast_num_def m_def e_def Let_def)
  ultimately show ?thesis using that e f m_def by blast
qed

lemma number2int_cast:
  assumes "- (2 ^ 31) \<le> k" "k < 2 ^ 31"
  shows "lua_number2int (cast_num k) = k" and "luai_numeq (cast_num k) (cast_num k)" and "num_zero (cast_num k) \<longleftrightarrow> k = 0"
proof -
  have "lua_number2int (cast_num k) = k \<and> \<not> luai_numisnan (cast_num k) \<and> (num_zero (cast_num k) \<longleftrightarrow> k = 0)"
  proof (cases "k = 0")
    case True
    then show ?thesis
      by (simp add: cast_num_def lua_number2int_def num_exponent_def num_fraction_def luai_numisnan_def num_zero_def)
  next
    case False
    from cast_num_parts [OF this assms] obtain e f where
      c: "cast_num k = of_nat (num_bits (k < 0) (1023 + e) f)" "e \<le> 31" "f < 2 ^ 52"
        "(2 ^ 52 + f) div 2 ^ (52 - e) = nat \<bar>k\<bar>" by blast
    have e: "1023 + e < 2048" using c(2) by simp
    note fields = num_bits_fields [OF e c(3)]
    have "lua_number2int (cast_num k) = k"
      unfolding lua_number2int_def c(1) fields Let_def using c(2,4) assms by (simp flip: of_nat_div)
    with False e c(2) show ?thesis by (simp add: luai_numisnan_def num_zero_def c(1) fields)
  qed
  then show "lua_number2int (cast_num k) = k" "luai_numeq (cast_num k) (cast_num k)" "num_zero (cast_num k) \<longleftrightarrow> k = 0"
    by (simp_all add: luai_numeq_def)
qed

section \<open>Keys\<close>

text \<open>Strings, and tables, functions, userdata and threads (\<open>Object\<close>), are addresses.\<close>

datatype key =
    Nil
  | Boolean bool
  | Number lua_Number
  | Str "64 word"
  | LightUserdata "64 word"
  | Object "64 word"
  | DeadKey "64 word"

fun gcvalue :: "key \<Rightarrow> 64 word option" where
  "gcvalue (Str a) = Some a"
| "gcvalue (Object a) = Some a"
| "gcvalue _ = None"

fun luaO_rawequalObj :: "key \<Rightarrow> key \<Rightarrow> bool" where
  "luaO_rawequalObj (Number a) (Number b) = luai_numeq a b"
| "luaO_rawequalObj k k' = (k = k')"

fun present :: "key \<Rightarrow> bool" where
  "present Nil = False"
| "present (DeadKey a) = False"
| "present (Number n) = (\<not> luai_numisnan n)"
| "present k = True"

lemma rawequal_iff:
  "luaO_rawequalObj k k' \<longleftrightarrow>
     (\<exists>a b. k = Number a \<and> k' = Number b \<and> luai_numeq a b) \<or> k = k' \<and> (\<forall>a. k \<noteq> Number a)"
  by (cases "(k, k')" rule: luaO_rawequalObj.cases) auto

lemma numeq_trans: "luai_numeq a b \<Longrightarrow> luai_numeq b c \<Longrightarrow> luai_numeq a c"
  by (auto simp: luai_numeq_def)

lemma numeq_sym: "luai_numeq a b \<longleftrightarrow> luai_numeq b a"
  by (auto simp: luai_numeq_def)

lemma rawequal_refl: "present k \<Longrightarrow> luaO_rawequalObj k k"
  by (cases k) (simp_all add: luai_numeq_def)

lemma rawequal_sym: "luaO_rawequalObj k k' \<Longrightarrow> luaO_rawequalObj k' k"
  using numeq_sym by (auto simp: rawequal_iff)

lemma rawequal_trans: "luaO_rawequalObj a b \<Longrightarrow> luaO_rawequalObj b c \<Longrightarrow> luaO_rawequalObj a c"
  by (cases b) (auto simp: rawequal_iff intro: numeq_trans)

lemma rawequal_present: "luaO_rawequalObj a b \<Longrightarrow> present b \<longleftrightarrow> present a"
  by (auto simp: rawequal_iff luai_numeq_def)

definition arrayindex :: "key \<Rightarrow> int" where
  "arrayindex k =
     (case k of
        Number n \<Rightarrow> let i = lua_number2int n in if luai_numeq (cast_num i) n then i else - 1
      | _ \<Rightarrow> - 1)"

lemma zeros_agree: "num_zero a \<Longrightarrow> num_zero b \<Longrightarrow> lua_number2int a = lua_number2int b"
  by (simp add: num_zero_def lua_number2int_def)

lemma numeq_int: "luai_numeq a b \<Longrightarrow> lua_number2int a = lua_number2int b"
  using zeros_agree by (auto simp: luai_numeq_def)

lemma arrayindex_rawequal: "luaO_rawequalObj k k' \<Longrightarrow> arrayindex k = arrayindex k'"
proof (cases "\<exists>a b. k = Number a \<and> k' = Number b \<and> luai_numeq a b")
  case True
  then obtain a b where k: "k = Number a" "k' = Number b" "luai_numeq a b" by blast
  then have "luai_numeq c a = luai_numeq c b" for c by (metis numeq_sym numeq_trans)
  with k numeq_int [OF k(3)] show ?thesis by (simp add: arrayindex_def)
qed (auto simp: rawequal_iff)

lemma arrayindex_cast: "- (2 ^ 31) \<le> k \<Longrightarrow> k < 2 ^ 31 \<Longrightarrow> arrayindex (Number (cast_num k)) = k"
  by (simp add: arrayindex_def number2int_cast)

lemma arrayindex_eq: "0 < arrayindex k \<Longrightarrow> luaO_rawequalObj k (Number (cast_num (arrayindex k)))"
  by (cases k) (auto simp: arrayindex_def Let_def numeq_sym split: if_splits)

lemma arrayindex_range: "- (2 ^ 31) \<le> arrayindex k \<and> arrayindex k < 2 ^ 31"
proof -
  have "- (2 ^ 31) \<le> lua_number2int n \<and> lua_number2int n < 2 ^ 31" for n
    by (simp add: lua_number2int_def Let_def)
  then show ?thesis by (simp add: arrayindex_def Let_def split: key.split)
qed

section \<open>Logarithms and hashing\<close>

text \<open>\<open>luaO_log2\<close> of \<^verbatim>\<open>src/lobject.c\<close> with its table; \<open>-1\<close> for 0.\<close>

definition log_2 :: "nat list" where
  "log_2 = [0, 1, 2, 2] @ replicate 4 3 @ replicate 8 4 @ replicate 16 5 @ replicate 32 6 @ replicate 64 7 @ replicate 128 8"

fun log2_loop :: "int \<Rightarrow> nat \<Rightarrow> int" where
  "log2_loop l x = (if x \<ge> 256 then log2_loop (l + 8) (x div 256) else l + int (log_2 ! x))"

declare log2_loop.simps [simp del]

definition luaO_log2 :: "nat \<Rightarrow> int" where
  "luaO_log2 x = log2_loop (- 1) x"

definition ceillog2 :: "nat \<Rightarrow> nat" where
  "ceillog2 x = nat (luaO_log2 (x - 1) + 1)"

lemma log_2_entry: "x < 256 \<Longrightarrow> 0 < x \<Longrightarrow> 2 ^ (log_2 ! x) \<le> 2 * x \<and> 2 * x < 2 ^ Suc (log_2 ! x)"
  by (auto simp: log_2_def nth_append nth_Cons' split: if_splits)

lemma log2_loop: "0 < x \<Longrightarrow> \<exists>e. log2_loop l x = l + 1 + int e \<and> 2 ^ e \<le> x \<and> x < 2 ^ Suc e"
proof (induction l x rule: log2_loop.induct)
  case (1 l x)
  show ?case
  proof (cases "x \<ge> 256")
    case True
    with 1 obtain e where e: "log2_loop (l + 8) (x div 256) = l + 9 + int e" "2 ^ e \<le> x div 256" "x div 256 < 2 ^ Suc e"
      by fastforce
    have "256 * y \<le> x \<and> x < 512 * y" if "y \<le> x div 256" "x div 256 < 2 * y" for y
      using that by linarith
    from this [of "2 ^ e"] e True show ?thesis
      by (intro exI [of _ "e + 8"]) (simp add: log2_loop.simps [of l x] power_add)
  next
    case False
    with "1.prems" log_2_entry [of x] have b: "2 ^ (log_2 ! x) \<le> 2 * x" "2 * x < 2 ^ Suc (log_2 ! x)" by auto
    with "1.prems" have "log_2 ! x \<noteq> 0" by (cases "log_2 ! x") auto
    then obtain e where "log_2 ! x = Suc e" by (cases "log_2 ! x") auto
    with b False show ?thesis by (intro exI [of _ e]) (simp add: log2_loop.simps [of l x])
  qed
qed

lemma ceillog2_bounds:
  assumes "0 < x"
  shows "x \<le> 2 ^ ceillog2 x" and "ceillog2 x \<noteq> 0 \<Longrightarrow> 2 ^ (ceillog2 x - 1) < x"
proof -
  have "x \<le> 2 ^ ceillog2 x \<and> (ceillog2 x \<noteq> 0 \<longrightarrow> 2 ^ (ceillog2 x - 1) < x)"
  proof (cases "x = 1")
    case True
    then show ?thesis by (simp add: ceillog2_def luaO_log2_def log2_loop.simps [of _ 0] log_2_def)
  next
    case False
    with assms have "0 < x - 1" by simp
    from log2_loop [OF this, of "- 1"] obtain e where
      "luaO_log2 (x - 1) = int e" "2 ^ e \<le> x - 1" "x - 1 < 2 ^ Suc e" by (auto simp: luaO_log2_def)
    moreover from this have "ceillog2 x = Suc e" by (simp add: ceillog2_def)
    ultimately show ?thesis using assms by (simp add: less_eq_Suc_le)
  qed
  then show "x \<le> 2 ^ ceillog2 x" "ceillog2 x \<noteq> 0 \<Longrightarrow> 2 ^ (ceillog2 x - 1) < x" by auto
qed

lemma ceillog2_le: "0 < x \<Longrightarrow> ceillog2 x \<le> l \<longleftrightarrow> x \<le> 2 ^ l"
proof
  assume "0 < x" "ceillog2 x \<le> l"
  then show "x \<le> 2 ^ l" using ceillog2_bounds(1) [of x] power_increasing [of "ceillog2 x" l "2 :: nat"] by linarith
next
  assume x: "0 < x" "x \<le> 2 ^ l"
  show "ceillog2 x \<le> l"
  proof (rule ccontr)
    assume "\<not> ceillog2 x \<le> l"
    then have "l \<le> ceillog2 x - 1" "ceillog2 x \<noteq> 0" by auto
    with x ceillog2_bounds(2) [of x] power_increasing [of l "ceillog2 x - 1" "2 :: nat"] show False by linarith
  qed
qed

text \<open>\<open>size\<close> is a power of two, and \<open>s & (size - 1)\<close> the remainder.\<close>

definition lmod :: "32 word \<Rightarrow> nat \<Rightarrow> nat" where
  "lmod s sz = unat (s AND (of_nat sz - 1))"

definition hashmod :: "nat \<Rightarrow> 32 word \<Rightarrow> nat" where
  "hashmod sz n = unat n mod ((sz - 1) OR 1)"

definition hashnum :: "nat \<Rightarrow> lua_Number \<Rightarrow> nat" where
  "hashnum sz n =
     (if luai_numeq n (cast_num 0) then 0
      else hashmod sz (ucast n + ucast (drop_bit 32 n)))"

fun mainposition :: "(64 word \<Rightarrow> 32 word) \<Rightarrow> nat \<Rightarrow> key \<Rightarrow> nat" where
  "mainposition h sz (Number n) = hashnum sz n"
| "mainposition h sz (Str a) = lmod (h a) sz"
| "mainposition h sz (Boolean b) = lmod (of_bool b) sz"
| "mainposition h sz (LightUserdata a) = hashmod sz (ucast a)"
| "mainposition h sz (Object a) = hashmod sz (ucast a)"
| "mainposition h sz (DeadKey a) = hashmod sz (ucast a)"
| "mainposition h sz Nil = hashmod sz 0"

lemma lmod_less: "lmod s (2 ^ l) < 2 ^ l"
proof -
  have "lmod s (2 ^ l) = unat (take_bit l s)"
    by (simp add: lmod_def take_bit_eq_mask mask_eq_exp_minus_1)
  also have "\<dots> < 2 ^ l" by (simp add: unsigned_take_bit_eq take_bit_nat_less_exp)
  finally show ?thesis .
qed

lemma hashmod_less: "hashmod (2 ^ l) n < 2 ^ l"
proof (cases l)
  case 0
  then show ?thesis by (simp add: hashmod_def)
next
  case (Suc k)
  then have "((2 :: nat) ^ l - 1) OR 1 = 2 ^ l - 1" by (simp add: or_Suc_0_eq)
  moreover have "(2 :: nat) \<le> 2 ^ l" using Suc by simp
  then have "unat n mod (2 ^ l - 1) < 2 ^ l - 1" by (intro mod_less_divisor) linarith
  ultimately show ?thesis by (simp add: hashmod_def)
qed

lemma mainposition_less: "mainposition h (2 ^ l) k < 2 ^ l"
  by (cases k) (simp_all add: lmod_less hashmod_less hashnum_def)

lemma mainposition_rawequal: "luaO_rawequalObj k k' \<Longrightarrow> mainposition h sz k = mainposition h sz k'"
proof -
  have "luai_numeq a (cast_num 0) = luai_numeq b (cast_num 0)" if "luai_numeq a b" for a b
    using that by (metis numeq_sym numeq_trans)
  moreover have "a = b" if "luai_numeq a b" "\<not> luai_numeq a (cast_num 0)" for a b
    using that number2int_cast [of 0] by (auto simp: luai_numeq_def)
  ultimately have "hashnum sz a = hashnum sz b" if "luai_numeq a b" for a b
    using that by (metis hashnum_def)
  then show "luaO_rawequalObj k k' \<Longrightarrow> ?thesis" by (auto simp: rawequal_iff)
qed

section \<open>Tables\<close>

record 'v Node =
  i_val :: "'v option"
  i_key :: key
  next_node :: "nat option"

text \<open>\<open>is_dummy\<close>: the hash part is the shared empty node.  \<open>lastfree\<close> can move below the first node.\<close>

record 'v Table =
  array :: "'v option list"
  sizearray :: nat
  node :: "'v Node list"
  lsizenode :: nat
  lastfree :: int
  is_dummy :: bool

definition sizenode :: "'v Table \<Rightarrow> nat" where
  "sizenode t = 2 ^ lsizenode t"

text \<open>What the search functions point to; they give \<open>None\<close> for \<^verbatim>\<open>luaO_nilobject\<close>.\<close>

datatype slot = ArraySlot nat | NodeSlot nat

fun slot_value :: "'v Table \<Rightarrow> slot \<Rightarrow> 'v option res" where
  "slot_value t (ArraySlot i) = nthR (array t) i"
| "slot_value t (NodeSlot i) = bindR (nthR (node t) i) (\<lambda>n. Inr (i_val n))"

fun set_slot :: "'v Table \<Rightarrow> slot \<Rightarrow> 'v option \<Rightarrow> 'v Table res" where
  "set_slot t (ArraySlot i) v = bindR (updR (array t) i v) (\<lambda>a. Inr (t\<lparr>array := a\<rparr>))"
| "set_slot t (NodeSlot i) v = bindR (nthR (node t) i) (\<lambda>n. Inr (t\<lparr>node := (node t)[i := n\<lparr>i_val := v\<rparr>]\<rparr>))"

section \<open>Searching\<close>

text \<open>The loop over a chain; the fuel is the number of nodes.\<close>

fun search :: "nat \<Rightarrow> 'v Node list \<Rightarrow> (key \<Rightarrow> bool) \<Rightarrow> nat \<Rightarrow> nat option res" where
  "search 0 ns P i = Inl OutOfFuel"
| "search (Suc f) ns P i =
     bindR (nthR ns i) (\<lambda>n.
       if P (i_key n) then Inr (Some i)
       else (case next_node n of None \<Rightarrow> Inr None | Some j \<Rightarrow> search f ns P j))"

definition search_chain :: "'v Table \<Rightarrow> (key \<Rightarrow> bool) \<Rightarrow> nat \<Rightarrow> slot option res" where
  "search_chain t P i = bindR (search (length (node t)) (node t) P i) (\<lambda>r. Inr (map_option NodeSlot r))"

definition luaH_getnum :: "'v Table \<Rightarrow> int \<Rightarrow> slot option res" where
  "luaH_getnum t k =
     (if unat (word_of_int (k - 1) :: 32 word) < sizearray t then Inr (Some (ArraySlot (nat (k - 1))))
      else search_chain t (\<lambda>k'. case k' of Number n \<Rightarrow> luai_numeq n (cast_num k) | _ \<Rightarrow> False)
             (hashnum (sizenode t) (cast_num k)))"

definition luaH_getstr :: "(64 word \<Rightarrow> 32 word) \<Rightarrow> 'v Table \<Rightarrow> 64 word \<Rightarrow> slot option res" where
  "luaH_getstr h t a = search_chain t (\<lambda>k'. k' = Str a) (lmod (h a) (sizenode t))"

definition luaH_get :: "(64 word \<Rightarrow> 32 word) \<Rightarrow> 'v Table \<Rightarrow> key \<Rightarrow> slot option res" where
  "luaH_get h t k =
     (let any = search_chain t (\<lambda>k'. luaO_rawequalObj k' k) (mainposition h (sizenode t) k) in
      case k of
        Nil \<Rightarrow> Inr None
      | Str a \<Rightarrow> luaH_getstr h t a
      | Number n \<Rightarrow>
          let i = lua_number2int n in
          if luai_numeq (cast_num i) n then luaH_getnum t i else any
      | _ \<Rightarrow> any)"

definition lua_rawget :: "(64 word \<Rightarrow> 32 word) \<Rightarrow> 'v Table \<Rightarrow> key \<Rightarrow> 'v option res" where
  "lua_rawget h t k =
     bindR (luaH_get h t k) (\<lambda>p. case p of None \<Rightarrow> Inr None | Some s \<Rightarrow> slot_value t s)"

section \<open>Inserting a key\<close>

fun freepos_loop :: "'v Node list \<Rightarrow> nat \<Rightarrow> (nat option \<times> int) res" where
  "freepos_loop ns 0 = Inr (None, - 1)"
| "freepos_loop ns (Suc i) =
     bindR (nthR ns i) (\<lambda>n. if i_key n = Nil then Inr (Some i, int i) else freepos_loop ns i)"

definition getfreepos :: "'v Table \<Rightarrow> (nat option \<times> 'v Table) res" where
  "getfreepos t =
     (if lastfree t \<le> 0 then Inr (None, t\<lparr>lastfree := lastfree t - 1\<rparr>)
      else bindR (freepos_loop (node t) (nat (lastfree t))) (\<lambda>(n, free). Inr (n, t\<lparr>lastfree := free\<rparr>)))"

fun find_previous :: "nat \<Rightarrow> 'v Node list \<Rightarrow> nat \<Rightarrow> nat \<Rightarrow> nat res" where
  "find_previous 0 ns mp i = Inl OutOfFuel"
| "find_previous (Suc f) ns mp i =
     bindR (nthR ns i) (\<lambda>n.
       case next_node n of
         None \<Rightarrow> Inl NullPointer
       | Some j \<Rightarrow> if j = mp then Inr i else find_previous f ns mp j)"

definition put_key :: "'v Table \<Rightarrow> 'v Node list \<Rightarrow> nat \<Rightarrow> key \<Rightarrow> 'v Table \<times> slot" where
  "put_key t ns i k = (t\<lparr>node := ns[i := (ns ! i)\<lparr>i_key := k\<rparr>]\<rparr>, NodeSlot i)"

text \<open>The colliding node goes to the free place, and its place is free.\<close>

definition move_node :: "'v Node list \<Rightarrow> nat \<Rightarrow> nat \<Rightarrow> nat \<Rightarrow> 'v Node list" where
  "move_node ns p mp n =
     (let ns = ns[p := (ns ! p)\<lparr>next_node := Some n\<rparr>];
          ns = ns[n := ns ! mp]
      in ns[mp := (ns ! mp)\<lparr>next_node := None, i_val := None\<rparr>])"

definition chain_node :: "'v Node list \<Rightarrow> nat \<Rightarrow> nat \<Rightarrow> 'v Node list" where
  "chain_node ns mp n =
     (let ns = ns[n := (ns ! n)\<lparr>next_node := next_node (ns ! mp)\<rparr>]
      in ns[mp := (ns ! mp)\<lparr>next_node := Some n\<rparr>])"

text \<open>\<open>grow\<close> is what happens when there is no free place.\<close>

definition newkey_with ::
  "('v Table \<Rightarrow> key \<Rightarrow> ('v Table \<times> slot) res) \<Rightarrow> (64 word \<Rightarrow> 32 word) \<Rightarrow> 'v Table \<Rightarrow> key \<Rightarrow> ('v Table \<times> slot) res"
where
  "newkey_with grow h t k =
     (let mp = mainposition h (sizenode t) k in
      bindR (nthR (node t) mp) (\<lambda>m.
        if i_val m \<noteq> None \<or> is_dummy t then
          bindR (getfreepos t) (\<lambda>(n, t).
            case n of
              None \<Rightarrow> grow t k
            | Some n \<Rightarrow>
                let othern = mainposition h (sizenode t) (i_key m) in
                if othern \<noteq> mp then
                  bindR (find_previous (length (node t)) (node t) mp othern) (\<lambda>p.
                    Inr (put_key t (move_node (node t) p mp n) mp k))
                else Inr (put_key t (chain_node (node t) mp n) n k))
        else Inr (put_key t (node t) mp k)))"

definition luaH_set_with ::
  "('v Table \<Rightarrow> key \<Rightarrow> ('v Table \<times> slot) res) \<Rightarrow> (64 word \<Rightarrow> 32 word) \<Rightarrow> 'v Table \<Rightarrow> key \<Rightarrow> ('v Table \<times> slot) res"
where
  "luaH_set_with newkey h t k =
     bindR (luaH_get h t k) (\<lambda>p.
       case p of
         Some s \<Rightarrow> Inr (t, s)
       | None \<Rightarrow>
           if k = Nil then Inl (LuaError ''table index is nil'')
           else if (case k of Number n \<Rightarrow> luai_numisnan n | _ \<Rightarrow> False) then Inl (LuaError ''table index is NaN'')
           else newkey t k)"

end
