(* ===== verification/LuaNodes.thy ===== *)
theory LuaNodes
  imports LuaHash
begin

text \<open>
  The nodes of a table: the chains are paths without branches or cycles, a key can be reached from
  its main position, and insertion keeps this so.
\<close>

section \<open>Chains\<close>

definition links :: "'v Node list \<Rightarrow> (nat \<times> nat) set" where
  "links ns = {(i, j). i < length ns \<and> next_node (ns ! i) = Some j}"

definition chained :: "'v Node list \<Rightarrow> bool" where
  "chained ns \<longleftrightarrow>
     (\<forall>i j. (i, j) \<in> links ns \<longrightarrow> j < length ns) \<and>
     (\<forall>i i' j. (i, j) \<in> links ns \<longrightarrow> (i', j) \<in> links ns \<longrightarrow> i = i') \<and>
     (\<exists>r :: nat \<Rightarrow> nat. \<forall>i j. (i, j) \<in> links ns \<longrightarrow> r j < r i)"

lemma chainedI:
  fixes r :: "nat \<Rightarrow> nat"
  assumes "\<And>i j. (i, j) \<in> links ns \<Longrightarrow> j < length ns"
    and "\<And>i i' j. (i, j) \<in> links ns \<Longrightarrow> (i', j) \<in> links ns \<Longrightarrow> i = i'"
    and "\<And>i j. (i, j) \<in> links ns \<Longrightarrow> r j < r i"
  shows "chained ns"
  unfolding chained_def using assms by blast

lemma chainedD:
  assumes "chained ns"
  shows "(i, j) \<in> links ns \<Longrightarrow> j < length ns" and "(i, j) \<in> links ns \<Longrightarrow> (i', j) \<in> links ns \<Longrightarrow> i = i'"
  using assms unfolding chained_def by blast+

lemma chained_rank:
  assumes "chained ns"
  obtains r :: "nat \<Rightarrow> nat" where "\<And>i j. (i, j) \<in> links ns \<Longrightarrow> r j < r i"
  using assms unfolding chained_def by blast

lemma reach_bounded:
  assumes "chained ns" "i < length ns" "(i, j) \<in> (links ns)\<^sup>*"
  shows "j < length ns"
  using assms(3,2) by (induction rule: rtrancl_induct) (use assms(1) in \<open>auto simp: chained_def\<close>)

lemma reach_card:
  assumes "chained ns" "i < length ns" "(i, j) \<in> links ns"
  shows "card ((links ns)\<^sup>* `` {j}) < card ((links ns)\<^sup>* `` {i})"
proof (rule psubset_card_mono)
  have "(links ns)\<^sup>* `` {i} \<subseteq> {..<length ns}" using reach_bounded [OF assms(1,2)] by auto
  then show "finite ((links ns)\<^sup>* `` {i})" by (rule finite_subset) simp
  obtain r :: "nat \<Rightarrow> nat" where r: "\<And>i j. (i, j) \<in> links ns \<Longrightarrow> r j < r i" using assms(1) by (auto simp: chained_def)
  have "r k \<le> r j" if "(j, k) \<in> (links ns)\<^sup>*" for k
    using that by (induction rule: rtrancl_induct) (auto dest: r)
  with r [OF assms(3)] have "(j, i) \<notin> (links ns)\<^sup>*" by fastforce
  moreover have "(links ns)\<^sup>* `` {j} \<subseteq> (links ns)\<^sup>* `` {i}"
    using assms(3) by (auto intro: converse_rtrancl_into_rtrancl)
  ultimately show "(links ns)\<^sup>* `` {j} \<subset> (links ns)\<^sup>* `` {i}" by blast
qed

lemma reach_cases: "(i, j) \<in> (links ns)\<^sup>* \<longleftrightarrow> j = i \<or> (\<exists>k. (i, k) \<in> links ns \<and> (k, j) \<in> (links ns)\<^sup>*)"
  by (auto elim: converse_rtranclE intro: converse_rtrancl_into_rtrancl)

lemma reach_start: "(i, j) \<in> (links ns)\<^sup>* \<Longrightarrow> i \<noteq> j \<Longrightarrow> i < length ns"
proof -
  assume "(i, j) \<in> (links ns)\<^sup>*" "i \<noteq> j"
  then obtain k where "(i, k) \<in> links ns" by (auto simp only: reach_cases [of i j])
  then show ?thesis by (simp add: links_def)
qed

lemma link_iff: "i < length ns \<Longrightarrow> (i, j) \<in> links ns \<longleftrightarrow> next_node (ns ! i) = Some j"
  by (simp add: links_def)

lemma reach_card_le:
  assumes "chained ns" "i < length ns"
  shows "card ((links ns)\<^sup>* `` {i}) \<le> length ns"
proof -
  have "(links ns)\<^sup>* `` {i} \<subseteq> {..<length ns}" using reach_bounded [OF assms] by auto
  then have "card ((links ns)\<^sup>* `` {i}) \<le> card {..<length ns}" by (rule card_mono [rotated]) simp
  then show ?thesis by simp
qed

lemma reach_card_pos:
  assumes "chained ns" "i < length ns"
  shows "0 < card ((links ns)\<^sup>* `` {i})"
proof -
  have "(links ns)\<^sup>* `` {i} \<subseteq> {..<length ns}" using reach_bounded [OF assms] by auto
  then have "finite ((links ns)\<^sup>* `` {i})" by (rule finite_subset) simp
  then show ?thesis by (auto simp: card_gt_0_iff)
qed

lemma search_enough:
  "chained ns \<Longrightarrow> i < length ns \<Longrightarrow> card ((links ns)\<^sup>* `` {i}) \<le> f \<Longrightarrow>
     (\<exists>j. search f ns P i = Inr (Some j) \<and> (i, j) \<in> (links ns)\<^sup>* \<and> P (i_key (ns ! j))) \<or>
     search f ns P i = Inr None \<and> (\<forall>j. (i, j) \<in> (links ns)\<^sup>* \<longrightarrow> \<not> P (i_key (ns ! j)))"
proof (induction f arbitrary: i)
  case 0
  with reach_card_pos [OF 0(1,2)] show ?case by simp
next
  case (Suc f)
  show ?case
  proof (cases "P (i_key (ns ! i))")
    case True
    with Suc.prems(2) show ?thesis by simp
  next
    case False
    show ?thesis
    proof (cases "next_node (ns ! i)")
      case None
      then have "\<not> (i, k) \<in> links ns" for k by (simp add: links_def)
      then have "(i, j) \<in> (links ns)\<^sup>* \<longleftrightarrow> j = i" for j by (auto simp: reach_cases [of i j])
      with False None Suc.prems(2) show ?thesis by simp
    next
      case (Some k)
      then have l: "(i, k) \<in> links ns" using Suc.prems(2) by (simp add: link_iff)
      then have "(i, j) \<in> (links ns)\<^sup>* \<longleftrightarrow> j = i \<or> (k, j) \<in> (links ns)\<^sup>*" for j
        using reach_cases [of i j ns] Some Suc.prems(2) by (auto simp: link_iff)
      moreover have "k < length ns" using l Suc.prems(1) by (auto simp: chained_def)
      moreover have "card ((links ns)\<^sup>* `` {k}) \<le> f" using reach_card [OF Suc.prems(1,2) l] Suc.prems(3) by linarith
      ultimately show ?thesis using Suc.IH [of k] Suc.prems False Some by auto
    qed
  qed
qed

lemma search_chained:
  assumes "chained ns" "i < length ns"
  obtains j where "search (length ns) ns P i = Inr (Some j)" "j < length ns" "(i, j) \<in> (links ns)\<^sup>*" "P (i_key (ns ! j))"
  | "search (length ns) ns P i = Inr None" "\<forall>j. (i, j) \<in> (links ns)\<^sup>* \<longrightarrow> \<not> P (i_key (ns ! j))"
  using search_enough [OF assms reach_card_le [OF assms]] reach_bounded [OF assms] by blast

lemma find_previous_enough:
  "chained ns \<Longrightarrow> i < length ns \<Longrightarrow> card ((links ns)\<^sup>* `` {i}) \<le> f \<Longrightarrow> (i, mp) \<in> (links ns)\<^sup>* \<Longrightarrow> i \<noteq> mp \<Longrightarrow>
     \<exists>p. find_previous f ns mp i = Inr p \<and> p < length ns \<and> (p, mp) \<in> links ns"
proof (induction f arbitrary: i)
  case 0
  with reach_card_pos [OF 0(1,2)] show ?case by simp
next
  case (Suc f)
  from Suc.prems(4,5) obtain k where k: "(i, k) \<in> links ns" "(k, mp) \<in> (links ns)\<^sup>*" by (auto simp: reach_cases [of i mp])
  have n: "next_node (ns ! i) = Some k" using k(1) Suc.prems(2) by (simp add: link_iff)
  have b: "k < length ns" using k(1) Suc.prems(1) unfolding chained_def by blast
  have "card ((links ns)\<^sup>* `` {k}) \<le> f" using reach_card [OF Suc.prems(1,2) k(1)] Suc.prems(3) by linarith
  with Suc.IH [OF Suc.prems(1) b _ k(2)] n k Suc.prems(2) show ?case by (cases "k = mp") auto
qed

section \<open>Where keys are\<close>

definition nodes_ok :: "(key \<Rightarrow> nat) \<Rightarrow> 'v Node list \<Rightarrow> bool" where
  "nodes_ok mp ns \<longleftrightarrow>
     chained ns \<and>
     (\<forall>i < length ns. present (i_key (ns ! i)) \<or> i_key (ns ! i) = Nil \<or> (\<exists>a. i_key (ns ! i) = DeadKey a)) \<and>
     (\<forall>i < length ns. \<not> present (i_key (ns ! i)) \<longrightarrow> i_val (ns ! i) = None) \<and>
     (\<forall>i < length ns. i_key (ns ! i) = Nil \<longrightarrow> next_node (ns ! i) = None \<and> (\<forall>j. (j, i) \<notin> links ns)) \<and>
     (\<forall>i < length ns. present (i_key (ns ! i)) \<longrightarrow> (mp (i_key (ns ! i)), i) \<in> (links ns)\<^sup>*) \<and>
     (\<forall>i < length ns. \<forall>m. present (i_key (ns ! i)) \<longrightarrow> mp (i_key (ns ! i)) = m \<longrightarrow> m \<noteq> i \<longrightarrow>
        i_key (ns ! m) \<noteq> Nil \<and> (present (i_key (ns ! m)) \<longrightarrow> mp (i_key (ns ! m)) = m)) \<and>
     (\<forall>i < length ns. \<forall>j < length ns. present (i_key (ns ! i)) \<longrightarrow> luaO_rawequalObj (i_key (ns ! i)) (i_key (ns ! j)) \<longrightarrow> i = j)"

lemma nodes_okD:
  assumes "nodes_ok mp ns"
  shows ok_chained: "chained ns"
    and ok_kinds: "i < length ns \<Longrightarrow> present (i_key (ns ! i)) \<or> i_key (ns ! i) = Nil \<or> (\<exists>a. i_key (ns ! i) = DeadKey a)"
    and ok_dead: "i < length ns \<Longrightarrow> \<not> present (i_key (ns ! i)) \<Longrightarrow> i_val (ns ! i) = None"
    and ok_free: "i < length ns \<Longrightarrow> i_key (ns ! i) = Nil \<Longrightarrow> next_node (ns ! i) = None \<and> (j, i) \<notin> links ns"
    and ok_reach: "i < length ns \<Longrightarrow> present (i_key (ns ! i)) \<Longrightarrow> (mp (i_key (ns ! i)), i) \<in> (links ns)\<^sup>*"
    and ok_home: "i < length ns \<Longrightarrow> present (i_key (ns ! i)) \<Longrightarrow> mp (i_key (ns ! i)) = m \<Longrightarrow> m \<noteq> i \<Longrightarrow>
        i_key (ns ! m) \<noteq> Nil \<and> (present (i_key (ns ! m)) \<longrightarrow> mp (i_key (ns ! m)) = m)"
    and ok_unique: "i < length ns \<Longrightarrow> j < length ns \<Longrightarrow> present (i_key (ns ! i)) \<Longrightarrow>
        luaO_rawequalObj (i_key (ns ! i)) (i_key (ns ! j)) \<Longrightarrow> i = j"
  using assms unfolding nodes_ok_def by blast+

lemma nodes_okI:
  assumes "chained ns"
    and "\<And>i. i < length ns \<Longrightarrow> present (i_key (ns ! i)) \<or> i_key (ns ! i) = Nil \<or> (\<exists>a. i_key (ns ! i) = DeadKey a)"
    and "\<And>i. i < length ns \<Longrightarrow> \<not> present (i_key (ns ! i)) \<Longrightarrow> i_val (ns ! i) = None"
    and "\<And>i. i < length ns \<Longrightarrow> i_key (ns ! i) = Nil \<Longrightarrow> next_node (ns ! i) = None"
    and "\<And>i j. i < length ns \<Longrightarrow> i_key (ns ! i) = Nil \<Longrightarrow> (j, i) \<notin> links ns"
    and "\<And>i. i < length ns \<Longrightarrow> present (i_key (ns ! i)) \<Longrightarrow> (mp (i_key (ns ! i)), i) \<in> (links ns)\<^sup>*"
    and "\<And>i m. i < length ns \<Longrightarrow> present (i_key (ns ! i)) \<Longrightarrow> mp (i_key (ns ! i)) = m \<Longrightarrow> m \<noteq> i \<Longrightarrow>
        i_key (ns ! m) \<noteq> Nil \<and> (present (i_key (ns ! m)) \<longrightarrow> mp (i_key (ns ! m)) = m)"
    and "\<And>i j. i < length ns \<Longrightarrow> j < length ns \<Longrightarrow> present (i_key (ns ! i)) \<Longrightarrow>
        luaO_rawequalObj (i_key (ns ! i)) (i_key (ns ! j)) \<Longrightarrow> i = j"
  shows "nodes_ok mp ns"
  unfolding nodes_ok_def using assms by blast

text \<open>The keys with values, and the nodes that have had a key.\<close>

definition entries :: "'v Node list \<Rightarrow> (key \<times> 'v) set" where
  "entries ns = {(k, v). \<exists>i < length ns. i_key (ns ! i) = k \<and> i_val (ns ! i) = Some v}"

definition used :: "'v Node list \<Rightarrow> nat set" where
  "used ns = {i. i < length ns \<and> i_key (ns ! i) \<noteq> Nil}"

lemma entries_cong:
  assumes "length ns' = length ns"
    and "\<And>i. i < length ns \<Longrightarrow> i_val (ns' ! i) = i_val (ns ! i)"
    and "\<And>i. i < length ns \<Longrightarrow> i_val (ns ! i) \<noteq> None \<Longrightarrow> i_key (ns' ! i) = i_key (ns ! i)"
  shows "entries ns' = entries ns"
proof -
  have "(\<exists>i < length ns. i_key (ns' ! i) = k \<and> i_val (ns' ! i) = Some v) \<longleftrightarrow>
      (\<exists>i < length ns. i_key (ns ! i) = k \<and> i_val (ns ! i) = Some v)" for k v
    using assms(2,3) by (metis option.distinct(1))
  with assms(1) show ?thesis by (simp add: entries_def)
qed

text \<open>What the chains need of the hash function, for a vector of \<open>sz\<close> nodes.\<close>

locale hashing =
  fixes mp :: "key \<Rightarrow> nat" and sz :: nat
  assumes mp_less: "mp k < sz"
    and mp_equal: "luaO_rawequalObj k k' \<Longrightarrow> mp k = mp k'"
begin

lemma search_key:
  assumes "nodes_ok mp ns" "length ns = sz"
  obtains j where "search (length ns) ns (\<lambda>k'. luaO_rawequalObj k' k) (mp k) = Inr (Some j)" "j < length ns"
    "luaO_rawequalObj (i_key (ns ! j)) k"
  | "search (length ns) ns (\<lambda>k'. luaO_rawequalObj k' k) (mp k) = Inr None"
    "\<And>j. present k \<Longrightarrow> j < length ns \<Longrightarrow> \<not> luaO_rawequalObj (i_key (ns ! j)) k"
proof -
  have c: "chained ns" using assms(1) by (rule ok_chained)
  have m: "mp k < length ns" using mp_less assms(2) by simp
  show thesis
  proof (cases rule: search_chained [OF c m, of "\<lambda>k'. luaO_rawequalObj k' k"])
    case (1 j)
    then show thesis by (intro that(1))
  next
    case 2
    have "\<not> luaO_rawequalObj (i_key (ns ! j)) k" if "present k" "j < length ns" for j
    proof
      assume e: "luaO_rawequalObj (i_key (ns ! j)) k"
      then have "present (i_key (ns ! j))" using that(1) rawequal_present by blast
      from ok_reach [OF assms(1) that(2) this] have "(mp k, j) \<in> (links ns)\<^sup>*" using mp_equal [OF e] by simp
      with 2(2) e show False by blast
    qed
    with 2(1) show thesis by (rule that(2))
  qed
qed

text \<open>A node without a value takes a key whose main position it is.\<close>

lemma put_at_home:
  assumes ok: "nodes_ok mp ns" and m: "mp k < length ns" "i_val (ns ! mp k) = None"
    and k: "present k" "\<And>j. j < length ns \<Longrightarrow> \<not> luaO_rawequalObj (i_key (ns ! j)) k"
  shows "nodes_ok mp (ns[mp k := (ns ! mp k)\<lparr>i_key := k\<rparr>])" (is "nodes_ok mp ?ns")
    and "entries (ns[mp k := (ns ! mp k)\<lparr>i_key := k\<rparr>]) = entries ns"
proof -
  have links: "links ?ns = links ns" using m by (auto simp: links_def nth_list_update split: if_splits)
  have key: "i_key (?ns ! i) = (if i = mp k then k else i_key (ns ! i))" if "i < length ns" for i
    using that m(1) by (auto simp: nth_list_update)
  have val: "i_val (?ns ! i) = i_val (ns ! i)" "next_node (?ns ! i) = next_node (ns ! i)" if "i < length ns" for i
    using that m(1) by (auto simp: nth_list_update)
  have neq: "\<not> luaO_rawequalObj k (i_key (ns ! j))" if "j < length ns" for j
    using k(2) [OF that] rawequal_sym by blast
  show "nodes_ok mp ?ns"
  proof (rule nodes_okI, unfold length_list_update links)
    show "chained ?ns" using ok_chained [OF ok] by (simp add: chained_def links)
  next
    fix i assume i: "i < length ns"
    show "present (i_key (?ns ! i)) \<or> i_key (?ns ! i) = Nil \<or> (\<exists>a. i_key (?ns ! i) = DeadKey a)"
      using ok_kinds [OF ok i] k(1) by (simp add: key i)
    show "\<not> present (i_key (?ns ! i)) \<Longrightarrow> i_val (?ns ! i) = None"
      using ok_dead [OF ok i] k(1) by (simp add: key val i split: if_splits)
    show "i_key (?ns ! i) = Nil \<Longrightarrow> next_node (?ns ! i) = None"
      using ok_free [OF ok i] k(1) by (simp add: key val i split: if_splits)
    show "i_key (?ns ! i) = Nil \<Longrightarrow> (j, i) \<notin> links ns" for j
      using ok_free [OF ok i] k(1) by (simp add: key i split: if_splits)
    show "present (i_key (?ns ! i)) \<Longrightarrow> (mp (i_key (?ns ! i)), i) \<in> (links ns)\<^sup>*"
      using ok_reach [OF ok i] by (simp add: key i split: if_splits)
    show "i_key (?ns ! m) \<noteq> Nil \<and> (present (i_key (?ns ! m)) \<longrightarrow> mp (i_key (?ns ! m)) = m)"
      if "present (i_key (?ns ! i))" "mp (i_key (?ns ! i)) = m" "m \<noteq> i" for m
    proof (cases "m = mp k")
      case True
      with m(1) k(1) show ?thesis by (auto simp: key)
    next
      case False
      with that m show ?thesis using ok_home [OF ok i, of m] by (auto simp: key i nth_list_update split: if_splits)
    qed
    show "i = j" if "j < length ns" "present (i_key (?ns ! i))" "luaO_rawequalObj (i_key (?ns ! i)) (i_key (?ns ! j))" for j
      using that ok_unique [OF ok i that(1)] k(2) [OF i] neq [OF that(1)] by (simp add: key i split: if_splits)
  qed
  show "entries ?ns = entries ns"
    by (rule entries_cong) (use m key val in \<open>auto split: if_splits\<close>)
qed

text \<open>A key whose main position is taken by a key that belongs there goes to a free node behind it.\<close>

lemma links_chain_node:
  assumes "m < length ns" "n < length ns" "m \<noteq> n" "next_node (ns ! n) = None"
  shows "links (chain_node ns m n) = {(i, j). (i, j) \<in> links ns \<and> i \<noteq> m} \<union> {(m, n)} \<union> {(n, j) | j. (m, j) \<in> links ns}"
  using assms by (auto simp: links_def chain_node_def Let_def nth_list_update split: if_splits)

lemma chained_chain_node:
  assumes "chained ns" "m < length ns" "n < length ns" "m \<noteq> n" "next_node (ns ! n) = None" "\<And>j. (j, n) \<notin> links ns"
  shows "chained (chain_node ns m n)"
proof -
  note l = links_chain_node [OF assms(2-5)]
  obtain r :: "nat \<Rightarrow> nat" where r: "\<And>i j. (i, j) \<in> links ns \<Longrightarrow> r j < r i" using chained_rank [OF assms(1)] by blast
  have out: "(n, j) \<notin> links ns" for j using assms(5) by (simp add: links_def)
  show ?thesis
  proof (rule chainedI [where r = "\<lambda>i. if i = n then 2 * r m else 2 * r i + 1"])
    fix i j assume ij: "(i, j) \<in> links (chain_node ns m n)"
    then show "(if j = n then 2 * r m else 2 * r j + 1) < (if i = n then 2 * r m else 2 * r i + 1)"
      using assms(4,6) out unfolding l by (auto dest: r)
    show "j < length (chain_node ns m n)"
      using ij chainedD(1) [OF assms(1)] assms(3) unfolding l by (auto simp: chain_node_def Let_def)
    show "i = i'" if "(i', j) \<in> links (chain_node ns m n)" for i'
      using ij that chainedD(2) [OF assms(1)] assms(6) out unfolding l by auto
  qed
qed

lemma reach_chain_node:
  assumes "m < length ns" "n < length ns" "m \<noteq> n" "next_node (ns ! n) = None"
  shows "(links ns)\<^sup>* \<subseteq> (links (chain_node ns m n))\<^sup>*" and "(m, n) \<in> (links (chain_node ns m n))\<^sup>*"
proof -
  let ?l = "links (chain_node ns m n)"
  note l = links_chain_node [OF assms]
  have mn: "(m, n) \<in> ?l" unfolding l by simp
  then show "(m, n) \<in> ?l\<^sup>*" by simp
  have "(i, j) \<in> ?l\<^sup>*" if "(i, j) \<in> links ns" for i j
  proof (cases "i = m")
    case True
    with that have "(n, j) \<in> ?l" unfolding l by auto
    with mn True show ?thesis by (meson r_into_rtrancl rtrancl_trans)
  next
    case False
    with that show ?thesis unfolding l by auto
  qed
  then have "links ns \<subseteq> ?l\<^sup>*" by auto
  then show "(links ns)\<^sup>* \<subseteq> ?l\<^sup>*" by (metis rtrancl_idemp rtrancl_mono)
qed

lemma put_behind_home:
  assumes ok: "nodes_ok mp ns" and m: "m = mp k" "m < length ns" "present (i_key (ns ! m))" "mp (i_key (ns ! m)) = m"
    and n: "n < length ns" "i_key (ns ! n) = Nil"
    and k: "present k" "\<And>j. j < length ns \<Longrightarrow> \<not> luaO_rawequalObj (i_key (ns ! j)) k"
  defines "ns1 \<equiv> chain_node ns m n"
  defines "ns2 \<equiv> ns1[n := (ns1 ! n)\<lparr>i_key := k\<rparr>]"
  shows "nodes_ok mp ns2" and "entries ns2 = entries ns" and "length ns2 = length ns"
    and "\<And>i. i < length ns \<Longrightarrow> i_key (ns2 ! i) = (if i = n then k else i_key (ns ! i))"
    and "\<And>i. i < length ns \<Longrightarrow> i_val (ns2 ! i) = i_val (ns ! i)"
proof -
  have mn: "m \<noteq> n" using m(3) n(2) by auto
  note free = ok_free [OF ok n]
  have out: "next_node (ns ! n) = None" and into: "(j, n) \<notin> links ns" for j using free by auto
  have val_n: "i_val (ns ! n) = None" using ok_dead [OF ok n(1)] n(2) by simp
  show len: "length ns2 = length ns" by (simp add: ns1_def ns2_def chain_node_def Let_def)
  show key: "i_key (ns2 ! i) = (if i = n then k else i_key (ns ! i))" if "i < length ns" for i
    using that m(2) n(1) by (auto simp: ns1_def ns2_def chain_node_def Let_def nth_list_update)
  show val: "i_val (ns2 ! i) = i_val (ns ! i)" if "i < length ns" for i
    using that m(2) n(1) by (auto simp: ns1_def ns2_def chain_node_def Let_def nth_list_update)
  have nxt: "next_node (ns2 ! i) = next_node (ns1 ! i)" if "i < length ns" for i
    using that m(2) n(1) by (auto simp: ns1_def ns2_def chain_node_def Let_def nth_list_update)
  have len1: "length ns1 = length ns" by (simp add: ns1_def chain_node_def Let_def)
  have links: "links ns2 = links ns1" using nxt by (auto simp: links_def len len1)
  note l = links_chain_node [OF m(2) n(1) mn out, folded ns1_def]
  note reach = reach_chain_node [OF m(2) n(1) mn out, folded ns1_def]
  have neq: "\<not> luaO_rawequalObj k (i_key (ns ! j))" if "j < length ns" for j
    using k(2) [OF that] rawequal_sym by blast
  show "entries ns2 = entries ns" 
    by (rule entries_cong) (use val_n len key val in auto)
  show "nodes_ok mp ns2"
  proof (rule nodes_okI, unfold len links)
    have "chained ns1" unfolding ns1_def by (rule chained_chain_node [OF ok_chained [OF ok] m(2) n(1) mn out into])
    then show "chained ns2" by (simp add: chained_def links len len1)
  next
    fix i assume i: "i < length ns"
    show "present (i_key (ns2 ! i)) \<or> i_key (ns2 ! i) = Nil \<or> (\<exists>a. i_key (ns2 ! i) = DeadKey a)"
      using ok_kinds [OF ok i] k(1) by (simp add: key i)
    show "\<not> present (i_key (ns2 ! i)) \<Longrightarrow> i_val (ns2 ! i) = None"
      using ok_dead [OF ok i] k(1) by (simp add: key val i split: if_splits)
    show "i_key (ns2 ! i) = Nil \<Longrightarrow> next_node (ns2 ! i) = None"
      using ok_free [OF ok i] k(1) m(2,3) n(1) i
      by (auto simp: key nxt ns1_def chain_node_def Let_def nth_list_update split: if_splits)
    show "i_key (ns2 ! i) = Nil \<Longrightarrow> (j, i) \<notin> links ns1" for j
      using ok_free [OF ok i] k(1) unfolding l by (auto simp: key i split: if_splits)
    show "present (i_key (ns2 ! i)) \<Longrightarrow> (mp (i_key (ns2 ! i)), i) \<in> (links ns1)\<^sup>*"
      using ok_reach [OF ok i] reach m(1) by (auto simp: key i split: if_splits)
    show "i_key (ns2 ! q) \<noteq> Nil \<and> (present (i_key (ns2 ! q)) \<longrightarrow> mp (i_key (ns2 ! q)) = q)"
      if "present (i_key (ns2 ! i))" "mp (i_key (ns2 ! i)) = q" "q \<noteq> i" for q
    proof (cases "i = n")
      case True
      with that m(1) key [OF n(1)] have "q = m" by simp
      with m mn key [OF m(2)] show ?thesis by auto
    next
      case False
      with that have h: "i_key (ns ! q) \<noteq> Nil \<and> (present (i_key (ns ! q)) \<longrightarrow> mp (i_key (ns ! q)) = q)"
        using ok_home [OF ok i, of q] by (simp add: key i)
      have "(q, i) \<in> (links ns)\<^sup>*" using that False ok_reach [OF ok i] by (auto simp: key i)
      from reach_start [OF this that(3)] have "q < length ns" .
      with h n show ?thesis by (auto simp: key)
    qed
    show "i = j" if "j < length ns" "present (i_key (ns2 ! i))" "luaO_rawequalObj (i_key (ns2 ! i)) (i_key (ns2 ! j))" for j
      using that ok_unique [OF ok i that(1)] k(2) [OF i] neq [OF that(1)] by (simp add: key i split: if_splits)
  qed
qed

text \<open>A key that is not at home leaves the node for a free one.\<close>

lemma put_after_move:
  assumes ok: "nodes_ok mp ns" and m: "m = mp k" "m < length ns" "present (i_key (ns ! m))" "mp (i_key (ns ! m)) \<noteq> m"
    and p: "(p, m) \<in> links ns" and n: "n < length ns" "i_key (ns ! n) = Nil"
    and k: "present k" "\<And>j. j < length ns \<Longrightarrow> \<not> luaO_rawequalObj (i_key (ns ! j)) k"
  defines "ns1 \<equiv> move_node ns p m n"
  defines "ns2 \<equiv> ns1[m := (ns1 ! m)\<lparr>i_key := k\<rparr>]"
  shows "nodes_ok mp ns2" and "entries ns2 = entries ns" and "length ns2 = length ns"
    and "\<And>i. i < length ns \<Longrightarrow> i_key (ns2 ! i) = (if i = m then k else if i = n then i_key (ns ! m) else i_key (ns ! i))"
    and "\<And>i. i < length ns \<Longrightarrow> i_val (ns2 ! i) = (if i = m then None else if i = n then i_val (ns ! m) else i_val (ns ! i))"
proof -
  have mn: "m \<noteq> n" using m(3) n(2) by auto
  have out: "(n, j) \<notin> links ns" and into: "(j, n) \<notin> links ns" for j using ok_free [OF ok n] by (auto simp: links_def)
  obtain r :: "nat \<Rightarrow> nat" where r: "\<And>i j. (i, j) \<in> links ns \<Longrightarrow> r j < r i"
    using chained_rank [OF ok_chained [OF ok]] by blast
  have pm: "p \<noteq> m" "p \<noteq> n" "p < length ns" using r [OF p] p out by (auto simp: links_def)
  have val_n: "i_val (ns ! n) = None" using ok_dead [OF ok n(1)] n(2) by simp
  show len: "length ns2 = length ns" by (simp add: ns1_def ns2_def move_node_def Let_def)
  show key: "i_key (ns2 ! i) = (if i = m then k else if i = n then i_key (ns ! m) else i_key (ns ! i))" if "i < length ns" for i
    using that m(2) n(1) pm mn by (auto simp: ns1_def ns2_def move_node_def Let_def nth_list_update)
  show val: "i_val (ns2 ! i) = (if i = m then None else if i = n then i_val (ns ! m) else i_val (ns ! i))" if "i < length ns" for i
    using that m(2) n(1) pm mn by (auto simp: ns1_def ns2_def move_node_def Let_def nth_list_update)
  have nxt: "next_node (ns2 ! i) = (if i = m then None else if i = n then next_node (ns ! m) else if i = p then Some n
      else next_node (ns ! i))" if "i < length ns" for i
    using that m(2) n(1) pm mn by (auto simp: ns1_def ns2_def move_node_def Let_def nth_list_update)
  define to where "to = (\<lambda>i. if i = m then n else i)"
  note inj = chainedD(2) [OF ok_chained [OF ok]] and bd = chainedD(1) [OF ok_chained [OF ok]]
  have links: "(i, j) \<in> links ns2 \<longleftrightarrow> (\<exists>i' j'. i = to i' \<and> j = to j' \<and> (i', j') \<in> links ns)" for i j
  proof
    assume "(i, j) \<in> links ns2"
    then have i: "i < length ns" "next_node (ns2 ! i) = Some j" by (simp_all add: links_def len)
    with nxt have im: "i \<noteq> m" by auto
    consider "i = n" "(m, j) \<in> links ns" | "i = p" "j = n" | "i \<noteq> n" "i \<noteq> p" "(i, j) \<in> links ns"
      using i im nxt [OF i(1)] m(2) by (auto simp: links_def split: if_splits)
    then show "\<exists>i' j'. i = to i' \<and> j = to j' \<and> (i', j') \<in> links ns"
    proof cases
      case 1
      moreover from this r [of m j] have "j \<noteq> m" by auto
      ultimately show ?thesis by (intro exI [of _ m] exI [of _ j]) (simp add: to_def)
    next
      case 2
      with p pm show ?thesis by (intro exI [of _ p] exI [of _ m]) (simp add: to_def)
    next
      case 3
      moreover from this inj [of i m p] p have "j \<noteq> m" by auto
      ultimately show ?thesis using im by (intro exI [of _ i] exI [of _ j]) (simp add: to_def)
    qed
  next
    assume "\<exists>i' j'. i = to i' \<and> j = to j' \<and> (i', j') \<in> links ns"
    then obtain i' j' where i': "i = to i'" "j = to j'" "(i', j') \<in> links ns" by blast
    then have b: "i' < length ns" "next_node (ns ! i') = Some j'" "i' \<noteq> n" using out by (auto simp: links_def)
    show "(i, j) \<in> links ns2"
    proof (cases "i' = p")
      case True
      with b p have "j' = m" by (simp add: links_def)
      with True i'(1,2) nxt [OF pm(3)] pm show ?thesis by (simp add: links_def len to_def)
    next
      case False
      with inj [of i' m p] i'(3) p have "j' \<noteq> m" by auto
      with False i'(1,2) b nxt [OF b(1)] nxt [OF n(1)] n(1) mn show ?thesis by (auto simp: links_def len to_def)
    qed
  qed
  have reach: "(to i, to j) \<in> (links ns2)\<^sup>*" if "(i, j) \<in> (links ns)\<^sup>*" for i j
    using that by (induction rule: rtrancl_induct) (use links in \<open>blast intro: rtrancl_into_rtrancl\<close>)+
  have home: "q = i" if "i < length ns" "present (i_key (ns ! i))" "mp (i_key (ns ! i)) = q" "q = m" for i q
    using ok_home [OF ok that(1-3)] that(4) m(3,4) by auto
  show "entries ns2 = entries ns"
  proof -
    have "(\<exists>i < length ns. i_key (ns2 ! i) = a \<and> i_val (ns2 ! i) = Some v) \<longleftrightarrow>
        (\<exists>i < length ns. i_key (ns ! i) = a \<and> i_val (ns ! i) = Some v)" (is "?l \<longleftrightarrow> ?r") for a v
    proof
      assume ?l
      then obtain i where "i < length ns" "i_key (ns2 ! i) = a" "i_val (ns2 ! i) = Some v" by blast
      then show ?r using m(2) by (cases "i = n") (auto simp: key val split: if_splits)
    next
      assume ?r
      then obtain i where i: "i < length ns" "i_key (ns ! i) = a" "i_val (ns ! i) = Some v" by blast
      then have "to i < length ns" "i \<noteq> n" "to i \<noteq> m" using n(1) val_n mn by (auto simp: to_def)
      with i show ?l by (intro exI [of _ "to i"]) (auto simp: key val to_def)
    qed
    then show ?thesis by (simp add: entries_def len)
  qed
  show "nodes_ok mp ns2"
  proof (rule nodes_okI, unfold len)
    show "chained ns2"
    proof (rule chainedI [where r = "\<lambda>i. if i = n then r m else r i"])
      fix i j assume "(i, j) \<in> links ns2"
      then obtain i' j' where i': "i = to i'" "j = to j'" "(i', j') \<in> links ns" using links by blast
      then show "j < length ns2" using bd [OF i'(3)] n(1) by (simp add: to_def len)
      show "(if j = n then r m else r j) < (if i = n then r m else r i)"
        using i' r [OF i'(3)] out into by (auto simp: to_def)
      fix i2 assume "(i2, j) \<in> links ns2"
      then obtain i3 j3 where i3: "i2 = to i3" "j = to j3" "(i3, j3) \<in> links ns" using links by blast
      with i' into have "j3 = j'" by (auto simp: to_def split: if_splits)
      with inj [OF i'(3)] i3 i' show "i = i2" by auto
    qed
  next
    fix i assume i: "i < length ns"
    show "present (i_key (ns2 ! i)) \<or> i_key (ns2 ! i) = Nil \<or> (\<exists>a. i_key (ns2 ! i) = DeadKey a)"
      using ok_kinds [OF ok i] k(1) m(3) by (simp add: key i)
    show "\<not> present (i_key (ns2 ! i)) \<Longrightarrow> i_val (ns2 ! i) = None"
      using ok_dead [OF ok i] k(1) m(3) by (simp add: key val i split: if_splits)
    show "next_node (ns2 ! i) = None" if "i_key (ns2 ! i) = Nil"
    proof -
      from that k(1) m(3) have "i \<noteq> m" "i \<noteq> n" "i_key (ns ! i) = Nil" by (auto simp: key i split: if_splits)
      moreover from this ok_free [OF ok i] have "i \<noteq> p" using p by (auto simp: links_def)
      ultimately show ?thesis using ok_free [OF ok i] by (simp add: nxt i)
    qed
    show "(j, i) \<notin> links ns2" if "i_key (ns2 ! i) = Nil" for j
    proof -
      from that k(1) m(3) have "i \<noteq> m" "i \<noteq> n" "i_key (ns ! i) = Nil" by (auto simp: key i split: if_splits)
      with ok_free [OF ok i] show ?thesis by (auto simp: links to_def)
    qed
    show "(mp (i_key (ns2 ! i)), i) \<in> (links ns2)\<^sup>*" if "present (i_key (ns2 ! i))"
    proof -
      consider "i = m" | "i = n" "i \<noteq> m" | "i \<noteq> m" "i \<noteq> n" by blast
      then show ?thesis
      proof cases
        case 1
        with m(1) key [OF m(2)] show ?thesis by simp
      next
        case 2
        with reach [OF ok_reach [OF ok m(2,3)]] m(4) key [OF n(1)] show ?thesis by (simp add: to_def)
      next
        case 3
        with that have pi: "present (i_key (ns ! i))" by (simp add: key i)
        from home [OF i this refl] 3(1) have "mp (i_key (ns ! i)) \<noteq> m" by metis
        with reach [OF ok_reach [OF ok i pi]] 3 show ?thesis by (simp add: key i to_def)
      qed
    qed
    show "i_key (ns2 ! q) \<noteq> Nil \<and> (present (i_key (ns2 ! q)) \<longrightarrow> mp (i_key (ns2 ! q)) = q)"
      if q: "present (i_key (ns2 ! i))" "mp (i_key (ns2 ! i)) = q" "q \<noteq> i" for q
    proof (cases "q = m")
      case True
      with m(1,2) k(1) show ?thesis by (auto simp: key)
    next
      case False
      define i0 where "i0 = (if i = n then m else i)"
      have i0: "i0 < length ns" "present (i_key (ns ! i0))" "mp (i_key (ns ! i0)) = q" "q \<noteq> i0"
        using q m(1,2) False i by (auto simp: i0_def key split: if_splits)
      have h: "i_key (ns ! q) \<noteq> Nil \<and> (present (i_key (ns ! q)) \<longrightarrow> mp (i_key (ns ! q)) = q)"
        by (rule ok_home [OF ok i0])
      have "q < length ns" using ok_reach [OF ok i0(1,2)] i0(3,4) reach_start by blast
      with h False n(2) show ?thesis by (auto simp: key)
    qed
    show "i = j" if j: "j < length ns" "present (i_key (ns2 ! i))" "luaO_rawequalObj (i_key (ns2 ! i)) (i_key (ns2 ! j))" for j
    proof -
      have neq: "\<not> luaO_rawequalObj k (i_key (ns ! j))" if "j < length ns" for j
        using k(2) [OF that] rawequal_sym by blast
      have "i_key (ns ! n) = Nil" by (rule n(2))
      define old where "old = (\<lambda>i. if i = n then m else i)"
      have o: "old i < length ns" "i \<noteq> m \<Longrightarrow> i_key (ns2 ! i) = i_key (ns ! old i)" if "i < length ns" for i
        using that m(2) by (auto simp: old_def key)
      show ?thesis
      proof (cases "i = m \<or> j = m")
        case True
        with j o [OF i] o [OF j(1)] key [OF m(2)] neq [of "old j"] k(2) [of "old i"] show ?thesis by metis
      next
        case False
        with j o [OF i] o [OF j(1)] ok_unique [OF ok] have "old i = old j" by auto
        with False show ?thesis by (auto simp: old_def split: if_splits)
      qed
    qed
  qed
qed

end

interpretation main: hashing "mainposition h (2 ^ l)" "2 ^ l" for h l
  by unfold_locales (rule mainposition_less, rule mainposition_rawequal)

section \<open>Tables\<close>

definition MAXBITS :: nat where
  "MAXBITS = 26"

definition MAXASIZE :: nat where
  "MAXASIZE = 2 ^ MAXBITS"

definition in_array :: "'v Table \<Rightarrow> key \<Rightarrow> bool" where
  "in_array t k \<longleftrightarrow> 0 < arrayindex k \<and> arrayindex k \<le> int (sizearray t)"

text \<open>The invariant: the nodes at and above \<open>lastfree\<close> have been used.\<close>

definition table_ok :: "(64 word \<Rightarrow> 32 word) \<Rightarrow> 'v Table \<Rightarrow> bool" where
  "table_ok h t \<longleftrightarrow>
     sizearray t \<le> length (array t) \<and> sizearray t \<le> MAXASIZE \<and>
     length (node t) = 2 ^ lsizenode t \<and> lsizenode t \<le> MAXBITS \<and>
     nodes_ok (mainposition h (2 ^ lsizenode t)) (node t) \<and>
     (if is_dummy t then lsizenode t = 0 \<and> i_key (node t ! 0) = Nil \<and> lastfree t \<le> 0
      else lastfree t \<le> 2 ^ lsizenode t \<and> (\<forall>i < length (node t). lastfree t \<le> int i \<longrightarrow> i_key (node t ! i) \<noteq> Nil)) \<and>
     (\<forall>i < length (node t). \<not> in_array t (i_key (node t ! i)))"

lemma table_okD:
  assumes "table_ok h t"
  shows ok_array: "sizearray t \<le> length (array t)" "sizearray t \<le> MAXASIZE"
    and ok_length: "length (node t) = 2 ^ lsizenode t" "lsizenode t \<le> MAXBITS"
    and ok_nodes: "nodes_ok (mainposition h (2 ^ lsizenode t)) (node t)"
    and ok_dummy: "is_dummy t \<Longrightarrow> lsizenode t = 0 \<and> i_key (node t ! 0) = Nil \<and> lastfree t \<le> 0"
    and ok_lastfree: "\<not> is_dummy t \<Longrightarrow> lastfree t \<le> 2 ^ lsizenode t"
      "\<not> is_dummy t \<Longrightarrow> i < length (node t) \<Longrightarrow> lastfree t \<le> int i \<Longrightarrow> i_key (node t ! i) \<noteq> Nil"
    and ok_split: "i < length (node t) \<Longrightarrow> \<not> in_array t (i_key (node t ! i))"
  using assms unfolding table_ok_def by (auto split: if_splits)

text \<open>The value of a key.\<close>

definition node_value :: "'v Node list \<Rightarrow> key \<Rightarrow> 'v option" where
  "node_value ns k = (case find (\<lambda>n. luaO_rawequalObj (i_key n) k) ns of None \<Rightarrow> None | Some n \<Rightarrow> i_val n)"

definition contents :: "'v Table \<Rightarrow> key \<Rightarrow> 'v option" where
  "contents t k = (if in_array t k then array t ! nat (arrayindex k - 1) else node_value (node t) k)"

lemma node_value_at:
  assumes "nodes_ok mp ns" "j < length ns" "luaO_rawequalObj (i_key (ns ! j)) k" "present k"
  shows "node_value ns k = i_val (ns ! j)"
proof -
  obtain i where i: "find (\<lambda>n. luaO_rawequalObj (i_key n) k) ns = Some (ns ! i)" "i < length ns"
    "luaO_rawequalObj (i_key (ns ! i)) k"
    using assms(2,3) by (cases "find (\<lambda>n. luaO_rawequalObj (i_key n) k) ns")
      (auto simp: find_None_iff find_Some_iff)
  have "luaO_rawequalObj (i_key (ns ! i)) (i_key (ns ! j))" using i(3) assms(3) rawequal_sym rawequal_trans by blast
  moreover have "present (i_key (ns ! i))" using i(3) assms(4) rawequal_present by blast
  ultimately have "i = j" using ok_unique [OF assms(1) i(2) assms(2)] by blast
  with i(1) show ?thesis by (simp add: node_value_def)
qed

lemma node_value_absent:
  assumes "\<And>j. j < length ns \<Longrightarrow> \<not> luaO_rawequalObj (i_key (ns ! j)) k"
  shows "node_value ns k = None"
proof -
  have "find (\<lambda>n. luaO_rawequalObj (i_key n) k) ns = None" using assms by (auto simp: find_None_iff in_set_conv_nth)
  then show ?thesis by (simp add: node_value_def)
qed

lemma node_value_entries:
  assumes "nodes_ok mp ns" "present k"
  shows "node_value ns k = Some v \<longleftrightarrow> (\<exists>k'. luaO_rawequalObj k' k \<and> (k', v) \<in> entries ns)"
proof
  assume v: "node_value ns k = Some v"
  then obtain j where j: "j < length ns" "luaO_rawequalObj (i_key (ns ! j)) k" using node_value_absent by fastforce
  with v node_value_at [OF assms(1) j assms(2)] show "\<exists>k'. luaO_rawequalObj k' k \<and> (k', v) \<in> entries ns"
    by (auto simp: entries_def)
next
  assume "\<exists>k'. luaO_rawequalObj k' k \<and> (k', v) \<in> entries ns"
  then obtain i where "i < length ns" "luaO_rawequalObj (i_key (ns ! i)) k" "i_val (ns ! i) = Some v"
    by (auto simp: entries_def)
  with node_value_at [OF assms(1) _ _ assms(2)] show "node_value ns k = Some v" by metis
qed

lemma node_value_rawequal: "luaO_rawequalObj k k' \<Longrightarrow> node_value ns k = node_value ns k'"
proof -
  assume "luaO_rawequalObj k k'"
  then have "luaO_rawequalObj x k \<longleftrightarrow> luaO_rawequalObj x k'" for x by (meson rawequal_sym rawequal_trans)
  then show ?thesis by (simp add: node_value_def)
qed

lemma contents_rawequal: "luaO_rawequalObj k k' \<Longrightarrow> contents t k = contents t k'"
  by (simp add: contents_def in_array_def arrayindex_rawequal node_value_rawequal)

lemma unsigned_index:
  assumes "- (2 ^ 31) \<le> k" "k < 2 ^ 31" "s \<le> MAXASIZE"
  shows "unat (word_of_int (k - 1) :: 32 word) < s \<longleftrightarrow> 0 < k \<and> k \<le> int s"
proof (cases "0 < k")
  have len: "2 ^ LENGTH(32) = (2 ^ 32 :: int)" by simp
  case True
  with assms(2) have "(k - 1) mod 2 ^ 32 = k - 1" by (intro mod_pos_pos_trivial) auto
  then have "uint (word_of_int (k - 1) :: 32 word) = k - 1" by (simp only: uint_word_of_int) simp
  then have "unat (word_of_int (k - 1) :: 32 word) = nat (k - 1)" by (simp only: unat_eq_nat_uint)
  with True show ?thesis by auto
next
  have len: "2 ^ LENGTH(32) = (2 ^ 32 :: int)" by simp
  case False
  have "(k - 1) mod 2 ^ 32 = (k - 1 + 2 ^ 32) mod 2 ^ 32" by (simp only: mod_add_self2)
  also have "\<dots> = k - 1 + 2 ^ 32" using False assms(1) by (intro mod_pos_pos_trivial) auto
  finally have "uint (word_of_int (k - 1) :: 32 word) = k - 1 + 2 ^ 32" 
    using len by (simp only: uint_word_of_int)
  then have "unat (word_of_int (k - 1) :: 32 word) = nat (k - 1 + 2 ^ 32)" by (simp only: unat_eq_nat_uint)
  with False assms show ?thesis by (simp add: MAXASIZE_def MAXBITS_def)
qed

lemma luaH_getnum_eq:
  assumes "- (2 ^ 31) \<le> i" "i < 2 ^ 31" "sizearray t \<le> MAXASIZE" "luaO_rawequalObj k (Number (cast_num i))"
  shows "luaH_getnum t i =
     (if in_array t k then Inr (Some (ArraySlot (nat (arrayindex k - 1))))
      else search_chain t (\<lambda>k'. luaO_rawequalObj k' k) (mainposition h (sizenode t) k))"
proof -
  have a: "arrayindex k = i" using arrayindex_rawequal [OF assms(4)] assms(1,2) by (simp add: arrayindex_cast)
  have "(case k' of Number n \<Rightarrow> luai_numeq n (cast_num i) | _ \<Rightarrow> False) = luaO_rawequalObj k' k" for k'
  proof -
    have "luaO_rawequalObj k' k \<longleftrightarrow> luaO_rawequalObj k' (Number (cast_num i))"
      using assms(4) by (meson rawequal_sym rawequal_trans)
    then show ?thesis by (cases k') simp_all
  qed
  then have s: "(\<lambda>k'. case k' of Number n \<Rightarrow> luai_numeq n (cast_num i) | _ \<Rightarrow> False) = (\<lambda>k'. luaO_rawequalObj k' k)"
    by auto
  have "hashnum (sizenode t) (cast_num i) = mainposition h (sizenode t) k"
    using mainposition_rawequal [OF assms(4)] by simp
  with s a show ?thesis
    using unsigned_index [OF assms(1-3)] by (simp add: luaH_getnum_def in_array_def)
qed

lemma luaH_get_eq:
  assumes "k \<noteq> Nil" "sizearray t \<le> MAXASIZE"
  shows "luaH_get h t k =
     (if in_array t k then Inr (Some (ArraySlot (nat (arrayindex k - 1))))
      else search_chain t (\<lambda>k'. luaO_rawequalObj k' k) (mainposition h (sizenode t) k))"
proof (cases k)
  case (Number n)
  show ?thesis
  proof (cases "luai_numeq (cast_num (lua_number2int n)) n")
    case True
    have r: "- (2 ^ 31) \<le> lua_number2int n" "lua_number2int n < 2 ^ 31"
      by (simp_all add: lua_number2int_def Let_def)
    have "luaO_rawequalObj k (Number (cast_num (lua_number2int n)))" using True Number by (simp add: numeq_sym)
    from luaH_getnum_eq [OF r assms(2) this] True Number show ?thesis by (simp add: luaH_get_def)
  qed (use Number in \<open>simp add: luaH_get_def in_array_def arrayindex_def\<close>)
next
  case (Str a)
  have "luaO_rawequalObj k' k \<longleftrightarrow> k' = Str a" for k' using Str by (cases k') simp_all
  with Str show ?thesis by (simp add: luaH_get_def luaH_getstr_def in_array_def arrayindex_def)
qed (use assms(1) in \<open>simp_all add: luaH_get_def in_array_def arrayindex_def\<close>)

text \<open>Searching never fails, and finds the place of every key.\<close>

lemma luaH_get_cases:
  assumes ok: "table_ok h t" and "k \<noteq> Nil"
  obtains (array) "in_array t k" "luaH_get h t k = Inr (Some (ArraySlot (nat (arrayindex k - 1))))"
  | (node) j where "\<not> in_array t k" "luaH_get h t k = Inr (Some (NodeSlot j))" "j < length (node t)"
      "luaO_rawequalObj (i_key (node t ! j)) k"
  | (none) "\<not> in_array t k" "luaH_get h t k = Inr None"
      "\<And>j. present k \<Longrightarrow> j < length (node t) \<Longrightarrow> \<not> luaO_rawequalObj (i_key (node t ! j)) k"
proof (cases "in_array t k")
  case True
  with luaH_get_eq [OF assms(2) ok_array(2) [OF ok]] array show ?thesis by simp
next
  case False
  with luaH_get_eq [OF assms(2) ok_array(2) [OF ok]] have
    e: "luaH_get h t k = search_chain t (\<lambda>k'. luaO_rawequalObj k' k) (mainposition h (2 ^ lsizenode t) k)"
    by (simp add: sizenode_def)
  show ?thesis
    by (rule main.search_key [OF ok_nodes [OF ok] ok_length(1) [OF ok], of k])
      (use False e node none in \<open>auto simp: search_chain_def\<close>)
qed

lemma rawget_contents:
  assumes ok: "table_ok h t" and "present k"
  shows "lua_rawget h t k = Inr (contents t k)"
proof -
  have "k \<noteq> Nil" using assms(2) by auto
  from ok this show ?thesis
  proof (cases rule: luaH_get_cases)
    case array
    moreover from this ok_array(1) [OF ok] have "nat (arrayindex k - 1) < length (array t)" by (auto simp: in_array_def)
    ultimately show ?thesis by (simp add: lua_rawget_def contents_def)
  next
    case (node j)
    with node_value_at [OF ok_nodes [OF ok] node(3,4) assms(2)] show ?thesis by (simp add: lua_rawget_def contents_def)
  next
    case none
    with node_value_absent [of "node t" k] assms(2) show ?thesis by (simp add: lua_rawget_def contents_def)
  qed
qed

section \<open>Inserting\<close>

lemma freepos_loop_cases:
  assumes "n \<le> length ns"
  shows "(\<exists>i < n. freepos_loop ns n = Inr (Some i, int i) \<and> i_key (ns ! i) = Nil \<and> (\<forall>j. i < j \<and> j < n \<longrightarrow> i_key (ns ! j) \<noteq> Nil)) \<or>
     freepos_loop ns n = Inr (None, - 1) \<and> (\<forall>j < n. i_key (ns ! j) \<noteq> Nil)"
  using assms
proof (induction n)
  case (Suc n)
  then have n: "n < length ns" by simp
  show ?case
  proof (cases "i_key (ns ! n) = Nil")
    case True
    with n show ?thesis by (intro disjI1 exI [of _ n]) auto
  next
    case False
    with Suc n show ?thesis by (auto simp: less_Suc_eq)
  qed
qed simp

lemma getfreepos_cases:
  assumes ok: "table_ok h t"
  obtains (free) n where "getfreepos t = Inr (Some n, t\<lparr>lastfree := int n\<rparr>)" "\<not> is_dummy t" "n < length (node t)"
      "i_key (node t ! n) = Nil" "\<And>i. n < i \<Longrightarrow> i < length (node t) \<Longrightarrow> i_key (node t ! i) \<noteq> Nil"
  | (full) f where "getfreepos t = Inr (None, t\<lparr>lastfree := f\<rparr>)" "f \<le> 0"
      "is_dummy t \<or> used (node t) = {..<length (node t)}"
proof (cases "lastfree t \<le> 0")
  case True
  have "used (node t) = {..<length (node t)}" if "\<not> is_dummy t"
    using ok_lastfree(2) [OF ok that] True by (force simp: used_def)
  with True show ?thesis by (intro full [of "lastfree t - 1"]) (auto simp: getfreepos_def)
next
  case False
  with ok_dummy [OF ok] have d: "\<not> is_dummy t" by auto
  define n where "n = nat (lastfree t)"
  have n: "n \<le> length (node t)" "lastfree t = int n"
    using ok_lastfree(1) [OF ok d] ok_length(1) [OF ok] False by (simp_all add: n_def nat_le_iff)
  have high: "i_key (node t ! i) \<noteq> Nil" if "n \<le> i" "i < length (node t)" for i
    using ok_lastfree(2) [OF ok d that(2)] that(1) n(2) by simp
  from freepos_loop_cases [OF n(1)] show ?thesis
  proof (elim disjE exE conjE)
    fix i assume i: "i < n" "freepos_loop (node t) n = Inr (Some i, int i)" "i_key (node t ! i) = Nil"
      "\<forall>j. i < j \<and> j < n \<longrightarrow> i_key (node t ! j) \<noteq> Nil"
    show ?thesis
    proof (rule free [of i])
      show "getfreepos t = Inr (Some i, t\<lparr>lastfree := int i\<rparr>)" using False i(2) by (simp add: getfreepos_def n_def)
      show "i_key (node t ! j) \<noteq> Nil" if "i < j" "j < length (node t)" for j
        using that high i(4) by (cases "j < n") auto
    qed (use d i n in auto)
  next
    assume a: "freepos_loop (node t) n = Inr (None, - 1)" "\<forall>j < n. i_key (node t ! j) \<noteq> Nil"
    then have "i_key (node t ! i) \<noteq> Nil" if "i < length (node t)" for i
      using that high by (cases "i < n") auto
    then have "used (node t) = {..<length (node t)}" by (auto simp: used_def)
    with a(1) False show ?thesis by (intro full [of "- 1"]) (auto simp: getfreepos_def n_def)
  qed
qed

text \<open>The outcome of an insertion when no growth is needed.\<close>

definition inserted :: "(64 word \<Rightarrow> 32 word) \<Rightarrow> 'v Table \<Rightarrow> key \<Rightarrow> 'v Table \<times> slot \<Rightarrow> bool" where
  "inserted h t k r \<longleftrightarrow>
     (\<exists>t' j. r = (t', NodeSlot j) \<and> table_ok h t' \<and> array t' = array t \<and> sizearray t' = sizearray t \<and>
        lsizenode t' = lsizenode t \<and> is_dummy t' = is_dummy t \<and> j < length (node t) \<and> i_key (node t' ! j) = k \<and>
        i_val (node t' ! j) = None \<and> entries (node t') = entries (node t) \<and>
        card (used (node t')) \<le> Suc (card (used (node t))))"

lemma used_insert:
  assumes "used ns' \<subseteq> insert j (used ns)"
  shows "card (used ns') \<le> Suc (card (used ns))"
proof -
  have f: "finite (used ns)" by (simp add: used_def)
  then have "card (used ns') \<le> card (insert j (used ns))" using assms by (intro card_mono) simp_all
  also have "\<dots> \<le> Suc (card (used ns))" by (rule card_insert_le_m1) simp_all
  finally show ?thesis .
qed

lemma insertedI:
  assumes ok: "table_ok h t" and d: "\<not> is_dummy t" and k: "present k" "\<not> in_array t k" and j: "j < length (node t)"
    and nodes: "nodes_ok (mainposition h (2 ^ lsizenode t)) ns" "entries ns = entries (node t)" "length ns = length (node t)"
    and key: "\<And>i. i < length (node t) \<Longrightarrow> i_key (ns ! i) \<noteq> Nil \<Longrightarrow> i_key (ns ! i) = k \<or> i_key (ns ! i) \<in> i_key ` set (node t)"
    and at: "i_key (ns ! j) = k" "i_val (ns ! j) = None"
    and used: "used ns \<subseteq> insert q (used (node t))" "used (node t) \<subseteq> used ns"
    and f: "f \<le> 2 ^ lsizenode t" "\<And>i. i < length (node t) \<Longrightarrow> f \<le> int i \<Longrightarrow> i_key (ns ! i) \<noteq> Nil"
  shows "inserted h t k (t\<lparr>lastfree := f, node := ns\<rparr>, NodeSlot j)"
proof -
  have "\<not> in_array t (i_key (ns ! i))" if "i < length (node t)" for i
  proof (cases "i_key (ns ! i) = Nil")
    case True
    then show ?thesis by (simp add: in_array_def arrayindex_def)
  next
    case False
    with key [OF that] k(2) ok_split [OF ok] show ?thesis by (auto simp: in_set_conv_nth)
  qed
  then have "table_ok h (t\<lparr>lastfree := f, node := ns\<rparr>)"
    using ok_array [OF ok] ok_length [OF ok] nodes d f by (simp add: table_ok_def in_array_def)
  with j nodes at used_insert [OF used(1)] show ?thesis by (simp add: inserted_def)
qed

lemma newkey_cases:
  assumes ok: "table_ok h t" and k: "present k" "\<not> in_array t k"
    and fresh: "\<And>j. j < length (node t) \<Longrightarrow> \<not> luaO_rawequalObj (i_key (node t ! j)) k"
  obtains (fits) r where "newkey_with grow h t k = Inr r" "inserted h t k r" "\<not> is_dummy t"
  | (grows) f where "newkey_with grow h t k = grow (t\<lparr>lastfree := f\<rparr>) k" "f \<le> 0"
      "is_dummy t \<or> used (node t) = {..<length (node t)}"
proof -
  define m where "m = mainposition h (2 ^ lsizenode t) k"
  note nodes = ok_nodes [OF ok] and len = ok_length(1) [OF ok]
  have m: "m < length (node t)" using mainposition_less by (simp add: m_def len)
  have kNil: "k \<noteq> Nil" using k(1) by auto
  show thesis
  proof (cases "i_val (node t ! m) \<noteq> None \<or> is_dummy t")
    case False
    let ?ns = "(node t)[m := (node t ! m)\<lparr>i_key := k\<rparr>]"
    have r: "newkey_with grow h t k = Inr (t\<lparr>lastfree := lastfree t, node := ?ns\<rparr>, NodeSlot m)"
      using False m by (simp add: newkey_with_def sizenode_def m_def [symmetric] put_key_def)
    have key: "i_key (?ns ! i) = (if i = m then k else i_key (node t ! i))" if "i < length (node t)" for i
      using that m by (auto simp: nth_list_update)
    from False have v: "i_val (node t ! m) = None" and d: "\<not> is_dummy t" by auto
    note put = main.put_at_home [OF nodes _ _ k(1) fresh, folded m_def, OF m v]
    have "inserted h t k (t\<lparr>lastfree := lastfree t, node := ?ns\<rparr>, NodeSlot m)"
    proof (rule insertedI [OF ok d k m put])
      show "used ?ns \<subseteq> insert m (used (node t))" "used (node t) \<subseteq> used ?ns"
        using kNil by (auto simp: used_def key split: if_splits)
      show "i_key (?ns ! i) \<noteq> Nil" if "i < length (node t)" "lastfree t \<le> int i" for i
        using ok_lastfree(2) [OF ok d that] kNil by (simp add: key that)
    qed (use m v ok_lastfree(1) [OF ok d] in \<open>auto simp: key\<close>)
    from fits [OF r this d] show thesis .
  next
    case True
    have nk: "newkey_with grow h t k = bindR (getfreepos t) (\<lambda>(n, u).
            case n of
              None \<Rightarrow> grow u k
            | Some n \<Rightarrow>
                let othern = mainposition h (sizenode u) (i_key (node t ! m)) in
                if othern \<noteq> m then
                  bindR (find_previous (length (node u)) (node u) m othern) (\<lambda>p.
                    Inr (put_key u (move_node (node u) p m n) m k))
                else Inr (put_key u (chain_node (node u) m n) n k))"
      unfolding newkey_with_def Let_def sizenode_def m_def [symmetric]
      by (simp only: nthR_ok [OF m] bindR.simps True if_True simp_thms)
    from ok show thesis
    proof (cases rule: getfreepos_cases)
      case (full f)
      show thesis by (rule grows [of f]) (use full nk in auto)
    next
      case (free n)
      with True have v: "i_val (node t ! m) \<noteq> None" by simp
      then have pm: "present (i_key (node t ! m))" using ok_dead [OF nodes m] by metis
      have mn: "m \<noteq> n" using pm free(4) by auto
      have upper: "i_key (node t ! i) \<noteq> Nil" if "n < i" "i < length (node t)" for i by (rule free(5) [OF that])
      have n_le: "int n \<le> 2 ^ lsizenode t" using free(3) len by simp
      have vn: "i_val (node t ! n) = None" using ok_dead [OF nodes free(3)] free(4) by simp
      let ?o = "mainposition h (2 ^ lsizenode t) (i_key (node t ! m))"
      show thesis
      proof (cases "?o = m")
        case True
        define ns2 where ns2: "ns2 = (chain_node (node t) m n)[n := (chain_node (node t) m n ! n)\<lparr>i_key := k\<rparr>]"
        note put = main.put_behind_home [OF nodes m_def m pm True free(3,4) k(1) fresh, folded ns2]
        have r: "newkey_with grow h t k = Inr (t\<lparr>lastfree := int n, node := ns2\<rparr>, NodeSlot n)"
          using True unfolding nk free(1) by (simp add: put_key_def sizenode_def ns2)
        have "inserted h t k (t\<lparr>lastfree := int n, node := ns2\<rparr>, NodeSlot n)"
        proof (rule insertedI [OF ok free(2) k free(3) put(1-3)])
          show "used ns2 \<subseteq> insert n (used (node t))" "used (node t) \<subseteq> used ns2"
            using kNil free(4) by (auto simp: used_def put(3,4) split: if_splits)
          show "i_key (ns2 ! i) \<noteq> Nil" if "i < length (node t)" "int n \<le> int i" for i
            using that upper [of i] kNil by (cases "i = n") (auto simp: put(4))
        qed (use free(3) vn put(4,5) n_le in auto)
        from fits [OF r this free(2)] show thesis .
      next
        case False
        obtain p where p: "find_previous (length (node t)) (node t) m ?o = Inr p" "(p, m) \<in> links (node t)"
          using find_previous_enough [OF ok_chained [OF nodes] _ reach_card_le [OF ok_chained [OF nodes]] ok_reach [OF nodes m pm] False]
            mainposition_less len by metis
        define ns2 where ns2: "ns2 = (move_node (node t) p m n)[m := (move_node (node t) p m n ! m)\<lparr>i_key := k\<rparr>]"
        note put = main.put_after_move [OF nodes m_def m pm False p(2) free(3,4) k(1) fresh, folded ns2]
        have r: "newkey_with grow h t k = Inr (t\<lparr>lastfree := int n, node := ns2\<rparr>, NodeSlot m)"
          using False p(1) unfolding nk free(1) by (simp add: put_key_def sizenode_def ns2)
        have "inserted h t k (t\<lparr>lastfree := int n, node := ns2\<rparr>, NodeSlot m)"
        proof (rule insertedI [OF ok free(2) k m put(1-3)])
          show "used ns2 \<subseteq> insert n (used (node t))" "used (node t) \<subseteq> used ns2"
            using kNil free(3,4) pm mn by (auto simp: used_def put(3,4) split: if_splits)
          show "i_key (ns2 ! i) \<noteq> Nil" if "i < length (node t)" "int n \<le> int i" for i
            using that upper [of i] kNil pm by (cases "i = n") (auto simp: put(4))
        qed (use m put(4,5) n_le in auto)
        from fits [OF r this free(2)] show thesis .
      qed
    qed
  qed
qed

section \<open>Storing\<close>

lemma store_array:
  fixes t :: "'v Table" and v :: "'v option"
  assumes ok: "table_ok h t" and k: "in_array t k"
  defines "t' \<equiv> t\<lparr>array := (array t)[nat (arrayindex k - 1) := v]\<rparr>"
  shows "set_slot t (ArraySlot (nat (arrayindex k - 1))) v = Inr t'" and "table_ok h t'"
    and "contents t' k' = (if luaO_rawequalObj k k' then v else contents t k')"
proof -
  have i: "nat (arrayindex k - 1) < length (array t)" using k ok_array(1) [OF ok] by (auto simp: in_array_def)
  then show "set_slot t (ArraySlot (nat (arrayindex k - 1))) v = Inr t'" by (simp add: t'_def)
  show "table_ok h t'" using ok by (simp add: table_ok_def t'_def in_array_def)
  have pos: "0 < arrayindex k" using k by (simp add: in_array_def)
  have r: "luaO_rawequalObj k k' \<longleftrightarrow> arrayindex k' = arrayindex k"
  proof
    assume "arrayindex k' = arrayindex k"
    with arrayindex_eq [of k] arrayindex_eq [of k'] pos rawequal_sym rawequal_trans show "luaO_rawequalObj k k'" by metis
  qed (simp add: arrayindex_rawequal)
  have "nat (arrayindex k' - 1) = nat (arrayindex k - 1) \<longleftrightarrow> arrayindex k' = arrayindex k" if "in_array t k'"
    using that pos by (auto simp: in_array_def)
  then show "contents t' k' = (if luaO_rawequalObj k k' then v else contents t k')"
    using i k r by (auto simp: contents_def t'_def in_array_def nth_list_update)
qed

lemma nodes_ok_cong:
  assumes ok: "nodes_ok mp ns" and "length ns' = length ns"
    and "\<And>i. i < length ns \<Longrightarrow> i_key (ns' ! i) = i_key (ns ! i) \<and> next_node (ns' ! i) = next_node (ns ! i)"
    and "\<And>i. i < length ns \<Longrightarrow> \<not> present (i_key (ns ! i)) \<Longrightarrow> i_val (ns' ! i) = None"
  shows "nodes_ok mp ns'"
proof -
  have links: "links ns' = links ns" using assms(2,3) by (auto simp: links_def)
  then have "chained ns'" using ok_chained [OF ok] assms(2) by (simp add: chained_def)
  then show ?thesis
  proof (rule nodes_okI, unfold links assms(2))
    fix i assume i: "i < length ns"
    note same = assms(3) [OF i] assms(4) [OF i]
    show "present (i_key (ns' ! i)) \<or> i_key (ns' ! i) = Nil \<or> (\<exists>a. i_key (ns' ! i) = DeadKey a)"
      "\<not> present (i_key (ns' ! i)) \<Longrightarrow> i_val (ns' ! i) = None"
      "i_key (ns' ! i) = Nil \<Longrightarrow> next_node (ns' ! i) = None"
      "\<And>j. i_key (ns' ! i) = Nil \<Longrightarrow> (j, i) \<notin> links ns"
      "present (i_key (ns' ! i)) \<Longrightarrow> (mp (i_key (ns' ! i)), i) \<in> (links ns)\<^sup>*"
      using same ok_kinds [OF ok i] ok_free [OF ok i] ok_reach [OF ok i] by auto
    show "i_key (ns' ! m) \<noteq> Nil \<and> (present (i_key (ns' ! m)) \<longrightarrow> mp (i_key (ns' ! m)) = m)"
      if "present (i_key (ns' ! i))" "mp (i_key (ns' ! i)) = m" "m \<noteq> i" for m
    proof -
      have p: "present (i_key (ns ! i))" "mp (i_key (ns ! i)) = m" using that same by auto
      with ok_reach [OF ok i] that(3) have "m < length ns" using reach_start by blast
      with ok_home [OF ok i p that(3)] assms(3) show ?thesis by simp
    qed
    show "i = j" if "j < length ns" "present (i_key (ns' ! i))" "luaO_rawequalObj (i_key (ns' ! i)) (i_key (ns' ! j))" for j
      using that same assms(3) [OF that(1)] ok_unique [OF ok i that(1)] by auto
  qed
qed

lemma store_node:
  fixes t :: "'v Table" and v :: "'v option"
  assumes ok: "table_ok h t" and k: "\<not> in_array t k" "present k"
    and j: "j < length (node t)" "luaO_rawequalObj (i_key (node t ! j)) k"
  defines "t' \<equiv> t\<lparr>node := (node t)[j := (node t ! j)\<lparr>i_val := v\<rparr>]\<rparr>"
  shows "set_slot t (NodeSlot j) v = Inr t'" and "table_ok h t'" and "used (node t') = used (node t)"
    and "present k' \<Longrightarrow> contents t' k' = (if luaO_rawequalObj k k' then v else contents t k')"
proof -
  show "set_slot t (NodeSlot j) v = Inr t'" using j(1) by (simp add: t'_def)
  have pj: "present (i_key (node t ! j))" using j(2) k(2) rawequal_present by blast
  have same: "i_key (node t' ! i) = i_key (node t ! i)" "next_node (node t' ! i) = next_node (node t ! i)"
    "i_val (node t' ! i) = (if i = j then v else i_val (node t ! i))" if "i < length (node t)" for i
    using that j(1) by (auto simp: t'_def nth_list_update)
  have len: "length (node t') = length (node t)" by (simp add: t'_def)
  have nodes: "nodes_ok (mainposition h (2 ^ lsizenode t)) (node t')"
    by (rule nodes_ok_cong [OF ok_nodes [OF ok] len]) (use same pj ok_dead [OF ok_nodes [OF ok]] in auto)
  have rest: "array t' = array t" "sizearray t' = sizearray t" "lsizenode t' = lsizenode t" "is_dummy t' = is_dummy t"
    "lastfree t' = lastfree t" by (simp_all add: t'_def)
  have "i_key (node t' ! 0) = i_key (node t ! 0)" using same(1) [of 0] ok_length(1) [OF ok] by simp
  then show "table_ok h t'"
    using ok nodes rest len same(1) unfolding table_ok_def in_array_def by auto
  show "used (node t') = used (node t)" using len same(1) by (auto simp: used_def)
  show "contents t' k' = (if luaO_rawequalObj k k' then v else contents t k')" if p: "present k'"
  proof (cases "luaO_rawequalObj k k'")
    case True
    then have "luaO_rawequalObj (i_key (node t' ! j)) k'" using j same(1) rawequal_trans by metis
    from node_value_at [OF nodes _ this p] j(1) len same(3) have "node_value (node t') k' = v" by simp
    moreover have "\<not> in_array t' k'" using True k(1) arrayindex_rawequal rest by (simp add: in_array_def)
    ultimately show ?thesis using True by (simp add: contents_def)
  next
    case False
    have "node_value (node t') k' = node_value (node t) k'"
    proof (cases "\<exists>i < length (node t). luaO_rawequalObj (i_key (node t ! i)) k'")
      case True
      then obtain i where i: "i < length (node t)" "luaO_rawequalObj (i_key (node t ! i)) k'" by blast
      moreover from this False j(2) have "i \<noteq> j" using rawequal_sym rawequal_trans by blast
      ultimately show ?thesis
        using node_value_at [OF nodes, of i k'] node_value_at [OF ok_nodes [OF ok], of i k'] p same(1,3) len by simp
    next
      case none: False
      then have "node_value (node t) k' = None" "node_value (node t') k' = None"
        using same(1) len by (auto intro!: node_value_absent)
      then show ?thesis by simp
    qed
    with False rest show ?thesis by (simp add: contents_def in_array_def)
  qed
qed

lemma contents_inserted:
  assumes "table_ok h t" "table_ok h t'" "array t' = array t" "sizearray t' = sizearray t" "lsizenode t' = lsizenode t"
    "entries (node t') = entries (node t)" "present k"
  shows "contents t' k = contents t k"
proof -
  have "node_value (node t') k = Some v \<longleftrightarrow> node_value (node t) k = Some v" for v
    using node_value_entries [OF ok_nodes [OF assms(1)] assms(7)] node_value_entries [OF ok_nodes [OF assms(2)] assms(7)] assms(6)
    by simp
  then have "node_value (node t') k = node_value (node t) k" by (metis option.exhaust)
  with assms(3,4) show ?thesis by (simp add: contents_def in_array_def)
qed

text \<open>Assigning to a key: either there is a place for it, or the table has to grow.\<close>

definition assign_with ::
  "('v Table \<Rightarrow> key \<Rightarrow> ('v Table \<times> slot) res) \<Rightarrow> (64 word \<Rightarrow> 32 word) \<Rightarrow> 'v Table \<Rightarrow> key \<Rightarrow> 'v option \<Rightarrow> 'v Table res"
where
  "assign_with newkey h t k v = bindR (luaH_set_with newkey h t k) (\<lambda>(t, s). set_slot t s v)"

definition assigned :: "(64 word \<Rightarrow> 32 word) \<Rightarrow> 'v Table \<Rightarrow> key \<Rightarrow> 'v option \<Rightarrow> 'v Table \<Rightarrow> bool" where
  "assigned h t k v t' \<longleftrightarrow>
     table_ok h t' \<and> (\<forall>k'. present k' \<longrightarrow> contents t' k' = (if luaO_rawequalObj k k' then v else contents t k'))"

definition same_shape :: "'v Table \<Rightarrow> 'v Table \<Rightarrow> bool" where
  "same_shape t t' \<longleftrightarrow> sizearray t' = sizearray t \<and> length (array t') = length (array t) \<and> lsizenode t' = lsizenode t \<and>
     is_dummy t' = is_dummy t \<and> drop (sizearray t) (array t') = drop (sizearray t) (array t)"

lemma assign_cases:
  assumes ok: "table_ok h t" and k: "present k"
  obtains (fits) t' where "assign_with (newkey_with grow h) h t k v = Inr t'" "assigned h t k v t'" "same_shape t t'"
      "card (used (node t')) \<le> card (used (node t)) + (if in_array t k then 0 else 1)"
  | (grows) f where "assign_with (newkey_with grow h) h t k v = bindR (grow (t\<lparr>lastfree := f\<rparr>) k) (\<lambda>(t, s). set_slot t s v)"
      "f \<le> 0" "is_dummy t \<or> used (node t) = {..<length (node t)}" "\<not> in_array t k"
proof -
  have kNil: "k \<noteq> Nil" using k by auto
  from ok kNil show thesis
  proof (cases rule: luaH_get_cases)
    case array
    note store = store_array [OF ok array(1), where v = v]
    show thesis
    proof (rule fits)
      show "assign_with (newkey_with grow h) h t k v = Inr (t\<lparr>array := (array t)[nat (arrayindex k - 1) := v]\<rparr>)"
        using array(2) store(1) by (simp add: assign_with_def luaH_set_with_def)
      show "same_shape t (t\<lparr>array := (array t)[nat (arrayindex k - 1) := v]\<rparr>)"
        using array(1) by (simp add: same_shape_def in_array_def drop_update_cancel nat_less_iff)
    qed (use store(2,3) in \<open>auto simp: assigned_def\<close>)
  next
    case (node j)
    note store = store_node [OF ok node(1) k node(3,4), where v = v]
    show thesis
    proof (rule fits)
      show "assign_with (newkey_with grow h) h t k v = Inr (t\<lparr>node := (node t)[j := (node t ! j)\<lparr>i_val := v\<rparr>]\<rparr>)"
        using node(2) store(1) by (simp add: assign_with_def luaH_set_with_def)
    qed (use store(2-4) in \<open>auto simp: assigned_def same_shape_def\<close>)
  next
    case none
    have nan: "\<not> (case k of Number n \<Rightarrow> luai_numisnan n | _ \<Rightarrow> False)" using k by (cases k) auto
    have set: "assign_with (newkey_with grow h) h t k v = bindR (newkey_with grow h t k) (\<lambda>(t, s). set_slot t s v)"
      using none(2) kNil nan by (simp add: assign_with_def luaH_set_with_def)
    consider (kept) r where "newkey_with grow h t k = Inr r" "inserted h t k r"
      | (full) f where "newkey_with grow h t k = grow (t\<lparr>lastfree := f\<rparr>) k" "f \<le> 0"
        "is_dummy t \<or> used (node t) = {..<length (node t)}"
      using newkey_cases [OF ok k none(1) none(3) [OF k], of grow] by metis
    then show thesis
    proof cases
      case (full f)
      show thesis by (rule grows [of f]) (use full set none in auto)
    next
      case (kept r)
      from kept(2) obtain t' j where t': "r = (t', NodeSlot j)" "table_ok h t'" "array t' = array t"
        "sizearray t' = sizearray t" "lsizenode t' = lsizenode t" "is_dummy t' = is_dummy t" "j < length (node t)"
        "i_key (node t' ! j) = k" "entries (node t') = entries (node t)"
        "card (used (node t')) \<le> Suc (card (used (node t)))" by (auto simp: inserted_def)
      have j: "j < length (node t')" using t'(5,7) ok_length(1) [OF ok] ok_length(1) [OF t'(2)] by simp
      have na: "\<not> in_array t' k" using none(1) t'(4) by (simp add: in_array_def)
      note store = store_node [OF t'(2) na k j, unfolded t'(8), OF rawequal_refl [OF k], where v = v]
      show thesis
      proof (rule fits)
        show "assign_with (newkey_with grow h) h t k v = Inr (t'\<lparr>node := (node t')[j := (node t' ! j)\<lparr>i_val := v\<rparr>]\<rparr>)"
          using set kept(1) t'(1) store(1) by simp
        show "assigned h t k v (t'\<lparr>node := (node t')[j := (node t' ! j)\<lparr>i_val := v\<rparr>]\<rparr>)"
          using store(2,4) contents_inserted [OF ok t'(2-5,9)] by (simp add: assigned_def)
      qed (use t' none(1) store(3) in \<open>auto simp: same_shape_def\<close>)
    qed
  qed
qed

end
