(* ===== verification/LuaRehash.thy ===== *)
theory LuaRehash
  imports LuaNodes
begin

text \<open>
  Growing tables: the size of the array part is the largest power of two such that more than half
  of the array would be in use; the hash part gets room for all other keys.  Then reading and
  writing a table are those of a map from keys to values.
\<close>

section \<open>Counting\<close>

text \<open>\<open>nums ! i\<close> is the number of integer keys \<open>k\<close> with \<open>2 ^ (i - 1) < k \<le> 2 ^ i\<close>.\<close>

function computesizes_loop :: "nat list \<Rightarrow> nat \<Rightarrow> nat \<Rightarrow> nat \<Rightarrow> nat \<Rightarrow> nat \<Rightarrow> (nat \<times> nat) res" where
  "computesizes_loop nums narray i a na n =
     (if 2 ^ i div 2 < narray then
        bindR (nthR nums i) (\<lambda>c.
          let a' = (if c > 0 then a + c else a);
              (na', n') = (if c > 0 \<and> a' > 2 ^ i div 2 then (a', 2 ^ i) else (na, n))
          in if a' = narray then Inr (na', n')
             else computesizes_loop nums narray (i + 1) a' na' n')
      else Inr (na, n))"
  by pat_completeness auto
termination
proof (relation "measure (\<lambda>(nums, narray, i, a, na, n). narray - 2 ^ i div 2)", goal_cases)
  case (2 nums narray i a na n)
  have "(2 :: nat) ^ i div 2 < 2 ^ i" by simp
  with 2 show ?case by (auto intro!: diff_less_mono2)
qed simp

declare computesizes_loop.simps [simp del]

text \<open>The number of keys that go to the array, and the size of the array.\<close>

definition computesizes :: "nat list \<Rightarrow> nat \<Rightarrow> (nat \<times> nat) res" where
  "computesizes nums narray = computesizes_loop nums narray 0 0 0 0"

definition countint :: "key \<Rightarrow> nat list \<Rightarrow> (nat \<times> nat list) res" where
  "countint key nums =
     (let k = arrayindex key in
      if 0 < k \<and> k \<le> int MAXASIZE then
        let c = ceillog2 (nat k) in
        bindR (nthR nums c) (\<lambda>n. bindR (updR nums c (n + 1)) (\<lambda>nums. Inr (1, nums)))
      else Inr (0, nums))"

text \<open>The inner loop of \<open>numusearray\<close>, over the indices of a slice.\<close>

fun count_slice :: "'v option list \<Rightarrow> nat list \<Rightarrow> nat res" where
  "count_slice a [] = Inr 0"
| "count_slice a (i # is) =
     bindR (nthR a (i - 1)) (\<lambda>v. bindR (count_slice a is) (\<lambda>lc. Inr (if v \<noteq> None then lc + 1 else lc)))"

text \<open>\<open>lgs\<close> are the slices still to count, \<open>i\<close> is the next index.\<close>

fun numusearray_loop :: "nat list \<Rightarrow> 'v Table \<Rightarrow> nat \<Rightarrow> nat \<Rightarrow> nat list \<Rightarrow> (nat \<times> nat list) res" where
  "numusearray_loop [] t i ause nums = Inr (ause, nums)"
| "numusearray_loop (lg # lgs) t i ause nums =
     (let ttlg = 2 ^ lg; lim = (if ttlg > sizearray t then sizearray t else ttlg) in
      if ttlg > sizearray t \<and> i > lim then Inr (ause, nums)
      else
        bindR (count_slice (array t) [i..<lim + 1]) (\<lambda>lc.
        bindR (nthR nums lg) (\<lambda>n.
        bindR (updR nums lg (n + lc)) (\<lambda>nums.
          numusearray_loop lgs t (max i (lim + 1)) (ause + lc) nums))))"

definition numusearray :: "'v Table \<Rightarrow> nat list \<Rightarrow> (nat \<times> nat list) res" where
  "numusearray t nums = numusearray_loop [0..<MAXBITS + 1] t 1 0 nums"

text \<open>The nodes are visited from the last one down.  The results: all keys with a value, those that count for the array.\<close>

fun numusehash_loop :: "'v Node list \<Rightarrow> nat \<Rightarrow> nat \<Rightarrow> nat list \<Rightarrow> (nat \<times> nat \<times> nat list) res" where
  "numusehash_loop [] totaluse ause nums = Inr (totaluse, ause, nums)"
| "numusehash_loop (n # ns) totaluse ause nums =
     (if i_val n \<noteq> None then
        bindR (countint (i_key n) nums) (\<lambda>(c, nums). numusehash_loop ns (totaluse + 1) (ause + c) nums)
      else numusehash_loop ns totaluse ause nums)"

definition numusehash :: "'v Table \<Rightarrow> nat list \<Rightarrow> (nat \<times> nat \<times> nat list) res" where
  "numusehash t nums = numusehash_loop (rev (node t)) 0 0 nums"

section \<open>Resizing\<close>

definition setarrayvector :: "'v Table \<Rightarrow> nat \<Rightarrow> 'v Table" where
  "setarrayvector t s = t\<lparr>array := take (min s (sizearray t)) (array t) @ replicate (s - sizearray t) None, sizearray := s\<rparr>"

definition empty_node :: "'v Node" where
  "empty_node = \<lparr>i_val = None, i_key = Nil, next_node = None\<rparr>"

definition setnodevector :: "'v Table \<Rightarrow> nat \<Rightarrow> 'v Table res" where
  "setnodevector t s =
     (if s = 0 then Inr (t\<lparr>node := [empty_node], lsizenode := 0, lastfree := 0, is_dummy := True\<rparr>)
      else
        let lsize = ceillog2 s in
        if lsize > MAXBITS then Inl (LuaError ''table overflow'')
        else Inr (t\<lparr>node := replicate (2 ^ lsize) empty_node, lsizenode := lsize, lastfree := 2 ^ lsize, is_dummy := False\<rparr>))"

definition luaH_setnum_with ::
  "('v Table \<Rightarrow> key \<Rightarrow> ('v Table \<times> slot) res) \<Rightarrow> 'v Table \<Rightarrow> int \<Rightarrow> ('v Table \<times> slot) res"
where
  "luaH_setnum_with newkey t k =
     bindR (luaH_getnum t k) (\<lambda>p. case p of Some s \<Rightarrow> Inr (t, s) | None \<Rightarrow> newkey t (Number (cast_num k)))"

definition reinsert_array ::
  "('v Table \<Rightarrow> key \<Rightarrow> ('v Table \<times> slot) res) \<Rightarrow> nat \<Rightarrow> 'v Table \<Rightarrow> 'v Table res"
where
  "reinsert_array newkey i t =
     bindR (nthR (array t) i) (\<lambda>v.
       if v \<noteq> None then bindR (luaH_setnum_with newkey t (int i + 1)) (\<lambda>(t, s). set_slot t s v) else Inr t)"

definition reinsert_node ::
  "('v Table \<Rightarrow> key \<Rightarrow> ('v Table \<times> slot) res) \<Rightarrow> (64 word \<Rightarrow> 32 word) \<Rightarrow> 'v Node \<Rightarrow> 'v Table \<Rightarrow> 'v Table res"
where
  "reinsert_node newkey h old t = (if i_val old \<noteq> None then assign_with newkey h t (i_key old) (i_val old) else Inr t)"

definition resize_with ::
  "('v Table \<Rightarrow> key \<Rightarrow> ('v Table \<times> slot) res) \<Rightarrow> (64 word \<Rightarrow> 32 word) \<Rightarrow> 'v Table \<Rightarrow> nat \<Rightarrow> nat \<Rightarrow> 'v Table res"
where
  "resize_with newkey h t nasize nhsize =
     (let oldasize = sizearray t; nold = node t;
          t = (if nasize > oldasize then setarrayvector t nasize else t) in
      bindR (setnodevector t nhsize) (\<lambda>t.
      bindR (if nasize < oldasize then
               bindR (foldMR (reinsert_array newkey) [nasize..<oldasize] (t\<lparr>sizearray := nasize\<rparr>))
                 (\<lambda>t. Inr (t\<lparr>array := take nasize (array t)\<rparr>))
             else Inr t) (\<lambda>t.
        foldMR (reinsert_node newkey h) (rev nold) t)))"

definition rehash_with ::
  "('v Table \<Rightarrow> key \<Rightarrow> ('v Table \<times> slot) res) \<Rightarrow> (64 word \<Rightarrow> 32 word) \<Rightarrow> 'v Table \<Rightarrow> key \<Rightarrow> 'v Table res"
where
  "rehash_with newkey h t ek =
     bindR (numusearray t (replicate (MAXBITS + 1) 0)) (\<lambda>(nasize, nums).
     bindR (numusehash t nums) (\<lambda>(use, ause, nums).
     bindR (countint ek nums) (\<lambda>(c, nums).
     bindR (computesizes nums (nasize + ause + c)) (\<lambda>(na, n).
       resize_with newkey h t n (nasize + use + 1 - na)))))"

text \<open>A new key makes the table grow when there is no place; the calls are nested to the depth of the fuel.\<close>

primrec newkey :: "nat \<Rightarrow> (64 word \<Rightarrow> 32 word) \<Rightarrow> 'v Table \<Rightarrow> key \<Rightarrow> ('v Table \<times> slot) res" where
  "newkey 0 h t k = Inl OutOfFuel"
| "newkey (Suc d) h t k =
     newkey_with (\<lambda>t k. bindR (rehash_with (newkey d h) h t k) (\<lambda>t. luaH_set_with (newkey d h) h t k)) h t k"

definition luaH_set :: "(64 word \<Rightarrow> 32 word) \<Rightarrow> 'v Table \<Rightarrow> key \<Rightarrow> ('v Table \<times> slot) res" where
  "luaH_set h = luaH_set_with (newkey 2 h) h"

definition lua_rawset :: "(64 word \<Rightarrow> 32 word) \<Rightarrow> 'v Table \<Rightarrow> key \<Rightarrow> 'v option \<Rightarrow> 'v Table res" where
  "lua_rawset h t k v = bindR (luaH_set h t k) (\<lambda>(t, s). set_slot t s v)"

definition luaH_setnum :: "(64 word \<Rightarrow> 32 word) \<Rightarrow> 'v Table \<Rightarrow> int \<Rightarrow> ('v Table \<times> slot) res" where
  "luaH_setnum h = luaH_setnum_with (newkey 2 h)"

definition luaH_setstr :: "(64 word \<Rightarrow> 32 word) \<Rightarrow> 'v Table \<Rightarrow> 64 word \<Rightarrow> ('v Table \<times> slot) res" where
  "luaH_setstr h t a =
     bindR (luaH_getstr h t a) (\<lambda>p. case p of Some s \<Rightarrow> Inr (t, s) | None \<Rightarrow> newkey 2 h t (Str a))"

definition luaH_new :: "nat \<Rightarrow> nat \<Rightarrow> 'v Table res" where
  "luaH_new narray nhash =
     setnodevector (setarrayvector \<lparr>array = [], sizearray = 0, node = [empty_node], lsizenode = 0, lastfree = 0, is_dummy = True\<rparr> narray) nhash"

definition luaH_resizearray :: "(64 word \<Rightarrow> 32 word) \<Rightarrow> 'v Table \<Rightarrow> nat \<Rightarrow> 'v Table res" where
  "luaH_resizearray h t nasize = resize_with (newkey 2 h) h t nasize (if is_dummy t then 0 else sizenode t)"

section \<open>The sizes are right\<close>

definition tally :: "nat list \<Rightarrow> nat list \<Rightarrow> bool" where
  "tally nums ks \<longleftrightarrow> length nums = MAXBITS + 1 \<and> (\<forall>l \<le> MAXBITS. nums ! l = length (filter (\<lambda>k. ceillog2 k = l) ks))"

definition array_keys :: "'v Table \<Rightarrow> nat list" where
  "array_keys t = filter (\<lambda>i. array t ! (i - 1) \<noteq> None) [1..<sizearray t + 1]"

definition index_of :: "key \<Rightarrow> nat list" where
  "index_of k = (if 0 < arrayindex k \<and> arrayindex k \<le> int MAXASIZE then [nat (arrayindex k)] else [])"

definition hash_keys :: "'v Node list \<Rightarrow> nat list" where
  "hash_keys ns = concat (map (\<lambda>n. if i_val n \<noteq> None then index_of (i_key n) else []) ns)"

lemma tally_0: "tally (replicate (MAXBITS + 1) 0) []"
  by (simp add: tally_def nth_replicate del: replicate_Suc Suc_eq_plus1 add_Suc_right)

lemma tally_add:
  assumes "tally nums ks" "l \<le> MAXBITS" "\<forall>k \<in> set ks'. ceillog2 k = l"
  shows "nthR nums l = Inr (nums ! l)" "updR nums l (nums ! l + length ks') = Inr (nums[l := nums ! l + length ks'])"
    "tally (nums[l := nums ! l + length ks']) (ks @ ks')"
proof -
  have len: "l < length nums" using assms(1,2) by (simp add: tally_def)
  then show "nthR nums l = Inr (nums ! l)" "updR nums l (nums ! l + length ks') = Inr (nums[l := nums ! l + length ks'])" by simp_all
  have "length (filter (\<lambda>k. ceillog2 k = m) ks') = (if m = l then length ks' else 0)" for m
    using assms(3) by (auto simp: filter_id_conv filter_empty_conv)
  with assms(1) len show "tally (nums[l := nums ! l + length ks']) (ks @ ks')" by (simp add: tally_def nth_list_update)
qed

lemma countint_tally:
  assumes "tally nums ks"
  obtains nums' where "countint k nums = Inr (length (index_of k), nums')" "tally nums' (ks @ index_of k)"
proof (cases "0 < arrayindex k \<and> arrayindex k \<le> int MAXASIZE")
  case True
  let ?c = "ceillog2 (nat (arrayindex k))"
  have "nat (arrayindex k) \<le> 2 ^ MAXBITS" using True by (simp add: MAXASIZE_def nat_le_iff)
  then have "?c \<le> MAXBITS" using True by (subst ceillog2_le) auto
  from tally_add [OF assms this, of "[nat (arrayindex k)]"] True show thesis
    by (intro that [of "nums[?c := nums ! ?c + 1]"]) (simp_all add: countint_def index_of_def Let_def)
next
  case False
  with assms show thesis by (intro that [of nums]) (auto simp: countint_def index_of_def)
qed

lemma count_slice_filter:
  "\<forall>i \<in> set is. i - 1 < length a \<Longrightarrow> count_slice a is = Inr (length (filter (\<lambda>i. a ! (i - 1) \<noteq> None) is))"
  by (induction "is") auto

text \<open>The array part: \<open>i\<close> is the first index of the slice \<open>lg\<close>, or beyond the array.\<close>

definition slice_start :: "nat \<Rightarrow> nat \<Rightarrow> nat" where
  "slice_start s lg = (if lg = 0 then 1 else min (2 ^ (lg - 1)) s + 1)"

lemma slice_log:
  assumes "slice_start s lg \<le> i" "i \<le> 2 ^ lg" "i \<le> s"
  shows "ceillog2 i = lg"
proof (cases lg)
  case 0
  with assms have "i = 1" by (simp add: slice_start_def)
  moreover have "ceillog2 1 \<le> 0" by (subst ceillog2_le) auto
  ultimately show ?thesis using 0 by simp
next
  case (Suc l)
  with assms have i: "2 ^ l < i" by (simp add: slice_start_def min_def split: if_splits)
  then have "0 < i" by simp
  with assms(2) have "ceillog2 i \<le> lg" by (simp add: ceillog2_le)
  moreover have "\<not> ceillog2 i \<le> l" using i \<open>0 < i\<close> by (simp add: ceillog2_le)
  ultimately show ?thesis using Suc by simp
qed

lemma numusearray_loop_tally:
  assumes "sizearray t \<le> length (array t)" "sizearray t \<le> MAXASIZE"
  defines "P \<equiv> \<lambda>i. array t ! (i - 1) \<noteq> None"
  shows "tally nums (ks @ filter P [1..<slice_start (sizearray t) lg]) \<Longrightarrow> lg \<le> MAXBITS + 1 \<Longrightarrow>
     (\<exists>nums'. numusearray_loop [lg..<MAXBITS + 1] t (slice_start (sizearray t) lg)
        (length (filter P [1..<slice_start (sizearray t) lg])) nums = Inr (length (array_keys t), nums') \<and>
       tally nums' (ks @ array_keys t))"
proof (induction "MAXBITS + 1 - lg" arbitrary: lg nums)
  case 0
  then have lg: "lg = MAXBITS + 1" by simp
  with assms(2) have "slice_start (sizearray t) lg = sizearray t + 1" by (simp add: slice_start_def MAXASIZE_def)
  with 0 lg show ?case by (simp add: array_keys_def P_def)
next
  case (Suc x)
  then have lg: "lg \<le> MAXBITS" by simp
  let ?s = "sizearray t"
  let ?i = "slice_start ?s lg"
  let ?lim = "min (2 ^ lg) ?s"
  have upt: "[lg..<MAXBITS + 1] = lg # [lg + 1..<MAXBITS + 1]" using lg by (simp add: upt_conv_Cons)
  have after: "max ?i (?lim + 1) = slice_start ?s (lg + 1)"
  proof (cases lg)
    case 0
    then show ?thesis by (auto simp: slice_start_def)
  next
    case (Suc l)
    have "(2 :: nat) ^ l \<le> 2 ^ Suc l" by simp
    with Suc show ?thesis by (simp add: slice_start_def min_def)
  qed
  have le: "?i \<le> ?lim + 1 \<or> ?i = 1"
    by (cases lg) (auto simp: slice_start_def min_def)
  show ?case
  proof (cases "?s < 2 ^ lg \<and> ?lim < ?i")
    case True
    then have "?i = ?s + 1" using le by (auto simp: slice_start_def min_def split: if_splits)
    then have "filter P [1..<?i] = array_keys t" by (simp add: array_keys_def P_def)
    with True Suc.prems(1) show ?thesis unfolding upt numusearray_loop.simps Let_def by (auto simp: min_def)
  next
    case False
    let ?new = "filter P [?i..<?lim + 1]"
    have i: "?i \<le> ?lim + 1" using le False by (auto simp: slice_start_def split: if_splits)
    have "1 \<le> ?i" by (simp add: slice_start_def)
    then have split: "[1..<?lim + 1] = [1..<?i] @ [?i..<?lim + 1]" using i by (metis upt_add_eq_append le_Suc_ex)
    have nx: "slice_start ?s (lg + 1) = ?lim + 1" using after i by simp
    have "\<forall>k \<in> set ?new. ceillog2 k = lg" by (auto intro!: slice_log [of ?s])
    note tl = tally_add [OF Suc.prems(1) lg this]
    have c: "count_slice (array t) [?i..<?lim + 1] = Inr (length ?new)"
      unfolding P_def by (rule count_slice_filter) (use assms(1) \<open>1 \<le> ?i\<close> in auto)
    have "tally (nums[lg := nums ! lg + length ?new]) (ks @ filter P [1..<slice_start ?s (lg + 1)])"
      using tl(3) unfolding nx split filter_append append_assoc .
    moreover have "x = MAXBITS + 1 - (lg + 1)" "lg + 1 \<le> MAXBITS + 1" using Suc.hyps(2) lg by auto
    ultimately obtain nums' where
      r: "numusearray_loop [lg + 1..<MAXBITS + 1] t (slice_start ?s (lg + 1)) (length (filter P [1..<slice_start ?s (lg + 1)]))
        (nums[lg := nums ! lg + length ?new]) = Inr (length (array_keys t), nums')" "tally nums' (ks @ array_keys t)"
      using Suc.hyps(1) by blast
    have lim: "(if 2 ^ lg > ?s then ?s else 2 ^ lg) = ?lim" by (simp add: min_def)
    have len: "length (filter P [1..<?i]) + length ?new = length (filter P [1..<slice_start ?s (lg + 1)])"
      unfolding nx split filter_append length_append ..
    show ?thesis
      unfolding upt numusearray_loop.simps Let_def lim
      by (simp only: False if_False c bindR.simps tl(1,2) len after r(1)) (simp add: r(2))
  qed
qed

lemma numusearray_tally:
  assumes "sizearray t \<le> length (array t)" "sizearray t \<le> MAXASIZE" "tally nums []"
  obtains nums' where "numusearray t nums = Inr (length (array_keys t), nums')" "tally nums' (array_keys t)"
  using numusearray_loop_tally [OF assms(1,2), of nums "[]" 0] assms(3)
  by (auto simp: numusearray_def slice_start_def)

lemma numusehash_loop_tally:
  "tally nums ks \<Longrightarrow> \<exists>nums'. numusehash_loop ns u a nums =
     Inr (u + length (filter (\<lambda>n. i_val n \<noteq> None) ns), a + length (hash_keys ns), nums') \<and> tally nums' (ks @ hash_keys ns)"
proof (induction ns arbitrary: nums ks u a)
  case (Cons n ns)
  show ?case
  proof (cases "i_val n = None")
    case True
    with Cons show ?thesis by (simp add: hash_keys_def)
  next
    case False
    obtain nums1 where n1: "countint (i_key n) nums = Inr (length (index_of (i_key n)), nums1)" "tally nums1 (ks @ index_of (i_key n))"
      using countint_tally [OF Cons.prems] by blast
    from Cons.IH [OF n1(2), of "u + 1" "a + length (index_of (i_key n))"] False n1(1) show ?thesis
      by (auto simp: hash_keys_def)
  qed
qed (simp add: hash_keys_def)

lemma computesizes_loop_correct:
  assumes "tally nums ks" "\<forall>k \<in> set ks. 0 < k \<and> k \<le> MAXASIZE"
  shows "i \<le> MAXBITS \<Longrightarrow> a = length (filter (\<lambda>k. ceillog2 k < i) ks) \<Longrightarrow> na = length (filter (\<lambda>k. k \<le> n) ks) \<Longrightarrow>
     (n = 0 \<or> (\<exists>l \<le> MAXBITS. n = 2 ^ l)) \<Longrightarrow>
     \<exists>na' n'. computesizes_loop nums (length ks) i a na n = Inr (na', n') \<and> na' = length (filter (\<lambda>k. k \<le> n') ks) \<and>
       (n' = 0 \<or> (\<exists>l \<le> MAXBITS. n' = 2 ^ l))"
proof (induction "MAXBITS - i" arbitrary: i a na n rule: less_induct)
  case less
  have c: "nthR nums i = Inr (length (filter (\<lambda>k. ceillog2 k = i) ks))"
    using assms(1) less.prems(1) by (simp add: tally_def)
  have add: "length (filter (\<lambda>k. ceillog2 k < i) ks) + length (filter (\<lambda>k. ceillog2 k = i) ks) =
      length (filter (\<lambda>k. ceillog2 k < Suc i) ks)"
    by (induction ks) (auto simp: less_Suc_eq)
  have pow: "filter (\<lambda>k. ceillog2 k < Suc i) ks = filter (\<lambda>k. k \<le> 2 ^ i) ks"
    by (rule filter_cong) (use assms(2) in \<open>auto simp: less_Suc_eq_le ceillog2_le\<close>)
  let ?a = "length (filter (\<lambda>k. ceillog2 k < Suc i) ks)"
  obtain na' n' where u: "(if length (filter (\<lambda>k. ceillog2 k = i) ks) > 0 \<and> ?a > 2 ^ i div 2 then (?a, 2 ^ i) else (na, n)) = (na', n')"
    by (metis prod.exhaust)
  then have n': "na' = length (filter (\<lambda>k. k \<le> n') ks)" "n' = 0 \<or> (\<exists>l \<le> MAXBITS. n' = 2 ^ l)"
    using less.prems pow by (auto split: if_splits)
  have a': "(if length (filter (\<lambda>k. ceillog2 k = i) ks) > 0 then a + length (filter (\<lambda>k. ceillog2 k = i) ks) else a) = ?a"
    using add less.prems(2) by auto
  have step: "computesizes_loop nums (length ks) i a na n =
      (if 2 ^ i div 2 < length ks then
         (if ?a = length ks then Inr (na', n') else computesizes_loop nums (length ks) (i + 1) ?a na' n')
       else Inr (na, n))"
    using computesizes_loop.simps [of nums "length ks" i a na n] u by (simp only: c bindR.simps Let_def a' split)
  show ?case
  proof (cases "2 ^ i div 2 < length ks \<and> ?a \<noteq> length ks")
    case False
    with step n' less.prems show ?thesis by auto
  next
    case True
    have "i \<noteq> MAXBITS"
    proof
      assume "i = MAXBITS"
      then have "filter (\<lambda>k. k \<le> 2 ^ i) ks = ks" using assms(2) by (auto simp: filter_id_conv MAXASIZE_def)
      with True pow show False by simp
    qed
    with less.prems(1) have "MAXBITS - (i + 1) < MAXBITS - i" "i + 1 \<le> MAXBITS" by auto
    from less.hyps [OF this(1) this(2) _ n'(1,2), of ?a] step True show ?thesis by simp
  qed
qed

lemma computesizes_correct:
  assumes "tally nums ks" "\<forall>k \<in> set ks. 0 < k \<and> k \<le> MAXASIZE"
  obtains n where "computesizes nums (length ks) = Inr (length (filter (\<lambda>k. k \<le> n) ks), n)" "n \<le> MAXASIZE"
proof -
  have "length (filter (\<lambda>k. k \<le> 0) ks) = 0" using assms(2) by (auto simp: filter_empty_conv)
  with computesizes_loop_correct [OF assms, of 0 0 0 0] obtain n where
    "computesizes nums (length ks) = Inr (length (filter (\<lambda>k. k \<le> n) ks), n)" "n = 0 \<or> (\<exists>l \<le> MAXBITS. n = 2 ^ l)"
    by (auto simp: computesizes_def)
  moreover from this(2) have "n \<le> MAXASIZE" by (auto simp: MAXASIZE_def)
  ultimately show thesis using that by blast
qed

section \<open>Moving the entries\<close>

text \<open>What assigning the values of some nodes one after the other does to a map.\<close>

fun overlay :: "'v Node list \<Rightarrow> (key \<Rightarrow> 'v option) \<Rightarrow> key \<Rightarrow> 'v option" where
  "overlay [] f = f"
| "overlay (n # ns) f = overlay ns (\<lambda>k. if i_val n \<noteq> None \<and> luaO_rawequalObj (i_key n) k then i_val n else f k)"

lemma overlay_none: "\<forall>n \<in> set ns. i_val n \<noteq> None \<longrightarrow> \<not> luaO_rawequalObj (i_key n) k \<Longrightarrow> overlay ns f k = f k"
  by (induction ns arbitrary: f) auto

lemma overlay_some:
  "\<exists>n \<in> set ns. i_val n \<noteq> None \<and> luaO_rawequalObj (i_key n) k \<Longrightarrow>
     \<forall>n \<in> set ns. i_val n \<noteq> None \<and> luaO_rawequalObj (i_key n) k \<longrightarrow> i_val n = v \<Longrightarrow> overlay ns f k = v"
proof (induction ns arbitrary: f)
  case (Cons n ns)
  show ?case
  proof (cases "\<exists>n \<in> set ns. i_val n \<noteq> None \<and> luaO_rawequalObj (i_key n) k")
    case True
    with Cons show ?thesis by simp
  next
    case False
    then have "overlay ns g k = g k" for g by (intro overlay_none) auto
    with Cons.prems False show ?thesis by auto
  qed
qed simp

lemma overlay_cong: "f k = g k \<Longrightarrow> overlay ns f k = overlay ns g k"
proof (induction ns arbitrary: f g)
  case (Cons n ns)
  show ?case unfolding overlay.simps by (rule Cons.IH) (simp add: Cons.prems)
qed simp

definition to_hash :: "nat \<Rightarrow> 'v Node \<Rightarrow> bool" where
  "to_hash s n \<longleftrightarrow> i_val n \<noteq> None \<and> \<not> (0 < arrayindex (i_key n) \<and> arrayindex (i_key n) \<le> int s)"

definition capacity :: "'v Table \<Rightarrow> nat" where
  "capacity t = (if is_dummy t then 0 else length (node t))"

lemma same_shape_refl: "same_shape t t"
  by (simp add: same_shape_def)

lemma same_shape_trans: "same_shape a b \<Longrightarrow> same_shape b c \<Longrightarrow> same_shape a c"
  by (simp add: same_shape_def)

lemma same_shape_capacity: "table_ok h t \<Longrightarrow> table_ok h t' \<Longrightarrow> same_shape t t' \<Longrightarrow> capacity t' = capacity t"
  using ok_length(1) [of h t] ok_length(1) [of h t'] by (simp add: capacity_def same_shape_def)

lemma assign_room:
  assumes ok: "table_ok h t" and k: "present k"
    and room: "in_array t k \<or> card (used (node t)) < capacity t"
  obtains t' where "assign_with (newkey_with grow h) h t k v = Inr t'" "assigned h t k v t'" "same_shape t t'"
    "card (used (node t')) \<le> card (used (node t)) + (if in_array t k then 0 else 1)"
  using ok k
proof (cases rule: assign_cases [where grow = grow and v = v])
  case (fits t')
  then show thesis by (rule that)
next
  case (grows f)
  then show thesis using room by (auto simp: capacity_def split: if_splits)
qed

lemma reinsert_nodes:
  "table_ok h t \<Longrightarrow> \<forall>n \<in> set ns. i_val n \<noteq> None \<longrightarrow> present (i_key n) \<Longrightarrow>
   card (used (node t)) + length (filter (to_hash (sizearray t)) ns) \<le> capacity t \<Longrightarrow>
     \<exists>t'. foldMR (reinsert_node (newkey_with grow h) h) ns t = Inr t' \<and> table_ok h t' \<and> same_shape t t' \<and>
       card (used (node t')) \<le> card (used (node t)) + length (filter (to_hash (sizearray t)) ns) \<and>
       (\<forall>k. present k \<longrightarrow> contents t' k = overlay ns (contents t) k)"
proof (induction ns arbitrary: t)
  case (Cons n ns)
  show ?case
  proof (cases "i_val n = None")
    case True
    then have "\<not> to_hash (sizearray t) n" by (simp add: to_hash_def)
    with Cons True show ?thesis by (simp add: reinsert_node_def)
  next
    case False
    let ?c = "if in_array t (i_key n) then 0 else 1 :: nat"
    have len: "length (filter (to_hash (sizearray t)) (n # ns)) = ?c + length (filter (to_hash (sizearray t)) ns)"
      using False by (simp add: to_hash_def in_array_def)
    have p: "present (i_key n)" using Cons.prems(2) False by simp
    have "in_array t (i_key n) \<or> card (used (node t)) < capacity t" using Cons.prems(3) unfolding len by (auto split: if_splits)
    from assign_room [OF Cons.prems(1) p this, of grow "i_val n"] obtain t1 where
      t1: "assign_with (newkey_with grow h) h t (i_key n) (i_val n) = Inr t1" "assigned h t (i_key n) (i_val n) t1"
        "same_shape t t1" "card (used (node t1)) \<le> card (used (node t)) + ?c" by blast
    then have ok1: "table_ok h t1" and s: "sizearray t1 = sizearray t" by (simp_all add: assigned_def same_shape_def)
    have "card (used (node t1)) + length (filter (to_hash (sizearray t1)) ns) \<le> capacity t1"
      using Cons.prems(3) t1(4) same_shape_capacity [OF Cons.prems(1) ok1 t1(3)] unfolding len s by linarith
    from Cons.IH [OF ok1 _ this] Cons.prems(2) obtain t' where
      t': "foldMR (reinsert_node (newkey_with grow h) h) ns t1 = Inr t'" "table_ok h t'" "same_shape t1 t'"
        "card (used (node t')) \<le> card (used (node t1)) + length (filter (to_hash (sizearray t)) ns)"
        "\<forall>k. present k \<longrightarrow> contents t' k = overlay ns (contents t1) k" unfolding s by auto
    have "contents t' k = overlay (n # ns) (contents t) k" if "present k" for k
    proof -
      have "contents t1 k = (if i_val n \<noteq> None \<and> luaO_rawequalObj (i_key n) k then i_val n else contents t k)"
        using t1(2) that False by (simp add: assigned_def)
      then show ?thesis using t'(5) that overlay_cong [of "contents t1" k _ ns] by simp
    qed
    moreover have "foldMR (reinsert_node (newkey_with grow h) h) (n # ns) t = Inr t'"
      using False t1(1) t'(1) by (simp add: reinsert_node_def)
    ultimately show ?thesis
      using t'(2,4) t1(4) same_shape_trans [OF t1(3) t'(3)] unfolding len by (intro exI [of _ t']) simp
  qed
qed (simp add: same_shape_refl)

text \<open>The entries of the vanishing slice of the array, as if they were nodes.\<close>

definition array_node :: "'v Table \<Rightarrow> nat \<Rightarrow> 'v Node" where
  "array_node t i = \<lparr>i_val = array t ! i, i_key = Number (cast_num (int i + 1)), next_node = None\<rparr>"

lemma array_node_key: "int i + 1 < 2 ^ 31 \<Longrightarrow> arrayindex (i_key (array_node t i)) = int i + 1"
  by (simp add: array_node_def arrayindex_cast)

lemma array_node_present: "int i + 1 < 2 ^ 31 \<Longrightarrow> present (i_key (array_node t i))"
  using number2int_cast(2) [of "int i + 1"] by (simp add: array_node_def luai_numeq_def)

lemma luaH_setnum_with_eq:
  assumes "0 < k" "k < 2 ^ 31" "sizearray t \<le> MAXASIZE"
  shows "luaH_setnum_with nk t k = luaH_set_with nk h t (Number (cast_num k))"
proof -
  have e: "luai_numeq (cast_num k) (cast_num k)" using number2int_cast(2) [of k] assms by simp
  then have "luaH_getnum t k = luaH_get h t (Number (cast_num k))"
    using luaH_getnum_eq [of k t "Number (cast_num k)" ] luaH_get_eq [of "Number (cast_num k)" t h] assms by simp
  with e show ?thesis by (auto simp: luaH_setnum_with_def luaH_set_with_def luai_numeq_def intro!: bindR_cong split: option.split)
qed

lemma reinsert_slice:
  "table_ok h t \<Longrightarrow> \<forall>i \<in> set is. sizearray t \<le> i \<and> i < length (array t) \<and> i < MAXASIZE \<Longrightarrow>
     card (used (node t)) + length (filter (to_hash (sizearray t)) (map (array_node t) is)) \<le> capacity t \<Longrightarrow>
     foldMR (reinsert_array (newkey_with grow h)) is t =
       foldMR (reinsert_node (newkey_with grow h) h) (map (array_node t) is) t"
proof (induction "is" arbitrary: t)
  case (Cons i "is")
  let ?n = "array_node t i"
  have i: "sizearray t \<le> i" "i < length (array t)" "i < MAXASIZE" using Cons.prems(2) by simp_all
  then have i31: "int i + 1 < 2 ^ 31" by (simp add: MAXASIZE_def MAXBITS_def)
  show ?case
  proof (cases "array t ! i = None")
    case True
    moreover from this have "\<not> to_hash (sizearray t) ?n" by (simp add: to_hash_def array_node_def)
    ultimately show ?thesis using Cons i(2) by (simp add: reinsert_array_def reinsert_node_def array_node_def [of t i])
  next
    case False
    have v: "i_val ?n = array t ! i" by (simp add: array_node_def)
    have na: "\<not> in_array t (i_key ?n)" using i(1) array_node_key [OF i31, of t] by (simp add: in_array_def)
    then have th: "to_hash (sizearray t) ?n" using False v by (simp add: to_hash_def in_array_def)
    have eq: "reinsert_array (newkey_with grow h) i t = assign_with (newkey_with grow h) h t (i_key ?n) (i_val ?n)"
      using False i(2) luaH_setnum_with_eq [OF _ i31 ok_array(2) [OF Cons.prems(1)]]
      by (simp add: reinsert_array_def assign_with_def array_node_def)
    have "in_array t (i_key ?n) \<or> card (used (node t)) < capacity t" using Cons.prems(3) th by simp
    from assign_room [OF Cons.prems(1) array_node_present [OF i31] this, of grow "i_val ?n"] na obtain t1 where
      t1: "assign_with (newkey_with grow h) h t (i_key ?n) (i_val ?n) = Inr t1" "assigned h t (i_key ?n) (i_val ?n) t1"
        "same_shape t t1" "card (used (node t1)) \<le> card (used (node t)) + 1" by auto
    then have ok1: "table_ok h t1" and s: "sizearray t1 = sizearray t" "length (array t1) = length (array t)"
      by (simp_all add: assigned_def same_shape_def)
    have "array t1 ! j = array t ! j" if "j \<in> set is" for j
    proof -
      have j: "sizearray t \<le> j" "j < length (array t)" using that Cons.prems(2) by auto
      then have "array t1 ! j = drop (sizearray t) (array t1) ! (j - sizearray t)" using s by simp
      also have "\<dots> = array t ! j" using t1(3) j by (simp add: same_shape_def)
      finally show ?thesis .
    qed
    then have map: "map (array_node t1) is = map (array_node t) is" by (simp add: array_node_def)
    have "card (used (node t1)) + length (filter (to_hash (sizearray t1)) (map (array_node t1) is)) \<le> capacity t1"
      using Cons.prems(3) t1(4) th same_shape_capacity [OF Cons.prems(1) ok1 t1(3)] unfolding map s by simp
    from Cons.IH [OF ok1 _ this] Cons.prems(2) s have
      "foldMR (reinsert_array (newkey_with grow h)) is t1 = foldMR (reinsert_node (newkey_with grow h) h) (map (array_node t) is) t1"
      unfolding map by auto
    moreover have "reinsert_node (newkey_with grow h) h ?n t = Inr t1" using t1(1) False by (simp add: reinsert_node_def v)
    ultimately show ?thesis using eq t1(1) by simp
  qed
qed simp

section \<open>Resizing keeps the contents\<close>

lemma empty_node_simps [simp]: "i_val empty_node = None" "i_key empty_node = Nil" "next_node empty_node = None"
  by (simp_all add: empty_node_def)

lemma nodes_ok_empty: "nodes_ok mp (replicate l empty_node)"
  by (rule nodes_okI) (auto simp: chained_def links_def)

lemma used_empty: "used (replicate l empty_node) = {}"
  by (auto simp: used_def)

lemma setnodevector_cases:
  assumes "s \<le> MAXASIZE"
  obtains t' where "setnodevector t s = Inr t'" "array t' = array t" "sizearray t' = sizearray t"
    "node t' = replicate (2 ^ lsizenode t') empty_node" "s \<le> capacity t'" "used (node t') = {}"
    "sizearray t \<le> length (array t) \<Longrightarrow> sizearray t \<le> MAXASIZE \<Longrightarrow> table_ok h t'"
proof (cases "s = 0")
  case True
  show thesis
    by (rule that [of "t\<lparr>node := [empty_node], lsizenode := 0, lastfree := 0, is_dummy := True\<rparr>"])
      (use True nodes_ok_empty [of _ 1] used_empty [of 1] in
        \<open>simp_all add: setnodevector_def table_ok_def in_array_def arrayindex_def\<close>)
next
  case False
  then have l: "ceillog2 s \<le> MAXBITS" "s \<le> 2 ^ ceillog2 s"
    using assms by (simp_all add: ceillog2_le MAXASIZE_def ceillog2_bounds(1))
  show thesis
    by (rule that [of "t\<lparr>node := replicate (2 ^ ceillog2 s) empty_node, lsizenode := ceillog2 s,
        lastfree := 2 ^ ceillog2 s, is_dummy := False\<rparr>"])
      (use False l nodes_ok_empty used_empty in
        \<open>simp_all add: setnodevector_def table_ok_def in_array_def arrayindex_def capacity_def Let_def\<close>)
qed

lemma contents_empty:
  fixes t :: "'a Table"
  shows "node t = replicate l empty_node \<Longrightarrow> contents t k = (if in_array t k then array t ! nat (arrayindex k - 1) else None)"
proof -
  have "find P (replicate l empty_node) = (if l \<noteq> 0 \<and> P empty_node then Some empty_node else None)" for P :: "'a Node \<Rightarrow> bool"
    by (induction l) auto
  then have "node_value (replicate l (empty_node :: 'a Node)) k = None" by (simp add: node_value_def)
  then show "node t = replicate l empty_node \<Longrightarrow> ?thesis" by (simp add: contents_def)
qed

lemma overlay_nodes:
  assumes ok: "nodes_ok mp ns" and k: "present k"
  shows "overlay (rev ns) f k = (case node_value ns k of Some v \<Rightarrow> Some v | None \<Rightarrow> f k)"
proof (cases "\<exists>j < length ns. i_val (ns ! j) \<noteq> None \<and> luaO_rawequalObj (i_key (ns ! j)) k")
  case True
  then obtain j where j: "j < length ns" "i_val (ns ! j) \<noteq> None" "luaO_rawequalObj (i_key (ns ! j)) k" by blast
  note v = node_value_at [OF ok j(1,3) k]
  have "overlay (rev ns) f k = i_val (ns ! j)"
  proof (rule overlay_some)
    show "\<exists>n \<in> set (rev ns). i_val n \<noteq> None \<and> luaO_rawequalObj (i_key n) k" using j by auto
    show "\<forall>n \<in> set (rev ns). i_val n \<noteq> None \<and> luaO_rawequalObj (i_key n) k \<longrightarrow> i_val n = i_val (ns ! j)"
      using v node_value_at [OF ok _ _ k] by (auto simp: in_set_conv_nth)
  qed
  with v j(2) show ?thesis by auto
next
  case False
  then have "overlay (rev ns) f k = f k" by (intro overlay_none) (metis in_set_conv_nth set_rev)
  moreover have "node_value ns k = None"
  proof (cases "\<exists>j < length ns. luaO_rawequalObj (i_key (ns ! j)) k")
    case True
    with False node_value_at [OF ok _ _ k] show ?thesis by auto
  qed (auto intro: node_value_absent)
  ultimately show ?thesis by simp
qed

lemma overlay_slice:
  assumes "\<forall>i \<in> set is. i < MAXASIZE" "present k"
  shows "overlay (map (array_node t) is) f k =
     (if \<exists>i \<in> set is. arrayindex k = int i + 1 \<and> array t ! i \<noteq> None then array t ! nat (arrayindex k - 1) else f k)"
proof -
  have eq: "luaO_rawequalObj (i_key (array_node t i)) k \<longleftrightarrow> arrayindex k = int i + 1" if "i \<in> set is" for i
  proof -
    have i: "int i + 1 < 2 ^ 31" using that assms(1) by (auto simp: MAXASIZE_def MAXBITS_def)
    show ?thesis
    proof
      assume "arrayindex k = int i + 1"
      with arrayindex_eq [of k] have "luaO_rawequalObj k (i_key (array_node t i))" by (simp add: array_node_def add.commute)
      then show "luaO_rawequalObj (i_key (array_node t i)) k" by (rule rawequal_sym)
    qed (use array_node_key [OF i, of t] arrayindex_rawequal in auto)
  qed
  have val: "i_val (array_node t i) = array t ! i" for i by (simp add: array_node_def)
  show ?thesis
  proof (cases "\<exists>i \<in> set is. arrayindex k = int i + 1 \<and> array t ! i \<noteq> None")
    case True
    then obtain i where i: "i \<in> set is" "arrayindex k = int i + 1" "array t ! i \<noteq> None" by blast
    have "overlay (map (array_node t) is) f k = array t ! i"
      by (rule overlay_some) (use i eq val in \<open>auto simp: bex_simps\<close>)
    with True i(2) show ?thesis by simp
  next
    case False
    then have "overlay (map (array_node t) is) f k = f k" by (intro overlay_none) (use eq val in auto)
    then show ?thesis by (simp only: False if_False)
  qed
qed

text \<open>All entries of a table that do not fit into an array of \<open>s\<close> elements.\<close>

definition leftover :: "'v Table \<Rightarrow> nat \<Rightarrow> nat" where
  "leftover t s =
     length (filter (to_hash s) (map (array_node t) [s..<sizearray t])) + length (filter (to_hash s) (node t))"

lemma resize_ok:
  assumes ok: "table_ok h t" and len: "length (array t) = sizearray t" and s: "s \<le> MAXASIZE"
    and room: "leftover t s \<le> nh" "nh \<le> MAXASIZE"
  obtains t' where "resize_with (newkey_with grow h) h t s nh = Inr t'" "table_ok h t'" "sizearray t' = s"
    "length (array t') = s" "nh \<le> capacity t'" "card (used (node t')) \<le> leftover t s"
    "\<And>k. present k \<Longrightarrow> contents t' k = contents t k"
proof -
  let ?nk = "newkey_with grow h"
  define u where "u = (if s > sizearray t then setarrayvector t s else t)"
  have u: "length (array u) = max s (sizearray t)" "sizearray u = max s (sizearray t)"
    "\<And>i. i < max s (sizearray t) \<Longrightarrow> array u ! i = (if i < sizearray t then array t ! i else None)"
    using len by (auto simp: u_def setarrayvector_def nth_append)
  have max: "max s (sizearray t) \<le> MAXASIZE" using s ok_array(2) [OF ok] by simp
  from setnodevector_cases [OF room(2), of u h] obtain w where
    w: "setnodevector u nh = Inr w" "array w = array u" "sizearray w = sizearray u"
      "node w = replicate (2 ^ lsizenode w) empty_node" "nh \<le> capacity w" "used (node w) = {}" "table_ok h w"
    using u(1,2) max by (metis order_refl)
  define slots where "slots = [s..<sizearray t]"
  define w1 where "w1 = w\<lparr>sizearray := s\<rparr>"
  have ok1: "table_ok h w1"
    using w(7) u(1,2) s unfolding table_ok_def w1_def
    by (auto simp: w(2,3,4) in_array_def arrayindex_def split: if_splits)
  have cap1: "capacity w1 = capacity w" "used (node w1) = {}" "sizearray w1 = s" "array w1 = array u"
    by (simp_all add: w1_def capacity_def w used_empty)
  have slice: "map (array_node w1) slots = map (array_node t) slots"
    using u(3) by (auto simp: slots_def array_node_def cap1)
  have n1: "length (filter (to_hash s) (map (array_node t) slots)) + length (filter (to_hash s) (rev (node t))) \<le> capacity w"
    using room(1) w(5) by (simp add: leftover_def slots_def flip: rev_filter)
  have slots31: "\<forall>i \<in> set slots. i < MAXASIZE" using max by (auto simp: slots_def)
  have present_slice: "\<forall>n \<in> set (map (array_node t) slots). i_val n \<noteq> None \<longrightarrow> present (i_key n)"
    using slots31 by (auto intro!: array_node_present simp: MAXASIZE_def MAXBITS_def)
  have "\<exists>w2. foldMR (reinsert_node ?nk h) (map (array_node w1) slots) w1 = Inr w2 \<and> table_ok h w2 \<and> same_shape w1 w2 \<and>
      card (used (node w2)) \<le> card (used (node w1)) + length (filter (to_hash (sizearray w1)) (map (array_node w1) slots)) \<and>
      (\<forall>k. present k \<longrightarrow> contents w2 k = overlay (map (array_node w1) slots) (contents w1) k)"
    by (rule reinsert_nodes [OF ok1]) (use present_slice n1 in \<open>simp_all add: slice cap1\<close>)
  then obtain w2 where w2: "foldMR (reinsert_node ?nk h) (map (array_node w1) slots) w1 = Inr w2" "table_ok h w2" "same_shape w1 w2"
      "card (used (node w2)) \<le> length (filter (to_hash s) (map (array_node t) slots))"
      "\<And>k. present k \<Longrightarrow> contents w2 k = overlay (map (array_node t) slots) (contents w1) k"
    by (auto simp: slice cap1)
  have "foldMR (reinsert_array ?nk) slots w1 = foldMR (reinsert_node ?nk h) (map (array_node w1) slots) w1"
  proof (rule reinsert_slice [OF ok1])
    show "\<forall>i \<in> set slots. sizearray w1 \<le> i \<and> i < length (array w1) \<and> i < MAXASIZE"
      using u(1) slots31 by (auto simp: cap1 slots_def)
    show "card (used (node w1)) + length (filter (to_hash (sizearray w1)) (map (array_node w1) slots)) \<le> capacity w1"
      unfolding slice cap1 using n1 by simp
  qed
  with w2(1) have arr: "foldMR (reinsert_array ?nk) slots w1 = Inr w2" by simp
  define w3 where "w3 = (if s < sizearray t then w2\<lparr>array := take s (array w2)\<rparr> else w2)"
  have s2: "sizearray w2 = s" "length (array w2) = max s (sizearray t)" using w2(3) cap1 u(1) by (simp_all add: same_shape_def)
  have ok3: "table_ok h w3" using w2(2) s2 by (auto simp: table_ok_def w3_def in_array_def)
  have s3: "sizearray w3 = s" "length (array w3) = s" "node w3 = node w2" "is_dummy w3 = is_dummy w2" using s2 by (auto simp: w3_def)
  have c3: "contents w3 k = contents w2 k" for k
    using s2 by (auto simp: contents_def in_array_def w3_def)
  have "capacity w3 = capacity w2" by (simp add: capacity_def s3)
  then have cap3: "capacity w3 = capacity w" using same_shape_capacity [OF ok1 w2(2,3)] cap1(1) by simp
  have present_nodes: "\<forall>n \<in> set (rev (node t)). i_val n \<noteq> None \<longrightarrow> present (i_key n)"
    using ok_dead [OF ok_nodes [OF ok]] by (metis in_set_conv_nth set_rev)
  have "\<exists>t'. foldMR (reinsert_node ?nk h) (rev (node t)) w3 = Inr t' \<and> table_ok h t' \<and> same_shape w3 t' \<and>
      card (used (node t')) \<le> card (used (node w3)) + length (filter (to_hash (sizearray w3)) (rev (node t))) \<and>
      (\<forall>k. present k \<longrightarrow> contents t' k = overlay (rev (node t)) (contents w3) k)"
    by (rule reinsert_nodes [OF ok3 present_nodes]) (use w2(4) n1 cap3 in \<open>simp add: s3\<close>)
  then obtain t' where t': "foldMR (reinsert_node ?nk h) (rev (node t)) w3 = Inr t'" "table_ok h t'" "same_shape w3 t'"
      "card (used (node t')) \<le> card (used (node w2)) + length (filter (to_hash s) (rev (node t)))"
      "\<And>k. present k \<Longrightarrow> contents t' k = overlay (rev (node t)) (contents w3) k"
    by (auto simp: s3)
  show thesis
  proof (rule that [of t'])
    have "resize_with ?nk h t s nh = bindR (Inr w3) (foldMR (reinsert_node ?nk h) (rev (node t)))"
    proof (cases "s < sizearray t")
      case True
      then have "u = t" by (simp add: u_def)
      with True w(1) arr show ?thesis by (simp add: resize_with_def w1_def slots_def w3_def)
    next
      case False
      then have "slots = []" "w1 = w" using w(3) u(2) by (simp_all add: slots_def w1_def)
      with arr have "w2 = w" by simp
      with False w(1) show ?thesis by (simp add: resize_with_def u_def [symmetric] w3_def)
    qed
    with t'(1) show "resize_with ?nk h t s nh = Inr t'" by simp
    show "card (used (node t')) \<le> leftover t s" using t'(4) w2(4) by (simp add: leftover_def slots_def flip: rev_filter)
    show "nh \<le> capacity t'" using same_shape_capacity [OF ok3 t'(2,3)] cap3 w(5) by simp
    show "sizearray t' = s" "length (array t') = s" using t'(3) s3 by (simp_all add: same_shape_def)
    show "contents t' k = contents t k" if k: "present k" for k
    proof -
      have c1: "contents w1 k = (if 0 < arrayindex k \<and> arrayindex k \<le> int s then array u ! nat (arrayindex k - 1) else None)"
        using contents_empty [of w1 "2 ^ lsizenode w" k] w(4) by (simp add: w1_def in_array_def w(2))
      have "contents t' k = (case node_value (node t) k of Some v \<Rightarrow> Some v | None \<Rightarrow> contents w2 k)"
        using t'(5) [OF k] overlay_nodes [OF ok_nodes [OF ok] k, of "contents w3"] c3 [of k] by (simp split: option.split)
      moreover have "contents w2 k = (if in_array t k then array t ! nat (arrayindex k - 1) else None)"
      proof (cases "in_array t k")
        case True
        then have i: "nat (arrayindex k - 1) < sizearray t" "arrayindex k = int (nat (arrayindex k - 1)) + 1"
          by (auto simp: in_array_def)
        have "(\<exists>i \<in> set slots. arrayindex k = int i + 1 \<and> array t ! i \<noteq> None) \<longleftrightarrow>
            int s < arrayindex k \<and> array t ! nat (arrayindex k - 1) \<noteq> None"
        proof
          assume "int s < arrayindex k \<and> array t ! nat (arrayindex k - 1) \<noteq> None"
          with i show "\<exists>i \<in> set slots. arrayindex k = int i + 1 \<and> array t ! i \<noteq> None"
            by (intro bexI [of _ "nat (arrayindex k - 1)"]) (auto simp: slots_def)
        qed (auto simp: slots_def)
        with True i w2(5) [OF k] overlay_slice [OF slots31 k, of t "contents w1"] c1 u(3) [of "nat (arrayindex k - 1)"]
        show ?thesis by (auto simp: in_array_def)
      next
        case False
        then have "\<not> (\<exists>i \<in> set slots. arrayindex k = int i + 1 \<and> array t ! i \<noteq> None)" by (auto simp: slots_def in_array_def)
        with False w2(5) [OF k] overlay_slice [OF slots31 k, of t "contents w1"] c1 u(3) [of "nat (arrayindex k - 1)"] show ?thesis
          by (auto simp: in_array_def)
      qed
      moreover have "node_value (node t) k = None" if "in_array t k"
      proof (rule node_value_absent)
        fix j assume j: "j < length (node t)"
        show "\<not> luaO_rawequalObj (i_key (node t ! j)) k"
          using ok_split [OF ok j] that arrayindex_rawequal [of "i_key (node t ! j)" k] by (auto simp: in_array_def)
      qed
      ultimately show ?thesis by (auto simp: contents_def split: option.split)
    qed
  qed (rule t'(2))
qed

section \<open>Tables are maps\<close>

definition table_inv :: "(64 word \<Rightarrow> 32 word) \<Rightarrow> 'v Table \<Rightarrow> bool" where
  "table_inv h t \<longleftrightarrow> table_ok h t \<and> length (array t) = sizearray t"

definition population :: "'v Table \<Rightarrow> nat" where
  "population t = length (array_keys t) + length (filter (\<lambda>n. i_val n \<noteq> None) (node t))"

lemma array_keys_split:
  assumes "sizearray t \<le> MAXASIZE"
  shows "length (array_keys t) =
     length (filter (\<lambda>k. k \<le> s) (array_keys t)) + length (filter (to_hash s) (map (array_node t) [s..<sizearray t]))"
proof -
  have "to_hash s (array_node t i) \<longleftrightarrow> array t ! i \<noteq> None" if "i \<in> set [s..<sizearray t]" for i
  proof -
    have "int i + 1 < 2 ^ 31" using that assms by (simp add: MAXASIZE_def MAXBITS_def)
    from array_node_key [OF this, of t] that have "\<not> arrayindex (i_key (array_node t i)) \<le> int s" by simp
    moreover have "i_val (array_node t i) = array t ! i" by (simp add: array_node_def)
    ultimately show ?thesis by (simp add: to_hash_def)
  qed
  then have "filter (to_hash s \<circ> array_node t) [s..<sizearray t] = filter (\<lambda>i. array t ! i \<noteq> None) [s..<sizearray t]"
    by (intro filter_cong) auto
  moreover have "filter (\<lambda>i. array t ! i \<noteq> None) [s..<sizearray t] = filter (\<lambda>i. array t ! i \<noteq> None \<and> s \<le> i) [0..<sizearray t]"
  proof (cases "s \<le> sizearray t")
    case True
    then have "[0..<sizearray t] = [0..<s] @ [s..<sizearray t]" by (metis le_add_diff_inverse upt_add_eq_append zero_le)
    moreover have "filter (\<lambda>i. array t ! i \<noteq> None \<and> s \<le> i) [0..<s] = []" by (auto simp: filter_empty_conv)
    moreover have "filter (\<lambda>i. array t ! i \<noteq> None \<and> s \<le> i) [s..<sizearray t] = filter (\<lambda>i. array t ! i \<noteq> None) [s..<sizearray t]"
      by (intro filter_cong) auto
    ultimately show ?thesis by simp
  qed (auto simp: filter_empty_conv)
  moreover have "array_keys t = map Suc (filter (\<lambda>i. array t ! i \<noteq> None) [0..<sizearray t])"
  proof -
    have "[1..<sizearray t + 1] = map Suc [0..<sizearray t]" by (simp add: map_Suc_upt del: upt_Suc)
    then show ?thesis unfolding array_keys_def by (simp only: filter_map o_def diff_Suc_1)
  qed
  then have "filter (\<lambda>k. \<not> k \<le> s) (array_keys t) = map Suc (filter (\<lambda>i. array t ! i \<noteq> None \<and> s \<le> i) [0..<sizearray t])"
    by (simp add: filter_map o_def not_less_eq_eq less_Suc_eq_le conj_commute)
  ultimately have "length (filter (to_hash s) (map (array_node t) [s..<sizearray t])) = length (filter (\<lambda>k. \<not> k \<le> s) (array_keys t))"
    by (simp add: filter_map)
  with sum_length_filter_compl [of "\<lambda>k. k \<le> s" "array_keys t"] show ?thesis by simp
qed

lemma index_of_filter: "s \<le> MAXASIZE \<Longrightarrow>
    length (filter (\<lambda>k. k \<le> s) (index_of k)) = (if 0 < arrayindex k \<and> arrayindex k \<le> int s then 1 else 0)"
  by (auto simp: index_of_def nat_le_iff)

lemma hash_keys_split:
  assumes "s \<le> MAXASIZE"
  shows "length (filter (\<lambda>n. i_val n \<noteq> None) ns) = length (filter (\<lambda>k. k \<le> s) (hash_keys ns)) + length (filter (to_hash s) ns)"
proof (induction ns)
  case (Cons n ns)
  have e: "hash_keys (n # ns) = (if i_val n \<noteq> None then index_of (i_key n) else []) @ hash_keys ns" by (simp add: hash_keys_def)
  from Cons index_of_filter [OF assms, of "i_key n"] show ?case by (auto simp: e to_hash_def)
qed (simp add: hash_keys_def)

lemma rehash_ok:
  assumes inv: "table_inv h t" and pop: "population t < MAXASIZE"
  obtains t' where "rehash_with (newkey_with grow h) h t ek = Inr t'" "table_inv h t'"
    "in_array t' ek \<or> card (used (node t')) < capacity t'" "\<And>k. present k \<Longrightarrow> contents t' k = contents t k"
proof -
  have ok: "table_ok h t" and len: "length (array t) = sizearray t" using inv by (simp_all add: table_inv_def)
  let ?ns = "rev (node t)"
  let ?ks = "array_keys t @ hash_keys ?ns @ index_of ek"
  obtain n1 where n1: "numusearray t (replicate (MAXBITS + 1) 0) = Inr (length (array_keys t), n1)" "tally n1 (array_keys t)"
    using numusearray_tally [OF ok_array [OF ok] tally_0] by blast
  obtain n2 where n2: "numusehash t n1 = Inr (length (filter (\<lambda>n. i_val n \<noteq> None) ?ns), length (hash_keys ?ns), n2)"
    "tally n2 (array_keys t @ hash_keys ?ns)"
    using numusehash_loop_tally [OF n1(2), of ?ns 0 0] by (auto simp: numusehash_def)
  obtain n3 where n3: "countint ek n2 = Inr (length (index_of ek), n3)" "tally n3 ?ks"
    using countint_tally [OF n2(2), of ek] by auto
  have "\<forall>k \<in> set ?ks. 0 < k \<and> k \<le> MAXASIZE"
    using ok_array(2) [OF ok] by (auto simp: array_keys_def hash_keys_def index_of_def nat_le_iff split: if_splits)
  from computesizes_correct [OF n3(2) this] obtain s where
    s: "computesizes n3 (length ?ks) = Inr (length (filter (\<lambda>k. k \<le> s) ?ks), s)" "s \<le> MAXASIZE" by blast
  let ?na = "length (filter (\<lambda>k. k \<le> s) ?ks)"
  let ?use = "length (filter (\<lambda>n. i_val n \<noteq> None) ?ns)"
  let ?nh = "length (array_keys t) + ?use + 1 - ?na"
  let ?e = "if 0 < arrayindex ek \<and> arrayindex ek \<le> int s then 1 else 0 :: nat"
  have "?na + leftover t s = length (array_keys t) + ?use + ?e"
    using array_keys_split [OF ok_array(2) [OF ok], of s] hash_keys_split [OF s(2), of ?ns] index_of_filter [OF s(2), of ek]
    by (simp add: leftover_def flip: rev_filter)
  then have nh: "?nh = leftover t s + (1 - ?e)" by auto
  have use: "?use = length (filter (\<lambda>n. i_val n \<noteq> None) (node t))" by (simp flip: rev_filter)
  have "?nh \<le> population t + 1" unfolding population_def use by simp
  then have m: "?nh \<le> MAXASIZE" using pop by linarith
  have "leftover t s \<le> ?nh" unfolding nh by simp
  from resize_ok [OF ok len s(2) this m, of grow] obtain t' where
    t': "resize_with (newkey_with grow h) h t s ?nh = Inr t'" "table_ok h t'" "sizearray t' = s" "length (array t') = s"
      "?nh \<le> capacity t'" "card (used (node t')) \<le> leftover t s" "\<And>k. present k \<Longrightarrow> contents t' k = contents t k"
    by blast
  show thesis
  proof (rule that [of t'])
    have "length (array_keys t) + length (hash_keys ?ns) + length (index_of ek) = length ?ks" by simp
    then show "rehash_with (newkey_with grow h) h t ek = Inr t'"
      unfolding rehash_with_def by (simp only: n1(1) n2(1) n3(1) s(1) t'(1) bindR.simps split)
    show "in_array t' ek \<or> card (used (node t')) < capacity t'"
      using t'(3,5,6) unfolding nh by (auto simp: in_array_def split: if_splits)
  qed (use t' in \<open>auto simp: table_inv_def\<close>)
qed

lemma table_inv_lastfree:
  assumes "table_inv h t" "f \<le> 0" "is_dummy t \<or> used (node t) = {..<length (node t)}"
  shows "table_inv h (t\<lparr>lastfree := f\<rparr>)" "contents (t\<lparr>lastfree := f\<rparr>) k = contents t k" "population (t\<lparr>lastfree := f\<rparr>) = population t"
proof -
  have "f \<le> 2 ^ lsizenode t" using assms(2) by (rule order_trans) simp
  then show "table_inv h (t\<lparr>lastfree := f\<rparr>)"
    using assms by (auto simp: table_inv_def table_ok_def in_array_def used_def split: if_splits)
qed (simp_all add: contents_def in_array_def population_def array_keys_def)

lemma rawset_assign: "lua_rawset h t k v = assign_with (newkey 2 h) h t k v"
  by (simp add: lua_rawset_def luaH_set_def assign_with_def)

lemma newkey_Suc_eq:
  "newkey (Suc d) h = newkey_with (\<lambda>t k. bindR (rehash_with (newkey d h) h t k) (\<lambda>t. luaH_set_with (newkey d h) h t k)) h"
  by (simp add: fun_eq_iff)

lemma rawset_ok:
  fixes t :: "'v Table"
  assumes inv: "table_inv h t" and k: "present k" and pop: "population t < MAXASIZE"
  obtains t' where "lua_rawset h t k v = Inr t'" "table_inv h t'"
    "\<And>k'. present k' \<Longrightarrow> contents t' k' = (if luaO_rawequalObj k k' then v else contents t k')"
proof -
  have ok: "table_ok h t" using inv by (simp add: table_inv_def)
  let ?grow = "\<lambda>t k. bindR (rehash_with (newkey 1 h) h t k) (\<lambda>t. luaH_set_with (newkey 1 h) h t k)"
  have two: "newkey 2 h = newkey_with ?grow h" using newkey_Suc_eq [of 1 h] by (simp add: numeral_2_eq_2)
  obtain grow :: "'v Table \<Rightarrow> key \<Rightarrow> ('v Table \<times> slot) res" where one: "newkey 1 h = newkey_with grow h" using newkey_Suc_eq [of 0 h] by simp
  show thesis
  proof (cases rule: assign_cases [OF ok k, where grow = ?grow and v = v])
    case (1 t')
    then show thesis using inv by (intro that [of t']) (auto simp: rawset_assign two assigned_def table_inv_def same_shape_def)
  next
    case (2 f)
    let ?t = "t\<lparr>lastfree := f\<rparr>"
    note f = table_inv_lastfree [OF inv 2(2,3)]
    from rehash_ok [OF f(1), of grow k] f(3) pop obtain t1 where
      t1: "rehash_with (newkey 1 h) h ?t k = Inr t1" "table_inv h t1" "in_array t1 k \<or> card (used (node t1)) < capacity t1"
        "\<And>k. present k \<Longrightarrow> contents t1 k = contents t k" unfolding one f(2) by metis
    then have ok1: "table_ok h t1" by (simp add: table_inv_def)
    from assign_room [OF ok1 k t1(3), of grow v] obtain t' where
      t': "assign_with (newkey 1 h) h t1 k v = Inr t'" "assigned h t1 k v t'" "same_shape t1 t'" unfolding one by metis
    show thesis
    proof (rule that [of t'])
      show "lua_rawset h t k v = Inr t'"
        using 2(1) t1(1) t'(1) by (simp add: rawset_assign two bindR_assoc assign_with_def)
      show "table_inv h t'" using t1(2) t'(2,3) by (simp add: table_inv_def assigned_def same_shape_def)
      show "contents t' k' = (if luaO_rawequalObj k k' then v else contents t k')" if "present k'" for k'
        using t'(2) t1(4) [OF that] that by (simp add: assigned_def)
    qed
  qed
qed

lemma new_ok:
  assumes "narray \<le> MAXASIZE" "nhash \<le> MAXASIZE"
  obtains t :: "'v Table" where "luaH_new narray nhash = Inr t" "table_inv h t" "\<And>k. contents t k = None"
proof -
  let ?u = "setarrayvector \<lparr>array = [], sizearray = 0, node = [empty_node], lsizenode = 0, lastfree = 0, is_dummy = True\<rparr> narray
      :: 'v Table"
  have u: "array ?u = replicate narray None" "sizearray ?u = narray" by (simp_all add: setarrayvector_def)
  from setnodevector_cases [OF assms(2), of ?u h] obtain t where
    t: "setnodevector ?u nhash = Inr t" "array t = array ?u" "sizearray t = sizearray ?u"
      "node t = replicate (2 ^ lsizenode t) empty_node" "table_ok h t"
    using u assms(1) by (metis length_replicate order_refl)
  show thesis
  proof (rule that [of t])
    show "contents t k = None" for k
      using contents_empty [OF t(4), of k] u t(2,3) by (auto simp: in_array_def)
  qed (use t u in \<open>auto simp: luaH_new_def table_inv_def\<close>)
qed

text \<open>C22: a table is a map: whatever has been stored in it before, storing a value under a key that is
  neither nil nor NaN succeeds, growing the array and the hash part as needed, and afterwards reading
  gives the value for the keys equal to that one and what it gave before for all others; chains are
  followed within the vector of nodes and end, and the table is in order again.\<close>

theorem table_is_a_map:
  assumes "table_inv h t" "present k" "population t < MAXASIZE"
  shows "\<exists>t'. lua_rawset h t k v = Inr t' \<and> table_inv h t' \<and>
     (\<forall>k'. present k' \<longrightarrow> lua_rawget h t' k' = (if luaO_rawequalObj k k' then Inr v else lua_rawget h t k'))"
proof -
  from rawset_ok [OF assms, of v] obtain t' where t': "lua_rawset h t k v = Inr t'" "table_inv h t'"
    "\<And>k'. present k' \<Longrightarrow> contents t' k' = (if luaO_rawequalObj k k' then v else contents t k')" by blast
  then have "table_ok h t" "table_ok h t'" using assms(1) by (simp_all add: table_inv_def)
  with t' show ?thesis by (intro exI [of _ t']) (auto simp: rawget_contents)
qed

definition one_key_table :: "nat Table" where
  "one_key_table = \<lparr>array = [Some 5], sizearray = 1, node = [empty_node], lsizenode = 0, lastfree = 0, is_dummy = True\<rparr>"

lemma one_key_table: "table_inv h one_key_table" "population one_key_table = 1"
proof -
  have "nodes_ok mp [empty_node]" for mp :: "key \<Rightarrow> nat" using nodes_ok_empty [of mp 1] by simp
  then show "table_inv h one_key_table"
    by (simp add: one_key_table_def table_inv_def table_ok_def MAXASIZE_def MAXBITS_def in_array_def arrayindex_def)
  show "population one_key_table = 1" by (simp add: one_key_table_def population_def array_keys_def)
qed

theorem table_is_a_map_witness:
  "\<exists>t'. lua_rawset (\<lambda>_. 7) one_key_table (Str 1000) (Some 6) = Inr t' \<and> table_inv (\<lambda>_. 7) t' \<and>
     lua_rawget (\<lambda>_. 7) t' (Str 1000) = Inr (Some 6)"
proof -
  have "\<exists>t'. lua_rawset (\<lambda>_. 7) one_key_table (Str 1000) (Some 6) = Inr t' \<and> table_inv (\<lambda>_. 7) t' \<and>
     (\<forall>k'. present k' \<longrightarrow> lua_rawget (\<lambda>_. 7) t' k' = (if luaO_rawequalObj (Str 1000) k' then Inr (Some 6)
        else lua_rawget (\<lambda>_. 7) one_key_table k'))"
    by (rule table_is_a_map) (simp_all add: one_key_table MAXASIZE_def MAXBITS_def)
  then obtain t' where t': "lua_rawset (\<lambda>_. 7) one_key_table (Str 1000) (Some 6) = Inr t'" "table_inv (\<lambda>_. 7) t'"
     "\<forall>k'. present k' \<longrightarrow> lua_rawget (\<lambda>_. 7) t' k' = (if luaO_rawequalObj (Str 1000) k' then Inr (Some 6)
        else lua_rawget (\<lambda>_. 7) one_key_table k')" by blast
  from t'(3) [rule_format, of "Str 1000"] t'(1,2) show ?thesis by auto
qed

lemma bad_keys:
  assumes "table_inv h t"
  shows "lua_rawset h t Nil v = Inl (LuaError ''table index is nil'')"
    and "luai_numisnan n \<Longrightarrow> lua_rawset h t (Number n) v = Inl (LuaError ''table index is NaN'')"
proof -
  have ok: "table_ok h t" using assms by (simp add: table_inv_def)
  show "lua_rawset h t Nil v = Inl (LuaError ''table index is nil'')"
    by (simp add: lua_rawset_def luaH_set_def luaH_set_with_def luaH_get_def)
  assume n: "luai_numisnan n"
  then have e: "\<not> luaO_rawequalObj k (Number n)" for k by (cases k) (simp_all add: luai_numeq_def)
  have "\<not> in_array t (Number n)" unfolding in_array_def using arrayindex_eq [of "Number n"] e rawequal_sym by blast
  with luaH_get_cases [OF ok, of "Number n"] e have "luaH_get h t (Number n) = Inr None" by blast
  with n show "lua_rawset h t (Number n) v = Inl (LuaError ''table index is NaN'')"
    by (simp add: lua_rawset_def luaH_set_def luaH_set_with_def)
qed

lemma resizearray_ok:
  fixes t :: "'v Table"
  assumes inv: "table_inv h t" and s: "sizearray t \<le> s" "s \<le> MAXASIZE"
  obtains t' where "luaH_resizearray h t s = Inr t'" "table_inv h t'" "sizearray t' = s"
    "\<And>k. present k \<Longrightarrow> contents t' k = contents t k"
proof -
  have ok: "table_ok h t" and len: "length (array t) = sizearray t" using inv by (simp_all add: table_inv_def)
  let ?nh = "if is_dummy t then 0 else sizenode t"
  have "leftover t s \<le> ?nh"
  proof (cases "is_dummy t")
    case True
    then have "length (node t) = 1" "i_val (node t ! 0) = None"
      using ok_dummy [OF ok True] ok_length(1) [OF ok] ok_dead [OF ok_nodes [OF ok], of 0] by auto
    then obtain n where "node t = [n]" "i_val n = None" by (cases "node t") auto
    with s(1) show ?thesis by (simp add: leftover_def to_hash_def)
  next
    case False
    with s(1) ok_length(1) [OF ok] show ?thesis by (simp add: leftover_def sizenode_def) (metis length_filter_le)
  qed
  moreover have "?nh \<le> MAXASIZE" using ok_length(2) [OF ok] by (simp add: sizenode_def MAXASIZE_def)
  moreover obtain grow :: "'v Table \<Rightarrow> key \<Rightarrow> ('v Table \<times> slot) res" where "newkey 2 h = newkey_with grow h" using newkey_Suc_eq [of 1 h] by (simp add: numeral_2_eq_2)
  ultimately obtain t' where "luaH_resizearray h t s = Inr t'" "table_ok h t'" "sizearray t' = s" "length (array t') = s"
    "\<And>k. present k \<Longrightarrow> contents t' k = contents t k"
    using resize_ok [OF ok len s(2), of ?nh grow] unfolding luaH_resizearray_def by metis
  then show thesis by (intro that [of t']) (simp_all add: table_inv_def)
qed

end
