(* ===== verification/LuaNext.thy ===== *)
theory LuaNext
  imports LuaRehash
begin

text \<open>
  Traversing a table (\<^verbatim>\<open>luaH_next\<close>, also after the collector has marked keys as dead) and finding its
  length (\<^verbatim>\<open>luaH_getn\<close>).
\<close>

section \<open>Dead keys\<close>

text \<open>\<^verbatim>\<open>removeentry\<close> of \<^verbatim>\<open>src/lgc.c\<close>, for node \<open>i\<close>, which has no value.\<close>

definition removeentry :: "'v Table \<Rightarrow> nat \<Rightarrow> 'v Table res" where
  "removeentry t i =
     bindR (nthR (node t) i) (\<lambda>n.
       case gcvalue (i_key n) of
         Some a \<Rightarrow> Inr (t\<lparr>node := (node t)[i := n\<lparr>i_key := DeadKey a\<rparr>]\<rparr>)
       | None \<Rightarrow> Inr t)"

text \<open>What \<^verbatim>\<open>traversetable\<close> does to the nodes of a table that is not weak: the last node first, every entry
  without a value loses its key.\<close>

definition sweep_entry :: "nat \<Rightarrow> 'v Table \<Rightarrow> 'v Table res" where
  "sweep_entry i t = bindR (nthR (node t) i) (\<lambda>n. if i_val n = None then removeentry t i else Inr t)"

definition traversetable :: "'v Table \<Rightarrow> 'v Table res" where
  "traversetable t = foldMR sweep_entry (rev [0..<sizenode t]) t"

lemma gcvalue_present: "gcvalue k = Some a \<Longrightarrow> present k \<and> arrayindex k = - 1 \<and> k \<noteq> Nil"
  by (cases k) (auto simp: arrayindex_def)

lemma removeentry_ok:
  assumes inv: "table_inv h t" and i: "i < length (node t)" "i_val (node t ! i) = None"
  obtains t' where "removeentry t i = Inr t'" "table_inv h t'" "\<And>k. present k \<Longrightarrow> contents t' k = contents t k"
proof (cases "gcvalue (i_key (node t ! i))")
  case None
  with i inv show thesis by (intro that [of t]) (simp_all add: removeentry_def)
next
  case (Some a)
  have ok: "table_ok h t" using inv by (simp add: table_inv_def)
  note nodes = ok_nodes [OF ok] and live = gcvalue_present [OF Some]
  define ns where "ns = (node t)[i := (node t ! i)\<lparr>i_key := DeadKey a\<rparr>]"
  have len: "length ns = length (node t)" by (simp add: ns_def)
  have key: "i_key (ns ! j) = (if j = i then DeadKey a else i_key (node t ! j))" if "j < length (node t)" for j
    using that i(1) by (auto simp: ns_def nth_list_update)
  have same: "i_val (ns ! j) = i_val (node t ! j)" "next_node (ns ! j) = next_node (node t ! j)" if "j < length (node t)" for j
    using that i(1) by (auto simp: ns_def nth_list_update)
  have links: "links ns = links (node t)" using same by (auto simp: links_def len)
  let ?mp = "mainposition h (2 ^ lsizenode t)"
  have dead: "\<not> luaO_rawequalObj k (DeadKey a)" if "present k" for k using that by (cases k) auto
  have "nodes_ok ?mp ns"
  proof (rule nodes_okI, unfold len links)
    show "chained ns" using ok_chained [OF nodes] by (simp add: chained_def links len)
  next
    fix j assume j: "j < length (node t)"
    show "present (i_key (ns ! j)) \<or> i_key (ns ! j) = Nil \<or> (\<exists>a. i_key (ns ! j) = DeadKey a)"
      "\<not> present (i_key (ns ! j)) \<Longrightarrow> i_val (ns ! j) = None"
      "i_key (ns ! j) = Nil \<Longrightarrow> next_node (ns ! j) = None"
      "\<And>q. i_key (ns ! j) = Nil \<Longrightarrow> (q, j) \<notin> links (node t)"
      "present (i_key (ns ! j)) \<Longrightarrow> (?mp (i_key (ns ! j)), j) \<in> (links (node t))\<^sup>*"
      using ok_kinds [OF nodes j] ok_dead [OF nodes j] ok_free [OF nodes j] ok_reach [OF nodes j] i(2)
      by (auto simp: key [OF j] same [OF j] split: if_splits)
    show "i_key (ns ! m) \<noteq> Nil \<and> (present (i_key (ns ! m)) \<longrightarrow> ?mp (i_key (ns ! m)) = m)"
      if p: "present (i_key (ns ! j))" "?mp (i_key (ns ! j)) = m" "m \<noteq> j" for m
    proof -
      have p': "present (i_key (node t ! j))" "?mp (i_key (node t ! j)) = m" using p by (auto simp: key [OF j] split: if_splits)
      have "m < length (node t)" using mainposition_less p'(2) ok_length(1) [OF ok] by metis
      with ok_home [OF nodes j p' p(3)] show ?thesis by (auto simp: key)
    qed
    show "j = q" if "q < length (node t)" "present (i_key (ns ! j))" "luaO_rawequalObj (i_key (ns ! j)) (i_key (ns ! q))" for q
      using that ok_unique [OF nodes j that(1)] dead by (auto simp: key [OF j] key [OF that(1)] split: if_splits)
  qed
  let ?t = "t\<lparr>node := ns\<rparr>"
  have "is_dummy t \<Longrightarrow> i_key (ns ! 0) = Nil"
    using ok_dummy [OF ok] ok_length(1) [OF ok] i(1) live by (cases i) auto
  moreover have "\<not> in_array t (DeadKey a)" by (simp add: in_array_def arrayindex_def)
  ultimately have ok': "table_ok h ?t"
    using ok \<open>nodes_ok ?mp ns\<close> len key unfolding table_ok_def in_array_def by (auto split: if_splits)
  have "entries ns = entries (node t)" by (rule entries_cong) (use len same key i(2) in auto)
  then have c: "contents ?t k = contents t k" if "present k" for k
    using contents_inserted [OF ok ok'] that by simp
  show thesis
  proof (rule that [of ?t])
    show "removeentry t i = Inr ?t" using i Some by (simp add: removeentry_def ns_def)
    show "table_inv h ?t" using ok' inv by (simp add: table_inv_def)
  qed (rule c)
qed

section \<open>Traversal\<close>

definition findindex :: "(64 word \<Rightarrow> 32 word) \<Rightarrow> 'v Table \<Rightarrow> key \<Rightarrow> int res" where
  "findindex h t k =
     (if k = Nil then Inr (- 1)
      else if 0 < arrayindex k \<and> arrayindex k \<le> int (sizearray t) then Inr (arrayindex k - 1)
      else
        bindR (search (length (node t)) (node t)
            (\<lambda>k'. luaO_rawequalObj k' k \<or> (\<exists>a \<in> set_option (gcvalue k). k' = DeadKey a)) (mainposition h (sizenode t) k))
          (\<lambda>r. case r of
             None \<Rightarrow> Inl (LuaError (''invalid key to '' @ [CHR 0x27] @ ''next'' @ [CHR 0x27]))
           | Some i \<Rightarrow> Inr (int i + int (sizearray t))))"

fun next_in_array :: "'v Table \<Rightarrow> nat list \<Rightarrow> (key \<times> 'v) option res" where
  "next_in_array t [] = Inr None"
| "next_in_array t (i # is) =
     bindR (nthR (array t) i) (\<lambda>v.
       case v of Some x \<Rightarrow> Inr (Some (Number (cast_num (int i + 1)), x)) | None \<Rightarrow> next_in_array t is)"

fun next_in_nodes :: "'v Table \<Rightarrow> nat list \<Rightarrow> (key \<times> 'v) option res" where
  "next_in_nodes t [] = Inr None"
| "next_in_nodes t (i # is) =
     bindR (nthR (node t) i) (\<lambda>n.
       case i_val n of Some x \<Rightarrow> Inr (Some (i_key n, x)) | None \<Rightarrow> next_in_nodes t is)"

text \<open>The next key with its value; \<open>None\<close> at the end.\<close>

definition luaH_next :: "(64 word \<Rightarrow> 32 word) \<Rightarrow> 'v Table \<Rightarrow> key \<Rightarrow> (key \<times> 'v) option res" where
  "luaH_next h t k =
     bindR (findindex h t k) (\<lambda>i.
       let i = nat (i + 1) in
       bindR (next_in_array t [i..<sizearray t]) (\<lambda>r.
         if r \<noteq> None then Inr r
         else next_in_nodes t [max i (sizearray t) - sizearray t..<sizenode t]))"

text \<open>A loop over all pairs: the calls of \<open>luaH_next\<close> from nil to the end.  Between two calls the
  program, or the collector, may change the table: \<open>body\<close> is given the pair and the table.  The result
  lists every pair with the table it was found in, and the table at the end.\<close>

fun traverse ::
  "nat \<Rightarrow> (64 word \<Rightarrow> 32 word) \<Rightarrow> (key \<Rightarrow> 'v \<Rightarrow> 'v Table \<Rightarrow> 'v Table res) \<Rightarrow> 'v Table \<Rightarrow> key \<Rightarrow>
     ((key \<times> 'v \<times> 'v Table) list \<times> 'v Table) res"
where
  "traverse 0 h body t k = Inl OutOfFuel"
| "traverse (Suc n) h body t k =
     bindR (luaH_next h t k) (\<lambda>r.
       case r of
         None \<Rightarrow> Inr ([], t)
       | Some (k', v) \<Rightarrow>
           bindR (body k' v t) (\<lambda>t'.
           bindR (traverse n h body t' k') (\<lambda>(es, u). Inr ((k', v, t) # es, u))))"

section \<open>Length\<close>

definition value_num :: "'v Table \<Rightarrow> int \<Rightarrow> 'v option res" where
  "value_num t k = bindR (luaH_getnum t k) (\<lambda>p. case p of None \<Rightarrow> Inr None | Some s \<Rightarrow> slot_value t s)"

text \<open>Binary search between \<open>i\<close> and \<open>j\<close>; \<open>get m\<close> is the value of index \<open>m\<close>.\<close>

function border_search :: "(nat \<Rightarrow> 'v option res) \<Rightarrow> nat \<Rightarrow> nat \<Rightarrow> nat res" where
  "border_search get i j =
     (if j - i > 1 then
        let m = (i + j) div 2 in
        bindR (get m) (\<lambda>v. if v = None then border_search get i m else border_search get m j)
      else Inr i)"
  by pat_completeness auto
termination
  by (relation "measure (\<lambda>(get, i, j). j - i)") auto

declare border_search.simps [simp del]

primrec linear_search :: "nat \<Rightarrow> 'v Table \<Rightarrow> nat \<Rightarrow> nat res" where
  "linear_search 0 t i = Inl OutOfFuel"
| "linear_search (Suc n) t i =
     bindR (value_num t (int i)) (\<lambda>v. if v \<noteq> None then linear_search n t (i + 1) else Inr (i - 1))"

definition MAX_INT_index :: nat where
  "MAX_INT_index = 2 ^ 31 - 3"

text \<open>The doubling loop of \<open>unbound_search\<close>, and what follows it.\<close>

primrec unbound_loop :: "nat \<Rightarrow> 'v Table \<Rightarrow> nat \<Rightarrow> nat \<Rightarrow> nat res" where
  "unbound_loop 0 t i j = Inl OutOfFuel"
| "unbound_loop (Suc n) t i j =
     bindR (value_num t (int j)) (\<lambda>v.
       if v \<noteq> None then
         if 2 * j > MAX_INT_index then linear_search (sizearray t + length (node t) + 1) t 1
         else unbound_loop n t j (2 * j)
       else border_search (\<lambda>m. value_num t (int m)) i j)"

text \<open>\<open>j\<close> is doubled at most 31 times.\<close>

definition unbound_search :: "'v Table \<Rightarrow> nat \<Rightarrow> nat res" where
  "unbound_search t j = unbound_loop 32 t j (j + 1)"

definition luaH_getn :: "'v Table \<Rightarrow> nat res" where
  "luaH_getn t =
     (let j = sizearray t in
      if j > 0 then
        bindR (nthR (array t) (j - 1)) (\<lambda>v.
          if v = None then border_search (\<lambda>m. nthR (array t) (m - 1)) 0 j
          else if is_dummy t then Inr j
          else unbound_search t j)
      else if is_dummy t then Inr j
      else unbound_search t j)"

section \<open>A traversal sees every pair once\<close>

text \<open>The pairs in the order of their positions: the array, then the nodes.\<close>

definition pair_at :: "'v Table \<Rightarrow> nat \<Rightarrow> (key \<times> 'v) option" where
  "pair_at t p =
     (if p < sizearray t then map_option (Pair (Number (cast_num (int p + 1)))) (array t ! p)
      else map_option (Pair (i_key (node t ! (p - sizearray t)))) (i_val (node t ! (p - sizearray t))))"

definition pairs_from :: "'v Table \<Rightarrow> nat \<Rightarrow> (key \<times> 'v) list" where
  "pairs_from t p = List.map_filter (pair_at t) [p..<sizearray t + length (node t)]"

text \<open>What may happen to a table during a traversal: fields that have a value are changed or cleared,
  and entries without a value lose their key.\<close>

definition kept :: "'v Node \<Rightarrow> 'v Node \<Rightarrow> bool" where
  "kept n n' \<longleftrightarrow> next_node n' = next_node n \<and> (i_val n = None \<longrightarrow> i_val n' = None) \<and>
     (i_key n' = i_key n \<or> i_val n' = None \<and> (\<exists>a \<in> set_option (gcvalue (i_key n)). i_key n' = DeadKey a))"

definition permitted :: "'v Table \<Rightarrow> 'v Table \<Rightarrow> bool" where
  "permitted t t' \<longleftrightarrow> sizearray t' = sizearray t \<and> lsizenode t' = lsizenode t \<and>
     list_all2 (\<lambda>v v'. v = None \<longrightarrow> v' = None) (array t) (array t') \<and> list_all2 kept (node t) (node t')"

text \<open>No two nodes, dead or alive, hold the same address.  This is not guaranteed by the code: a dead key
  does not keep its object, so that the address may come back as that of a new key.\<close>

definition address :: "key \<Rightarrow> 64 word option" where
  "address k = (case k of DeadKey a \<Rightarrow> Some a | _ \<Rightarrow> gcvalue k)"

definition no_reuse :: "'v Table \<Rightarrow> bool" where
  "no_reuse t \<longleftrightarrow> (\<forall>i < length (node t). \<forall>j < length (node t).
     address (i_key (node t ! i)) \<noteq> None \<longrightarrow> address (i_key (node t ! i)) = address (i_key (node t ! j)) \<longrightarrow> i = j)"

lemma kept_refl: "kept n n"
  by (simp add: kept_def)

lemma kept_trans: "kept a b \<Longrightarrow> kept b c \<Longrightarrow> kept a c"
  by (auto simp: kept_def)

lemma permitted_refl: "permitted t t"
  by (simp add: permitted_def list_all2_conv_all_nth kept_refl)

lemma permitted_trans:
  assumes "permitted a b" "permitted b c"
  shows "permitted a c"
proof -
  let ?V = "\<lambda>v v'. v = None \<longrightarrow> v' = None"
  have "list_all2 kept (node a) (node c)"
    by (rule list_all2_trans [of kept kept kept "node a" "node b"]) (use assms kept_trans in \<open>auto simp: permitted_def\<close>)
  moreover have "list_all2 ?V (array a) (array c)"
    by (rule list_all2_trans [of ?V ?V ?V "array a" "array b"]) (use assms in \<open>auto simp: permitted_def\<close>)
  ultimately show ?thesis using assms by (simp add: permitted_def)
qed

lemma permittedD:
  assumes "permitted t t'"
  shows "sizearray t' = sizearray t" "lsizenode t' = lsizenode t" "length (node t') = length (node t)"
    "j < length (node t) \<Longrightarrow> kept (node t ! j) (node t' ! j)"
    "q < length (array t) \<Longrightarrow> array t ! q = None \<Longrightarrow> array t' ! q = None"
    "links (node t') = links (node t)"
proof -
  show l: "length (node t') = length (node t)" and k: "j < length (node t) \<Longrightarrow> kept (node t ! j) (node t' ! j)" for j
    using assms by (auto simp: permitted_def list_all2_conv_all_nth)
  have "next_node (node t' ! j) = next_node (node t ! j)" if "j < length (node t)" for j
    using k [OF that] by (simp add: kept_def)
  then show "links (node t') = links (node t)" by (auto simp: links_def l)
qed (use assms in \<open>auto simp: permitted_def list_all2_conv_all_nth\<close>)

lemma kept_address: "kept n n' \<Longrightarrow> address (i_key n') = address (i_key n)"
  by (cases "i_key n") (auto simp: kept_def address_def)

lemma permitted_no_reuse: "permitted t t' \<Longrightarrow> no_reuse t \<Longrightarrow> no_reuse t'"
  by (simp add: no_reuse_def permittedD(3) kept_address [OF permittedD(4)])

text \<open>Assigning to a field that has a value, and what the collector does, are permitted.\<close>

lemma rawset_permitted:
  assumes inv: "table_inv h t" and k: "present k" "contents t k \<noteq> None"
  obtains t' where "lua_rawset h t k v = Inr t'" "table_inv h t'" "permitted t t'"
proof -
  have ok: "table_ok h t" and len: "length (array t) = sizearray t" using inv by (simp_all add: table_inv_def)
  have kNil: "k \<noteq> Nil" using k by auto
  from ok kNil show thesis
  proof (cases rule: luaH_get_cases)
    case array
    note store = store_array [OF ok array(1), where v = v]
    have "array t ! nat (arrayindex k - 1) \<noteq> None" "nat (arrayindex k - 1) < length (array t)"
      using k(2) array(1) ok_array(1) [OF ok] by (auto simp: contents_def in_array_def)
    then have "permitted t (t\<lparr>array := (array t)[nat (arrayindex k - 1) := v]\<rparr>)"
      by (auto simp: permitted_def list_all2_conv_all_nth kept_refl nth_list_update)
    with store array(2) len show thesis
      by (intro that) (auto simp: table_inv_def lua_rawset_def luaH_set_def luaH_set_with_def)
  next
    case (node j)
    note store = store_node [OF ok node(1) k(1) node(3,4), where v = v]
    have "i_val (node t ! j) \<noteq> None"
      using k(2) node(1) node_value_at [OF ok_nodes [OF ok] node(3,4) k(1)] by (simp add: contents_def)
    then have "permitted t (t\<lparr>node := (node t)[j := (node t ! j)\<lparr>i_val := v\<rparr>]\<rparr>)"
      using node(3) by (auto simp: permitted_def list_all2_conv_all_nth kept_def nth_list_update)
    with store(1,2) node(2) len show thesis
      by (intro that) (auto simp: table_inv_def lua_rawset_def luaH_set_def luaH_set_with_def)
  next
    case none
    with rawget_contents [OF ok k(1)] k(2) show thesis by (simp add: lua_rawget_def)
  qed
qed

lemma sweep_permitted:
  assumes inv: "table_inv h t" and i: "i < length (node t)"
  obtains t' where "sweep_entry i t = Inr t'" "table_inv h t'" "permitted t t'"
proof (cases "i_val (node t ! i) = None")
  case False
  with i inv show thesis by (intro that [of t]) (auto simp: sweep_entry_def permitted_refl)
next
  case True
  from removeentry_ok [OF inv i True] obtain t' where t': "removeentry t i = Inr t'" "table_inv h t'" by blast
  have "permitted t t'"
    using t'(1) i True
    by (auto simp: removeentry_def permitted_def list_all2_conv_all_nth kept_def nth_list_update split: option.splits if_splits)
  with t' i True show thesis by (intro that [of t']) (simp_all add: sweep_entry_def)
qed

lemma traversetable_permitted:
  assumes inv: "table_inv h t"
  obtains t' where "traversetable t = Inr t'" "table_inv h t'" "permitted t t'"
proof -
  have "\<exists>t'. foldMR sweep_entry is u = Inr t' \<and> table_inv h t' \<and> permitted t t'"
    if "set is \<subseteq> {..<length (node t)}" "table_inv h u" "permitted t u" for "is" u
    using that
  proof (induction "is" arbitrary: u)
    case (Cons i "is")
    have "i < length (node u)" using Cons.prems(1) permittedD(3) [OF Cons.prems(3)] by simp
    from sweep_permitted [OF Cons.prems(2) this] obtain u' where u': "sweep_entry i u = Inr u'" "table_inv h u'" "permitted u u'" .
    from Cons.IH [OF _ u'(2) permitted_trans [OF Cons.prems(3) u'(3)]] Cons.prems(1) u'(1) show ?case by simp
  qed simp
  moreover have "set (rev [0..<sizenode t]) \<subseteq> {..<length (node t)}"
    using inv ok_length(1) [of h t] by (auto simp: sizenode_def table_inv_def)
  ultimately show thesis using inv permitted_refl that unfolding traversetable_def by blast
qed

lemma pair_at_present:
  assumes ok: "table_ok h t" and p: "p < sizearray t + length (node t)" "pair_at t p = Some (k, v)"
  shows "present k" "k \<noteq> Nil"
proof -
  show "present k"
  proof (cases "p < sizearray t")
    case True
    then have "int p + 1 < 2 ^ 31" using ok_array(2) [OF ok] by (simp add: MAXASIZE_def MAXBITS_def)
    from array_node_present [OF this, of t] p(2) True show ?thesis by (auto simp: pair_at_def array_node_def)
  next
    case False
    with p(1) have "p - sizearray t < length (node t)" by auto
    with p False ok_dead [OF ok_nodes [OF ok], of "p - sizearray t"] show ?thesis by (auto simp: pair_at_def)
  qed
  then show "k \<noteq> Nil" by auto
qed

text \<open>A key found in one table is found again in a later one, dead or alive.\<close>

lemma findindex_pair:
  assumes ok: "table_ok h t" and alone: "no_reuse t" and p: "p < sizearray t + length (node t)" "pair_at t p = Some (k, v)"
    and ok': "table_ok h t'" and change: "permitted t t'"
  shows "findindex h t' k = Inr (int p)"
proof (cases "p < sizearray t")
  case True
  then have b: "int p + 1 < 2 ^ 31" using ok_array(2) [OF ok] by (simp add: MAXASIZE_def MAXBITS_def)
  have k: "k = Number (cast_num (int p + 1))" using True p(2) by (auto simp: pair_at_def)
  have "arrayindex k = int p + 1" using b by (simp add: k arrayindex_cast)
  with True k permittedD(1) [OF change] show ?thesis by (simp add: findindex_def)
next
  case False
  define j where "j = p - sizearray t"
  have j: "j < length (node t)" "p = j + sizearray t" "i_key (node t ! j) = k" using False p by (auto simp: j_def pair_at_def)
  note nodes = ok_nodes [OF ok] and kp = pair_at_present [OF ok p] and D = permittedD [OF change]
  have na: "\<not> in_array t k" using ok_split [OF ok j(1)] j(3) by simp
  let ?P = "\<lambda>k'. luaO_rawequalObj k' k \<or> (\<exists>a \<in> set_option (gcvalue k). k' = DeadKey a)"
  have P: "q = j" if q: "q < length (node t)" "?P (i_key (node t' ! q))" for q
  proof (cases "luaO_rawequalObj (i_key (node t' ! q)) k")
    case True
    then have pr: "present (i_key (node t' ! q))" using kp(1) rawequal_present by blast
    then have "i_key (node t' ! q) = i_key (node t ! q)" using D(4) [OF q(1)] by (auto simp: kept_def)
    with True pr j(3) ok_unique [OF nodes q(1) j(1)] show ?thesis by simp
  next
    case False
    with q(2) obtain a where a: "gcvalue k = Some a" "i_key (node t' ! q) = DeadKey a" by auto
    then have "address (i_key (node t ! q)) = Some a"
      using kept_address [OF D(4) [OF q(1)]] by (simp add: address_def)
    moreover have "address (i_key (node t ! j)) = Some a" using a(1) j(3) by (cases k) (simp_all add: address_def)
    ultimately show ?thesis using alone q(1) j(1) by (simp add: no_reuse_def)
  qed
  have self: "?P (i_key (node t' ! j))"
    using D(4) [OF j(1)] j(3) rawequal_refl [OF kp(1)] by (auto simp: kept_def)
  have m: "mainposition h (2 ^ lsizenode t) k < length (node t')" using mainposition_less ok_length(1) [OF ok] D(3) by metis
  have r: "(mainposition h (2 ^ lsizenode t) k, j) \<in> (links (node t'))\<^sup>*"
    using ok_reach [OF nodes j(1)] kp(1) j(3) D(6) by simp
  have "search (length (node t')) (node t') ?P (mainposition h (2 ^ lsizenode t) k) = Inr (Some j)"
  proof (cases rule: search_chained [OF ok_chained [OF ok_nodes [OF ok']] m, of ?P])
    case (1 q)
    with P [of q] D(3) show ?thesis by simp
  next
    case 2
    with r self show ?thesis by blast
  qed
  with na kp(2) j(2) D(1-3) show ?thesis by (simp add: findindex_def sizenode_def in_array_def)
qed

lemma next_in_array_eq:
  "p \<le> sizearray t \<Longrightarrow> sizearray t \<le> length (array t) \<Longrightarrow>
     next_in_array t [p..<sizearray t] =
       Inr (case List.map_filter (pair_at t) [p..<sizearray t] of [] \<Rightarrow> None | e # es \<Rightarrow> Some e)"
proof (induction "sizearray t - p" arbitrary: p)
  case (Suc n)
  then have u: "[p..<sizearray t] = p # [Suc p..<sizearray t]" "p < sizearray t" by (simp_all add: upt_conv_Cons)
  show ?case
  proof (cases "array t ! p")
    case None
    with u Suc show ?thesis by (simp add: map_filter_simps pair_at_def)
  next
    case (Some v)
    with u Suc.prems show ?thesis by (simp add: map_filter_simps pair_at_def add.commute)
  qed
qed (simp add: map_filter_simps)

lemma next_in_nodes_eq:
  "q \<le> length (node t) \<Longrightarrow>
     next_in_nodes t [q..<length (node t)] =
       Inr (case List.map_filter (pair_at t) [sizearray t + q..<sizearray t + length (node t)] of [] \<Rightarrow> None | e # es \<Rightarrow> Some e)"
proof (induction "length (node t) - q" arbitrary: q)
  case (Suc n)
  then have u: "[q..<length (node t)] = q # [Suc q..<length (node t)]" "q < length (node t)"
    "[sizearray t + q..<sizearray t + length (node t)] = (sizearray t + q) # [sizearray t + Suc q..<sizearray t + length (node t)]"
    by (simp_all add: upt_conv_Cons)
  show ?case
  proof (cases "i_val (node t ! q)")
    case None
    with u Suc show ?thesis by (simp add: map_filter_simps pair_at_def)
  next
    case (Some v)
    with u Suc.prems show ?thesis by (simp add: map_filter_simps pair_at_def)
  qed
qed (simp add: map_filter_simps)

lemma luaH_next_pairs:
  assumes ok: "table_ok h t" and p: "p \<le> sizearray t + length (node t)" and i: "findindex h t k = Inr (int p - 1)"
  shows "luaH_next h t k = Inr (case pairs_from t p of [] \<Rightarrow> None | e # es \<Rightarrow> Some e)"
proof (cases "p \<le> sizearray t")
  case True
  let ?as = "List.map_filter (pair_at t) [p..<sizearray t]"
  have "[p..<sizearray t + length (node t)] = [p..<sizearray t] @ [sizearray t..<sizearray t + length (node t)]"
    using True by (metis le_Suc_ex upt_add_eq_append le_add1 nat_le_iff_add)
  then have split: "pairs_from t p = ?as @ List.map_filter (pair_at t) [sizearray t..<sizearray t + length (node t)]"
    by (simp add: pairs_from_def map_filter_def)
  from True next_in_array_eq [OF True ok_array(1) [OF ok]] next_in_nodes_eq [of 0 t] ok_length(1) [OF ok] show ?thesis
    by (cases ?as) (simp_all add: luaH_next_def i split sizenode_def)
next
  case False
  then obtain q where q: "p = sizearray t + q" by (metis le_iff_add nat_le_linear)
  with p have "q \<le> length (node t)" by simp
  with next_in_nodes_eq [OF this] False q ok_length(1) [OF ok] show ?thesis
    by (simp add: luaH_next_def i pairs_from_def sizenode_def nat_int_add)
qed

lemma pair_position:
  assumes ok: "table_ok h t"
    and p: "p < sizearray t + length (node t)" "pair_at t p = Some (k, v)"
    and q: "q < sizearray t + length (node t)" "pair_at t q = Some (k', v')" and e: "luaO_rawequalObj k k'"
  shows "p = q"
proof -
  have index: "arrayindex k = int p + 1" if "p < sizearray t" "pair_at t p = Some (k, v)" for p k v
  proof -
    have "int p + 1 < 2 ^ 31" using that(1) ok_array(2) [OF ok] by (simp add: MAXASIZE_def MAXBITS_def)
    with that show ?thesis by (auto simp: pair_at_def arrayindex_cast)
  qed
  have nodes: "p - sizearray t < length (node t) \<and> i_key (node t ! (p - sizearray t)) = k \<and> \<not> in_array t k"
    if "\<not> p < sizearray t" "p < sizearray t + length (node t)" "pair_at t p = Some (k, v)" for p k v
  proof -
    have j: "p - sizearray t < length (node t)" using that(1,2) by auto
    with ok_split [OF ok j] that(1,3) show ?thesis by (auto simp: pair_at_def)
  qed
  have same: "arrayindex k = arrayindex k'" by (rule arrayindex_rawequal [OF e])
  consider "p < sizearray t" "q < sizearray t" | "p < sizearray t" "\<not> q < sizearray t"
    | "\<not> p < sizearray t" "q < sizearray t" | "\<not> p < sizearray t" "\<not> q < sizearray t" by blast
  then show ?thesis
  proof cases
    case 1
    with index [OF 1(1) p(2)] index [OF 1(2) q(2)] same show ?thesis by simp
  next
    case 2
    with index [OF 2(1) p(2)] nodes [OF 2(2) q] same show ?thesis by (simp add: in_array_def)
  next
    case 3
    with index [OF 3(2) q(2)] nodes [OF 3(1) p] same show ?thesis by (simp add: in_array_def)
  next
    case 4
    note n = nodes [OF 4(1) p] nodes [OF 4(2) q]
    have "p - sizearray t = q - sizearray t"
      by (rule ok_unique [OF ok_nodes [OF ok]]) (use n e pair_at_present(1) [OF ok p] in auto)
    with 4 show ?thesis by simp
  qed
qed

lemma pairs_distinct:
  assumes ok: "table_ok h t"
  shows "sorted_wrt (\<lambda>e e'. \<not> luaO_rawequalObj (fst e) (fst e')) (pairs_from t p)"
proof -
  have "sorted_wrt (\<lambda>e e'. \<not> luaO_rawequalObj (fst e) (fst e')) (List.map_filter (pair_at t) ps)"
    if "sorted_wrt (<) ps" "set ps \<subseteq> {..<sizearray t + length (node t)}" for ps
    using that
  proof (induction ps)
    case (Cons p ps)
    have "\<not> luaO_rawequalObj (fst e) (fst e')" if "pair_at t p = Some e" "q \<in> set ps" "pair_at t q = Some e'" for e e' q
      using pair_position [OF ok, of p "fst e" "snd e" q "fst e'" "snd e'"] that Cons.prems by auto
    with Cons show ?case by (auto simp: map_filter_simps map_filter_def split: option.split)
  qed (simp add: map_filter_simps)
  from this [of "[p..<sizearray t + length (node t)]"] show ?thesis by (simp add: pairs_from_def sorted_wrt_upt subset_eq)
qed

lemma pairs_contents:
  assumes ok: "table_ok h t" and k: "present k"
  shows "contents t k = Some v \<longleftrightarrow> (\<exists>k'. luaO_rawequalObj k' k \<and> (k', v) \<in> set (pairs_from t 0))"
proof -
  have mem: "e \<in> set (pairs_from t 0) \<longleftrightarrow> (\<exists>p < sizearray t + length (node t). pair_at t p = Some e)" for e
    by (auto simp: pairs_from_def map_filter_def image_iff)
  show ?thesis
  proof
    assume c: "contents t k = Some v"
    show "\<exists>k'. luaO_rawequalObj k' k \<and> (k', v) \<in> set (pairs_from t 0)"
    proof (cases "in_array t k")
      case True
      define p where "p = nat (arrayindex k - 1)"
      have p: "p < sizearray t" "arrayindex k = int p + 1" using True by (auto simp: in_array_def p_def)
      with c True have "pair_at t p = Some (Number (cast_num (arrayindex k)), v)"
        by (simp add: pair_at_def contents_def p_def [symmetric])
      moreover have "luaO_rawequalObj (Number (cast_num (arrayindex k))) k"
        using arrayindex_eq [of k] p(2) rawequal_sym by simp
      ultimately show ?thesis using p(1) mem by (metis trans_less_add1)
    next
      case False
      with c have "node_value (node t) k = Some v" by (simp add: contents_def)
      with node_value_entries [OF ok_nodes [OF ok] k] obtain j where
        "j < length (node t)" "luaO_rawequalObj (i_key (node t ! j)) k" "i_val (node t ! j) = Some v" by (auto simp: entries_def)
      then show ?thesis using mem
        by (intro exI [of _ "i_key (node t ! j)"]) (auto simp: pair_at_def intro!: exI [of _ "sizearray t + j"])
    qed
  next
    assume "\<exists>k'. luaO_rawequalObj k' k \<and> (k', v) \<in> set (pairs_from t 0)"
    then obtain k' p where e: "luaO_rawequalObj k' k" and p: "p < sizearray t + length (node t)" "pair_at t p = Some (k', v)"
      using mem by blast
    have "contents t k' = Some v"
    proof (cases "p < sizearray t")
      case True
      then have "int p + 1 < 2 ^ 31" using ok_array(2) [OF ok] by (simp add: MAXASIZE_def MAXBITS_def)
      with True p(2) show ?thesis by (auto simp: pair_at_def contents_def in_array_def arrayindex_cast)
    next
      case False
      then have j: "p - sizearray t < length (node t)" "i_key (node t ! (p - sizearray t)) = k'"
        "i_val (node t ! (p - sizearray t)) = Some v" using p by (auto simp: pair_at_def)
      have "luaO_rawequalObj (i_key (node t ! (p - sizearray t))) k'"
        using j(2) rawequal_refl pair_at_present(1) [OF ok p] by simp
      from node_value_at [OF ok_nodes [OF ok] j(1) this pair_at_present(1) [OF ok p]] j ok_split [OF ok j(1)]
      show ?thesis by (simp add: contents_def)
    qed
    with contents_rawequal [OF e, of t] show "contents t k = Some v" by simp
  qed
qed

lemma first_pair:
  "List.map_filter f [p..<n] = e # es \<Longrightarrow> \<exists>q. p \<le> q \<and> q < n \<and> f q = Some e \<and> (\<forall>r. p \<le> r \<and> r < q \<longrightarrow> f r = None)"
proof (induction "n - p" arbitrary: p)
  case (Suc m)
  then have u: "[p..<n] = p # [Suc p..<n]" "p < n" by (simp_all add: upt_conv_Cons)
  show ?case
  proof (cases "f p")
    case None
    with Suc.prems u have "List.map_filter f [Suc p..<n] = e # es" by (simp add: map_filter_simps)
    moreover have "m = n - Suc p" using Suc.hyps(2) by simp
    ultimately obtain q where
      q: "Suc p \<le> q" "q < n" "f q = Some e" "\<forall>r. Suc p \<le> r \<and> r < q \<longrightarrow> f r = None"
      using Suc.hyps(1) [of "Suc p"] by blast
    have "f r = None" if "p \<le> r" "r < q" for r using that q(4) None by (cases "r = p") auto
    with q show ?thesis by (intro exI [of _ q]) auto
  next
    case (Some x)
    with Suc.prems u show ?thesis by (intro exI [of _ p]) (auto simp: map_filter_simps)
  qed
qed (simp add: map_filter_simps)

lemma luaH_next_position:
  assumes ok: "table_ok h t" and p: "p \<le> sizearray t + length (node t)" and i: "findindex h t k = Inr (int p - 1)"
  obtains (last) "luaH_next h t k = Inr None" "\<And>r. p \<le> r \<Longrightarrow> r < sizearray t + length (node t) \<Longrightarrow> pair_at t r = None"
  | (more) q e where "luaH_next h t k = Inr (Some e)" "p \<le> q" "q < sizearray t + length (node t)" "pair_at t q = Some e"
      "\<And>r. p \<le> r \<Longrightarrow> r < q \<Longrightarrow> pair_at t r = None"
proof (cases "pairs_from t p")
  case Nil
  then have "pair_at t r = None" if "p \<le> r" "r < sizearray t + length (node t)" for r
    using that by (cases "pair_at t r") (auto simp: pairs_from_def map_filter_def filter_empty_conv)
  with Nil luaH_next_pairs [OF ok p i] show thesis by (intro last) simp_all
next
  case (Cons e es)
  from first_pair [OF Cons [unfolded pairs_from_def]] luaH_next_pairs [OF ok p i] Cons show thesis
    by (auto intro: more)
qed

lemma pair_at_rawget:
  assumes ok: "table_ok h t" and q: "q < sizearray t + length (node t)" "pair_at t q = Some (k, v)"
  shows "lua_rawget h t k = Inr (Some v)"
proof -
  note k = pair_at_present(1) [OF ok q]
  have "(k, v) \<in> set (pairs_from t 0)" using q by (force simp: pairs_from_def map_filter_def image_iff)
  with pairs_contents [OF ok k, of v] rawequal_refl [OF k] rawget_contents [OF ok k] show ?thesis by auto
qed

lemma rawget_pair_at:
  assumes ok: "table_ok h t" and "present k" "lua_rawget h t k = Inr (Some v)"
  obtains q k' where "q < sizearray t + length (node t)" "pair_at t q = Some (k', v)" "luaO_rawequalObj k' k"
  using assms pairs_contents [OF ok assms(2), of v] rawget_contents [OF ok assms(2)]
  by (auto simp: pairs_from_def map_filter_def)

lemma permitted_pair_at:
  assumes ok: "table_ok h t" and c: "permitted t t'" and q: "q < sizearray t + length (node t)" "pair_at t' q = Some (k, v)"
  obtains v' where "pair_at t q = Some (k, v')"
proof (cases "q < sizearray t")
  case True
  with q(2) permittedD(1) [OF c] permittedD(5) [OF c, of q] ok_array(1) [OF ok] that show thesis
    by (cases "array t ! q") (auto simp: pair_at_def)
next
  case False
  then have j: "q - sizearray t < length (node t)" using q(1) by auto
  from permittedD(4) [OF c j] q(2) False permittedD(1) [OF c] that show thesis
    by (cases "i_val (node t ! (q - sizearray t))") (auto simp: pair_at_def kept_def)
qed

definition body_ok :: "(64 word \<Rightarrow> 32 word) \<Rightarrow> (key \<Rightarrow> 'v \<Rightarrow> 'v Table \<Rightarrow> 'v Table res) \<Rightarrow> bool" where
  "body_ok h body \<longleftrightarrow> (\<forall>k v u. table_inv h u \<longrightarrow> lua_rawget h u k = Inr (Some v) \<longrightarrow>
     (\<exists>u'. body k v u = Inr u' \<and> table_inv h u' \<and> permitted u u'))"

text \<open>The pairs found, with the positions they were found at.\<close>

definition found_at :: "(64 word \<Rightarrow> 32 word) \<Rightarrow> 'v Table \<Rightarrow> nat \<Rightarrow> key \<times> 'v \<times> 'v Table \<Rightarrow> bool" where
  "found_at h t q e \<longleftrightarrow> (case e of (k, v, u) \<Rightarrow> table_inv h u \<and> permitted t u \<and> pair_at u q = Some (k, v))"

lemma found_at_later: "found_at h t' q e \<Longrightarrow> permitted t t' \<Longrightarrow> found_at h t q e"
  by (auto simp: found_at_def intro: permitted_trans)

lemma traverse_ok:
  assumes body: "body_ok h body"
  shows "table_inv h t \<Longrightarrow> no_reuse t \<Longrightarrow> p \<le> sizearray t + length (node t) \<Longrightarrow> findindex h t k = Inr (int p - 1) \<Longrightarrow>
     sizearray t + length (node t) - p < n \<Longrightarrow>
     \<exists>es t' ps. traverse n h body t k = Inr (es, t') \<and> table_inv h t' \<and> permitted t t' \<and>
       sorted_wrt (<) ps \<and> set ps \<subseteq> {p..<sizearray t + length (node t)} \<and> list_all2 (found_at h t) ps es \<and>
       (\<forall>q. p \<le> q \<and> q < sizearray t + length (node t) \<and> pair_at t' q \<noteq> None \<longrightarrow> q \<in> set ps)"
proof (induction n arbitrary: t p k)
  case (Suc n)
  let ?N = "sizearray t + length (node t)"
  have ok: "table_ok h t" using Suc.prems(1) by (simp add: table_inv_def)
  from ok Suc.prems(3,4) show ?case
  proof (cases rule: luaH_next_position)
    case last
    with Suc.prems(1) show ?thesis
      by (intro exI [of _ "[]"] exI [of _ t]) (simp add: permitted_refl)
  next
    case (more q e)
    obtain k' v where e: "e = (k', v)" by (cases e)
    have at: "pair_at t q = Some (k', v)" using more(4) e by simp
    obtain u where u: "body k' v t = Inr u" "table_inv h u" "permitted t u"
      using body Suc.prems(1) pair_at_rawget [OF ok more(3) at] unfolding body_ok_def by blast
    note D = permittedD [OF u(3)]
    have "findindex h u k' = Inr (int q)"
      using findindex_pair [OF ok Suc.prems(2) more(3) at _ u(3)] u(2) by (simp add: table_inv_def)
    moreover have "int q = int (q + 1) - 1" "q + 1 \<le> sizearray u + length (node u)" "sizearray u + length (node u) - (q + 1) < n"
      using more(2,3) Suc.prems(5) D(1,3) by simp_all
    ultimately obtain es t' ps where r: "traverse n h body u k' = Inr (es, t')" "table_inv h t'" "permitted u t'"
      "sorted_wrt (<) ps" "set ps \<subseteq> {q + 1..<?N}" "list_all2 (found_at h u) ps es"
      "\<forall>r. q + 1 \<le> r \<and> r < ?N \<and> pair_at t' r \<noteq> None \<longrightarrow> r \<in> set ps"
      using Suc.IH [OF u(2) permitted_no_reuse [OF u(3) Suc.prems(2)], of "q + 1" k'] unfolding D(1,3) by metis
    have c: "permitted t t'" using u(3) r(3) by (rule permitted_trans)
    have gone: "pair_at t' r = None" if "p \<le> r" "r < q" for r
    proof (rule ccontr)
      assume "pair_at t' r \<noteq> None"
      then obtain k v where "pair_at t' r = Some (k, v)" by auto
      from permitted_pair_at [OF ok c _ this] more(3) more(5) [OF that] that show False by auto
    qed
    have "list_all2 (found_at h t) (q # ps) ((k', v, t) # es)"
      using at Suc.prems(1) r(6) u(3)
      by (auto simp: found_at_def [where q = q] permitted_refl elim: list_all2_mono intro: found_at_later)
    moreover have "\<forall>r. p \<le> r \<and> r < ?N \<and> pair_at t' r \<noteq> None \<longrightarrow> r \<in> set (q # ps)"
      using r(7) gone by (metis Suc_eq_plus1 Suc_leI linorder_neqE_nat list.set_intros(1,2))
    moreover have "sorted_wrt (<) (q # ps)" "set (q # ps) \<subseteq> {p..<?N}" using r(4,5) more(2,3) by auto
    moreover have "traverse (Suc n) h body t k = Inr ((k', v, t) # es, t')" using more(1) e u(1) r(1) by simp
    ultimately show ?thesis using r(2) c by blast
  qed
qed simp


text \<open>A table without array part and with one string key, and a body that clears the field just visited
  and then lets the collector take its key.\<close>

definition one_string_table :: "nat Table" where
  "one_string_table = \<lparr>array = [], sizearray = 0, node = [\<lparr>i_val = Some 5, i_key = Str 8, next_node = None\<rparr>],
     lsizenode = 0, lastfree = 0, is_dummy = False\<rparr>"

definition clear_and_collect :: "(64 word \<Rightarrow> 32 word) \<Rightarrow> key \<Rightarrow> 'v \<Rightarrow> 'v Table \<Rightarrow> 'v Table res" where
  "clear_and_collect h k v t =
     (if present k then bindR (lua_rawset h t k None) traversetable else Inr t)"

lemma clear_and_collect_ok: "body_ok h (clear_and_collect h)"
  unfolding body_ok_def
proof (intro allI impI)
  fix k :: key and v :: 'a and u :: "'a Table"
  assume u: "table_inv h u" "lua_rawget h u k = Inr (Some v)"
  show "\<exists>u'. clear_and_collect h k v u = Inr u' \<and> table_inv h u' \<and> permitted u u'"
  proof (cases "present k")
    case False
    with u show ?thesis by (simp add: clear_and_collect_def permitted_refl)
  next
    case True
    have "contents u k \<noteq> None" using u rawget_contents [OF _ True, of h u] by (simp add: table_inv_def)
    from rawset_permitted [OF u(1) True this, of None] obtain u1 where
      u1: "lua_rawset h u k None = Inr u1" "table_inv h u1" "permitted u u1" .
    from traversetable_permitted [OF u1(2)] obtain u2 where "traversetable u1 = Inr u2" "table_inv h u2" "permitted u1 u2" .
    with u1 True show ?thesis by (auto simp: clear_and_collect_def intro: permitted_trans)
  qed
qed

lemma one_string_table_inv: "table_inv h one_string_table"
proof -
  have m: "mainposition h 1 (Str 8) = 0" using mainposition_less [of h 0 "Str 8"] by simp
  have "nodes_ok (mainposition h 1) [\<lparr>i_val = Some (5 :: nat), i_key = Str 8, next_node = None\<rparr>]"
    unfolding nodes_ok_def using m by (auto simp: chained_def links_def)
  then show ?thesis
    by (simp add: one_string_table_def table_inv_def table_ok_def MAXASIZE_def MAXBITS_def in_array_def arrayindex_def)
qed


section \<open>The length is a border\<close>

lemma value_num_contents:
  assumes ok: "table_ok h t" and k: "0 \<le> k" "k < 2 ^ 31"
  shows "value_num t k = Inr (contents t (Number (cast_num k)))"
proof -
  have k': "- (2 ^ 31) \<le> k" using k(1) by simp
  have e: "luai_numeq (cast_num k) (cast_num k)" using number2int_cast(2) [OF k' k(2)] .
  then have r: "luaO_rawequalObj (Number (cast_num k)) (Number (cast_num k))" "present (Number (cast_num k))"
    by (simp_all add: luai_numeq_def)
  have "luaH_getnum t k = luaH_get h t (Number (cast_num k))"
    using luaH_getnum_eq [OF k' k(2) ok_array(2) [OF ok] r(1), of h] luaH_get_eq [of "Number (cast_num k)" t h] ok_array(2) [OF ok]
    by simp
  with rawget_contents [OF ok r(2)] show ?thesis by (simp add: value_num_def lua_rawget_def)
qed

definition is_border :: "(nat \<Rightarrow> 'v option) \<Rightarrow> nat \<Rightarrow> bool" where
  "is_border f n \<longleftrightarrow> (n = 0 \<or> f n \<noteq> None) \<and> f (n + 1) = None"

lemma border_search_ok:
  "i < j \<Longrightarrow> \<forall>m. i < m \<and> m < j \<longrightarrow> get m = Inr (f m) \<Longrightarrow> i = 0 \<or> f i \<noteq> None \<Longrightarrow> f j = None \<Longrightarrow>
     \<exists>n. border_search get i j = Inr n \<and> n < j \<and> is_border f n"
proof (induction get i j rule: border_search.induct)
  case (1 get i j)
  show ?case
  proof (cases "j - i > 1")
    case True
    define m where "m = (i + j) div 2"
    have m: "i < m" "m < j" using True by (auto simp: m_def)
    then have g: "get m = Inr (f m)" using "1.prems"(2) by simp
    show ?thesis
    proof (cases "f m")
      case None
      with "1.IH"(1) [OF True m_def g] "1.prems" m True g show ?thesis
        by (force simp: border_search.simps [of get i j] m_def [symmetric])
    next
      case (Some v)
      with "1.IH"(2) [OF True m_def g] "1.prems" m True g show ?thesis
        by (force simp: border_search.simps [of get i j] m_def [symmetric])
    qed
  next
    case False
    with "1.prems"(1) have "j = i + 1" by simp
    with "1.prems" False show ?thesis unfolding border_search.simps [of get i j] by (auto simp: is_border_def)
  qed
qed

lemma linear_search_ok:
  assumes f: "\<And>i. i \<le> b \<Longrightarrow> value_num t (int i) = Inr (f i)"
  shows "i \<le> j \<Longrightarrow> j \<le> b \<Longrightarrow> f j = None \<Longrightarrow> j - i < n \<Longrightarrow> 0 < i \<Longrightarrow> i = 1 \<or> f (i - 1) \<noteq> None \<Longrightarrow>
     \<exists>m. linear_search n t i = Inr m \<and> m < j \<and> is_border f m"
proof (induction n arbitrary: i)
  case (Suc n)
  show ?case
  proof (cases "f i")
    case None
    with Suc.prems f [of i] show ?thesis by (auto simp: is_border_def)
  next
    case (Some v)
    with Suc.prems have "i \<noteq> j" by auto
    with Suc.prems Some have "\<exists>m. linear_search n t (i + 1) = Inr m \<and> m < j \<and> is_border f m" by (intro Suc.IH) auto
    with Some Suc.prems f [of i] show ?thesis by simp
  qed
qed simp

text \<open>A table with \<open>n\<close> places has no value for one of the first \<open>n + 1\<close> indices.\<close>

lemma some_index_free:
  assumes ok: "table_ok h t"
  obtains i where "1 \<le> i" "i \<le> sizearray t + length (node t) + 1" "contents t (Number (cast_num (int i))) = None"
proof (rule ccontr)
  let ?n = "sizearray t + length (node t)"
  assume no: "\<not> thesis"
  let ?A = "int ` {1..sizearray t} \<union> (\<lambda>n. arrayindex (i_key n)) ` set (node t)"
  have small: "int i < 2 ^ 31" if "i \<le> ?n + 1" for i
  proof -
    have "?n \<le> 2 ^ 26 + 2 ^ 26"
      using ok_array(2) [OF ok] ok_length [OF ok] power_increasing [of "lsizenode t" 26 "2 :: nat"]
      by (simp add: MAXASIZE_def MAXBITS_def)
    with that show ?thesis by simp
  qed
  have "int ` {1..?n + 1} \<subseteq> ?A"
  proof
    fix x assume "x \<in> int ` {1..?n + 1}"
    then obtain i where i: "x = int i" "1 \<le> i" "i \<le> ?n + 1" by auto
    with no that have c: "contents t (Number (cast_num (int i))) \<noteq> None" by blast
    have a: "arrayindex (Number (cast_num (int i))) = int i" using small [OF i(3)] by (simp add: arrayindex_cast)
    show "x \<in> ?A"
    proof (cases "i \<le> sizearray t")
      case True
      with i show ?thesis by auto
    next
      case False
      with c a have "node_value (node t) (Number (cast_num (int i))) \<noteq> None" by (auto simp: contents_def in_array_def)
      then obtain j where "j < length (node t)" "luaO_rawequalObj (i_key (node t ! j)) (Number (cast_num (int i)))"
        using node_value_absent [of "node t" "Number (cast_num (int i))"] by fastforce
      with a i(1) arrayindex_rawequal [of "i_key (node t ! j)" "Number (cast_num (int i))"] show ?thesis
        by (intro UnI2 image_eqI [of _ _ "node t ! j"]) auto
    qed
  qed
  then have "card (int ` {1..?n + 1}) \<le> card ?A" by (intro card_mono) auto
  also have "\<dots> \<le> card (int ` {1..sizearray t}) + card ((\<lambda>n. arrayindex (i_key n)) ` set (node t))" by (rule card_Un_le)
  also have "\<dots> \<le> sizearray t + length (node t)"
    using card_image_le [of "set (node t)" "\<lambda>n. arrayindex (i_key n)"] card_length [of "node t"] by (simp add: card_image)
  finally show False by (simp add: card_image)
qed

lemma unbound_loop_ok:
  assumes ok: "table_ok h t"
  defines "f \<equiv> \<lambda>i. contents t (Number (cast_num (int i)))"
  shows "i < j \<Longrightarrow> j \<le> MAX_INT_index \<Longrightarrow> i = 0 \<or> f i \<noteq> None \<Longrightarrow> MAX_INT_index < 2 ^ n * j \<Longrightarrow>
     \<exists>m. unbound_loop n t i j = Inr m \<and> m < MAX_INT_index \<and> is_border f m"
proof (induction n arbitrary: i j)
  case (Suc n)
  have v: "value_num t (int i) = Inr (f i)" if "i \<le> MAX_INT_index" for i
    using that value_num_contents [OF ok, of "int i"] by (simp add: f_def MAX_INT_index_def)
  show ?case
  proof (cases "f j")
    case None
    have "\<forall>m. i < m \<and> m < j \<longrightarrow> value_num t (int m) = Inr (f m)" using v Suc.prems(2) by simp
    from border_search_ok [OF Suc.prems(1) this Suc.prems(3) None] show ?thesis
      using None v [OF Suc.prems(2)] Suc.prems(2) by auto
  next
    case (Some x)
    show ?thesis
    proof (cases "2 * j > MAX_INT_index")
      case False
      have "2 ^ Suc n * j = 2 ^ n * (2 * j)" by simp
      with Suc.prems(4) have "MAX_INT_index < 2 ^ n * (2 * j)" by linarith
      then have "\<exists>m. unbound_loop n t j (2 * j) = Inr m \<and> m < MAX_INT_index \<and> is_border f m"
        by (intro Suc.IH) (use Suc.prems(1) Some False in auto)
      with Some False v [OF Suc.prems(2)] show ?thesis by simp
    next
      case True
      obtain k where k: "1 \<le> k" "k \<le> sizearray t + length (node t) + 1" "f k = None"
        using some_index_free [OF ok] unfolding f_def by blast
      have "sizearray t + length (node t) \<le> 2 ^ 26 + 2 ^ 26"
        using ok_array(2) [OF ok] ok_length [OF ok] power_increasing [of "lsizenode t" 26 "2 :: nat"]
        by (simp add: MAXASIZE_def MAXBITS_def)
      then have kM: "k \<le> MAX_INT_index" using k(2) by (simp add: MAX_INT_index_def)
      have "\<exists>m. linear_search (sizearray t + length (node t) + 1) t 1 = Inr m \<and> m < k \<and> is_border f m"
        by (rule linear_search_ok [OF v k(1) kM k(3)]) (use k in auto)
      then have "\<exists>m. linear_search (sizearray t + length (node t) + 1) t 1 = Inr m \<and> m < MAX_INT_index \<and> is_border f m"
        using kM by auto
      with True Some v [OF Suc.prems(2)] show ?thesis by simp
    qed
  qed
qed simp

lemma getn_border:
  assumes "table_inv h t"
  shows "\<exists>n. luaH_getn t = Inr n \<and> n < MAX_INT_index \<and> is_border (\<lambda>i. contents t (Number (cast_num (int i)))) n"
proof -
  have ok: "table_ok h t" and len: "length (array t) = sizearray t" using assms by (simp_all add: table_inv_def)
  define f where "f = (\<lambda>i. contents t (Number (cast_num (int i))))"
  have s: "sizearray t \<le> 2 ^ 26" using ok_array(2) [OF ok] by (simp add: MAXASIZE_def MAXBITS_def)
  have arr: "f i = array t ! (i - 1)" if "1 \<le> i" "i \<le> sizearray t" for i
  proof -
    have "int i < 2 ^ 31" using that s by simp
    with that show ?thesis by (simp add: f_def contents_def in_array_def arrayindex_cast nat_diff_distrib)
  qed
  have unbound: "\<exists>n. unbound_search t (sizearray t) = Inr n \<and> n < MAX_INT_index \<and> is_border f n" if "sizearray t = 0 \<or> f (sizearray t) \<noteq> None"
    unfolding unbound_search_def f_def
    by (rule unbound_loop_ok [OF ok]) (use that s in \<open>auto simp: f_def MAX_INT_index_def\<close>)
  have dummy: "is_border f (sizearray t)" if "is_dummy t" "sizearray t = 0 \<or> f (sizearray t) \<noteq> None"
  proof -
    have l: "length (node t) = 1" "i_key (node t ! 0) = Nil" using ok_dummy [OF ok that(1)] ok_length(1) [OF ok] by auto
    have "node_value (node t) (Number x) = None" for x by (rule node_value_absent) (use l in auto)
    moreover have "arrayindex (Number (cast_num (int (sizearray t) + 1))) = int (sizearray t) + 1" using s by (simp add: arrayindex_cast)
    ultimately have "f (sizearray t + 1) = None" by (simp add: f_def contents_def in_array_def add.commute)
    with that(2) show ?thesis by (simp add: is_border_def)
  qed
  have sM: "sizearray t < MAX_INT_index" using s by (simp add: MAX_INT_index_def)
  have "\<exists>n. luaH_getn t = Inr n \<and> n < MAX_INT_index \<and> is_border f n"
  proof (cases "sizearray t = 0")
    case True
    with unbound dummy sM show ?thesis by (auto simp: luaH_getn_def)
  next
    case False
    then have last: "f (sizearray t) = array t ! (sizearray t - 1)" using arr by simp
    show ?thesis
    proof (cases "array t ! (sizearray t - 1)")
      case None
      have "\<exists>n. border_search (\<lambda>m. nthR (array t) (m - 1)) 0 (sizearray t) = Inr n \<and> n < sizearray t \<and> is_border f n"
        by (rule border_search_ok) (use None last False arr len in auto)
      with None False len sM show ?thesis by (auto simp: luaH_getn_def)
    next
      case (Some v)
      with last False len unbound dummy sM show ?thesis by (auto simp: luaH_getn_def Let_def)
    qed
  qed
  then show ?thesis by (simp add: f_def)
qed

text \<open>C37: the length operator of a table ends and gives a border: an index with a value, or 0, such that
  the next index has none; this holds for arrays with holes and for integer keys in the hash part.\<close>

theorem length_is_border:
  assumes "table_inv h t"
  shows "\<exists>n. luaH_getn t = Inr n \<and>
     (n = 0 \<or> (\<exists>v. lua_rawget h t (Number (cast_num (int n))) = Inr (Some v))) \<and>
     lua_rawget h t (Number (cast_num (int n + 1))) = Inr None"
proof -
  have ok: "table_ok h t" using assms by (simp add: table_inv_def)
  define f where "f = (\<lambda>i. contents t (Number (cast_num (int i))))"
  obtain n where n: "luaH_getn t = Inr n" "n < MAX_INT_index" "is_border f n"
    using getn_border [OF assms] by (auto simp: f_def)
  have get: "lua_rawget h t (Number (cast_num (int i))) = Inr (f i)" if "i \<le> n + 1" for i
  proof -
    have "- (2 ^ 31) \<le> int i" "int i < 2 ^ 31" using that n(2) by (simp_all add: MAX_INT_index_def)
    from number2int_cast(2) [OF this] have "present (Number (cast_num (int i)))" by (simp add: luai_numeq_def)
    from rawget_contents [OF ok this] show ?thesis by (simp add: f_def)
  qed
  with n(1,3) get [of n] get [of "n + 1"] show ?thesis by (intro exI [of _ n]) (auto simp: is_border_def add.commute)
qed

theorem length_is_border_witness:
  "\<exists>n. luaH_getn one_key_table = Inr n \<and> lua_rawget (\<lambda>_. 7) one_key_table (Number (cast_num (int n + 1))) = Inr None"
  using length_is_border [OF one_key_table(1)] by blast

end
