(* ===== verification/Chunk.thy ===== *)
theory Chunk
  imports Prelude "HOL-Library.Word"
begin

text \<open>
  Precompiled chunks: \<^verbatim>\<open>src/ldump.c\<close> writes a compiled function as bytes, \<^verbatim>\<open>src/lundump.c\<close> reads it
  back through the buffered stream of \<^verbatim>\<open>src/lzio.c\<close>.  Integers have the widths of the platforms the
  program is built for (\<^verbatim>\<open>int\<close> and instructions 4 bytes, \<^verbatim>\<open>size_t\<close> and numbers 8, the least
  significant byte first); a number is kept as its 64 bits.  Checking the code of a function
  (\<^verbatim>\<open>luaG_checkcode\<close>) is a parameter.
\<close>

section \<open>Functions\<close>

text \<open>The constants that a chunk can hold.  A string is \<open>None\<close> for a null pointer.\<close>

datatype TConst = KNil | KBoolean bool | KNumber "64 word" | KString "string option"

record LocVar =
  varname :: "string option"
  startpc :: int
  endpc :: int

record proto_data =
  chunk_source :: "string option"
  linedefined :: int
  lastlinedefined :: int
  nups :: nat
  numparams :: nat
  is_vararg :: nat
  maxstacksize :: nat
  code :: "32 word list"
  constants :: "TConst list"
  lineinfo :: "int list"
  locvars :: "LocVar list"
  upvalue_names :: "string option list"

datatype Proto = Proto (data: proto_data) (inner: "Proto list")

section \<open>Bytes\<close>

fun le_bytes :: "nat \<Rightarrow> nat \<Rightarrow> string" where
  "le_bytes 0 x = []"
| "le_bytes (Suc n) x = char_of (x mod 256) # le_bytes n (x div 256)"

fun le_value :: "string \<Rightarrow> nat" where
  "le_value [] = 0"
| "le_value (c # cs) = of_char c + 256 * le_value cs"

lemma length_le_bytes [simp]: "length (le_bytes n x) = n"
  by (induction n arbitrary: x) auto

lemma le_value_bytes: "x < 256 ^ n \<Longrightarrow> le_value (le_bytes n x) = x"
proof (induction n arbitrary: x)
  case (Suc n)
  then have "x div 256 < 256 ^ n" by (simp add: less_mult_imp_div_less mult.commute)
  with Suc show ?case by simp
qed simp

definition int_bytes :: "int \<Rightarrow> string" where
  "int_bytes x = le_bytes 4 (unat (word_of_int x :: 32 word))"

definition int_value :: "string \<Rightarrow> int" where
  "int_value s = sint (word_of_nat (le_value s) :: 32 word)"

lemma word_bytes: "LENGTH('a::len) = 8 * n \<Longrightarrow> word_of_nat (le_value (le_bytes n (unat (w :: 'a word)))) = w"
proof -
  assume "LENGTH('a) = 8 * n"
  then have "unat w < 256 ^ n" using unsigned_less [where 'a = nat, of w] by (simp add: power_mult)
  then show ?thesis by (simp add: le_value_bytes)
qed

lemma int_value_bytes: "- (2 ^ 31) \<le> x \<Longrightarrow> x < 2 ^ 31 \<Longrightarrow> int_value (int_bytes x) = x"
  unfolding int_value_def int_bytes_def
  by (subst word_bytes) (simp_all add: signed_of_int signed_take_bit_int_eq_self_iff)

section \<open>Writing\<close>

text \<open>The blocks that are handed to the writer, one for each \<^verbatim>\<open>DumpBlock\<close>.\<close>

definition DumpChar :: "nat \<Rightarrow> string list" where
  "DumpChar y = [[char_of (y mod 256)]]"

definition DumpInt :: "int \<Rightarrow> string list" where
  "DumpInt x = [int_bytes x]"

definition DumpNumber :: "64 word \<Rightarrow> string list" where
  "DumpNumber x = [le_bytes 8 (unat x)]"

definition DumpVector :: "string list \<Rightarrow> string list" where
  "DumpVector elems = DumpInt (int (length elems)) @ [concat elems]"

definition DumpString :: "string option \<Rightarrow> string list" where
  "DumpString s =
     (case s of
        None \<Rightarrow> [le_bytes 8 0]
      | Some s \<Rightarrow> [le_bytes 8 (length s + 1), s @ [NUL]])"

definition DumpConstant :: "TConst \<Rightarrow> string list" where
  "DumpConstant k =
     (case k of
        KNil \<Rightarrow> DumpChar 0
      | KBoolean b \<Rightarrow> DumpChar 1 @ DumpChar (if b then 1 else 0)
      | KNumber x \<Rightarrow> DumpChar 3 @ DumpNumber x
      | KString s \<Rightarrow> DumpChar 4 @ DumpString s)"

definition DumpConstants :: "proto_data \<Rightarrow> string list" where
  "DumpConstants f = DumpInt (int (length (constants f))) @ concat (map DumpConstant (constants f))"

definition DumpLocVar :: "LocVar \<Rightarrow> string list" where
  "DumpLocVar v = DumpString (varname v) @ DumpInt (startpc v) @ DumpInt (endpc v)"

definition DumpDebug :: "bool \<Rightarrow> proto_data \<Rightarrow> string list" where
  "DumpDebug strip f =
     DumpVector (if strip then [] else map int_bytes (lineinfo f)) @
     (let vs = (if strip then [] else locvars f)
      in DumpInt (int (length vs)) @ concat (map DumpLocVar vs)) @
     (let us = (if strip then [] else upvalue_names f)
      in DumpInt (int (length us)) @ concat (map DumpString us))"

fun DumpFunction :: "bool \<Rightarrow> string option \<Rightarrow> Proto \<Rightarrow> string list" where
  "DumpFunction strip p (Proto f fs) =
     DumpString (if chunk_source f = p \<or> strip then None else chunk_source f) @
     DumpInt (linedefined f) @ DumpInt (lastlinedefined f) @
     DumpChar (nups f) @ DumpChar (numparams f) @ DumpChar (is_vararg f) @ DumpChar (maxstacksize f) @
     DumpVector (map (\<lambda>i. le_bytes 4 (unat i)) (code f)) @
     DumpConstants f @
     DumpInt (int (length fs)) @ concat (map (DumpFunction strip (chunk_source f)) fs) @
     DumpDebug strip f"

text \<open>Signature, version, format, byte order, the sizes of the types, and whether numbers are integers.\<close>

definition luaU_header :: string where
  "luaU_header = map char_of [27 :: nat, 76, 117, 97, 81, 0, 1, 4, 8, 4, 8, 0]"

definition dump_blocks :: "Proto \<Rightarrow> bool \<Rightarrow> string list" where
  "dump_blocks f strip = luaU_header # DumpFunction strip None f"

text \<open>After a writer has reported an error nothing more is written.\<close>

fun DumpBlock :: "(string \<Rightarrow> 's \<Rightarrow> int \<times> 's) \<Rightarrow> string \<Rightarrow> int \<times> 's \<Rightarrow> int \<times> 's" where
  "DumpBlock writer b (status, d) = (if status = 0 then writer b d else (status, d))"

definition luaU_dump :: "(string \<Rightarrow> 's \<Rightarrow> int \<times> 's) \<Rightarrow> 's \<Rightarrow> Proto \<Rightarrow> bool \<Rightarrow> int \<times> 's" where
  "luaU_dump writer d f strip = foldl (\<lambda>D b. DumpBlock writer b D) (0, d) (dump_blocks f strip)"

text \<open>The value on the top of the stack is a function written in Lua, or not; then the status is 1.\<close>

definition lua_dump :: "(string \<Rightarrow> 's \<Rightarrow> int \<times> 's) \<Rightarrow> 's \<Rightarrow> Proto option \<Rightarrow> int \<times> 's" where
  "lua_dump writer d f = (case f of Some f \<Rightarrow> luaU_dump writer d f False | None \<Rightarrow> (1, d))"

text \<open>What a writer that appends to a buffer has received in the end.\<close>

definition dumped :: "Proto \<Rightarrow> string" where
  "dumped f = snd (lua_dump (\<lambda>b d. (0, d @ b)) [] (Some f))"

lemma foldl_append: "foldl (\<lambda>D b. DumpBlock (\<lambda>b d. (0, d @ b)) b D) (0, d) bs = (0, d @ concat bs)"
  by (induction bs arbitrary: d) simp_all

lemma dumped_concat: "dumped f = concat (dump_blocks f False)"
  by (simp add: dumped_def lua_dump_def luaU_dump_def foldl_append)

section \<open>The input stream\<close>

text \<open>What is left of the current block, and the blocks that the reader will give; an empty one is the end.\<close>

type_synonym zio = "string \<times> string list"

fun luaZ_lookahead :: "zio \<Rightarrow> char option \<times> zio" where
  "luaZ_lookahead (c # p, bs) = (Some c, (c # p, bs))"
| "luaZ_lookahead ([], []) = (None, ([], []))"
| "luaZ_lookahead ([], [] # bs) = (None, ([], bs))"
| "luaZ_lookahead ([], (c # p) # bs) = (Some c, (c # p, bs))"

text \<open>The number of bytes that are missing, and those that were read.\<close>

function luaZ_read :: "nat \<Rightarrow> zio \<Rightarrow> nat \<times> string \<times> zio" where
  "luaZ_read n z =
     (if n = 0 then (0, [], z)
      else (case luaZ_lookahead z of
              (None, z) \<Rightarrow> (n, [], z)
            | (Some c, (p, bs)) \<Rightarrow>
                let m = min n (length p) in
                (case luaZ_read (n - m) (drop m p, bs) of (missing, b, z) \<Rightarrow> (missing, take m p @ b, z))))"
  by pat_completeness auto
termination
proof (relation "measure (\<lambda>(n, z). n)", goal_cases)
  case (2 n z c z' c' p bs m)
  then have "p \<noteq> []" by (cases z rule: luaZ_lookahead.cases) auto
  with 2 show ?case by auto
qed simp

declare luaZ_read.simps [simp del]

definition zio_text :: "zio \<Rightarrow> string" where
  "zio_text z = fst z @ concat (takeWhile (\<lambda>b. b \<noteq> []) (snd z))"

section \<open>Reading\<close>

type_synonym 'a loader = "zio \<Rightarrow> ('a \<times> zio) res"

definition load_then :: "'a loader \<Rightarrow> ('a \<Rightarrow> 'b loader) \<Rightarrow> 'b loader" where
  "load_then m f = (\<lambda>z. bindR (m z) (\<lambda>(x, z). f x z))"

definition loaded :: "'a \<Rightarrow> 'a loader" where
  "loaded x = (\<lambda>z. Inr (x, z))"

definition load_error :: "string \<Rightarrow> string \<Rightarrow> 'a loader" where
  "load_error S why = (\<lambda>z. Inl (LuaError (S @ '': '' @ why @ '' in precompiled chunk'')))"

definition LoadBlock :: "string \<Rightarrow> nat \<Rightarrow> string loader" where
  "LoadBlock S n = (\<lambda>z.
     case luaZ_read n z of (missing, b, z) \<Rightarrow>
       if missing \<noteq> 0 then load_error S ''unexpected end'' z else Inr (b, z))"

text \<open>A byte; \<^verbatim>\<open>LoadByte\<close> and the type tags of constants do not depend on its sign.\<close>

definition LoadChar :: "string \<Rightarrow> nat loader" where
  "LoadChar S = load_then (LoadBlock S 1) (\<lambda>b. loaded (le_value b))"

definition LoadInt :: "string \<Rightarrow> int loader" where
  "LoadInt S = load_then (LoadBlock S 4) (\<lambda>b.
     if int_value b < 0 then load_error S ''bad integer'' else loaded (int_value b))"

definition LoadNumber :: "string \<Rightarrow> 64 word loader" where
  "LoadNumber S = load_then (LoadBlock S 8) (\<lambda>b. loaded (word_of_nat (le_value b)))"

definition LoadString :: "string \<Rightarrow> string option loader" where
  "LoadString S = load_then (LoadBlock S 8) (\<lambda>b.
     let size = le_value b in
     if size = 0 then loaded None
     else load_then (LoadBlock S size) (\<lambda>s. loaded (Some (take (size - 1) s))))"

text \<open>The elements of a vector of 4 bytes each.\<close>

definition elements :: "nat \<Rightarrow> string \<Rightarrow> string list" where
  "elements n b = map (\<lambda>i. take 4 (drop (4 * i) b)) [0..<n]"

definition LoadVector :: "string \<Rightarrow> string list loader" where
  "LoadVector S = load_then (LoadInt S) (\<lambda>n.
     load_then (LoadBlock S (nat n * 4)) (\<lambda>b. loaded (elements (nat n) b)))"

primrec load_many :: "nat \<Rightarrow> 'a loader \<Rightarrow> 'a list loader" where
  "load_many 0 m = loaded []"
| "load_many (Suc n) m = load_then m (\<lambda>x. load_then (load_many n m) (\<lambda>xs. loaded (x # xs)))"

definition LoadConstant :: "string \<Rightarrow> TConst loader" where
  "LoadConstant S = load_then (LoadChar S) (\<lambda>t.
     if t = 0 then loaded KNil
     else if t = 1 then load_then (LoadChar S) (\<lambda>b. loaded (KBoolean (b \<noteq> 0)))
     else if t = 3 then load_then (LoadNumber S) (\<lambda>x. loaded (KNumber x))
     else if t = 4 then load_then (LoadString S) (\<lambda>s. loaded (KString s))
     else load_error S ''bad constant'')"

definition LoadList :: "string \<Rightarrow> 'a loader \<Rightarrow> 'a list loader" where
  "LoadList S m = load_then (LoadInt S) (\<lambda>n. load_many (nat n) m)"

definition LoadLocVar :: "string \<Rightarrow> LocVar loader" where
  "LoadLocVar S =
     load_then (LoadString S) (\<lambda>name. load_then (LoadInt S) (\<lambda>s. load_then (LoadInt S) (\<lambda>e.
       loaded \<lparr>varname = name, startpc = s, endpc = e\<rparr>)))"

primrec LoadFunction :: "nat \<Rightarrow> (Proto \<Rightarrow> bool) \<Rightarrow> string \<Rightarrow> string option \<Rightarrow> Proto loader" where
  "LoadFunction 0 checkcode S p = load_error S ''code too deep''"
| "LoadFunction (Suc depth) checkcode S p =
     load_then (LoadString S) (\<lambda>src.
     let src = (case src of None \<Rightarrow> p | Some s \<Rightarrow> Some s) in
     load_then (LoadInt S) (\<lambda>line.
     load_then (LoadInt S) (\<lambda>lastline.
     load_then (LoadChar S) (\<lambda>ups.
     load_then (LoadChar S) (\<lambda>params.
     load_then (LoadChar S) (\<lambda>vararg.
     load_then (LoadChar S) (\<lambda>stack.
     load_then (LoadVector S) (\<lambda>instructions.
     load_then (LoadList S (LoadConstant S)) (\<lambda>k.
     load_then (LoadList S (LoadFunction depth checkcode S src)) (\<lambda>fs.
     load_then (LoadVector S) (\<lambda>lines.
     load_then (LoadList S (LoadLocVar S)) (\<lambda>vars.
     load_then (LoadList S (LoadString S)) (\<lambda>names.
       let f = Proto \<lparr>chunk_source = src, linedefined = line, lastlinedefined = lastline,
                  nups = ups, numparams = params, is_vararg = vararg, maxstacksize = stack,
                  code = map (\<lambda>b. word_of_nat (le_value b)) instructions, constants = k,
                  lineinfo = map int_value lines, locvars = vars, upvalue_names = names\<rparr> fs
       in if checkcode f then loaded f else load_error S ''bad code'')))))))))))))"

definition LoadHeader :: "string \<Rightarrow> unit loader" where
  "LoadHeader S = load_then (LoadBlock S (length luaU_header)) (\<lambda>h.
     if h \<noteq> luaU_header then load_error S ''bad header'' else loaded ())"

definition LUAI_MAXCCALLS :: nat where
  "LUAI_MAXCCALLS = 200"

definition chunk_name :: "string \<Rightarrow> string" where
  "chunk_name name =
     (case name of
        [] \<Rightarrow> name
      | c # cs \<Rightarrow> if c = CHR ''@'' \<or> c = CHR ''='' then cs
                  else if c = CHR 0x1B then ''binary string'' else name)"

text \<open>\<open>nCcalls\<close> counts the calls that are active already.\<close>

definition luaU_undump :: "(Proto \<Rightarrow> bool) \<Rightarrow> nat \<Rightarrow> string \<Rightarrow> Proto loader" where
  "luaU_undump checkcode nCcalls name =
     load_then (LoadHeader (chunk_name name)) (\<lambda>_.
       LoadFunction (LUAI_MAXCCALLS - nCcalls) checkcode (chunk_name name) (Some ''=?''))"

section \<open>Reading depends on the text only\<close>

lemma lookahead_text:
  "luaZ_lookahead z = (r, z') \<Longrightarrow>
     (case r of None \<Rightarrow> zio_text z = [] | Some c \<Rightarrow> zio_text z' = zio_text z \<and> fst z' \<noteq> [])"
  by (cases z rule: luaZ_lookahead.cases) (auto simp: zio_text_def)

lemma luaZ_read_text:
  "luaZ_read n z = (missing, b, z') \<Longrightarrow>
     missing = n - length (zio_text z) \<and> b = take n (zio_text z) \<and>
     (missing = 0 \<longrightarrow> zio_text z' = drop n (zio_text z))"
proof (induction n z arbitrary: missing b z' rule: luaZ_read.induct)
  case (1 n z)
  show ?case
  proof (cases "n = 0")
    case True
    with "1.prems" show ?thesis by (auto simp: luaZ_read.simps [of 0 z])
  next
    case False
    obtain r p bs where l: "luaZ_lookahead z = (r, p, bs)" by (metis prod.exhaust)
    show ?thesis
    proof (cases r)
      case None
      with "1.prems" False l lookahead_text [OF l] show ?thesis by (simp add: luaZ_read.simps [of n z])
    next
      case (Some c)
      let ?m = "min n (length p)"
      obtain missing' b' z'' where r: "luaZ_read (n - ?m) (drop ?m p, bs) = (missing', b', z'')"
        by (metis prod.exhaust)
      have t: "zio_text z = p @ concat (takeWhile (\<lambda>b. b \<noteq> []) bs)"
        using lookahead_text [OF l] Some by (simp add: zio_text_def)
      from "1.IH" [OF False l [symmetric] Some refl refl r]
      have IH: "missing' = n - ?m - length (zio_text (drop ?m p, bs))" "b' = take (n - ?m) (zio_text (drop ?m p, bs))"
        "missing' = 0 \<longrightarrow> zio_text z'' = drop (n - ?m) (zio_text (drop ?m p, bs))" by auto
      have "missing = missing'" "b = take ?m p @ b'" "z' = z''"
        using "1.prems" False l Some r by (simp_all add: luaZ_read.simps [of n z])
      with IH t show ?thesis by (auto simp: zio_text_def min_def)
    qed
  qed
qed

lemma LoadBlock_text:
  "LoadBlock S n z = (if n \<le> length (zio_text z) then Inr (take n (zio_text z), snd (snd (luaZ_read n z)))
     else load_error S ''unexpected end'' z)"
  "n \<le> length (zio_text z) \<Longrightarrow> zio_text (snd (snd (luaZ_read n z))) = drop n (zio_text z)"
  using luaZ_read_text [of n z] by (cases "luaZ_read n z"; auto simp: LoadBlock_def load_error_def)+

section \<open>What a loader accepts\<close>

text \<open>\<open>accepts m bs x\<close>: whatever follows the bytes \<open>bs\<close>, and however the stream is cut into blocks, \<open>m\<close>
  takes just them and gives \<open>x\<close>.  \<open>strict m\<close>: a loader that succeeds has taken some bytes that it
  accepts, and on fewer of them it fails with an error.\<close>

definition accepts :: "'a loader \<Rightarrow> string \<Rightarrow> 'a \<Rightarrow> bool" where
  "accepts m bs x \<longleftrightarrow>
     (\<forall>z r. zio_text z = bs @ r \<longrightarrow> (\<exists>z'. m z = Inr (x, z') \<and> zio_text z' = r))"

definition fails :: "'a res \<Rightarrow> bool" where
  "fails r \<longleftrightarrow> (case r of Inl (LuaError _) \<Rightarrow> True | _ \<Rightarrow> False)"

definition strict :: "'a loader \<Rightarrow> bool" where
  "strict m \<longleftrightarrow>
     (\<forall>z. (\<exists>x z' bs. m z = Inr (x, z') \<and> zio_text z = bs @ zio_text z' \<and> accepts m bs x \<and>
            (\<forall>w. strict_prefix (zio_text w) bs \<longrightarrow> fails (m w))) \<or> fails (m z))"

lemma acceptsD: "accepts m bs x \<Longrightarrow> zio_text z = bs @ r \<Longrightarrow> \<exists>z'. m z = Inr (x, z') \<and> zio_text z' = r"
  unfolding accepts_def by blast

lemma accepts_loaded [simp]: "accepts (loaded x) [] x"
  by (simp add: accepts_def loaded_def)

lemma accepts_then:
  "accepts m bs x \<Longrightarrow> accepts (f x) cs y \<Longrightarrow> accepts (load_then m f) (bs @ cs) y"
  unfolding accepts_def load_then_def by (metis (no_types, lifting) append.assoc bindR.simps(2) case_prod_conv)

lemma accepts_block: "length bs = n \<Longrightarrow> accepts (LoadBlock S n) bs bs"
  by (auto simp: accepts_def LoadBlock_text)

lemma strict_loaded [simp]: "strict (loaded x)"
  unfolding strict_def by (auto simp: loaded_def intro!: exI [of _ "[]"] simp: accepts_def)

lemma strict_error [simp]: "strict (load_error S why)"
  by (simp add: strict_def load_error_def fails_def)

lemma strict_block [simp]: "strict (LoadBlock S n)"
  unfolding strict_def
proof
  fix z
  show "(\<exists>x z' bs. LoadBlock S n z = Inr (x, z') \<and> zio_text z = bs @ zio_text z' \<and> accepts (LoadBlock S n) bs x \<and>
            (\<forall>w. strict_prefix (zio_text w) bs \<longrightarrow> fails (LoadBlock S n w))) \<or> fails (LoadBlock S n z)"
  proof (cases "n \<le> length (zio_text z)")
    case True
    let ?bs = "take n (zio_text z)"
    have "fails (LoadBlock S n w)" if "strict_prefix (zio_text w) ?bs" for w
    proof -
      have "length (zio_text w) < n" using prefix_length_less [OF that] True by simp
      then show ?thesis by (simp add: LoadBlock_text(1) load_error_def fails_def)
    qed
    moreover have "accepts (LoadBlock S n) ?bs ?bs" using True by (intro accepts_block) simp
    moreover have "LoadBlock S n z = Inr (?bs, snd (snd (luaZ_read n z)))"
      "zio_text z = ?bs @ zio_text (snd (snd (luaZ_read n z)))"
      using True by (simp_all add: LoadBlock_text)
    ultimately show ?thesis by blast
  next
    case False
    then show ?thesis by (simp add: LoadBlock_text(1) load_error_def fails_def)
  qed
qed

lemma fails_then: "fails (m z) \<Longrightarrow> fails (load_then m f z)"
  by (auto simp: fails_def load_then_def split: sum.splits c_error.splits)

lemma strict_prefix_append_cases:
  assumes "strict_prefix w (bs @ cs)"
  obtains "strict_prefix w bs" | w' where "w = bs @ w'" "strict_prefix w' cs"
  using assms by (metis prefix_append prefix_order.le_less prefix_order.less_imp_le same_prefix_prefix
      strict_prefix_def append.right_neutral)

lemma strict_then:
  assumes "strict m" "\<And>x. strict (f x)"
  shows "strict (load_then m f)"
  unfolding strict_def
proof
  fix z
  let ?P = "\<lambda>z. \<exists>x z' bs. load_then m f z = Inr (x, z') \<and> zio_text z = bs @ zio_text z' \<and> accepts (load_then m f) bs x \<and>
            (\<forall>w. strict_prefix (zio_text w) bs \<longrightarrow> fails (load_then m f w))"
  show "?P z \<or> fails (load_then m f z)"
  proof (cases "fails (m z)")
    case False
    with assms(1) obtain x z1 bs where m: "m z = Inr (x, z1)" "zio_text z = bs @ zio_text z1" "accepts m bs x"
      "\<And>w. strict_prefix (zio_text w) bs \<Longrightarrow> fails (m w)"
      unfolding strict_def by metis
    have run: "load_then m f z = f x z1" using m(1) by (simp add: load_then_def)
    show ?thesis
    proof (cases "fails (f x z1)")
      case False
      with assms(2) [of x] obtain y z2 cs where f: "f x z1 = Inr (y, z2)" "zio_text z1 = cs @ zio_text z2"
        "accepts (f x) cs y" "\<And>w. strict_prefix (zio_text w) cs \<Longrightarrow> fails (f x w)"
        unfolding strict_def by metis
      have "fails (load_then m f w)" if w: "strict_prefix (zio_text w) (bs @ cs)" for w
        using w
      proof (cases rule: strict_prefix_append_cases)
        case 1
        then show ?thesis by (intro fails_then m(4))
      next
        case (2 w')
        then obtain w1 where "m w = Inr (x, w1)" "zio_text w1 = w'"
          using m(3) [unfolded accepts_def, rule_format, of w w'] by blast
        with f(4) 2 show ?thesis by (simp add: load_then_def)
      qed
      moreover have "accepts (load_then m f) (bs @ cs) y" using m(3) f(3) by (rule accepts_then)
      ultimately show ?thesis using run f(1,2) m(2) by (metis append.assoc)
    qed (simp add: run)
  qed (simp add: fails_then)
qed

lemma strict_char [simp]: "strict (LoadChar S)"
  by (simp add: LoadChar_def strict_then)

lemma strict_int [simp]: "strict (LoadInt S)"
  by (simp add: LoadInt_def strict_then)

lemma strict_number [simp]: "strict (LoadNumber S)"
  by (simp add: LoadNumber_def strict_then)

lemma strict_string [simp]: "strict (LoadString S)"
  by (simp add: LoadString_def Let_def strict_then)

lemma strict_vector [simp]: "strict (LoadVector S)"
  by (simp add: LoadVector_def strict_then)

lemma strict_many: "strict m \<Longrightarrow> strict (load_many n m)"
  by (induction n) (simp_all add: strict_then)

lemma strict_list [simp]: "strict m \<Longrightarrow> strict (LoadList S m)"
  by (simp add: LoadList_def strict_then strict_many)

lemma strict_const [simp]: "strict (LoadConstant S)"
  by (simp add: LoadConstant_def strict_then)

lemma strict_locvar [simp]: "strict (LoadLocVar S)"
  by (simp add: LoadLocVar_def strict_then)

lemma strict_function [simp]: "strict (LoadFunction depth checkcode S p)"
  by (induction depth arbitrary: p) (simp_all add: strict_then Let_def)

lemma strict_undump: "strict (luaU_undump checkcode nCcalls name)"
  by (simp add: luaU_undump_def LoadHeader_def strict_then)

section \<open>Reading what was written\<close>

lemma accepts_map: "accepts m bs x \<Longrightarrow> f x = loaded y \<Longrightarrow> accepts (load_then m f) bs y"
  using accepts_then [of m bs x f "[]" y] by simp

lemma accepts_char: "y < 256 \<Longrightarrow> accepts (LoadChar S) (concat (DumpChar y)) y"
  unfolding LoadChar_def DumpChar_def by (rule accepts_map, rule accepts_block) simp_all

lemma accepts_int: "0 \<le> x \<Longrightarrow> x < 2 ^ 31 \<Longrightarrow> accepts (LoadInt S) (concat (DumpInt x)) x"
  unfolding LoadInt_def DumpInt_def
  by (rule accepts_map, rule accepts_block) (simp_all add: int_bytes_def int_value_bytes [unfolded int_bytes_def])

lemma accepts_number: "accepts (LoadNumber S) (concat (DumpNumber x)) x"
  unfolding LoadNumber_def DumpNumber_def
  by (rule accepts_map, rule accepts_block) (simp_all add: word_bytes)

lemma accepts_string:
  assumes "length (concat (case s of None \<Rightarrow> [] | Some s \<Rightarrow> [s])) + 1 < 2 ^ 64"
  shows "accepts (LoadString S) (concat (DumpString s)) s"
proof (cases s)
  case None
  then show ?thesis unfolding LoadString_def DumpString_def
    by (simp, intro accepts_map [OF accepts_block]) (simp_all add: le_value_bytes)
next
  case (Some t)
  let ?n = "length t + 1"
  have v: "le_value (le_bytes 8 ?n) = ?n" using assms Some by (intro le_value_bytes) simp
  have "accepts (LoadString S) (le_bytes 8 ?n @ (t @ [NUL])) (Some t)"
    unfolding LoadString_def
  proof (rule accepts_then [OF accepts_block])
    have "accepts (load_then (LoadBlock S ?n) (\<lambda>s. loaded (Some (take (?n - 1) s)))) (t @ [NUL]) (Some t)"
      by (rule accepts_map [OF accepts_block]) simp_all
    then show "accepts (let size = le_value (le_bytes 8 ?n) in if size = 0 then loaded None
         else load_then (LoadBlock S size) (\<lambda>s. loaded (Some (take (size - 1) s)))) (t @ [NUL]) (Some t)"
      unfolding v Let_def by simp
  qed simp
  then show ?thesis by (simp add: DumpString_def Some)
qed

lemma elements_concat:
  assumes "list_all (\<lambda>e. length e = 4) es"
  shows "elements (length es) (concat es) = es"
proof -
  have "take 4 (drop (4 * i) (concat es)) = es ! i" if "i < length es" for i
    using assms that
  proof (induction es arbitrary: i)
    case (Cons e es)
    then show ?case by (cases i) auto
  qed simp
  then show ?thesis by (auto simp: elements_def intro: nth_equalityI)
qed

lemma accepts_vector:
  assumes "list_all (\<lambda>e. length e = 4) es" "length es < 2 ^ 31"
  shows "accepts (LoadVector S) (concat (DumpVector es)) es"
proof -
  have "length (concat es) = length es * 4" using assms(1) by (induction es) auto
  then have "accepts (load_then (LoadBlock S (nat (int (length es)) * 4)) (\<lambda>b. loaded (elements (nat (int (length es))) b)))
      (concat es) es"
    using assms(1) by (intro accepts_map [OF accepts_block]) (simp_all add: elements_concat)
  then have "accepts (LoadVector S) (concat (DumpInt (int (length es))) @ concat es) es"
    unfolding LoadVector_def using assms(2) by (intro accepts_then [OF accepts_int]) simp_all
  then show ?thesis by (simp add: DumpVector_def)
qed

lemma accepts_many:
  assumes "\<And>x. x \<in> set xs \<Longrightarrow> accepts m (concat (D x)) (g x)"
  shows "accepts (load_many (length xs) m) (concat (concat (map D xs))) (map g xs)"
  using assms
proof (induction xs)
  case (Cons x xs)
  have "accepts (load_then (load_many (length xs) m) (\<lambda>xs. loaded (g x # xs))) (concat (concat (map D xs))) (g x # map g xs)"
    using Cons by (intro accepts_map [OF Cons.IH]) simp_all
  then have "accepts (load_many (length (x # xs)) m) (concat (D x) @ concat (concat (map D xs))) (map g (x # xs))"
    unfolding list.size list.map add_Suc_right add_0_right load_many.simps
    by (rule accepts_then [rotated]) (simp add: Cons.prems)
  then show ?case by simp
qed simp

lemma accepts_list:
  assumes "\<And>x. x \<in> set xs \<Longrightarrow> accepts m (concat (D x)) (g x)" "length xs < 2 ^ 31"
  shows "accepts (LoadList S m) (concat (DumpInt (int (length xs))) @ concat (concat (map D xs))) (map g xs)"
  unfolding LoadList_def using assms(2) accepts_many [OF assms(1)]
  by (intro accepts_then [OF accepts_int]) simp_all

section \<open>What can be dumped\<close>

definition nat_int :: "int \<Rightarrow> bool" where
  "nat_int x \<longleftrightarrow> 0 \<le> x \<and> x < 2 ^ 31"

definition short :: "string option \<Rightarrow> bool" where
  "short s \<longleftrightarrow> length (concat (case s of None \<Rightarrow> [] | Some s \<Rightarrow> [s])) + 1 < 2 ^ 64"

definition storable_data :: "proto_data \<Rightarrow> bool" where
  "storable_data f \<longleftrightarrow>
     chunk_source f \<noteq> None \<and> short (chunk_source f) \<and> nat_int (linedefined f) \<and> nat_int (lastlinedefined f) \<and>
     nups f < 256 \<and> numparams f < 256 \<and> is_vararg f < 256 \<and> maxstacksize f < 256 \<and>
     length (code f) < 2 ^ 31 \<and> length (constants f) < 2 ^ 31 \<and>
     list_all (\<lambda>k. case k of KString s \<Rightarrow> short s | _ \<Rightarrow> True) (constants f) \<and>
     length (lineinfo f) < 2 ^ 31 \<and> list_all nat_int (lineinfo f) \<and>
     length (locvars f) < 2 ^ 31 \<and> list_all (\<lambda>v. short (varname v) \<and> nat_int (startpc v) \<and> nat_int (endpc v)) (locvars f) \<and>
     length (upvalue_names f) < 2 ^ 31 \<and> list_all short (upvalue_names f)"

text \<open>Functions nested to a depth of at most \<open>d\<close>.\<close>

fun storable_function :: "nat \<Rightarrow> Proto \<Rightarrow> bool" where
  "storable_function 0 f \<longleftrightarrow> False"
| "storable_function (Suc d) (Proto f fs) \<longleftrightarrow>
     storable_data f \<and> length fs < 2 ^ 31 \<and> list_all (storable_function d) fs"

text \<open>What comes back: a stripped function has no debug information, and the name of the source that the
  loader gives it.\<close>

definition restored_data :: "bool \<Rightarrow> string option \<Rightarrow> proto_data \<Rightarrow> proto_data" where
  "restored_data strip p f =
     (if strip then f\<lparr>chunk_source := p, lineinfo := [], locvars := [], upvalue_names := []\<rparr> else f)"

fun restored :: "bool \<Rightarrow> string option \<Rightarrow> Proto \<Rightarrow> Proto" where
  "restored strip p (Proto f fs) =
     Proto (restored_data strip p f) (map (restored strip (if strip then p else chunk_source f)) fs)"

fun all_code :: "(Proto \<Rightarrow> bool) \<Rightarrow> Proto \<Rightarrow> bool" where
  "all_code checkcode (Proto f fs) \<longleftrightarrow> checkcode (Proto f fs) \<and> list_all (all_code checkcode) fs"

lemma restored_whole: "restored False p f = f"
  by (induction f arbitrary: p) (simp add: restored_data_def map_idI)

lemma accepts_constant:
  "(case k of KString s \<Rightarrow> short s | _ \<Rightarrow> True) \<Longrightarrow> accepts (LoadConstant S) (concat (DumpConstant k)) k"
  unfolding LoadConstant_def
proof (cases k)
  case (KBoolean b)
  have "accepts (load_then (LoadChar S) (\<lambda>b. loaded (KBoolean (b \<noteq> 0)))) (concat (DumpChar (if b then 1 else 0))) (KBoolean b)"
    by (rule accepts_map [OF accepts_char]) simp_all
  with KBoolean accepts_char [of 1 S] show "accepts (load_then (LoadChar S) (\<lambda>t.
     if t = 0 then loaded KNil
     else if t = 1 then load_then (LoadChar S) (\<lambda>b. loaded (KBoolean (b \<noteq> 0)))
     else if t = 3 then load_then (LoadNumber S) (\<lambda>x. loaded (KNumber x))
     else if t = 4 then load_then (LoadString S) (\<lambda>s. loaded (KString s))
     else load_error S ''bad constant'')) (concat (DumpConstant k)) k"
    by (simp add: DumpConstant_def accepts_then)
qed (auto simp: DumpConstant_def short_def intro!: accepts_then [OF accepts_char] accepts_map [OF accepts_char]
      accepts_map [OF accepts_number] accepts_map [OF accepts_string])

lemma accepts_locvar:
  "short (varname v) \<Longrightarrow> nat_int (startpc v) \<Longrightarrow> nat_int (endpc v) \<Longrightarrow>
     accepts (LoadLocVar S) (concat (DumpLocVar v)) v"
  unfolding LoadLocVar_def DumpLocVar_def concat_append
  by (intro accepts_then [OF accepts_string] accepts_then [OF accepts_int] accepts_map [OF accepts_int])
    (cases v; simp add: short_def nat_int_def)+

lemma accepts_ints:
  assumes "list_all nat_int xs" "length xs < 2 ^ 31"
  shows "accepts (LoadVector S) (concat (DumpVector (map int_bytes xs))) (map int_bytes xs)"
  by (rule accepts_vector) (use assms(2) in \<open>simp_all add: list_all_iff int_bytes_def\<close>)

lemma map_int_value: "list_all nat_int xs \<Longrightarrow> map int_value (map int_bytes xs) = xs"
  by (auto simp: list_all_iff nat_int_def int_value_bytes intro!: map_idI)

lemma accepts_code:
  "length is < 2 ^ 31 \<Longrightarrow> accepts (LoadVector S)
     (concat (DumpVector (map (\<lambda>i. le_bytes 4 (unat i)) is))) (map (\<lambda>i. le_bytes 4 (unat (i :: 32 word))) is)"
  by (rule accepts_vector) (simp_all add: list_all_iff)

lemma map_code: "map (\<lambda>b. word_of_nat (le_value b)) (map (\<lambda>i. le_bytes 4 (unat i)) is) = (is :: 32 word list)"
  by (simp add: word_bytes comp_def)

lemma accepts_function:
  assumes "storable_function d f" "all_code checkcode (restored strip p f)"
    and "\<not> strip \<Longrightarrow> chunk_source (data f) = q \<Longrightarrow> p = q"
  shows "accepts (LoadFunction d checkcode S p) (concat (DumpFunction strip q f)) (restored strip p f)"
  using assms
proof (induction d arbitrary: f p q)
  case (Suc d)
  obtain g fs where f: "f = Proto g fs" by (cases f)
  let ?src = "if strip then p else chunk_source g"
  let ?lines = "if strip then [] else lineinfo g" and ?vars = "if strip then [] else locvars g"
    and ?names = "if strip then [] else upvalue_names g"
  from Suc.prems f have g: "storable_data g" "length fs < 2 ^ 31" "list_all (storable_function d) fs" by simp_all
  note w = g(1) [unfolded storable_data_def nat_int_def]
  have source: "accepts (LoadString S) (concat (DumpString (if chunk_source g = q \<or> strip then None else chunk_source g)))
      (if chunk_source g = q \<or> strip then None else chunk_source g)"
    using w by (intro accepts_string) (auto simp: short_def)
  have src: "(case (if chunk_source g = q \<or> strip then None else chunk_source g) of None \<Rightarrow> p | Some s \<Rightarrow> Some s) = ?src"
    using Suc.prems(3) f w by (auto split: option.splits)
  have inner: "accepts (LoadFunction d checkcode S ?src) (concat (DumpFunction strip (chunk_source g) h)) (restored strip ?src h)"
    if "h \<in> set fs" for h
    using that g(3) Suc.prems(2) f by (intro Suc.IH) (auto simp: list_all_iff)
  have fns: "accepts (LoadList S (LoadFunction d checkcode S ?src)) (concat (DumpInt (int (length fs))) @
      concat (concat (map (DumpFunction strip (chunk_source g)) fs))) (map (restored strip ?src) fs)"
    using inner g(2) by (rule accepts_list)
  have ks: "accepts (LoadList S (LoadConstant S)) (concat (DumpConstants g)) (constants g)"
    using accepts_list [of "constants g" "LoadConstant S" DumpConstant id S] w
    by (simp add: DumpConstants_def list_all_iff accepts_constant)
  have wl: "list_all nat_int ?lines" "length ?lines < 2 ^ 31" using g(1) by (simp_all add: storable_data_def)
  note ls = accepts_ints [OF wl] map_int_value [OF wl(1)]
  have vs: "accepts (LoadList S (LoadLocVar S)) (concat (DumpInt (int (length ?vars))) @ concat (concat (map DumpLocVar ?vars))) ?vars"
    using accepts_list [of ?vars "LoadLocVar S" DumpLocVar id S] w
    by (auto simp: list_all_iff accepts_locvar nat_int_def)
  have ns: "accepts (LoadList S (LoadString S)) (concat (DumpInt (int (length ?names))) @ concat (concat (map DumpString ?names))) ?names"
    using accepts_list [of ?names "LoadString S" DumpString id S] w
    by (auto simp: list_all_iff accepts_string short_def)
  have bytes: "concat (DumpFunction strip q f) =
      concat (DumpString (if chunk_source g = q \<or> strip then None else chunk_source g)) @
      concat (DumpInt (linedefined g)) @ concat (DumpInt (lastlinedefined g)) @
      concat (DumpChar (nups g)) @ concat (DumpChar (numparams g)) @ concat (DumpChar (is_vararg g)) @
      concat (DumpChar (maxstacksize g)) @ concat (DumpVector (map (\<lambda>i. le_bytes 4 (unat i)) (code g))) @
      concat (DumpConstants g) @
      (concat (DumpInt (int (length fs))) @ concat (concat (map (DumpFunction strip (chunk_source g)) fs))) @
      concat (DumpVector (map int_bytes ?lines)) @
      (concat (DumpInt (int (length ?vars))) @ concat (concat (map DumpLocVar ?vars))) @
      (concat (DumpInt (int (length ?names))) @ concat (concat (map DumpString ?names)))"
    by (simp add: f DumpDebug_def Let_def)
  have result: "Proto \<lparr>chunk_source = ?src, linedefined = linedefined g, lastlinedefined = lastlinedefined g,
      nups = nups g, numparams = numparams g, is_vararg = is_vararg g, maxstacksize = maxstacksize g,
      code = code g, constants = constants g, lineinfo = ?lines, locvars = ?vars, upvalue_names = ?names\<rparr>
      (map (restored strip ?src) fs) = restored strip p f"
    by (cases g) (simp add: f restored_data_def)
  have check: "checkcode (restored strip p f)" using Suc.prems(2) by (simp add: f)
  show ?case
    unfolding bytes LoadFunction.simps
    by (rule accepts_then [OF source], unfold Let_def src,
        intro accepts_then [OF accepts_int] accepts_then [OF accepts_char] accepts_then [OF accepts_code]
          accepts_then [OF ks] accepts_then [OF fns] accepts_then [OF ls(1)] accepts_then [OF vs] accepts_map [OF ns])
      (use w in \<open>simp_all only: map_code ls(2) result check if_True\<close>)
qed simp

lemma accepts_undump:
  assumes "storable_function (LUAI_MAXCCALLS - nCcalls) f" "all_code checkcode (restored strip (Some ''=?'') f)"
  shows "accepts (luaU_undump checkcode nCcalls name) (concat (dump_blocks f strip)) (restored strip (Some ''=?'') f)"
proof -
  have "chunk_source (data f) \<noteq> None"
    using assms(1) by (cases "LUAI_MAXCCALLS - nCcalls"; cases f) (auto simp: storable_data_def)
  then have "accepts (LoadFunction (LUAI_MAXCCALLS - nCcalls) checkcode (chunk_name name) (Some ''=?''))
      (concat (DumpFunction strip None f)) (restored strip (Some ''=?'') f)"
    using assms by (intro accepts_function) auto
  moreover have "accepts (LoadHeader (chunk_name name)) luaU_header ()"
    unfolding LoadHeader_def by (rule accepts_map [OF accepts_block]) simp_all
  ultimately show ?thesis
    unfolding luaU_undump_def dump_blocks_def concat.simps by (rule accepts_then [rotated])
qed

text \<open>A stripped chunk gives the function without its debug information.\<close>

lemma stripped_chunk:
  assumes "storable_function (LUAI_MAXCCALLS - nCcalls) f" "all_code checkcode (restored True (Some ''=?'') f)"
    and "zio_text z = snd (luaU_dump (\<lambda>b d. (0, d @ b)) [] f True)"
  shows "\<exists>z'. luaU_undump checkcode nCcalls name z = Inr (restored True (Some ''=?'') f, z')"
proof -
  have "zio_text z = concat (dump_blocks f True) @ []"
    using assms(3) by (simp add: luaU_dump_def foldl_append)
  from acceptsD [OF accepts_undump [OF assms(1,2)] this] show ?thesis by blast
qed

text \<open>\<open>f_parser\<close> (\<^verbatim>\<open>src/ldo.c\<close>) tells precompiled code from text by the first byte; the parser is an
  argument.\<close>

definition f_parser :: "(string \<Rightarrow> Proto loader) \<Rightarrow> (Proto \<Rightarrow> bool) \<Rightarrow> nat \<Rightarrow> string \<Rightarrow> Proto loader" where
  "f_parser luaY_parser checkcode nCcalls name = (\<lambda>z.
     case luaZ_lookahead z of (c, z) \<Rightarrow>
       if c = Some (CHR 0x1B) then luaU_undump checkcode nCcalls name z else luaY_parser name z)"

lemma f_parser_binary:
  assumes "zio_text z = CHR 0x1B # s"
  obtains z' where "f_parser parser checkcode nCcalls name z = luaU_undump checkcode nCcalls name z'"
    "zio_text z' = zio_text z"
proof -
  obtain c z' where l: "luaZ_lookahead z = (c, z')" by (metis prod.exhaust)
  then obtain d where c: "c = Some d" "zio_text z' = zio_text z" "fst z' \<noteq> []"
    using lookahead_text [OF l] assms by (auto split: option.splits)
  have "d = CHR 0x1B"
    using l c assms by (cases z rule: luaZ_lookahead.cases) (auto simp: zio_text_def)
  with l c show ?thesis by (intro that [of z']) (simp_all add: f_parser_def)
qed

lemma dumped_starts: "\<exists>s. dumped f = CHR 0x1B # s"
  by (simp add: dumped_concat dump_blocks_def luaU_header_def char_of_def bit_0)

text \<open>C24: precompiled code comes back as it was: what lua_dump writes for a function, nested functions
  and debug information included, is loaded as the same function from any stream, however the
  reader cuts it into blocks and whatever follows it, when its code passes the check, its fields fit their
  widths in the file and it is not nested deeper than C calls may be; and from a stream that holds a
  beginning of it only, of at least one byte, loading fails with an error instead of giving a function.\<close>

theorem chunk_round_trip:
  assumes "storable_function (LUAI_MAXCCALLS - nCcalls) f" "all_code checkcode f"
    and "zio_text z = dumped f @ r" "strict_prefix (zio_text w) (dumped f)" "zio_text w \<noteq> []"
  shows "(\<exists>z'. f_parser parser checkcode nCcalls name z = Inr (f, z') \<and> zio_text z' = r) \<and>
     fails (f_parser parser checkcode nCcalls name w)"
proof
  let ?m = "luaU_undump checkcode nCcalls name"
  obtain s where s: "dumped f = CHR 0x1B # s" using dumped_starts by blast
  have a: "accepts ?m (dumped f) f"
    using accepts_undump [of nCcalls f checkcode False name] assms(1,2) by (simp add: restored_whole dumped_concat)
  from assms(3) s have "zio_text z = CHR 0x1B # (s @ r)" by simp
  from f_parser_binary [OF this] obtain z1 where z1: "f_parser parser checkcode nCcalls name z = ?m z1"
    "zio_text z1 = zio_text z" by blast
  with acceptsD [OF a] assms(3) show "\<exists>z'. f_parser parser checkcode nCcalls name z = Inr (f, z') \<and> zio_text z' = r"
    by metis
  have "zio_text (dumped f, []) = dumped f @ []" by (simp add: zio_text_def)
  from acceptsD [OF a this] obtain z' where z': "?m (dumped f, []) = Inr (f, z')" "zio_text z' = []" by blast
  then have "\<not> fails (?m (dumped f, []))" by (simp add: fails_def)
  with strict_undump [of checkcode nCcalls name] z' obtain bs where
    "zio_text (dumped f, []) = bs @ []" "\<forall>w. strict_prefix (zio_text w) bs \<longrightarrow> fails (?m w)"
    unfolding strict_def by (metis prod.inject sum.inject(2))
  moreover from this have "bs = dumped f" by (simp add: zio_text_def)
  ultimately have bad: "fails (?m v)" if "strict_prefix (zio_text v) (dumped f)" for v
    using that by blast
  obtain t where "zio_text w = CHR 0x1B # t"
    using assms(4,5) s by (cases "zio_text w") auto
  from f_parser_binary [OF this] obtain w1 where "f_parser parser checkcode nCcalls name w = ?m w1"
    "zio_text w1 = zio_text w" by blast
  with bad assms(4) show "fails (f_parser parser checkcode nCcalls name w)" by simp
qed

definition demo_function :: Proto where
  "demo_function = Proto \<lparr>chunk_source = Some ''=demo'', linedefined = 0, lastlinedefined = 3, nups = 0, numparams = 1,
     is_vararg = 2, maxstacksize = 2, code = [30], constants = [KString (Some ''x''), KNumber 5, KBoolean True],
     lineinfo = [3], locvars = [\<lparr>varname = Some ''a'', startpc = 0, endpc = 1\<rparr>], upvalue_names = []\<rparr> []"

theorem chunk_round_trip_witness:
  "(\<exists>z'. f_parser (\<lambda>_. load_error [] []) (\<lambda>_. True) 1 ''=stdin'' (take 7 (dumped demo_function), [drop 7 (dumped demo_function)]) =
       Inr (demo_function, z') \<and> zio_text z' = []) \<and>
   fails (f_parser (\<lambda>_. load_error [] []) (\<lambda>_. True) 1 ''=stdin'' (take 7 (dumped demo_function), []))"
proof (rule chunk_round_trip)
  have "LUAI_MAXCCALLS - 1 = Suc 198" by (simp add: LUAI_MAXCCALLS_def)
  then show "storable_function (LUAI_MAXCCALLS - 1) demo_function"
    by (simp only: demo_function_def storable_function.simps) (simp add: storable_data_def short_def nat_int_def)
  show "all_code (\<lambda>_. True) demo_function" by (simp add: demo_function_def)
  have "length (dumped demo_function) > 7"
    by (simp add: dumped_concat dump_blocks_def luaU_header_def)
  then show "zio_text (take 7 (dumped demo_function), [drop 7 (dumped demo_function)]) = dumped demo_function @ []"
    "strict_prefix (zio_text (take 7 (dumped demo_function), [])) (dumped demo_function)"
    "zio_text (take 7 (dumped demo_function), []) \<noteq> []"
    by (auto simp: zio_text_def strict_prefix_def take_is_prefix)
qed

text \<open>A string constant of size 0 is a null pointer; the loader lets it pass.\<close>

lemma null_string_constant: "accepts (LoadConstant S) (char_of (4 :: nat) # le_bytes 8 0) (KString None)"
  using accepts_constant [of "KString None" S] by (simp add: DumpConstant_def DumpString_def DumpChar_def short_def)

end
