(* ===== verification/Mime.thy ===== *)
theory Mime
  imports Prelude
begin

unbundle bit_operations_syntax

text \<open>
  The transfer encodings of \<^verbatim>\<open>src/luasocket/mime.c\<close>, the C functions behind
  \<^verbatim>\<open>mime.encode\<close>, \<^verbatim>\<open>mime.decode\<close>, \<^verbatim>\<open>mime.wrap\<close>, \<^verbatim>\<open>mime.normalize\<close> and
  \<^verbatim>\<open>mime.stuff\<close>.  Each of them is a loop over the bytes of its argument around a step
  function with a small state (the bytes it could not translate yet, the columns left on
  the line, the last end-of-line byte); the loop is \<open>feed\<close>, and what a step appends to the
  \<^verbatim>\<open>luaL_Buffer\<close> is the second component of its result.  An unsigned char is a \<open>char\<close>, a
  Lua string a list of them, \<open>nil\<close> is \<open>None\<close>.  The locale \<open>mime_filter\<close> is what the
  high-level filters of \<^verbatim>\<open>ltn12.lua\<close> rely on when they hand the bytes of one call to the
  next.
\<close>

named_theorems mime_defs "the step functions of the filters"

section \<open>The loop over the input\<close>

fun feed :: "(char \<Rightarrow> 's \<Rightarrow> 's \<times> string) \<Rightarrow> 's \<Rightarrow> string \<Rightarrow> 's \<times> string" where
  "feed f s [] = (s, [])"
| "feed f s (c # cs) =
     (let (s1, o1) = f c s; (s2, o2) = feed f s1 cs in (s2, o1 @ o2))"

lemma feed_append:
  "feed f s (xs @ ys) =
     (let (s1, o1) = feed f s xs; (s2, o2) = feed f s1 ys in (s2, o1 @ o2))"
  by (induction xs arbitrary: s) (auto simp: Let_def split: prod.splits)

lemma feed_appendE:
  "feed f s xs = (s1, o1) \<Longrightarrow> feed f s1 ys = (s2, o2) \<Longrightarrow> feed f s (xs @ ys) = (s2, o1 @ o2)"
  by (simp add: feed_append)

lemma feed_invariant:
  assumes "\<And>c s. P s \<Longrightarrow> P (fst (f c s))" "P s"
  shows "P (fst (feed f s cs))"
  using assms(2)
proof (induction cs arbitrary: s)
  case (Cons c cs)
  from Cons.IH [OF assms(1) [OF Cons.prems]] show ?case
    by (simp add: split_beta)
qed simp

section \<open>Base64\<close>

definition b64base :: string where
  "b64base = ''ABCDEFGHIJKLMNOPQRSTUVWXYZabcdefghijklmnopqrstuvwxyz0123456789+/''"

definition b64unbase :: "nat list" where
  "b64unbase =
     replicate 43 255 @ [62, 255, 255, 255, 63,
     52, 53, 54, 55, 56, 57, 58, 59, 60, 61, 255, 255, 255, 0,
     255, 255, 255, 0, 1, 2, 3, 4, 5, 6, 7, 8, 9, 10, 11, 12, 13,
     14, 15, 16, 17, 18, 19, 20, 21, 22, 23, 24, 25, 255, 255,
     255, 255, 255, 255, 26, 27, 28, 29, 30, 31, 32, 33, 34, 35,
     36, 37, 38, 39, 40, 41, 42, 43, 44, 45, 46, 47, 48, 49, 50,
     51] @ replicate 133 255"

definition b64encode :: "char \<Rightarrow> string \<Rightarrow> string \<times> string" where
  "b64encode c atom =
     (let input = atom @ [c] in
      if length input = 3 then
        let v0 = 0;
            v1 = push_bit 8 (v0 + of_char (input ! 0) :: nat);
            v2 = push_bit 8 (v1 + of_char (input ! 1));
            v3 = v2 + of_char (input ! 2);
            code3 = b64base ! (v3 AND 0x3f); v4 = drop_bit 6 v3;
            code2 = b64base ! (v4 AND 0x3f); v5 = drop_bit 6 v4;
            code1 = b64base ! (v5 AND 0x3f); v6 = drop_bit 6 v5;
            code0 = b64base ! v6
        in ([], [code0, code1, code2, code3])
      else (input, []))"

definition b64pad :: "string \<Rightarrow> string" where
  "b64pad input =
     (if length input = 1 then
        let v0 = push_bit 4 (of_char (input ! 0) :: nat);
            code1 = b64base ! (v0 AND 0x3f); v1 = drop_bit 6 v0;
            code0 = b64base ! v1
        in [code0, code1, CHR ''='', CHR ''='']
      else if length input = 2 then
        let v0 = push_bit 8 (of_char (input ! 0) :: nat);
            v1 = push_bit 2 (v0 OR of_char (input ! 1));
            code2 = b64base ! (v1 AND 0x3f); v2 = drop_bit 6 v1;
            code1 = b64base ! (v2 AND 0x3f); v3 = drop_bit 6 v2;
            code0 = b64base ! v3
        in [code0, code1, code2, CHR ''='']
      else [])"

definition b64decode :: "char \<Rightarrow> string \<Rightarrow> string \<times> string" where
  "b64decode c atom =
     (if b64unbase ! of_char c > 64 then (atom, [])
      else
        let input = atom @ [c] in
        if length input = 4 then
          let v0 = push_bit 6 (b64unbase ! of_char (input ! 0));
              v1 = push_bit 6 (v0 OR b64unbase ! of_char (input ! 1));
              v2 = push_bit 6 (v1 OR b64unbase ! of_char (input ! 2));
              v3 = v2 OR b64unbase ! of_char (input ! 3);
              decoded2 = char_of (v3 AND 0xff); v4 = drop_bit 8 v3;
              decoded1 = char_of (v4 AND 0xff); v5 = drop_bit 8 v4;
              decoded0 = char_of v5;
              valid = (if input ! 2 = CHR ''='' then 1
                       else if input ! 3 = CHR ''='' then 2 else 3)
          in ([], take valid [decoded0, decoded1, decoded2])
        else (input, []))"

definition mime_global_b64 :: "string option \<Rightarrow> string option \<Rightarrow> string option \<times> string option" where
  "mime_global_b64 C D =
     (case C of
        None \<Rightarrow> (None, None)
      | Some input \<Rightarrow>
          (let (atom, buffer) = feed b64encode [] input in
           case D of
             None \<Rightarrow>
               (let out = buffer @ b64pad atom in
                if out = [] then (None, None) else (Some out, None))
           | Some input2 \<Rightarrow>
               (let (atom2, buffer2) = feed b64encode atom input2
                in (Some (buffer @ buffer2), Some atom2))))"

definition mime_global_unb64 :: "string option \<Rightarrow> string option \<Rightarrow> string option \<times> string option" where
  "mime_global_unb64 C D =
     (case C of
        None \<Rightarrow> (None, None)
      | Some input \<Rightarrow>
          (let (atom, buffer) = feed b64decode [] input in
           case D of
             None \<Rightarrow> if buffer = [] then (None, None) else (Some buffer, None)
           | Some input2 \<Rightarrow>
               (let (atom2, buffer2) = feed b64decode atom input2
                in (Some (buffer @ buffer2), Some atom2))))"

section \<open>Quoted-printable\<close>

datatype qp_class = QP_PLAIN | QP_QUOTED | QP_CR | QP_IF_LAST

definition qpclass_tab :: "qp_class list" where
  "qpclass_tab =
     replicate 9 QP_QUOTED @ [QP_IF_LAST] @ replicate 3 QP_QUOTED @ [QP_CR] @
     replicate 18 QP_QUOTED @ [QP_IF_LAST] @ replicate 28 QP_PLAIN @ [QP_QUOTED] @
     replicate 65 QP_PLAIN @ replicate 129 QP_QUOTED"

definition qpclass :: "char \<Rightarrow> qp_class" where
  "qpclass c = qpclass_tab ! of_char c"

definition qpbase :: string where
  "qpbase = ''0123456789ABCDEF''"

definition qpunbase :: "nat list" where
  "qpunbase =
     replicate 48 255 @ [0, 1, 2, 3, 4, 5, 6, 7, 8, 9] @ replicate 7 255 @
     [10, 11, 12, 13, 14, 15] @ replicate 26 255 @ [10, 11, 12, 13, 14, 15] @
     replicate 153 255"

abbreviation CRLF :: string where "CRLF \<equiv> [CR, NL]"
abbreviation EQCRLF :: string where "EQCRLF \<equiv> [CHR ''='', CR, NL]"

definition qpquote :: "char \<Rightarrow> string" where
  "qpquote c =
     [CHR ''='', qpbase ! drop_bit 4 (of_char c), qpbase ! (of_char c AND 0x0F)]"

text \<open>
  The inner loop of \<^verbatim>\<open>qpencode\<close> shifts \<^verbatim>\<open>input\<close> by one byte in every round that does not
  return; the bytes beyond \<^verbatim>\<open>size\<close> it copies are never read.
\<close>

fun qpencode_loop :: "string \<Rightarrow> string \<Rightarrow> string \<times> string" where
  "qpencode_loop marker [] = ([], [])"
| "qpencode_loop marker (c # cs) =
     (case qpclass c of
        QP_CR \<Rightarrow>
          if length (c # cs) < 2 then (c # cs, [])
          else if cs ! 0 = NL then ([], marker)
          else (let (s, out) = qpencode_loop marker cs in (s, qpquote c @ out))
      | QP_IF_LAST \<Rightarrow>
          if length (c # cs) < 3 then (c # cs, [])
          else if cs ! 0 = CR \<and> cs ! 1 = NL then ([], qpquote c @ marker)
          else (let (s, out) = qpencode_loop marker cs in (s, c # out))
      | QP_QUOTED \<Rightarrow> (let (s, out) = qpencode_loop marker cs in (s, qpquote c @ out))
      | QP_PLAIN \<Rightarrow> (let (s, out) = qpencode_loop marker cs in (s, c # out)))"

definition qpencode :: "string \<Rightarrow> char \<Rightarrow> string \<Rightarrow> string \<times> string" where
  "qpencode marker c input = qpencode_loop marker (input @ [c])"

definition qppad :: "string \<Rightarrow> string" where
  "qppad input =
     concat (map (\<lambda>c. if qpclass c = QP_PLAIN then [c] else qpquote c) input) @
     (if length input > 0 then EQCRLF else [])"

definition qpdecode :: "char \<Rightarrow> string \<Rightarrow> string \<times> string" where
  "qpdecode c atom =
     (let input = atom @ [c] in
      if input ! 0 = CHR ''='' then
        if length input < 3 then (input, [])
        else if input ! 1 = CR \<and> input ! 2 = NL then ([], [])
        else
          let c' = qpunbase ! of_char (input ! 1); d = qpunbase ! of_char (input ! 2)
          in if c' > 15 \<or> d > 15 then ([], take 3 input)
             else ([], [char_of (push_bit 4 c' + d)])
      else if input ! 0 = CR then
        if length input < 2 then (input, [])
        else if input ! 1 = NL then ([], take 2 input)
        else ([], [])
      else
        if input ! 0 = TAB \<or> (31 < (of_char (input ! 0) :: nat) \<and> (of_char (input ! 0) :: nat) < 127)
        then ([], [input ! 0])
        else ([], []))"

definition mime_global_qp ::
  "string option \<Rightarrow> string option \<Rightarrow> string option \<Rightarrow> string option \<times> string option" where
  "mime_global_qp C D mark =
     (let marker = (case mark of None \<Rightarrow> CRLF | Some m \<Rightarrow> c_str m) in
      case C of
        None \<Rightarrow> (None, None)
      | Some input \<Rightarrow>
          (let (atom, buffer) = feed (qpencode marker) [] input in
           case D of
             None \<Rightarrow>
               (let out = buffer @ qppad atom in
                if c_str out = [] then (None, None) else (Some out, None))
           | Some input2 \<Rightarrow>
               (let (atom2, buffer2) = feed (qpencode marker) atom input2
                in (Some (buffer @ buffer2), Some atom2))))"

definition mime_global_unqp :: "string option \<Rightarrow> string option \<Rightarrow> string option \<times> string option" where
  "mime_global_unqp C D =
     (case C of
        None \<Rightarrow> (None, None)
      | Some input \<Rightarrow>
          (let (atom, buffer) = feed qpdecode [] input in
           case D of
             None \<Rightarrow> if c_str buffer = [] then (None, None) else (Some buffer, None)
           | Some input2 \<Rightarrow>
               (let (atom2, buffer2) = feed qpdecode atom input2
                in (Some (buffer @ buffer2), Some atom2))))"

section \<open>Line wrapping\<close>

definition wrp_step :: "int \<Rightarrow> char \<Rightarrow> int \<Rightarrow> int \<times> string" where
  "wrp_step len c left =
     (if c = CR then (left, [])
      else if c = NL then (len, CRLF)
      else if left \<le> 0 then (len - 1, CRLF @ [c])
      else (left - 1, [c]))"

definition mime_global_wrp :: "int \<Rightarrow> string option \<Rightarrow> int \<Rightarrow> string option \<times> int" where
  "mime_global_wrp left input len =
     (case input of
        None \<Rightarrow> (if left < len then Some CRLF else None, len)
      | Some cs \<Rightarrow> (let (left', out) = feed (wrp_step len) left cs in (Some out, left')))"

definition qpwrp_step :: "int \<Rightarrow> char \<Rightarrow> int \<Rightarrow> int \<times> string" where
  "qpwrp_step len c left =
     (if c = CR then (left, [])
      else if c = NL then (len, CRLF)
      else if c = CHR ''='' then
        (if left \<le> 3 then (len - 1, EQCRLF @ [c]) else (left - 1, [c]))
      else
        (if left \<le> 1 then (len - 1, EQCRLF @ [c]) else (left - 1, [c])))"

definition mime_global_qpwrp :: "int \<Rightarrow> string option \<Rightarrow> int \<Rightarrow> string option \<times> int" where
  "mime_global_qpwrp left input len =
     (case input of
        None \<Rightarrow> (if left < len then Some EQCRLF else None, len)
      | Some cs \<Rightarrow> (let (left', out) = feed (qpwrp_step len) left cs in (Some out, left')))"

section \<open>End-of-line normalisation and dot stuffing\<close>

text \<open>
  The context of \<^verbatim>\<open>eol\<close> is the integer 0 or the candidate byte that was seen last; an
  integer of the caller that is no candidate acts like 0, and is \<open>None\<close> here.
\<close>

definition eolcandidate :: "char \<Rightarrow> bool" where
  "eolcandidate c \<longleftrightarrow> c = CR \<or> c = NL"

definition eolprocess :: "string \<Rightarrow> char \<Rightarrow> char option \<Rightarrow> char option \<times> string" where
  "eolprocess marker c last_c =
     (if eolcandidate c then
        case last_c of
          Some l \<Rightarrow>
            if eolcandidate l then (None, if c = l then marker else [])
            else (Some c, marker)
        | None \<Rightarrow> (Some c, marker)
      else (None, [c]))"

definition mime_global_eol ::
  "char option \<Rightarrow> string option \<Rightarrow> string option \<Rightarrow> string option \<times> char option" where
  "mime_global_eol ctx input mark =
     (let marker = (case mark of None \<Rightarrow> CRLF | Some m \<Rightarrow> c_str m) in
      case input of
        None \<Rightarrow> (None, None)
      | Some cs \<Rightarrow> (let (ctx', out) = feed (eolprocess marker) ctx cs in (Some out, ctx')))"

definition dot :: "char \<Rightarrow> nat \<Rightarrow> nat \<times> string" where
  "dot c state =
     (if c = CR then (1, [c])
      else if c = NL then (if state = 1 then 2 else 0, [c])
      else if c = CHR ''.'' then (0, if state = 2 then [c, CHR ''.''] else [c])
      else (0, [c]))"

definition mime_global_dot :: "nat \<Rightarrow> string option \<Rightarrow> string option \<times> nat" where
  "mime_global_dot state input =
     (case input of
        None \<Rightarrow> (None, 2)
      | Some cs \<Rightarrow> (let (state', out) = feed dot state cs in (Some out, state')))"

section \<open>The interface of the filters\<close>

text \<open>
  What \<^verbatim>\<open>ltn12.filter.cycle\<close> builds from a C function: the second result of one call is
  the first argument of the next, and \<^verbatim>\<open>nil\<close> closes the stream.  \<open>cycle\<close> is the text that
  comes out when the chunks are pushed through it one after the other.
\<close>

fun cycle ::
  "(string option \<Rightarrow> string option \<Rightarrow> string option \<times> string option) \<Rightarrow> string option \<Rightarrow>
   string list \<Rightarrow> string" where
  "cycle low ctx [] = (case fst (low ctx None) of None \<Rightarrow> [] | Some r \<Rightarrow> r)"
| "cycle low ctx (chunk # chunks) =
     (let (r, ctx') = low ctx (Some chunk)
      in (case r of None \<Rightarrow> [] | Some x \<Rightarrow> x) @ cycle low ctx' chunks)"

locale mime_filter =
  fixes low :: "string option \<Rightarrow> string option \<Rightarrow> string option \<times> string option"
    and step :: "char \<Rightarrow> string \<Rightarrow> string \<times> string"
    and pad :: "string \<Rightarrow> string"
    and ok :: "string \<Rightarrow> bool"
  assumes ok_start: "ok []"
    and ok_step: "ok s \<Longrightarrow> ok (fst (step c s))"
    and reload: "ok s \<Longrightarrow> feed step [] s = (s, [])"
    and middle: "low (Some s) (Some chunk) =
      (let (s1, o1) = feed step [] s; (s2, o2) = feed step s1 chunk in (Some (o1 @ o2), Some s2))"
    and closing: "ok s \<Longrightarrow> low (Some s) None = (if pad s = [] then None else Some (pad s), None)"
begin

lemma ok_feed: "ok s \<Longrightarrow> ok (fst (feed step s cs))"
  by (rule feed_invariant [where P = ok]) (rule ok_step)

lemma middle_ok:
  assumes "ok s" "feed step s chunk = (s', out)"
  shows "low (Some s) (Some chunk) = (Some out, Some s')"
  using assms by (simp add: middle reload)

lemma cycle_is_feed:
  assumes "ok s"
  shows "cycle low (Some s) chunks =
    (let (s', out) = feed step s (concat chunks) in out @ pad s')"
  using assms
proof (induction chunks arbitrary: s)
  case Nil
  then show ?case by (simp add: closing)
next
  case (Cons chunk chunks)
  obtain s1 o1 where 1: "feed step s chunk = (s1, o1)" by (cases "feed step s chunk")
  from ok_feed [OF Cons.prems, of chunk] 1 have "ok s1" by simp
  from Cons.IH [OF this] Cons.prems 1 show ?case
    by (simp add: middle_ok feed_append split_beta Let_def)
qed

lemma cycle_start:
  "cycle low (Some []) chunks = (let (s', out) = feed step [] (concat chunks) in out @ pad s')"
  by (rule cycle_is_feed [OF ok_start])

lemma chunks_do_not_matter:
  "concat chunks = concat chunks' \<Longrightarrow> cycle low (Some []) chunks = cycle low (Some []) chunks'"
  by (simp add: cycle_start)

end

section \<open>The tables\<close>

lemma of_char_eq_num: "n < 256 \<Longrightarrow> (of_char c :: nat) = n \<longleftrightarrow> c = char_of n"
  by auto

lemma upto_64: "[0..<64] =
      [0, 1, 2, 3, 4, 5, 6, 7, 8, 9, 10, 11, 12, 13, 14, 15, 16, 17, 18, 19, 20, 21,
       22, 23, 24, 25, 26, 27, 28, 29, 30, 31, 32, 33, 34, 35, 36, 37, 38, 39, 40, 41,
       42, 43, 44, 45, 46, 47, 48, 49, 50, 51, 52, 53, 54, 55, 56, 57, 58, 59, 60, 61,
       62, 63]"
  by code_simp

lemma upto_16: "[0..<16] = [0, 1, 2, 3, 4, 5, 6, 7, 8, 9, 10, 11, 12, 13, 14, 15]"
  by code_simp

lemma b64_tables:
  "i < 64 \<Longrightarrow> b64unbase ! of_char (b64base ! i) = i \<and> b64base ! i \<noteq> CHR ''=''"
proof -
  have "list_all (\<lambda>i. b64unbase ! of_char (b64base ! i) = i \<and> b64base ! i \<noteq> CHR ''='') [0..<64]"
    unfolding upto_64 by (simp add: b64base_def b64unbase_def nth_append)
  then show "i < 64 \<Longrightarrow> b64unbase ! of_char (b64base ! i) = i \<and> b64base ! i \<noteq> CHR ''=''"
    by (simp add: list_all_iff)
qed

lemma b64unbase_pad [simp]: "b64unbase ! of_char (CHR ''='') = 0"
  by (simp add: b64unbase_def nth_append)

text \<open>
  The table agrees with \<^verbatim>\<open>qpsetup\<close>, the code in the comment that once computed it.
\<close>

lemma qpclass_tab_nth:
  "n < 256 \<Longrightarrow> qpclass_tab ! n =
     (if n = 9 \<or> n = 32 then QP_IF_LAST
      else if n = 13 then QP_CR
      else if (33 \<le> n \<and> n \<le> 60) \<or> (62 \<le> n \<and> n \<le> 126) then QP_PLAIN
      else QP_QUOTED)"
  by (auto simp: qpclass_tab_def nth_append nth_Cons')

lemma qpclass_setup:
  "qpclass c =
     (let n = of_char c :: nat in
      if n = 9 \<or> n = 32 then QP_IF_LAST
      else if n = 13 then QP_CR
      else if (33 \<le> n \<and> n \<le> 60) \<or> (62 \<le> n \<and> n \<le> 126) then QP_PLAIN
      else QP_QUOTED)"
  by (simp add: qpclass_def Let_def qpclass_tab_nth [OF of_char_256])

lemma char_codes:
  "(of_char c :: nat) = 9 \<longleftrightarrow> c = TAB" "(of_char c :: nat) = 32 \<longleftrightarrow> c = SPC"
  "(of_char c :: nat) = 13 \<longleftrightarrow> c = CR" "(of_char c :: nat) = 61 \<longleftrightarrow> c = CHR ''=''"
  using of_char_eq_iff [of c TAB, where 'a = nat] of_char_eq_iff [of c SPC, where 'a = nat]
    of_char_eq_iff [of c CR, where 'a = nat] of_char_eq_iff [of c "CHR ''=''", where 'a = nat]
  by simp_all

lemma qpclass_cases:
  "qpclass c = QP_PLAIN \<Longrightarrow> c \<noteq> CHR ''='' \<and> 32 < (of_char c :: nat) \<and> (of_char c :: nat) < 127"
  "qpclass c = QP_CR \<Longrightarrow> c = CR"
  "qpclass c = QP_IF_LAST \<Longrightarrow> c = TAB \<or> c = SPC"
  by (auto simp: qpclass_setup Let_def char_codes split: if_splits)

lemma qpbase_unbase:
  "i < 16 \<Longrightarrow> qpunbase ! of_char (qpbase ! i) = i \<and> qpbase ! i \<notin> {CR, NL, CHR ''=''}"
proof -
  have "list_all (\<lambda>i. qpunbase ! of_char (qpbase ! i) = i \<and> qpbase ! i \<notin> set [CR, NL, CHR ''='']) [0..<16]"
    unfolding upto_16 by (simp add: qpbase_def qpunbase_def nth_append)
  then show "i < 16 \<Longrightarrow> qpunbase ! of_char (qpbase ! i) = i \<and> qpbase ! i \<notin> {CR, NL, CHR ''=''}"
    by (simp add: list_all_iff)
qed

section \<open>Base64 brings the bytes back\<close>

text \<open>The shifts and masks of the source as arithmetic.\<close>

lemma masks: "(n::nat) AND 63 = n mod 64" "(n::nat) AND 255 = n mod 256" "(n::nat) AND 15 = n mod 16"
  using take_bit_eq_mask [of 6 n] take_bit_eq_mask [of 8 n] take_bit_eq_mask [of 4 n]
  by (simp_all add: mask_eq_exp_minus_1 take_bit_eq_mod)

lemma or_is_add: "u < 2 ^ k \<Longrightarrow> push_bit k v OR u = push_bit k v + (u :: nat)"
proof -
  assume "u < 2 ^ k"
  then have "take_bit k u = u" by (simp add: take_bit_nat_eq_self)
  moreover have "push_bit k v AND take_bit k u = 0"
    by (rule bit_eqI) (auto simp: bit_simps)
  ultimately show ?thesis by (simp add: disjunctive_add_eq_or)
qed

lemma or_bytes: "u < 64 \<Longrightarrow> v * 64 OR u = v * 64 + (u :: nat)"
    "u < 256 \<Longrightarrow> v * 256 OR u = v * 256 + (u :: nat)"
  using or_is_add [of u 6 v] or_is_add [of u 8 v] by (simp_all add: push_bit_eq_mult mult.commute)

lemmas bits_arith = masks or_bytes push_bit_eq_mult drop_bit_eq_div

lemma b64encode_three:
  "feed b64encode [] [a, b, c] =
    (let v = (of_char a * 256 + of_char b) * 256 + of_char c :: nat
     in ([], map ((!) b64base) [v div 64 div 64 div 64, v div 64 div 64 mod 64, v div 64 mod 64, v mod 64]))"
  by (simp add: b64encode_def Let_def bits_arith algebra_simps)

lemma b64decode_four:
  assumes "d0 < 64" "d1 < 64" "d2 < 64" "d3 < 64"
  shows "feed b64decode [] (map ((!) b64base) [d0, d1, d2, d3]) =
    (let v = ((d0 * 64 + d1) * 64 + d2) * 64 + d3
     in ([], [char_of (v div 256 div 256), char_of (v div 256), char_of v]))"
  using assms
  by (simp add: b64decode_def Let_def b64_tables bits_arith char_of_mod_256)

lemma digits_value:
  "((v div 64 div 64 div 64 * 64 + v div 64 div 64 mod 64) * 64 + v div 64 mod 64) * 64 + v mod 64 = (v :: nat)"
  by presburger

lemma three_bytes:
  assumes "(z :: nat) < 256" "y < 256" "x < 256"
  shows "((x * 256 + y) * 256 + z) div 256 div 256 mod 256 = x \<and>
     ((x * 256 + y) * 256 + z) div 256 mod 256 = y \<and> ((x * 256 + y) * 256 + z) mod 256 = z"
proof -
  have "(w * 256 + z) div 256 = w" "(w * 256 + z) mod 256 = z" for w :: nat
    using assms by simp_all
  from this [of "x * 256 + y"] assms show ?thesis by simp
qed

lemma b64_three:
  "feed b64decode [] (snd (feed b64encode [] [a, b, c])) = ([], [a, b, c])"
proof -
  let ?v = "(of_char a * 256 + of_char b) * 256 + of_char c :: nat"
  have "?v div 64 div 64 div 64 < 64"
    using of_char_256 [of a] of_char_256 [of b] of_char_256 [of c]
    by (intro less_mult_imp_div_less, simp, linarith)
  moreover have "char_of (?v div 256 div 256) = a" "char_of (?v div 256) = b" "char_of ?v = c"
    using three_bytes [of "of_char c" "of_char b" "of_char a"] of_char_256 [of a] of_char_256 [of b]
      of_char_256 [of c]
    by (simp_all add: char_of_eq_iff take_bit_eq_mod)
  ultimately show ?thesis
    unfolding b64encode_three Let_def snd_conv
    by (subst b64decode_four) (simp_all add: Let_def digits_value del: list.map)
qed

lemma b64unbase_61: "b64unbase ! 61 = 0"
  using b64unbase_pad by simp

lemma b64pad_one:
  "b64pad [a] = (let v = of_char a * 16 :: nat
     in map ((!) b64base) [v div 64, v mod 64] @ [CHR ''='', CHR ''=''])"
  by (simp add: b64pad_def Let_def bits_arith)

lemma b64pad_two:
  "b64pad [a, b] = (let v = (of_char a * 256 + of_char b) * 4 :: nat
     in map ((!) b64base) [v div 64 div 64, v div 64 mod 64, v mod 64] @ [CHR ''='']) "
proof -
  let ?v = "push_bit 2 (push_bit 8 (of_char a) OR of_char b) :: nat"
  have v: "?v = (of_char a * 256 + of_char b) * 4"
    using of_char_256 [of b] by (simp add: bits_arith)
  have "b64pad [a, b] =
      map ((!) b64base) [drop_bit 6 (drop_bit 6 ?v), drop_bit 6 ?v AND 0x3f, ?v AND 0x3f] @ [CHR ''='']"
    by (simp add: b64pad_def Let_def)
  also have "\<dots> = map ((!) b64base) [?v div 64 div 64, ?v div 64 mod 64, ?v mod 64] @ [CHR ''='']"
    by (simp only: masks drop_bit_eq_div) simp
  finally show ?thesis unfolding v Let_def .
qed

lemma b64decode_two:
  "d0 < 64 \<Longrightarrow> d1 < 64 \<Longrightarrow>
    feed b64decode [] (map ((!) b64base) [d0, d1] @ [CHR ''='', CHR ''='']) =
      ([], [char_of ((d0 * 64 + d1) div 16)])"
  by (simp add: b64decode_def Let_def b64_tables b64unbase_61 bits_arith)

lemma b64decode_one:
  "d0 < 64 \<Longrightarrow> d1 < 64 \<Longrightarrow> d2 < 64 \<Longrightarrow>
    feed b64decode [] (map ((!) b64base) [d0, d1, d2] @ [CHR ''='']) =
      ([], [char_of (((d0 * 64 + d1) * 64 + d2) div 4 div 256), char_of (((d0 * 64 + d1) * 64 + d2) div 4)])"
  by (simp add: b64decode_def Let_def b64_tables b64unbase_61 bits_arith)

lemma b64pad_back:
  assumes "length atom < 3"
  shows "feed b64decode [] (b64pad atom) = ([], atom)"
proof -
  consider "atom = []" | a where "atom = [a]" | a b where "atom = [a, b]"
    using assms by (cases atom; cases "tl atom") (auto simp: length_Suc_conv)
  then show ?thesis
  proof cases
    case 1
    then show ?thesis by (simp add: b64pad_def)
  next
    case 2
    let ?v = "of_char a * 16 :: nat"
    have "?v div 64 < 64"
      using of_char_256 [of a] by (intro less_mult_imp_div_less) simp
    from b64decode_two [OF this, of "?v mod 64"] show ?thesis
      unfolding 2 b64pad_one Let_def by (simp only: mod_less_divisor zero_less_numeral div_mult_mod_eq) simp
  next
    case 3
    let ?v = "(of_char a * 256 + of_char b) * 4 :: nat"
    have d0: "?v div 64 div 64 < 64"
      using of_char_256 [of a] of_char_256 [of b]
      by (intro less_mult_imp_div_less, simp, linarith)
    have "(?v div 64 div 64 * 64 + ?v div 64 mod 64) * 64 + ?v mod 64 = ?v"
      by (simp only: div_mult_mod_eq)
    moreover have "?v div 4 = of_char a * 256 + of_char b" by simp
    moreover have "(of_char a * 256 + of_char b) div 256 = (of_char a :: nat)"
      using of_char_256 [of b] by simp
    moreover have "char_of (of_char a * 256 + of_char b :: nat) = b"
      using of_char_256 [of b] by (simp add: char_of_eq_iff take_bit_eq_mod)
    ultimately show ?thesis
      using b64decode_one [OF d0, of "?v div 64 mod 64" "?v mod 64"]
      unfolding 3 b64pad_two Let_def by (simp only: mod_less_divisor zero_less_numeral char_of_char)
  qed
qed

fun threes :: "string \<Rightarrow> unit" where
  "threes (a # b # c # cs) = threes cs"
| "threes [] = ()"
| "threes [a] = ()"
| "threes [a, b] = ()"

lemma b64_back:
  "feed b64encode [] cs = (atom, out) \<Longrightarrow>
     length atom < 3 \<and> feed b64decode [] (out @ b64pad atom) = ([], cs)"
proof (induction cs arbitrary: out rule: threes.induct)
  case (1 a b c cs)
  obtain out1 where 3: "feed b64encode [] [a, b, c] = ([], out1)"
    by (simp add: b64encode_three Let_def del: feed.simps)
  obtain out2 where 4: "feed b64encode [] cs = (atom, out2)" and out: "out = out1 @ out2"
    using "1.prems" feed_append [of b64encode "[]" "[a, b, c]" cs] 3
    by (auto split: prod.splits)
  from b64_three [of a b c] 3 have "feed b64decode [] out1 = ([], [a, b, c])" by simp
  with "1.IH" [OF 4] out show ?case by (simp add: feed_append)
next
  case 2
  then show ?case by (simp add: b64pad_def)
next
  case (3 a)
  then show ?case using b64pad_back [of "[a]"] by (auto simp: b64encode_def)
next
  case (4 a b)
  then show ?case using b64pad_back [of "[a, b]"] by (auto simp: b64encode_def)
qed

interpretation b64: mime_filter mime_global_b64 b64encode b64pad "\<lambda>s. length s < 3"
proof unfold_locales
  fix s :: string and c
  assume s: "length s < (3::nat)"
  then show "length (fst (b64encode c s)) < 3" by (simp add: b64encode_def Let_def)
  from s consider "s = []" | a where "s = [a]" | a b where "s = [a, b]"
    by (cases s; cases "tl s") (auto simp: length_Suc_conv)
  then show reload: "feed b64encode [] s = (s, [])"
    by cases (simp_all add: b64encode_def)
  show "mime_global_b64 (Some s) None = (if b64pad s = [] then None else Some (b64pad s), None)"
    by (simp add: mime_global_b64_def reload Let_def)
qed (simp_all add: mime_global_b64_def split_beta Let_def)

definition b64_atom :: "string \<Rightarrow> bool" where
  "b64_atom s \<longleftrightarrow> length s < 4 \<and> (\<forall>c \<in> set s. b64unbase ! of_char c \<le> 64)"

lemma b64_atom_reload: "b64_atom s \<Longrightarrow> feed b64decode [] s = (s, [])"
proof (induction s rule: rev_induct)
  case (snoc c s)
  then have "b64_atom s" by (simp add: b64_atom_def)
  with snoc show ?case
    by (simp add: feed_append b64_atom_def b64decode_def not_less)
qed simp

interpretation unb64: mime_filter mime_global_unb64 b64decode "\<lambda>_. []" b64_atom
proof unfold_locales
  fix s c
  assume s: "b64_atom s"
  then show "b64_atom (fst (b64decode c s))" by (auto simp: b64_atom_def b64decode_def Let_def)
  from s show "feed b64decode [] s = (s, [])" by (rule b64_atom_reload)
  with s show "mime_global_unb64 (Some s) None = (if [] = [] then None else Some [], None)"
    by (simp add: mime_global_unb64_def)
qed (simp_all add: mime_global_unb64_def split_beta Let_def b64_atom_def)

text \<open>C23: base64 brings every byte string back, however the stream is cut: the text a sender
  pushes through the base64 encoder of \<^verbatim>\<open>mime\<close> in any chunks, cut up again in any way by
  the transport and pushed through the decoder, comes out as the same bytes.  In
  particular the bytes that one call hands to the next are never lost or translated
  twice, and the padding is only written and read at the end.\<close>

theorem base64_stream_roundtrip:
  assumes "concat received = cycle mime_global_b64 (Some []) chunks"
  shows "cycle mime_global_unb64 (Some []) received = concat chunks"
proof -
  obtain atom out where enc: "feed b64encode [] (concat chunks) = (atom, out)"
    by (cases "feed b64encode [] (concat chunks)")
  with assms have "concat received = out @ b64pad atom" by (simp add: b64.cycle_start)
  with b64_back [OF enc] show ?thesis by (simp add: unb64.cycle_start)
qed

lemma base64_stream_roundtrip_witness:
  "cycle mime_global_unb64 (Some []) [''aGV'', ''sbG'', ''8=''] = ''hello''"
proof -
  have "concat [''aGV'', ''sbG'', ''8=''] = cycle mime_global_b64 (Some []) [''h'', ''ello'']"
    by (simp add: mime_global_b64_def b64encode_def b64pad_def b64base_def masks or_bytes
        push_bit_eq_mult drop_bit_eq_div)
  from base64_stream_roundtrip [OF this] show ?thesis by simp
qed

section \<open>Quoted-printable brings the bytes back, wrapped or not\<close>

text \<open>
  A quoted-printable text is a sequence of tokens: a literal byte, an encoded byte, a line
  break and a soft line break.  The encoder writes such sequences, the wrapper only adds
  soft line breaks between tokens, and the decoder reads the value of every token.
\<close>

datatype qtok = Lit char | Hex char | Brk | Soft

fun qtok_str :: "qtok \<Rightarrow> string" where
  "qtok_str (Lit c) = [c]"
| "qtok_str (Hex c) = qpquote c"
| "qtok_str Brk = CRLF"
| "qtok_str Soft = EQCRLF"

fun qtok_val :: "qtok \<Rightarrow> string" where
  "qtok_val (Lit c) = [c]"
| "qtok_val (Hex c) = [c]"
| "qtok_val Brk = CRLF"
| "qtok_val Soft = []"

fun qtok_ok :: "qtok \<Rightarrow> bool" where
  "qtok_ok (Lit c) \<longleftrightarrow>
     c \<noteq> CHR ''='' \<and> (c = TAB \<or> 31 < (of_char c :: nat) \<and> (of_char c :: nat) < 127)"
| "qtok_ok _ \<longleftrightarrow> True"

definition qtext :: "qtok list \<Rightarrow> string" where
  "qtext ts = concat (map qtok_str ts)"

definition qval :: "qtok list \<Rightarrow> string" where
  "qval ts = concat (map qtok_val ts)"

definition qp_text :: "string \<Rightarrow> string \<Rightarrow> bool" where
  "qp_text out val \<longleftrightarrow> (\<exists>ts. list_all qtok_ok ts \<and> out = qtext ts \<and> val = qval ts)"

lemma qp_text_Nil: "qp_text [] []"
  unfolding qp_text_def by (rule exI [of _ "[]"]) (simp add: qtext_def qval_def)

lemma qp_text_append: "qp_text o1 v1 \<Longrightarrow> qp_text o2 v2 \<Longrightarrow> qp_text (o1 @ o2) (v1 @ v2)"
  unfolding qp_text_def
proof (elim exE conjE)
  fix ts us
  assume "list_all qtok_ok ts" "o1 = qtext ts" "v1 = qval ts"
    "list_all qtok_ok us" "o2 = qtext us" "v2 = qval us"
  then show "\<exists>ts. list_all qtok_ok ts \<and> o1 @ o2 = qtext ts \<and> v1 @ v2 = qval ts"
    by (intro exI [of _ "ts @ us"]) (simp add: qtext_def qval_def)
qed

lemma qp_text_tok: "qtok_ok t \<Longrightarrow> qp_text (qtok_str t) (qtok_val t)"
  unfolding qp_text_def by (rule exI [of _ "[t]"]) (simp add: qtext_def qval_def)

lemma qp_text_tokens:
  "qp_text (qpquote c) [c]" "qp_text CRLF CRLF" "qp_text EQCRLF []"
  "qpclass c = QP_PLAIN \<or> qpclass c = QP_IF_LAST \<Longrightarrow> qp_text [c] [c]"
  using qp_text_tok [of "Hex c"] qp_text_tok [of Brk] qp_text_tok [of Soft] qp_text_tok [of "Lit c"]
    qpclass_cases [of c] by auto

lemma qp_text_Cons: "qp_text [c] [c] \<Longrightarrow> qp_text o2 v2 \<Longrightarrow> qp_text (c # o2) (c # v2)"
  using qp_text_append [of "[c]" "[c]"] by simp

lemma qp_text_quote: "qp_text o2 v2 \<Longrightarrow> qp_text (qpquote c @ o2) (c # v2)"
  using qp_text_append [OF qp_text_tokens(1), of o2 v2 c] by simp

text \<open>The bytes the encoder holds back: a CR that may begin a line break, or a blank with at
  most one byte after it.\<close>

definition qp_atom :: "string \<Rightarrow> bool" where
  "qp_atom s \<longleftrightarrow> s = [] \<or> (qpclass (hd s) = QP_CR \<and> length s = 1) \<or>
     (qpclass (hd s) = QP_IF_LAST \<and> length s \<le> 2)"

lemma qpencode_loop_atom: "length s \<le> 3 \<Longrightarrow> qp_atom (fst (qpencode_loop m s))"
  by (induction m s rule: qpencode_loop.induct)
    (auto simp: qp_atom_def split: qp_class.splits prod.splits)

definition encodes :: "string \<Rightarrow> string \<times> string \<Rightarrow> bool" where
  "encodes input r \<longleftrightarrow> (\<exists>v. input = v @ fst r \<and> qp_text (snd r) v)"

lemma encodes_wait: "encodes input (input, [])"
  by (simp add: encodes_def qp_text_Nil)

lemma encodes_Cons:
  "\<forall>v. qp_text out v \<longrightarrow> qp_text out' (c # v) \<Longrightarrow> encodes cs (s, out) \<Longrightarrow> encodes (c # cs) (s, out')"
  by (auto simp: encodes_def Cons_eq_append_conv)

lemma encodes_quote: "encodes cs (s, out) \<Longrightarrow> encodes (c # cs) (s, qpquote c @ out)"
  by (rule encodes_Cons [where out = out]) (simp_all add: qp_text_quote)

lemma encodes_lit:
  "qpclass c = QP_PLAIN \<or> qpclass c = QP_IF_LAST \<Longrightarrow> encodes cs (s, out) \<Longrightarrow>
     encodes (c # cs) (s, c # out)"
  by (rule encodes_Cons [where out = out]) (simp_all add: qp_text_Cons qp_text_tokens)

lemma qpencode_loop_short:
  "encodes [] (qpencode_loop CRLF [])"
  "encodes [a] (qpencode_loop CRLF [a])"
  "encodes [b, a] (qpencode_loop CRLF [b, a])"
proof -
  show nil: "encodes [] (qpencode_loop CRLF [])" by (simp add: encodes_wait)
  show one: "encodes [a] (qpencode_loop CRLF [a])" for a
    using encodes_quote [OF encodes_wait [of "[]"], of a] encodes_lit [OF _ encodes_wait [of "[]"], of a]
    by (simp add: encodes_wait split: qp_class.split)
  obtain s out where 1: "qpencode_loop CRLF [a] = (s, out)" by (cases "qpencode_loop CRLF [a]")
  have brk: "encodes CRLF ([], CRLF)"
    unfolding encodes_def by (rule exI [of _ CRLF]) (simp add: qp_text_tokens)
  from one [of a] 1 have "encodes [a] (s, out)" by simp
  then show "encodes [b, a] (qpencode_loop CRLF [b, a])"
    using brk 1 qpclass_cases(2) [of b]
    by (simp only: qpencode_loop.simps(2) [of CRLF b])
      (auto simp: encodes_wait intro: encodes_quote encodes_lit split: qp_class.split)
qed

lemma qpencode_encodes:
  assumes "qp_atom s"
  shows "encodes (s @ [c]) (qpencode CRLF c s)"
proof -
  consider "s = []" | b where "s = [b]" | b x where "s = [b, x]" "qpclass b = QP_IF_LAST"
    using assms by (cases s; cases "tl s") (auto simp: qp_atom_def)
  then show ?thesis
  proof cases
    case 3
    obtain s' out where 1: "qpencode_loop CRLF [x, c] = (s', out)"
      by (cases "qpencode_loop CRLF [x, c]")
    have "encodes (b # CRLF) ([], qpquote b @ CRLF)"
      unfolding encodes_def
      by (rule exI [of _ "b # CRLF"]) (simp add: qp_text_quote qp_text_tokens)
    with 1 qpencode_loop_short(3) [of x c] 3 show ?thesis
      by (simp add: qpencode_def qpencode_loop.simps(2) [of CRLF b] encodes_lit
          del: qpencode_loop.simps)
  qed (simp_all add: qpencode_def qpencode_loop_short del: qpencode_loop.simps)
qed

lemma feed_qpencode:
  "qp_atom s \<Longrightarrow> encodes (s @ cs) (feed (qpencode CRLF) s cs) \<and> qp_atom (fst (feed (qpencode CRLF) s cs))"
proof (induction cs arbitrary: s)
  case Nil
  then show ?case by (simp add: encodes_wait)
next
  case (Cons c cs)
  obtain s1 o1 where 1: "qpencode CRLF c s = (s1, o1)" by (cases "qpencode CRLF c s")
  obtain s2 o2 where 2: "feed (qpencode CRLF) s1 cs = (s2, o2)" by (cases "feed (qpencode CRLF) s1 cs")
  have "length s \<le> 2" using Cons.prems by (auto simp: qp_atom_def)
  then have "qp_atom s1"
    using qpencode_loop_atom [of "s @ [c]" CRLF] 1 by (simp add: qpencode_def)
  from Cons.IH [OF this] 2 obtain v2 where v2: "s1 @ cs = v2 @ s2" "qp_text o2 v2" "qp_atom s2"
    by (auto simp: encodes_def)
  from qpencode_encodes [OF Cons.prems, of c] 1 obtain v1 where v1: "s @ [c] = v1 @ s1" "qp_text o1 v1"
    by (auto simp: encodes_def)
  have "s @ c # cs = (v1 @ v2) @ s2"
    using v1(1) v2(1) by (metis append.assoc append_Cons append_Nil)
  then have "encodes (s @ c # cs) (s2, o1 @ o2)"
    using qp_text_append [OF v1(2) v2(2)] by (auto simp: encodes_def)
  with 1 2 v2(3) show ?case by simp
qed

lemma qppad_text: "qp_text (qppad s) s"
proof -
  have "qp_text (concat (map (\<lambda>c. if qpclass c = QP_PLAIN then [c] else qpquote c) s)) s"
  proof (induction s)
    case (Cons c s)
    then show ?case
      by (auto simp: qp_text_quote intro: qp_text_Cons qp_text_tokens)
  qed (simp add: qp_text_Nil)
  from qp_text_append [OF this qp_text_tokens(3)] this show ?thesis
    by (simp add: qppad_def qp_text_Nil)
qed

lemma qp_encoded_text:
  "feed (qpencode CRLF) [] cs = (s, out) \<Longrightarrow> qp_text (out @ qppad s) cs"
  using feed_qpencode [of "[]" cs] qp_text_append [OF _ qppad_text]
  by (auto simp: encodes_def qp_atom_def)

lemma qpquote_decode: "feed qpdecode [] (qpquote c) = ([], [c])"
proof -
  have d: "of_char c div 16 < (16::nat)"
    using of_char_256 [of c] by (intro less_mult_imp_div_less) simp
  have m: "of_char c mod 16 < (16::nat)" by simp
  have v: "push_bit 4 (of_char c div 16) + of_char c mod 16 = (of_char c :: nat)"
    by (simp add: push_bit_eq_mult)
  have q: "qpquote c = [CHR ''='', qpbase ! (of_char c div 16), qpbase ! (of_char c mod 16)]"
    by (simp add: qpquote_def masks drop_bit_eq_div)
  show ?thesis
    using qpbase_unbase [OF d] qpbase_unbase [OF m] d m v
    unfolding q by (simp add: qpdecode_def Let_def)
qed

lemma qtok_decode: "qtok_ok t \<Longrightarrow> feed qpdecode [] (qtok_str t) = ([], qtok_val t)"
proof (cases t)
  case (Lit c)
  moreover assume "qtok_ok t"
  ultimately show ?thesis by (auto simp: qpdecode_def Let_def)
next
  case (Hex c)
  then show ?thesis using qpquote_decode [of c] by (simp del: feed.simps)
qed (simp_all add: qpdecode_def)

lemma qtext_decode: "list_all qtok_ok ts \<Longrightarrow> feed qpdecode [] (qtext ts) = ([], qval ts)"
proof (induction ts)
  case (Cons t ts)
  then show ?case
    using qtok_decode [of t] by (simp add: qtext_def qval_def feed_append)
qed (simp add: qtext_def qval_def)

lemma qp_text_decode: "qp_text out v \<Longrightarrow> feed qpdecode [] out = ([], v)"
  by (auto simp: qp_text_def qtext_decode)

lemma qp_atom_reload: "qp_atom s \<Longrightarrow> feed (qpencode m) [] s = (s, [])"
proof -
  assume "qp_atom s"
  then consider "s = []" | b where "s = [b]" "qpclass b = QP_CR \<or> qpclass b = QP_IF_LAST"
    | b x where "s = [b, x]" "qpclass b = QP_IF_LAST"
    by (cases s; cases "tl s") (auto simp: qp_atom_def)
  then show ?thesis
    by cases (auto simp: qpencode_def)
qed

lemma qppad_visible: "c_str (qppad s) = [] \<longleftrightarrow> qppad s = []"
proof (cases s)
  case (Cons c cs)
  have "qpclass NUL = QP_QUOTED" by (simp add: qpclass_setup)
  then show ?thesis using Cons by (auto simp: qppad_def qpquote_def c_str_def)
qed (simp add: qppad_def c_str_def)

interpretation qp: mime_filter "\<lambda>C D. mime_global_qp C D None" "qpencode CRLF" qppad qp_atom
proof unfold_locales
  fix s c
  assume s: "qp_atom s"
  then have "length (s @ [c]) \<le> 3" by (auto simp: qp_atom_def)
  then show "qp_atom (fst (qpencode CRLF c s))" by (simp add: qpencode_def qpencode_loop_atom)
  from s show "feed (qpencode CRLF) [] s = (s, [])" by (rule qp_atom_reload)
  with s show "mime_global_qp (Some s) None None = (if qppad s = [] then None else Some (qppad s), None)"
    by (simp add: mime_global_qp_def qppad_visible)
qed (simp_all add: mime_global_qp_def split_beta Let_def qp_atom_def)

definition unqp_atom :: "string \<Rightarrow> bool" where
  "unqp_atom s \<longleftrightarrow> s = [] \<or> s = [CR] \<or> (hd s = CHR ''='' \<and> length s \<le> 2)"

interpretation unqp: mime_filter mime_global_unqp qpdecode "\<lambda>_. []" unqp_atom
proof unfold_locales
  fix s c
  assume s: "unqp_atom s"
  then consider "s = []" | "s = [CR]" | "s = [CHR ''='']" | x where "s = [CHR ''='', x]"
    by (cases s; cases "tl s") (auto simp: unqp_atom_def)
  note cases = this
  from cases show "unqp_atom (fst (qpdecode c s))"
    by cases (simp_all add: unqp_atom_def qpdecode_def Let_def)
  from cases show reload: "feed qpdecode [] s = (s, [])"
    by cases (simp_all add: qpdecode_def Let_def)
  show "mime_global_unqp (Some s) None = (if [] = [] then None else Some [], None)"
    by (simp add: mime_global_unqp_def reload c_str_def)
qed (simp_all add: mime_global_unqp_def split_beta Let_def unqp_atom_def)

lemma qp_text_lit_soft: "qtok_ok (Lit c) \<Longrightarrow> qp_text [c] [c]" "qtok_ok (Lit c) \<Longrightarrow> qp_text (EQCRLF @ [c]) [c]"
  using qp_text_tok [of "Lit c"] qp_text_append [OF qp_text_tokens(3), of "[c]" "[c]"] by simp_all

lemma qpwrp_tok:
  assumes "4 \<le> len" "qtok_ok t"
  shows "qp_text (snd (feed (qpwrp_step len) left (qtok_str t))) (qtok_val t)"
proof (cases t)
  case (Lit c)
  with assms(2) have "c \<notin> {CR, NL, CHR ''=''}" by auto
  with Lit assms(2) show ?thesis
    using qp_text_lit_soft [of c] by (simp add: qpwrp_step_def)
next
  case (Hex c)
  obtain x y where q: "qpquote c = [CHR ''='', x, y]" and x: "x \<notin> {CR, NL, CHR ''=''}" "y \<notin> {CR, NL, CHR ''=''}"
    using qpbase_unbase [of "of_char c div 16"] qpbase_unbase [of "of_char c mod 16"] of_char_256 [of c]
    by (auto simp: qpquote_def masks drop_bit_eq_div less_mult_imp_div_less)
  have "snd (feed (qpwrp_step len) left (qpquote c)) = (if left \<le> 3 then EQCRLF else []) @ qpquote c"
    using assms(1) x unfolding q by (simp add: qpwrp_step_def)
  with Hex show ?thesis
    using qp_text_tokens(1) [of c] qp_text_append [OF qp_text_tokens(3) qp_text_tokens(1) [of c]]
    by (simp del: feed.simps)
next
  case Brk
  then show ?thesis using qp_text_tokens(2) by (simp add: qpwrp_step_def)
next
  case Soft
  then show ?thesis
    using qp_text_tokens(3) qp_text_append [OF qp_text_tokens(3) qp_text_tokens(3)]
    by (simp add: qpwrp_step_def)
qed

lemma qpwrp_text:
  assumes "4 \<le> len" "list_all qtok_ok ts"
  shows "qp_text (snd (feed (qpwrp_step len) left (qtext ts))) (qval ts)"
  using assms(2)
proof (induction ts arbitrary: left)
  case Nil
  then show ?case by (simp add: qtext_def qval_def qp_text_Nil)
next
  case (Cons t ts)
  then have "qtok_ok t" "list_all qtok_ok ts" by simp_all
  from qp_text_append [OF qpwrp_tok [OF assms(1) this(1)] Cons.IH [OF this(2)]] show ?case
    by (simp add: qtext_def qval_def feed_append split_beta)
qed

text \<open>C28: quoted-printable brings every byte string back, however it is cut up and wrapped:
  any bytes pushed through the encoder in any chunks, broken by \<^verbatim>\<open>qpwrp\<close> into lines of any
  length from 4 bytes on, and pushed through the decoder in any chunks, come out unchanged.
  The wrapper never breaks an encoded byte, the soft line breaks disappear, blanks before a
  line break and a CR without its LF survive, and the three bytes of look-ahead that the
  encoder keeps between calls are translated exactly once.\<close>

theorem quoted_printable_roundtrip:
  assumes "4 \<le> len"
    and "mime_global_qpwrp left (Some (cycle (\<lambda>C D. mime_global_qp C D None) (Some []) chunks)) len =
      (Some out, n)"
    and "concat received = out"
  shows "cycle mime_global_unqp (Some []) received = concat chunks"
proof -
  obtain s enc where e: "feed (qpencode CRLF) [] (concat chunks) = (s, enc)"
    by (cases "feed (qpencode CRLF) [] (concat chunks)")
  obtain ts where ts: "list_all qtok_ok ts" "enc @ qppad s = qtext ts" "concat chunks = qval ts"
    using qp_encoded_text [OF e] by (auto simp: qp_text_def)
  have "out = snd (feed (qpwrp_step len) left (qtext ts))"
    using assms(2) e ts(2) by (simp add: qp.cycle_start mime_global_qpwrp_def split_beta)
  with qpwrp_text [OF assms(1) ts(1)] ts(3) have "feed qpdecode [] out = ([], concat chunks)"
    by (simp add: qp_text_decode)
  with assms(3) show ?thesis by (simp add: unqp.cycle_start)
qed

lemma quoted_printable_roundtrip_witness:
  "cycle mime_global_unqp (Some [])
     [''a=3'', ''Db='' @ CRLF, ''=20='' @ CRLF @ ''=20'', ''='' @ CRLF @ ''='' @ CRLF] =
   concat [''a='', ''b  '']"
  by (rule quoted_printable_roundtrip [where chunks = "[''a='', ''b  '']" and len = 6 and left = 6
        and n = 6 and
        out = "''a=3Db='' @ CRLF @ ''=20='' @ CRLF @ ''=20='' @ CRLF @ ''='' @ CRLF"])
    (simp_all add: mime_global_qpwrp_def mime_global_qp_def qpencode_def qpclass_setup qpwrp_step_def
      qppad_def qpquote_def qpbase_def masks drop_bit_eq_div Let_def c_str_def)

text \<open>
  A last call that translates bytes of its own and not only the held-back ones loses its
  whole text when that begins with a zero byte: \<^verbatim>\<open>*lua_tostring(L, -1)\<close> is taken for the
  test that the output is empty.
\<close>

lemma unqp_drops_zero_byte: "mime_global_unqp (Some ''=00abc'') None = (None, None)"
  by (simp add: mime_global_unqp_def qpdecode_def Let_def qpunbase_def nth_append c_str_def push_bit_eq_mult
      char_of_eq_iff)

section \<open>The lines are as short as promised\<close>

fun crlf_lines :: "string \<Rightarrow> string list" where
  "crlf_lines [] = [[]]"
| "crlf_lines (c # cs) =
     (if c = CR \<and> (case cs of [] \<Rightarrow> False | d # _ \<Rightarrow> d = NL) then [] # crlf_lines (tl cs)
      else (case crlf_lines cs of [] \<Rightarrow> [[c]] | l # ls \<Rightarrow> (c # l) # ls))"

declare crlf_lines.simps(2) [simp del]

lemma crlf_lines_not_Nil: "crlf_lines out \<noteq> []"
proof (cases out)
  case (Cons c cs)
  show ?thesis unfolding Cons by (subst crlf_lines.simps(2)) (simp split: list.split)
qed simp

lemma crlf_lines_break: "crlf_lines (CR # NL # cs) = [] # crlf_lines cs"
  by (simp add: crlf_lines.simps(2) [of CR])

lemma crlf_lines_other:
  "c \<noteq> CR \<Longrightarrow> crlf_lines (c # cs) = (c # hd (crlf_lines cs)) # tl (crlf_lines cs)"
  using crlf_lines_not_Nil [of cs]
  by (cases "crlf_lines cs") (simp_all add: crlf_lines.simps(2) [of c])

definition fits_lines :: "int \<Rightarrow> int \<Rightarrow> string \<Rightarrow> bool" where
  "fits_lines first len out \<longleftrightarrow>
     int (length (hd (crlf_lines out))) \<le> first \<and>
     list_all (\<lambda>l. int (length l) \<le> len) (tl (crlf_lines out))"

lemma fits_lines_Nil: "0 \<le> n \<Longrightarrow> fits_lines n len []"
  by (simp add: fits_lines_def)

lemma fits_lines_Cons: "c \<noteq> CR \<Longrightarrow> fits_lines (n - 1) len cs \<Longrightarrow> 0 < n \<Longrightarrow> fits_lines n len (c # cs)"
  by (simp add: fits_lines_def crlf_lines_other)

lemma fits_lines_break: "0 \<le> n \<Longrightarrow> fits_lines len len cs \<Longrightarrow> fits_lines n len (CR # NL # cs)"
  using crlf_lines_not_Nil [of cs]
  by (cases "crlf_lines cs") (simp_all add: fits_lines_def crlf_lines_break)

lemma snd_feed_Cons: "snd (feed f s (c # cs)) = snd (f c s) @ snd (feed f (fst (f c s)) cs)"
  by (simp add: split_beta)

lemma wrp_fits:
  "0 < len \<Longrightarrow> 0 \<le> left \<Longrightarrow> left \<le> len \<Longrightarrow> fits_lines left len (snd (feed (wrp_step len) left cs))"
proof (induction cs arbitrary: left)
  case (Cons c cs)
  note [simp del] = feed.simps(2)
  have next_line: "fits_lines len len (snd (feed (wrp_step len) len cs))"
    using Cons by simp
  show ?case
  proof (cases "c = CR \<or> c = NL")
    case True
    with Cons next_line show ?thesis by (auto simp: snd_feed_Cons wrp_step_def [of len c left] intro: fits_lines_break)
  next
    case False
    with Cons.prems Cons.IH [of "len - 1"] Cons.IH [of "left - 1"] show ?thesis
      by (auto simp: snd_feed_Cons wrp_step_def [of len c left] intro!: fits_lines_break fits_lines_Cons)
  qed
qed (simp add: fits_lines_Nil)

lemma qpwrp_fits:
  "1 < len \<Longrightarrow> 0 < left \<Longrightarrow> left \<le> len \<Longrightarrow> fits_lines left len (snd (feed (qpwrp_step len) left cs))"
proof (induction cs arbitrary: left)
  case (Cons c cs)
  note [simp del] = feed.simps(2)
  have next_line: "fits_lines len len (snd (feed (qpwrp_step len) len cs))"
    using Cons by simp
  show ?case
  proof (cases "c = CR \<or> c = NL")
    case True
    with Cons next_line show ?thesis by (auto simp: snd_feed_Cons qpwrp_step_def [of len c left] intro: fits_lines_break)
  next
    case False
    have cont: "fits_lines len len (c # snd (feed (qpwrp_step len) (len - 1) cs))"
      using False Cons.prems Cons.IH [of "len - 1"] by (auto intro: fits_lines_Cons)
    have brk: "fits_lines left len (EQCRLF @ c # snd (feed (qpwrp_step len) (len - 1) cs))"
      using Cons.prems cont by (auto intro!: fits_lines_Cons fits_lines_break)
    have stay: "1 < left \<Longrightarrow> fits_lines left len (c # snd (feed (qpwrp_step len) (left - 1) cs))"
      using False Cons.prems Cons.IH [of "left - 1"] by (auto intro: fits_lines_Cons)
    from False brk stay show ?thesis by (auto simp: snd_feed_Cons qpwrp_step_def [of len c left])
  qed
qed (simp add: fits_lines_Nil)



section \<open>Line ends and dots\<close>

lemma eolprocess_simps:
  "eolprocess m CR None = (Some CR, m)" "eolprocess m NL (Some CR) = (None, [])"
  "\<not> eolcandidate c \<Longrightarrow> eolprocess m c ctx = (None, [c])"
  by (simp_all add: eolprocess_def eolcandidate_def)

lemma eol_normal:
  "feed (eolprocess CRLF) None cs = (None, cs) \<Longrightarrow> feed (eolprocess CRLF) None (CRLF @ cs) = (None, CRLF @ cs)"
  "feed (eolprocess CRLF) None cs = (None, cs) \<Longrightarrow> \<not> eolcandidate c \<Longrightarrow>
     feed (eolprocess CRLF) None (c # cs) = (None, c # cs)"
  by (simp_all add: eolprocess_simps)

lemma eol_again: "feed (eolprocess CRLF) None (snd (feed (eolprocess CRLF) ctx cs)) =
    (None, snd (feed (eolprocess CRLF) ctx cs))"
proof (induction cs arbitrary: ctx)
  case (Cons c cs)
  have "snd (eolprocess CRLF c ctx) \<in> {[], CRLF} \<union> (if eolcandidate c then {} else {[c]})"
    by (auto simp: eolprocess_def [of CRLF c ctx] split: option.split)
  then show ?case
    using eol_normal [OF Cons.IH] by (auto simp: snd_feed_Cons Cons.IH simp del: feed.simps split: if_splits)
qed simp

lemma eol_keeps_text:
  "filter (\<lambda>c. \<not> eolcandidate c) (snd (feed (eolprocess CRLF) ctx cs)) =
   filter (\<lambda>c. \<not> eolcandidate c) cs"
proof (induction cs arbitrary: ctx)
  case (Cons c cs)
  have "filter (\<lambda>c. \<not> eolcandidate c) (snd (eolprocess CRLF c ctx)) = filter (\<lambda>c. \<not> eolcandidate c) [c]"
    by (auto simp: eolprocess_def eolcandidate_def split: option.split)
  then show ?case
    by (simp only: snd_feed_Cons filter_append Cons.IH) (simp del: feed.simps)
qed simp

text \<open>End-of-line normalisation is exactly that: whatever mixture of CR and LF a text has
  and wherever it is cut, in the converted text every line ends in CRLF and in nothing
  else (converting it once more changes nothing and leaves nothing pending), and all other
  bytes are the same, in the same order.\<close>

theorem eol_normalises:
  assumes "mime_global_eol ctx (Some cs) None = (Some out, ctx')"
  shows "mime_global_eol None (Some out) None = (Some out, None) \<and>
    filter (\<lambda>c. \<not> eolcandidate c) out = filter (\<lambda>c. \<not> eolcandidate c) cs"
proof -
  have "out = snd (feed (eolprocess CRLF) ctx cs)"
    using assms by (simp add: mime_global_eol_def split_beta Let_def)
  then show ?thesis by (simp add: mime_global_eol_def eol_again eol_keeps_text)
qed

lemma eol_normalises_witness:
  "mime_global_eol None (Some (''a'' @ CRLF @ ''b'' @ CRLF @ CRLF)) None =
     (Some (''a'' @ CRLF @ ''b'' @ CRLF @ CRLF), None) \<and>
   filter (\<lambda>c. \<not> eolcandidate c) (''a'' @ CRLF @ ''b'' @ CRLF @ CRLF) =
   filter (\<lambda>c. \<not> eolcandidate c) (''a'' @ [NL] @ ''b'' @ [CR, CR])"
  by (rule eol_normalises [where ctx = None and ctx' = None])
    (simp add: mime_global_eol_def eolprocess_def eolcandidate_def Let_def)

text \<open>
  How the receiver of a message reads it (RFC 5321, 4.5.2): a dot at the start of a line
  ends the message when CRLF follows, and is deleted otherwise.  The result is the body
  and what comes after the end mark.
\<close>

fun smtp_receive :: "nat \<Rightarrow> string \<Rightarrow> (string \<times> string) option" where
  "smtp_receive st [] = None"
| "smtp_receive st (c # cs) =
     (if st = 2 \<and> c = CHR ''.'' then
        if starts_with cs CRLF then Some ([], drop 2 cs)
        else smtp_receive 0 cs
      else
        map_option (\<lambda>(body, more). (c # body, more))
          (smtp_receive (if c = CR then 1 else if c = NL \<and> st = 1 then 2 else 0) cs))"

lemma dot_received:
  "smtp_receive st (snd (feed dot st cs) @ CRLF @ ''.'' @ CRLF @ more) = Some (cs @ CRLF, more)"
proof (induction cs arbitrary: st)
  case Nil
  then show ?case by (simp add: starts_with_def)
next
  case (Cons c cs)
  define rest_out where "rest_out = snd (feed dot (fst (dot c st)) cs) @ CRLF @ ''.'' @ CRLF @ more"
  have IH: "smtp_receive (fst (dot c st)) rest_out = Some (cs @ CRLF, more)"
    unfolding rest_out_def by (rule Cons.IH)
  have "snd (feed dot st (c # cs)) @ CRLF @ ''.'' @ CRLF @ more = snd (dot c st) @ rest_out"
    by (simp add: snd_feed_Cons rest_out_def del: feed.simps)
  moreover have "smtp_receive st (snd (dot c st) @ rest_out) = Some ((c # cs) @ CRLF, more)"
    using IH by (auto simp: dot_def starts_with_def)
  ultimately show ?case by simp
qed

text \<open>No message can end early or run on: whatever the body is, the stuffed body followed by
  the end mark that \<^verbatim>\<open>smtp.lua\<close> sends is read by a receiver as exactly that body, and what
  is sent after it is not taken for a part of it.  No line of a body can be mistaken for
  the end mark, so what a body holds cannot be taken for SMTP commands.\<close>

theorem dot_stuffing_transparent:
  assumes "mime_global_dot 2 (Some body) = (Some out, st)"
  shows "smtp_receive 2 (out @ CRLF @ ''.'' @ CRLF @ more) = Some (body @ CRLF, more)"
proof -
  from assms have "out = snd (feed dot 2 body)" by (simp add: mime_global_dot_def split_beta)
  then show ?thesis by (simp only: dot_received)
qed

lemma dot_stuffing_transparent_witness:
  "smtp_receive 2 ((''..'' @ CRLF @ ''x.'') @ CRLF @ ''.'' @ CRLF @ ''QUIT'') =
     Some ((''.'' @ CRLF @ ''x.'') @ CRLF, ''QUIT'')"
  by (rule dot_stuffing_transparent [where st = 0]) (simp add: mime_global_dot_def dot_def)

end
