(* ===== verification/Lexer.thy ===== *)
theory Lexer
  imports LuaPattern "HOL-Library.Sublist"
begin

text \<open>
  The lexical analyser of Teliva's Lua (\<^verbatim>\<open>src/llex.c\<close>).  The input is the string of the bytes
  not yet consumed: its head is \<^verbatim>\<open>ls->current\<close>, and the empty string is \<^verbatim>\<open>EOZ\<close>.  The buffer
  \<^verbatim>\<open>ls->buff\<close> is the list of the bytes saved so far.  \<^verbatim>\<open>luaX_lexerror\<close> is the value
  \<open>Inl (LuaError m)\<close> with the message before the position is added to it.  Conversion of a
  numeral to a number (\<^verbatim>\<open>luaO_str2d\<close>, that is \<^verbatim>\<open>strtod\<close>) is a parameter, as is the decimal
  point of the locale.
\<close>

datatype 'n token =
    TK_CHAR char
  | TK_RESERVED nat
  | TK_CONCAT | TK_DOTS | TK_EQ | TK_GE | TK_LE | TK_NE
  | TK_NUMBER 'n
  | TK_NAME string
  | TK_STRING string
  | TK_EOS

definition luaX_tokens :: "string list" where
  "luaX_tokens =
    [''and'', ''break'', ''do'', ''else'', ''elseif'',
     ''end'', ''false'', ''for'', ''function'', ''if'',
     ''in'', ''local'', ''nil'', ''not'', ''or'', ''repeat'',
     ''return'', ''then'', ''true'', ''until'', ''while'']"

definition MAX_INT :: nat where "MAX_INT = 2147483647 - 2"

section \<open>Newlines, numerals and separators\<close>

definition is_newline :: "char \<Rightarrow> bool" where
  "is_newline c \<longleftrightarrow> c = NL \<or> c = CR"

definition head_in :: "(char \<Rightarrow> bool) \<Rightarrow> string \<Rightarrow> bool" where
  "head_in P cs \<longleftrightarrow> (case cs of [] \<Rightarrow> False | c # _ \<Rightarrow> P c)"

text \<open>The input after a newline, of one byte or of two different ones.\<close>

definition skip_newline :: "string \<Rightarrow> string" where
  "skip_newline cs = (if head_in (\<lambda>d. is_newline d \<and> d \<noteq> hd cs) (tl cs) then tl (tl cs) else tl cs)"

definition inclinenumber :: "string \<Rightarrow> nat \<Rightarrow> (string \<times> nat) res" where
  "inclinenumber cs line =
     (if line + 1 \<ge> MAX_INT then Inl (LuaError ''chunk has too many lines'')
      else Inr (skip_newline cs, line + 1))"

text \<open>\<^verbatim>\<open>strchr\<close> finds the terminator of its set as well.\<close>

definition check_next :: "string \<Rightarrow> string \<times> string \<Rightarrow> bool \<times> string \<times> string" where
  "check_next chars st =
     (let (buff, cs) = st in
      if head_in (\<lambda>c. c \<in> set chars \<or> c = NUL) cs then (True, buff @ [hd cs], tl cs)
      else (False, buff, cs))"

definition buffreplace :: "string \<Rightarrow> char \<Rightarrow> char \<Rightarrow> string" where
  "buffreplace buff oldc newc = map (\<lambda>c. if c = oldc then newc else c) buff"

definition trydecpoint ::
  "(string \<Rightarrow> 'n option) \<Rightarrow> char option \<Rightarrow> char \<Rightarrow> string \<Rightarrow> ('n \<times> char) res" where
  "trydecpoint str2d locale_point decpoint buff =
     (let decpoint' = (case locale_point of None \<Rightarrow> CHR ''.'' | Some p \<Rightarrow> p) in
      case str2d (buffreplace buff decpoint decpoint') of
        None \<Rightarrow> Inl (LuaError ''malformed number'')
      | Some n \<Rightarrow> Inr (n, decpoint'))"

text \<open>\<^verbatim>\<open>read_numeral\<close> is entered on a digit, or after a point and before one.\<close>

definition read_numeral ::
  "(string \<Rightarrow> 'n option) \<Rightarrow> char option \<Rightarrow> char \<Rightarrow> string \<Rightarrow> string \<Rightarrow> ('n \<times> char \<times> string) res" where
  "read_numeral str2d locale_point decpoint buff cs =
     (let digits = (\<lambda>c. isdigit c \<or> c = CHR ''.'');
          buff = buff @ hd cs # takeWhile digits (tl cs);
          cs = dropWhile digits (tl cs);
          (expo, buff, cs) = check_next ''Ee'' (buff, cs);
          (buff, cs) = (if expo then snd (check_next ''+-'' (buff, cs)) else (buff, cs));
          more = (\<lambda>c. isalnum c \<or> c = CHR ''_'');
          buff = buff @ takeWhile more cs;
          cs = dropWhile more cs;
          buff = buffreplace (buff @ [NUL]) (CHR ''.'') decpoint
      in case str2d buff of
           Some n \<Rightarrow> Inr (n, decpoint, cs)
         | None \<Rightarrow>
             bindR (trydecpoint str2d locale_point decpoint buff) (\<lambda>(n, decpoint). Inr (n, decpoint, cs)))"

definition skip_sep :: "string \<Rightarrow> string \<Rightarrow> int \<times> string \<times> string" where
  "skip_sep buff cs =
     (let s = hd cs;
          eqs = takeWhile (\<lambda>c. c = CHR ''='') (tl cs);
          cs' = dropWhile (\<lambda>c. c = CHR ''='') (tl cs);
          count = int (length eqs)
      in (if head_in (\<lambda>c. c = s) cs' then count else - count - 1, buff @ s # eqs, cs'))"

section \<open>Strings\<close>

lemma skip_newline_shorter: "cs \<noteq> [] \<Longrightarrow> length (skip_newline cs) < length cs"
  by (cases cs; cases "tl cs") (auto simp: skip_newline_def head_in_def)

lemma skip_sep_shorter: "cs \<noteq> [] \<Longrightarrow> skip_sep buff cs = (n, b, cs') \<Longrightarrow> length cs' < length cs"
  by (cases cs) (auto simp: skip_sep_def Let_def le_imp_less_Suc length_dropWhile_le)

text \<open>
  The loop of \<^verbatim>\<open>read_long_string\<close>; \<open>keep\<close> is whether there is a \<^verbatim>\<open>seminfo\<close>, that is, whether
  this is a string and not a comment.  Nested long brackets are an error at level 0 and
  skipped at the others (\<^verbatim>\<open>LUA_COMPAT_LSTR\<close> is 1).
\<close>

function long_loop ::
  "bool \<Rightarrow> int \<Rightarrow> string \<Rightarrow> nat \<Rightarrow> string \<Rightarrow> (string \<times> string \<times> nat) res" where
  "long_loop keep sep buff line cs =
     (case cs of
        [] \<Rightarrow> Inl (LuaError (if keep then ''unfinished long string'' else ''unfinished long comment''))
      | c # cs1 \<Rightarrow>
          if c = CHR ''['' then
            (let (n, buff', cs') = skip_sep buff cs in
             if n = sep then
               if sep = 0 then Inl (LuaError ''nesting of [[...]] is deprecated'')
               else long_loop keep sep (buff' @ [hd cs']) line (tl cs')
             else long_loop keep sep buff' line cs')
          else if c = CHR '']'' then
            (let (n, buff', cs') = skip_sep buff cs in
             if n = sep then Inr (buff' @ [hd cs'], tl cs', line)
             else long_loop keep sep buff' line cs')
          else if is_newline c then
            bindR (inclinenumber cs line) (\<lambda>(cs', line').
              long_loop keep sep (if keep then buff @ [NL] else []) line' cs')
          else long_loop keep sep (if keep then buff @ [c] else buff) line cs1)"
  by pat_completeness auto
termination
proof (relation "measure (\<lambda>(keep, sep, buff, line, cs). length cs)", goal_cases)
  case (2 keep sep buff line cs c cs1 x n y buff' cs')
  then show ?case using skip_sep_shorter [of cs buff n buff' cs'] by auto
next
  case (3 keep sep buff line cs c cs1 x n y buff' cs')
  then show ?case using skip_sep_shorter [of cs buff n buff' cs'] by auto
next
  case (4 keep sep buff line cs c cs1 x n y buff' cs')
  then show ?case using skip_sep_shorter [of cs buff n buff' cs'] by auto
next
  case (5 keep sep buff line cs c cs1 x cs' line')
  then show ?case
    using skip_newline_shorter [of cs] by (auto simp: inclinenumber_def split: if_splits)
qed auto

declare long_loop.simps [simp del]

definition read_long_string ::
  "bool \<Rightarrow> int \<Rightarrow> string \<Rightarrow> nat \<Rightarrow> string \<Rightarrow> (string \<times> string \<times> nat) res" where
  "read_long_string keep sep buff line cs =
     (let buff = buff @ [hd cs]; cs = tl cs in
      bindR (if head_in is_newline cs then inclinenumber cs line else Inr (cs, line)) (\<lambda>(cs, line).
      bindR (long_loop keep sep buff line cs) (\<lambda>(buff, cs, line).
        let m = 2 + nat sep in
        Inr (if keep then take (length buff - 2 * m) (drop m buff) else [], cs, line))))"

fun esc_digits :: "nat \<Rightarrow> nat \<Rightarrow> string \<Rightarrow> nat \<times> string" where
  "esc_digits (Suc k) c (d # cs) =
     (if isdigit d then esc_digits k (10 * c + (of_char d - of_char (CHR ''0''))) cs else (c, d # cs))"
| "esc_digits k c cs = (c, cs)"

lemma esc_digits_shorter: "length (snd (esc_digits k c cs)) \<le> length cs"
  by (induction k c cs rule: esc_digits.induct) auto

lemma esc_digits_rest: "(n, cs') = esc_digits k c cs \<Longrightarrow> length cs' \<le> length cs"
  using esc_digits_shorter [of k c cs] by (metis snd_conv)

lemma inclinenumber_shorter:
  "inclinenumber cs line = Inr st \<Longrightarrow> (cs', line') = st \<Longrightarrow> cs \<noteq> [] \<Longrightarrow> length cs' < length cs"
  using skip_newline_shorter [of cs] by (auto simp: inclinenumber_def split: if_splits)

definition escape_of :: "char \<Rightarrow> char option" where
  "escape_of d =
     (if d = CHR ''a'' then Some (CHR 0x07)
      else if d = CHR ''b'' then Some (CHR 0x08)
      else if d = CHR ''f'' then Some (CHR 0x0C)
      else if d = CHR ''n'' then Some NL
      else if d = CHR ''r'' then Some CR
      else if d = CHR ''t'' then Some TAB
      else if d = CHR ''v'' then Some (CHR 0x0B)
      else None)"

abbreviation BACKSLASH :: char where "BACKSLASH \<equiv> CHR 0x5C"
abbreviation QUOTE :: char where "QUOTE \<equiv> CHR 0x22"

function string_loop :: "char \<Rightarrow> string \<Rightarrow> nat \<Rightarrow> string \<Rightarrow> (string \<times> string \<times> nat) res" where
  "string_loop del buff line cs =
     (case cs of
        [] \<Rightarrow> Inl (LuaError ''unfinished string'')
      | c # cs' \<Rightarrow>
          if c = del then Inr (buff @ [c], cs', line)
          else if is_newline c then Inl (LuaError ''unfinished string'')
          else if c = BACKSLASH then
            (case cs' of
               [] \<Rightarrow> string_loop del buff line cs'
             | d # ds \<Rightarrow>
                 case escape_of d of
                   Some e \<Rightarrow> string_loop del (buff @ [e]) line ds
                 | None \<Rightarrow>
                     if is_newline d then
                       bindR (inclinenumber cs' line) (\<lambda>(cs'', line').
                         string_loop del (buff @ [NL]) line' cs'')
                     else if \<not> isdigit d then string_loop del (buff @ [d]) line ds
                     else
                       let (n, cs'') = esc_digits 3 0 cs' in
                       if n > 255 then Inl (LuaError ''escape sequence too large'')
                       else string_loop del (buff @ [char_of n]) line cs'')
          else string_loop del (buff @ [c]) line cs')"
  by pat_completeness auto
termination
  apply (relation "measure (\<lambda>(del, buff, line, cs). length cs)")
        apply (auto dest!: inclinenumber_shorter esc_digits_rest)
  done

declare string_loop.simps [simp del]

definition read_string :: "string \<Rightarrow> nat \<Rightarrow> string \<Rightarrow> (string \<times> string \<times> nat) res" where
  "read_string buff line cs =
     bindR (string_loop (hd cs) (buff @ [hd cs]) line (tl cs)) (\<lambda>(buff, cs, line).
       Inr (take (length buff - 2) (drop 1 buff), cs, line))"

section \<open>Tokens\<close>

fun index_of :: "string list \<Rightarrow> string \<Rightarrow> nat option" where
  "index_of [] x = None"
| "index_of (y # ys) x = (if y = x then Some 0 else map_option Suc (index_of ys x))"

text \<open>Every round of the loop of \<^verbatim>\<open>llex\<close> consumes input, so its length and one more is enough
  fuel.\<close>

fun llex ::
  "(string \<Rightarrow> 'n option) \<Rightarrow> char option \<Rightarrow> nat \<Rightarrow> char \<Rightarrow> nat \<Rightarrow> string \<Rightarrow>
   ('n token \<times> char \<times> nat \<times> string) res" where
  "llex str2d locale_point 0 decpoint line cs = Inl OutOfFuel"
| "llex str2d locale_point (Suc k) decpoint line cs =
     (let again = llex str2d locale_point k decpoint;
          one = (\<lambda>t cs. Inr (t, decpoint, line, cs));
          or_equal = (\<lambda>c t cs. if head_in (\<lambda>d. d = CHR ''='') cs then Inr (t, decpoint, line, tl cs)
                               else Inr (TK_CHAR c, decpoint, line, cs));
          numeral = (\<lambda>buff cs. bindR (read_numeral str2d locale_point decpoint buff cs) (\<lambda>(n, decpoint, cs).
                       Inr (TK_NUMBER n, decpoint, line, cs)));
          short_comment = (\<lambda>cs. again line (dropWhile (\<lambda>c. \<not> is_newline c) cs))
      in case cs of
        [] \<Rightarrow> Inr (TK_EOS, decpoint, line, [])
      | c # r \<Rightarrow>
          if is_newline c then bindR (inclinenumber cs line) (\<lambda>(cs, line). again line cs)
          else if c = CHR ''-'' then
            if \<not> head_in (\<lambda>d. d = CHR ''-'') r then one (TK_CHAR (CHR ''-'')) r
            else if head_in (\<lambda>d. d = CHR ''['') (tl r) then
              let (sep, buff, r') = skip_sep [] (tl r) in
              if sep \<ge> 0 then
                bindR (read_long_string False sep [] line r') (\<lambda>(_, cs, line). again line cs)
              else short_comment r'
            else short_comment (tl r)
          else if c = CHR ''['' then
            let (sep, buff, r') = skip_sep [] cs in
            if sep \<ge> 0 then
              bindR (read_long_string True sep buff line r') (\<lambda>(t, cs, line). Inr (TK_STRING t, decpoint, line, cs))
            else if sep = -1 then one (TK_CHAR (CHR ''['')) r'
            else Inl (LuaError ''invalid long string delimiter'')
          else if c = CHR ''='' then or_equal c TK_EQ r
          else if c = CHR ''<'' then or_equal c TK_LE r
          else if c = CHR ''>'' then or_equal c TK_GE r
          else if c = CHR ''~'' then or_equal c TK_NE r
          else if c = QUOTE \<or> c = CHR 0x27 then
            bindR (read_string [] line cs) (\<lambda>(t, cs, line). Inr (TK_STRING t, decpoint, line, cs))
          else if c = CHR ''.'' then
            let (dots, buff, r1) = check_next ''.'' ([c], r) in
            if dots then
              let (dots, buff, r2) = check_next ''.'' (buff, r1) in
              if dots then one TK_DOTS r2 else one TK_CONCAT r2
            else if \<not> head_in isdigit r1 then one (TK_CHAR (CHR ''.'')) r1
            else numeral buff r1
          else if isspace c then again line r
          else if isdigit c then numeral [] cs
          else if isalpha c \<or> c = CHR ''_'' then
            let more = (\<lambda>c. isalnum c \<or> c = CHR ''_'');
                name = c # takeWhile more r
            in case index_of luaX_tokens name of
                 Some i \<Rightarrow> one (TK_RESERVED i) (dropWhile more r)
               | None \<Rightarrow> one (TK_NAME name) (dropWhile more r)
          else one (TK_CHAR c) r)"

text \<open>
  The state the parser sees: \<^verbatim>\<open>lookahead\<close> is \<^verbatim>\<open>TK_EOS\<close> when nothing has been looked ahead.
\<close>

record 'n LexState =
  ls_input :: string
  ls_linenumber :: nat
  ls_lastline :: nat
  ls_t :: "'n token"
  ls_lookahead :: "'n token"
  ls_decpoint :: char

definition luaX_setinput :: "string \<Rightarrow> 'n LexState" where
  "luaX_setinput z = \<lparr>ls_input = z, ls_linenumber = 1, ls_lastline = 1, ls_t = TK_EOS,
     ls_lookahead = TK_EOS, ls_decpoint = CHR ''.''\<rparr>"

definition read_token ::
  "(string \<Rightarrow> 'n option) \<Rightarrow> char option \<Rightarrow> 'n LexState \<Rightarrow> ('n token \<times> 'n LexState) res" where
  "read_token str2d locale_point ls =
     bindR (llex str2d locale_point (Suc (length (ls_input ls))) (ls_decpoint ls) (ls_linenumber ls) (ls_input ls))
       (\<lambda>(t, decpoint, line, cs).
         Inr (t, ls\<lparr>ls_decpoint := decpoint, ls_linenumber := line, ls_input := cs\<rparr>))"

definition luaX_next :: "(string \<Rightarrow> 'n option) \<Rightarrow> char option \<Rightarrow> 'n LexState \<Rightarrow> 'n LexState res" where
  "luaX_next str2d locale_point ls =
     (let ls = ls\<lparr>ls_lastline := ls_linenumber ls\<rparr> in
      case ls_lookahead ls of
        TK_EOS \<Rightarrow> bindR (read_token str2d locale_point ls) (\<lambda>(t, ls). Inr (ls\<lparr>ls_t := t\<rparr>))
      | t \<Rightarrow> Inr (ls\<lparr>ls_t := t, ls_lookahead := TK_EOS\<rparr>))"

definition luaX_lookahead :: "(string \<Rightarrow> 'n option) \<Rightarrow> char option \<Rightarrow> 'n LexState \<Rightarrow> 'n LexState res" where
  "luaX_lookahead str2d locale_point ls =
     (case ls_lookahead ls of
        TK_EOS \<Rightarrow> bindR (read_token str2d locale_point ls) (\<lambda>(t, ls). Inr (ls\<lparr>ls_lookahead := t\<rparr>))
      | _ \<Rightarrow> Inl AssertionFailed)"

section \<open>The lexer always moves on\<close>

lemma tl_dropWhile_shorter: "length (tl (dropWhile P xs)) \<le> length xs" "length (dropWhile P xs) \<le> length xs"
  using length_dropWhile_le [of P xs] by auto

lemma check_next_shorter: "check_next chars (buff, cs) = (b, buff', cs') \<Longrightarrow> length cs' \<le> length cs"
  by (auto simp: check_next_def split: if_splits)

text \<open>What closes a long bracket of a level, and what closes a string token.\<close>

definition long_close :: "int \<Rightarrow> string" where
  "long_close sep = CHR '']'' # replicate (nat sep) (CHR ''='') @ [CHR '']'']"

definition closes_string :: "string \<Rightarrow> bool" where
  "closes_string e \<longleftrightarrow> e = [QUOTE] \<or> e = [CHR 0x27] \<or> (\<exists>sep \<ge> 0. e = long_close sep)"

lemma long_close_closes: "0 \<le> sep \<Longrightarrow> closes_string (long_close sep)"
  by (auto simp: closes_string_def)

lemma suffix_tl_Cons: "suffix cs (c # cs)" "suffix (tl cs) cs"
  by (simp_all add: suffix_ConsI)

lemma suffix_shorter: "suffix (e @ cs') cs \<Longrightarrow> e \<noteq> [] \<Longrightarrow> length cs' < length cs"
  by (auto simp: suffix_def)

lemma long_close_nonempty [simp]: "long_close sep \<noteq> []"
  by (simp add: long_close_def)

lemma skip_newline_suffix: "suffix (skip_newline cs) cs"
  by (cases cs; cases "tl cs") (auto simp: skip_newline_def head_in_def suffix_def)

lemma esc_digits_suffix: "suffix (snd (esc_digits k c cs)) cs"
  by (induction k c cs rule: esc_digits.induct) (auto intro: suffix_ConsI)

lemma skip_sep_parts:
  assumes "cs \<noteq> []" "skip_sep buff cs = (n, b, cs')"
  shows "suffix cs' cs" "0 \<le> n \<Longrightarrow> cs' \<noteq> [] \<and> cs = hd cs # replicate (nat n) (CHR ''='') @ hd cs # tl cs'"
proof -
  obtain c r where c: "cs = c # r" using assms(1) by (cases cs) auto
  let ?P = "\<lambda>c. c = CHR ''=''"
  have r: "r = takeWhile ?P r @ dropWhile ?P r" by simp
  have cs': "cs' = dropWhile ?P r" using assms(2) c by (simp add: skip_sep_def Let_def)
  show "suffix cs' cs" unfolding cs' c by (intro suffix_ConsI suffix_dropWhile)
  assume n: "0 \<le> n"
  have eqs: "takeWhile ?P r = replicate (length (takeWhile ?P r)) (CHR ''='')"
    by (rule replicate_length_same [symmetric]) (auto dest: set_takeWhileD)
  from n assms(2) c have "head_in (\<lambda>d. d = c) cs'" "n = int (length (takeWhile ?P r))"
    by (auto simp: skip_sep_def Let_def cs' split: if_splits)
  then have "cs' = c # tl cs'" "nat n = length (takeWhile ?P r)"
    by (auto simp: head_in_def split: list.splits)
  moreover have "cs = c # replicate (length (takeWhile ?P r)) (CHR ''='') @ cs'"
    unfolding c cs' eqs [symmetric] by simp
  ultimately show "cs' \<noteq> [] \<and> cs = hd cs # replicate (nat n) (CHR ''='') @ hd cs # tl cs'"
    using c by (metis list.distinct(1) list.sel(1))
qed

lemma inclinenumber_sound:
  "cs \<noteq> [] \<Longrightarrow> sound (inclinenumber cs line) (\<lambda>(cs', line'). suffix cs' cs \<and> length cs' < length cs \<and> line \<le> line')"
  by (simp add: inclinenumber_def skip_newline_shorter skip_newline_suffix)

lemma sound_later:
  "sound m (\<lambda>(b, cs', line'). suffix (e @ cs') cs1 \<and> (line1 :: nat) \<le> line') \<Longrightarrow>
   suffix cs1 cs \<Longrightarrow> line \<le> line1 \<Longrightarrow>
   sound m (\<lambda>(b, cs', line'). suffix (e @ cs') cs \<and> line \<le> line')"
  by (erule sound_mono) (auto intro: suffix_order.trans)

lemma long_loop_sound:
  assumes "0 \<le> sep"
  shows "sound (long_loop keep sep buff line cs) (\<lambda>(b, cs', line'). suffix (long_close sep @ cs') cs \<and> line \<le> line')"
proof (induction "length cs" arbitrary: buff line cs rule: less_induct)
  case less
  have IH: "sound (long_loop keep sep b l cs1) (\<lambda>(b, cs', line'). suffix (long_close sep @ cs') cs \<and> line \<le> line')"
    if "length cs1 < length cs" "suffix cs1 cs" "line \<le> l" for b l cs1
    by (rule sound_later [OF less [OF that(1)]]) (use that in simp_all)
  show ?case
  proof (cases cs)
    case Nil
    then show ?thesis by (simp add: long_loop.simps)
  next
    case (Cons c r)
    obtain n b cs' where sk: "skip_sep buff cs = (n, b, cs')" by (cases "skip_sep buff cs")
    then have sh: "length cs' < length cs" using skip_sep_shorter [OF _ sk] Cons by simp
    have suf: "suffix cs' cs" using skip_sep_parts(1) [OF _ sk] Cons by simp
    then have suf_tl: "suffix (tl cs') cs" using suffix_tl_Cons(2) suffix_order.trans by blast
    have closing: "suffix (long_close sep @ tl cs') cs" if "n = sep" "c = CHR '']''"
      using skip_sep_parts(2) [OF _ sk] Cons that assms by (auto simp: long_close_def)
    from sh suf suf_tl have after_sep: "sound (long_loop keep sep b' line cs') (\<lambda>(b, cs', line'). suffix (long_close sep @ cs') cs \<and> line \<le> line')"
      "sound (long_loop keep sep b' line (tl cs')) (\<lambda>(b, cs', line'). suffix (long_close sep @ cs') cs \<and> line \<le> line')" for b'
      by (intro IH; simp)+
    have nl: "sound (bindR (inclinenumber cs line) (\<lambda>(cs', line').
          long_loop keep sep (if keep then buff @ [NL] else []) line' cs'))
        (\<lambda>(b, cs', line'). suffix (long_close sep @ cs') cs \<and> line \<le> line')"
    proof (rule sound_bindR [OF inclinenumber_sound])
      show "cs \<noteq> []" using Cons by simp
    qed (use IH in auto)
    have plain: "sound (long_loop keep sep b' line r) (\<lambda>(b, cs', line'). suffix (long_close sep @ cs') cs \<and> line \<le> line')" for b'
      using Cons by (intro IH) (simp_all add: suffix_ConsI)
    have "long_loop keep sep buff line cs =
       (if c = CHR ''['' then
          (if n = sep then
             if sep = 0 then Inl (LuaError ''nesting of [[...]] is deprecated'')
             else long_loop keep sep (b @ [hd cs']) line (tl cs')
           else long_loop keep sep b line cs')
        else if c = CHR '']'' then
          (if n = sep then Inr (b @ [hd cs'], tl cs', line) else long_loop keep sep b line cs')
        else if is_newline c then
          bindR (inclinenumber cs line) (\<lambda>(cs', line').
            long_loop keep sep (if keep then buff @ [NL] else []) line' cs')
        else long_loop keep sep (if keep then buff @ [c] else buff) line r)"
      unfolding Cons long_loop.simps [of keep sep buff line "c # r"] list.case sk [unfolded Cons] Let_def prod.case
      by (rule refl)
    moreover have "length (tl cs') < length cs" using sh by simp
    ultimately show ?thesis using after_sep nl plain closing by (simp del: length_tl)
  qed
qed

lemma read_long_string_sound:
  "cs \<noteq> [] \<Longrightarrow> 0 \<le> sep \<Longrightarrow>
     sound (read_long_string keep sep buff line cs) (\<lambda>(t, cs', line'). suffix (long_close sep @ cs') cs \<and> line \<le> line')"
  unfolding read_long_string_def Let_def
proof (rule sound_bindR [where Q = "\<lambda>(cs', line'). suffix cs' cs \<and> line \<le> line'"])
  assume "cs \<noteq> []"
  then show "sound (if head_in is_newline (tl cs) then inclinenumber (tl cs) line else Inr (tl cs, line))
      (\<lambda>(cs', line'). suffix cs' cs \<and> line \<le> line')"
    by (cases cs) (auto simp: head_in_def suffix_ConsI split: list.splits
        intro!: sound_mono [OF inclinenumber_sound])
  assume sep: "0 \<le> sep"
  fix st :: "string \<times> nat"
  assume "case st of (cs', line') \<Rightarrow> suffix cs' cs \<and> line \<le> line'"
  then show "sound (case st of (cs, line) \<Rightarrow> bindR (long_loop keep sep (buff @ [hd tl_cs]) line cs)
      (\<lambda>(buff, cs, line). Inr (f buff, cs, line))) (\<lambda>(t, cs', line'). suffix (long_close sep @ cs') cs \<and> line \<le> line')"
    for f :: "string \<Rightarrow> string" and tl_cs
    by (auto intro!: sound_bindR [OF long_loop_sound [OF sep]] intro: suffix_order.trans)
qed

lemma string_loop_sound:
  "sound (string_loop del buff line cs) (\<lambda>(b, cs', line'). suffix ([del] @ cs') cs \<and> line \<le> line')"
proof (induction "length cs" arbitrary: buff line cs rule: less_induct)
  case less
  have IH: "sound (string_loop del b l cs1) (\<lambda>(b, cs', line'). suffix ([del] @ cs') cs \<and> line \<le> line')"
    if "length cs1 < length cs" "suffix cs1 cs" "line \<le> l" for b l cs1
    by (rule sound_later [OF less [OF that(1)]]) (use that in simp_all)
  show ?case
  proof (cases cs)
    case Nil
    then show ?thesis by (simp add: string_loop.simps)
  next
    case (Cons c r)
    show ?thesis
    proof (cases "c = BACKSLASH \<and> r \<noteq> []")
      case False
      have "sound (string_loop del b line r) (\<lambda>(b, cs', line'). suffix ([del] @ cs') cs \<and> line \<le> line')" for b
        using Cons by (intro IH) (simp_all add: suffix_ConsI)
      with False Cons show ?thesis
        by (subst string_loop.simps) (auto split: list.split)
    next
      case True
      then obtain d ds where r: "r = d # ds" by (cases r) auto
      have plain: "sound (string_loop del b line ds) (\<lambda>(b, cs', line'). suffix ([del] @ cs') cs \<and> line \<le> line')" for b
        using Cons r by (intro IH) (simp_all add: suffix_ConsI)
      have nl: "sound (bindR (inclinenumber (d # ds) line) (\<lambda>(cs'', line'). string_loop del (buff @ [NL]) line' cs''))
          (\<lambda>(b, cs', line'). suffix ([del] @ cs') cs \<and> line \<le> line')"
      proof (rule sound_bindR [OF inclinenumber_sound])
        have "length (d # ds) < length cs" "suffix (d # ds) cs" using Cons r by (simp_all add: suffix_ConsI)
        then show "\<And>st. case st of (cs', line') \<Rightarrow> suffix cs' (d # ds) \<and> length cs' < length (d # ds) \<and> line \<le> line' \<Longrightarrow>
            sound (case st of (cs'', line') \<Rightarrow> string_loop del (buff @ [NL]) line' cs'')
              (\<lambda>(b, cs', line'). suffix ([del] @ cs') cs \<and> line \<le> line')"
          using IH by (auto intro: suffix_order.trans)
      qed simp
      obtain n cs'' where e: "esc_digits 3 0 (d # ds) = (n, cs'')" by (cases "esc_digits 3 0 (d # ds)")
      have dig: "sound (string_loop del b line cs'') (\<lambda>(b, cs', line'). suffix ([del] @ cs') cs \<and> line \<le> line')" for b
        using esc_digits_shorter [of 3 0 "d # ds"] esc_digits_suffix [of 3 0 "d # ds"] e Cons r
        by (intro IH) (simp_all add: suffix_ConsI)
      show ?thesis
        unfolding Cons r string_loop.simps [of del buff line "c # d # ds"]
        using True plain nl dig Cons r e
        by (simp del: esc_digits.simps split: option.split)
    qed
  qed
qed


lemma read_string_sound:
  "cs \<noteq> [] \<Longrightarrow>
     sound (read_string buff line cs) (\<lambda>(t, cs', line'). suffix ([hd cs] @ cs') (tl cs) \<and> line \<le> line')"
  unfolding read_string_def by (rule sound_bindR [OF string_loop_sound]) auto

lemma read_numeral_sound:
  assumes "cs \<noteq> []"
  shows "sound (read_numeral str2d lp dp buff cs) (\<lambda>(n, dp', cs'). length cs' < length cs)"
proof -
  let ?digits = "\<lambda>c. isdigit c \<or> c = CHR ''.''"
  let ?more = "\<lambda>c. isalnum c \<or> c = CHR ''_''"
  obtain e b1 cs1 where 1: "check_next ''Ee'' (buff @ hd cs # takeWhile ?digits (tl cs), dropWhile ?digits (tl cs)) = (e, b1, cs1)"
    by (cases "check_next ''Ee'' (buff @ hd cs # takeWhile ?digits (tl cs), dropWhile ?digits (tl cs))")
  obtain b2 cs2 where 2: "(if e then snd (check_next ''+-'' (b1, cs1)) else (b1, cs1)) = (b2, cs2)"
    by (cases "if e then snd (check_next ''+-'' (b1, cs1)) else (b1, cs1)")
  have "length cs1 \<le> length (tl cs)"
    using check_next_shorter [OF 1] tl_dropWhile_shorter(2) [of ?digits "tl cs"] by linarith
  moreover have "length cs2 \<le> length cs1"
  proof (cases e)
    case True
    obtain e' b' c' where "check_next ''+-'' (b1, cs1) = (e', b', c')"
      by (cases "check_next ''+-'' (b1, cs1)")
    with 2 True check_next_shorter [OF this] show ?thesis by simp
  qed (use 2 in simp)
  moreover have "length (tl cs) < length cs" using assms by simp
  ultimately have "length (dropWhile ?more cs2) < length cs"
    using tl_dropWhile_shorter(2) [of ?more cs2] by linarith
  then have fin: "sound (case str2d b of
      Some n \<Rightarrow> Inr (n, dp, dropWhile ?more cs2)
    | None \<Rightarrow> bindR (trydecpoint str2d lp dp b) (\<lambda>(n, decpoint). Inr (n, decpoint, dropWhile ?more cs2)))
    (\<lambda>(n, dp', cs'). length cs' < length cs)" for b
    by (auto simp: trydecpoint_def Let_def split: option.split)
  show ?thesis
    unfolding read_numeral_def Let_def 1 prod.case 2 by (rule fin)
qed

definition moved_on :: "nat \<Rightarrow> string \<Rightarrow> 'n token \<times> char \<times> nat \<times> string \<Rightarrow> bool" where
  "moved_on line cs r \<longleftrightarrow>
     (case r of (t, dp, line', cs') \<Rightarrow>
        line \<le> line' \<and> length cs' \<le> length cs \<and> (if t = TK_EOS then cs' = [] else length cs' < length cs) \<and>
        (case t of TK_STRING s \<Rightarrow> \<exists>e. closes_string e \<and> suffix (e @ cs') cs | _ \<Rightarrow> True))"

lemma moved_on_again:
  "sound m (moved_on line1 cs1) \<Longrightarrow> line \<le> line1 \<Longrightarrow> suffix cs1 cs \<Longrightarrow> sound m (moved_on line cs)"
  by (erule sound_mono)
    (auto simp: moved_on_def dest: suffix_length_le intro: suffix_order.trans
      split: prod.splits if_splits token.splits)

lemma moved_on_string:
  "suffix (e @ cs') cs \<Longrightarrow> closes_string e \<Longrightarrow> e \<noteq> [] \<Longrightarrow> line \<le> line' \<Longrightarrow>
     moved_on line cs (TK_STRING s, dp, line', cs')"
  using suffix_shorter [of e cs' cs] by (auto simp: moved_on_def)

lemma llex_sound:
  fixes str2d :: "string \<Rightarrow> 'n option"
  shows "length cs < k \<Longrightarrow> sound (llex str2d lp k dp line cs) (moved_on line cs)"
proof (induction k arbitrary: dp line cs)
  case (Suc k)
  show ?case
  proof (cases cs)
    case Nil
    then show ?thesis by (simp add: moved_on_def)
  next
    case (Cons c r)
    have again: "sound (llex str2d lp k dp line1 cs1) (moved_on line cs)"
      if "line \<le> line1" "suffix cs1 r" for line1 cs1
      by (rule moved_on_again [OF Suc.IH])
        (use that Suc.prems Cons suffix_length_le [OF that(2)] in \<open>simp_all add: suffix_ConsI\<close>)
    have comment: "sound (llex str2d lp k dp line (dropWhile P cs1)) (moved_on line cs)"
      if "suffix cs1 r" for P cs1
      using suffix_order.trans [OF suffix_dropWhile that] by (intro again) simp_all
    have one: "moved_on line cs (t, dp, line, cs1)"
      if "t \<noteq> TK_EOS" "\<And>s. t \<noteq> TK_STRING s" "length cs1 < length cs" for t :: "'n token" and cs1
      using that by (cases t) (auto simp: moved_on_def)
    have num: "sound (bindR (read_numeral str2d lp dp b cs1) (\<lambda>(n, decpoint, cs'). Inr (TK_NUMBER n, decpoint, line, cs')))
        (moved_on line cs)" if "cs1 \<noteq> []" "length cs1 \<le> length cs" for b cs1
      by (rule sound_bindR [OF read_numeral_sound [OF that(1)]]) (use that in \<open>auto simp: moved_on_def\<close>)
    have nl: "sound (bindR (inclinenumber cs line) (\<lambda>(cs', line'). llex str2d lp k dp line' cs')) (moved_on line cs)"
      by (rule sound_bindR [OF inclinenumber_sound]) (use again Cons in \<open>auto simp: suffix_Cons\<close>)
    have str: "sound (bindR (read_string [] line cs) (\<lambda>(t, cs', line'). Inr (TK_STRING t, dp, line', cs'))) (moved_on line cs)"
      if "c = QUOTE \<or> c = CHR 0x27"
      by (rule sound_bindR [OF read_string_sound])
        (use Cons that in \<open>auto intro!: moved_on_string [of "[c]"] simp: closes_string_def suffix_ConsI\<close>)
    have long: "sound (bindR (read_long_string True sep b line cs1) (\<lambda>(t, cs', line'). Inr (TK_STRING t, dp, line', cs'))) (moved_on line cs)"
      if "cs1 \<noteq> []" "0 \<le> sep" "suffix cs1 cs" for sep b cs1
      by (rule sound_bindR [OF read_long_string_sound [OF that(1,2)]])
        (use that in \<open>auto intro!: moved_on_string [of "long_close sep"] long_close_closes
          intro: suffix_order.trans\<close>)
    obtain sep b r' where sk: "skip_sep [] cs = (sep, b, r')" by (cases "skip_sep [] cs")
    then have sk_r: "length r' < length cs" "suffix r' cs"
      using skip_sep_shorter [OF _ sk] skip_sep_parts(1) [OF _ sk] Cons by simp_all
    obtain sep2 b2 r2 where sk2: "skip_sep [] (tl r) = (sep2, b2, r2)" by (cases "skip_sep [] (tl r)")
    have sk2_r: "suffix r2 r" if "tl r \<noteq> []"
      using skip_sep_parts(1) [OF that sk2] suffix_tl_Cons(2) [of r] by (rule suffix_order.trans)
    have head: "head_in P xs \<Longrightarrow> xs \<noteq> []" for P and xs :: string by (auto simp: head_in_def)
    have sep_end: "sep \<ge> 0 \<Longrightarrow> r' \<noteq> []"
      using sk by (auto simp: skip_sep_def Let_def head_in_def split: if_splits list.splits)
    have sep2_end: "sep2 \<ge> 0 \<Longrightarrow> r2 \<noteq> []"
      using sk2 by (auto simp: skip_sep_def Let_def head_in_def split: if_splits list.splits)
    have long_comment: "sound (bindR (read_long_string False sep2 [] line r2) (\<lambda>(t, cs', line'). llex str2d lp k dp line' cs')) (moved_on line cs)"
      if "sep2 \<ge> 0" "tl r \<noteq> []"
    proof (rule sound_bindR [OF read_long_string_sound [OF sep2_end [OF that(1)] that(1)]])
      fix x :: "string \<times> string \<times> nat"
      assume x: "case x of (t, cs', line') \<Rightarrow> suffix (long_close sep2 @ cs') r2 \<and> line \<le> line'"
      then have "suffix (fst (snd x)) r"
        using sk2_r [OF that(2)] by (auto intro: suffix_order.trans dest: suffix_appendD)
      with x again show "sound (case x of (t, cs', line') \<Rightarrow> llex str2d lp k dp line' cs') (moved_on line cs)"
        by (auto split: prod.splits)
    qed
    obtain d1 b1 r1 where c1: "check_next ''.'' ([c], r) = (d1, b1, r1)" by (cases "check_next ''.'' ([c], r)")
    have r1: "length r1 \<le> length r" by (rule check_next_shorter [OF c1])
    obtain d3 b3 r3 where c3: "check_next ''.'' (b1, r1) = (d3, b3, r3)" by (cases "check_next ''.'' (b1, r1)")
    have r3: "length r3 \<le> length r" using check_next_shorter [OF c3] r1 by linarith
    have tail: "length (tl r) < length cs" "length r < length cs" "length r1 < length cs" "length r3 < length cs"
      "length (tl (tl r)) < length cs"
      using r1 r3 Cons by (auto simp: le_imp_less_Suc)
    have sufs: "suffix (tl r) r" "suffix (tl (tl r)) r" "suffix r r"
      using suffix_tl_Cons(2) suffix_order.trans by blast+
    have ne: "cs \<noteq> []" using Cons by simp
    consider "is_newline c" | "c = CHR ''-''" | "c = CHR ''[''"
      | "c \<in> {CHR ''='', CHR ''<'', CHR ''>'', CHR ''~''}"
      | "c = QUOTE \<or> c = CHR 0x27" | "c = CHR ''.''"
      | "\<not> is_newline c" "c \<notin> {CHR ''-'', CHR ''['', CHR ''='', CHR ''<'', CHR ''>'', CHR ''~'', QUOTE, CHR 0x27, CHR ''.''}"
      by blast
    then show ?thesis
    proof cases
      case 1
      with nl Cons show ?thesis by simp
    next
      case 2
      then have "llex str2d lp (Suc k) dp line cs =
         (if \<not> head_in (\<lambda>d. d = CHR ''-'') r then Inr (TK_CHAR (CHR ''-''), dp, line, r)
          else if head_in (\<lambda>d. d = CHR ''['') (tl r) then
            if sep2 \<ge> 0 then
              bindR (read_long_string False sep2 [] line r2) (\<lambda>(t, cs', line'). llex str2d lp k dp line' cs')
            else llex str2d lp k dp line (dropWhile (\<lambda>c. \<not> is_newline c) r2)
          else llex str2d lp k dp line (dropWhile (\<lambda>c. \<not> is_newline c) (tl r)))"
        using Cons sk2 by (simp add: is_newline_def)
      moreover have "head_in P (tl r) \<Longrightarrow> tl r \<noteq> []" for P by (rule head)
      ultimately show ?thesis using long_comment sk2_r tail sufs by (auto simp: one comment)
    next
      case 3
      then have "llex str2d lp (Suc k) dp line cs =
         (if sep \<ge> 0 then
            bindR (read_long_string True sep b line r') (\<lambda>(t, cs', line'). Inr (TK_STRING t, dp, line', cs'))
          else if sep = -1 then Inr (TK_CHAR (CHR ''[''), dp, line, r')
          else Inl (LuaError ''invalid long string delimiter''))"
        using Cons sk by (simp add: is_newline_def)
      then show ?thesis using long sep_end sk_r by (auto simp: one)
    next
      case 4
      define t :: "'n token" where "t = (if c = CHR ''='' then TK_EQ else if c = CHR ''<'' then TK_LE
          else if c = CHR ''>'' then TK_GE else TK_NE)"
      have "llex str2d lp (Suc k) dp line cs =
         (if head_in (\<lambda>d. d = CHR ''='') r then Inr (t, dp, line, tl r)
          else Inr (TK_CHAR c, dp, line, r))"
        using 4 Cons by (auto simp: is_newline_def t_def)
      moreover have "t \<noteq> TK_EOS" "t \<noteq> TK_STRING s" for s by (simp_all add: t_def)
      ultimately show ?thesis using tail by (simp add: one)
    next
      case 5
      then have "llex str2d lp (Suc k) dp line cs =
         bindR (read_string [] line cs) (\<lambda>(t, cs', line'). Inr (TK_STRING t, dp, line', cs'))"
        using Cons by (auto simp: is_newline_def)
      then show ?thesis using str 5 by simp
    next
      case 6
      then have "llex str2d lp (Suc k) dp line cs =
         (if d1 then if d3 then Inr (TK_DOTS, dp, line, r3) else Inr (TK_CONCAT, dp, line, r3)
          else if \<not> head_in isdigit r1 then Inr (TK_CHAR (CHR ''.''), dp, line, r1)
          else bindR (read_numeral str2d lp dp b1 r1) (\<lambda>(n, decpoint, cs'). Inr (TK_NUMBER n, decpoint, line, cs')))"
        using Cons c1 c3 by (simp add: is_newline_def)
      then show ?thesis using tail num [of r1 b1] head [of isdigit r1] by (auto simp: one)
    next
      case 7
      let ?more = "\<lambda>c. isalnum c \<or> c = CHR ''_''"
      have "llex str2d lp (Suc k) dp line cs =
         (if isspace c then llex str2d lp k dp line r
          else if isdigit c then bindR (read_numeral str2d lp dp [] cs) (\<lambda>(n, decpoint, cs'). Inr (TK_NUMBER n, decpoint, line, cs'))
          else if isalpha c \<or> c = CHR ''_'' then
            case index_of luaX_tokens (c # takeWhile ?more r) of
                 Some i \<Rightarrow> Inr (TK_RESERVED i, dp, line, dropWhile ?more r)
               | None \<Rightarrow> Inr (TK_NAME (c # takeWhile ?more r), dp, line, dropWhile ?more r)
          else Inr (TK_CHAR c, dp, line, r))"
        using 7 Cons by (simp add: Let_def)
      moreover have "length (dropWhile ?more r) < length cs"
        using tl_dropWhile_shorter(2) [of ?more r] Cons by simp
      ultimately show ?thesis
        using again [of line r, OF _ sufs(3)] num [of cs "[]"] tail ne
        by (auto simp: one simp del: llex.simps split: option.split)
    qed
  qed
qed simp


text \<open>C31: the lexer reads every text to its end: whatever bytes a program consists of, asking
  for tokens one after the other either raises a syntax error or consumes input with every
  token until the end of the text is reported, and it is reported only there; the line counter
  never goes back.  A string token is never the unfinished rest of a text: what it consumed ends
  with a quote or a closing long bracket; and where the text of a long bracket, string or comment, is read, it is
  accepted only with the closing bracket of its own level, so that one that is never closed is an
  error.\<close>

theorem lexer_moves_on:
  fixes str2d :: "string \<Rightarrow> 'n option"
  assumes "cs \<noteq> []" "0 \<le> sep"
  shows "sound (read_token str2d locale_point ls) (\<lambda>(t, ls').
      ls_linenumber ls \<le> ls_linenumber ls' \<and>
      (if t = TK_EOS then ls_input ls' = [] else length (ls_input ls') < length (ls_input ls)) \<and>
      (case t of TK_STRING s \<Rightarrow> \<exists>e. closes_string e \<and> suffix (e @ ls_input ls') (ls_input ls) | _ \<Rightarrow> True)) \<and>
    sound (read_long_string keep sep buff line cs) (\<lambda>(t, cs', line'). suffix (long_close sep @ cs') cs)"
proof
  show "sound (read_token str2d locale_point ls) (\<lambda>(t, ls').
      ls_linenumber ls \<le> ls_linenumber ls' \<and>
      (if t = TK_EOS then ls_input ls' = [] else length (ls_input ls') < length (ls_input ls)) \<and>
      (case t of TK_STRING s \<Rightarrow> \<exists>e. closes_string e \<and> suffix (e @ ls_input ls') (ls_input ls) | _ \<Rightarrow> True))"
    unfolding read_token_def
  proof (rule sound_bindR [OF llex_sound])
    fix x :: "'n token \<times> char \<times> nat \<times> string"
    assume "moved_on (ls_linenumber ls) (ls_input ls) x"
    then show "sound (case x of (t, decpoint, line, cs) \<Rightarrow>
        Inr (t, ls\<lparr>ls_decpoint := decpoint, ls_linenumber := line, ls_input := cs\<rparr>))
      (\<lambda>(t, ls'). ls_linenumber ls \<le> ls_linenumber ls' \<and>
        (if t = TK_EOS then ls_input ls' = [] else length (ls_input ls') < length (ls_input ls)) \<and>
        (case t of TK_STRING s \<Rightarrow> \<exists>e. closes_string e \<and> suffix (e @ ls_input ls') (ls_input ls) | _ \<Rightarrow> True))"
      by (cases x; cases "fst x") (simp_all add: moved_on_def)
  qed simp
  show "sound (read_long_string keep sep buff line cs) (\<lambda>(t, cs', line'). suffix (long_close sep @ cs') cs)"
    by (rule sound_mono [OF read_long_string_sound [OF assms]]) auto
qed

lemma luaX_lookahead_next:
  fixes str2d :: "string \<Rightarrow> 'n option"
  assumes "ls_lookahead ls = TK_EOS"
  shows "bindR (luaX_lookahead str2d lp ls) (\<lambda>ls. bindR (luaX_next str2d lp ls) (\<lambda>ls. Inr (ls_t ls, ls_input ls))) =
    bindR (luaX_next str2d lp ls) (\<lambda>ls. Inr (ls_t ls, ls_input ls))"
proof -
  let ?llex = "llex str2d lp (Suc (length (ls_input ls))) (ls_decpoint ls) (ls_linenumber ls) (ls_input ls)"
  show ?thesis
  proof (cases ?llex)
    case (Inl e)
    with assms show ?thesis
      by (simp add: luaX_lookahead_def luaX_next_def read_token_def Let_def del: llex.simps)
  next
    case (Inr r)
    obtain t dp line cs where r: "r = (t, dp, line, cs)" by (cases r)
    have at_end: "t = TK_EOS \<Longrightarrow> cs = []"
      using llex_sound [of "ls_input ls" "Suc (length (ls_input ls))" str2d lp "ls_decpoint ls" "ls_linenumber ls"] Inr r
      by (simp add: moved_on_def del: llex.simps)
    from at_end have eos: "t = TK_EOS \<Longrightarrow> llex str2d lp (Suc (length cs)) dp line cs = Inr (TK_EOS, dp, line, [])"
      by simp
    show ?thesis
      using Inr r assms eos at_end
      by (cases t) (simp_all add: luaX_lookahead_def luaX_next_def read_token_def Let_def del: llex.simps)
  qed
qed

theorem lexer_moves_on_witness:
  "sound (read_token Some None (luaX_setinput ''x = 1 -- one'')) (\<lambda>(t, ls').
    ls_linenumber (luaX_setinput ''x = 1 -- one'' :: string LexState) \<le> ls_linenumber ls' \<and>
    (if t = TK_EOS then ls_input ls' = []
     else length (ls_input ls') < length (ls_input (luaX_setinput ''x = 1 -- one'' :: string LexState)))) \<and>
   sound (read_long_string False 1 [] 1 ''[a]] b]=] c'') (\<lambda>(t, cs', line'). suffix ('']=]'' @ cs') ''[a]] b]=] c'')"
proof -
  have "long_close 1 = '']=]''" by (simp add: long_close_def)
  moreover note lexer_moves_on [of "''[a]] b]=] c''" 1 Some None
      "luaX_setinput ''x = 1 -- one'' :: string LexState" False "[]" 1]
  ultimately show ?thesis by (auto elim!: sound_mono)
qed

section \<open>The format %q\<close>

text \<open>\<^verbatim>\<open>addquoted\<close> of \<^verbatim>\<open>src/lstrlib.c\<close>, what \<^verbatim>\<open>string.format\<close> writes for \<^verbatim>\<open>%q\<close>.\<close>

definition quote_char :: "char \<Rightarrow> string" where
  "quote_char c =
     (if c = QUOTE \<or> c = BACKSLASH \<or> c = NL then [BACKSLASH, c]
      else if c = CR then [BACKSLASH, CHR ''r'']
      else if c = NUL then BACKSLASH # ''000''
      else [c])"

definition addquoted :: "string \<Rightarrow> string" where
  "addquoted s = QUOTE # concat (map quote_char s) @ [QUOTE]"

lemma quoted_head: "concat (map quote_char s) @ QUOTE # cs = d # ds \<Longrightarrow> d \<noteq> CR"
  by (cases s) (auto simp: quote_char_def split: if_splits)

lemma string_loop_simps:
  "string_loop del buff line (del # cs) = Inr (buff @ [del], cs, line)"
  "c \<noteq> del \<Longrightarrow> \<not> is_newline c \<Longrightarrow> c \<noteq> BACKSLASH \<Longrightarrow>
     string_loop del buff line (c # cs) = string_loop del (buff @ [c]) line cs"
  "del \<noteq> BACKSLASH \<Longrightarrow> escape_of d = Some e \<Longrightarrow>
     string_loop del buff line (BACKSLASH # d # cs) = string_loop del (buff @ [e]) line cs"
  "del \<noteq> BACKSLASH \<Longrightarrow> escape_of d = None \<Longrightarrow> \<not> is_newline d \<Longrightarrow> \<not> isdigit d \<Longrightarrow>
     string_loop del buff line (BACKSLASH # d # cs) = string_loop del (buff @ [d]) line cs"
  by (simp_all add: string_loop.simps [of del buff line "_ # _"] is_newline_def)

lemma quote_char_read:
  assumes "line + 1 < MAX_INT" "cs \<noteq> []" "hd cs \<noteq> CR"
  shows "string_loop QUOTE buff line (quote_char c @ cs) =
    string_loop QUOTE (buff @ [c]) (if c = NL then line + 1 else line) cs"
proof -
  consider "c = QUOTE \<or> c = BACKSLASH" | "c = NL" | "c = CR" | "c = NUL"
    | "c \<notin> {QUOTE, BACKSLASH, NL, CR, NUL}" by blast
  then show ?thesis
  proof cases
    case 1
    then show ?thesis
      by (auto simp: quote_char_def string_loop_simps escape_of_def is_newline_def isdigit_def)
  next
    case 2
    have "skip_newline (NL # cs) = cs"
      using assms by (cases cs) (auto simp: skip_newline_def head_in_def is_newline_def)
    with 2 assms show ?thesis
      by (simp add: quote_char_def string_loop.simps [of QUOTE buff line "BACKSLASH # _"] escape_of_def
          is_newline_def inclinenumber_def)
  next
    case 3
    then show ?thesis by (simp add: quote_char_def string_loop_simps escape_of_def)
  next
    case 4
    have "char_of (0 :: nat) = NUL" by (simp add: char_of_def)
    with 4 show ?thesis
      by (simp add: quote_char_def string_loop.simps [of QUOTE buff line "BACKSLASH # _"] escape_of_def
          is_newline_def isdigit_def numeral_3_eq_3)
  next
    case 5
    then show ?thesis by (auto simp: quote_char_def string_loop_simps is_newline_def)
  qed
qed

lemma quoted_read:
  "line + length s < MAX_INT \<Longrightarrow>
     string_loop QUOTE buff line (concat (map quote_char s) @ QUOTE # cs) =
       Inr (buff @ s @ [QUOTE], cs, line + length (filter (\<lambda>c. c = NL) s))"
proof (induction s arbitrary: buff line)
  case Nil
  then show ?case by (simp add: string_loop_simps)
next
  case (Cons c s)
  let ?rest = "concat (map quote_char s) @ QUOTE # cs"
  obtain d ds where "?rest = d # ds" by (cases ?rest) auto
  then have "?rest \<noteq> []" "hd ?rest \<noteq> CR" using quoted_head [of s cs d ds] by auto
  then have "string_loop QUOTE buff line (quote_char c @ ?rest) =
      string_loop QUOTE (buff @ [c]) (if c = NL then line + 1 else line) ?rest"
    using Cons.prems by (intro quote_char_read) simp_all
  with Cons.IH [of "if c = NL then line + 1 else line" "buff @ [c]"] Cons.prems show ?case
    by simp
qed

text \<open>C30: what \<^verbatim>\<open>string.format("%q", s)\<close> writes is read back as \<^verbatim>\<open>s\<close>: for every byte string,
  with quotes, backslashes, line breaks of either kind and zero bytes in it, the lexer
  reads the quoted text, wherever it stands in a program, as one string token with exactly
  the bytes of \<^verbatim>\<open>s\<close>, goes on behind the closing quote, and counts its lines.\<close>

theorem quoted_string_is_read_back:
  fixes str2d :: "string \<Rightarrow> 'n option"
  assumes "ls_input ls = addquoted s @ after" "ls_linenumber ls + length s < MAX_INT"
  shows "read_token str2d locale_point ls =
    Inr (TK_STRING s, ls\<lparr>ls_input := after,
      ls_linenumber := ls_linenumber ls + length (filter (\<lambda>c. c = NL) s)\<rparr>)"
proof -
  have "read_string [] (ls_linenumber ls) (ls_input ls) =
      Inr (s, after, ls_linenumber ls + length (filter (\<lambda>c. c = NL) s))"
    using quoted_read [OF assms(2), of "[QUOTE]" after] assms(1)
    by (simp add: read_string_def addquoted_def)
  then show ?thesis
    using assms(1) by (simp add: read_token_def addquoted_def is_newline_def Let_def)
qed

lemma quoted_string_is_read_back_witness:
  "read_token Some None (luaX_setinput (addquoted [CHR ''a'', QUOTE, NL, CR, NUL, CHR ''7''] @ '', 1)'')) =
    Inr (TK_STRING [CHR ''a'', QUOTE, NL, CR, NUL, CHR ''7''],
      (luaX_setinput (addquoted [CHR ''a'', QUOTE, NL, CR, NUL, CHR ''7''] @ '', 1)''))\<lparr>ls_input := '', 1)'',
        ls_linenumber := ls_linenumber (luaX_setinput (addquoted [CHR ''a'', QUOTE, NL, CR, NUL, CHR ''7''] @ '', 1)'')
           :: string LexState) + length (filter (\<lambda>c. c = NL) [CHR ''a'', QUOTE, NL, CR, NUL, CHR ''7''])\<rparr>)"
  by (rule quoted_string_is_read_back) (simp_all add: luaX_setinput_def MAX_INT_def)

text \<open>
  A zero byte after a point is taken for another point: \<^verbatim>\<open>check_next\<close> asks \<^verbatim>\<open>strchr\<close>, which
  finds the terminator of its argument.
\<close>

lemma zero_byte_reads_as_dot:
  "llex Some None (Suc k) (CHR ''.'') 1 [CHR ''.'', NUL, NUL, CHR ''x''] = Inr (TK_DOTS, CHR ''.'', 1, ''x'')"
  by (simp add: is_newline_def check_next_def head_in_def)

end
